(* ===== verification/Prelude.thy ===== *)
theory Prelude
  imports Main "HOL-Library.Word"
begin

text \<open>
  Shared material: the machine types of the modelled build (a 32-bit Windows build with
  MinGW, as \<open>moonwiki/Makefile\<close> says: 32-bit \<open>int\<close>, \<open>size_t\<close> and pointers), the result type
  of operations that can raise a Lua error, and generic lemmas on lists and words.
\<close>

type_synonym byte = "8 word"
type_synonym u32 = "32 word"
type_synonym addr = "32 word"

text \<open>Limits of \<open>luaconf.h\<close> and \<open>lua.h\<close>.\<close>

definition LUAI_MAXCCALLS :: nat where "LUAI_MAXCCALLS = 200"
definition LUA_MINSTACK :: nat where "LUA_MINSTACK = 20"

text \<open>
  The ways a modelled operation can leave without a value. \<open>ErrRun\<close>, \<open>ErrSyntax\<close> and
  \<open>ErrMem\<close> are the error codes of \<open>lua.h\<close>, thrown by \<open>luaD_throw\<close>; \<open>Diverges\<close> stands for a
  loop of the code that never ends, and \<open>Undef\<close> for undefined behaviour of C (a \<open>NULL\<close> dereference
  or an index past the end of an array).
\<close>

datatype lua_error = ErrRun string | ErrSyntax string | ErrMem | Diverges | Undef

type_synonym 'a res = "lua_error + 'a"

definition bindR :: "'a res \<Rightarrow> ('a \<Rightarrow> 'b res) \<Rightarrow> 'b res" where
  "bindR m f = (case m of Inl e \<Rightarrow> Inl e | Inr x \<Rightarrow> f x)"

lemma bindR_simps [simp]:
  "bindR (Inl e) f = Inl e"
  "bindR (Inr x) f = f x"
  by (simp_all add: bindR_def)

lemma bindR_eq_Inr:
  "bindR m f = Inr y \<longleftrightarrow> (\<exists>x. m = Inr x \<and> f x = Inr y)"
  by (cases m) auto

end
