(* ===== verification/LuaNumber.thy ===== *)
theory LuaNumber
  imports Prelude "HOL-Library.Log_Nat"
begin

text \<open>
  The number type of \<open>luaconf.h\<close>: \<open>lua_Number\<close> is the C type \<open>double\<close>, modelled by its 64 bits
  (1 sign bit, 11 exponent bits, 52 fraction bits). A finite double is an integer multiple of
  \<open>2 ^ -1074\<close>; \<open>dbl_int\<close> is that integer, and an infinity is read as the multiple that its bits
  would have, which is larger than every finite one. The arithmetic macros compute the exact
  result and round it to nearest, ties to even, as IEEE 754 prescribes. Every NaN result is one
  quiet NaN.
\<close>

type_synonym lua_Number = "64 word"

subsection \<open>Fields and classes\<close>

definition dbl_neg :: "lua_Number \<Rightarrow> bool" where
  "dbl_neg d = (2 ^ 63 \<le> unat d)"

definition dbl_bits :: "lua_Number \<Rightarrow> nat" where
  "dbl_bits d = unat d mod 2 ^ 63"

definition dbl_exp :: "lua_Number \<Rightarrow> nat" where
  "dbl_exp d = dbl_bits d div 2 ^ 52"

definition dbl_frac :: "lua_Number \<Rightarrow> nat" where
  "dbl_frac d = dbl_bits d mod 2 ^ 52"

definition dbl_isnan :: "lua_Number \<Rightarrow> bool" where
  "dbl_isnan d = (dbl_exp d = 2047 \<and> dbl_frac d \<noteq> 0)"

definition dbl_isinf :: "lua_Number \<Rightarrow> bool" where
  "dbl_isinf d = (dbl_exp d = 2047 \<and> dbl_frac d = 0)"

definition dbl_mag :: "lua_Number \<Rightarrow> nat" where
  "dbl_mag d = (if dbl_exp d = 0 then dbl_frac d
                else (2 ^ 52 + dbl_frac d) * 2 ^ (dbl_exp d - 1))"

definition dbl_int :: "lua_Number \<Rightarrow> int" where
  "dbl_int d = (if dbl_neg d then - int (dbl_mag d) else int (dbl_mag d))"

subsection \<open>Building a double: rounding to nearest, ties to even\<close>

definition dbl_make :: "bool \<Rightarrow> nat \<Rightarrow> lua_Number" where
  "dbl_make neg bits = word_of_nat (bits + (if neg then 2 ^ 63 else 0))"

definition dbl_nan :: lua_Number where "dbl_nan = dbl_make False (2047 * 2 ^ 52 + 2 ^ 51)"
definition dbl_inf :: "bool \<Rightarrow> lua_Number" where "dbl_inf neg = dbl_make neg (2047 * 2 ^ 52)"
definition dbl_zero :: "bool \<Rightarrow> lua_Number" where "dbl_zero neg = dbl_make neg 0"

definition round_half_even :: "nat \<Rightarrow> nat \<Rightarrow> nat" where
  "round_half_even n d =
     (let q = n div d; r = n mod d
      in if d < 2 * r \<or> (2 * r = d \<and> odd q) then q + 1 else q)"

text \<open>
  The bits of the double nearest to \<open>n / d\<close> (in units of \<open>2 ^ -1074\<close>): \<open>k\<close> is the number of
  low bits that do not fit into a significand of 53 bits.
\<close>

definition dbl_round_bits :: "nat \<Rightarrow> nat \<Rightarrow> nat" where
  "dbl_round_bits n d =
     (let k = floorlog 2 (n div d) - 53
      in min (2047 * 2 ^ 52) (k * 2 ^ 52 + round_half_even n (d * 2 ^ k)))"

definition dbl_round :: "bool \<Rightarrow> nat \<Rightarrow> nat \<Rightarrow> lua_Number" where
  "dbl_round neg n d = dbl_make neg (dbl_round_bits n d)"

subsection \<open>The operations of \<open>luaconf.h\<close> and the conversions of \<open>llimits.h\<close>\<close>

definition luai_numeq :: "lua_Number \<Rightarrow> lua_Number \<Rightarrow> bool" where
  "luai_numeq a b = (\<not> dbl_isnan a \<and> \<not> dbl_isnan b \<and> dbl_int a = dbl_int b)"

definition luai_numlt :: "lua_Number \<Rightarrow> lua_Number \<Rightarrow> bool" where
  "luai_numlt a b = (\<not> dbl_isnan a \<and> \<not> dbl_isnan b \<and> dbl_int a < dbl_int b)"

definition luai_numle :: "lua_Number \<Rightarrow> lua_Number \<Rightarrow> bool" where
  "luai_numle a b = (\<not> dbl_isnan a \<and> \<not> dbl_isnan b \<and> dbl_int a \<le> dbl_int b)"

definition luai_numisnan :: "lua_Number \<Rightarrow> bool" where
  "luai_numisnan a = (\<not> luai_numeq a a)"

definition luai_numunm :: "lua_Number \<Rightarrow> lua_Number" where
  "luai_numunm a = dbl_make (\<not> dbl_neg a) (dbl_bits a)"

definition luai_numadd :: "lua_Number \<Rightarrow> lua_Number \<Rightarrow> lua_Number" where
  "luai_numadd a b =
     (if dbl_isnan a \<or> dbl_isnan b then dbl_nan
      else if dbl_isinf a then (if dbl_isinf b \<and> dbl_neg a \<noteq> dbl_neg b then dbl_nan else a)
      else if dbl_isinf b then b
      else let s = dbl_int a + dbl_int b
           in if s = 0 then dbl_zero (dbl_neg a \<and> dbl_neg b)
              else dbl_round (s < 0) (nat \<bar>s\<bar>) 1)"

definition luai_numsub :: "lua_Number \<Rightarrow> lua_Number \<Rightarrow> lua_Number" where
  "luai_numsub a b = (if dbl_isnan b then dbl_nan else luai_numadd a (luai_numunm b))"

definition luai_nummul :: "lua_Number \<Rightarrow> lua_Number \<Rightarrow> lua_Number" where
  "luai_nummul a b =
     (let neg = (dbl_neg a \<noteq> dbl_neg b)
      in if dbl_isnan a \<or> dbl_isnan b then dbl_nan
         else if dbl_isinf a then (if dbl_mag b = 0 then dbl_nan else dbl_inf neg)
         else if dbl_isinf b then (if dbl_mag a = 0 then dbl_nan else dbl_inf neg)
         else dbl_round neg (dbl_mag a * dbl_mag b) (2 ^ 1074))"

definition luai_numdiv :: "lua_Number \<Rightarrow> lua_Number \<Rightarrow> lua_Number" where
  "luai_numdiv a b =
     (let neg = (dbl_neg a \<noteq> dbl_neg b)
      in if dbl_isnan a \<or> dbl_isnan b then dbl_nan
         else if dbl_isinf a then (if dbl_isinf b then dbl_nan else dbl_inf neg)
         else if dbl_isinf b then dbl_zero neg
         else if dbl_mag b = 0 then (if dbl_mag a = 0 then dbl_nan else dbl_inf neg)
         else dbl_round neg (dbl_mag a * 2 ^ 1074) (dbl_mag b))"

text \<open>\<open>floor\<close> of the C library.\<close>

definition dbl_floor :: "lua_Number \<Rightarrow> lua_Number" where
  "dbl_floor a =
     (if dbl_isnan a \<or> dbl_isinf a then a
      else let z = dbl_int a div 2 ^ 1074
           in if z = 0 then dbl_zero (dbl_neg a)
              else dbl_round (z < 0) (nat \<bar>z\<bar> * 2 ^ 1074) 1)"

definition luai_nummod :: "lua_Number \<Rightarrow> lua_Number \<Rightarrow> lua_Number" where
  "luai_nummod a b = luai_numsub a (luai_nummul (dbl_floor (luai_numdiv a b)) b)"

text \<open>\<open>cast_num\<close> on an \<open>int\<close>, and \<open>lua_number2int\<close> as the build's compiler takes it: the sum
  with \<open>6755399441055744 = 2 ^ 52 + 2 ^ 51\<close> is stored and its low 32 bits are read as an \<open>int\<close>.\<close>

definition cast_num :: "int \<Rightarrow> lua_Number" where
  "cast_num i = dbl_round (i < 0) (nat \<bar>i\<bar> * 2 ^ 1074) 1"

definition lua_number2int :: "lua_Number \<Rightarrow> int" where
  "lua_number2int d =
     sint (word_of_nat (unat (luai_numadd d (cast_num 6755399441055744))) :: u32)"

subsection \<open>Facts about rounding\<close>

lemma round_half_even_exact:
  assumes "0 < d"
  shows "round_half_even (m * d) d = m"
  using assms by (simp add: round_half_even_def Let_def)

lemma nat_block: "r < m \<Longrightarrow> (a * m + r) div m = a" "r < m \<Longrightarrow> (a * m + r) mod m = r" for m :: nat
  by auto

lemma unat_word64: "m < 2 ^ 64 \<Longrightarrow> unat (word_of_nat m :: 64 word) = m"
  by (simp add: unat_of_nat take_bit_nat_eq_self)

lemma dbl_make_fields:
  assumes "b < 2 ^ 63"
  shows "dbl_bits (dbl_make neg b) = b" and "dbl_neg (dbl_make neg b) = neg"
proof -
  have "b + (if neg then 2 ^ 63 else 0) < 2 ^ 64" using assms by simp
  then have u: "unat (dbl_make neg b) = b + (if neg then 2 ^ 63 else 0)"
    unfolding dbl_make_def by (rule unat_word64)
  then show "dbl_bits (dbl_make neg b) = b" "dbl_neg (dbl_make neg b) = neg"
    using assms by (auto simp: dbl_bits_def dbl_neg_def)
qed

lemma dbl_make_eq:
  "dbl_make (dbl_neg d) (dbl_bits d) = d"
proof -
  have "unat d < 2 ^ LENGTH(64)" by (rule unsigned_less)
  then have lt: "unat d < 2 ^ 64" by simp
  have "unat d div 2 ^ 63 < 2" using lt by (simp add: less_mult_imp_div_less)
  then have "unat d = unat d mod 2 ^ 63 + (if 2 ^ 63 \<le> unat d then 2 ^ 63 else 0)"
    by (auto simp: le_mod_geq lt not_le)
  then have "dbl_bits d + (if dbl_neg d then 2 ^ 63 else 0) = unat d"
    by (simp add: dbl_bits_def dbl_neg_def)
  then show ?thesis by (simp add: dbl_make_def)
qed

lemma dbl_bits_split: "dbl_bits d = dbl_exp d * 2 ^ 52 + dbl_frac d"
  by (simp add: dbl_exp_def dbl_frac_def)

lemma dbl_frac_lt: "dbl_frac d < 2 ^ 52"
  by (simp add: dbl_frac_def)

lemma dbl_exp_lt: "dbl_exp d < 2048"
  by (simp add: dbl_exp_def dbl_bits_def less_mult_imp_div_less)

lemma dbl_round_exact:
  assumes n: "n = c * 2 ^ (floorlog 2 n - 53)" and big: "floorlog 2 n \<le> 2098"
  shows "dbl_mag (dbl_round neg n 1) = n" and "dbl_neg (dbl_round neg n 1) = neg"
    and "dbl_exp (dbl_round neg n 1) < 2047"
    and "dbl_bits (dbl_round neg n 1) = (floorlog 2 n - 53) * 2 ^ 52 + c"
proof -
  define k where "k = floorlog 2 n - 53"
  have nk: "n = c * 2 ^ k" using n by (simp add: k_def)
  have rhe: "round_half_even n (1 * 2 ^ k) = c"
    using round_half_even_exact[of "2 ^ k" c] nk by simp
  have up: "n < 2 ^ floorlog 2 n" using floorlog_bounds[of n 2] by (cases "n = 0") auto
  have c: "c < 2 ^ 53 \<and> (0 < k \<longrightarrow> 2 ^ 52 \<le> c)"
  proof (cases "0 < k")
    case True
    then have fl: "floorlog 2 n = k + 53" by (simp add: k_def)
    then have "0 < n" by (cases "n = 0") (auto simp: floorlog_def)
    then have lo: "2 ^ (k + 52) \<le> n" using floorlog_bounds[of n 2] fl by (simp add: add.commute)
    have "c * 2 ^ k < 2 ^ 53 * 2 ^ k" using up fl nk by (simp add: power_add mult.commute)
    moreover have "2 ^ 52 * 2 ^ k \<le> c * 2 ^ k" using lo nk by (simp add: power_add mult.commute)
    ultimately show ?thesis by simp
  next
    case False
    then have "floorlog 2 n \<le> 53" by (simp add: k_def)
    then have "(2::nat) ^ floorlog 2 n \<le> 2 ^ 53" by (rule power_increasing) simp
    then show ?thesis using False up nk by simp
  qed
  have k2045: "k \<le> 2045" using big by (simp add: k_def)
  have bits_lt: "k * 2 ^ 52 + c < 2047 * 2 ^ 52"
  proof -
    have "k * 2 ^ 52 \<le> 2045 * 2 ^ 52" using k2045 by simp
    then show ?thesis using c by simp
  qed
  have rb: "dbl_round_bits n 1 = k * 2 ^ 52 + c"
    using bits_lt rhe by (simp add: dbl_round_bits_def Let_def k_def)
  have lt63: "k * 2 ^ 52 + c < 2 ^ 63" using bits_lt by simp
  note f = dbl_make_fields[OF lt63, of neg]
  show b: "dbl_bits (dbl_round neg n 1) = (floorlog 2 n - 53) * 2 ^ 52 + c"
    using f rb by (simp add: dbl_round_def k_def)
  show "dbl_neg (dbl_round neg n 1) = neg" using f rb by (simp add: dbl_round_def)
  have bk: "dbl_bits (dbl_round neg n 1) = k * 2 ^ 52 + c" using b by (simp add: k_def)
  show "dbl_exp (dbl_round neg n 1) < 2047"
    unfolding dbl_exp_def bk using bits_lt by (simp add: less_mult_imp_div_less)
  show "dbl_mag (dbl_round neg n 1) = n"
  proof (cases "c < 2 ^ 52")
    case True
    then have "k = 0" using c by auto
    then show ?thesis using True bk nk by (simp add: dbl_mag_def dbl_exp_def dbl_frac_def)
  next
    case False
    then have bk': "dbl_bits (dbl_round neg n 1) = (k + 1) * 2 ^ 52 + (c - 2 ^ 52)"
      using bk by simp
    have lt: "c - 2 ^ 52 < 2 ^ 52" using c False by (simp; arith)
    have e: "dbl_exp (dbl_round neg n 1) = k + 1"
      unfolding dbl_exp_def bk' using lt by (rule nat_block)
    have f: "dbl_frac (dbl_round neg n 1) = c - 2 ^ 52"
      unfolding dbl_frac_def bk' using lt by (rule nat_block)
    show ?thesis using e f False nk by (simp add: dbl_mag_def)
  qed
qed


lemma dbl_round_int_exact:
  assumes "0 < c" "c < 2 ^ 53" "j \<le> 1600"
  shows "dbl_mag (dbl_round neg (c * 2 ^ j) 1) = c * 2 ^ j"
    and "dbl_neg (dbl_round neg (c * 2 ^ j) 1) = neg"
    and "dbl_exp (dbl_round neg (c * 2 ^ j) 1) < 2047"
proof -
  have fl: "floorlog 2 (c * 2 ^ j) = floorlog 2 c + j"
    using assms by simp
  have c53: "floorlog 2 c \<le> 53" using assms floorlog_leI[of c 2 53] by simp
  let ?k = "floorlog 2 (c * 2 ^ j) - 53"
  have "?k \<le> j" using fl c53 by simp
  then have "c * 2 ^ j = (c * 2 ^ (j - ?k)) * 2 ^ ?k"
    by (simp add: power_add[symmetric] mult.assoc)
  moreover have "floorlog 2 (c * 2 ^ j) \<le> 2098" using fl c53 assms by simp
  ultimately show "dbl_mag (dbl_round neg (c * 2 ^ j) 1) = c * 2 ^ j"
    "dbl_neg (dbl_round neg (c * 2 ^ j) 1) = neg"
    "dbl_exp (dbl_round neg (c * 2 ^ j) 1) < 2047"
    using dbl_round_exact[of "c * 2 ^ j" "c * 2 ^ (j - ?k)" neg] by blast+
qed

lemma dbl_finite:
  assumes "dbl_exp d < 2047"
  shows "\<not> dbl_isnan d" and "\<not> dbl_isinf d"
  using assms by (auto simp: dbl_isnan_def dbl_isinf_def)

lemma dbl_zero_props [simp]:
  "dbl_int (dbl_zero s) = 0" "\<not> dbl_isnan (dbl_zero s)" "\<not> dbl_isinf (dbl_zero s)"
  using dbl_make_fields[of 0 s]
  by (auto simp: dbl_zero_def dbl_int_def dbl_mag_def dbl_exp_def dbl_frac_def dbl_isnan_def
      dbl_isinf_def)

lemma cast_num_0: "cast_num 0 = dbl_zero False"
  by (simp add: cast_num_def dbl_round_def dbl_round_bits_def round_half_even_def
      floorlog_def dbl_zero_def)

lemma cast_num_props:
  assumes "\<bar>i\<bar> < 2 ^ 53"
  shows "dbl_int (cast_num i) = i * 2 ^ 1074"
    and "\<not> dbl_isnan (cast_num i)" and "\<not> dbl_isinf (cast_num i)"
proof -
  have "dbl_int (cast_num i) = i * 2 ^ 1074 \<and> \<not> dbl_isnan (cast_num i) \<and> \<not> dbl_isinf (cast_num i)"
  proof (cases "i = 0")
    case True
    then show ?thesis by (simp add: cast_num_0)
  next
    case False
    define c where "c = nat \<bar>i\<bar>"
    have c: "0 < c" "c < 2 ^ 53" using False assms by (auto simp: c_def)
    define n where "n = c * 2 ^ 1074"
    have e: "cast_num i = dbl_round (i < 0) n 1"
      unfolding cast_num_def n_def c_def ..
    have r: "dbl_mag (cast_num i) = n" "dbl_neg (cast_num i) = (i < 0)" "dbl_exp (cast_num i) < 2047"
      using dbl_round_int_exact[OF c, of 1074] unfolding e n_def by simp_all
    have "int n = \<bar>i\<bar> * 2 ^ 1074" unfolding n_def c_def by simp
    then have "dbl_int (cast_num i) = i * 2 ^ 1074"
      unfolding dbl_int_def r by (cases "i < 0") simp_all
    then show ?thesis using r(3) dbl_finite by blast
  qed
  then show "dbl_int (cast_num i) = i * 2 ^ 1074" "\<not> dbl_isnan (cast_num i)"
    "\<not> dbl_isinf (cast_num i)" by auto
qed

lemma luai_numeq_refl [simp]: "luai_numeq a a = (\<not> dbl_isnan a)"
  by (auto simp: luai_numeq_def)

lemma luai_numisnan_iff: "luai_numisnan a = dbl_isnan a"
  by (simp add: luai_numisnan_def)

lemma luai_numeq_sym: "luai_numeq a b \<Longrightarrow> luai_numeq b a"
  by (simp add: luai_numeq_def)

lemma luai_numeq_trans: "luai_numeq a b \<Longrightarrow> luai_numeq b c \<Longrightarrow> luai_numeq a c"
  by (simp add: luai_numeq_def)

lemma luai_numeq_cast_num:
  "\<bar>i\<bar> < 2 ^ 53 \<Longrightarrow> \<bar>j\<bar> < 2 ^ 53 \<Longrightarrow> luai_numeq (cast_num i) (cast_num j) \<longleftrightarrow> i = j"
  by (simp add: luai_numeq_def cast_num_props)

lemma word32_of_low_bits:
  assumes "int n = m * 2 ^ 32 + i" "- (2 ^ 31) \<le> i" "i < 2 ^ 31"
  shows "sint (word_of_nat n :: u32) = i"
proof -
  have "(word_of_nat n :: u32) = word_of_int (int n)" by simp
  also have "\<dots> = word_of_int i" unfolding assms(1)
    by (subst word_of_int_eq_iff) (simp only: take_bit_eq_mod, simp)
  finally show ?thesis using assms(2,3)
    by (simp add: sint_sbintrunc' signed_take_bit_int_eq_self)
qed

text \<open>\<open>lua_number2int\<close> undoes \<open>cast_num\<close>, on both zeros too.\<close>

lemma lua_number2int_int:
  assumes d: "dbl_int d = i * 2 ^ 1074" "\<not> dbl_isnan d" "\<not> dbl_isinf d"
    and i: "- (2 ^ 31) \<le> i" "i < 2 ^ 31"
  shows "lua_number2int d = i"
proof -
  define c where "c = nat (i + 6755399441055744)"
  have c: "2 ^ 52 \<le> c" "c < 2 ^ 53" "int c = i + 6755399441055744" using i by (auto simp: c_def)
  define n where "n = c * 2 ^ 1074"
  have C: "dbl_int (cast_num 6755399441055744) = 6755399441055744 * 2 ^ 1074"
    "\<not> dbl_isnan (cast_num 6755399441055744)" "\<not> dbl_isinf (cast_num 6755399441055744)"
    by (rule cast_num_props; simp)+
  have s: "dbl_int d + dbl_int (cast_num 6755399441055744) = int n"
    unfolding d(1) C(1) n_def using c(3) by (simp add: distrib_right)
  have n0: "0 < n" using c unfolding n_def by simp
  have fl: "floorlog 2 n = 53 + 1074"
  proof -
    have "floorlog 2 c = 53" 
      using floorlog_leI[of c 2 53] floorlog_geI[of 2 53 c] c by simp
    then show ?thesis unfolding n_def using c by (subst floorlog_power) auto
  qed
  have k: "floorlog 2 n - 53 = 1074" "floorlog 2 n \<le> 2098" using fl by simp_all
  have "luai_numadd d (cast_num 6755399441055744) = dbl_round False n 1"
    unfolding luai_numadd_def Let_def s using d C n0 by simp
  moreover have "dbl_bits (dbl_round False n 1) = 1074 * 2 ^ 52 + c"
    using dbl_round_exact(4)[of n c False] k unfolding n_def by simp
  moreover have "dbl_neg (dbl_round False n 1) = False"
    using dbl_round_exact(2)[of n c False] k unfolding n_def by simp
  ultimately have u: "luai_numadd d (cast_num 6755399441055744) = dbl_make False (1074 * 2 ^ 52 + c)"
    using dbl_make_eq[of "dbl_round False n 1"] by simp
  have "unat (dbl_make False (1074 * 2 ^ 52 + c)) = 1074 * 2 ^ 52 + c"
    unfolding dbl_make_def using c(2) by (subst unat_word64) auto
  moreover have "int (1074 * 2 ^ 52 + c) = (1074 * 2 ^ 20 + 1572864) * 2 ^ 32 + i"
    using c(3) by simp
  ultimately show ?thesis
    unfolding lua_number2int_def u using i by (simp only: word32_of_low_bits)
qed

lemma lua_number2int_cast_num:
  "- (2 ^ 31) \<le> i \<Longrightarrow> i < 2 ^ 31 \<Longrightarrow> lua_number2int (cast_num i) = i"
  by (rule lua_number2int_int) (simp_all add: cast_num_props)

lemma lua_number2int_numeq:
  assumes "luai_numeq (cast_num i) d" "- (2 ^ 31) \<le> i" "i < 2 ^ 31"
  shows "lua_number2int d = i"
proof (rule lua_number2int_int)
  have p: "dbl_int (cast_num i) = i * 2 ^ 1074" using assms by (simp add: cast_num_props)
  then show e: "dbl_int d = i * 2 ^ 1074" using assms(1) by (simp add: luai_numeq_def)
  show "\<not> dbl_isnan d" using assms(1) by (simp add: luai_numeq_def)
  show "\<not> dbl_isinf d"
  proof
    assume "dbl_isinf d"
    then have "dbl_mag d = 2 ^ 52 * 2 ^ 2046" by (simp add: dbl_isinf_def dbl_mag_def)
    then have "\<bar>dbl_int d\<bar> = 2 ^ 1024 * 2 ^ 1074" by (simp add: dbl_int_def)
    moreover have "\<bar>i\<bar> * 2 ^ 1074 < 2 ^ 1024 * (2::int) ^ 1074"
      using assms(2,3) by (intro mult_strict_right_mono) auto
    ultimately show False unfolding e by (simp only: abs_mult) simp
  qed
qed (use assms in auto)

text \<open>Equal numbers other than zero have equal bits: what \<open>hashnum\<close> relies on.\<close>

lemma dbl_mag_range:
  assumes "0 < dbl_exp d"
  shows "2 ^ 52 * 2 ^ (dbl_exp d - 1) \<le> dbl_mag d" "dbl_mag d < 2 ^ 53 * 2 ^ (dbl_exp d - 1)"
  using assms dbl_frac_lt[of d] by (auto simp: dbl_mag_def)

lemma dbl_mag_exp_le:
  assumes "dbl_mag a = dbl_mag b"
  shows "dbl_exp a \<le> dbl_exp b"
proof (rule ccontr)
  assume "\<not> dbl_exp a \<le> dbl_exp b"
  then have lt: "dbl_exp b < dbl_exp a" by simp
  have la: "2 ^ 52 * 2 ^ (dbl_exp a - 1) \<le> dbl_mag a" using lt by (intro dbl_mag_range) simp
  have "dbl_mag b < 2 ^ 52 * 2 ^ (dbl_exp a - 1)"
  proof (cases "dbl_exp b = 0")
    case True
    then have "dbl_mag b < 2 ^ 52" using dbl_frac_lt[of b] by (simp add: dbl_mag_def)
    also have "\<dots> \<le> 2 ^ 52 * 2 ^ (dbl_exp a - 1)" by simp
    finally show ?thesis .
  next
    case False
    then have "dbl_mag b < 2 ^ 53 * 2 ^ (dbl_exp b - 1)" by (intro dbl_mag_range) simp
    also have "\<dots> = 2 ^ 52 * 2 ^ dbl_exp b" using False by (cases "dbl_exp b") auto
    also have "\<dots> \<le> 2 ^ 52 * 2 ^ (dbl_exp a - 1)" using lt by (intro mult_left_mono power_increasing) auto
    finally show ?thesis .
  qed
  then show False using la assms by simp
qed

lemma dbl_mag_inj:
  assumes "dbl_mag a = dbl_mag b"
  shows "dbl_bits a = dbl_bits b"
proof -
  have e: "dbl_exp a = dbl_exp b"
    using assms dbl_mag_exp_le[of a b] dbl_mag_exp_le[of b a] by simp
  have "dbl_frac a = dbl_frac b"
  proof (cases "dbl_exp b = 0")
    case True
    then show ?thesis using assms e by (simp add: dbl_mag_def)
  next
    case False
    then have "(2 ^ 52 + dbl_frac a) * 2 ^ (dbl_exp b - 1) = (2 ^ 52 + dbl_frac b) * 2 ^ (dbl_exp b - 1)"
      using assms e by (simp only: dbl_mag_def if_False)
    then have "2 ^ 52 + dbl_frac a = 2 ^ 52 + dbl_frac b"
      by (subst (asm) mult_right_cancel) simp_all
    then show ?thesis by simp
  qed
  then show ?thesis using e by (simp add: dbl_bits_split)
qed

lemma luai_numeq_bits:
  assumes "luai_numeq a b" "\<not> luai_numeq a (cast_num 0)"
  shows "a = b"
proof -
  have nz: "dbl_int a \<noteq> 0" using assms by (auto simp: luai_numeq_def cast_num_0)
  have eq: "dbl_int a = dbl_int b" using assms(1) by (simp add: luai_numeq_def)
  then have "dbl_mag a = dbl_mag b \<and> dbl_neg a = dbl_neg b"
    using nz by (auto simp: dbl_int_def split: if_splits)
  then have n: "dbl_neg a = dbl_neg b" and m: "dbl_bits a = dbl_bits b" using dbl_mag_inj[of a b] by blast+
  have "a = dbl_make (dbl_neg a) (dbl_bits a)" by (rule dbl_make_eq[symmetric])
  also have "\<dots> = b" unfolding n m by (rule dbl_make_eq)
  finally show ?thesis .
qed

subsection \<open>C casts to integers: truncation\<close>

definition dbl_trunc :: "lua_Number \<Rightarrow> int" where
  "dbl_trunc d = (if dbl_neg d then - int (dbl_mag d div 2 ^ 1074) else int (dbl_mag d div 2 ^ 1074))"

definition dbl_fits :: "int \<Rightarrow> int \<Rightarrow> lua_Number \<Rightarrow> bool" where
  "dbl_fits lo hi d = (\<not> dbl_isnan d \<and> \<not> dbl_isinf d \<and> lo \<le> dbl_trunc d \<and> dbl_trunc d \<le> hi)"

lemma dbl_trunc_cast_num: "\<bar>i\<bar> < 2 ^ 53 \<Longrightarrow> dbl_trunc (cast_num i) = i"
proof -
  assume i: "\<bar>i\<bar> < 2 ^ 53"
  have d: "dbl_int (cast_num i) = i * 2 ^ 1074" by (rule cast_num_props(1)[OF i])
  have "int (dbl_mag (cast_num i)) = \<bar>i\<bar> * 2 ^ 1074"
    using d by (auto simp: dbl_int_def abs_mult split: if_splits)
  then have m: "int (dbl_mag (cast_num i) div 2 ^ 1074) = \<bar>i\<bar>"
    by (simp add: zdiv_int)
  have "dbl_neg (cast_num i) \<longrightarrow> i \<le> 0" "\<not> dbl_neg (cast_num i) \<longrightarrow> 0 \<le> i"
    using d by (auto simp: dbl_int_def zero_le_mult_iff split: if_splits)
  then show ?thesis using m by (auto simp: dbl_trunc_def)
qed

lemma dbl_fits_cast_num: "\<bar>i\<bar> < 2 ^ 53 \<Longrightarrow> dbl_fits lo hi (cast_num i) \<longleftrightarrow> lo \<le> i \<and> i \<le> hi"
  by (simp add: dbl_fits_def dbl_trunc_cast_num cast_num_props)

end
