(* ===== verification/Server.thy ===== *)
theory Server
  imports LuaNumber
begin

text \<open>
  \<open>MoonWiki.c\<close>: the HTTP server around the Lua interpreter. What Windows and the Lua scripts do
  is not in the program: every call that leaves it takes its answer from a queue of the state, so
  the theorems hold for every sequence of answers, and a run that has used up a queue is
  \<open>Blocked\<close>. A call of a script comes with the registered C functions it calls back. What the
  program does to its surroundings is a trace of events.
\<close>

subsection \<open>Outcomes\<close>

text \<open>\<open>Crash\<close> is undefined behaviour: a null or short buffer, a stack that overflows.\<close>

datatype 'a outcome = Ret 'a | Exit int | Blocked | Crash

text \<open>Values on the Lua stack. A table is the association list of what was put into it.\<close>

datatype lval =
    VNil
  | VBool bool
  | VNum lua_Number
  | VStr string
  | VTable "(lval \<times> lval) list"
  | VGlobal string

datatype event =
    EvStderr string
  | EvLog string
  | EvOpenLog string string
  | EvListen int int
  | EvNonBlocking int
  | EvAccept int
  | EvSend int string
  | EvCloseSocket int
  | EvCall string "lval list"
  | EvReturn "lval list"
  | EvFindFirst "string option"
  | EvCopyFile "string option" "string option" bool
  | EvMkdir string
  | EvFreeConsole
  | EvShutdownNoRetry
  | EvOpenLib string
  | EvRegister string
  | EvDofile string
  | EvLuaClose

record find_data =
  wYear :: nat
  wMonth :: nat
  wDay :: nat
  wHour :: nat
  wMinute :: nat
  cFileName :: string

datatype callback =
    CallFindFiles "lval list"
  | CallReadFromSocket "lval list"
  | CallCopyFile "lval list"

datatype logstream = LogStdout | LogFile string

record answers =
  a_lua_open :: "bool list"
  a_dofile :: "int list"
  a_pcall :: "(callback list \<times> (lval + lval list)) list"
  a_wsastartup :: "int list"
  a_socket :: "int list"
  a_bind :: "int option list"
  a_listen :: "int option list"
  a_accept :: "(int + nat \<times> string) list"
  a_ioctl :: "bool list"
  a_send :: "(int + nat) list"
  a_recv :: "(int + string) list"
  a_malloc :: "bool list"
  a_find :: "find_data list list"
  a_copy :: "int option list"
  a_fopen :: "bool list"
  a_mkdir :: "int option list"

record server =
  port :: int
  logfd :: "logstream option"
  connectionSocket :: int
  luaL :: bool
  lstack :: "lval list"
  exportDir :: "string option"
  world :: answers
  trace :: "event list"

type_synonym 'a prog = "server \<Rightarrow> 'a outcome \<times> server"

definition retP :: "'a \<Rightarrow> 'a prog" where "retP x s = (Ret x, s)"

definition bindP :: "'a prog \<Rightarrow> ('a \<Rightarrow> 'b prog) \<Rightarrow> 'b prog" where
  "bindP p f s =
     (case p s of
        (Ret x, s') \<Rightarrow> f x s'
      | (Exit c, s') \<Rightarrow> (Exit c, s')
      | (Blocked, s') \<Rightarrow> (Blocked, s')
      | (Crash, s') \<Rightarrow> (Crash, s'))"

definition seqP :: "'a prog \<Rightarrow> 'b prog \<Rightarrow> 'b prog" where "seqP p q = bindP p (\<lambda>_. q)"

definition getP :: "(server \<Rightarrow> 'a) \<Rightarrow> 'a prog" where "getP f s = (Ret (f s), s)"

definition putP :: "(server \<Rightarrow> server) \<Rightarrow> unit prog" where "putP f s = (Ret (), f s)"

definition stopP :: "'a outcome \<Rightarrow> 'a prog" where "stopP c s = (c, s)"

definition emit :: "event \<Rightarrow> unit prog" where "emit e = putP (\<lambda>s. s\<lparr>trace := trace s @ [e]\<rparr>)"

text \<open>Taking the next answer of a queue.\<close>

definition ask :: "(answers \<Rightarrow> 'b list) \<Rightarrow> ('b list \<Rightarrow> answers \<Rightarrow> answers) \<Rightarrow> 'b prog" where
  "ask get upd s =
     (case get (world s) of
        [] \<Rightarrow> (Blocked, s)
      | x # xs \<Rightarrow> (Ret x, s\<lparr>world := upd xs (world s)\<rparr>))"

subsection \<open>The Lua stack\<close>

text \<open>
  \<open>LUA_MINSTACK\<close> slots are guaranteed to a C function beyond its arguments (and to the host);
  the program never asks for more. Reading below the bottom of the frame does not occur.
\<close>


definition lua_push :: "nat \<Rightarrow> lval \<Rightarrow> unit prog" where
  "lua_push nargs v s =
     (if length (lstack s) < nargs + LUA_MINSTACK
      then (Ret (), s\<lparr>lstack := lstack s @ [v]\<rparr>) else (Crash, s))"

definition lua_pop :: "nat \<Rightarrow> unit prog" where
  "lua_pop n = putP (\<lambda>s. s\<lparr>lstack := take (length (lstack s) - n) (lstack s)\<rparr>)"

text \<open>The value at a positive or negative index; an index above the top reads as nil.\<close>

definition lua_index :: "int \<Rightarrow> lval prog" where
  "lua_index i = getP (\<lambda>s. let n = length (lstack s);
                             k = (if 0 < i then nat (i - 1) else nat (int n + i))
                         in if k < n then lstack s ! k else VNil)"

text \<open>
  Conversions of the Lua API. How a number is written as a string and a string read as a number
  is the C library's business: a parameter.
\<close>

record lua_conv =
  fmt_number :: "lua_Number \<Rightarrow> string"
  str2number :: "string \<Rightarrow> lua_Number option"

definition lua_tostring :: "lua_conv \<Rightarrow> lval \<Rightarrow> string option" where
  "lua_tostring cv v =
     (case v of VStr s \<Rightarrow> Some s | VNum n \<Rightarrow> Some (fmt_number cv n) | _ \<Rightarrow> None)"

definition lua_tonumber :: "lua_conv \<Rightarrow> lval \<Rightarrow> lua_Number" where
  "lua_tonumber cv v =
     (case v of
        VNum n \<Rightarrow> n
      | VStr s \<Rightarrow> (case str2number cv s of Some n \<Rightarrow> n | None \<Rightarrow> cast_num 0)
      | _ \<Rightarrow> cast_num 0)"

definition lua_toboolean :: "lval \<Rightarrow> bool" where
  "lua_toboolean v = (v \<noteq> VNil \<and> v \<noteq> VBool False)"

text \<open>A C string ends at its first zero byte.\<close>

definition cstr :: "string \<Rightarrow> string" where "cstr s = takeWhile (\<lambda>c. c \<noteq> CHR 0x00) s"

text \<open>\<open>(int) d\<close> and \<open>(size_t) d\<close>: undefined where the truncated value does not fit.\<close>

definition double_to_int :: "lua_Number \<Rightarrow> int prog" where
  "double_to_int d = (if dbl_fits (- (2 ^ 31)) (2 ^ 31 - 1) d then retP (dbl_trunc d) else stopP Crash)"

definition double_to_size :: "lua_Number \<Rightarrow> int prog" where
  "double_to_size d = (if dbl_fits 0 (2 ^ 32 - 1) d then retP (dbl_trunc d) else stopP Crash)"

subsection \<open>Logging and fatal errors\<close>

definition SOCKET_ERROR :: int where "SOCKET_ERROR = -1"
definition INVALID_SOCKET :: int where "INVALID_SOCKET = -1"
definition WSAEINTR :: int where "WSAEINTR = 10004"
definition WSAEWOULDBLOCK :: int where "WSAEWOULDBLOCK = 10035"
definition WSAEADDRINUSE :: int where "WSAEADDRINUSE = 10048"
definition ERROR_FILE_NOT_FOUND :: int where "ERROR_FILE_NOT_FOUND = 2"
definition ERROR_PATH_NOT_FOUND :: int where "ERROR_PATH_NOT_FOUND = 3"
definition ERROR_ACCESS_DENIED :: int where "ERROR_ACCESS_DENIED = 5"

definition nl :: string where "nl = [CHR 0x0A]"

definition can_t :: string where "can_t = ''Can'' @ [CHR 0x27] @ ''t ''"

definition toLog :: "string \<Rightarrow> unit prog" where
  "toLog msg = bindP (getP logfd) (\<lambda>fd. if fd = None then stopP Crash else emit (EvLog msg))"

definition closeLua :: "unit prog" where
  "closeLua = bindP (getP luaL)
     (\<lambda>l. if l then seqP (emit EvLuaClose) (putP (\<lambda>s. s\<lparr>luaL := False\<rparr>)) else retP ())"

definition fatalError :: "string \<Rightarrow> 'a prog" where
  "fatalError msg = seqP (emit (EvStderr msg)) (seqP closeLua (stopP (Exit 1)))"

subsection \<open>Sockets\<close>

fun listen_loop :: "nat \<Rightarrow> int \<Rightarrow> unit prog" where
  "listen_loop 0 sock = stopP Blocked"
| "listen_loop (Suc n) sock =
     bindP (ask a_listen (\<lambda>q. a_listen_update (\<lambda>_. q)))
       (\<lambda>r. case r of
              None \<Rightarrow> emit (EvListen sock 5)
            | Some err \<Rightarrow>
                if err \<noteq> WSAEINTR
                then seqP (emit (EvCloseSocket sock)) (fatalError (can_t @ ''open socket'' @ nl))
                else listen_loop n sock)"

text \<open>The last \<open>ioctlsocket\<close> is given a zero: the accepting socket stays blocking.\<close>

definition createAcceptSocket :: "int prog" where
  "createAcceptSocket =
     bindP (ask a_wsastartup (\<lambda>q. a_wsastartup_update (\<lambda>_. q)))
     (\<lambda>w. if w \<noteq> 0 then fatalError (can_t @ ''initialize WinSock'' @ nl)
       else bindP (ask a_socket (\<lambda>q. a_socket_update (\<lambda>_. q)))
     (\<lambda>sock. if sock = INVALID_SOCKET then fatalError (can_t @ ''open socket'' @ nl)
       else bindP (ask a_bind (\<lambda>q. a_bind_update (\<lambda>_. q)))
     (\<lambda>b. case b of
        Some err \<Rightarrow>
          seqP (emit (EvCloseSocket sock))
            (if err = WSAEADDRINUSE then fatalError (''Address in use'' @ nl)
             else fatalError (can_t @ ''open socket'' @ nl))
      | None \<Rightarrow>
          bindP (getP (\<lambda>s. Suc (length (a_listen (world s)))))
            (\<lambda>n. seqP (listen_loop n sock)
              (bindP (ask a_ioctl (\<lambda>q. a_ioctl_update (\<lambda>_. q))) (\<lambda>_. retP sock))))))"

text \<open>
  \<open>send\<close> takes at most the bytes it was given; the buffer is the memory from \<open>dbuf\<close> on, and
  reading past it is a crash. Each call uses up one answer.
\<close>

definition send :: "string \<Rightarrow> nat \<Rightarrow> (int + nat) prog" where
  "send dbuf n =
     (if length dbuf < n then stopP Crash
      else bindP (ask a_send (\<lambda>q. a_send_update (\<lambda>_. q)))
        (\<lambda>r. case r of
               Inl err \<Rightarrow> retP (Inl err)
             | Inr k \<Rightarrow> bindP (getP connectionSocket)
                 (\<lambda>sock. seqP (emit (EvSend sock (take (min k n) dbuf))) (retP (Inr (min k n))))))"

fun write_loop :: "nat \<Rightarrow> string \<Rightarrow> nat \<Rightarrow> int \<Rightarrow> int prog" where
  "write_loop 0 dbuf dlen olen = stopP Blocked"
| "write_loop (Suc fuel) dbuf dlen olen =
     (if dlen < 65536
      then bindP (send dbuf dlen)
        (\<lambda>r. case r of
               Inr slen \<Rightarrow>
                 if slen = dlen then retP olen
                 else write_loop fuel (drop slen dbuf) (dlen - slen) olen
             | Inl err \<Rightarrow>
                 if err \<noteq> WSAEWOULDBLOCK then retP SOCKET_ERROR
                 else write_loop fuel dbuf dlen olen)
      else bindP (send dbuf 65536)
        (\<lambda>r. case r of
               Inr slen \<Rightarrow> write_loop fuel (drop 65536 dbuf) (dlen - 65536) olen
             | Inl err \<Rightarrow>
                 if err \<noteq> WSAEWOULDBLOCK then retP SOCKET_ERROR
                 else write_loop fuel dbuf dlen olen))"

definition writeToSocket :: "string \<Rightarrow> nat \<Rightarrow> int prog" where
  "writeToSocket dbuf dlen =
     bindP (getP (\<lambda>s. Suc (length (a_send (world s))))) (\<lambda>n. write_loop n dbuf dlen (int dlen))"

subsection \<open>Functions called from Lua code\<close>

fun dec_nat :: "nat \<Rightarrow> string" where
  "dec_nat n = (if n < 10 then [char_of (48 + n)] else dec_nat (n div 10) @ [char_of (48 + n mod 10)])"

declare dec_nat.simps [simp del]

definition dec_int :: "int \<Rightarrow> string" where
  "dec_int i = (if i < 0 then CHR ''-'' # dec_nat (nat (- i)) else dec_nat (nat i))"

definition pad :: "char \<Rightarrow> nat \<Rightarrow> string \<Rightarrow> string" where
  "pad c w s = replicate (w - length s) c @ s"

definition date_string :: "find_data \<Rightarrow> string" where
  "date_string d =
     pad (CHR '' '') 4 (dec_nat (wYear d)) @ ''-'' @ pad (CHR ''0'') 2 (dec_nat (wMonth d)) @ ''-''
     @ pad (CHR ''0'') 2 (dec_nat (wDay d)) @ ''  '' @ pad (CHR ''0'') 2 (dec_nat (wHour d)) @ '':''
     @ pad (CHR ''0'') 2 (dec_nat (wMinute d))"

text \<open>\<open>lua_settable(L, -3)\<close> on the table below the key and the value.\<close>

definition lua_settable3 :: "unit prog" where
  "lua_settable3 = putP (\<lambda>s.
     let n = length (lstack s); k = lstack s ! (n - 2); v = lstack s ! (n - 1);
         t = (case lstack s ! (n - 3) of VTable kvs \<Rightarrow> VTable ((k, v) # kvs) | x \<Rightarrow> x)
     in s\<lparr>lstack := (take (n - 2) (lstack s))[n - 3 := t]\<rparr>)"

text \<open>The buffer for the date has 18 bytes.\<close>

fun find_loop :: "nat \<Rightarrow> find_data list \<Rightarrow> nat \<Rightarrow> nat prog" where
  "find_loop nargs [] quantity = retP quantity"
| "find_loop nargs (d # ds) quantity =
     (if 18 < length (date_string d) + 1 then stopP Crash
      else seqP (lua_push nargs (VTable []))
          (seqP (lua_push nargs (VStr (date_string d)))
          (seqP (lua_push nargs (VStr (cFileName d)))
          (seqP lua_settable3 (find_loop nargs ds (quantity + 1))))))"

definition findFiles :: "lua_conv \<Rightarrow> nat \<Rightarrow> nat prog" where
  "findFiles cv nargs =
     bindP (lua_index 1) (\<lambda>v.
       let path = lua_tostring cv v
       in seqP (emit (EvFindFirst (map_option cstr path)))
         (bindP (ask a_find (\<lambda>q. a_find_update (\<lambda>_. q)))
           (\<lambda>files. if files = [] then retP 0 else find_loop nargs files 0)))"

text \<open>\<open>recv\<close> gives at most the size of the buffer; the result is what was received, if anything.\<close>

fun recv_loop :: "nat \<Rightarrow> nat \<Rightarrow> string option prog" where
  "recv_loop 0 sz = stopP Blocked"
| "recv_loop (Suc fuel) sz =
     bindP (ask a_recv (\<lambda>q. a_recv_update (\<lambda>_. q)))
       (\<lambda>r. case r of
              Inr bytes \<Rightarrow> retP (if take sz bytes = [] then None else Some (take sz bytes))
            | Inl err \<Rightarrow>
                if err \<noteq> WSAEWOULDBLOCK then retP None else recv_loop fuel sz)"

definition push_received :: "nat \<Rightarrow> string option \<Rightarrow> nat prog" where
  "push_received nargs rc =
     (case rc of
        None \<Rightarrow> seqP (lua_push nargs (VStr []))
                  (seqP (lua_push nargs (VNum (cast_num (-1)))) (retP 2))
      | Some buf \<Rightarrow> seqP (lua_push nargs (VStr buf))
                  (seqP (lua_push nargs (VNum (cast_num (int (length buf))))) (retP 2)))"

definition readFromSocket :: "lua_conv \<Rightarrow> nat \<Rightarrow> nat prog" where
  "readFromSocket cv nargs =
     bindP (lua_index 1) (\<lambda>v.
     bindP (double_to_size (lua_tonumber cv v)) (\<lambda>sz.
     bindP (ask a_malloc (\<lambda>q. a_malloc_update (\<lambda>_. q))) (\<lambda>ok.
       if \<not> ok then push_received nargs None
       else bindP (getP (\<lambda>s. Suc (length (a_recv (world s))))) (\<lambda>n.
            bindP (recv_loop n (nat sz)) (push_received nargs)))))"

definition copyFile :: "lua_conv \<Rightarrow> nat \<Rightarrow> nat prog" where
  "copyFile cv nargs =
     bindP (lua_index 1) (\<lambda>a. bindP (lua_index 2) (\<lambda>b. bindP (lua_index 3) (\<lambda>c.
       seqP (emit (EvCopyFile (map_option cstr (lua_tostring cv a))
                     (map_option cstr (lua_tostring cv b)) (lua_toboolean c)))
       (bindP (ask a_copy (\<lambda>q. a_copy_update (\<lambda>_. q))) (\<lambda>r.
          seqP (lua_push nargs (VNum (cast_num
            (case r of
               None \<Rightarrow> 0
             | Some errorCode \<Rightarrow>
                 if errorCode = ERROR_FILE_NOT_FOUND then -1
                 else if errorCode = ERROR_ACCESS_DENIED then -2 else -3))))
          (retP 1))))))"

subsection \<open>The interpreter\<close>

text \<open>A registered function runs in a frame of its own; its results go to the script.\<close>

definition run_callback :: "lua_conv \<Rightarrow> callback \<Rightarrow> unit prog" where
  "run_callback cv cb =
     (let (f, args) = (case cb of
            CallFindFiles as \<Rightarrow> (findFiles, as)
          | CallReadFromSocket as \<Rightarrow> (readFromSocket, as)
          | CallCopyFile as \<Rightarrow> (copyFile, as))
      in bindP (getP lstack) (\<lambda>host.
           seqP (putP (\<lambda>s. s\<lparr>lstack := args\<rparr>))
           (bindP (f cv (length args)) (\<lambda>n. bindP (getP lstack) (\<lambda>st.
              seqP (emit (EvReturn (drop (length st - n) st)))
                (putP (\<lambda>s. s\<lparr>lstack := host\<rparr>)))))))"

fun run_callbacks :: "lua_conv \<Rightarrow> callback list \<Rightarrow> unit prog" where
  "run_callbacks cv [] = retP ()"
| "run_callbacks cv (cb # cbs) = seqP (run_callback cv cb) (run_callbacks cv cbs)"

definition adjust_results :: "nat \<Rightarrow> lval list \<Rightarrow> lval list" where
  "adjust_results n rs = take n (rs @ replicate n VNil)"

definition lua_pcall :: "lua_conv \<Rightarrow> nat \<Rightarrow> nat \<Rightarrow> int prog" where
  "lua_pcall cv nargs nresults =
     bindP (getP lstack) (\<lambda>st.
       let k = length st - (nargs + 1);
           fname = (case st ! k of VGlobal g \<Rightarrow> g | _ \<Rightarrow> [])
       in seqP (emit (EvCall fname (drop (k + 1) st)))
          (seqP (putP (\<lambda>s. s\<lparr>lstack := take k st\<rparr>))
          (bindP (ask a_pcall (\<lambda>q. a_pcall_update (\<lambda>_. q))) (\<lambda>(cbs, r).
             seqP (run_callbacks cv cbs)
               (case r of
                  Inl err \<Rightarrow> seqP (putP (\<lambda>s. s\<lparr>lstack := lstack s @ [err]\<rparr>)) (retP 2)
                | Inr rs \<Rightarrow> seqP (putP (\<lambda>s. s\<lparr>lstack := lstack s @ adjust_results nresults rs\<rparr>))
                             (retP 0))))))"

definition doCall :: "lua_conv \<Rightarrow> nat \<Rightarrow> nat \<Rightarrow> int prog" where
  "doCall cv inArgs outArgs =
     bindP (lua_pcall cv inArgs outArgs) (\<lambda>status.
       if status \<noteq> 0
       then bindP (lua_index (-1)) (\<lambda>v.
              fatalError ((case lua_tostring cv v of
                             None \<Rightarrow> ''Lua error with no message''
                           | Some msg \<Rightarrow> cstr msg) @ nl))
       else retP status)"

definition lua_getglobal :: "string \<Rightarrow> unit prog" where
  "lua_getglobal name = lua_push 0 (VGlobal name)"

text \<open>What \<open>luaopen_*\<close> and the loaded script leave at the bottom of the stack is not counted.\<close>

definition initLua :: "unit prog" where
  "initLua =
     bindP (ask a_lua_open (\<lambda>q. a_lua_open_update (\<lambda>_. q))) (\<lambda>ok.
       seqP (putP (\<lambda>s. s\<lparr>luaL := ok\<rparr>))
       (if \<not> ok then fatalError (''Couldn'' @ [CHR 0x27] @ ''t initialize Lua'' @ nl)
        else seqP (emit (EvOpenLib ''base'')) (seqP (emit (EvOpenLib ''io''))
            (seqP (emit (EvOpenLib ''string'')) (seqP (emit (EvOpenLib ''math''))
            (seqP (emit (EvOpenLib ''table'')) (seqP (emit (EvRegister ''findFiles''))
            (seqP (emit (EvRegister ''readFromSocket'')) (seqP (emit (EvRegister ''copyFile''))
            (seqP (emit (EvDofile ''script/main.lua''))
            (bindP (ask a_dofile (\<lambda>q. a_dofile_update (\<lambda>_. q))) (\<lambda>st.
               if st \<noteq> 0 then fatalError (can_t @ ''load lua code'' @ nl) else retP ()))))))))))))"

subsection \<open>Configuration\<close>

fun push_args :: "string list \<Rightarrow> unit prog" where
  "push_args [] = retP ()"
| "push_args (a # as) = seqP (lua_push 0 (VStr a)) (push_args as)"

definition parseCommandLine :: "lua_conv \<Rightarrow> string list \<Rightarrow> unit prog" where
  "parseCommandLine cv argv =
     (if 1 < length argv
      then seqP (lua_getglobal ''parseCommandLineArgs'')
          (seqP (push_args (tl argv))
          (seqP (doCall cv (length argv - 1) 1)
          (bindP (lua_index (-1)) (\<lambda>v.
           seqP (lua_pop 1)
             (if \<not> lua_toboolean v
              then fatalError (can_t @ ''parse command line arguments'' @ nl) else retP ())))))
      else retP ())"

definition openLog :: "lua_conv \<Rightarrow> lval \<Rightarrow> bool \<Rightarrow> unit prog" where
  "openLog cv v clearLog =
     (if v = VNil then putP (\<lambda>s. s\<lparr>logfd := Some LogStdout\<rparr>)
      else case lua_tostring cv v of
             None \<Rightarrow> stopP Crash
           | Some logFile \<Rightarrow>
               seqP (emit (EvOpenLog (cstr logFile) (if clearLog then ''w'' else ''a'')))
               (bindP (ask a_fopen (\<lambda>q. a_fopen_update (\<lambda>_. q))) (\<lambda>ok.
                  seqP (putP (\<lambda>s. s\<lparr>logfd := (if ok then Some (LogFile (cstr logFile)) else None)\<rparr>))
                  (if \<not> ok
                   then seqP (lua_pop 4) (fatalError (can_t @ ''open logfile '' @ cstr logFile @ nl))
                   else emit EvFreeConsole))))"

definition readConfiguration :: "lua_conv \<Rightarrow> string list \<Rightarrow> unit prog" where
  "readConfiguration cv argv =
     seqP (parseCommandLine cv argv)
    (seqP (lua_getglobal ''getServerConfig'')
    (seqP (doCall cv 0 4)
    (bindP (lua_index (-4)) (\<lambda>v4.
     seqP (putP (\<lambda>s. s\<lparr>exportDir := lua_tostring cv v4\<rparr>))
    (seqP
      (if lua_tostring cv v4 = None
       then bindP (lua_index (-3)) (\<lambda>v3. bindP (double_to_int (lua_tonumber cv v3)) (\<lambda>p.
              seqP (putP (\<lambda>s. s\<lparr>port := p\<rparr>))
              (bindP (lua_index (-2)) (\<lambda>v2. bindP (lua_index (-1)) (\<lambda>v1.
                 openLog cv v1 (lua_toboolean v2))))))
       else retP ())
      (lua_pop 4))))))"

subsection \<open>The server\<close>

fun accept_loop :: "nat \<Rightarrow> (int \<times> string) prog" where
  "accept_loop 0 = stopP Blocked"
| "accept_loop (Suc n) =
     bindP (ask a_accept (\<lambda>q. a_accept_update (\<lambda>_. q)))
       (\<lambda>r. case r of
              Inr (sock, raddr) \<Rightarrow>
                seqP (putP (\<lambda>s. s\<lparr>connectionSocket := int sock\<rparr>))
                  (seqP (emit (EvAccept (int sock))) (retP (int sock, raddr)))
            | Inl err \<Rightarrow>
                seqP (putP (\<lambda>s. s\<lparr>connectionSocket := INVALID_SOCKET\<rparr>))
                  (if err = WSAEINTR then accept_loop n
                   else if err \<noteq> WSAEWOULDBLOCK then retP (INVALID_SOCKET, [])
                   else accept_loop n))"

text \<open>The request is handled by the script; its answer is written if its length is positive.\<close>

definition handleRequest :: "lua_conv \<Rightarrow> unit prog" where
  "handleRequest cv =
     seqP (lua_getglobal ''processRequest'')
    (seqP (doCall cv 0 2)
    (bindP (lua_index (-2)) (\<lambda>v2. bindP (lua_index (-1)) (\<lambda>v1.
     bindP (double_to_int (lua_tonumber cv v1)) (\<lambda>len.
       seqP
         (if 0 < len
          then (case lua_tostring cv v2 of
                  None \<Rightarrow> stopP Crash
                | Some result \<Rightarrow>
                    seqP (writeToSocket (result @ [CHR 0x00]) (nat len)) (retP ()))
          else retP ())
         (lua_pop 2))))))"

definition serve_one :: "lua_conv \<Rightarrow> unit prog" where
  "serve_one cv =
     bindP (getP (\<lambda>s. Suc (length (a_accept (world s))))) (\<lambda>n.
     bindP (accept_loop n) (\<lambda>(sock, raddr).
       if sock = INVALID_SOCKET then toLog (''Accept failed'' @ nl)
       else bindP (getP port) (\<lambda>p.
         seqP (toLog (''Accept: '' @ raddr @ '':'' @ dec_int p @ nl))
         (bindP (ask a_ioctl (\<lambda>q. a_ioctl_update (\<lambda>_. q))) (\<lambda>ok.
            if \<not> ok
            then seqP (toLog (''Setting socket to non-blocking mode failed'' @ nl))
                   (emit (EvCloseSocket sock))
            else seqP (emit (EvNonBlocking sock))
                (seqP (handleRequest cv)
                (seqP (emit (EvCloseSocket sock)) (toLog (''-----'' @ nl)))))))))"

text \<open>Every turn of the endless loop uses up an answer of \<open>accept\<close>.\<close>

fun serve_loop :: "nat \<Rightarrow> lua_conv \<Rightarrow> 'a prog" where
  "serve_loop 0 cv = stopP Blocked"
| "serve_loop (Suc n) cv = seqP (serve_one cv) (serve_loop n cv)"

definition runServer :: "lua_conv \<Rightarrow> 'a prog" where
  "runServer cv =
     seqP createAcceptSocket
    (seqP (toLog (''Server init OK'' @ nl @ ''--------------'' @ nl))
    (bindP (getP (\<lambda>s. Suc (length (a_accept (world s))))) (\<lambda>n. serve_loop n cv)))"

definition doExport :: "lua_conv \<Rightarrow> unit prog" where
  "doExport cv =
     bindP (getP exportDir) (\<lambda>dir.
       let d = cstr (case dir of None \<Rightarrow> [] | Some x \<Rightarrow> x)
       in seqP (emit (EvMkdir d))
         (bindP (ask a_mkdir (\<lambda>q. a_mkdir_update (\<lambda>_. q))) (\<lambda>r.
            seqP (if r = Some ERROR_PATH_NOT_FOUND
                  then fatalError (can_t @ ''create '' @ d @ '' direcotry'' @ nl) else retP ())
           (seqP (lua_getglobal ''doExport'')
           (seqP (doCall cv 0 0) (retP ()))))))"

definition main :: "lua_conv \<Rightarrow> string list \<Rightarrow> int prog" where
  "main cv argv =
     seqP (emit EvShutdownNoRetry)
    (seqP initLua
    (seqP (readConfiguration cv argv)
    (bindP (getP exportDir) (\<lambda>dir.
      seqP (if dir \<noteq> None then doExport cv else runServer cv) (retP 1)))))"

text \<open>The globals as the program starts, with the answers its surroundings will give.\<close>

definition start :: "answers \<Rightarrow> server" where
  "start w = \<lparr>port = 80, logfd = None, connectionSocket = 0, luaL = False, lstack = [],
              exportDir = None, world = w, trace = []\<rparr>"

subsection \<open>Running programs\<close>

named_theorems prog_simps

lemma run_simps [prog_simps]:
  "retP x s = (Ret x, s)" "getP f s = (Ret (f s), s)" "putP g s = (Ret (), g s)"
  "stopP c s = (c, s)" "emit e s = (Ret (), s\<lparr>trace := trace s @ [e]\<rparr>)"
  by (simp_all add: retP_def getP_def putP_def stopP_def emit_def)

lemma bindP_simps [prog_simps]:
  "p s = (Ret x, s') \<Longrightarrow> bindP p f s = f x s'"
  "p s = (Exit c, s') \<Longrightarrow> bindP p f s = (Exit c, s')"
  "p s = (Blocked, s') \<Longrightarrow> bindP p f s = (Blocked, s')"
  "p s = (Crash, s') \<Longrightarrow> bindP p f s = (Crash, s')"
  by (simp_all add: bindP_def)

lemma seqP_simps [prog_simps]:
  "p s = (Ret x, s') \<Longrightarrow> seqP p q s = q s'"
  "p s = (Exit c, s') \<Longrightarrow> seqP p q s = (Exit c, s')"
  "p s = (Blocked, s') \<Longrightarrow> seqP p q s = (Blocked, s')"
  "p s = (Crash, s') \<Longrightarrow> seqP p q s = (Crash, s')"
  by (simp_all add: seqP_def bindP_def)

lemma ask_simps [prog_simps]:
  "get (world s) = [] \<Longrightarrow> ask get upd s = (Blocked, s)"
  "get (world s) = x # xs \<Longrightarrow> ask get upd s = (Ret x, s\<lparr>world := upd xs (world s)\<rparr>)"
  by (simp_all add: ask_def)

lemma lua_push_simps [prog_simps]:
  "length (lstack s) < nargs + LUA_MINSTACK \<Longrightarrow> lua_push nargs v s = (Ret (), s\<lparr>lstack := lstack s @ [v]\<rparr>)"
  "nargs + LUA_MINSTACK \<le> length (lstack s) \<Longrightarrow> lua_push nargs v s = (Crash, s)"
  by (simp_all add: lua_push_def)

subsection \<open>Reasoning about all runs\<close>

text \<open>
  From a state with \<open>P\<close>, the program returns in a state with \<open>Q\<close>, or it stops for the given reason
  in a state with \<open>E\<close>.
\<close>

definition triple ::
  "(server \<Rightarrow> bool) \<Rightarrow> 'a prog \<Rightarrow> ('a \<Rightarrow> server \<Rightarrow> bool) \<Rightarrow> (unit outcome \<Rightarrow> server \<Rightarrow> bool) \<Rightarrow> bool" where
  "triple P p Q E = (\<forall>s. P s \<longrightarrow> (case p s of
      (Ret x, s') \<Rightarrow> Q x s' | (Exit c, s') \<Rightarrow> E (Exit c) s'
    | (Blocked, s') \<Rightarrow> E Blocked s' | (Crash, s') \<Rightarrow> E Crash s'))"

named_theorems triple_rules

lemma triple_ret [triple_rules]: "(\<And>s. P s \<Longrightarrow> Q x s) \<Longrightarrow> triple P (retP x) Q E"
  by (simp add: triple_def prog_simps)

lemma triple_get [triple_rules]: "(\<And>s. P s \<Longrightarrow> Q (f s) s) \<Longrightarrow> triple P (getP f) Q E"
  by (simp add: triple_def prog_simps)

lemma triple_put [triple_rules]: "(\<And>s. P s \<Longrightarrow> Q () (f s)) \<Longrightarrow> triple P (putP f) Q E"
  by (simp add: triple_def prog_simps)

lemma triple_stop [triple_rules]:
  "(\<And>s. P s \<Longrightarrow> E Blocked s) \<Longrightarrow> triple P (stopP Blocked) Q E"
  "(\<And>s. P s \<Longrightarrow> E Crash s) \<Longrightarrow> triple P (stopP Crash) Q E"
  "(\<And>s. P s \<Longrightarrow> E (Exit c) s) \<Longrightarrow> triple P (stopP (Exit c)) Q E"
  by (simp_all add: triple_def prog_simps)

lemma triple_emit [triple_rules]:
  "(\<And>s. P s \<Longrightarrow> Q () (s\<lparr>trace := trace s @ [e]\<rparr>)) \<Longrightarrow> triple P (emit e) Q E"
  by (simp add: triple_def prog_simps)

lemma triple_bind:
  assumes "triple P p R E" "\<And>x. triple (R x) (f x) Q E"
  shows "triple P (bindP p f) Q E"
  unfolding triple_def
proof (intro allI impI)
  fix s assume "P s"
  obtain r s' where r: "p s = (r, s')" by (cases "p s")
  show "case bindP p f s of (Ret x, s') \<Rightarrow> Q x s' | (Exit c, s') \<Rightarrow> E (Exit c) s'
    | (Blocked, s') \<Rightarrow> E Blocked s' | (Crash, s') \<Rightarrow> E Crash s'"
    using assms(1)[unfolded triple_def, rule_format, OF \<open>P s\<close>] assms(2)[unfolded triple_def] r
    by (cases r) (auto simp: bindP_def)
qed

lemma triple_seq: "triple P p (\<lambda>_. R) E \<Longrightarrow> triple R q Q E \<Longrightarrow> triple P (seqP p q) Q E"
  unfolding seqP_def by (rule triple_bind)

lemma triple_weaken:
  assumes "triple P' p Q' E" "\<And>s. P s \<Longrightarrow> P' s" "\<And>x s. Q' x s \<Longrightarrow> Q x s"
  shows "triple P p Q E"
  using assms unfolding triple_def by (fastforce split: outcome.splits)

lemma triple_if:
  "(b \<Longrightarrow> triple P p Q E) \<Longrightarrow> (\<not> b \<Longrightarrow> triple P q Q E) \<Longrightarrow> triple P (if b then p else q) Q E"
  by simp

text \<open>A program that only takes answers from the queues keeps what does not look at them.\<close>

lemma triple_ask:
  assumes "\<And>s w. P s \<Longrightarrow> P (s\<lparr>world := w\<rparr>)" "\<And>s. P s \<Longrightarrow> E Blocked s"
  shows "triple P (ask get upd) (\<lambda>_. P) E"
  using assms by (auto simp: triple_def ask_def split: list.split)

text \<open>Programs that keep an invariant, and leave \<open>E\<close> true where they stop.\<close>

definition keeps :: "(server \<Rightarrow> bool) \<Rightarrow> (unit outcome \<Rightarrow> server \<Rightarrow> bool) \<Rightarrow> 'a prog \<Rightarrow> bool" where
  "keeps I E p = triple I p (\<lambda>_. I) E"

named_theorems keeps_intros

lemma keeps_prims [keeps_intros]:
  "keeps I E (retP x)"
  "keeps I E (getP g)"
  "(\<And>s. I s \<Longrightarrow> I (f s)) \<Longrightarrow> keeps I E (putP f)"
  "(\<And>s. I s \<Longrightarrow> I (s\<lparr>trace := trace s @ [e]\<rparr>)) \<Longrightarrow> keeps I E (emit e)"
  "(\<And>s. I s \<Longrightarrow> E Blocked s) \<Longrightarrow> keeps I E (stopP Blocked)"
  "(\<And>s. I s \<Longrightarrow> E Crash s) \<Longrightarrow> keeps I E (stopP Crash)"
  by (auto simp: keeps_def triple_def prog_simps)

lemma keeps_bind [keeps_intros]:
  "keeps I E p \<Longrightarrow> (\<And>x. keeps I E (f x)) \<Longrightarrow> keeps I E (bindP p f)"
  unfolding keeps_def by (rule triple_bind)

lemma keeps_seq [keeps_intros]: "keeps I E p \<Longrightarrow> keeps I E q \<Longrightarrow> keeps I E (seqP p q)"
  unfolding keeps_def by (rule triple_seq)

lemma keeps_cases [keeps_intros]:
  "(b \<Longrightarrow> keeps I E p) \<Longrightarrow> (\<not> b \<Longrightarrow> keeps I E q) \<Longrightarrow> keeps I E (if b then p else q)"
  "(z = None \<Longrightarrow> keeps I E p) \<Longrightarrow> (\<And>y. z = Some y \<Longrightarrow> keeps I E (pf y))
    \<Longrightarrow> keeps I E (case z of None \<Rightarrow> p | Some y \<Rightarrow> pf y)"
  "(\<And>l. keeps I E (lf l)) \<Longrightarrow> (\<And>r. keeps I E (rf r)) \<Longrightarrow> keeps I E (case w of Inl l \<Rightarrow> lf l | Inr r \<Rightarrow> rf r)"
  "(\<And>a b. keeps I E (g a b)) \<Longrightarrow> keeps I E (case pr of (a, b) \<Rightarrow> g a b)"
  by (auto split: option.split sum.split prod.split)

text \<open>Invariants that only look at the trace and the current connection.\<close>

definition stable :: "(server \<Rightarrow> bool) \<Rightarrow> bool" where
  "stable I = (\<forall>s w st l p d fd. I s \<longrightarrow>
     I (s\<lparr>world := w\<rparr>) \<and> I (s\<lparr>lstack := st\<rparr>) \<and> I (s\<lparr>luaL := l\<rparr>) \<and> I (s\<lparr>port := p\<rparr>)
     \<and> I (s\<lparr>exportDir := d\<rparr>) \<and> I (s\<lparr>logfd := fd\<rparr>))"

lemma stableD:
  assumes "stable I" "I s"
  shows "I (s\<lparr>world := w\<rparr>)" "I (s\<lparr>lstack := st\<rparr>)" "I (s\<lparr>luaL := l\<rparr>)" "I (s\<lparr>port := p\<rparr>)"
    "I (s\<lparr>exportDir := d\<rparr>)" "I (s\<lparr>logfd := fd\<rparr>)"
  using assms by (auto simp: stable_def)

text \<open>Events that do not concern connections.\<close>

fun quiet :: "event \<Rightarrow> bool" where
  "quiet (EvNonBlocking k) = False"
| "quiet (EvAccept k) = False"
| "quiet (EvSend k b) = False"
| "quiet (EvCloseSocket k) = False"
| "quiet e = True"

definition quiet_stable :: "(server \<Rightarrow> bool) \<Rightarrow> (unit outcome \<Rightarrow> server \<Rightarrow> bool) \<Rightarrow> bool" where
  "quiet_stable I E = (stable I \<and> (\<forall>s e. I s \<longrightarrow> quiet e \<longrightarrow> I (s\<lparr>trace := trace s @ [e]\<rparr>))
     \<and> (\<forall>s. I s \<longrightarrow> E Blocked s \<and> E Crash s)
     \<and> (\<forall>s. I s \<longrightarrow> \<not> luaL s \<longrightarrow> E (Exit 1) s))"

lemma quiet_stableD:
  assumes "quiet_stable I E" "I s"
  shows "quiet e \<Longrightarrow> I (s\<lparr>trace := trace s @ [e]\<rparr>)" "E Blocked s" "E Crash s"
    "\<not> luaL s \<Longrightarrow> E (Exit 1) s"
    "I (s\<lparr>world := w\<rparr>)" "I (s\<lparr>lstack := st\<rparr>)" "I (s\<lparr>luaL := l\<rparr>)" "I (s\<lparr>port := p\<rparr>)"
    "I (s\<lparr>exportDir := d\<rparr>)" "I (s\<lparr>logfd := fd\<rparr>)"
  using assms stableD[of I s] by (auto simp: quiet_stable_def)

lemma keeps_ask: "quiet_stable I E \<Longrightarrow> keeps I E (ask get upd)"
  unfolding keeps_def by (rule triple_ask) (auto dest: quiet_stableD)

lemma keeps_push: "quiet_stable I E \<Longrightarrow> keeps I E (lua_push n v)"
  by (auto simp: keeps_def triple_def lua_push_def quiet_stableD)

lemma keeps_pop: "quiet_stable I E \<Longrightarrow> keeps I E (lua_pop n)"
  unfolding lua_pop_def by (intro keeps_intros) (auto simp: quiet_stableD)

lemma keeps_index: "keeps I E (lua_index i)"
  unfolding lua_index_def by (intro keeps_intros)

lemma keeps_toLog: "quiet_stable I E \<Longrightarrow> keeps I E (toLog msg)"
  unfolding toLog_def by (intro keeps_intros) (auto simp: quiet_stableD)

lemma keeps_closeLua:
  assumes q: "quiet_stable I E"
  shows "triple I closeLua (\<lambda>_ s. I s \<and> \<not> luaL s) E"
proof -
  have "I (s\<lparr>trace := trace s @ [EvLuaClose], luaL := False\<rparr>)" if "I s" for s
    using quiet_stableD(7)[OF q quiet_stableD(1)[OF q that, of EvLuaClose]] by simp
  then show ?thesis by (auto simp: triple_def closeLua_def seqP_def bindP_def prog_simps)
qed

lemma keeps_fatalError: "quiet_stable I E \<Longrightarrow> keeps I E (fatalError msg)"
  unfolding keeps_def fatalError_def
  by (intro triple_seq[OF triple_emit] triple_seq[OF keeps_closeLua] triple_rules)
    (auto simp: quiet_stableD)

lemma keeps_double: "quiet_stable I E \<Longrightarrow> keeps I E (double_to_int d)" "quiet_stable I E \<Longrightarrow> keeps I E (double_to_size d)"
  unfolding double_to_int_def double_to_size_def by (intro keeps_intros; auto simp: quiet_stableD)+

lemmas keeps_basics = keeps_intros keeps_ask keeps_push keeps_pop keeps_index keeps_toLog
  keeps_fatalError keeps_double

lemma keeps_recv_loop: "quiet_stable I E \<Longrightarrow> keeps I E (recv_loop n sz)"
  by (induction n) (auto simp: quiet_stableD intro!: keeps_basics)

lemma keeps_find_loop: "quiet_stable I E \<Longrightarrow> keeps I E (find_loop nargs fs q)"
  by (induction fs arbitrary: q) (auto simp: quiet_stableD lua_settable3_def Let_def intro!: keeps_basics)

lemma keeps_registered:
  assumes q: "quiet_stable I E"
  shows "keeps I E (findFiles cv n)" "keeps I E (readFromSocket cv n)" "keeps I E (copyFile cv n)"
  using q unfolding findFiles_def readFromSocket_def copyFile_def push_received_def Let_def
  by (auto simp: quiet_stableD intro!: keeps_basics keeps_recv_loop keeps_find_loop)

lemma keeps_run_callback:
  assumes q: "quiet_stable I E"
  shows "keeps I E (run_callback cv cb)"
  using q unfolding run_callback_def Let_def
  by (cases cb) (auto simp: quiet_stableD intro!: keeps_basics keeps_registered)

lemma keeps_run_callbacks: "quiet_stable I E \<Longrightarrow> keeps I E (run_callbacks cv cbs)"
  by (induction cbs) (auto intro!: keeps_basics keeps_run_callback)

lemma keeps_doCall:
  assumes q: "quiet_stable I E"
  shows "keeps I E (doCall cv m n)"
  using q unfolding doCall_def lua_pcall_def Let_def
  by (auto simp: quiet_stableD intro!: keeps_basics keeps_run_callbacks)

lemma keeps_initLua: "quiet_stable I E \<Longrightarrow> keeps I E initLua"
  unfolding initLua_def by (auto simp: quiet_stableD intro!: keeps_basics)

lemma keeps_push_args: "quiet_stable I E \<Longrightarrow> keeps I E (push_args as)"
  by (induction as) (auto intro!: keeps_basics)

subsection \<open>The connection protocol\<close>

text \<open>
  What the events say about connections: an accept opens one when none is open, bytes go only to
  the open one, and it is closed before the next. Closing a socket while none is open is the
  accepting socket of a server that could not start.
\<close>

fun conn_step :: "int option \<Rightarrow> event \<Rightarrow> int option option" where
  "conn_step cur (EvAccept k) = (if cur = None then Some (Some k) else None)"
| "conn_step cur (EvNonBlocking k) = (if cur = Some k then Some cur else None)"
| "conn_step cur (EvSend k b) = (if cur = Some k then Some cur else None)"
| "conn_step cur (EvCloseSocket k) = (if cur = None \<or> cur = Some k then Some None else None)"
| "conn_step cur e = Some cur"

fun conn_run :: "int option \<Rightarrow> event list \<Rightarrow> int option option" where
  "conn_run cur [] = Some cur"
| "conn_run cur (e # es) = Option.bind (conn_step cur e) (\<lambda>cur'. conn_run cur' es)"

lemma conn_run_append: "conn_run cur (es @ [e]) = Option.bind (conn_run cur es) (\<lambda>c. conn_step c e)"
  by (induction es arbitrary: cur) (auto split: Option.bind_splits)

lemma conn_step_quiet: "quiet e \<Longrightarrow> conn_step cur e = Some cur"
  by (cases e) auto

definition conn_at :: "int option \<Rightarrow> server \<Rightarrow> bool" where
  "conn_at c s = (conn_run None (trace s) = Some c \<and> (c \<noteq> None \<longrightarrow> c = Some (connectionSocket s)))"

definition ended :: "unit outcome \<Rightarrow> server \<Rightarrow> bool" where
  "ended stop s = ((\<exists>c. conn_run None (trace s) = Some c) \<and> (\<forall>k. stop = Exit k \<longrightarrow> k = 1 \<and> \<not> luaL s))"

lemma conn_at_quiet_stable: "quiet_stable (conn_at c) ended"
  by (auto simp: quiet_stable_def stable_def conn_at_def ended_def conn_run_append conn_step_quiet)

lemma conn_at_ended: "conn_at c s \<Longrightarrow> ended Blocked s" "conn_at c s \<Longrightarrow> ended Crash s"
  by (auto simp: conn_at_def ended_def)

lemma keeps_parseCommandLine: "quiet_stable I E \<Longrightarrow> keeps I E (parseCommandLine cv argv)"
  unfolding parseCommandLine_def lua_getglobal_def
  by (auto intro!: keeps_basics keeps_push_args keeps_doCall)

lemma keeps_openLog: "quiet_stable I E \<Longrightarrow> keeps I E (openLog cv v b)"
  unfolding openLog_def by (auto simp: quiet_stableD intro!: keeps_basics)

lemma keeps_readConfiguration: "quiet_stable I E \<Longrightarrow> keeps I E (readConfiguration cv argv)"
  unfolding readConfiguration_def lua_getglobal_def
  by (auto simp: quiet_stableD intro!: keeps_basics keeps_parseCommandLine keeps_doCall keeps_openLog)

lemma keeps_doExport: "quiet_stable I E \<Longrightarrow> keeps I E (doExport cv)"
  unfolding doExport_def lua_getglobal_def Let_def
  by (auto simp: quiet_stableD intro!: keeps_basics keeps_doCall)

lemma conn_at_close: "conn_at c s \<Longrightarrow> c = None \<or> c = Some k \<Longrightarrow> conn_at None (s\<lparr>trace := trace s @ [EvCloseSocket k]\<rparr>)"
  by (auto simp: conn_at_def conn_run_append)

lemma keeps_listen_loop: "keeps (conn_at None) ended (listen_loop n sock)"
  by (induction n)
    (auto simp: conn_at_ended conn_at_close quiet_stableD[OF conn_at_quiet_stable] intro!: keeps_basics conn_at_quiet_stable)

lemma keeps_createAcceptSocket: "keeps (conn_at None) ended createAcceptSocket"
  unfolding createAcceptSocket_def
  by (auto simp: conn_at_close intro!: keeps_basics conn_at_quiet_stable keeps_listen_loop)

lemma keeps_send: "keeps (conn_at (Some k)) ended (send dbuf n)"
  unfolding send_def keeps_def triple_def
  by (auto simp: conn_at_def ended_def bindP_def ask_def getP_def seqP_def emit_def putP_def stopP_def retP_def
      conn_run_append split: list.split sum.split)

lemma keeps_write_loop: "keeps (conn_at (Some k)) ended (write_loop n dbuf dlen olen)"
  by (induction n arbitrary: dbuf dlen) (auto simp: conn_at_ended intro!: keeps_intros keeps_send)

lemma keeps_handleRequest: "keeps (conn_at (Some k)) ended (handleRequest cv)"
  unfolding handleRequest_def lua_getglobal_def writeToSocket_def
  by (auto simp: conn_at_ended intro!: keeps_basics conn_at_quiet_stable keeps_doCall keeps_write_loop)

text \<open>\<open>accept\<close> opens a connection, or reports that it could not.\<close>

definition accepted :: "int \<times> string \<Rightarrow> server \<Rightarrow> bool" where
  "accepted r = conn_at (if fst r = INVALID_SOCKET then None else Some (fst r))"

lemma accept_loop_triple: "triple (conn_at None) (accept_loop n) accepted ended"
proof (induction n)
  case 0
  then show ?case by (auto intro!: triple_rules simp: conn_at_ended)
next
  case (Suc n)
  have no: "conn_at None (s\<lparr>connectionSocket := k\<rparr>) = conn_at None s" for s k by (simp add: conn_at_def)
  have fail: "triple (conn_at None) (seqP (putP (\<lambda>s. s\<lparr>connectionSocket := k\<rparr>)) p) accepted ended"
    if "triple (conn_at None) p accepted ended" for k p
    by (rule triple_seq[OF triple_put that]) (simp add: no)
  have ok: "triple (conn_at None) (seqP (putP (\<lambda>s. s\<lparr>connectionSocket := int k\<rparr>))
      (seqP (emit (EvAccept (int k))) (retP (int k, raddr)))) accepted ended" for k raddr
    by (auto simp: triple_def seqP_def bindP_def prog_simps accepted_def conn_at_def conn_run_append
        INVALID_SOCKET_def)
  have none: "triple (conn_at None) (retP (INVALID_SOCKET, [])) accepted ended"
    by (rule triple_ret) (simp add: accepted_def)
  have "triple (conn_at None) (case r of
          Inr (sock, raddr) \<Rightarrow> seqP (putP (\<lambda>s. s\<lparr>connectionSocket := int sock\<rparr>))
             (seqP (emit (EvAccept (int sock))) (retP (int sock, raddr)))
        | Inl err \<Rightarrow> seqP (putP (\<lambda>s. s\<lparr>connectionSocket := INVALID_SOCKET\<rparr>))
             (if err = WSAEINTR then accept_loop n
              else if err \<noteq> WSAEWOULDBLOCK then retP (INVALID_SOCKET, []) else accept_loop n))
        accepted ended" for r
    by (cases r) (auto intro!: fail ok none Suc.IH)
  then show ?case
    unfolding accept_loop.simps
    by (rule triple_bind[OF keeps_ask[OF conn_at_quiet_stable, unfolded keeps_def]])
qed

lemma keeps_serve_one: "keeps (conn_at None) ended (serve_one cv)"
proof -
  have log: "keeps (conn_at c) ended (toLog msg)" for c msg
    by (rule keeps_toLog[OF conn_at_quiet_stable])
  have close: "triple (conn_at (Some k)) (emit (EvCloseSocket k)) (\<lambda>_. conn_at None) ended" for k
    by (rule triple_emit) (rule conn_at_close, auto)
  have nonblock: "keeps (conn_at (Some k)) ended (emit (EvNonBlocking k))" for k
    by (rule keeps_intros) (simp add: conn_at_def conn_run_append)
  have body: "triple (conn_at (Some k))
     (bindP (getP port) (\<lambda>p. seqP (toLog (m p)) (bindP (ask a_ioctl u) (\<lambda>ok.
        if \<not> ok then seqP (toLog m2) (emit (EvCloseSocket k))
        else seqP (emit (EvNonBlocking k)) (seqP (handleRequest cv)
               (seqP (emit (EvCloseSocket k)) (toLog m3)))))))
     (\<lambda>_. conn_at None) ended" for k m u m2 m3
    by (intro triple_bind[OF keeps_prims(2)[unfolded keeps_def]] triple_seq[OF log[unfolded keeps_def]]
        triple_bind[OF keeps_ask[OF conn_at_quiet_stable, unfolded keeps_def]] triple_if close
        triple_seq[OF nonblock[unfolded keeps_def]] triple_seq[OF keeps_handleRequest[unfolded keeps_def]]
        triple_seq[OF close] log[unfolded keeps_def])
  show ?thesis
    unfolding serve_one_def keeps_def
    apply (rule triple_bind[OF keeps_prims(2)[unfolded keeps_def]])
    apply (rule triple_bind[OF accept_loop_triple])
    subgoal for n r
      by (cases r) (auto simp: accepted_def intro!: triple_if log[unfolded keeps_def] body)
    done
qed

lemma keeps_runServer: "keeps (conn_at None) ended (runServer cv)"
proof -
  have "keeps (conn_at None) ended (serve_loop n cv)" for n
    by (induction n) (auto simp: conn_at_ended intro!: keeps_intros keeps_serve_one)
  then show ?thesis
    unfolding runServer_def
    by (auto intro!: keeps_intros keeps_createAcceptSocket keeps_toLog conn_at_quiet_stable)
qed

lemma keeps_main: "keeps (conn_at None) ended (main cv argv)"
  unfolding main_def
  by (auto simp: quiet_stableD[OF conn_at_quiet_stable] intro!: keeps_intros keeps_runServer
      keeps_doExport keeps_initLua keeps_readConfiguration conn_at_quiet_stable)

subsection \<open>Writing to a socket\<close>

definition sent :: "event list \<Rightarrow> string" where
  "sent tr = concat (map (\<lambda>e. case e of EvSend k b \<Rightarrow> b | _ \<Rightarrow> []) tr)"

lemma sent_append [simp]: "sent (xs @ ys) = sent xs @ sent ys" "sent [EvSend k b] = b"
  by (simp_all add: sent_def)

text \<open>One call of \<open>send\<close>: the answer used up and the bytes on the wire.\<close>

definition after_send :: "(int + nat) list \<Rightarrow> string \<Rightarrow> server \<Rightarrow> server" where
  "after_send q b s = s\<lparr>world := (world s)\<lparr>a_send := q\<rparr>,
     trace := trace s @ [EvSend (connectionSocket s) b]\<rparr>"

lemma send_simps:
  "length dbuf < n \<Longrightarrow> send dbuf n s = (Crash, s)"
  "n \<le> length dbuf \<Longrightarrow> a_send (world s) = [] \<Longrightarrow> send dbuf n s = (Blocked, s)"
  "n \<le> length dbuf \<Longrightarrow> a_send (world s) = Inl e # q \<Longrightarrow>
     send dbuf n s = (Ret (Inl e), s\<lparr>world := (world s)\<lparr>a_send := q\<rparr>\<rparr>)"
  "n \<le> length dbuf \<Longrightarrow> a_send (world s) = Inr k # q \<Longrightarrow>
     send dbuf n s = (Ret (Inr (min k n)), after_send q (take (min k n) dbuf) s)"
  by (simp_all add: send_def bindP_def seqP_def prog_simps after_send_def)

lemma after_send_simps [simp]:
  "a_send (world (after_send q b s)) = q" "sent (trace (after_send q b s)) = sent (trace s) @ b"
  by (simp_all add: after_send_def)

text \<open>
  The answers \<open>q\<close> never take a 65536-byte block in part: while 65536 bytes or more are left, a
  \<open>send\<close> that takes anything takes the whole block. Nothing is asked of the sends of the rest,
  nor of answers the loop does not come to.
\<close>

fun whole_blocks :: "(int + nat) list \<Rightarrow> nat \<Rightarrow> bool" where
  "whole_blocks [] dlen = True"
| "whole_blocks (Inl e # q) dlen = (e = WSAEWOULDBLOCK \<longrightarrow> whole_blocks q dlen)"
| "whole_blocks (Inr k # q) dlen =
     (dlen < 65536 \<or> 65536 \<le> k \<and> whole_blocks q (dlen - 65536))"

lemma whole_blocks_tail: "dlen < 65536 \<Longrightarrow> whole_blocks q dlen"
  by (induction q dlen rule: whole_blocks.induct) auto

lemma write_loop_delivers:
  assumes "write_loop n dbuf dlen olen s = (Ret r, s')" "0 \<le> olen" "r \<noteq> SOCKET_ERROR"
    "whole_blocks (a_send (world s)) dlen"
  shows "sent (trace s') = sent (trace s) @ take dlen dbuf \<and> r = olen"
  using assms
proof (induction n arbitrary: dbuf dlen s)
  case 0
  then show ?case by (simp add: prog_simps)
next
  case (Suc n)
  let ?m = "if dlen < 65536 then dlen else 65536"
  have len: "?m \<le> length dbuf"
    using Suc.prems(1) by (rule_tac ccontr) (auto simp: bindP_def send_simps split: if_splits)
  obtain a q where q: "a_send (world s) = a # q"
    using Suc.prems(1) len by (cases "a_send (world s)") (auto simp: bindP_def send_simps split: if_splits)
  show ?case
  proof (cases a)
    case (Inl e)
    have "write_loop n dbuf dlen olen (s\<lparr>world := (world s)\<lparr>a_send := q\<rparr>\<rparr>) = (Ret r, s')"
      using Suc.prems(1,3) len q Inl
      by (auto simp: bindP_def send_simps prog_simps split: if_splits)
    moreover have "e = WSAEWOULDBLOCK"
      using Suc.prems(1,3) len q Inl
      by (rule_tac ccontr) (auto simp: bindP_def send_simps prog_simps split: if_splits)
    ultimately show ?thesis using Suc.IH[of dbuf dlen] Suc.prems(2-4) q Inl by simp
  next
    case (Inr k)
    show ?thesis
    proof (cases "dlen < 65536")
      case True
      let ?s = "after_send q (take (min k dlen) dbuf) s"
      show ?thesis
      proof (cases "dlen \<le> k")
        case True
        then show ?thesis
          using Suc.prems(1) len q Inr \<open>dlen < 65536\<close>
          by (auto simp: bindP_def send_simps prog_simps)
      next
        case False
        then have "write_loop n (drop k dbuf) (dlen - k) olen ?s = (Ret r, s')"
          using Suc.prems(1) len q Inr \<open>dlen < 65536\<close>
          by (auto simp: bindP_def send_simps prog_simps min_def)
        from Suc.IH[OF this Suc.prems(2,3)] have
          "sent (trace s') = sent (trace ?s) @ take (dlen - k) (drop k dbuf) \<and> r = olen"
          using whole_blocks_tail[OF less_imp_diff_less[OF True, of k]] by simp
        moreover have "take k dbuf @ take (dlen - k) (drop k dbuf) = take dlen dbuf"
          using take_add[of k "dlen - k" dbuf] False by simp
        ultimately show ?thesis using False by (simp add: min_def)
      qed
    next
      case False
      then have k: "65536 \<le> k" using Suc.prems(4) q Inr by auto
      have "write_loop n (drop 65536 dbuf) (dlen - 65536) olen (after_send q (take 65536 dbuf) s) = (Ret r, s')"
        using Suc.prems(1) len q Inr False by (auto simp: bindP_def send_simps prog_simps min_absorb2[OF k])
      from Suc.IH[OF this Suc.prems(2,3)] have
        "sent (trace s') = sent (trace s) @ take 65536 dbuf @ take (dlen - 65536) (drop 65536 dbuf)
         \<and> r = olen"
        using False Suc.prems(4) q Inr by simp
      moreover have "take 65536 dbuf @ take (dlen - 65536) (drop 65536 dbuf) = take dlen dbuf"
        using take_add[of 65536 "dlen - 65536" dbuf] False by simp
      ultimately show ?thesis by simp
    qed
  qed
qed

text \<open>Answers that let a connection make progress: bytes taken, or a call to try again.\<close>

definition progress :: "(int + nat) \<Rightarrow> bool" where
  "progress a = (case a of Inl e \<Rightarrow> e = WSAEWOULDBLOCK | Inr k \<Rightarrow> 0 < k)"

definition takes :: "(int + nat) list \<Rightarrow> nat" where
  "takes q = length (filter (\<lambda>a. \<exists>k. a = Inr k) q)"

lemma write_loop_returns:
  assumes "a_send (world s) = q" "list_all progress q" "dlen < takes q" "dlen \<le> length dbuf"
    "length q < n"
  shows "\<exists>s'. write_loop n dbuf dlen olen s = (Ret olen, s')"
  using assms
proof (induction q arbitrary: n dbuf dlen s)
  case Nil
  then show ?case by (simp add: takes_def)
next
  case (Cons a q)
  obtain m where n: "n = Suc m" using Cons.prems(5) by (cases n) auto
  let ?b = "if dlen < 65536 then dlen else 65536"
  show ?case
  proof (cases a)
    case (Inl e)
    then have e: "e = WSAEWOULDBLOCK" using Cons.prems(2) by (simp add: progress_def)
    have "\<exists>s'. write_loop m dbuf dlen olen (s\<lparr>world := (world s)\<lparr>a_send := q\<rparr>\<rparr>) = (Ret olen, s')"
      using Cons.prems n Inl by (intro Cons.IH) (auto simp: takes_def)
    then show ?thesis using Cons.prems(1,4) n Inl e by (auto simp: bindP_def send_simps)
  next
    case (Inr k)
    then have k: "0 < k" using Cons.prems(2) by (simp add: progress_def)
    have next_call: "\<exists>s'. write_loop m (drop j dbuf) (dlen - j) olen s2 = (Ret olen, s')"
      if "0 < j" "j \<le> dlen" "a_send (world s2) = q" for j s2
      using that Cons.prems n Inr by (intro Cons.IH) (auto simp: takes_def)
    show ?thesis
      using Cons.prems(1,4) n Inr k next_call[of "min k dlen" "after_send q (take (min k dlen) dbuf) s"]
        next_call[of 65536 "after_send q (take (min k 65536) dbuf) s"]
      by (cases "dlen = 0") (auto simp: bindP_def send_simps prog_simps min_def not_less)
  qed
qed

subsection \<open>The registered functions\<close>

lemma length_dec_nat: "n < 10 ^ k \<Longrightarrow> 0 < k \<Longrightarrow> length (dec_nat n) \<le> k"
proof (induction n arbitrary: k rule: dec_nat.induct)
  case (1 n)
  show ?case
  proof (cases "n < 10")
    case True
    then show ?thesis using 1 by (simp add: dec_nat.simps)
  next
    case False
    obtain j where j: "k = Suc j" using 1 by (cases k) auto
    then have j: "k = Suc j" "0 < j" using 1 False by (cases j; simp)+
    then have "n div 10 < 10 ^ j" using 1 by (simp add: less_mult_imp_div_less mult.commute)
    then show ?thesis using 1(1)[OF False _ j(2)] j by (simp add: dec_nat.simps[of n] False)
  qed
qed

lemma length_pad: "length (pad c w s) = max w (length s)"
  by (simp add: pad_def)

lemma length_date_string:
  assumes "wYear d < 10 ^ y" "4 \<le> y" "wMonth d < 100" "wDay d < 100" "wHour d < 100" "wMinute d < 100"
  shows "length (date_string d) \<le> 13 + y"
proof -
  have "length (pad c 2 (dec_nat n)) = 2" if "n < 100" for c n
    using length_dec_nat[of n 2] that by (simp add: length_pad)
  moreover have "length (pad c 4 (dec_nat (wYear d))) \<le> y" for c
    using length_dec_nat[of "wYear d" y] assms by (simp add: length_pad)
  ultimately show ?thesis using assms by (simp add: date_string_def)
qed

definition file_entry :: "find_data \<Rightarrow> lval" where
  "file_entry d = VTable [(VStr (date_string d), VStr (cFileName d))]"

lemma lua_settable3_run:
  "lua_settable3 (s\<lparr>lstack := st @ [VTable kvs, k, v]\<rparr>) = (Ret (), s\<lparr>lstack := st @ [VTable ((k, v) # kvs)]\<rparr>)"
  by (simp add: lua_settable3_def prog_simps nth_append Let_def list_update_append)

lemma find_loop_run:
  assumes "lstack s = args @ map file_entry done" "quantity = length done" "nargs = length args"
    "\<forall>d\<in>set files. length (date_string d) < 18"
  shows "length done + length files \<le> 18 \<Longrightarrow> find_loop nargs files quantity s =
      (Ret (quantity + length files), s\<lparr>lstack := args @ map file_entry (done @ files)\<rparr>)"
    and "18 < length done + length files \<Longrightarrow> length done \<le> 18 \<Longrightarrow> \<exists>s'. find_loop nargs files quantity s = (Crash, s')"
  using assms
proof (induction files arbitrary: s quantity "done")
  case Nil
  { case 1 then show ?case by (cases s) (simp add: prog_simps)
  next
    case 2 then show ?case by simp }
next
  case (Cons d files)
  have step: "find_loop nargs (d # files) quantity s =
      find_loop nargs files (quantity + 1) (s\<lparr>lstack := args @ map file_entry (done @ [d])\<rparr>)"
    if "lstack s = args @ map file_entry done" "quantity = length done" "nargs = length args"
      "length done < 18" "\<forall>d\<in>set (d # files). length (date_string d) < 18" for s quantity "done"
    using that lua_settable3_run[where s = s and st = "args @ map file_entry done" and kvs = "[]"
        and k = "VStr (date_string d)" and v = "VStr (cFileName d)"]
    by (simp add: seqP_def bindP_def prog_simps LUA_MINSTACK_def file_entry_def)
  { case (1 s quantity "done")
    have "find_loop nargs (d # files) quantity s =
      find_loop nargs files (quantity + 1) (s\<lparr>lstack := args @ map file_entry (done @ [d])\<rparr>)"
      by (rule step) (use 1 in auto)
    then show ?case
      using 1 Cons.IH(1)[of "done @ [d]" "s\<lparr>lstack := args @ map file_entry (done @ [d])\<rparr>" "quantity + 1"]
      by (simp del: find_loop.simps)
  next
    case (2 s quantity "done")
    show ?case
    proof (cases "length done < 18")
      case True
      have "find_loop nargs (d # files) quantity s =
        find_loop nargs files (quantity + 1) (s\<lparr>lstack := args @ map file_entry (done @ [d])\<rparr>)"
        by (rule step) (use 2 True in auto)
      then show ?thesis
        using 2 True Cons.IH(2)[of "done @ [d]" "s\<lparr>lstack := args @ map file_entry (done @ [d])\<rparr>" "quantity + 1"]
        by (simp del: find_loop.simps)
    next
      case False
      then have "length done = 18" using 2 by simp
      then show ?thesis using 2
        by (simp add: seqP_def bindP_def lua_push_def prog_simps LUA_MINSTACK_def)
    qed }
qed

text \<open>What \<open>readFromSocket\<close> makes of the last answer of \<open>recv\<close>.\<close>

definition received :: "nat \<Rightarrow> int + string \<Rightarrow> lval list" where
  "received sz r =
     (case r of
        Inl err \<Rightarrow> [VStr [], VNum (cast_num (-1))]
      | Inr b \<Rightarrow> if take sz b = [] then [VStr [], VNum (cast_num (-1))]
                 else [VStr (take sz b), VNum (cast_num (int (min sz (length b))))])"

lemma recv_loop_run:
  assumes "a_recv (world s) = replicate k (Inl WSAEWOULDBLOCK) @ r # q" "r \<noteq> Inl WSAEWOULDBLOCK" "k < n"
  shows "recv_loop n sz s =
     (Ret (case r of Inl err \<Rightarrow> None | Inr b \<Rightarrow> if take sz b = [] then None else Some (take sz b)),
      s\<lparr>world := (world s)\<lparr>a_recv := q\<rparr>\<rparr>)"
  using assms
proof (induction k arbitrary: n s)
  case 0
  then obtain m where "n = Suc m" by (cases n) auto
  then show ?case using 0 by (cases r) (auto simp: bindP_def ask_def prog_simps)
next
  case (Suc k)
  then obtain m where "n = Suc m" by (cases n) auto
  then show ?case using Suc by (simp add: bindP_def ask_def)
qed

lemma readFromSocket_run:
  assumes "lstack s = VNum (cast_num sz) # as" "nargs = Suc (length as)" "0 \<le> sz" "sz < 2 ^ 32"
    "a_malloc (world s) = True # m"
    "a_recv (world s) = replicate k (Inl WSAEWOULDBLOCK) @ r # q" "r \<noteq> Inl WSAEWOULDBLOCK"
  shows "readFromSocket cv nargs s =
     (Ret 2, s\<lparr>lstack := lstack s @ received (nat sz) r,
               world := (world s)\<lparr>a_malloc := m, a_recv := q\<rparr>\<rparr>)"
proof -
  let ?s = "s\<lparr>world := (world s)\<lparr>a_malloc := m\<rparr>\<rparr>"
  have "recv_loop (Suc (Suc (k + length q))) (nat sz) ?s =
     (Ret (case r of Inl err \<Rightarrow> None | Inr b \<Rightarrow> if take (nat sz) b = [] then None else Some (take (nat sz) b)),
      ?s\<lparr>world := (world ?s)\<lparr>a_recv := q\<rparr>\<rparr>)"
    by (rule recv_loop_run) (use assms in auto)
  then show ?thesis
    using assms dbl_fits_cast_num[of sz 0 "2 ^ 32 - 1"] dbl_trunc_cast_num[of sz]
    by (cases r) (auto simp: readFromSocket_def bindP_def lua_index_def prog_simps lua_tonumber_def
        double_to_size_def ask_def push_received_def seqP_def LUA_MINSTACK_def received_def min_def
        simp del: recv_loop.simps)
qed

lemma triple_True: "triple P p (\<lambda>_ _. True) (\<lambda>_ _. True)"
  by (auto simp: triple_def split: outcome.splits prod.splits)

lemma openLog_opens: "triple P (openLog cv v b) (\<lambda>_ s. logfd s \<noteq> None) (\<lambda>_ _. True)"
  by (auto simp: openLog_def triple_def seqP_def bindP_def prog_simps ask_def fatalError_def
      closeLua_def lua_pop_def split: option.splits list.splits outcome.splits prod.splits)

lemma readConfiguration_log:
  "triple P (readConfiguration cv argv) (\<lambda>_ s. exportDir s = None \<longrightarrow> logfd s \<noteq> None) (\<lambda>_ _. True)"
proof -
  have dir: "triple (\<lambda>_. True) (putP (\<lambda>s. s\<lparr>exportDir := d\<rparr>)) (\<lambda>_ s. exportDir s = d) (\<lambda>_ _. True)" for d
    by (rule triple_put) simp
  have fork: "triple (\<lambda>s. exportDir s = d)
     (if d = None
      then bindP (lua_index (-3)) (\<lambda>v3. bindP (double_to_int (lua_tonumber cv v3)) (\<lambda>p.
              seqP (putP (\<lambda>s. s\<lparr>port := p\<rparr>))
              (bindP (lua_index (-2)) (\<lambda>v2. bindP (lua_index (-1)) (\<lambda>v1.
                 openLog cv v1 (lua_toboolean v2))))))
      else retP ()) (\<lambda>_ s. exportDir s = None \<longrightarrow> logfd s \<noteq> None) (\<lambda>_ _. True)" for d
    apply (rule triple_if)
     apply (rule triple_weaken[where Q' = "\<lambda>_ s. logfd s \<noteq> None" and P' = "\<lambda>_. True"])
       apply (intro triple_bind[OF triple_True] triple_seq[OF triple_True] openLog_opens)
      apply simp
     apply simp
    apply (rule triple_ret, auto)
    done
  show ?thesis
    unfolding readConfiguration_def
    by (intro triple_seq[OF triple_True] triple_bind[OF triple_True] triple_seq[OF dir] triple_seq[OF fork])
      (auto simp: lua_pop_def intro!: triple_put)
qed

subsection \<open>Properties\<close>

text \<open>C4. Connections: over a whole run of the program, whatever the system calls and the scripts
  answer, a connection is accepted only when none is open, bytes are sent and the mode is set only
  on the open one, and it is closed before the next is accepted. The program ends with status 1 in
  every case, and has closed the interpreter whenever it ends by a fatal error.\<close>
theorem main_protocol:
  assumes "main cv argv (start w) = (r, s')"
  shows "(\<exists>c. conn_run None (trace s') = Some c)
    \<and> (case r of Exit k \<Rightarrow> k = 1 \<and> \<not> luaL s' | Ret k \<Rightarrow> k = 1 | _ \<Rightarrow> True)"
proof -
  have i: "conn_at None (start w)" by (simp add: conn_at_def start_def)
  have t: "triple (conn_at None) (main cv argv) (\<lambda>_. conn_at None) ended"
    using keeps_main unfolding keeps_def .
  have k: "r = Ret k \<Longrightarrow> k = 1" for k
    using assms unfolding main_def seqP_def bindP_def
    by (auto simp: prog_simps split: outcome.splits prod.splits)
  show ?thesis
    using t[unfolded triple_def, rule_format, OF i] assms k
    by (cases r) (auto simp: conn_at_def ended_def)
qed

definition no_answers :: answers where
  "no_answers = \<lparr>a_lua_open = [], a_dofile = [], a_pcall = [], a_wsastartup = [], a_socket = [],
     a_bind = [], a_listen = [], a_accept = [], a_ioctl = [], a_send = [], a_recv = [],
     a_malloc = [], a_find = [], a_copy = [], a_fopen = [], a_mkdir = []\<rparr>"

definition plain_conv :: lua_conv where
  "plain_conv = \<lparr>fmt_number = (\<lambda>n. ''0''), str2number = (\<lambda>s. None)\<rparr>"

text \<open>A run that exports the wiki.\<close>

definition export_answers :: answers where
  "export_answers = no_answers\<lparr>a_lua_open := [True], a_dofile := [0],
     a_pcall := [([], Inr [VStr ''out'']), ([CallCopyFile [VStr ''a'', VStr ''b'']], Inr [])],
     a_copy := [None], a_mkdir := [None]\<rparr>"

lemmas run_defs = main_def initLua_def readConfiguration_def parseCommandLine_def doExport_def
  doCall_def lua_pcall_def lua_getglobal_def lua_push_def lua_pop_def lua_index_def run_callback_def
  copyFile_def seqP_def bindP_def prog_simps ask_def LUA_MINSTACK_def lua_tostring_def
  adjust_results_def cstr_def Let_def

lemma export_run:
  "main plain_conv [''moonwiki''] (start export_answers) =
     (Ret 1, \<lparr>port = 80, logfd = None, connectionSocket = 0, luaL = True, lstack = [],
              exportDir = Some ''out'', world = no_answers,
              trace = [EvShutdownNoRetry, EvOpenLib ''base'', EvOpenLib ''io'', EvOpenLib ''string'',
                EvOpenLib ''math'', EvOpenLib ''table'', EvRegister ''findFiles'',
                EvRegister ''readFromSocket'', EvRegister ''copyFile'', EvDofile ''script/main.lua'',
                EvCall ''getServerConfig'' [], EvMkdir ''out'', EvCall ''doExport'' [],
                EvCopyFile (Some ''a'') (Some ''b'') False, EvReturn [VNum (cast_num 0)]]\<rparr>)"
  by (simp add: run_defs export_answers_def no_answers_def start_def lua_toboolean_def numeral_eq_Suc)

theorem main_protocol_witness:
  "conn_run None (trace (snd (main plain_conv [''moonwiki''] (start export_answers)))) \<noteq> None"
  using main_protocol[OF export_run] by (auto simp: export_run)

text \<open>C10. When \<open>readConfiguration\<close> returns without an export directory, the log is open:
  the server never logs through a null stream.\<close>
theorem log_open_before_serving:
  assumes "readConfiguration cv argv s = (Ret (), s')" "exportDir s' = None"
  shows "toLog msg s' = (Ret (), s'\<lparr>trace := trace s' @ [EvLog msg]\<rparr>)"
  using readConfiguration_log[of "\<lambda>_. True" cv argv, unfolded triple_def, rule_format, of s] assms
  by (simp add: toLog_def bindP_def prog_simps)

lemma config_run:
  "readConfiguration plain_conv [''moonwiki''] ((start no_answers)\<lparr>world := no_answers\<lparr>a_pcall :=
      [([], Inr [VNil, VNum (cast_num 8080), VBool True, VNil])]\<rparr>\<rparr>) =
   (Ret (), (start no_answers)\<lparr>port := 8080, logfd := Some LogStdout,
      trace := [EvCall ''getServerConfig'' []]\<rparr>)"
  by (simp add: run_defs openLog_def no_answers_def start_def lua_toboolean_def numeral_eq_Suc
      double_to_int_def lua_tonumber_def dbl_fits_cast_num dbl_trunc_cast_num)

theorem log_open_before_serving_witness:
  "fst (toLog ''x'' ((start no_answers)\<lparr>port := 8080, logfd := Some LogStdout,
      trace := [EvCall ''getServerConfig'' []]\<rparr>)) = Ret ()"
  using log_open_before_serving[OF config_run, of "''x''"] by (simp add: start_def)

text \<open>C5. When \<open>writeToSocket\<close> reports success, the bytes of the buffer are on the wire, in order
  and once, however the connection cuts them up, provided that it never takes a 65536-byte block
  in part (\<open>whole_blocks\<close>): the sends of the last 65535 bytes or fewer may be as short as the
  connection likes.\<close>
theorem writeToSocket_delivers:
  assumes "writeToSocket dbuf dlen s = (Ret n, s')" "n \<noteq> SOCKET_ERROR"
    "whole_blocks (a_send (world s)) dlen"
  shows "sent (trace s') = sent (trace s) @ take dlen dbuf \<and> n = int dlen"
  using assms write_loop_delivers[of "Suc (length (a_send (world s)))" dbuf dlen "int dlen" s n s']
  by (simp add: writeToSocket_def bindP_def prog_simps)

definition sending :: "(int + nat) list \<Rightarrow> server" where
  "sending q = (start no_answers)\<lparr>world := no_answers\<lparr>a_send := q\<rparr>, connectionSocket := 7\<rparr>"

lemma sending_run:
  "\<exists>s'. writeToSocket (replicate 70000 c) 70000 (sending [Inr 65536, Inl WSAEWOULDBLOCK, Inr 1000, Inr 3464, Inr 7]) =
     (Ret 70000, s')"
  by (simp add: writeToSocket_def bindP_def prog_simps send_def ask_def sending_def seqP_def
      start_def no_answers_def)

theorem writeToSocket_delivers_witness:
  "sent (trace (snd (writeToSocket (replicate 70000 CHR ''x'') 70000
      (sending [Inr 65536, Inl WSAEWOULDBLOCK, Inr 1000, Inr 3464, Inr 7])))) = replicate 70000 CHR ''x''"
proof -
  obtain s' where run: "writeToSocket (replicate 70000 CHR ''x'') 70000
      (sending [Inr 65536, Inl WSAEWOULDBLOCK, Inr 1000, Inr 3464, Inr 7]) = (Ret 70000, s')"
    using sending_run by blast
  then show ?thesis using writeToSocket_delivers[OF run]
    by (simp add: SOCKET_ERROR_def sending_def start_def no_answers_def sent_def)
qed

text \<open>C6. The proviso is needed: a block of 65536 bytes is skipped whole even when \<open>send\<close> took
  only a part of it. The caller is told that everything was sent; the rest of the block is lost.\<close>
theorem writeToSocket_loses_block:
  assumes "a_send (world s) = Inr k # Inr j # q" "k < 65536" "65536 \<le> length dbuf"
  shows "\<exists>s'. writeToSocket dbuf 65536 s = (Ret 65536, s') \<and> sent (trace s') = sent (trace s) @ take k dbuf"
proof -
  let ?s1 = "after_send (Inr j # q) (take (min k 65536) dbuf) s"
  have a: "send dbuf 65536 s = (Ret (Inr k), ?s1)" using assms by (simp add: send_simps)
  have b: "send (drop 65536 dbuf) 0 ?s1 = (Ret (Inr 0), after_send q [] ?s1)"
    by (simp add: send_simps)
  show ?thesis using assms a b
    by (simp add: writeToSocket_def bindP_def prog_simps)
qed

theorem writeToSocket_loses_block_witness:
  "\<exists>s'. writeToSocket (replicate 65536 (CHR ''x'')) 65536 (sending [Inr 1000, Inr 0]) = (Ret 65536, s')
     \<and> length (sent (trace s')) = 1000"
proof -
  have "\<exists>s'. writeToSocket (replicate 65536 (CHR ''x'')) 65536 (sending [Inr 1000, Inr 0]) = (Ret 65536, s')
     \<and> sent (trace s') = sent (trace (sending [Inr 1000, Inr 0])) @ take 1000 (replicate 65536 (CHR ''x''))"
    by (rule writeToSocket_loses_block) (simp_all add: sending_def start_def)
  then show ?thesis by (auto simp: sending_def start_def sent_def)
qed

text \<open>C7. \<open>writeToSocket\<close> ends, with the length it was given, once the connection has taken some
  bytes more often than the buffer has bytes, however often it has to be asked again in between.\<close>
theorem writeToSocket_ends:
  assumes "list_all progress (a_send (world s))" "dlen < takes (a_send (world s))" "dlen \<le> length dbuf"
  shows "\<exists>s'. writeToSocket dbuf dlen s = (Ret (int dlen), s')"
  using write_loop_returns[OF refl assms, of "Suc (length (a_send (world s)))" "int dlen"]
  by (simp add: writeToSocket_def bindP_def prog_simps)

theorem writeToSocket_ends_witness:
  "\<exists>s'. writeToSocket ''ab'' 2 (sending [Inl WSAEWOULDBLOCK, Inr 1, Inr 1, Inr 1]) = (Ret 2, s')"
  using writeToSocket_ends[of "sending [Inl WSAEWOULDBLOCK, Inr 1, Inr 1, Inr 1]" 2 "''ab''"]
  by (simp add: sending_def progress_def takes_def)

text \<open>C8. \<open>readFromSocket\<close> waits out the calls that would block, and then returns what was
  received, at most the size asked for, with its length, or an empty string and -1 when the
  connection is closed or broken; the frame of its arguments is kept.\<close>
theorem readFromSocket_result:
  assumes "lstack s = [VNum (cast_num sz)]" "0 \<le> sz" "sz < 2 ^ 32" "a_malloc (world s) = True # m"
    "a_recv (world s) = replicate k (Inl WSAEWOULDBLOCK) @ r # q" "r \<noteq> Inl WSAEWOULDBLOCK"
  shows "readFromSocket cv 1 s =
     (Ret 2, s\<lparr>lstack := VNum (cast_num sz) # (case r of
          Inl err \<Rightarrow> [VStr [], VNum (cast_num (-1))]
        | Inr b \<Rightarrow> if sz = 0 \<or> b = [] then [VStr [], VNum (cast_num (-1))]
            else [VStr (take (nat sz) b), VNum (cast_num (min sz (int (length b))))]),
        world := (world s)\<lparr>a_malloc := m, a_recv := q\<rparr>\<rparr>)"
  using readFromSocket_run[of s sz "[]" 1 m k r q cv] assms
  by (cases r) (auto simp: received_def min_def nat_le_iff)

theorem readFromSocket_result_witness:
  "lstack (snd (readFromSocket plain_conv 1 ((start no_answers)\<lparr>lstack := [VNum (cast_num 3)],
      world := no_answers\<lparr>a_malloc := [True], a_recv := [Inl WSAEWOULDBLOCK, Inr ''GET /'']\<rparr>\<rparr>)))
   = [VNum (cast_num 3), VStr ''GET'', VNum (cast_num 3)]"
  by (subst readFromSocket_result[where sz = 3 and m = "[]" and k = 1 and r = "Inr ''GET /''" and q = "[]"])
    (simp_all add: start_def no_answers_def numeral_eq_Suc)

text \<open>C9. \<open>findFiles\<close> returns one table per file, in order, as long as there are at most 18;
  from the nineteenth on it writes past the stack it may use. Dates fit their buffer up to the
  year 9999.\<close>
theorem findFiles_result:
  assumes "lstack s = args" "nargs = length args" "0 < nargs" "a_find (world s) = files # q" "files \<noteq> []"
    "\<forall>d\<in>set files. wYear d < 10000 \<and> wMonth d < 100 \<and> wDay d < 100 \<and> wHour d < 100 \<and> wMinute d < 100"
  shows "if length files \<le> 18
     then fst (findFiles cv nargs s) = Ret (length files)
        \<and> lstack (snd (findFiles cv nargs s)) =
            args @ map (\<lambda>d. VTable [(VStr (date_string d), VStr (cFileName d))]) files
     else fst (findFiles cv nargs s) = Crash"
proof -
  have fits: "\<forall>d\<in>set files. length (date_string d) < 18"
    using assms(6) length_date_string[of _ 4] by fastforce
  let ?s = "s\<lparr>trace := trace s @ [EvFindFirst (map_option cstr (lua_tostring cv (args ! 0)))],
      world := (world s)\<lparr>a_find := q\<rparr>\<rparr>"
  have run: "findFiles cv nargs s = find_loop nargs files 0 ?s"
    using assms by (simp add: findFiles_def lua_index_def prog_simps bindP_def seqP_def ask_def Let_def)
  show ?thesis
    using find_loop_run(1)[of ?s args "[]" 0 nargs files] find_loop_run(2)[of ?s args "[]" 0 nargs files]
      fits assms run by (auto simp: file_entry_def)
qed

definition some_file :: find_data where
  "some_file = \<lparr>wYear = 2008, wMonth = 5, wDay = 17, wHour = 9, wMinute = 30, cFileName = ''a.txt''\<rparr>"

theorem findFiles_result_witness:
  "fst (findFiles plain_conv 1 ((start no_answers)\<lparr>lstack := [VStr ''*''],
     world := no_answers\<lparr>a_find := [replicate 19 some_file]\<rparr>\<rparr>)) = Crash"
  using findFiles_result[of "(start no_answers)\<lparr>lstack := [VStr ''*''],
     world := no_answers\<lparr>a_find := [replicate 19 some_file]\<rparr>\<rparr>" "[VStr ''*'']" 1 "replicate 19 some_file" "[]"
     plain_conv]
  by (simp add: some_file_def)

end
