(* ===== verification/Opcodes.thy ===== *)
theory Opcodes
  imports Prelude
begin

unbundle bit_operations_syntax

text \<open>
  \<open>lopcodes.h\<close> and \<open>lopcodes.c\<close>: the 32-bit instruction format of the virtual machine, the
  field macros, the opcodes in their order and the table of their properties. Arguments are C
  \<open>int\<close>s. An opcode read from an instruction is a number below 64, so \<open>decode_op\<close> says which
  of the 38 opcodes it is, if any.
\<close>

type_synonym Instruction = u32

subsection \<open>Sizes, positions and limits\<close>

definition SIZE_C :: nat where "SIZE_C = 9"
definition SIZE_B :: nat where "SIZE_B = 9"
definition SIZE_Bx :: nat where "SIZE_Bx = SIZE_C + SIZE_B"
definition SIZE_A :: nat where "SIZE_A = 8"
definition SIZE_OP :: nat where "SIZE_OP = 6"

definition POS_OP :: nat where "POS_OP = 0"
definition POS_A :: nat where "POS_A = POS_OP + SIZE_OP"
definition POS_C :: nat where "POS_C = POS_A + SIZE_A"
definition POS_B :: nat where "POS_B = POS_C + SIZE_C"
definition POS_Bx :: nat where "POS_Bx = POS_C"

definition MAXARG_Bx :: int where "MAXARG_Bx = 2 ^ SIZE_Bx - 1"
definition MAXARG_sBx :: int where "MAXARG_sBx = MAXARG_Bx div 2"
definition MAXARG_A :: int where "MAXARG_A = 2 ^ SIZE_A - 1"
definition MAXARG_B :: int where "MAXARG_B = 2 ^ SIZE_B - 1"
definition MAXARG_C :: int where "MAXARG_C = 2 ^ SIZE_C - 1"

lemmas size_pos_defs [simp] =
  SIZE_C_def SIZE_B_def SIZE_Bx_def SIZE_A_def SIZE_OP_def
  POS_OP_def POS_A_def POS_C_def POS_B_def POS_Bx_def

lemmas maxarg_defs =
  MAXARG_Bx_def MAXARG_sBx_def MAXARG_A_def MAXARG_B_def MAXARG_C_def

subsection \<open>Masks and fields\<close>

definition MASK1 :: "nat \<Rightarrow> nat \<Rightarrow> Instruction" where
  "MASK1 n p = push_bit p (NOT (push_bit n (NOT 0)))"

definition MASK0 :: "nat \<Rightarrow> nat \<Rightarrow> Instruction" where
  "MASK0 n p = NOT (MASK1 n p)"

definition get_field :: "nat \<Rightarrow> nat \<Rightarrow> Instruction \<Rightarrow> Instruction" where
  "get_field p n i = drop_bit p i AND MASK1 n 0"

definition set_field :: "nat \<Rightarrow> nat \<Rightarrow> Instruction \<Rightarrow> Instruction \<Rightarrow> Instruction" where
  "set_field p n i u = (i AND MASK0 n p) OR (push_bit p u AND MASK1 n p)"

definition GET_OPCODE :: "Instruction \<Rightarrow> nat" where
  "GET_OPCODE i = unat (get_field POS_OP SIZE_OP i)"

definition SET_OPCODE :: "Instruction \<Rightarrow> nat \<Rightarrow> Instruction" where
  "SET_OPCODE i op = set_field POS_OP SIZE_OP i (word_of_nat op)"

definition GETARG_A :: "Instruction \<Rightarrow> int" where
  "GETARG_A i = uint (get_field POS_A SIZE_A i)"

definition SETARG_A :: "Instruction \<Rightarrow> int \<Rightarrow> Instruction" where
  "SETARG_A i u = set_field POS_A SIZE_A i (word_of_int u)"

definition GETARG_B :: "Instruction \<Rightarrow> int" where
  "GETARG_B i = uint (get_field POS_B SIZE_B i)"

definition SETARG_B :: "Instruction \<Rightarrow> int \<Rightarrow> Instruction" where
  "SETARG_B i b = set_field POS_B SIZE_B i (word_of_int b)"

definition GETARG_C :: "Instruction \<Rightarrow> int" where
  "GETARG_C i = uint (get_field POS_C SIZE_C i)"

definition SETARG_C :: "Instruction \<Rightarrow> int \<Rightarrow> Instruction" where
  "SETARG_C i b = set_field POS_C SIZE_C i (word_of_int b)"

definition GETARG_Bx :: "Instruction \<Rightarrow> int" where
  "GETARG_Bx i = uint (get_field POS_Bx SIZE_Bx i)"

definition SETARG_Bx :: "Instruction \<Rightarrow> int \<Rightarrow> Instruction" where
  "SETARG_Bx i b = set_field POS_Bx SIZE_Bx i (word_of_int b)"

definition GETARG_sBx :: "Instruction \<Rightarrow> int" where
  "GETARG_sBx i = GETARG_Bx i - MAXARG_sBx"

definition SETARG_sBx :: "Instruction \<Rightarrow> int \<Rightarrow> Instruction" where
  "SETARG_sBx i b = SETARG_Bx i (b + MAXARG_sBx)"

definition CREATE_ABC :: "nat \<Rightarrow> int \<Rightarrow> int \<Rightarrow> int \<Rightarrow> Instruction" where
  "CREATE_ABC op a b c =
     push_bit POS_OP (word_of_nat op) OR push_bit POS_A (word_of_int a)
     OR push_bit POS_B (word_of_int b) OR push_bit POS_C (word_of_int c)"

definition CREATE_ABx :: "nat \<Rightarrow> int \<Rightarrow> int \<Rightarrow> Instruction" where
  "CREATE_ABx op a bc =
     push_bit POS_OP (word_of_nat op) OR push_bit POS_A (word_of_int a)
     OR push_bit POS_Bx (word_of_int bc)"

subsection \<open>RK indices\<close>

definition BITRK :: int where "BITRK = 2 ^ (SIZE_B - 1)"

definition ISK :: "int \<Rightarrow> bool" where "ISK x = (x AND BITRK \<noteq> 0)"

definition INDEXK :: "int \<Rightarrow> int" where "INDEXK r = r AND NOT BITRK"

definition MAXINDEXRK :: int where "MAXINDEXRK = BITRK - 1"

definition RKASK :: "int \<Rightarrow> int" where "RKASK x = x OR BITRK"

definition NO_REG :: int where "NO_REG = MAXARG_A"

subsection \<open>Opcodes\<close>

datatype OpCode =
    OP_MOVE | OP_LOADK | OP_LOADBOOL | OP_LOADNIL | OP_GETUPVAL | OP_GETGLOBAL |
    OP_GETTABLE | OP_SETGLOBAL | OP_SETUPVAL | OP_SETTABLE | OP_NEWTABLE | OP_SELF |
    OP_ADD | OP_SUB | OP_MUL | OP_DIV | OP_MOD | OP_POW | OP_UNM | OP_NOT | OP_LEN |
    OP_CONCAT | OP_JMP | OP_EQ | OP_LT | OP_LE | OP_TEST | OP_TESTSET | OP_CALL |
    OP_TAILCALL | OP_RETURN | OP_FORLOOP | OP_FORPREP | OP_TFORLOOP | OP_SETLIST |
    OP_CLOSE | OP_CLOSURE | OP_VARARG

fun op_num :: "OpCode \<Rightarrow> nat" where
  "op_num OP_MOVE = 0"
| "op_num OP_LOADK = 1"
| "op_num OP_LOADBOOL = 2"
| "op_num OP_LOADNIL = 3"
| "op_num OP_GETUPVAL = 4"
| "op_num OP_GETGLOBAL = 5"
| "op_num OP_GETTABLE = 6"
| "op_num OP_SETGLOBAL = 7"
| "op_num OP_SETUPVAL = 8"
| "op_num OP_SETTABLE = 9"
| "op_num OP_NEWTABLE = 10"
| "op_num OP_SELF = 11"
| "op_num OP_ADD = 12"
| "op_num OP_SUB = 13"
| "op_num OP_MUL = 14"
| "op_num OP_DIV = 15"
| "op_num OP_MOD = 16"
| "op_num OP_POW = 17"
| "op_num OP_UNM = 18"
| "op_num OP_NOT = 19"
| "op_num OP_LEN = 20"
| "op_num OP_CONCAT = 21"
| "op_num OP_JMP = 22"
| "op_num OP_EQ = 23"
| "op_num OP_LT = 24"
| "op_num OP_LE = 25"
| "op_num OP_TEST = 26"
| "op_num OP_TESTSET = 27"
| "op_num OP_CALL = 28"
| "op_num OP_TAILCALL = 29"
| "op_num OP_RETURN = 30"
| "op_num OP_FORLOOP = 31"
| "op_num OP_FORPREP = 32"
| "op_num OP_TFORLOOP = 33"
| "op_num OP_SETLIST = 34"
| "op_num OP_CLOSE = 35"
| "op_num OP_CLOSURE = 36"
| "op_num OP_VARARG = 37"

definition NUM_OPCODES :: nat where "NUM_OPCODES = op_num OP_VARARG + 1"

definition all_ops :: "OpCode list" where
  "all_ops =
   [OP_MOVE, OP_LOADK, OP_LOADBOOL, OP_LOADNIL, OP_GETUPVAL, OP_GETGLOBAL, OP_GETTABLE,
    OP_SETGLOBAL, OP_SETUPVAL, OP_SETTABLE, OP_NEWTABLE, OP_SELF, OP_ADD, OP_SUB,
    OP_MUL, OP_DIV, OP_MOD, OP_POW, OP_UNM, OP_NOT, OP_LEN, OP_CONCAT, OP_JMP, OP_EQ,
    OP_LT, OP_LE, OP_TEST, OP_TESTSET, OP_CALL, OP_TAILCALL, OP_RETURN, OP_FORLOOP,
    OP_FORPREP, OP_TFORLOOP, OP_SETLIST, OP_CLOSE, OP_CLOSURE, OP_VARARG]"

definition decode_op :: "nat \<Rightarrow> OpCode option" where
  "decode_op n = (if n < NUM_OPCODES then Some (all_ops ! n) else None)"

definition luaP_opnames :: "string list" where
  "luaP_opnames =
   [''MOVE'', ''LOADK'', ''LOADBOOL'', ''LOADNIL'', ''GETUPVAL'', ''GETGLOBAL'',
   ''GETTABLE'', ''SETGLOBAL'', ''SETUPVAL'', ''SETTABLE'', ''NEWTABLE'', ''SELF'',
   ''ADD'', ''SUB'', ''MUL'', ''DIV'', ''MOD'', ''POW'', ''UNM'', ''NOT'', ''LEN'',
   ''CONCAT'', ''JMP'', ''EQ'', ''LT'', ''LE'', ''TEST'', ''TESTSET'', ''CALL'',
   ''TAILCALL'', ''RETURN'', ''FORLOOP'', ''FORPREP'', ''TFORLOOP'', ''SETLIST'',
   ''CLOSE'', ''CLOSURE'', ''VARARG'']"

subsection \<open>Instruction properties\<close>

datatype OpMode = iABC | iABx | iAsBx

datatype OpArgMask = OpArgN | OpArgU | OpArgR | OpArgK

fun opmode_num :: "OpMode \<Rightarrow> byte" where
  "opmode_num iABC = 0" | "opmode_num iABx = 1" | "opmode_num iAsBx = 2"

fun opargmask_num :: "OpArgMask \<Rightarrow> byte" where
  "opargmask_num OpArgN = 0" | "opargmask_num OpArgU = 1"
| "opargmask_num OpArgR = 2" | "opargmask_num OpArgK = 3"

definition opmode :: "byte \<Rightarrow> byte \<Rightarrow> OpArgMask \<Rightarrow> OpArgMask \<Rightarrow> OpMode \<Rightarrow> byte" where
  "opmode t a b c m =
     push_bit 7 t OR push_bit 6 a OR push_bit 4 (opargmask_num b)
     OR push_bit 2 (opargmask_num c) OR opmode_num m"

definition luaP_opmodes :: "byte list" where
  "luaP_opmodes =
  [opmode 0 1 OpArgR OpArgN iABC,
   opmode 0 1 OpArgK OpArgN iABx,
   opmode 0 1 OpArgU OpArgU iABC,
   opmode 0 1 OpArgR OpArgN iABC,
   opmode 0 1 OpArgU OpArgN iABC,
   opmode 0 1 OpArgK OpArgN iABx,
   opmode 0 1 OpArgR OpArgK iABC,
   opmode 0 0 OpArgK OpArgN iABx,
   opmode 0 0 OpArgU OpArgN iABC,
   opmode 0 0 OpArgK OpArgK iABC,
   opmode 0 1 OpArgU OpArgU iABC,
   opmode 0 1 OpArgR OpArgK iABC,
   opmode 0 1 OpArgK OpArgK iABC,
   opmode 0 1 OpArgK OpArgK iABC,
   opmode 0 1 OpArgK OpArgK iABC,
   opmode 0 1 OpArgK OpArgK iABC,
   opmode 0 1 OpArgK OpArgK iABC,
   opmode 0 1 OpArgK OpArgK iABC,
   opmode 0 1 OpArgR OpArgN iABC,
   opmode 0 1 OpArgR OpArgN iABC,
   opmode 0 1 OpArgR OpArgN iABC,
   opmode 0 1 OpArgR OpArgR iABC,
   opmode 0 0 OpArgR OpArgN iAsBx,
   opmode 1 0 OpArgK OpArgK iABC,
   opmode 1 0 OpArgK OpArgK iABC,
   opmode 1 0 OpArgK OpArgK iABC,
   opmode 1 1 OpArgR OpArgU iABC,
   opmode 1 1 OpArgR OpArgU iABC,
   opmode 0 1 OpArgU OpArgU iABC,
   opmode 0 1 OpArgU OpArgU iABC,
   opmode 0 0 OpArgU OpArgN iABC,
   opmode 0 1 OpArgR OpArgN iAsBx,
   opmode 0 1 OpArgR OpArgN iAsBx,
   opmode 1 0 OpArgN OpArgU iABC,
   opmode 0 0 OpArgU OpArgU iABC,
   opmode 0 0 OpArgN OpArgN iABC,
   opmode 0 1 OpArgU OpArgN iABx,
   opmode 0 1 OpArgU OpArgN iABC]"

definition opmode_of :: "byte \<Rightarrow> OpMode" where
  "opmode_of w = (if w = 0 then iABC else if w = 1 then iABx else iAsBx)"

definition opargmask_of :: "byte \<Rightarrow> OpArgMask" where
  "opargmask_of w =
     (if w = 0 then OpArgN else if w = 1 then OpArgU else if w = 2 then OpArgR else OpArgK)"

definition getOpMode :: "nat \<Rightarrow> OpMode" where
  "getOpMode m = opmode_of ((luaP_opmodes ! m) AND 3)"

definition getBMode :: "nat \<Rightarrow> OpArgMask" where
  "getBMode m = opargmask_of (drop_bit 4 (luaP_opmodes ! m) AND 3)"

definition getCMode :: "nat \<Rightarrow> OpArgMask" where
  "getCMode m = opargmask_of (drop_bit 2 (luaP_opmodes ! m) AND 3)"

definition testAMode :: "nat \<Rightarrow> bool" where
  "testAMode m = ((luaP_opmodes ! m) AND push_bit 6 1 \<noteq> 0)"

definition testTMode :: "nat \<Rightarrow> bool" where
  "testTMode m = ((luaP_opmodes ! m) AND push_bit 7 1 \<noteq> 0)"

definition LFIELDS_PER_FLUSH :: int where "LFIELDS_PER_FLUSH = 50"

subsection \<open>Field laws\<close>

lemma MASK1_bit: "bit (MASK1 n p) j \<longleftrightarrow> p \<le> j \<and> j < p + n \<and> j < 32"
  by (auto simp: MASK1_def bit_simps)

lemma get_field_bit: "bit (get_field p n i) j \<longleftrightarrow> j < n \<and> j < 32 \<and> bit i (p + j)"
  by (auto simp: get_field_def bit_simps MASK1_bit)

lemma set_field_bit:
  "bit (set_field p n i u) j \<longleftrightarrow>
     j < 32 \<and> (if p \<le> j \<and> j < p + n then bit u (j - p) else bit i j)"
  by (auto simp: set_field_def MASK0_def bit_simps MASK1_bit)

lemma get_set_field:
  assumes "p + n \<le> 32"
  shows "get_field p n (set_field p n i u) = take_bit n u"
  by (rule bit_eqI) (use assms in \<open>auto simp: get_field_bit set_field_bit bit_simps\<close>)

lemma get_set_field_other:
  assumes "p' + n' \<le> 32" and "p' + n' \<le> p \<or> p + n \<le> p'"
  shows "get_field p' n' (set_field p n i u) = get_field p' n' i"
  by (rule bit_eqI) (use assms in \<open>auto simp: get_field_bit set_field_bit\<close>)

lemma set_get_field: "set_field p n i (get_field p n i) = i"
  by (rule bit_eqI) (auto simp: get_field_bit set_field_bit)

lemma get_field_eq: "p + n \<le> 32 \<Longrightarrow> get_field p n i = take_bit n (drop_bit p i)"
  by (rule bit_eqI) (auto simp: get_field_bit bit_simps)

lemma uint_take_bit_word_of_int:
  "n \<le> 32 \<Longrightarrow> uint (take_bit n (word_of_int k :: u32)) = k mod 2 ^ n"
  by (simp add: unsigned_take_bit_eq unsigned_of_int take_bit_take_bit min_def
      take_bit_eq_mod[symmetric])

lemma unat_take_bit_word_of_nat:
  "n \<le> 32 \<Longrightarrow> unat (take_bit n (word_of_nat k :: u32)) = k mod 2 ^ n"
  by (simp add: unsigned_take_bit_eq unsigned_of_nat take_bit_take_bit min_def
      take_bit_eq_mod[symmetric])

lemma field_nth_limit:
  "0 \<le> k \<Longrightarrow> k < 2 ^ n \<Longrightarrow> bit (word_of_int k :: u32) j \<Longrightarrow> j < n"
  by (metis bit_take_bit_iff bit_word_of_int_iff take_bit_int_eq_self)

lemma opcode_nth_limit:
  "k < 2 ^ n \<Longrightarrow> bit (word_of_nat k :: u32) j \<Longrightarrow> j < n"
  using field_nth_limit[of "int k" n j] by simp

lemma CREATE_ABC_bit:
  assumes "op < 64" "0 \<le> a" "a \<le> MAXARG_A" "0 \<le> b" "b \<le> MAXARG_B" "0 \<le> c" "c \<le> MAXARG_C"
  shows "bit (CREATE_ABC op a b c) j \<longleftrightarrow>
    (if j < 6 then bit (word_of_nat op :: u32) j
     else if j < 14 then bit (word_of_int a :: u32) (j - 6)
     else if j < 23 then bit (word_of_int c :: u32) (j - 14)
     else j < 32 \<and> bit (word_of_int b :: u32) (j - 23))"
proof -
  have [simp]: "6 \<le> k \<Longrightarrow> \<not> bit (word_of_nat op :: u32) k" for k
    using opcode_nth_limit[of op 6 k] assms by fastforce
  have [simp]: "8 \<le> k \<Longrightarrow> \<not> bit (word_of_int a :: u32) k" for k
    using field_nth_limit[of a 8 k] assms by (fastforce simp: maxarg_defs)
  have [simp]: "9 \<le> k \<Longrightarrow> \<not> bit (word_of_int b :: u32) k" for k
    using field_nth_limit[of b 9 k] assms by (fastforce simp: maxarg_defs)
  have [simp]: "9 \<le> k \<Longrightarrow> \<not> bit (word_of_int c :: u32) k" for k
    using field_nth_limit[of c 9 k] assms by (fastforce simp: maxarg_defs)
  show ?thesis
    by (simp add: CREATE_ABC_def bit_or_iff bit_push_bit_iff)
qed

lemma CREATE_ABx_bit:
  assumes "op < 64" "0 \<le> a" "a \<le> MAXARG_A" "0 \<le> b" "b \<le> MAXARG_Bx"
  shows "bit (CREATE_ABx op a b) j \<longleftrightarrow>
    (if j < 6 then bit (word_of_nat op :: u32) j
     else if j < 14 then bit (word_of_int a :: u32) (j - 6)
     else j < 32 \<and> bit (word_of_int b :: u32) (j - 14))"
proof -
  have [simp]: "6 \<le> k \<Longrightarrow> \<not> bit (word_of_nat op :: u32) k" for k
    using opcode_nth_limit[of op 6 k] assms by fastforce
  have [simp]: "8 \<le> k \<Longrightarrow> \<not> bit (word_of_int a :: u32) k" for k
    using field_nth_limit[of a 8 k] assms by (fastforce simp: maxarg_defs)
  have [simp]: "18 \<le> k \<Longrightarrow> \<not> bit (word_of_int b :: u32) k" for k
    using field_nth_limit[of b 18 k] assms by (fastforce simp: maxarg_defs)
  show ?thesis
    by (simp add: CREATE_ABx_def bit_or_iff bit_push_bit_iff)
qed

lemma uint_take_bit_small:
  "0 \<le> k \<Longrightarrow> k < 2 ^ n \<Longrightarrow> n \<le> 32 \<Longrightarrow> uint (take_bit n (word_of_int k :: u32)) = k"
  by (simp add: uint_take_bit_word_of_int)

lemma CREATE_ABC_get:
  assumes "op < 64" "0 \<le> a" "a \<le> MAXARG_A" "0 \<le> b" "b \<le> MAXARG_B" "0 \<le> c" "c \<le> MAXARG_C"
  shows "GET_OPCODE (CREATE_ABC op a b c) = op" and "GETARG_A (CREATE_ABC op a b c) = a"
    and "GETARG_B (CREATE_ABC op a b c) = b" and "GETARG_C (CREATE_ABC op a b c) = c"
proof -
  have "get_field 0 6 (CREATE_ABC op a b c) = take_bit 6 (word_of_nat op)"
    by (rule bit_eqI) (auto simp: get_field_bit CREATE_ABC_bit[OF assms] bit_take_bit_iff)
  then show "GET_OPCODE (CREATE_ABC op a b c) = op"
    using assms by (simp add: GET_OPCODE_def unat_take_bit_word_of_nat)
  have "get_field 6 8 (CREATE_ABC op a b c) = take_bit 8 (word_of_int a)"
    by (rule bit_eqI) (auto simp: get_field_bit CREATE_ABC_bit[OF assms] bit_take_bit_iff)
  then show "GETARG_A (CREATE_ABC op a b c) = a"
    using assms by (simp add: GETARG_A_def uint_take_bit_small maxarg_defs)
  have "get_field 23 9 (CREATE_ABC op a b c) = take_bit 9 (word_of_int b)"
    by (rule bit_eqI) (auto simp: get_field_bit CREATE_ABC_bit[OF assms] bit_take_bit_iff)
  then show "GETARG_B (CREATE_ABC op a b c) = b"
    using assms by (simp add: GETARG_B_def uint_take_bit_small maxarg_defs)
  have "get_field 14 9 (CREATE_ABC op a b c) = take_bit 9 (word_of_int c)"
    by (rule bit_eqI) (auto simp: get_field_bit CREATE_ABC_bit[OF assms] bit_take_bit_iff)
  then show "GETARG_C (CREATE_ABC op a b c) = c"
    using assms by (simp add: GETARG_C_def uint_take_bit_small maxarg_defs)
qed

lemma CREATE_ABx_get:
  assumes "op < 64" "0 \<le> a" "a \<le> MAXARG_A" "0 \<le> b" "b \<le> MAXARG_Bx"
  shows "GET_OPCODE (CREATE_ABx op a b) = op" and "GETARG_A (CREATE_ABx op a b) = a"
    and "GETARG_Bx (CREATE_ABx op a b) = b" and "GETARG_sBx (CREATE_ABx op a b) = b - MAXARG_sBx"
proof -
  have "get_field 0 6 (CREATE_ABx op a b) = take_bit 6 (word_of_nat op)"
    by (rule bit_eqI) (auto simp: get_field_bit CREATE_ABx_bit[OF assms] bit_take_bit_iff)
  then show "GET_OPCODE (CREATE_ABx op a b) = op"
    using assms by (simp add: GET_OPCODE_def unat_take_bit_word_of_nat)
  have "get_field 6 8 (CREATE_ABx op a b) = take_bit 8 (word_of_int a)"
    by (rule bit_eqI) (auto simp: get_field_bit CREATE_ABx_bit[OF assms] bit_take_bit_iff)
  then show "GETARG_A (CREATE_ABx op a b) = a"
    using assms by (simp add: GETARG_A_def uint_take_bit_small maxarg_defs)
  have "get_field 14 18 (CREATE_ABx op a b) = take_bit 18 (word_of_int b)"
    by (rule bit_eqI) (auto simp: get_field_bit CREATE_ABx_bit[OF assms] bit_take_bit_iff)
  then show "GETARG_Bx (CREATE_ABx op a b) = b"
    using assms by (simp add: GETARG_Bx_def uint_take_bit_small maxarg_defs)
  then show "GETARG_sBx (CREATE_ABx op a b) = b - MAXARG_sBx"
    by (simp add: GETARG_sBx_def)
qed

lemma instruction_fields_ABC:
  "CREATE_ABC (GET_OPCODE i) (GETARG_A i) (GETARG_B i) (GETARG_C i) = i"
  by (rule bit_eqI)
    (auto simp: CREATE_ABC_def GET_OPCODE_def GETARG_A_def GETARG_B_def GETARG_C_def
      bit_or_iff bit_push_bit_iff get_field_bit)

subsection \<open>Setting an argument: the field is read back, the others are kept\<close>

lemmas getarg_defs = GET_OPCODE_def GETARG_A_def GETARG_B_def GETARG_C_def GETARG_Bx_def

lemmas setarg_defs = SET_OPCODE_def SETARG_A_def SETARG_B_def SETARG_C_def SETARG_Bx_def

named_theorems instr_simps

lemma SETARG_A_get [instr_simps]:
  "GET_OPCODE (SETARG_A i u) = GET_OPCODE i" "GETARG_A (SETARG_A i u) = u mod 256"
  "GETARG_B (SETARG_A i u) = GETARG_B i" "GETARG_C (SETARG_A i u) = GETARG_C i"
  "GETARG_Bx (SETARG_A i u) = GETARG_Bx i"
  by (simp_all add: getarg_defs setarg_defs get_set_field get_set_field_other
      uint_take_bit_word_of_int)

lemma SETARG_B_get [instr_simps]:
  "GET_OPCODE (SETARG_B i u) = GET_OPCODE i" "GETARG_A (SETARG_B i u) = GETARG_A i"
  "GETARG_B (SETARG_B i u) = u mod 512" "GETARG_C (SETARG_B i u) = GETARG_C i"
  by (simp_all add: getarg_defs setarg_defs get_set_field get_set_field_other
      uint_take_bit_word_of_int)

lemma SETARG_C_get [instr_simps]:
  "GET_OPCODE (SETARG_C i u) = GET_OPCODE i" "GETARG_A (SETARG_C i u) = GETARG_A i"
  "GETARG_B (SETARG_C i u) = GETARG_B i" "GETARG_C (SETARG_C i u) = u mod 512"
  by (simp_all add: getarg_defs setarg_defs get_set_field get_set_field_other
      uint_take_bit_word_of_int)

lemma SETARG_Bx_get [instr_simps]:
  "GET_OPCODE (SETARG_Bx i u) = GET_OPCODE i" "GETARG_A (SETARG_Bx i u) = GETARG_A i"
  "GETARG_Bx (SETARG_Bx i u) = u mod 262144"
  by (simp_all add: getarg_defs setarg_defs get_set_field get_set_field_other
      uint_take_bit_word_of_int)

lemma SETARG_sBx_get [instr_simps]:
  "GET_OPCODE (SETARG_sBx i b) = GET_OPCODE i" "GETARG_A (SETARG_sBx i b) = GETARG_A i"
  by (simp_all add: SETARG_sBx_def instr_simps)

lemma GETARG_sBx_SETARG_sBx:
  "\<bar>b\<bar> \<le> MAXARG_sBx \<Longrightarrow> GETARG_sBx (SETARG_sBx i b) = b"
  by (simp add: SETARG_sBx_def GETARG_sBx_def instr_simps maxarg_defs)

lemma getarg_bounds:
  "GET_OPCODE i < 64" "0 \<le> GETARG_A i" "GETARG_A i \<le> MAXARG_A" "0 \<le> GETARG_B i"
  "GETARG_B i \<le> MAXARG_B" "0 \<le> GETARG_C i" "GETARG_C i \<le> MAXARG_C" "0 \<le> GETARG_Bx i"
  "GETARG_Bx i \<le> MAXARG_Bx"
proof -
  have b: "uint (get_field p n i) < 2 ^ n" if "p + n \<le> 32" for p n
    using that by (simp add: get_field_eq unsigned_take_bit_eq)
  have "unat (get_field 0 6 i) < 2 ^ 6"
    by (simp add: get_field_eq unsigned_take_bit_eq take_bit_nat_less_exp[of 6, simplified])
  then show "GET_OPCODE i < 64" by (simp add: GET_OPCODE_def)
  show "GETARG_A i \<le> MAXARG_A" "GETARG_B i \<le> MAXARG_B" "GETARG_C i \<le> MAXARG_C"
    "GETARG_Bx i \<le> MAXARG_Bx"
    using b[of 6 8] b[of 23 9] b[of 14 9] b[of 14 18]
    by (simp_all add: getarg_defs maxarg_defs)
qed (simp_all add: getarg_defs)

subsection \<open>Opcodes and their table\<close>

lemma op_num_lt [simp]: "op_num op < NUM_OPCODES"
  by (cases op) (simp_all add: NUM_OPCODES_def)

lemma op_num_lt64 [simp]: "op_num op < 64"
  using op_num_lt[of op] by (simp add: NUM_OPCODES_def del: op_num_lt)

lemma decode_op_num [simp]: "decode_op (op_num op) = Some op"
  by (cases op) (simp_all add: decode_op_def NUM_OPCODES_def all_ops_def)

lemma decode_op_Some: "decode_op n = Some op \<longleftrightarrow> n = op_num op"
proof
  assume "decode_op n = Some op"
  then have n: "n < 38" "op = all_ops ! n" by (auto simp: decode_op_def NUM_OPCODES_def split: if_splits)
  have "list_all (\<lambda>k. op_num (all_ops ! k) = k) [0..<38]" by code_simp
  then show "n = op_num op" using n by (simp add: list_all_iff)
qed simp

lemma op_num_inject [simp]: "op_num a = op_num b \<longleftrightarrow> a = b"
  by (metis decode_op_num option.inject)

lemma op_num_eq_iff: "op_num a = n \<longleftrightarrow> decode_op n = Some a"
  by (auto simp: decode_op_Some)

text \<open>The two tables have one entry per opcode.\<close>

lemma length_opcode_tables:
  "length luaP_opmodes = NUM_OPCODES" "length luaP_opnames = NUM_OPCODES"
  "length all_ops = NUM_OPCODES"
  by (simp_all add: luaP_opmodes_def luaP_opnames_def all_ops_def NUM_OPCODES_def)

lemma all_ops_complete: "op \<in> set all_ops"
  by (cases op) (simp_all add: all_ops_def)

lemma all_ops_induct: "list_all P all_ops \<Longrightarrow> P op"
  using all_ops_complete[of op] by (simp add: list_all_iff)

text \<open>The operators that are tests, that write register \<open>A\<close>, and those with a wide operand.\<close>

lemma testTMode_op:
  "testTMode (op_num op) \<longleftrightarrow> op \<in> {OP_EQ, OP_LT, OP_LE, OP_TEST, OP_TESTSET, OP_TFORLOOP}"
proof -
  have "list_all (\<lambda>op. testTMode (op_num op)
      = (op \<in> set [OP_EQ, OP_LT, OP_LE, OP_TEST, OP_TESTSET, OP_TFORLOOP])) all_ops"
    by code_simp
  then show ?thesis using all_ops_induct[of _ op] by fastforce
qed

lemma getOpMode_op:
  "getOpMode (op_num op) =
     (if op \<in> {OP_JMP, OP_FORLOOP, OP_FORPREP} then iAsBx
      else if op \<in> {OP_LOADK, OP_GETGLOBAL, OP_SETGLOBAL, OP_CLOSURE} then iABx else iABC)"
proof -
  have "list_all (\<lambda>op. getOpMode (op_num op)
      = (if op \<in> set [OP_JMP, OP_FORLOOP, OP_FORPREP] then iAsBx
         else if op \<in> set [OP_LOADK, OP_GETGLOBAL, OP_SETGLOBAL, OP_CLOSURE] then iABx
         else iABC)) all_ops"
    by code_simp
  then show ?thesis using all_ops_induct[of _ op] by fastforce
qed

lemma getBMode_op:
  "getBMode (op_num op) =
     (if op \<in> {OP_TFORLOOP, OP_CLOSE} then OpArgN
      else if op \<in> {OP_LOADBOOL, OP_GETUPVAL, OP_SETUPVAL, OP_NEWTABLE, OP_CALL, OP_TAILCALL,
        OP_RETURN, OP_SETLIST, OP_CLOSURE, OP_VARARG} then OpArgU
      else if op \<in> {OP_MOVE, OP_LOADNIL, OP_GETTABLE, OP_SELF, OP_UNM, OP_NOT, OP_LEN,
        OP_CONCAT, OP_JMP, OP_TEST, OP_TESTSET, OP_FORLOOP, OP_FORPREP} then OpArgR
      else OpArgK)"
proof -
  have "list_all (\<lambda>op. getBMode (op_num op) =
     (if op \<in> set [OP_TFORLOOP, OP_CLOSE] then OpArgN
      else if op \<in> set [OP_LOADBOOL, OP_GETUPVAL, OP_SETUPVAL, OP_NEWTABLE, OP_CALL, OP_TAILCALL,
        OP_RETURN, OP_SETLIST, OP_CLOSURE, OP_VARARG] then OpArgU
      else if op \<in> set [OP_MOVE, OP_LOADNIL, OP_GETTABLE, OP_SELF, OP_UNM, OP_NOT, OP_LEN,
        OP_CONCAT, OP_JMP, OP_TEST, OP_TESTSET, OP_FORLOOP, OP_FORPREP] then OpArgR
      else OpArgK)) all_ops"
    by code_simp
  then show ?thesis using all_ops_induct[of _ op] by fastforce
qed

lemma getCMode_op:
  "getCMode (op_num op) =
     (if op \<in> {OP_GETTABLE, OP_SETTABLE, OP_SELF, OP_ADD, OP_SUB, OP_MUL, OP_DIV, OP_MOD,
        OP_POW, OP_EQ, OP_LT, OP_LE} then OpArgK
      else if op = OP_CONCAT then OpArgR
      else if op \<in> {OP_LOADBOOL, OP_NEWTABLE, OP_TEST, OP_TESTSET, OP_CALL, OP_TAILCALL,
        OP_TFORLOOP, OP_SETLIST} then OpArgU
      else OpArgN)"
proof -
  have "list_all (\<lambda>op. getCMode (op_num op) =
     (if op \<in> set [OP_GETTABLE, OP_SETTABLE, OP_SELF, OP_ADD, OP_SUB, OP_MUL, OP_DIV, OP_MOD,
        OP_POW, OP_EQ, OP_LT, OP_LE] then OpArgK
      else if op = OP_CONCAT then OpArgR
      else if op \<in> set [OP_LOADBOOL, OP_NEWTABLE, OP_TEST, OP_TESTSET, OP_CALL, OP_TAILCALL,
        OP_TFORLOOP, OP_SETLIST] then OpArgU
      else OpArgN)) all_ops"
    by code_simp
  then show ?thesis using all_ops_induct[of _ op] by fastforce
qed

subsection \<open>RK operands\<close>

lemma BITRK_eq: "BITRK = 256"
  by (simp add: BITRK_def)

lemma RK_roundtrip:
  assumes "0 \<le> k" "k \<le> MAXINDEXRK"
  shows "ISK (RKASK k)" "INDEXK (RKASK k) = k" "RKASK k = k + 256" "\<not> ISK k"
proof -
  have k: "0 \<le> k" "k < 256" using assms by (simp_all add: MAXINDEXRK_def BITRK_eq)
  have d: "k AND 256 = 0"
  proof (rule bit_eqI)
    fix n
    have "k = take_bit 8 k" using k by (simp add: take_bit_int_eq_self)
    then have "bit k n \<Longrightarrow> n < 8" by (metis bit_take_bit_iff)
    moreover have "bit (256::int) n \<longleftrightarrow> n = 8"
      using bit_exp_iff[where 'a = int, of 8 n] by auto
    ultimately show "bit (k AND 256) n = bit (0::int) n"
      by (auto simp: bit_and_iff)
  qed
  have o: "k OR 256 = k + 256" using plus_and_or[of k 256] d by simp
  show "ISK (RKASK k)" using d by (simp add: ISK_def RKASK_def BITRK_eq bit.conj_disj_distrib2)
  show "RKASK k = k + 256" using o by (simp add: RKASK_def BITRK_eq)
  have "(k OR 256) AND NOT 256 = k AND NOT 256"
    by (simp add: bit.conj_disj_distrib2)
  also have "\<dots> = k"
    using d by (metis and.right_neutral bit.conj_disj_distrib bit.disj_cancel_right or.left_neutral)
  finally show "INDEXK (RKASK k) = k" by (simp add: INDEXK_def RKASK_def BITRK_eq)
  show "\<not> ISK k" using d by (simp add: ISK_def BITRK_eq)
qed

subsection \<open>Properties\<close>

text \<open>C13. Instructions: the three operands and the opcode put in by \<open>CREATE_ABC\<close> are read back,
  and every 32-bit word is the instruction made of its own fields.\<close>
theorem instruction_roundtrip:
  "(op < 64 \<and> 0 \<le> a \<and> a \<le> MAXARG_A \<and> 0 \<le> b \<and> b \<le> MAXARG_B \<and> 0 \<le> c \<and> c \<le> MAXARG_C \<longrightarrow>
     GET_OPCODE (CREATE_ABC op a b c) = op \<and> GETARG_A (CREATE_ABC op a b c) = a
     \<and> GETARG_B (CREATE_ABC op a b c) = b \<and> GETARG_C (CREATE_ABC op a b c) = c)
   \<and> CREATE_ABC (GET_OPCODE i) (GETARG_A i) (GETARG_B i) (GETARG_C i) = i"
  by (simp add: CREATE_ABC_get instruction_fields_ABC)

theorem instruction_roundtrip_witness: "GETARG_C (CREATE_ABC 12 3 257 511) = 511"
  using instruction_roundtrip[of 12 3 257 511 0] by (simp add: maxarg_defs)

text \<open>C14. A jump offset in range survives \<open>SETARG_sBx\<close> and \<open>GETARG_sBx\<close>, and the opcode and
  register of the instruction are kept.\<close>
theorem jump_offset_roundtrip:
  assumes "\<bar>b\<bar> \<le> MAXARG_sBx"
  shows "GETARG_sBx (SETARG_sBx i b) = b \<and> GET_OPCODE (SETARG_sBx i b) = GET_OPCODE i
    \<and> GETARG_A (SETARG_sBx i b) = GETARG_A i"
  using GETARG_sBx_SETARG_sBx[OF assms] by (simp add: instr_simps)

theorem jump_offset_roundtrip_witness: "GETARG_sBx (SETARG_sBx 0 (-131071)) = -131071"
  using jump_offset_roundtrip[of "-131071" 0] by (simp add: maxarg_defs)

end
