(* ===== verification/Objects.thy ===== *)
theory Objects
  imports LuaNumber Opcodes
begin

text \<open>
  \<open>lobject.h\<close> and \<open>lobject.c\<close>: tagged values, strings, prototypes, and the generic functions on
  them. A pointer to a collectable object is its address; a \<open>TString *\<close> carries with the address
  the fields of the string that never change (hash and characters), and address 0 is \<open>NULL\<close>.
  The mark bits of objects belong to the collector's state, not to the values.
\<close>

subsection \<open>Type tags (\<open>lua.h\<close>, \<open>lobject.h\<close>)\<close>

definition LUA_TNIL :: int where "LUA_TNIL = 0"
definition LUA_TBOOLEAN :: int where "LUA_TBOOLEAN = 1"
definition LUA_TLIGHTUSERDATA :: int where "LUA_TLIGHTUSERDATA = 2"
definition LUA_TNUMBER :: int where "LUA_TNUMBER = 3"
definition LUA_TSTRING :: int where "LUA_TSTRING = 4"
definition LUA_TTABLE :: int where "LUA_TTABLE = 5"
definition LUA_TFUNCTION :: int where "LUA_TFUNCTION = 6"
definition LUA_TUSERDATA :: int where "LUA_TUSERDATA = 7"
definition LUA_TTHREAD :: int where "LUA_TTHREAD = 8"
definition LAST_TAG :: int where "LAST_TAG = LUA_TTHREAD"
definition NUM_TAGS :: int where "NUM_TAGS = LAST_TAG + 1"
definition LUA_TPROTO :: int where "LUA_TPROTO = LAST_TAG + 1"
definition LUA_TUPVAL :: int where "LUA_TUPVAL = LAST_TAG + 2"
definition LUA_TDEADKEY :: int where "LUA_TDEADKEY = LAST_TAG + 3"

lemmas tag_defs [simp] =
  LUA_TNIL_def LUA_TBOOLEAN_def LUA_TLIGHTUSERDATA_def LUA_TNUMBER_def LUA_TSTRING_def
  LUA_TTABLE_def LUA_TFUNCTION_def LUA_TUSERDATA_def LUA_TTHREAD_def LAST_TAG_def NUM_TAGS_def
  LUA_TPROTO_def LUA_TUPVAL_def LUA_TDEADKEY_def

subsection \<open>Values\<close>

record TString =
  ts_addr :: addr
  ts_hash :: u32
  ts_str :: string

definition null_TString :: TString where
  "null_TString = \<lparr>ts_addr = 0, ts_hash = 0, ts_str = []\<rparr>"

definition ts_len :: "TString \<Rightarrow> nat" where
  "ts_len ts = length (ts_str ts)"

datatype TValue =
    LNil
  | LBoolean int
  | LLightUserdata addr
  | LNumber lua_Number
  | LString TString
  | LTable addr
  | LFunction addr
  | LUserdata addr
  | LThread addr
  | LDeadKey addr

fun ttype :: "TValue \<Rightarrow> int" where
  "ttype LNil = LUA_TNIL"
| "ttype (LBoolean b) = LUA_TBOOLEAN"
| "ttype (LLightUserdata p) = LUA_TLIGHTUSERDATA"
| "ttype (LNumber n) = LUA_TNUMBER"
| "ttype (LString s) = LUA_TSTRING"
| "ttype (LTable h) = LUA_TTABLE"
| "ttype (LFunction f) = LUA_TFUNCTION"
| "ttype (LUserdata u) = LUA_TUSERDATA"
| "ttype (LThread t) = LUA_TTHREAD"
| "ttype (LDeadKey g) = LUA_TDEADKEY"

definition ttisnil :: "TValue \<Rightarrow> bool" where "ttisnil v = (ttype v = LUA_TNIL)"
definition ttisnumber :: "TValue \<Rightarrow> bool" where "ttisnumber v = (ttype v = LUA_TNUMBER)"
definition ttisstring :: "TValue \<Rightarrow> bool" where "ttisstring v = (ttype v = LUA_TSTRING)"
definition ttisboolean :: "TValue \<Rightarrow> bool" where "ttisboolean v = (ttype v = LUA_TBOOLEAN)"

definition iscollectable :: "TValue \<Rightarrow> bool" where
  "iscollectable v = (LUA_TSTRING \<le> ttype v)"

text \<open>\<open>gcvalue\<close>: the address of a collectable value.\<close>

fun gcvalue :: "TValue \<Rightarrow> addr" where
  "gcvalue (LString s) = ts_addr s"
| "gcvalue (LTable h) = h"
| "gcvalue (LFunction f) = f"
| "gcvalue (LUserdata u) = u"
| "gcvalue (LThread t) = t"
| "gcvalue (LDeadKey g) = g"
| "gcvalue v = 0"

definition l_isfalse :: "TValue \<Rightarrow> bool" where
  "l_isfalse v = (ttisnil v \<or> (case v of LBoolean b \<Rightarrow> b = 0 | _ \<Rightarrow> False))"

lemma ttis_simps [simp]:
  "ttisnil v \<longleftrightarrow> v = LNil"
  "ttisnumber v \<longleftrightarrow> (\<exists>n. v = LNumber n)"
  "ttisstring v \<longleftrightarrow> (\<exists>s. v = LString s)"
  "ttisboolean v \<longleftrightarrow> (\<exists>b. v = LBoolean b)"
  by (cases v; simp add: ttisnil_def ttisnumber_def ttisstring_def ttisboolean_def)+

subsection \<open>Prototypes\<close>

record LocVar =
  varname :: TString
  startpc :: int
  endpc :: int

text \<open>The arrays of a prototype carry their sizes (\<open>sizek\<close>, \<open>sizecode\<close>, ...) as lengths.\<close>

datatype Proto = Proto
  (p_k: "TValue list") (p_code: "Instruction list") (p_p: "Proto list")
  (p_lineinfo: "int list") (p_locvars: "LocVar list") (p_upvalues: "TString list")
  (p_source: TString) (p_linedefined: int) (p_lastlinedefined: int)
  (p_nups: byte) (p_numparams: byte) (p_is_vararg: byte) (p_maxstacksize: byte)

definition VARARG_HASARG :: byte where "VARARG_HASARG = 1"
definition VARARG_ISVARARG :: byte where "VARARG_ISVARARG = 2"
definition VARARG_NEEDSARG :: byte where "VARARG_NEEDSARG = 4"

subsection \<open>Floating point bytes\<close>

function int2fb_loop :: "u32 \<Rightarrow> int \<Rightarrow> u32 \<times> int" where
  "int2fb_loop x e = (if 16 \<le> x then int2fb_loop (drop_bit 1 (x + 1)) (e + 1) else (x, e))"
  by pat_completeness auto
termination
proof (relation "measure (\<lambda>(x, e). unat x)")
  fix x :: u32 and e :: int
  assume "16 \<le> x"
  then have x: "16 \<le> unat x" by (simp add: word_le_nat_alt)
  have "unat (drop_bit 1 (x + 1)) = unat (x + 1) div 2"
    by (simp add: drop_bit_eq_div unat_div)
  also have "\<dots> \<le> (unat x + 1) div 2" by (intro div_le_mono) (simp add: unat_word_ariths)
  also have "\<dots> < unat x" using x by simp
  finally show "((drop_bit 1 (x + 1), e + 1), (x, e)) \<in> measure (\<lambda>(x, e). unat x)" by simp
qed simp

declare int2fb_loop.simps [simp del]

definition luaO_int2fb :: "u32 \<Rightarrow> int" where
  "luaO_int2fb x =
     (let (x', e) = int2fb_loop x 0
      in if x' < 8 then uint x' else push_bit 3 (e + 1) OR (uint x' - 8))"

text \<open>The result is a 32-bit \<open>int\<close>: a shift whose value does not fit has no result.\<close>

definition luaO_fb2int :: "int \<Rightarrow> int option" where
  "luaO_fb2int x =
     (let e = drop_bit 3 x AND 31; r = push_bit (nat (e - 1)) ((x AND 7) + 8)
      in if e = 0 then Some x else if r < 2 ^ 31 then Some r else None)"

subsection \<open>Binary logarithm\<close>

definition log_2 :: "int list" where
  "log_2 =
     [0, 1, 2, 2] @ replicate 4 3 @ replicate 8 4 @ replicate 16 5
     @ replicate 32 6 @ replicate 64 7 @ replicate 128 8"

function log2_loop :: "u32 \<Rightarrow> int \<Rightarrow> u32 \<times> int" where
  "log2_loop x l = (if 256 \<le> x then log2_loop (drop_bit 8 x) (l + 8) else (x, l))"
  by pat_completeness auto
termination
proof (relation "measure (\<lambda>(x, l). unat x)")
  fix x :: u32 and l :: int
  assume "256 \<le> x"
  then have "256 \<le> unat x" by (simp add: word_le_nat_alt)
  moreover have "unat (drop_bit 8 x) = unat x div 256" by (simp add: drop_bit_eq_div unat_div)
  ultimately show "((drop_bit 8 x, l + 8), (x, l)) \<in> measure (\<lambda>(x, l). unat x)" by simp
qed simp

declare log2_loop.simps [simp del]

definition luaO_log2 :: "u32 \<Rightarrow> int" where
  "luaO_log2 x = (let (x', l) = log2_loop x (-1) in l + log_2 ! unat x')"

definition ceillog2 :: "int \<Rightarrow> int" where
  "ceillog2 x = luaO_log2 (word_of_int (x - 1)) + 1"

subsection \<open>The module operation for hashing\<close>

definition lmod :: "u32 \<Rightarrow> int \<Rightarrow> nat" where
  "lmod s sz = unat (s AND (word_of_int sz - 1))"

subsection \<open>Raw equality\<close>

definition luaO_rawequalObj :: "TValue \<Rightarrow> TValue \<Rightarrow> bool" where
  "luaO_rawequalObj t1 t2 =
     (if ttype t1 \<noteq> ttype t2 then False
      else case (t1, t2) of
        (LNil, _) \<Rightarrow> True
      | (LNumber a, LNumber b) \<Rightarrow> luai_numeq a b
      | (LBoolean a, LBoolean b) \<Rightarrow> a = b
      | (LLightUserdata p, LLightUserdata q) \<Rightarrow> p = q
      | _ \<Rightarrow> gcvalue t1 = gcvalue t2)"

subsection \<open>Printable chunk names\<close>

text \<open>
  A buffer is the bytes it holds. The copying functions of the C library write from an offset on;
  a write that leaves the buffer, and reading a string without its zero, is undefined. The source
  of a copy is a C string, given without its terminating zero.
\<close>

definition c_str :: "string \<Rightarrow> string" where
  "c_str s = takeWhile (\<lambda>c. c \<noteq> CHR 0x00) s"

definition store :: "string \<Rightarrow> nat \<Rightarrow> string \<Rightarrow> string res" where
  "store out i bs =
     (if i + length bs \<le> length out then Inr (take i out @ bs @ drop (i + length bs) out) else Inl Undef)"

definition strlen :: "string \<Rightarrow> nat res" where
  "strlen out = (if CHR 0x00 \<in> set out then Inr (length (c_str out)) else Inl Undef)"

definition strcpy :: "string \<Rightarrow> string \<Rightarrow> string res" where
  "strcpy out src = store out 0 (src @ [CHR 0x00])"

definition strncpy :: "string \<Rightarrow> string \<Rightarrow> u32 \<Rightarrow> string res" where
  "strncpy out src n =
     (if unat n \<le> length out
      then store out 0 (take (unat n) src @ replicate (unat n - length src) (CHR 0x00))
      else Inl Undef)"

definition strcat :: "string \<Rightarrow> string \<Rightarrow> string res" where
  "strcat out src = bindR (strlen out) (\<lambda>l. store out l (src @ [CHR 0x00]))"

definition strncat :: "string \<Rightarrow> string \<Rightarrow> nat \<Rightarrow> string res" where
  "strncat out src n = bindR (strlen out) (\<lambda>l. store out l (take n src @ [CHR 0x00]))"

text \<open>
  \<open>luaO_chunkid\<close> gives the buffer after the call; subtracting from \<open>bufflen\<close> wraps as it does for
  a \<open>size_t\<close>. The sizes subtracted are \<open>sizeof(" '...' ")\<close> and \<open>sizeof(" [string \"...\"] ")\<close>.
\<close>

definition luaO_chunkid :: "string \<Rightarrow> string \<Rightarrow> u32 \<Rightarrow> string res" where
  "luaO_chunkid out source bufflen =
     (if take 1 source = ''=''
      then bindR (strncpy out (drop 1 source) bufflen) (\<lambda>out.
             store out (unat (bufflen - 1)) [CHR 0x00])
      else if take 1 source = ''@''
      then let source = drop 1 source; bufflen = unat (bufflen - 8); l = length source
           in bindR (strcpy out []) (\<lambda>out.
                if bufflen < l
                then bindR (strcat out ''...'') (\<lambda>out. strcat out (drop (l - bufflen) source))
                else strcat out source)
      else let len0 = length (takeWhile (\<lambda>c. c \<noteq> CHR 0x0A \<and> c \<noteq> CHR 0x0D) source);
               bufflen = unat (bufflen - 17);
               len = (if bufflen < len0 then bufflen else len0)
           in bindR (strcpy out (''[string '' @ [CHR 0x22])) (\<lambda>out.
                bindR (if len < length source
                       then bindR (strncat out source len) (\<lambda>out. strcat out ''...'')
                       else strcat out source)
                  (\<lambda>out. strcat out ([CHR 0x22] @ '']''))))"

text \<open>
  What the callers do: \<open>char buff[n]; luaO_chunkid(buff, source, n)\<close>, then \<open>buff\<close> is read as a C
  string. The bytes a fresh buffer happens to hold do not matter (\<open>chunkid_in_buffer\<close>).
\<close>

definition chunk_name :: "u32 \<Rightarrow> string \<Rightarrow> string res" where
  "chunk_name n source =
     bindR (luaO_chunkid (replicate (unat n) (CHR 0xCC)) source n) (\<lambda>buff.
       bindR (strlen buff) (\<lambda>l. Inr (take l buff)))"

subsection \<open>Floating point bytes: rounding up by less than a seventh\<close>

lemma int_or_shift:
  fixes a m :: int
  assumes "0 \<le> m" "m < 8"
  shows "push_bit 3 a OR m = 8 * a + m"
proof -
  have t: "m = take_bit 3 m" using assms by (simp add: take_bit_int_eq_self)
  have "push_bit 3 a AND m = 0"
    by (subst t, rule bit_eqI) (auto simp: bit_and_iff bit_push_bit_iff bit_take_bit_iff)
  then show ?thesis using plus_and_or[of "push_bit 3 a" m] by (simp add: push_bit_eq_mult)
qed

lemma int2fb_loop_spec:
  assumes "int2fb_loop x e = (x', e')" "unat x < 2 ^ 32 - 1"
  shows "\<exists>k. e' = e + int k \<and> unat x' < 16 \<and> (k = 0 \<longrightarrow> x' = x) \<and> (0 < k \<longrightarrow> 8 \<le> unat x')
    \<and> unat x \<le> unat x' * 2 ^ k \<and> unat x' * 2 ^ k < unat x + 2 ^ k
    \<and> (0 < k \<longrightarrow> 15 * 2 ^ (k - 1) < unat x)"
  using assms
proof (induction x e arbitrary: x' e' rule: int2fb_loop.induct)
  case (1 x e)
  show ?case
  proof (cases "16 \<le> x")
    case False
    then have "x' = x" "e' = e" using "1.prems" by (simp_all add: int2fb_loop.simps[of x e])
    moreover have "unat x < 16" using False by (simp add: word_le_nat_alt not_le)
    ultimately show ?thesis by (intro exI[of _ 0]) simp
  next
    case True
    let ?y = "drop_bit 1 (x + 1)"
    have x: "16 \<le> unat x" using True by (simp add: word_le_nat_alt)
    have "unat (x + 1) = unat x + 1" using "1.prems"(2) by (simp add: unat_word_ariths)
    then have y: "unat ?y = (unat x + 1) div 2" by (simp add: drop_bit_eq_div unat_div)
    have r: "int2fb_loop ?y (e + 1) = (x', e')"
      using "1.prems"(1) True by (simp add: int2fb_loop.simps[of x e])
    have "unat ?y < 2 ^ 32 - 1" using y x "1.prems"(2) by linarith
    from "1.IH"[OF True r this] obtain k where k: "e' = e + 1 + int k" "unat x' < 16"
      "k = 0 \<longrightarrow> x' = ?y" "0 < k \<longrightarrow> 8 \<le> unat x'" "unat ?y \<le> unat x' * 2 ^ k"
      "unat x' * 2 ^ k < unat ?y + 2 ^ k" "0 < k \<longrightarrow> 15 * 2 ^ (k - 1) < unat ?y" by blast
    have big: "15 * 2 ^ k < unat x"
    proof (cases k)
      case 0
      then show ?thesis using x by simp
    next
      case (Suc j)
      then have "15 * 2 ^ j < unat ?y" using k(7) by simp
      then show ?thesis using y Suc by simp
    qed
    have "8 \<le> unat x'" using k(3,4) y x by (cases "k = 0") auto
    moreover have "unat x \<le> 2 * unat ?y" "2 * unat ?y \<le> unat x + 1" using y by simp_all
    ultimately have "e' = e + int (Suc k) \<and> unat x' < 16 \<and> (Suc k = 0 \<longrightarrow> x' = x)
        \<and> (0 < Suc k \<longrightarrow> 8 \<le> unat x') \<and> unat x \<le> unat x' * 2 ^ Suc k
        \<and> unat x' * 2 ^ Suc k < unat x + 2 ^ Suc k
        \<and> (0 < Suc k \<longrightarrow> 15 * 2 ^ (Suc k - 1) < unat x)"
      using k(1,2,5,6) big by simp
    then show ?thesis by blast
  qed
qed

lemma int_and_mask: "(x::int) AND 31 = x mod 32" "(x::int) AND 7 = x mod 8"
  using take_bit_eq_mask[of 5 x] take_bit_eq_mask[of 3 x]
  by (simp_all add: take_bit_eq_mod mask_eq_exp_minus_1)

lemma fb2int_mantissa:
  assumes "0 \<le> m" "m < 8" "k < 31"
  shows "luaO_fb2int (push_bit 3 (int k + 1) OR m) =
    (if (m + 8) * 2 ^ k < 2 ^ 31 then Some ((m + 8) * 2 ^ k) else None)"
proof -
  define y where "y = 8 * (int k + 1) + m"
  have d: "y div 8 = int k + 1" "y mod 8 = m" unfolding y_def using assms by presburger+
  have "drop_bit 3 y AND 31 = int k + 1" "y AND 7 = m"
    using d assms by (simp_all add: int_and_mask drop_bit_eq_div)
  moreover have "push_bit 3 (int k + 1) OR m = y"
    unfolding y_def using assms by (intro int_or_shift)
  ultimately show ?thesis
    using assms by (simp add: luaO_fb2int_def Let_def push_bit_eq_mult)
qed

lemma int2fb_cases:
  assumes "unat x < 2 ^ 32 - 1"
  shows "unat x < 8 \<and> luaO_int2fb x = uint x
    \<or> (\<exists>k m. 0 \<le> m \<and> m < 8 \<and> k < 30 \<and> luaO_int2fb x = push_bit 3 (int k + 1) OR m
        \<and> uint x \<le> (m + 8) * 2 ^ k \<and> (m + 8) * 2 ^ k < uint x + 2 ^ k
        \<and> (0 < k \<longrightarrow> 15 * 2 ^ (k - 1) < uint x))"
proof -
  obtain x' e' where r: "int2fb_loop x 0 = (x', e')" by fastforce
  from int2fb_loop_spec[OF r assms] obtain k where k: "e' = int k" "unat x' < 16"
    "k = 0 \<longrightarrow> x' = x" "0 < k \<longrightarrow> 8 \<le> unat x'" "unat x \<le> unat x' * 2 ^ k"
    "unat x' * 2 ^ k < unat x + 2 ^ k" "0 < k \<longrightarrow> 15 * 2 ^ (k - 1) < unat x" by auto
  have big: "0 < k \<longrightarrow> 15 * 2 ^ (k - 1) < uint x"
  proof
    assume "0 < k"
    then have "int (15 * 2 ^ (k - 1)) < int (unat x)" using k(7) by (simp only: of_nat_less_iff)
    then show "15 * 2 ^ (k - 1) < uint x" by simp
  qed
  show ?thesis
  proof (cases "x' < 8")
    case True
    then have lt: "unat x' < 8" by (simp add: word_less_nat_alt)
    then have "k = 0" using k(4) by (cases k) auto
    then show ?thesis using True r k lt by (simp add: luaO_int2fb_def)
  next
    case False
    then have ge: "8 \<le> unat x'" by (simp add: word_less_nat_alt)
    define m where "m = uint x' - 8"
    have "uint x' = int (unat x')" by simp
    then have m: "0 \<le> m" "m < 8" "m + 8 = int (unat x')" using ge k(2) unfolding m_def by linarith+
    have "8 * 2 ^ k \<le> unat x' * 2 ^ k" using ge by simp
    then have "7 * 2 ^ k < unat x" using k(6) by linarith
    also have "\<dots> < 2 ^ 32" using assms by simp
    finally have "2 ^ k < (2::nat) ^ 30" by simp
    then have "k < 30" by (rule power_less_imp_less_exp[rotated]) simp
    moreover have "luaO_int2fb x = push_bit 3 (int k + 1) OR m"
      using False r k(1) by (simp add: luaO_int2fb_def m_def)
    moreover have "uint x \<le> (m + 8) * 2 ^ k"
    proof -
      have "int (unat x) \<le> int (unat x' * 2 ^ k)" using k(5) by (simp only: of_nat_le_iff)
      then show ?thesis unfolding m(3) by simp
    qed
    moreover have "(m + 8) * 2 ^ k < uint x + 2 ^ k"
    proof -
      have "int (unat x' * 2 ^ k) < int (unat x + 2 ^ k)" using k(6) by (simp only: of_nat_less_iff)
      then show ?thesis unfolding m(3) by simp
    qed
    ultimately show ?thesis using m(1,2) big by blast
  qed
qed

lemma fb2int_small: "0 \<le> y \<Longrightarrow> y < 8 \<Longrightarrow> luaO_fb2int y = Some y"
  by (simp add: luaO_fb2int_def drop_bit_eq_div)

text \<open>The decoded size is an \<open>int\<close> exactly when the exponent is at most 27.\<close>

lemma mantissa_fits:
  assumes "0 \<le> m" "m < 8"
  shows "(m + 8) * 2 ^ k < (2::int) ^ 31 \<longleftrightarrow> k \<le> 27"
proof
  assume l: "(m + 8) * 2 ^ k < (2::int) ^ 31"
  show "k \<le> 27"
  proof (rule ccontr)
    assume "\<not> k \<le> 27"
    then have "(2::int) ^ 28 \<le> 2 ^ k" by (intro power_increasing) simp_all
    then have "8 * 2 ^ 28 \<le> (m + 8) * (2::int) ^ k" using assms by (intro mult_mono) simp_all
    then show False using l by simp
  qed
next
  assume "k \<le> 27"
  then have "(2::int) ^ k \<le> 2 ^ 27" by (intro power_increasing) simp_all
  then have "(m + 8) * (2::int) ^ k \<le> 15 * 2 ^ 27" using assms by (intro mult_mono) simp_all
  then show "(m + 8) * 2 ^ k < (2::int) ^ 31" by simp
qed

subsection \<open>Logarithms\<close>

lemma log2_loop_spec:
  "log2_loop x l = (x', l') \<Longrightarrow>
   \<exists>k. l' = l + 8 * int k \<and> unat x' = unat x div 256 ^ k \<and> unat x' < 256
     \<and> (0 < unat x \<longrightarrow> 0 < unat x')"
proof (induction x l arbitrary: x' l' rule: log2_loop.induct)
  case (1 x l)
  show ?case
  proof (cases "256 \<le> x")
    case False
    then have "x' = x" "l' = l" using "1.prems" by (simp_all add: log2_loop.simps[of x l])
    moreover have "unat x < 256" using False by (simp add: word_le_nat_alt not_le)
    ultimately show ?thesis by (intro exI[of _ 0]) simp
  next
    case True
    have x: "256 \<le> unat x" using True by (simp add: word_le_nat_alt)
    have y: "unat (drop_bit 8 x) = unat x div 256" by (simp add: drop_bit_eq_div unat_div)
    have r: "log2_loop (drop_bit 8 x) (l + 8) = (x', l')"
      using "1.prems" True by (simp add: log2_loop.simps[of x l])
    from "1.IH"[OF True r] obtain k where k: "l' = l + 8 + 8 * int k
      \<and> unat x' = unat (drop_bit 8 x) div 256 ^ k \<and> unat x' < 256
      \<and> (0 < unat (drop_bit 8 x) \<longrightarrow> 0 < unat x')" by (rule exE)
    have p: "0 < unat (drop_bit 8 x)" unfolding y using div_le_mono[OF x, of 256] by linarith
    have e: "unat x div 256 ^ Suc k = unat (drop_bit 8 x) div 256 ^ k"
      unfolding power_Suc div_mult2_eq y ..
    show ?thesis
    proof (intro exI[of _ "Suc k"] conjI impI)
      show "l' = l + 8 * int (Suc k)" using conjunct1[OF k] by simp
      show "unat x' = unat x div 256 ^ Suc k" unfolding e using k by blast
      show "unat x' < 256" "0 < unat x'" using k p by blast+
    qed
  qed
qed

lemma log_2_table:
  assumes "0 < i" "i < 256"
  shows "\<exists>j. log_2 ! i = int (Suc j) \<and> 2 ^ j \<le> i \<and> i < 2 ^ Suc j"
proof -
  have e: "log_2 ! 1 = 1"
    "2 \<le> i \<Longrightarrow> i < 4 \<Longrightarrow> log_2 ! i = 2" "4 \<le> i \<Longrightarrow> i < 8 \<Longrightarrow> log_2 ! i = 3"
    "8 \<le> i \<Longrightarrow> i < 16 \<Longrightarrow> log_2 ! i = 4" "16 \<le> i \<Longrightarrow> i < 32 \<Longrightarrow> log_2 ! i = 5"
    "32 \<le> i \<Longrightarrow> i < 64 \<Longrightarrow> log_2 ! i = 6" "64 \<le> i \<Longrightarrow> i < 128 \<Longrightarrow> log_2 ! i = 7"
    "128 \<le> i \<Longrightarrow> i < 256 \<Longrightarrow> log_2 ! i = 8"
    by (simp_all add: log_2_def nth_append nth_Cons') arith+
  consider "i = 1" | "2 \<le> i" "i < 4" | "4 \<le> i" "i < 8" | "8 \<le> i" "i < 16"
    | "16 \<le> i" "i < 32" | "32 \<le> i" "i < 64" | "64 \<le> i" "i < 128" | "128 \<le> i"
    using assms by linarith
  then show ?thesis
  proof cases
    case 1
    then show ?thesis using e(1) by (intro exI[of _ 0]) simp
  next
    case 2
    then show ?thesis using e(2) by (intro exI[of _ 1]) simp
  next
    case 3
    then show ?thesis using e(3) by (intro exI[of _ 2]) simp
  next
    case 4
    then show ?thesis using e(4) by (intro exI[of _ 3]) simp
  next
    case 5
    then show ?thesis using e(5) by (intro exI[of _ 4]) simp
  next
    case 6
    then show ?thesis using e(6) by (intro exI[of _ 5]) simp
  next
    case 7
    then show ?thesis using e(7) by (intro exI[of _ 6]) simp
  next
    case 8
    then show ?thesis using e(8) assms by (intro exI[of _ 7]) simp
  qed
qed

lemma luaO_log2_spec:
  assumes "0 < unat x"
  shows "\<exists>n. luaO_log2 x = int n \<and> 2 ^ n \<le> unat x \<and> unat x < 2 ^ Suc n"
proof -
  obtain x' l' where r: "log2_loop x (-1) = (x', l')" by fastforce
  from log2_loop_spec[OF r] assms obtain k where k: "l' = -1 + 8 * int k"
    "unat x' = unat x div 256 ^ k" "unat x' < 256" "0 < unat x'" by auto
  from log_2_table[OF k(4,3)] obtain j where j: "log_2 ! unat x' = int (Suc j)"
    "2 ^ j \<le> unat x'" "unat x' < 2 ^ Suc j" by blast
  have p: "(256::nat) ^ k = 2 ^ (8 * k)" by (simp add: power_mult)
  have "2 ^ j * 2 ^ (8 * k) \<le> (unat x div 256 ^ k) * 256 ^ k"
    using j(2) k(2) p by simp
  also have "\<dots> \<le> unat x" by simp
  finally have lo: "2 ^ (8 * k + j) \<le> unat x" by (simp add: power_add mult.commute)
  have "unat x < (unat x div 256 ^ k + 1) * 256 ^ k"
    by (simp add: dividend_less_div_times)
  also have "\<dots> \<le> 2 ^ Suc j * 256 ^ k" using j(3) k(2) by (intro mult_right_mono) simp_all
  finally have "unat x < 2 ^ Suc (8 * k + j)" by (simp add: p power_add mult.commute mult.left_commute)
  then show ?thesis
    using lo r k(1) j(1) by (intro exI[of _ "8 * k + j"]) (simp add: luaO_log2_def)
qed

lemma luaO_log2_0: "luaO_log2 0 = -1"
  by (simp add: luaO_log2_def log2_loop.simps log_2_def)

lemma ceillog2_spec:
  assumes "0 < x" "x < 2 ^ 31"
  shows "\<exists>n. ceillog2 x = int n \<and> x \<le> 2 ^ n \<and> (0 < n \<longrightarrow> 2 ^ (n - 1) < x)"
proof (cases "x = 1")
  case True
  then show ?thesis by (intro exI[of _ 0]) (simp add: ceillog2_def luaO_log2_0)
next
  case False
  then have u: "unat (word_of_int (x - 1) :: u32) = nat (x - 1)"
    using assms by (simp only: unsigned_of_int) (simp add: take_bit_int_eq_self)
  then obtain n where n: "luaO_log2 (word_of_int (x - 1)) = int n" "2 ^ n \<le> nat (x - 1)"
    "nat (x - 1) < 2 ^ Suc n"
    using luaO_log2_spec[of "word_of_int (x - 1)"] False assms by auto
  have "x \<le> 2 ^ Suc n" "2 ^ n < x"
    using n(2,3) False assms by (simp_all add: nat_less_iff le_nat_iff)
  then show ?thesis using n(1) by (intro exI[of _ "Suc n"]) (simp add: ceillog2_def)
qed

subsection \<open>Raw equality and chunk names\<close>

lemma rawequal_refl: "(\<forall>n. v = LNumber n \<longrightarrow> \<not> dbl_isnan n) \<Longrightarrow> luaO_rawequalObj v v"
  by (cases v) (auto simp: luaO_rawequalObj_def)

lemma rawequal_sym: "luaO_rawequalObj a b = luaO_rawequalObj b a"
  by (cases a; cases b) (auto simp: luaO_rawequalObj_def luai_numeq_def)

lemma rawequal_trans: "luaO_rawequalObj a b \<Longrightarrow> luaO_rawequalObj b c \<Longrightarrow> luaO_rawequalObj a c"
  by (cases a; cases b; cases c) (auto simp: luaO_rawequalObj_def intro: luai_numeq_trans)

lemma rawequal_simps:
  "luaO_rawequalObj LNil v \<longleftrightarrow> v = LNil"
  "luaO_rawequalObj (LBoolean b) v \<longleftrightarrow> v = LBoolean b"
  "luaO_rawequalObj (LLightUserdata p) v \<longleftrightarrow> v = LLightUserdata p"
  "luaO_rawequalObj (LNumber n) v \<longleftrightarrow> (\<exists>m. v = LNumber m \<and> luai_numeq n m)"
  "luaO_rawequalObj (LString s) v \<longleftrightarrow> (\<exists>t. v = LString t \<and> ts_addr s = ts_addr t)"
  "luaO_rawequalObj (LTable h) v \<longleftrightarrow> v = LTable h"
  "luaO_rawequalObj (LFunction h) v \<longleftrightarrow> v = LFunction h"
  "luaO_rawequalObj (LUserdata h) v \<longleftrightarrow> v = LUserdata h"
  "luaO_rawequalObj (LThread h) v \<longleftrightarrow> v = LThread h"
  "luaO_rawequalObj (LDeadKey h) v \<longleftrightarrow> v = LDeadKey h"
  by (cases v; auto simp: luaO_rawequalObj_def)+

subsection \<open>Positions in a table of a power of two\<close>

lemma lmod_pow2: "k < 32 \<Longrightarrow> lmod h (2 ^ k) = unat h mod 2 ^ k"
proof -
  assume k: "k < 32"
  have m: "(word_of_int (2 ^ k) - 1 :: u32) = mask k" by (simp add: mask_eq_exp_minus_1)
  show ?thesis
    unfolding lmod_def m take_bit_eq_mask[symmetric] by (subst unsigned_take_bit_eq) (rule take_bit_eq_mod)
qed

lemma lmod_less: "k < 32 \<Longrightarrow> lmod h (2 ^ k) < 2 ^ k"
  by (simp add: lmod_pow2)

subsection \<open>Properties\<close>

text \<open>C30. \<open>luaO_int2fb\<close> gives a byte and never rounds down: decoding it gives at least the
  size, at most a seventh more. This holds up to 0x78000000, and no further: the byte of a larger
  size decodes to no \<open>int\<close> (the shift in \<open>luaO_fb2int\<close> overflows). The largest unsigned value is
  excluded: the loop of \<open>luaO_int2fb\<close> wraps there.\<close>
theorem int2fb_rounds_up:
  assumes "x < 0xFFFFFFFF"
  shows "0 \<le> luaO_int2fb x \<and> luaO_int2fb x < 256 \<and>
    (case luaO_fb2int (luaO_int2fb x) of
       Some n \<Rightarrow> x \<le> 0x78000000 \<and> uint x \<le> n \<and> 7 * (n - uint x) \<le> uint x
     | None \<Rightarrow> 0x78000000 < x)"
proof -
  have u: "x \<le> 0x78000000 \<longleftrightarrow> uint x \<le> 15 * 2 ^ 27" "0x78000000 < x \<longleftrightarrow> 15 * 2 ^ 27 < uint x"
    by (simp_all add: word_le_def word_less_def)
  have "unat x < 2 ^ 32 - 1" using assms by (simp add: word_less_nat_alt)
  from int2fb_cases[OF this] show ?thesis
  proof (elim disjE exE conjE)
    assume "unat x < 8" "luaO_int2fb x = uint x"
    moreover have "uint x < 8" using calculation(1) unfolding uint_nat by linarith
    ultimately show ?thesis using fb2int_small[of "uint x"] u(1) by simp
  next
    fix k m
    assume m: "(0::int) \<le> m" "m < 8" "k < 30" "luaO_int2fb x = push_bit 3 (int k + 1) OR m"
      and b: "uint x \<le> (m + 8) * 2 ^ k" "(m + 8) * 2 ^ k < uint x + 2 ^ k"
        "0 < k \<longrightarrow> 15 * 2 ^ (k - 1) < uint x"
    have "7 * 2 ^ k \<le> (m + 7) * 2 ^ k" using m(1) by (intro mult_right_mono) simp_all
    then have r: "7 * ((m + 8) * 2 ^ k - uint x) \<le> uint x" using b by (simp add: algebra_simps)
    have f: "luaO_fb2int (luaO_int2fb x) = (if k \<le> 27 then Some ((m + 8) * 2 ^ k) else None)"
      using m fb2int_mantissa[of m k] mantissa_fits[of m k] by simp
    have byte: "luaO_int2fb x = 8 * (int k + 1) + m" using m int_or_shift[of m "int k + 1"] by simp
    show ?thesis
    proof (cases "k \<le> 27")
      case True
      then have "(2::int) ^ k \<le> 2 ^ 27" by (intro power_increasing) simp_all
      then have "(m + 8) * (2::int) ^ k \<le> 15 * 2 ^ 27" using m by (intro mult_mono) simp_all
      then have "uint x \<le> 15 * 2 ^ 27" using b(1) by simp
      then show ?thesis unfolding f using True r b(1) u(1) m byte by simp
    next
      case False
      then have "(2::int) ^ 27 \<le> 2 ^ (k - 1)" by (intro power_increasing) simp_all
      then have "15 * 2 ^ 27 < uint x" using b(3) False by linarith
      then show ?thesis unfolding f using False u(2) m byte by simp
    qed
  qed
qed

theorem int2fb_rounds_up_witness:
  "(\<exists>n. luaO_fb2int (luaO_int2fb 1000) = Some n \<and> 1000 \<le> n \<and> n \<le> 1142)
   \<and> luaO_fb2int (luaO_int2fb 0x78000001) = None"
  using int2fb_rounds_up[of 1000] int2fb_rounds_up[of "0x78000001"] by (auto split: option.splits)

text \<open>\<open>ceillog2\<close> gives the exponent of the least power of two that is not below its argument.\<close>
theorem ceillog2_least:
  assumes "0 < x" "x < 2 ^ 31"
  shows "x \<le> 2 ^ nat (ceillog2 x) \<and> 0 \<le> ceillog2 x \<and> (\<forall>n. x \<le> 2 ^ n \<longrightarrow> ceillog2 x \<le> int n)"
proof -
  obtain n where n: "ceillog2 x = int n" "x \<le> 2 ^ n" "0 < n \<longrightarrow> 2 ^ (n - 1) < x"
    using ceillog2_spec[OF assms] by blast
  have "n \<le> j" if "x \<le> 2 ^ j" for j
  proof (rule ccontr)
    assume "\<not> n \<le> j"
    then have "(2::int) ^ j \<le> 2 ^ (n - 1)" by (intro power_increasing) simp_all
    moreover have "2 ^ (n - 1) < x" using n(3) \<open>\<not> n \<le> j\<close> by simp
    ultimately show False using that by linarith
  qed
  then show ?thesis using n(1,2) by auto
qed

theorem ceillog2_least_witness: "5 \<le> (2::int) ^ nat (ceillog2 5) \<and> ceillog2 5 \<le> 3"
  using ceillog2_least[of 5] by (auto dest: spec[of _ 3])

text \<open>
  What a chunk is to be called: the source after \<open>=\<close> cut to the buffer, the end of the file name
  after \<open>@\<close>, or the first line of the source in quotes.
\<close>

definition shown_name :: "nat \<Rightarrow> string \<Rightarrow> string" where
  "shown_name n source =
     (if take 1 source = ''='' then take (n - 1) (drop 1 source)
      else if take 1 source = ''@''
      then let file = drop 1 source
           in if length file \<le> n - 8 then file else ''...'' @ drop (length file - (n - 8)) file
      else let line = take (n - 17) (takeWhile (\<lambda>c. c \<noteq> CHR 0x0A \<and> c \<noteq> CHR 0x0D) source)
           in ''[string '' @ [CHR 0x22] @ (if line = source then source else line @ ''...'') @ [CHR 0x22] @ '']'')"

lemma store_after:
  "length p = n \<Longrightarrow> length bs \<le> length r \<Longrightarrow> store (p @ r) n bs = Inr (p @ bs @ drop (length bs) r)"
  by (simp add: store_def)

lemma strlen_terminated: "CHR 0x00 \<notin> set d \<Longrightarrow> strlen (d @ CHR 0x00 # r) = Inr (length d)"
  by (simp add: strlen_def c_str_def takeWhile_append)

text \<open>A buffer \<open>out\<close> in whose beginning the C string \<open>d\<close> has been put.\<close>

definition holding :: "string \<Rightarrow> string \<Rightarrow> string" where
  "holding out d = d @ CHR 0x00 # drop (Suc (length d)) out"

lemma strcpy_fits: "length d < length out \<Longrightarrow> strcpy out d = Inr (holding out d)"
  by (simp add: strcpy_def store_def holding_def)

lemma strncat_fits:
  assumes "CHR 0x00 \<notin> set d" "length (d @ take n src) < length out"
  shows "strncat (holding out d) src n = Inr (holding out (d @ take n src))"
  using assms store_after[of d "length d" "take n src @ [CHR 0x00]" "CHR 0x00 # drop (Suc (length d)) out"]
  by (simp add: strncat_def strlen_terminated holding_def ac_simps)

lemma strcat_fits:
  assumes "CHR 0x00 \<notin> set d" "length (d @ src) < length out"
  shows "strcat (holding out d) src = Inr (holding out (d @ src))"
  using strncat_fits[of d "length src" src out] assms by (simp add: strcat_def strncat_def)

lemma strncpy_fits:
  assumes "0 < unat n" "unat n \<le> length out"
  shows "bindR (strncpy out src n) (\<lambda>out. store out (unat n - 1) [CHR 0x00]) =
    Inr (take (unat n - 1) src @ CHR 0x00 # replicate (unat n - 1 - length src) (CHR 0x00) @ drop (unat n) out)"
proof -
  let ?z = "CHR 0x00"
  obtain m where m: "unat n = Suc m" using assms(1) by (cases "unat n") auto
  have "min (length src) (Suc m) + (Suc m - length src) = Suc m" by simp
  then have "strncpy out src n = Inr ((take (Suc m) src @ replicate (Suc m - length src) ?z) @ drop (Suc m) out)"
    using assms(2) by (simp add: strncpy_def store_def m)
  also have "take (Suc m) src @ replicate (Suc m - length src) ?z
    = (take m src @ replicate (m - length src) ?z) @ [if m < length src then src ! m else ?z]"
    by (simp add: take_Suc_conv_app_nth Suc_diff_le replicate_append_same not_less)
  finally show ?thesis
    using store_after[of "take m src @ replicate (m - length src) ?z" m "[?z]"
        "(if m < length src then src ! m else ?z) # drop (Suc m) out"]
    by (simp add: m replicate_append_same[symmetric])
qed

lemma rest_of_buffer:
  assumes "length d < n" "n \<le> length out"
  shows "\<exists>pad. holding out d = d @ CHR 0x00 # pad @ drop n out \<and> length d + 1 + length pad = n"
proof -
  let ?r = "drop (Suc (length d)) out"
  have "?r = take (n - Suc (length d)) ?r @ drop n out"
    using append_take_drop_id[of "n - Suc (length d)" ?r] assms(1) by simp
  moreover have "length d + 1 + length (take (n - Suc (length d)) ?r) = n" using assms by simp
  ultimately show ?thesis unfolding holding_def by metis
qed

text \<open>The sizes left after the decoration has been taken off, when there is room for it.\<close>

lemma bufflen_minus:
  fixes n :: u32
  assumes "17 \<le> n"
  shows "17 \<le> unat n" "unat (n - 1) = unat n - 1" "unat (n - 8) = unat n - 8" "unat (n - 17) = unat n - 17"
proof -
  show "17 \<le> unat n" using assms by (simp add: word_le_nat_alt)
  then show "unat (n - 1) = unat n - 1" "unat (n - 8) = unat n - 8" "unat (n - 17) = unat n - 17"
    by (auto simp: word_le_nat_alt intro!: unat_sub[THEN trans])
qed

lemma chunkid_equals:
  assumes "17 \<le> bufflen" "unat bufflen \<le> length out" "take 1 source = ''=''"
  defines "d \<equiv> take (unat bufflen - 1) (drop 1 source)"
  shows "luaO_chunkid out source bufflen = Inr (d @ CHR 0x00
    # replicate (unat bufflen - 1 - length d) (CHR 0x00) @ drop (unat bufflen) out)"
  using strncpy_fits[of bufflen out "drop 1 source"] bufflen_minus[OF assms(1)] assms(2,3)
  by (simp add: luaO_chunkid_def d_def min_def)

lemma chunkid_file:
  assumes "17 \<le> bufflen" "unat bufflen \<le> length out" "CHR 0x00 \<notin> set source" "take 1 source = ''@''"
  defines "f \<equiv> drop 1 source" and "b \<equiv> unat bufflen - 8"
  shows "luaO_chunkid out source bufflen =
    Inr (holding out (if length f \<le> b then f else ''...'' @ drop (length f - b) f))"
proof -
  have eq: "take 1 source \<noteq> ''=''" using assms(4) by simp
  have e: "luaO_chunkid out source bufflen = bindR (strcpy out []) (\<lambda>out.
      if b < length f then bindR (strcat out ''...'') (\<lambda>out. strcat out (drop (length f - b) f))
      else strcat out f)"
    unfolding luaO_chunkid_def Let_def bufflen_minus(3)[OF assms(1)] if_not_P[OF eq] if_P[OF assms(4)]
      f_def b_def by (rule refl)
  have c: "strcpy out [] = Inr (holding out [])"
    using bufflen_minus(1)[OF assms(1)] assms(2) by (intro strcpy_fits) auto
  have l: "b + 8 \<le> length out" using bufflen_minus(1)[OF assms(1)] assms(2) unfolding b_def by linarith
  have "CHR 0x00 \<notin> set (drop i f)" for i using assms(3) unfolding f_def by (auto dest!: in_set_dropD)
  then show ?thesis
    using strcat_fits[of "[]" f out] strcat_fits[of "[]" "''...''" out] l
      strcat_fits[of "''...''" "drop (length f - b) f" out] unfolding e c by auto
qed

lemma chunkid_string:
  assumes "17 \<le> bufflen" "unat bufflen \<le> length out" "CHR 0x00 \<notin> set source"
    "take 1 source \<noteq> ''=''" "take 1 source \<noteq> ''@''"
  defines "n \<equiv> length (take (unat bufflen - 17) (takeWhile (\<lambda>c. c \<noteq> CHR 0x0A \<and> c \<noteq> CHR 0x0D) source))"
  defines "m \<equiv> (if n < length source then take n source @ ''...'' else source)"
  shows "luaO_chunkid out source bufflen = Inr (holding out (''[string '' @ [CHR 0x22] @ m @ [CHR 0x22] @ '']''))"
proof -
  let ?h = "''[string '' @ [CHR 0x22]" and ?e = "[CHR 0x22] @ '']''"
  let ?tw = "takeWhile (\<lambda>c. c \<noteq> CHR 0x0A \<and> c \<noteq> CHR 0x0D) source"
  have n: "(if unat (bufflen - 17) < length ?tw then unat (bufflen - 17) else length ?tw) = n"
    unfolding n_def bufflen_minus(4)[OF assms(1)] by (simp add: min_def)
  have l: "n + 17 \<le> length out" using bufflen_minus(1)[OF assms(1)] assms(2) by (simp add: n_def)
  have z: "CHR 0x00 \<notin> set m" using assms(3) by (auto simp: m_def dest: in_set_takeD)
  have c: "strcpy out ?h = Inr (holding out ?h)" using l by (intro strcpy_fits) simp
  have middle: "(if n < length source
        then bindR (strncat (holding out ?h) source n) (\<lambda>out. strcat out ''...'')
        else strcat (holding out ?h) source) = Inr (holding out (?h @ m))"
  proof (cases "n < length source")
    case True
    then show ?thesis
      using strncat_fits[of ?h n source out] strcat_fits[of "?h @ take n source" "''...''" out] l assms(3)
      by (auto simp: m_def dest: in_set_takeD)
  next
    case False
    then show ?thesis using strcat_fits[of ?h source out] l by (simp add: m_def)
  qed
  have "length m \<le> n + 3" by (simp add: m_def)
  then have "strcat (holding out (?h @ m)) ?e = Inr (holding out ((?h @ m) @ ?e))"
    using l z by (intro strcat_fits) auto
  then show ?thesis
    unfolding luaO_chunkid_def Let_def n if_not_P[OF assms(4)] if_not_P[OF assms(5)] c bindR_simps middle
    by simp
qed

lemma shown_string:
  assumes "take 1 source \<noteq> ''=''" "take 1 source \<noteq> ''@''"
  defines "tw \<equiv> \<lambda>n. take (n - 17) (takeWhile (\<lambda>c. c \<noteq> CHR 0x0A \<and> c \<noteq> CHR 0x0D) source)"
  shows "shown_name n source = ''[string '' @ [CHR 0x22]
    @ (if length (tw n) < length source then take (length (tw n)) source @ ''...'' else source) @ [CHR 0x22] @ '']''"
proof -
  have line: "tw n = take (length (tw n)) source"
    using length_takeWhile_le[of "\<lambda>c. c \<noteq> CHR 0x0A \<and> c \<noteq> CHR 0x0D" source]
    unfolding tw_def by (subst (1 2) takeWhile_eq_take) (simp add: min_def)
  have "tw n = source \<longleftrightarrow> \<not> length (tw n) < length source"
    by (subst line) (simp only: take_all_iff not_less)
  moreover have "shown_name n source = ''[string '' @ [CHR 0x22]
      @ (if tw n = source then source else tw n @ ''...'') @ [CHR 0x22] @ '']''"
    using assms(1,2) unfolding shown_name_def Let_def tw_def by simp
  ultimately show ?thesis using line by simp
qed

lemma chunkid_shows:
  assumes "17 \<le> bufflen" "unat bufflen \<le> length out" "CHR 0x00 \<notin> set source"
  defines "d \<equiv> shown_name (unat bufflen) source"
  shows "CHR 0x00 \<notin> set d \<and> (\<exists>pad. luaO_chunkid out source bufflen = Inr (d @ CHR 0x00 # pad @ drop (unat bufflen) out)
       \<and> length d + 1 + length pad = unat bufflen)"
proof (cases "take 1 source = ''=''")
  case True
  then have "d = take (unat bufflen - 1) (drop 1 source)" by (simp add: d_def shown_name_def)
  then show ?thesis
    using chunkid_equals[OF assms(1,2) True] bufflen_minus(1)[OF assms(1)] assms(3)
    by (auto dest: in_set_takeD in_set_dropD)
next
  case eq: False
  have "CHR 0x00 \<notin> set d \<and> length d < unat bufflen \<and> luaO_chunkid out source bufflen = Inr (holding out d)"
  proof (cases "take 1 source = ''@''")
    case True
    then have d: "d = (if length (drop 1 source) \<le> unat bufflen - 8 then drop 1 source
        else ''...'' @ drop (length (drop 1 source) - (unat bufflen - 8)) (drop 1 source))"
      by (simp add: d_def shown_name_def Let_def)
    have "length d \<le> unat bufflen - 5" using bufflen_minus(1)[OF assms(1)] unfolding d by simp arith
    then show ?thesis
      using chunkid_file[OF assms(1-3) True] bufflen_minus(1)[OF assms(1)] assms(3)
      unfolding d by (auto dest: in_set_dropD)
  next
    case False
    let ?t = "take (unat bufflen - 17) (takeWhile (\<lambda>c. c \<noteq> CHR 0x0A \<and> c \<noteq> CHR 0x0D) source)"
    have "length ?t \<le> unat bufflen - 17" by simp
    then show ?thesis
      using chunkid_string[OF assms(1-3) eq False] shown_string[OF eq False, of "unat bufflen"]
        bufflen_minus(1)[OF assms(1)] assms(3)
      unfolding d_def by (auto dest: in_set_takeD)
  qed
  then show ?thesis using rest_of_buffer[of d "unat bufflen" out] assms(2) by auto
qed

lemma chunk_name_shows:
  assumes "17 \<le> n" "CHR 0x00 \<notin> set source"
  shows "chunk_name n source = Inr (shown_name (unat n) source)"
proof -
  obtain pad where "luaO_chunkid (replicate (unat n) (CHR 0xCC)) source n
      = Inr (shown_name (unat n) source @ CHR 0x00 # pad @ drop (unat n) (replicate (unat n) (CHR 0xCC)))"
    "CHR 0x00 \<notin> set (shown_name (unat n) source)"
    using chunkid_shows[of n "replicate (unat n) (CHR 0xCC)" source] assms by auto
  then show ?thesis by (simp add: chunk_name_def strlen_terminated)
qed

lemma c_str_no_zero: "CHR 0x00 \<notin> set (c_str s)"
  by (auto simp: c_str_def dest: set_takeWhileD)

text \<open>C31. For a buffer size of at least 17 (the longest decoration), whatever the buffer held:
  no write of \<open>luaO_chunkid\<close> is at or after \<open>bufflen\<close> (what the memory holds from there on is
  unchanged, and no write is outside the memory), and the buffer then holds the name to show with
  its terminating zero.\<close>
theorem chunkid_in_buffer:
  assumes "17 \<le> bufflen" "unat bufflen \<le> length out" "CHR 0x00 \<notin> set source"
  shows "\<exists>pad. luaO_chunkid out source bufflen
      = Inr (shown_name (unat bufflen) source @ CHR 0x00 # pad @ drop (unat bufflen) out)
    \<and> length (shown_name (unat bufflen) source) + 1 + length pad = unat bufflen"
  using chunkid_shows[OF assms] by blast

theorem chunkid_in_buffer_witness:
  "\<exists>pad. luaO_chunkid (replicate 60 CHR ''?'') (CHR ''='' # replicate 500 (CHR ''x'')) 60
    = Inr (replicate 59 (CHR ''x'') @ CHR 0x00 # pad)"
  using chunkid_in_buffer[of 60 "replicate 60 CHR ''?''" "CHR ''='' # replicate 500 (CHR ''x'')"]
  by (auto simp: shown_name_def)

end
