(* ===== verification/Memory.thy ===== *)
theory Memory
  imports Objects
begin

text \<open>
  \<open>lmem.c\<close> and the macros of \<open>lmem.h\<close>. The allocator \<open>frealloc\<close> is the host's (\<open>lua_Alloc\<close>), so
  it is an argument: it gets the block, its old size and the new size, and answers with a block
  (0 for \<open>NULL\<close>) and its own new state. The byte count of the global state is \<open>totalbytes\<close>.
\<close>

definition MAX_SIZET :: nat where "MAX_SIZET = 2 ^ 32 - 1 - 2"

definition MAX_INT :: int where "MAX_INT = 2 ^ 31 - 1 - 2"

text \<open>The size of a tagged value: an 8-byte union and a tag, aligned to 8 bytes.\<close>

definition sizeof_TValue :: nat where "sizeof_TValue = 16"

definition MINSIZEARRAY :: int where "MINSIZEARRAY = 4"

definition toobig_msg :: string where
  "toobig_msg = ''memory allocation error: block too big''"

definition luaM_toobig :: "'a res" where
  "luaM_toobig = Inl (ErrRun toobig_msg)"

text \<open>The size check of \<open>luaM_reallocv\<close> for \<open>n\<close> elements of \<open>e\<close> bytes.\<close>

definition luaM_reallocv_ok :: "int \<Rightarrow> nat \<Rightarrow> bool" where
  "luaM_reallocv_ok n e = (unat (word_of_int (n + 1) :: u32) \<le> MAX_SIZET div e)"

subsection \<open>The generic allocation routine\<close>

type_synonym 'h lua_Alloc = "addr \<Rightarrow> u32 \<Rightarrow> u32 \<Rightarrow> 'h \<Rightarrow> addr \<times> 'h"

record 'h memstate =
  ms_ud :: 'h
  totalbytes :: u32

definition luaM_realloc ::
  "'h lua_Alloc \<Rightarrow> 'h memstate \<Rightarrow> addr \<Rightarrow> u32 \<Rightarrow> u32 \<Rightarrow> addr res \<times> 'h memstate" where
  "luaM_realloc frealloc g block osize nsize =
     (let (block', h) = frealloc block osize nsize (ms_ud g);
          g' = g\<lparr>ms_ud := h\<rparr>
      in if block' = 0 \<and> 0 < nsize then (Inl ErrMem, g')
         else (Inr block', g'\<lparr>totalbytes := (totalbytes g - osize) + nsize\<rparr>))"

definition luaM_reallocv ::
  "'h lua_Alloc \<Rightarrow> 'h memstate \<Rightarrow> addr \<Rightarrow> int \<Rightarrow> int \<Rightarrow> nat \<Rightarrow> addr res \<times> 'h memstate" where
  "luaM_reallocv frealloc g block on n e =
     (if luaM_reallocv_ok n e
      then luaM_realloc frealloc g block (word_of_int on * word_of_nat e)
             (word_of_int n * word_of_nat e)
      else (luaM_toobig, g))"

subsection \<open>Growing an array\<close>

definition growaux_size :: "int \<Rightarrow> int \<Rightarrow> string \<Rightarrow> int res" where
  "growaux_size sz limit errormsg =
     (if limit div 2 \<le> sz
      then if limit \<le> sz then Inl (ErrRun errormsg) else Inr limit
      else Inr (if sz * 2 < MINSIZEARRAY then MINSIZEARRAY else sz * 2))"

definition luaM_growaux ::
  "'h lua_Alloc \<Rightarrow> 'h memstate \<Rightarrow> addr \<Rightarrow> int \<Rightarrow> nat \<Rightarrow> int \<Rightarrow> string
     \<Rightarrow> (addr \<times> int) res \<times> 'h memstate" where
  "luaM_growaux frealloc g block sz size_elems limit errormsg =
     (case growaux_size sz limit errormsg of
        Inl e \<Rightarrow> (Inl e, g)
      | Inr newsize \<Rightarrow>
          (case luaM_reallocv frealloc g block sz newsize size_elems of
             (Inl e, g') \<Rightarrow> (Inl e, g')
           | (Inr newblock, g') \<Rightarrow> (Inr (newblock, newsize), g')))"

subsection \<open>Growth\<close>

lemma growaux_size_Inr:
  assumes "growaux_size sz limit msg = Inr n" "0 \<le> sz" "MINSIZEARRAY \<le> limit"
  shows "sz < n" "n \<le> limit" "n = limit \<or> 2 * sz \<le> n"
  using assms by (auto simp: growaux_size_def MINSIZEARRAY_def split: if_splits)

lemma growaux_size_Inl:
  assumes "0 \<le> sz" "0 \<le> limit"
  shows "growaux_size sz limit msg = Inl e \<longleftrightarrow> limit \<le> sz \<and> e = ErrRun msg"
  using assms by (auto simp: growaux_size_def)

subsection \<open>Accounting\<close>

text \<open>
  The blocks a client holds, with their sizes. A call of the routine replaces the size of the
  block it was given by the new size; \<open>totalbytes\<close> stays the sum of the sizes held.
\<close>

type_synonym blocks = "(addr \<times> u32) list"

definition held_bytes :: "blocks \<Rightarrow> u32" where
  "held_bytes bs = sum_list (map snd bs)"

definition blocks_realloc :: "blocks \<Rightarrow> addr \<Rightarrow> addr \<Rightarrow> u32 \<Rightarrow> u32 \<Rightarrow> blocks" where
  "blocks_realloc bs block block' osize nsize =
     (let rest = (if block = 0 then bs else remove1 (block, osize) bs)
      in if nsize = 0 then rest else (block', nsize) # rest)"

lemma held_bytes_remove1:
  "x \<in> set bs \<Longrightarrow> held_bytes (remove1 x bs) = held_bytes bs - snd x"
  by (induction bs) (auto simp: held_bytes_def)

lemma realloc_accounting:
  assumes r: "luaM_realloc frealloc g block osize nsize = (Inr block', g')"
    and held: "block = 0 \<and> osize = 0 \<or> block \<noteq> 0 \<and> (block, osize) \<in> set bs"
    and tot: "totalbytes g = held_bytes bs"
  shows "totalbytes g' = held_bytes (blocks_realloc bs block block' osize nsize)"
proof -
  have t: "totalbytes g' = totalbytes g - osize + nsize"
    using r by (auto simp: luaM_realloc_def Let_def split: prod.splits if_splits)
  have "held_bytes (if block = 0 then bs else remove1 (block, osize) bs) = held_bytes bs - osize"
    using held held_bytes_remove1[of "(block, osize)" bs] by auto
  then have "held_bytes (blocks_realloc bs block block' osize nsize) = held_bytes bs - osize + nsize"
    by (auto simp: blocks_realloc_def Let_def held_bytes_def)
  then show ?thesis using t tot by simp
qed

lemma realloc_failure_keeps_count:
  "luaM_realloc frealloc g block osize nsize = (Inl e, g') \<Longrightarrow>
     e = ErrMem \<and> totalbytes g' = totalbytes g"
  by (auto simp: luaM_realloc_def Let_def split: prod.splits if_splits)

subsection \<open>Properties\<close>

text \<open>C32. The byte count of the allocator is the sum of the sizes of the blocks held, after
  every allocation, reallocation or free that succeeds; a failure leaves it as it was.\<close>
theorem totalbytes_accounting:
  assumes "luaM_realloc frealloc g block osize nsize = (r, g')"
    and "block = 0 \<and> osize = 0 \<or> block \<noteq> 0 \<and> (block, osize) \<in> set bs"
    and "totalbytes g = held_bytes bs"
  shows "totalbytes g' = (case r of Inl e \<Rightarrow> held_bytes bs
            | Inr block' \<Rightarrow> held_bytes (blocks_realloc bs block block' osize nsize))"
  using assms realloc_accounting[of frealloc g block osize nsize _ g' bs]
    realloc_failure_keeps_count[of frealloc g block osize nsize _ g']
  by (cases r) auto

theorem totalbytes_accounting_witness:
  "totalbytes (snd (luaM_realloc (\<lambda>b os ns u. (16, u)) \<lparr>ms_ud = (), totalbytes = 24\<rparr> 8 24 40)) = 40"
  using totalbytes_accounting[of "\<lambda>b os ns u. (16, u)" "\<lparr>ms_ud = (), totalbytes = 24\<rparr>" 8 24 40
      "Inr 16" "\<lparr>ms_ud = (), totalbytes = 40\<rparr>" "[(8, 24)]"]
  by (simp add: luaM_realloc_def held_bytes_def blocks_realloc_def)

text \<open>A vector that \<open>luaM_growaux_\<close> grows gets strictly larger, never above the limit, and
  doubles unless the limit is reached; the error is raised exactly when it is full.\<close>
theorem growaux_progress:
  assumes "0 \<le> sz" "MINSIZEARRAY \<le> limit"
  shows "case growaux_size sz limit msg of
           Inl e \<Rightarrow> limit \<le> sz \<and> e = ErrRun msg
         | Inr n \<Rightarrow> sz < limit \<and> sz < n \<and> n \<le> limit \<and> (n = limit \<or> 2 * sz \<le> n)"
  using growaux_size_Inr[of sz limit msg] growaux_size_Inl[of sz limit msg] assms
  by (auto simp: MINSIZEARRAY_def not_le[symmetric] split: sum.split)

theorem growaux_progress_witness: "growaux_size 3 10 ''m'' = Inr 6"
  using growaux_progress[of 3 10 "''m''"] by (simp add: growaux_size_def MINSIZEARRAY_def)

subsection \<open>Growing vectors\<close>

text \<open>\<open>luaM_growvector\<close> for a vector of \<open>sz\<close> elements of \<open>e\<close> bytes, of which \<open>nelems\<close> are used: the new
  size. The allocator is taken to grant every request that is not too big.\<close>

definition luaM_growvector :: "int \<Rightarrow> int \<Rightarrow> nat \<Rightarrow> int \<Rightarrow> string \<Rightarrow> int res" where
  "luaM_growvector nelems sz e limit msg =
     (if sz < nelems + 1
      then bindR (growaux_size sz limit msg)
             (\<lambda>newsize. if luaM_reallocv_ok newsize e then Inr newsize else luaM_toobig)
      else Inr sz)"

lemma growvector_room:
  assumes "luaM_growvector n sz e limit msg = Inr sz'" "0 \<le> n" "n \<le> sz" "MINSIZEARRAY \<le> limit"
  shows "n < sz'" "sz \<le> sz'"
  using assms growaux_size_Inr[of sz limit msg]
  by (auto simp: luaM_growvector_def bindR_def luaM_toobig_def split: if_splits sum.splits)

end
