(* ===== verification/StringTable.thy ===== *)
theory StringTable
  imports Memory "HOL-Library.Multiset"
begin

text \<open>
  \<open>lstring.c\<close>: the table of interned strings. A chain of the table is a list from its head; each
  element is the string with its mark bits. \<open>allocs\<close> lists the answers of the host's allocator to
  the requests to come (0 is a refused request); an exhausted list refuses. An operation that
  throws still leaves the state it has reached, so results are paired with the state.
\<close>

subsection \<open>Mark bits (\<open>lgc.h\<close>)\<close>

definition WHITEBITS :: byte where "WHITEBITS = 3"
definition FIXEDBIT :: nat where "FIXEDBIT = 5"

definition GCSpause :: nat where "GCSpause = 0"
definition GCSpropagate :: nat where "GCSpropagate = 1"
definition GCSsweepstring :: nat where "GCSsweepstring = 2"
definition GCSsweep :: nat where "GCSsweep = 3"
definition GCSfinalize :: nat where "GCSfinalize = 4"

record strobj =
  so_ts :: TString
  so_marked :: byte
  so_reserved :: byte

record gstate =
  strt_hash :: "strobj list list"
  strt_nuse :: u32
  gcstate :: nat
  currentwhite :: byte
  allocs :: "addr list"

definition strt_size :: "gstate \<Rightarrow> int" where
  "strt_size g = int (length (strt_hash g))"

definition otherwhite :: "gstate \<Rightarrow> byte" where
  "otherwhite g = currentwhite g XOR WHITEBITS"

definition isdead :: "gstate \<Rightarrow> byte \<Rightarrow> bool" where
  "isdead g marked = (marked AND otherwhite g AND WHITEBITS \<noteq> 0)"

definition changewhite :: "byte \<Rightarrow> byte" where
  "changewhite marked = marked XOR WHITEBITS"

definition luaC_white :: "gstate \<Rightarrow> byte" where
  "luaC_white g = currentwhite g AND WHITEBITS"

definition sizeof_TString :: nat where "sizeof_TString = 16"

subsection \<open>Allocation\<close>

definition str_alloc :: "gstate \<Rightarrow> addr res \<times> gstate" where
  "str_alloc g =
     (case allocs g of
        [] \<Rightarrow> (Inl ErrMem, g)
      | a # as \<Rightarrow> if a = 0 then (Inl ErrMem, g\<lparr>allocs := as\<rparr>) else (Inr a, g\<lparr>allocs := as\<rparr>))"

subsection \<open>Resizing the table\<close>

text \<open>Rehash: each node of each list goes to the front of its new chain.\<close>

definition rehash_node :: "int \<Rightarrow> strobj \<Rightarrow> strobj list list \<Rightarrow> strobj list list" where
  "rehash_node newsize p newhash =
     (let h1 = lmod (ts_hash (so_ts p)) newsize in newhash[h1 := p # newhash ! h1])"

definition luaS_resize :: "int \<Rightarrow> gstate \<Rightarrow> unit res \<times> gstate" where
  "luaS_resize newsize g =
     (if gcstate g = GCSsweepstring then (Inr (), g)
      else if \<not> luaM_reallocv_ok newsize 4 then (luaM_toobig, g)
      else case str_alloc g of
        (Inl e, g') \<Rightarrow> (Inl e, g')
      | (Inr _, g') \<Rightarrow>
          (Inr (), g'\<lparr>strt_hash :=
             fold (rehash_node newsize) (concat (strt_hash g')) (replicate (nat newsize) [])\<rparr>))"

subsection \<open>Creating and finding strings\<close>

definition newlstr :: "string \<Rightarrow> u32 \<Rightarrow> gstate \<Rightarrow> TString res \<times> gstate" where
  "newlstr str h g =
     (if MAX_SIZET - sizeof_TString < length str + 1 then (luaM_toobig, g)
      else case str_alloc g of
        (Inl e, g1) \<Rightarrow> (Inl e, g1)
      | (Inr a, g1) \<Rightarrow>
          (let ts = \<lparr>ts_addr = a, ts_hash = h, ts_str = str\<rparr>;
               ob = \<lparr>so_ts = ts, so_marked = luaC_white g1, so_reserved = 0\<rparr>;
               i = lmod h (strt_size g1);
               g2 = g1\<lparr>strt_hash := (strt_hash g1)[i := ob # strt_hash g1 ! i],
                       strt_nuse := strt_nuse g1 + 1\<rparr>
           in if word_of_int (strt_size g2) < strt_nuse g2 \<and> strt_size g2 \<le> MAX_INT div 2
              then (case luaS_resize (strt_size g2 * 2) g2 of
                      (Inl e, g3) \<Rightarrow> (Inl e, g3)
                    | (Inr _, g3) \<Rightarrow> (Inr ts, g3))
              else (Inr ts, g2)))"

function hash_loop :: "string \<Rightarrow> nat \<Rightarrow> nat \<Rightarrow> u32 \<Rightarrow> u32" where
  "hash_loop str step l1 h =
     (if step \<le> l1 \<and> 0 < step
      then hash_loop str step (l1 - step)
             (h XOR (push_bit 5 h + drop_bit 2 h + of_char (str ! (l1 - 1))))
      else h)"
  by pat_completeness auto
termination by (relation "measure (\<lambda>(str, step, l1, h). l1)") auto

declare hash_loop.simps [simp del]

definition luaS_hash :: "string \<Rightarrow> u32" where
  "luaS_hash str =
     (let l = length str; step = l div 32 + 1 in hash_loop str step l (word_of_nat l))"

definition same_string :: "string \<Rightarrow> strobj \<Rightarrow> bool" where
  "same_string str ob = (ts_len (so_ts ob) = length str \<and> ts_str (so_ts ob) = str)"

text \<open>The first string of a chain with the given characters, a dead one brought back to life.\<close>

fun find_in_chain :: "gstate \<Rightarrow> string \<Rightarrow> strobj list \<Rightarrow> (TString \<times> strobj list) option" where
  "find_in_chain g str [] = None"
| "find_in_chain g str (ob # obs) =
     (if same_string str ob
      then Some (so_ts ob,
        (if isdead g (so_marked ob) then ob\<lparr>so_marked := changewhite (so_marked ob)\<rparr> else ob) # obs)
      else map_option (\<lambda>(ts, obs'). (ts, ob # obs')) (find_in_chain g str obs))"

definition luaS_newlstr :: "string \<Rightarrow> gstate \<Rightarrow> TString res \<times> gstate" where
  "luaS_newlstr str g =
     (let h = luaS_hash str; i = lmod h (strt_size g)
      in case find_in_chain g str (strt_hash g ! i) of
           Some (ts, chain) \<Rightarrow> (Inr ts, g\<lparr>strt_hash := (strt_hash g)[i := chain]\<rparr>)
         | None \<Rightarrow> newlstr str h g)"

subsection \<open>The invariant\<close>

definition strt_objs :: "gstate \<Rightarrow> strobj list" where
  "strt_objs g = concat (strt_hash g)"

definition interned :: "gstate \<Rightarrow> TString set" where
  "interned g = so_ts ` set (strt_objs g)"

definition bucketed :: "strobj list list \<Rightarrow> bool" where
  "bucketed hs = (\<forall>i<length hs. \<forall>ob\<in>set (hs ! i). lmod (ts_hash (so_ts ob)) (int (length hs)) = i)"

definition allocs_fresh :: "gstate \<Rightarrow> bool" where
  "allocs_fresh g = (distinct (filter (\<lambda>a. a \<noteq> 0) (allocs g))
     \<and> set (filter (\<lambda>a. a \<noteq> 0) (allocs g)) \<inter> ts_addr ` interned g = {})"

definition strt_wf :: "gstate \<Rightarrow> bool" where
  "strt_wf g =
     ((\<exists>k\<le>30. length (strt_hash g) = 2 ^ k) \<and> bucketed (strt_hash g)
      \<and> (\<forall>ts\<in>interned g. ts_hash ts = luaS_hash (ts_str ts) \<and> ts_addr ts \<noteq> 0)
      \<and> distinct (map (ts_str \<circ> so_ts) (strt_objs g))
      \<and> distinct (map (ts_addr \<circ> so_ts) (strt_objs g))
      \<and> strt_nuse g = word_of_nat (length (strt_objs g))
      \<and> allocs_fresh g)"

lemma strt_wf_mset:
  assumes "strt_wf g" "mset (strt_objs g') = mset (strt_objs g)" "allocs_fresh g'"
    "strt_nuse g' = strt_nuse g" "bucketed (strt_hash g')" "\<exists>k\<le>30. length (strt_hash g') = 2 ^ k"
  shows "strt_wf g' \<and> interned g' = interned g"
proof -
  have s: "set (strt_objs g') = set (strt_objs g)" using assms(2) by (metis set_mset_mset)
  then have i: "interned g' = interned g" by (simp add: interned_def)
  have "mset (map f (strt_objs g')) = mset (map f (strt_objs g))" for f :: "strobj \<Rightarrow> 'a"
    using assms(2) by simp
  then have d: "distinct (map f (strt_objs g')) = distinct (map f (strt_objs g))"
    for f :: "strobj \<Rightarrow> 'a" using mset_eq_imp_distinct_iff by blast
  have l: "length (strt_objs g') = length (strt_objs g)" using assms(2) by (metis size_mset)
  have "strt_wf g'"
    using assms i l mset_eq_imp_distinct_iff[of "map (ts_str \<circ> so_ts) (strt_objs g')" "map (ts_str \<circ> so_ts) (strt_objs g)"]
      mset_eq_imp_distinct_iff[of "map (ts_addr \<circ> so_ts) (strt_objs g')" "map (ts_addr \<circ> so_ts) (strt_objs g)"]
    by (simp add: strt_wf_def)
  then show ?thesis using i by simp
qed

lemma concat_list_update_mset:
  "i < length hs \<Longrightarrow> mset (concat (hs[i := c])) + mset (hs ! i) = mset (concat hs) + mset c"
proof (induction hs arbitrary: i)
  case (Cons h hs)
  then show ?case by (cases i) (auto simp: ac_simps)
qed simp

lemma bucketedD:
  "bucketed hs \<Longrightarrow> i < length hs \<Longrightarrow> ob \<in> set (hs ! i) \<Longrightarrow>
     lmod (ts_hash (so_ts ob)) (int (length hs)) = i"
  by (simp add: bucketed_def)

lemma bucketed_update:
  assumes "bucketed hs" "\<And>ob. ob \<in> set c \<Longrightarrow> lmod (ts_hash (so_ts ob)) (int (length hs)) = i"
  shows "bucketed (hs[i := c])"
  unfolding bucketed_def
proof (intro allI impI ballI)
  fix j ob
  assume j: "j < length (hs[i := c])" and ob: "ob \<in> set (hs[i := c] ! j)"
  show "lmod (ts_hash (so_ts ob)) (int (length (hs[i := c]))) = j"
    using assms j ob by (cases "j = i") (auto simp: bucketed_def)
qed

subsection \<open>Resizing keeps the strings\<close>

lemma rehash_fold:
  assumes "n = 2 ^ k" "k < 32"
  shows "bucketed hs \<Longrightarrow> length hs = n \<Longrightarrow>
    bucketed (fold (rehash_node (int n)) obs hs) \<and> length (fold (rehash_node (int n)) obs hs) = n
    \<and> mset (concat (fold (rehash_node (int n)) obs hs)) = mset (concat hs) + mset obs"
proof (induction obs arbitrary: hs)
  case (Cons ob obs)
  let ?i = "lmod (ts_hash (so_ts ob)) (int n)"
  let ?hs = "hs[?i := ob # hs ! ?i]"
  have i: "?i < length hs" using lmod_less[OF assms(2)] assms(1) Cons.prems(2) by simp
  have b: "bucketed ?hs"
    using Cons.prems i by (intro bucketed_update) (auto simp: bucketed_def)
  have m: "mset (concat ?hs) = add_mset ob (mset (concat hs))"
    using concat_list_update_mset[OF i, of "ob # hs ! ?i"] by simp
  have "rehash_node (int n) ob hs = ?hs" by (simp add: rehash_node_def Let_def)
  then show ?case using Cons.IH[OF b] Cons.prems(2) m by simp
qed simp

lemma bucketed_empty: "bucketed (replicate n [])"
  by (simp add: bucketed_def)

lemma concat_replicate_Nil: "concat (replicate n []) = []"
  by (induction n) auto

lemma str_alloc_frame:
  assumes "str_alloc g = (r, g')"
  shows "strt_hash g' = strt_hash g" "strt_nuse g' = strt_nuse g"
    "gcstate g' = gcstate g" "currentwhite g' = currentwhite g" "interned g' = interned g"
  using assms by (cases "allocs g"; simp add: str_alloc_def interned_def strt_objs_def split: if_splits; fastforce)+

lemma str_alloc_fresh:
  assumes "allocs_fresh g" "str_alloc g = (r, g')"
  shows "allocs_fresh g'"
    "r = Inr a \<Longrightarrow> a \<noteq> 0 \<and> a \<notin> ts_addr ` interned g \<and> a \<notin> set (allocs g')"
proof -
  have i: "interned g' = interned g" using assms(2) by (rule str_alloc_frame)
  have "allocs_fresh g' \<and> (r = Inr a \<longrightarrow> a \<noteq> 0 \<and> a \<notin> ts_addr ` interned g \<and> a \<notin> set (allocs g'))"
  proof (cases "allocs g")
    case Nil
    then show ?thesis using assms by (auto simp: str_alloc_def)
  next
    case (Cons b bs)
    have g': "allocs g' = bs" "r = (if b = 0 then Inl ErrMem else Inr b)"
      using assms(2) Cons by (auto simp: str_alloc_def split: if_splits)
    show ?thesis
      using assms(1) Cons unfolding allocs_fresh_def i g' by (cases "b = 0") auto
  qed
  then show "allocs_fresh g'"
    "r = Inr a \<Longrightarrow> a \<noteq> 0 \<and> a \<notin> ts_addr ` interned g \<and> a \<notin> set (allocs g')" by auto
qed

lemma luaS_resize_wf:
  assumes wf: "strt_wf g" and k: "n = 2 ^ k" "k \<le> 30" and r: "luaS_resize n g = (r, g')"
  shows "strt_wf g' \<and> interned g' = interned g"
proof -
  have fresh: "allocs_fresh g" using wf by (simp add: strt_wf_def)
  show ?thesis
  proof (cases "gcstate g = GCSsweepstring \<or> \<not> luaM_reallocv_ok n 4")
    case True
    then have "g' = g" using r by (auto simp: luaS_resize_def split: if_splits)
    then show ?thesis using wf by simp
  next
    case False
    obtain a g1 where a: "str_alloc g = (a, g1)" by fastforce
    note g1 = str_alloc_frame[OF a] str_alloc_fresh[OF fresh a]
    show ?thesis
    proof (cases a)
      case (Inl e)
      then have "g' = g1" using r False a by (simp add: luaS_resize_def)
      then show ?thesis using wf g1 by (intro strt_wf_mset) (auto simp: strt_objs_def strt_wf_def)
    next
      case (Inr b)
      let ?m = "(2::nat) ^ k"
      let ?hs = "fold (rehash_node (int ?m)) (concat (strt_hash g1)) (replicate ?m [])"
      have g': "g' = g1\<lparr>strt_hash := ?hs\<rparr>"
        using r False a Inr k by (simp add: luaS_resize_def nat_power_eq)
      have f: "bucketed ?hs" "length ?hs = ?m" "mset (concat ?hs) = mset (strt_objs g)"
        using rehash_fold[of ?m k "replicate ?m []" "concat (strt_hash g1)"] k bucketed_empty
        by (simp_all add: concat_replicate_Nil g1 strt_objs_def)
      have s: "set (concat ?hs) = set (strt_objs g)" using f(3) by (metis set_mset_mset)
      have "allocs_fresh g'"
        using g1(1,6) s by (simp add: g' allocs_fresh_def interned_def strt_objs_def)
      then show ?thesis
        using wf f k(2) g1(2) by (intro strt_wf_mset) (auto simp: g' strt_objs_def)
    qed
  qed
qed

subsection \<open>Finding a string\<close>

lemma find_in_chain_None:
  "find_in_chain g str c = None \<longleftrightarrow> (\<forall>ob\<in>set c. ts_str (so_ts ob) \<noteq> str)"
  by (induction c) (auto simp: same_string_def ts_len_def)

lemma find_in_chain_Some:
  "find_in_chain g str c = Some (ts, c') \<Longrightarrow>
     ts_str ts = str \<and> ts \<in> so_ts ` set c \<and> map so_ts c' = map so_ts c"
proof (induction c arbitrary: c')
  case (Cons ob c)
  show ?case
  proof (cases "same_string str ob")
    case True
    then show ?thesis using Cons.prems by (auto simp: same_string_def)
  next
    case False
    then show ?thesis using Cons by fastforce
  qed
qed simp

lemma interned_bucket:
  assumes "strt_wf g"
  shows "ts \<in> interned g \<longleftrightarrow>
     ts \<in> so_ts ` set (strt_hash g ! lmod (ts_hash ts) (strt_size g))"
    and "lmod h (strt_size g) < length (strt_hash g)"
proof -
  obtain k where k: "k \<le> 30" "length (strt_hash g) = 2 ^ k" using assms by (auto simp: strt_wf_def)
  then show lt: "lmod h (strt_size g) < length (strt_hash g)" for h
    using lmod_less[of k h] by (simp add: strt_size_def)
  show "ts \<in> interned g \<longleftrightarrow> ts \<in> so_ts ` set (strt_hash g ! lmod (ts_hash ts) (strt_size g))"
  proof
    assume "ts \<in> interned g"
    then obtain i ob where "i < length (strt_hash g)" "ob \<in> set (strt_hash g ! i)" "ts = so_ts ob"
      by (auto simp: interned_def strt_objs_def in_set_conv_nth[where xs = "strt_hash g"])
    moreover then have "lmod (ts_hash ts) (strt_size g) = i"
      using assms by (auto simp: strt_wf_def bucketed_def strt_size_def)
    ultimately show "ts \<in> so_ts ` set (strt_hash g ! lmod (ts_hash ts) (strt_size g))" by auto
  next
    assume "ts \<in> so_ts ` set (strt_hash g ! lmod (ts_hash ts) (strt_size g))"
    then show "ts \<in> interned g"
      using nth_mem[OF lt[of "ts_hash ts"]] by (auto simp: interned_def strt_objs_def)
  qed
qed

lemma interned_inject:
  assumes "strt_wf g" "a \<in> interned g" "b \<in> interned g"
  shows "ts_str a = ts_str b \<longleftrightarrow> a = b" "ts_addr a = ts_addr b \<longleftrightarrow> a = b"
proof -
  have i: "inj_on (ts_str \<circ> so_ts) (set (strt_objs g))" "inj_on (ts_addr \<circ> so_ts) (set (strt_objs g))"
    using assms(1) by (auto simp: strt_wf_def distinct_map)
  obtain x y where "x \<in> set (strt_objs g)" "a = so_ts x" "y \<in> set (strt_objs g)" "b = so_ts y"
    using assms(2,3) by (auto simp: interned_def)
  then show "ts_str a = ts_str b \<longleftrightarrow> a = b" "ts_addr a = ts_addr b \<longleftrightarrow> a = b"
    using inj_onD[OF i(1)] inj_onD[OF i(2)] by (metis comp_apply)+
qed

lemma bucketed_map_so_ts:
  assumes "bucketed hs" "i < length hs" "map so_ts c = map so_ts (hs ! i)"
  shows "bucketed (hs[i := c])"
proof (rule bucketed_update[OF assms(1)])
  fix ob assume "ob \<in> set c"
  then have "so_ts ob \<in> so_ts ` set (hs ! i)" using assms(3) by (metis image_eqI image_set)
  then show "lmod (ts_hash (so_ts ob)) (int (length hs)) = i"
    using bucketedD[OF assms(1,2)] by auto
qed

lemma concat_map_so_ts:
  "i < length hs \<Longrightarrow> map so_ts c = map so_ts (hs ! i) \<Longrightarrow>
     map so_ts (concat (hs[i := c])) = map so_ts (concat hs)"
proof (induction hs arbitrary: i)
  case (Cons h hs)
  then show ?case by (cases i) auto
qed simp

lemma strt_wf_same_strings:
  assumes wf: "strt_wf g" and i: "i < length (strt_hash g)"
    and c: "map so_ts c = map so_ts (strt_hash g ! i)"
  shows "strt_wf (g\<lparr>strt_hash := (strt_hash g)[i := c]\<rparr>)"
    and "interned (g\<lparr>strt_hash := (strt_hash g)[i := c]\<rparr>) = interned g"
proof -
  let ?g = "g\<lparr>strt_hash := (strt_hash g)[i := c]\<rparr>"
  have m: "map so_ts (strt_objs ?g) = map so_ts (strt_objs g)"
    using concat_map_so_ts[OF i c] by (simp add: strt_objs_def)
  then have l: "length (strt_objs ?g) = length (strt_objs g)" by (metis length_map)
  have mm: "map (f \<circ> so_ts) (strt_objs ?g) = map (f \<circ> so_ts) (strt_objs g)" for f :: "TString \<Rightarrow> 'b"
    using m by (metis map_map)
  show i': "interned ?g = interned g" using m unfolding interned_def by (metis image_set)
  have "bucketed (strt_hash ?g)"
    using wf bucketed_map_so_ts[OF _ i c] by (simp add: strt_wf_def)
  then show "strt_wf ?g"
    using wf mm[of ts_str] mm[of ts_addr] l i'
    by (simp add: strt_wf_def allocs_fresh_def)
qed

subsection \<open>Creating a string\<close>

lemma newlstr_insert_wf:
  assumes wf: "strt_wf g" and new: "\<forall>ts\<in>interned g. ts_str ts \<noteq> str"
    and a: "str_alloc g = (Inr a, g1)" and h: "h = luaS_hash str"
    and ob: "so_ts ob = \<lparr>ts_addr = a, ts_hash = h, ts_str = str\<rparr>"
    and g2: "g2 = g1\<lparr>strt_hash := (strt_hash g1)[i := ob # strt_hash g1 ! i],
                     strt_nuse := strt_nuse g1 + 1\<rparr>"
    and i: "i = lmod h (strt_size g1)"
  shows "strt_wf g2 \<and> interned g2 = insert (so_ts ob) (interned g)
     \<and> length (strt_hash g2) = length (strt_hash g)"
proof -
  have fr: "allocs_fresh g" using wf by (simp add: strt_wf_def)
  note g1 = str_alloc_frame[OF a] str_alloc_fresh[OF fr a]
  have wf1: "strt_wf g1" using wf g1 by (simp add: strt_wf_def strt_objs_def)
  have lt: "i < length (strt_hash g1)" using interned_bucket(2)[OF wf1] i by simp
  have m: "mset (strt_objs g2) = add_mset ob (mset (strt_objs g))"
    using concat_list_update_mset[OF lt, of "ob # strt_hash g1 ! i"] g1(1)
    by (simp add: g2 strt_objs_def)
  then have s: "set (strt_objs g2) = insert ob (set (strt_objs g))" by (metis set_mset_mset set_mset_add_mset_insert)
  have int2: "interned g2 = insert (so_ts ob) (interned g)" using s by (simp add: interned_def)
  have len: "length (strt_objs g2) = Suc (length (strt_objs g))"
    using m by (metis size_add_mset size_mset)
  have dm: "distinct (map f (strt_objs g2)) \<longleftrightarrow> distinct (map f (ob # strt_objs g))"
    for f :: "strobj \<Rightarrow> 'b"
    by (rule mset_eq_imp_distinct_iff) (simp add: m)
  have "distinct (map (ts_str \<circ> so_ts) (strt_objs g2))"
    using wf new ob by (auto simp: dm strt_wf_def interned_def)
  moreover have "distinct (map (ts_addr \<circ> so_ts) (strt_objs g2))"
    using wf g1(7)[of a] ob by (auto simp: dm strt_wf_def interned_def)
  moreover have "bucketed (strt_hash g2)"
  proof -
    have b: "bucketed (strt_hash g1)" using wf1 by (simp add: strt_wf_def)
    have "lmod (ts_hash (so_ts o')) (int (length (strt_hash g1))) = i"
      if "o' \<in> set (ob # strt_hash g1 ! i)" for o'
      using that bucketedD[OF b lt] ob i by (auto simp: strt_size_def)
    then show ?thesis
      unfolding g2 using bucketed_update[OF b, of "ob # strt_hash g1 ! i" i] by simp
  qed
  moreover have "allocs_fresh g2"
    using g1(6) g1(7)[of a] ob int2 g1(5) by (auto simp: allocs_fresh_def g2)
  moreover have "strt_nuse g2 = word_of_nat (length (strt_objs g2))"
    using wf g1(2) len by (simp add: strt_wf_def g2)
  moreover have "\<forall>ts\<in>interned g2. ts_hash ts = luaS_hash (ts_str ts) \<and> ts_addr ts \<noteq> 0"
    using wf g1(7)[of a] ob h by (auto simp: int2 strt_wf_def)
  moreover have "length (strt_hash g2) = length (strt_hash g)" using g1(1) by (simp add: g2)
  ultimately show ?thesis using wf int2 by (simp add: strt_wf_def)
qed

lemma newlstr_wf:
  assumes wf: "strt_wf g" and new: "\<forall>ts\<in>interned g. ts_str ts \<noteq> str"
    and r: "newlstr str (luaS_hash str) g = (r, g')"
  shows "strt_wf g' \<and> interned g \<subseteq> interned g'
     \<and> (\<forall>ts\<in>interned g'. ts \<in> interned g \<or> ts_str ts = str)
     \<and> (\<forall>ts. r = Inr ts \<longrightarrow> ts_str ts = str \<and> ts \<in> interned g')"
proof (cases "MAX_SIZET - sizeof_TString < length str + 1")
  case True
  then show ?thesis using r wf by (auto simp: newlstr_def luaM_toobig_def)
next
  case fits: False
  obtain a g1 where a: "str_alloc g = (a, g1)" by fastforce
  show ?thesis
  proof (cases a)
    case (Inl e)
    have fr: "allocs_fresh g" using wf by (simp add: strt_wf_def)
    have "r = Inl e" "g' = g1" using r fits a Inl by (auto simp: newlstr_def)
    then show ?thesis
      using wf str_alloc_frame[OF a] str_alloc_fresh(1)[OF fr a] by (auto simp: strt_wf_def strt_objs_def)
  next
    case (Inr b)
    define ts where "ts = \<lparr>ts_addr = b, ts_hash = luaS_hash str, ts_str = str\<rparr>"
    define ob where "ob = \<lparr>so_ts = ts, so_marked = luaC_white g1, so_reserved = 0\<rparr>"
    define i where "i = lmod (luaS_hash str) (strt_size g1)"
    define g2 where "g2 = g1\<lparr>strt_hash := (strt_hash g1)[i := ob # strt_hash g1 ! i],
                             strt_nuse := strt_nuse g1 + 1\<rparr>"
    have g2: "strt_wf g2 \<and> interned g2 = insert ts (interned g) \<and> length (strt_hash g2) = length (strt_hash g)"
      using newlstr_insert_wf[OF wf new _ _ _ g2_def i_def, of b] a Inr by (simp add: ob_def ts_def)
    have res: "(r, g') = (if word_of_int (strt_size g2) < strt_nuse g2 \<and> strt_size g2 \<le> MAX_INT div 2
              then (case luaS_resize (strt_size g2 * 2) g2 of
                      (Inl e, g3) \<Rightarrow> (Inl e, g3)
                    | (Inr _, g3) \<Rightarrow> (Inr ts, g3))
              else (Inr ts, g2))"
      unfolding r[symmetric]
      by (simp only: newlstr_def fits if_False a Inr prod.case sum.case Let_def ts_def ob_def i_def g2_def)
    show ?thesis
    proof (cases "word_of_int (strt_size g2) < strt_nuse g2 \<and> strt_size g2 \<le> MAX_INT div 2")
      case False
      then have "r = Inr ts" "g' = g2" using res by auto
      then show ?thesis using g2 by (auto simp: ts_def)
    next
      case True
      obtain u g3 where u: "luaS_resize (strt_size g2 * 2) g2 = (u, g3)" by fastforce
      obtain k where k: "k \<le> 30" "length (strt_hash g2) = 2 ^ k" using g2 by (auto simp: strt_wf_def)
      have "(2::int) ^ k < 2 ^ 30" using True k(2) by (simp add: strt_size_def MAX_INT_def)
      then have "k < 30" by (rule power_less_imp_less_exp[rotated]) simp
      then have "strt_wf g3 \<and> interned g3 = interned g2"
        using luaS_resize_wf[of g2 "strt_size g2 * 2" "Suc k" u g3] g2 u k(2)
        by (simp add: strt_size_def)
      moreover have "g' = g3" "r = Inr ts \<or> (\<exists>e. r = Inl e)"
        using res True u by (auto split: sum.splits)
      ultimately show ?thesis using g2 by (auto simp: ts_def)
    qed
  qed
qed

lemma luaS_newlstr_wf:
  assumes wf: "strt_wf g" and r: "luaS_newlstr str g = (r, g')"
  shows "strt_wf g'" "interned g \<subseteq> interned g'"
    "ts \<in> interned g' \<Longrightarrow> ts \<in> interned g \<or> ts_str ts = str"
    "r = Inr t \<Longrightarrow> ts_str t = str \<and> t \<in> interned g'"
    "t \<in> interned g \<Longrightarrow> ts_str t = str \<Longrightarrow> r = Inr t \<and> interned g' = interned g"
proof -
  let ?i = "lmod (luaS_hash str) (strt_size g)"
  have lt: "?i < length (strt_hash g)" by (rule interned_bucket(2)[OF wf])
  have same: "ts \<in> interned g \<Longrightarrow> ts_str ts = str \<Longrightarrow> ts \<in> so_ts ` set (strt_hash g ! ?i)" for ts
    using interned_bucket(1)[OF wf, of ts] wf by (auto simp: strt_wf_def)
  have "strt_wf g' \<and> interned g \<subseteq> interned g'
    \<and> (\<forall>ts\<in>interned g'. ts \<in> interned g \<or> ts_str ts = str)
    \<and> (\<forall>t. r = Inr t \<longrightarrow> ts_str t = str \<and> t \<in> interned g')
    \<and> (\<forall>t\<in>interned g. ts_str t = str \<longrightarrow> r = Inr t \<and> interned g' = interned g)"
  proof (cases "find_in_chain g str (strt_hash g ! ?i)")
    case None
    then have new: "\<forall>ts\<in>interned g. ts_str ts \<noteq> str"
      using same by (auto simp: find_in_chain_None)
    have "newlstr str (luaS_hash str) g = (r, g')" using r None by (simp add: luaS_newlstr_def)
    from newlstr_wf[OF wf new this] new show ?thesis by blast
  next
    case (Some p)
    then obtain t c where p: "find_in_chain g str (strt_hash g ! ?i) = Some (t, c)" by (cases p) auto
    note f = find_in_chain_Some[OF p]
    have res: "r = Inr t" "g' = g\<lparr>strt_hash := (strt_hash g)[?i := c]\<rparr>"
      using r p by (auto simp: luaS_newlstr_def)
    have t: "t \<in> interned g"
      using f nth_mem[OF lt] by (auto simp: interned_def strt_objs_def)
    have w: "strt_wf g'" "interned g' = interned g"
      using strt_wf_same_strings[OF wf lt, of c] f by (simp_all add: res)
    have "\<forall>t'\<in>interned g. ts_str t' = str \<longrightarrow> t' = t"
      using interned_inject(1)[OF wf] t f by metis
    then show ?thesis using w t f res(1) by blast
  qed
  then show "strt_wf g'" "interned g \<subseteq> interned g'"
    "ts \<in> interned g' \<Longrightarrow> ts \<in> interned g \<or> ts_str ts = str"
    "r = Inr t \<Longrightarrow> ts_str t = str \<and> t \<in> interned g'"
    "t \<in> interned g \<Longrightarrow> ts_str t = str \<Longrightarrow> r = Inr t \<and> interned g' = interned g"
    by blast+
qed

subsection \<open>The interface of the string table\<close>

text \<open>
  What the rest of the interpreter relies on: a state with an invariant, the set of live strings,
  and an operation that returns the one string object of given characters. Clients get pointer
  equality for character equality, over any number of calls.
\<close>

locale interner =
  fixes intern :: "string \<Rightarrow> 's \<Rightarrow> TString res \<times> 's"
    and inv :: "'s \<Rightarrow> bool"
    and strings :: "'s \<Rightarrow> TString set"
  assumes intern_inv: "inv s \<Longrightarrow> intern str s = (r, s') \<Longrightarrow> inv s'"
    and intern_mono: "inv s \<Longrightarrow> intern str s = (r, s') \<Longrightarrow> strings s \<subseteq> strings s'"
    and intern_res: "inv s \<Longrightarrow> intern str s = (Inr t, s') \<Longrightarrow> ts_str t = str \<and> t \<in> strings s'"
    and intern_hit: "inv s \<Longrightarrow> t \<in> strings s \<Longrightarrow> fst (intern (ts_str t) s) = Inr t"
    and strings_unique: "inv s \<Longrightarrow> a \<in> strings s \<Longrightarrow> b \<in> strings s \<Longrightarrow>
      ts_addr a = ts_addr b \<longleftrightarrow> ts_str a = ts_str b"
    and strings_nonnull: "inv s \<Longrightarrow> a \<in> strings s \<Longrightarrow> ts_addr a \<noteq> 0"
begin

lemma intern_twice:
  assumes "inv s" "intern str s = (Inr t, s1)"
  shows "fst (intern str s1) = Inr t"
  using assms intern_inv intern_res intern_hit by metis

fun intern_list :: "string list \<Rightarrow> 's \<Rightarrow> TString list res \<times> 's" where
  "intern_list [] s = (Inr [], s)"
| "intern_list (x # xs) s =
     (case intern x s of
        (Inl e, s1) \<Rightarrow> (Inl e, s1)
      | (Inr t, s1) \<Rightarrow>
          (case intern_list xs s1 of
             (Inl e, s2) \<Rightarrow> (Inl e, s2)
           | (Inr ts, s2) \<Rightarrow> (Inr (t # ts), s2)))"

lemma intern_list_spec:
  "inv s \<Longrightarrow> intern_list xs s = (r, s') \<Longrightarrow>
     inv s' \<and> strings s \<subseteq> strings s' \<and> (\<forall>ts. r = Inr ts \<longrightarrow> map ts_str ts = xs \<and> set ts \<subseteq> strings s')"
proof (induction xs arbitrary: s r s')
  case (Cons x xs)
  obtain r1 s1 where i: "intern x s = (r1, s1)" by fastforce
  note l = intern_inv[OF Cons.prems(1) i] intern_mono[OF Cons.prems(1) i]
  show ?case
  proof (cases r1)
    case (Inl e)
    then show ?thesis using Cons.prems i l by auto
  next
    case (Inr t)
    obtain r2 s2 where i2: "intern_list xs s1 = (r2, s2)" by fastforce
    have t: "ts_str t = x" "t \<in> strings s1" using intern_res[OF Cons.prems(1)] i Inr by auto
    have r: "r = (case r2 of Inl e \<Rightarrow> Inl e | Inr ts \<Rightarrow> Inr (t # ts))" "s' = s2"
      using Cons.prems(2) i i2 Inr by (cases r2; auto)+
    have ih: "inv s2" "strings s1 \<subseteq> strings s2"
      "\<And>ts. r2 = Inr ts \<Longrightarrow> map ts_str ts = xs \<and> set ts \<subseteq> strings s2"
      using Cons.IH[OF l(1) i2] by blast+
    have "map ts_str ts = x # xs \<and> set ts \<subseteq> strings s2" if "r = Inr ts" for ts
      using that r ih t by (cases r2) auto
    then show ?thesis using r ih l by blast
  qed
qed auto

lemma intern_list_pointers:
  assumes "inv s" "intern_list xs s = (Inr ts, s')" "i < length xs" "j < length xs"
  shows "ts_addr (ts ! i) = ts_addr (ts ! j) \<longleftrightarrow> xs ! i = xs ! j"
proof -
  have sp: "inv s'" "map ts_str ts = xs" "set ts \<subseteq> strings s'"
    using intern_list_spec[OF assms(1,2)] by blast+
  have l: "length ts = length xs" using arg_cong[OF sp(2), of length] by simp
  have m: "ts ! i \<in> strings s'" "ts ! j \<in> strings s'"
    using sp(3) nth_mem[of i ts] nth_mem[of j ts] assms(3,4) l by auto
  have e: "ts_str (ts ! i) = xs ! i" "ts_str (ts ! j) = xs ! j"
    using nth_map[of i ts ts_str] nth_map[of j ts ts_str] assms(3,4) l by (simp_all add: sp(2))
  show ?thesis using strings_unique[OF sp(1) m] unfolding e .
qed

end

interpretation strt: interner luaS_newlstr strt_wf interned
proof unfold_locales
  fix s :: gstate and str r s' and t a b :: TString
  assume s: "strt_wf s"
  show "luaS_newlstr str s = (r, s') \<Longrightarrow> strt_wf s'"
    "luaS_newlstr str s = (r, s') \<Longrightarrow> interned s \<subseteq> interned s'"
    "luaS_newlstr str s = (Inr t, s') \<Longrightarrow> ts_str t = str \<and> t \<in> interned s'"
    using luaS_newlstr_wf[OF s] by blast+
  show "t \<in> interned s \<Longrightarrow> fst (luaS_newlstr (ts_str t) s) = Inr t"
    using luaS_newlstr_wf(5)[OF s] by (metis fst_conv surj_pair)
  show "a \<in> interned s \<Longrightarrow> b \<in> interned s \<Longrightarrow> (ts_addr a = ts_addr b) = (ts_str a = ts_str b)"
    using interned_inject[OF s] by metis
  show "a \<in> interned s \<Longrightarrow> ts_addr a \<noteq> 0" using s by (simp add: strt_wf_def)
qed

subsection \<open>Properties\<close>

text \<open>C11. Interning: the strings two successive calls return are the same object exactly when the
  two calls were given the same characters; the table stays well formed and no string is lost.\<close>
theorem interned_pointers:
  assumes "strt_wf g" "luaS_newlstr s g = (Inr t, g1)" "luaS_newlstr s' g1 = (Inr t', g2)"
  shows "(ts_addr t = ts_addr t' \<longleftrightarrow> s = s') \<and> ts_str t = s \<and> ts_str t' = s'
    \<and> strt_wf g2 \<and> interned g \<subseteq> interned g2 \<and> t \<in> interned g2"
proof -
  note w = strt.intern_inv[OF assms(1,2)]
  note r = strt.intern_res[OF assms(1,2)] strt.intern_res[OF w assms(3)]
  note m = strt.intern_mono[OF assms(1,2)] strt.intern_mono[OF w assms(3)]
  have g2: "strt_wf g2" by (rule strt.intern_inv[OF w assms(3)])
  have mem: "t \<in> interned g2" "t' \<in> interned g2" "interned g \<subseteq> interned g2" using r m by blast+
  then show ?thesis using strt.strings_unique[OF g2 mem(1,2)] r g2 by metis
qed

definition example_strt :: gstate where
  "example_strt = \<lparr>strt_hash = [[]], strt_nuse = 0, gcstate = GCSpause, currentwhite = 1,
     allocs = [100, 200, 300]\<rparr>"

lemma example_strt_wf: "strt_wf example_strt"
  by (auto simp: strt_wf_def example_strt_def strt_objs_def interned_def bucketed_def
      allocs_fresh_def nth_Cons' intro: exI[of _ 0])



lemma example_hash_ab: "luaS_hash ''ab'' = 5161"
  by (simp add: luaS_hash_def hash_loop.simps of_char_def drop_bit_eq_div push_bit_eq_mult)

lemma example_hash_b: "luaS_hash ''b'' = 131"
  by (simp add: luaS_hash_def hash_loop.simps of_char_def drop_bit_eq_div push_bit_eq_mult)

lemmas newlstr_run = luaS_newlstr_def newlstr_def strt_size_def lmod_def str_alloc_def
  same_string_def ts_len_def luaM_reallocv_ok_def MAX_SIZET_def sizeof_TString_def MAX_INT_def
  luaC_white_def WHITEBITS_def luaS_resize_def rehash_node_def Let_def GCSpause_def
  GCSsweepstring_def example_hash_ab example_hash_b

lemma replicate_2: "replicate 2 x = [x, x]"
  by (simp add: numeral_2_eq_2)

lemma example_first:
  "luaS_newlstr ''ab'' example_strt =
     (Inr \<lparr>ts_addr = 100, ts_hash = 5161, ts_str = ''ab''\<rparr>,
      \<lparr>strt_hash = [[\<lparr>so_ts = \<lparr>ts_addr = 100, ts_hash = 5161, ts_str = ''ab''\<rparr>,
                      so_marked = 1, so_reserved = 0\<rparr>]],
       strt_nuse = 1, gcstate = GCSpause, currentwhite = 1, allocs = [200, 300]\<rparr>)"
  by (simp add: newlstr_run example_strt_def)

text \<open>The second string makes the table grow.\<close>

lemma example_second:
  "luaS_newlstr ''b'' (snd (luaS_newlstr ''ab'' example_strt)) =
     (Inr \<lparr>ts_addr = 200, ts_hash = 131, ts_str = ''b''\<rparr>,
      \<lparr>strt_hash = [[], [\<lparr>so_ts = \<lparr>ts_addr = 100, ts_hash = 5161, ts_str = ''ab''\<rparr>,
                          so_marked = 1, so_reserved = 0\<rparr>,
                        \<lparr>so_ts = \<lparr>ts_addr = 200, ts_hash = 131, ts_str = ''b''\<rparr>,
                          so_marked = 1, so_reserved = 0\<rparr>]],
       strt_nuse = 2, gcstate = GCSpause, currentwhite = 1, allocs = []\<rparr>)"
  unfolding example_first snd_conv by (simp add: newlstr_run replicate_2)

theorem interned_pointers_witness:
  "ts_addr (projr (fst (luaS_newlstr ''ab'' example_strt)))
     \<noteq> ts_addr (projr (fst (luaS_newlstr ''b'' (snd (luaS_newlstr ''ab'' example_strt)))))
   \<and> strt_wf (snd (luaS_newlstr ''b'' (snd (luaS_newlstr ''ab'' example_strt))))"
  using interned_pointers[OF example_strt_wf example_first example_second[unfolded example_first snd_conv]]
    example_second[unfolded example_first snd_conv]
  by (simp add: example_first)

text \<open>C12. Resizing the string table to a power of two keeps it well formed and keeps exactly the
  strings it held, whether the resize is done, skipped during a sweep or refused.\<close>
theorem resize_keeps_strings:
  assumes "strt_wf g" "k \<le> 30" "luaS_resize (2 ^ k) g = (r, g')"
  shows "strt_wf g' \<and> interned g' = interned g"
  using luaS_resize_wf[OF assms(1) refl assms(2,3)] .

theorem resize_keeps_strings_witness:
  "interned (snd (luaS_resize (2 ^ 3) example_strt)) = interned example_strt"
  using resize_keeps_strings[OF example_strt_wf, of 3 "fst (luaS_resize (2 ^ 3) example_strt)"
      "snd (luaS_resize (2 ^ 3) example_strt)"] by simp

end
