(* ===== verification/Tables.thy ===== *)
theory Tables
  imports StringTable
begin

text \<open>
  \<open>ltable.c\<close>: Lua tables with an array part and a hash part, a chained scatter table with Brent's
  variation. A node pointer is an index into the node vector; \<open>None\<close> as the vector is the shared
  \<open>dummynode\<close>. A \<open>TValue *\<close> into the table is a \<open>slot\<close>. A walk along a chain has as much fuel as
  there are nodes: a walk that uses it up has come back to a node it has seen, so the loop of the
  code would not end. The allocator is taken to grant every request here.
\<close>

definition MAXBITS :: nat where "MAXBITS = 26"
definition MAXASIZE :: int where "MAXASIZE = 2 ^ MAXBITS"


subsection \<open>Tables, nodes and slots\<close>

record Node =
  i_val :: TValue
  i_key :: TValue
  n_next :: "nat option"

record Table =
  flags :: byte
  lsizenode :: nat
  metatable :: addr
  array :: "TValue list"
  node :: "Node list option"
  lastfree :: int
  sizearray :: nat

definition dummynode :: Node where
  "dummynode = \<lparr>i_val = LNil, i_key = LNil, n_next = None\<rparr>"

definition nodes :: "Table \<Rightarrow> Node list" where
  "nodes t = (case node t of None \<Rightarrow> [dummynode] | Some ns \<Rightarrow> ns)"

definition sizenode :: "Table \<Rightarrow> int" where
  "sizenode t = 2 ^ lsizenode t"

datatype slot = SNilObject | SArray nat | SNode nat

fun slot_val :: "Table \<Rightarrow> slot \<Rightarrow> TValue" where
  "slot_val t SNilObject = LNil"
| "slot_val t (SArray i) = array t ! i"
| "slot_val t (SNode i) = i_val (nodes t ! i)"

text \<open>\<open>setobj2t\<close> and \<open>setobjt2t\<close> through a pointer that an operation returned.\<close>

fun set_slot :: "Table \<Rightarrow> slot \<Rightarrow> TValue \<Rightarrow> Table" where
  "set_slot t SNilObject v = t"
| "set_slot t (SArray i) v = t\<lparr>array := (array t)[i := v]\<rparr>"
| "set_slot t (SNode i) v =
     t\<lparr>node := map_option (\<lambda>ns. ns[i := (ns ! i)\<lparr>i_val := v\<rparr>]) (node t)\<rparr>"

subsection \<open>Main positions\<close>

definition hashpow2 :: "Table \<Rightarrow> u32 \<Rightarrow> nat" where
  "hashpow2 t n = lmod n (sizenode t)"

definition hashmod :: "Table \<Rightarrow> u32 \<Rightarrow> nat" where
  "hashmod t n = unat n mod nat ((sizenode t - 1) OR 1)"

definition hashnum :: "Table \<Rightarrow> lua_Number \<Rightarrow> nat" where
  "hashnum t n =
     (if luai_numeq n (cast_num 0) then 0
      else hashmod t (ucast n + ucast (drop_bit 32 n)))"

definition mainposition :: "Table \<Rightarrow> TValue \<Rightarrow> nat" where
  "mainposition t key =
     (case key of
        LNumber n \<Rightarrow> hashnum t n
      | LString s \<Rightarrow> hashpow2 t (ts_hash s)
      | LBoolean b \<Rightarrow> hashpow2 t (word_of_int b)
      | LLightUserdata p \<Rightarrow> hashmod t p
      | _ \<Rightarrow> hashmod t (gcvalue key))"

definition arrayindex :: "TValue \<Rightarrow> int" where
  "arrayindex key =
     (case key of
        LNumber n \<Rightarrow> (let k = lua_number2int n in if luai_numeq (cast_num k) n then k else -1)
      | _ \<Rightarrow> -1)"

subsection \<open>Searching\<close>

fun chain_find :: "nat \<Rightarrow> Node list \<Rightarrow> (Node \<Rightarrow> bool) \<Rightarrow> nat \<Rightarrow> nat option res" where
  "chain_find 0 ns P i = Inl Diverges"
| "chain_find (Suc fuel) ns P i =
     (if P (ns ! i) then Inr (Some i)
      else case n_next (ns ! i) of
             None \<Rightarrow> Inr None
           | Some j \<Rightarrow> chain_find fuel ns P j)"

definition chain_slot :: "Table \<Rightarrow> (Node \<Rightarrow> bool) \<Rightarrow> nat \<Rightarrow> slot res" where
  "chain_slot t P i =
     bindR (chain_find (length (nodes t)) (nodes t) P i)
       (\<lambda>r. Inr (case r of None \<Rightarrow> SNilObject | Some j \<Rightarrow> SNode j))"

definition luaH_getnum :: "Table \<Rightarrow> int \<Rightarrow> slot res" where
  "luaH_getnum t key =
     (if (word_of_int (key - 1) :: u32) < word_of_nat (sizearray t)
      then Inr (SArray (nat (key - 1)))
      else let nk = cast_num key
           in chain_slot t
                (\<lambda>n. case i_key n of LNumber m \<Rightarrow> luai_numeq m nk | _ \<Rightarrow> False)
                (hashnum t nk))"

definition luaH_getstr :: "Table \<Rightarrow> TString \<Rightarrow> slot res" where
  "luaH_getstr t key =
     chain_slot t (\<lambda>n. case i_key n of LString s \<Rightarrow> ts_addr s = ts_addr key | _ \<Rightarrow> False)
       (hashpow2 t (ts_hash key))"

definition luaH_get_any :: "Table \<Rightarrow> TValue \<Rightarrow> slot res" where
  "luaH_get_any t key = chain_slot t (\<lambda>n. luaO_rawequalObj (i_key n) key) (mainposition t key)"

definition luaH_get :: "Table \<Rightarrow> TValue \<Rightarrow> slot res" where
  "luaH_get t key =
     (case key of
        LNil \<Rightarrow> Inr SNilObject
      | LString s \<Rightarrow> luaH_getstr t s
      | LNumber n \<Rightarrow>
          (let k = lua_number2int n
           in if luai_numeq (cast_num k) n then luaH_getnum t k else luaH_get_any t key)
      | _ \<Rightarrow> luaH_get_any t key)"

subsection \<open>Traversal\<close>

definition findindex :: "Table \<Rightarrow> TValue \<Rightarrow> int res" where
  "findindex t key =
     (if key = LNil then Inr (-1)
      else let i = arrayindex key
           in if 0 < i \<and> i \<le> int (sizearray t) then Inr (i - 1)
              else bindR
                (chain_find (length (nodes t)) (nodes t)
                   (\<lambda>n. luaO_rawequalObj (i_key n) key
                        \<or> (ttype (i_key n) = LUA_TDEADKEY \<and> iscollectable key
                           \<and> gcvalue (i_key n) = gcvalue key))
                   (mainposition t key))
                (\<lambda>r. case r of
                       Some j \<Rightarrow> Inr (int j + int (sizearray t))
                     | None \<Rightarrow> Inl (ErrRun (''invalid key to '' @ [CHR 0x27] @ ''next'' @ [CHR 0x27]))))"

function next_array :: "Table \<Rightarrow> nat \<Rightarrow> (TValue \<times> TValue) + nat" where
  "next_array t i =
     (if i < sizearray t
      then if array t ! i \<noteq> LNil then Inl (LNumber (cast_num (int i + 1)), array t ! i)
           else next_array t (Suc i)
      else Inr i)"
  by pat_completeness auto
termination by (relation "measure (\<lambda>(t, i). sizearray t - i)") auto

function next_hash :: "Table \<Rightarrow> nat \<Rightarrow> (TValue \<times> TValue) option" where
  "next_hash t i =
     (if int i < sizenode t
      then if i_val (nodes t ! i) \<noteq> LNil then Some (i_key (nodes t ! i), i_val (nodes t ! i))
           else next_hash t (Suc i)
      else None)"
  by pat_completeness auto
termination by (relation "measure (\<lambda>(t, i). nat (sizenode t) - i)") (auto simp: nat_less_iff)

declare next_array.simps [simp del] next_hash.simps [simp del]

definition luaH_next :: "Table \<Rightarrow> TValue \<Rightarrow> (TValue \<times> TValue) option res" where
  "luaH_next t key =
     bindR (findindex t key)
       (\<lambda>i. case next_array t (nat (i + 1)) of
              Inl kv \<Rightarrow> Inr (Some kv)
            | Inr i' \<Rightarrow> Inr (next_hash t (i' - sizearray t)))"

subsection \<open>Rehash: counting\<close>

function cs_loop :: "nat list \<Rightarrow> nat \<Rightarrow> nat \<Rightarrow> nat \<Rightarrow> nat \<Rightarrow> nat \<Rightarrow> nat \<times> nat" where
  "cs_loop nums narray i a na n =
     (if 2 ^ i div 2 < narray
      then let (a', na', n') =
             (if 0 < nums ! i
              then let a1 = a + nums ! i
                   in if 2 ^ i div 2 < a1 then (a1, a1, 2 ^ i) else (a1, na, n)
              else (a, na, n))
           in if a' = narray then (na', n') else cs_loop nums narray (Suc i) a' na' n'
      else (na, n))"
  by pat_completeness auto
termination
proof (relation "measure (\<lambda>(nums, narray, i, a, na, n). narray + 1 - i)", goal_cases)
  case (2 nums narray i)
  have "i \<le> 2 ^ i div 2" if "1 \<le> i"
    using that less_exp[of "i - 1"] by (cases i) (auto simp: Suc_le_eq)
  then show ?case using 2 by (cases "i = 0") auto
qed simp

declare cs_loop.simps [simp del]

text \<open>\<open>computesizes\<close> returns \<open>na\<close> and the new \<open>*narray\<close>.\<close>

definition computesizes :: "nat list \<Rightarrow> nat \<Rightarrow> nat \<times> nat" where
  "computesizes nums narray = cs_loop nums narray 0 0 0 0"

definition countint :: "TValue \<Rightarrow> nat list \<Rightarrow> nat list \<times> nat" where
  "countint key nums =
     (let k = arrayindex key
      in if 0 < k \<and> k \<le> MAXASIZE
         then (nums[nat (ceillog2 k) := nums ! nat (ceillog2 k) + 1], 1)
         else (nums, 0))"

function count_slice :: "TValue list \<Rightarrow> nat \<Rightarrow> nat \<Rightarrow> nat \<Rightarrow> nat \<times> nat" where
  "count_slice arr i ub lc =
     (if i \<le> ub
      then count_slice arr (Suc i) ub (if arr ! (i - 1) \<noteq> LNil then lc + 1 else lc)
      else (lc, i))"
  by pat_completeness auto
termination by (relation "measure (\<lambda>(arr, i, ub, lc). ub + 1 - i)") auto

declare count_slice.simps [simp del]

function nua_loop :: "Table \<Rightarrow> nat \<Rightarrow> nat \<Rightarrow> nat \<Rightarrow> nat list \<Rightarrow> nat list \<times> nat" where
  "nua_loop t lg i ause nums =
     (if lg \<le> MAXBITS
      then let ttlg = 2 ^ lg; ub = (if sizearray t < ttlg then sizearray t else ttlg)
           in if sizearray t < ttlg \<and> ub < i then (nums, ause)
              else let (lc, i') = count_slice (array t) i ub 0
                   in nua_loop t (Suc lg) i' (ause + lc) (nums[lg := nums ! lg + lc])
      else (nums, ause))"
  by pat_completeness auto
termination by (relation "measure (\<lambda>(t, lg, i, ause, nums). MAXBITS + 1 - lg)") auto

declare nua_loop.simps [simp del]

definition numusearray :: "Table \<Rightarrow> nat list \<Rightarrow> nat list \<times> nat" where
  "numusearray t nums = nua_loop t 0 1 0 nums"

text \<open>The loop of \<open>numusehash\<close> counts \<open>i\<close> down; the result is \<open>nums\<close>, \<open>ause\<close> and \<open>totaluse\<close>.\<close>

fun nuh_loop :: "Node list \<Rightarrow> nat \<Rightarrow> nat list \<Rightarrow> nat \<Rightarrow> nat \<Rightarrow> nat list \<times> nat \<times> nat" where
  "nuh_loop ns 0 nums ause totaluse = (nums, ause, totaluse)"
| "nuh_loop ns (Suc i) nums ause totaluse =
     (if i_val (ns ! i) \<noteq> LNil
      then let (nums', c) = countint (i_key (ns ! i)) nums
           in nuh_loop ns i nums' (ause + c) (totaluse + 1)
      else nuh_loop ns i nums ause totaluse)"

definition numusehash :: "Table \<Rightarrow> nat list \<Rightarrow> nat \<Rightarrow> nat list \<times> nat \<times> nat" where
  "numusehash t nums pnasize =
     (let (nums', ause, totaluse) = nuh_loop (nodes t) (nat (sizenode t)) nums 0 0
      in (nums', pnasize + ause, totaluse))"

subsection \<open>Rehash: new vectors\<close>

definition setarrayvector :: "Table \<Rightarrow> nat \<Rightarrow> Table res" where
  "setarrayvector t sz =
     (if luaM_reallocv_ok (int sz) sizeof_TValue
      then Inr (t\<lparr>array := take sz (array t) @ replicate (sz - sizearray t) LNil,
                  sizearray := sz\<rparr>)
      else luaM_toobig)"

definition table_overflow :: lua_error where
  "table_overflow = ErrRun ''table overflow''"

definition setnodevector :: "Table \<Rightarrow> nat \<Rightarrow> Table res" where
  "setnodevector t sz =
     (if sz = 0 then Inr (t\<lparr>node := None, lsizenode := 0, lastfree := 0\<rparr>)
      else let lsize = nat (ceillog2 (int sz))
           in if MAXBITS < lsize then Inl table_overflow
              else Inr (t\<lparr>node := Some (replicate (2 ^ lsize) dummynode), lsizenode := lsize,
                          lastfree := 2 ^ lsize\<rparr>))"

subsection \<open>Inserting\<close>

text \<open>
  \<open>newkey\<close>, \<open>rehash\<close>, \<open>resize\<close>, \<open>luaH_set\<close> and \<open>luaH_setnum\<close> call each other. The other
  functions get the \<open>newkey\<close> they call as their first argument; \<open>newkey\<close> itself counts down how
  deeply it may be entered again from a rehash.
\<close>

definition luaH_set_by ::
  "(Table \<Rightarrow> TValue \<Rightarrow> (slot \<times> Table) res) \<Rightarrow> Table \<Rightarrow> TValue \<Rightarrow> (slot \<times> Table) res" where
  "luaH_set_by nk t key =
     bindR (luaH_get t key)
       (\<lambda>p. let t' = t\<lparr>flags := 0\<rparr>
            in if p \<noteq> SNilObject then Inr (p, t')
               else case key of
                      LNil \<Rightarrow> Inl (ErrRun ''table index is nil'')
                    | LNumber n \<Rightarrow>
                        (if luai_numisnan n then Inl (ErrRun ''table index is NaN'') else nk t' key)
                    | _ \<Rightarrow> nk t' key)"

definition luaH_setnum_by ::
  "(Table \<Rightarrow> TValue \<Rightarrow> (slot \<times> Table) res) \<Rightarrow> Table \<Rightarrow> int \<Rightarrow> (slot \<times> Table) res" where
  "luaH_setnum_by nk t key =
     bindR (luaH_getnum t key)
       (\<lambda>p. if p \<noteq> SNilObject then Inr (p, t) else nk t (LNumber (cast_num key)))"

definition luaH_setstr_by ::
  "(Table \<Rightarrow> TValue \<Rightarrow> (slot \<times> Table) res) \<Rightarrow> Table \<Rightarrow> TString \<Rightarrow> (slot \<times> Table) res" where
  "luaH_setstr_by nk t key =
     bindR (luaH_getstr t key)
       (\<lambda>p. if p \<noteq> SNilObject then Inr (p, t) else nk t (LString key))"

text \<open>Re-insertion of the elements of the vanishing slice, and of the old nodes from the last.\<close>

fun reinsert_array ::
  "(Table \<Rightarrow> TValue \<Rightarrow> (slot \<times> Table) res) \<Rightarrow> nat list \<Rightarrow> Table \<Rightarrow> Table res" where
  "reinsert_array nk [] t = Inr t"
| "reinsert_array nk (i # is) t =
     (if array t ! i \<noteq> LNil
      then bindR (luaH_setnum_by nk t (int i + 1))
             (\<lambda>(s, t'). reinsert_array nk is (set_slot t' s (array t ! i)))
      else reinsert_array nk is t)"

fun reinsert_nodes ::
  "(Table \<Rightarrow> TValue \<Rightarrow> (slot \<times> Table) res) \<Rightarrow> Node list \<Rightarrow> Table \<Rightarrow> Table res" where
  "reinsert_nodes nk [] t = Inr t"
| "reinsert_nodes nk (old # olds) t =
     (if i_val old \<noteq> LNil
      then bindR (luaH_set_by nk t (i_key old))
             (\<lambda>(s, t'). reinsert_nodes nk olds (set_slot t' s (i_val old)))
      else reinsert_nodes nk olds t)"

definition resize_by ::
  "(Table \<Rightarrow> TValue \<Rightarrow> (slot \<times> Table) res) \<Rightarrow> Table \<Rightarrow> nat \<Rightarrow> nat \<Rightarrow> Table res" where
  "resize_by nk t nasize nhsize =
     (let oldasize = sizearray t; nold = nodes t
      in bindR (if oldasize < nasize then setarrayvector t nasize else Inr t)
         (\<lambda>t1. bindR (setnodevector t1 nhsize)
         (\<lambda>t2. bindR
            (if nasize < oldasize
             then bindR (reinsert_array nk [nasize..<oldasize] (t2\<lparr>sizearray := nasize\<rparr>))
                    (\<lambda>t3. Inr (t3\<lparr>array := take nasize (array t3)\<rparr>))
             else Inr t2)
         (\<lambda>t4. reinsert_nodes nk (rev nold) t4))))"

definition rehash_by ::
  "(Table \<Rightarrow> TValue \<Rightarrow> (slot \<times> Table) res) \<Rightarrow> Table \<Rightarrow> TValue \<Rightarrow> Table res" where
  "rehash_by nk t ek =
     (let nums = replicate (MAXBITS + 1) 0;
          (nums1, nasize) = numusearray t nums;
          totaluse = nasize;
          (nums2, nasize2, tu) = numusehash t nums1 nasize;
          totaluse2 = totaluse + tu;
          (nums3, c) = countint ek nums2;
          nasize3 = nasize2 + c;
          totaluse3 = totaluse2 + 1;
          (na, nasize4) = computesizes nums3 nasize3
      in resize_by nk t nasize4 (totaluse3 - na))"

fun getfree_loop :: "Node list \<Rightarrow> nat \<Rightarrow> nat option \<times> int" where
  "getfree_loop ns 0 = (None, -1)"
| "getfree_loop ns (Suc l) = (if i_key (ns ! l) = LNil then (Some l, int l) else getfree_loop ns l)"

definition getfreepos :: "Table \<Rightarrow> nat option \<times> Table" where
  "getfreepos t =
     (if lastfree t \<le> 0 then (None, t\<lparr>lastfree := lastfree t - 1\<rparr>)
      else let (r, lf) = getfree_loop (nodes t) (nat (lastfree t)) in (r, t\<lparr>lastfree := lf\<rparr>))"

text \<open>The node whose \<open>next\<close> is \<open>mp\<close>, from \<open>othern\<close> on.\<close>

fun find_previous :: "nat \<Rightarrow> Node list \<Rightarrow> nat \<Rightarrow> nat \<Rightarrow> nat res" where
  "find_previous 0 ns othern mp = Inl Diverges"
| "find_previous (Suc fuel) ns othern mp =
     (case n_next (ns ! othern) of
        None \<Rightarrow> Inl Undef
      | Some j \<Rightarrow> if j = mp then Inr othern else find_previous fuel ns j mp)"

definition move_colliding :: "Node list \<Rightarrow> nat \<Rightarrow> nat \<Rightarrow> nat \<Rightarrow> Node list" where
  "move_colliding ns othern mp n =
     (let ns1 = ns[othern := (ns ! othern)\<lparr>n_next := Some n\<rparr>];
          ns2 = ns1[n := ns1 ! mp]
      in ns2[mp := (ns2 ! mp)\<lparr>n_next := None, i_val := LNil\<rparr>])"

definition chain_after :: "Node list \<Rightarrow> nat \<Rightarrow> nat \<Rightarrow> Node list" where
  "chain_after ns mp n =
     (let ns1 = ns[n := (ns ! n)\<lparr>n_next := n_next (ns ! mp)\<rparr>]
      in ns1[mp := (ns1 ! mp)\<lparr>n_next := Some n\<rparr>])"

definition set_key :: "Node list \<Rightarrow> nat \<Rightarrow> TValue \<Rightarrow> Node list" where
  "set_key ns i key = ns[i := (ns ! i)\<lparr>i_key := key\<rparr>]"

fun newkey :: "nat \<Rightarrow> Table \<Rightarrow> TValue \<Rightarrow> (slot \<times> Table) res" where
  "newkey 0 t key = Inl Diverges"
| "newkey (Suc depth) t key =
     (let mp = mainposition t key
      in if i_val (nodes t ! mp) \<noteq> LNil \<or> node t = None
         then case getfreepos t of
                (None, t1) \<Rightarrow>
                  bindR (rehash_by (newkey depth) t1 key)
                    (\<lambda>t2. luaH_set_by (newkey depth) t2 key)
              | (Some n, t1) \<Rightarrow>
                  (let othern = mainposition t1 (i_key (nodes t1 ! mp))
                   in if othern \<noteq> mp
                      then bindR (find_previous (length (nodes t1)) (nodes t1) othern mp)
                             (\<lambda>prev. Inr (SNode mp, t1\<lparr>node :=
                                Some (set_key (move_colliding (nodes t1) prev mp n) mp key)\<rparr>))
                      else Inr (SNode n, t1\<lparr>node :=
                             Some (set_key (chain_after (nodes t1) mp n) n key)\<rparr>))
         else Inr (SNode mp, t\<lparr>node := Some (set_key (nodes t) mp key)\<rparr>))"

declare newkey.simps [simp del]

text \<open>Two levels are enough (proved below): no re-insertion during a rehash rehashes again.\<close>

definition newkey_depth :: nat where "newkey_depth = 2"

definition luaH_set :: "Table \<Rightarrow> TValue \<Rightarrow> (slot \<times> Table) res" where
  "luaH_set = luaH_set_by (newkey newkey_depth)"

definition luaH_setnum :: "Table \<Rightarrow> int \<Rightarrow> (slot \<times> Table) res" where
  "luaH_setnum = luaH_setnum_by (newkey newkey_depth)"

definition luaH_setstr :: "Table \<Rightarrow> TString \<Rightarrow> (slot \<times> Table) res" where
  "luaH_setstr = luaH_setstr_by (newkey newkey_depth)"

definition resize :: "Table \<Rightarrow> nat \<Rightarrow> nat \<Rightarrow> Table res" where
  "resize = resize_by (newkey newkey_depth)"

definition rehash :: "Table \<Rightarrow> TValue \<Rightarrow> Table res" where
  "rehash = rehash_by (newkey newkey_depth)"

definition luaH_resizearray :: "Table \<Rightarrow> nat \<Rightarrow> Table res" where
  "luaH_resizearray t nasize =
     resize t nasize (if node t = None then 0 else nat (sizenode t))"

definition luaH_new :: "nat \<Rightarrow> nat \<Rightarrow> Table res" where
  "luaH_new narray nhash =
     (let t = \<lparr>flags = NOT 0, lsizenode = 0, metatable = 0, array = [], node = None,
               lastfree = 0, sizearray = 0\<rparr>
      in bindR (setarrayvector t narray) (\<lambda>t1. setnodevector t1 nhash))"

subsection \<open>Boundaries\<close>

definition num_present :: "Table \<Rightarrow> nat \<Rightarrow> bool res" where
  "num_present t j = bindR (luaH_getnum t (int j)) (\<lambda>s. Inr (slot_val t s \<noteq> LNil))"

function bin_search :: "(nat \<Rightarrow> bool res) \<Rightarrow> nat \<Rightarrow> nat \<Rightarrow> nat res" where
  "bin_search present i j =
     (if 1 < j - i
      then let m = (i + j) div 2
           in bindR (present m) (\<lambda>b. if b then bin_search present m j else bin_search present i m)
      else Inr i)"
  by pat_completeness auto
termination by (relation "measure (\<lambda>(present, i, j). j - i)") auto

declare bin_search.simps [simp del]

text \<open>The linear search of a table \<open>built with bad purposes\<close>.\<close>

function linear_search :: "Table \<Rightarrow> nat \<Rightarrow> nat res" where
  "linear_search t i =
     (if i < 2 ^ 31
      then bindR (num_present t i) (\<lambda>b. if b then linear_search t (Suc i) else Inr (i - 1))
      else Inl Undef)"
  by pat_completeness auto
termination by (relation "measure (\<lambda>(t, i). 2 ^ 31 - i)") auto

declare linear_search.simps [simp del]

function unbound_loop :: "Table \<Rightarrow> nat \<Rightarrow> nat \<Rightarrow> nat res" where
  "unbound_loop t i j =
     (if 0 < j \<and> int j \<le> MAX_INT
      then bindR (num_present t j)
             (\<lambda>b. if b then if MAX_INT < int (j * 2) then linear_search t 1
                           else unbound_loop t j (j * 2)
                  else bin_search (num_present t) i j)
      else Inl Undef)"
  by pat_completeness auto
termination by (relation "measure (\<lambda>(t, i, j). nat MAX_INT + 1 - j)") (auto simp: MAX_INT_def)

declare unbound_loop.simps [simp del]

definition unbound_search :: "Table \<Rightarrow> nat \<Rightarrow> nat res" where
  "unbound_search t j = unbound_loop t j (j + 1)"

definition luaH_getn :: "Table \<Rightarrow> nat res" where
  "luaH_getn t =
     (let j = sizearray t
      in if 0 < j \<and> array t ! (j - 1) = LNil
         then bin_search (\<lambda>m. Inr (array t ! (m - 1) \<noteq> LNil)) 0 j
         else if node t = None then Inr j
         else unbound_search t j)"

end
