(* ===== verification/CodeCheck.thy ===== *)
theory CodeCheck
  imports Objects
begin

text \<open>
  The bytecode checker of \<open>ldebug.c\<close>: \<open>luaG_checkcode\<close> walks over the code of a prototype before it is
  accepted from a binary chunk, and \<open>symbexec\<close> finds the instruction that last changed a register.
  A check that fails gives \<open>None\<close>; reading outside a vector of the prototype is \<open>Undef\<close>.
\<close>

definition MAXSTACK :: int where "MAXSTACK = 250"
definition LUA_MULTRET :: int where "LUA_MULTRET = -1"

type_synonym 'a checked = "'a option res"

definition bindC :: "'a checked \<Rightarrow> ('a \<Rightarrow> 'b checked) \<Rightarrow> 'b checked" where
  "bindC r f = bindR r (\<lambda>x. case x of None \<Rightarrow> Inr None | Some y \<Rightarrow> f y)"

definition check :: "bool \<Rightarrow> unit checked" where
  "check b = Inr (if b then Some () else None)"

definition p_sizecode :: "Proto \<Rightarrow> int" where "p_sizecode pt = int (length (p_code pt))"

definition p_sizek :: "Proto \<Rightarrow> int" where "p_sizek pt = int (length (p_k pt))"

definition code_of :: "Proto \<Rightarrow> int \<Rightarrow> Instruction checked" where
  "code_of pt i = (if 0 \<le> i \<and> i < p_sizecode pt then Inr (Some (p_code pt ! nat i)) else Inl Undef)"

definition k_of :: "Proto \<Rightarrow> int \<Rightarrow> TValue checked" where
  "k_of pt i = (if 0 \<le> i \<and> i < p_sizek pt then Inr (Some (p_k pt ! nat i)) else Inl Undef)"

definition p_of :: "Proto \<Rightarrow> int \<Rightarrow> Proto checked" where
  "p_of pt i = (if 0 \<le> i \<and> i < int (length (p_p pt)) then Inr (Some (p_p pt ! nat i)) else Inl Undef)"

definition maxreg :: "Proto \<Rightarrow> int" where "maxreg pt = uint (p_maxstacksize pt)"

definition checkreg :: "Proto \<Rightarrow> int \<Rightarrow> unit checked" where
  "checkreg pt r = check (r < maxreg pt)"

definition precheck :: "Proto \<Rightarrow> bool" where
  "precheck pt =
     (maxreg pt \<le> MAXSTACK
      \<and> uint (p_numparams pt) + uint (p_is_vararg pt AND VARARG_HASARG) \<le> maxreg pt
      \<and> (p_is_vararg pt AND VARARG_NEEDSARG = 0 \<or> p_is_vararg pt AND VARARG_HASARG \<noteq> 0)
      \<and> int (length (p_upvalues pt)) \<le> uint (p_nups pt)
      \<and> (length (p_lineinfo pt) = length (p_code pt) \<or> p_lineinfo pt = [])
      \<and> p_code pt \<noteq> [] \<and> GET_OPCODE (last (p_code pt)) = op_num OP_RETURN)"

definition luaG_checkopenop :: "Instruction \<Rightarrow> bool" where
  "luaG_checkopenop i =
     (decode_op (GET_OPCODE i) \<in> {Some OP_CALL, Some OP_TAILCALL, Some OP_RETURN, Some OP_SETLIST}
      \<and> GETARG_B i = 0)"

definition checkopenop :: "Proto \<Rightarrow> int \<Rightarrow> unit checked" where
  "checkopenop pt pc = bindC (code_of pt (pc + 1)) (\<lambda>i. check (luaG_checkopenop i))"

definition checkArgMode :: "Proto \<Rightarrow> int \<Rightarrow> OpArgMask \<Rightarrow> unit checked" where
  "checkArgMode pt r mode =
     (case mode of
        OpArgN \<Rightarrow> check (r = 0)
      | OpArgU \<Rightarrow> check True
      | OpArgR \<Rightarrow> checkreg pt r
      | OpArgK \<Rightarrow> check (if ISK r then INDEXK r < p_sizek pt else r < maxreg pt))"

text \<open>The instruction looks like a \<open>SETLIST\<close> whose count is in the next word.\<close>

definition setlist_count :: "Instruction \<Rightarrow> bool" where
  "setlist_count d = (GET_OPCODE d = op_num OP_SETLIST \<and> GETARG_C d = 0)"

text \<open>The operands \<open>b\<close> and \<open>c\<close>, checked according to the mode of the opcode.\<close>

definition sx_operands :: "Proto \<Rightarrow> int \<Rightarrow> Instruction \<Rightarrow> nat \<Rightarrow> (int \<times> int) checked" where
  "sx_operands pt pc i op =
     (case getOpMode op of
        iABC \<Rightarrow>
          (let b = GETARG_B i; c = GETARG_C i
           in bindC (checkArgMode pt b (getBMode op)) (\<lambda>_.
              bindC (checkArgMode pt c (getCMode op)) (\<lambda>_. Inr (Some (b, c)))))
      | iABx \<Rightarrow>
          (let b = GETARG_Bx i
           in bindC (check (getBMode op = OpArgK \<longrightarrow> b < p_sizek pt)) (\<lambda>_. Inr (Some (b, 0))))
      | iAsBx \<Rightarrow>
          (let b = GETARG_sBx i; dest = pc + 1 + b
           in if getBMode op = OpArgR
              then bindC (check (0 \<le> dest \<and> dest < p_sizecode pt)) (\<lambda>_.
                   bindC (check (even (length (takeWhile setlist_count (rev (take (nat dest) (p_code pt)))))))
                     (\<lambda>_. Inr (Some (b, 0))))
              else Inr (Some (b, 0))))"

text \<open>What the opcode does to \<open>pc\<close> (before the increment of the loop) and to \<open>last\<close>.\<close>

definition sx_op ::
  "Proto \<Rightarrow> int \<Rightarrow> int \<Rightarrow> int \<Rightarrow> int \<Rightarrow> OpCode \<Rightarrow> int \<Rightarrow> int \<Rightarrow> int \<Rightarrow> (int \<times> int) checked" where
  "sx_op pt lastpc reg pc lst op a b c =
     (let jump = (let dest = pc + 1 + b
                  in Inr (Some (if reg \<noteq> NO_REG \<and> pc < dest \<and> dest \<le> lastpc then pc + b else pc, lst)));
          call = bindC (if b \<noteq> 0 then checkreg pt (a + b - 1) else check True) (\<lambda>_.
                 bindC (if c - 1 = LUA_MULTRET then checkopenop pt pc
                        else if c - 1 \<noteq> 0 then checkreg pt (a + (c - 1) - 1) else check True)
                   (\<lambda>_. Inr (Some (pc, if a \<le> reg then pc else lst))))
      in case op of
           OP_LOADBOOL \<Rightarrow>
             (if c = 1
              then bindC (check (pc + 2 < p_sizecode pt)) (\<lambda>_. bindC (code_of pt (pc + 1)) (\<lambda>n.
                   bindC (check (GET_OPCODE n \<noteq> op_num OP_SETLIST \<or> GETARG_C n \<noteq> 0))
                     (\<lambda>_. Inr (Some (pc, lst)))))
              else Inr (Some (pc, lst)))
         | OP_LOADNIL \<Rightarrow> Inr (Some (pc, if a \<le> reg \<and> reg \<le> b then pc else lst))
         | OP_GETUPVAL \<Rightarrow> bindC (check (b < uint (p_nups pt))) (\<lambda>_. Inr (Some (pc, lst)))
         | OP_SETUPVAL \<Rightarrow> bindC (check (b < uint (p_nups pt))) (\<lambda>_. Inr (Some (pc, lst)))
         | OP_GETGLOBAL \<Rightarrow> bindC (k_of pt b) (\<lambda>v. bindC (check (ttisstring v)) (\<lambda>_. Inr (Some (pc, lst))))
         | OP_SETGLOBAL \<Rightarrow> bindC (k_of pt b) (\<lambda>v. bindC (check (ttisstring v)) (\<lambda>_. Inr (Some (pc, lst))))
         | OP_SELF \<Rightarrow> bindC (checkreg pt (a + 1)) (\<lambda>_. Inr (Some (pc, if reg = a + 1 then pc else lst)))
         | OP_CONCAT \<Rightarrow> bindC (check (b < c)) (\<lambda>_. Inr (Some (pc, lst)))
         | OP_TFORLOOP \<Rightarrow> bindC (check (1 \<le> c)) (\<lambda>_. bindC (checkreg pt (a + 2 + c))
             (\<lambda>_. Inr (Some (pc, if a + 2 \<le> reg then pc else lst))))
         | OP_FORLOOP \<Rightarrow> bindC (checkreg pt (a + 3)) (\<lambda>_. jump)
         | OP_FORPREP \<Rightarrow> bindC (checkreg pt (a + 3)) (\<lambda>_. jump)
         | OP_JMP \<Rightarrow> jump
         | OP_CALL \<Rightarrow> call
         | OP_TAILCALL \<Rightarrow> call
         | OP_RETURN \<Rightarrow> bindC (if 0 < b - 1 then checkreg pt (a + (b - 1) - 1) else check True)
             (\<lambda>_. Inr (Some (pc, lst)))
         | OP_SETLIST \<Rightarrow> bindC (if 0 < b then checkreg pt (a + b) else check True) (\<lambda>_.
             if c = 0 then bindC (check (pc + 1 < p_sizecode pt - 1)) (\<lambda>_. Inr (Some (pc + 1, lst)))
             else Inr (Some (pc, lst)))
         | OP_CLOSURE \<Rightarrow> bindC (check (b < int (length (p_p pt)))) (\<lambda>_. bindC (p_of pt b) (\<lambda>q.
             let nup = uint (p_nups q)
             in bindC (check (pc + nup < p_sizecode pt)) (\<lambda>_.
                bindC (check (\<forall>j\<in>set [1..nup].
                         GET_OPCODE (p_code pt ! nat (pc + j)) \<in> {op_num OP_GETUPVAL, op_num OP_MOVE}))
                  (\<lambda>_. Inr (Some (if reg \<noteq> NO_REG then pc + nup else pc, lst))))))
         | OP_VARARG \<Rightarrow>
             bindC (check (p_is_vararg pt AND VARARG_ISVARARG \<noteq> 0 \<and> p_is_vararg pt AND VARARG_NEEDSARG = 0)) (\<lambda>_.
             bindC (if b - 1 = LUA_MULTRET then checkopenop pt pc else check True) (\<lambda>_.
             bindC (checkreg pt (a + (b - 1) - 1)) (\<lambda>_. Inr (Some (pc, lst)))))
         | _ \<Rightarrow> Inr (Some (pc, lst)))"

definition sx_skip :: "Proto \<Rightarrow> int \<Rightarrow> nat \<Rightarrow> unit checked" where
  "sx_skip pt pc op =
     (if testTMode op
      then bindC (check (pc + 2 < p_sizecode pt)) (\<lambda>_. bindC (code_of pt (pc + 1))
             (\<lambda>n. check (GET_OPCODE n = op_num OP_JMP)))
      else check True)"

definition sx_step :: "Proto \<Rightarrow> int \<Rightarrow> int \<Rightarrow> int \<Rightarrow> int \<Rightarrow> (int \<times> int) checked" where
  "sx_step pt lastpc reg pc lst =
     bindC (code_of pt pc) (\<lambda>i.
       case decode_op (GET_OPCODE i) of
         None \<Rightarrow> Inr None
       | Some op \<Rightarrow>
           let n = op_num op; a = GETARG_A i
           in bindC (checkreg pt a) (\<lambda>_. bindC (sx_operands pt pc i n) (\<lambda>(b, c).
                let last' = (if testAMode n \<and> a = reg then pc else lst)
                in bindC (sx_skip pt pc n) (\<lambda>_. sx_op pt lastpc reg pc last' op a b c))))"

fun sx_loop :: "nat \<Rightarrow> Proto \<Rightarrow> int \<Rightarrow> int \<Rightarrow> int \<Rightarrow> int \<Rightarrow> Instruction checked" where
  "sx_loop 0 pt lastpc reg pc lst = Inl Diverges"
| "sx_loop (Suc fuel) pt lastpc reg pc lst =
     (if pc < lastpc
      then bindC (sx_step pt lastpc reg pc lst) (\<lambda>(pc', last'). sx_loop fuel pt lastpc reg (pc' + 1) last')
      else code_of pt lst)"

definition symbexec :: "Proto \<Rightarrow> int \<Rightarrow> int \<Rightarrow> Instruction checked" where
  "symbexec pt lastpc reg =
     (if precheck pt then sx_loop (nat lastpc + 1) pt lastpc reg 0 (p_sizecode pt - 1) else Inr None)"

definition luaG_checkcode :: "Proto \<Rightarrow> bool res" where
  "luaG_checkcode pt = bindR (symbexec pt (p_sizecode pt) NO_REG)
     (\<lambda>r. Inr (case r of None \<Rightarrow> False | Some i \<Rightarrow> i \<noteq> 0))"

subsection \<open>Checks\<close>

lemma bindC_simps [simp]:
  "bindC (Inl e) f = Inl e" "bindC (Inr None) f = Inr None" "bindC (Inr (Some x)) f = f x"
  by (simp_all add: bindC_def bindR_def)

lemma bindC_eq_Some:
  "bindC r f = Inr (Some y) \<longleftrightarrow> (\<exists>x. r = Inr (Some x) \<and> f x = Inr (Some y))"
  by (auto simp: bindC_def bindR_def split: sum.split option.split)

lemma bindC_eq_Inl: "bindC r f = Inl e \<longleftrightarrow> r = Inl e \<or> (\<exists>x. r = Inr (Some x) \<and> f x = Inl e)"
  by (auto simp: bindC_def bindR_def split: sum.split option.split)

lemma check_simps [simp]:
  "check b = Inr (Some u) \<longleftrightarrow> b" "check b \<noteq> Inl e" "checkreg pt r = Inr (Some u) \<longleftrightarrow> r < maxreg pt"
  "checkreg pt r \<noteq> Inl e"
  by (auto simp: check_def checkreg_def)

lemma code_of_simps:
  "code_of pt i = Inr (Some x) \<longleftrightarrow> 0 \<le> i \<and> i < p_sizecode pt \<and> x = p_code pt ! nat i"
  "code_of pt i = Inl e \<longleftrightarrow> e = Undef \<and> \<not> (0 \<le> i \<and> i < p_sizecode pt)"
  "code_of pt i \<noteq> Inr None"
  by (auto simp: code_of_def)

lemma k_of_simps:
  "k_of pt i = Inr (Some x) \<longleftrightarrow> 0 \<le> i \<and> i < p_sizek pt \<and> x = p_k pt ! nat i"
  "k_of pt i = Inl e \<longleftrightarrow> e = Undef \<and> \<not> (0 \<le> i \<and> i < p_sizek pt)"
  by (auto simp: k_of_def)

lemma p_of_simps:
  "p_of pt i = Inr (Some x) \<longleftrightarrow> 0 \<le> i \<and> i < int (length (p_p pt)) \<and> x = p_p pt ! nat i"
  "p_of pt i = Inl e \<longleftrightarrow> e = Undef \<and> \<not> (0 \<le> i \<and> i < int (length (p_p pt)))"
  by (auto simp: p_of_def)

lemma checkArgMode_no_error [simp]: "checkArgMode pt r m \<noteq> Inl e"
  by (cases m) (auto simp: checkArgMode_def)

lemma sx_operands_no_error [simp]: "sx_operands pt pc i op \<noteq> Inl e"
  by (cases "getOpMode op") (auto simp: sx_operands_def bindC_eq_Inl Let_def)

lemma precheck_last:
  assumes "precheck pt"
  shows "0 < p_sizecode pt" "decode_op (GET_OPCODE (p_code pt ! nat (p_sizecode pt - 1))) = Some OP_RETURN"
proof -
  have ne: "p_code pt \<noteq> []" and r: "GET_OPCODE (last (p_code pt)) = op_num OP_RETURN"
    using assms by (auto simp: precheck_def)
  then show "0 < p_sizecode pt" by (simp add: p_sizecode_def)
  have "last (p_code pt) = p_code pt ! nat (p_sizecode pt - 1)"
    using last_conv_nth[OF ne] by (simp add: p_sizecode_def nat_minus_as_int)
  then show "decode_op (GET_OPCODE (p_code pt ! nat (p_sizecode pt - 1))) = Some OP_RETURN"
    using r decode_op_num[of OP_RETURN] by (simp only:)
qed

text \<open>Every step stays inside the prototype, and moves on.\<close>

lemma sx_op_safe:
  assumes "0 \<le> pc" "pc < p_sizecode pt" "op \<noteq> OP_RETURN \<longrightarrow> pc + 1 < p_sizecode pt"
    "op \<in> {OP_GETGLOBAL, OP_SETGLOBAL, OP_CLOSURE} \<longrightarrow> 0 \<le> b"
    "op \<in> {OP_GETGLOBAL, OP_SETGLOBAL} \<longrightarrow> b < p_sizek pt"
  shows "sx_op pt lastpc reg pc lst op a b c \<noteq> Inl e"
  using assms
  by (cases op) (auto simp: sx_op_def Let_def bindC_eq_Inl code_of_simps k_of_simps p_of_simps checkopenop_def
      split: if_splits)

lemma sx_op_moves:
  assumes "sx_op pt lastpc reg pc lst op a b c = Inr (Some (pc', lst'))" "0 \<le> pc"
  shows "pc \<le> pc' \<and> (lst' = pc \<or> lst' = lst)"
  using assms
  by (cases op) (auto simp: sx_op_def Let_def bindC_eq_Some split: if_splits)

lemma sx_operands_globals:
  assumes "sx_operands pt pc i (op_num op) = Inr (Some (b, c))"
  shows "op \<in> {OP_GETGLOBAL, OP_SETGLOBAL} \<longrightarrow> 0 \<le> b \<and> b < p_sizek pt" "op = OP_CLOSURE \<longrightarrow> 0 \<le> b"
proof -
  have "getOpMode (op_num op) = iABx" if "op \<in> {OP_GETGLOBAL, OP_SETGLOBAL, OP_CLOSURE}"
    using that getOpMode_op[of op] by auto
  moreover have "getBMode (op_num op) = OpArgK" if "op \<in> {OP_GETGLOBAL, OP_SETGLOBAL}"
    using that getBMode_op[of op] by auto
  ultimately show "op \<in> {OP_GETGLOBAL, OP_SETGLOBAL} \<longrightarrow> 0 \<le> b \<and> b < p_sizek pt"
    "op = OP_CLOSURE \<longrightarrow> 0 \<le> b"
    using assms getarg_bounds(8)[of i] by (auto simp: sx_operands_def bindC_eq_Some Let_def)
qed

lemma sx_step_safe:
  assumes "precheck pt" "0 \<le> pc" "pc < p_sizecode pt"
  shows "sx_step pt lastpc reg pc lst \<noteq> Inl e"
proof (cases "decode_op (GET_OPCODE (p_code pt ! nat pc))")
  case None
  then show ?thesis using assms by (simp add: sx_step_def code_of_def)
next
  case (Some op)
  have skip: "sx_skip pt pc n \<noteq> Inl e" for n
    using assms by (auto simp: sx_skip_def bindC_eq_Inl code_of_simps)
  have notlast: "op \<noteq> OP_RETURN \<longrightarrow> pc + 1 < p_sizecode pt"
  proof (cases "pc + 1 = p_sizecode pt")
    case True
    then have "p_sizecode pt - 1 = pc" by simp
    then show ?thesis using precheck_last(2)[OF assms(1)] Some by simp
  qed (use assms in simp)
  have ops: "sx_op pt lastpc reg pc l op (GETARG_A (p_code pt ! nat pc)) b c \<noteq> Inl e"
    if "sx_operands pt pc (p_code pt ! nat pc) (op_num op) = Inr (Some (b, c))" for l b c
    by (rule sx_op_safe[OF assms(2,3) notlast]) (use sx_operands_globals[OF that] in auto)
  show ?thesis
    using assms Some skip ops by (auto simp: sx_step_def code_of_def bindC_eq_Inl Let_def)
qed

lemma sx_step_Some:
  assumes "sx_step pt lastpc reg pc lst = Inr (Some (pc', lst'))"
  obtains op b c lst0 where "0 \<le> pc" "pc < p_sizecode pt"
    "decode_op (GET_OPCODE (p_code pt ! nat pc)) = Some op"
    "GETARG_A (p_code pt ! nat pc) < maxreg pt"
    "sx_operands pt pc (p_code pt ! nat pc) (op_num op) = Inr (Some (b, c))"
    "sx_skip pt pc (op_num op) = Inr (Some ())" "lst0 = pc \<or> lst0 = lst"
    "sx_op pt lastpc reg pc lst0 op (GETARG_A (p_code pt ! nat pc)) b c = Inr (Some (pc', lst'))"
proof -
  let ?i = "p_code pt ! nat pc"
  have r: "0 \<le> pc" "pc < p_sizecode pt"
    using assms by (auto simp: sx_step_def bindC_eq_Some code_of_simps)
  then have c: "code_of pt pc = Inr (Some ?i)" by (simp add: code_of_def)
  obtain op where op: "decode_op (GET_OPCODE ?i) = Some op"
    using assms c by (cases "decode_op (GET_OPCODE ?i)") (auto simp: sx_step_def)
  let ?l = "if testAMode (op_num op) \<and> GETARG_A ?i = reg then pc else lst"
  show ?thesis
    using assms c op r that[of op _ _ ?l] by (auto simp: sx_step_def bindC_eq_Some Let_def)
qed

lemma sx_step_moves:
  assumes "sx_step pt lastpc reg pc lst = Inr (Some (pc', lst'))"
  shows "pc \<le> pc' \<and> (lst' = pc \<or> lst' = lst)"
  using assms
proof (rule sx_step_Some)
  fix op b c lst0
  assume "0 \<le> pc" "lst0 = pc \<or> lst0 = lst"
    "sx_op pt lastpc reg pc lst0 op (GETARG_A (p_code pt ! nat pc)) b c = Inr (Some (pc', lst'))"
  then show ?thesis using sx_op_moves by blast
qed

lemma sx_loop_safe:
  assumes "precheck pt" "lastpc \<le> p_sizecode pt"
  shows "0 \<le> pc \<Longrightarrow> 0 \<le> lst \<Longrightarrow> lst < p_sizecode pt \<Longrightarrow> lastpc - pc < int fuel \<Longrightarrow> 0 < fuel \<Longrightarrow>
    sx_loop fuel pt lastpc reg pc lst \<noteq> Inl e"
proof (induction fuel arbitrary: pc lst)
  case (Suc fuel)
  show ?case
  proof (cases "pc < lastpc")
    case True
    have "sx_loop fuel pt lastpc reg (pc' + 1) lst' \<noteq> Inl e"
      if "sx_step pt lastpc reg pc lst = Inr (Some (pc', lst'))" for pc' lst'
    proof -
      have "pc \<le> pc' \<and> (lst' = pc \<or> lst' = lst)" using sx_step_moves[OF that] Suc.prems by simp
      then show ?thesis using Suc.prems True assms(2) by (intro Suc.IH) auto
    qed
    then show ?thesis
      using sx_step_safe[OF assms(1), of pc] Suc.prems True assms(2)
      by (auto simp: bindC_eq_Inl)
  next
    case False
    then show ?thesis using Suc.prems by (simp add: code_of_simps)
  qed
qed simp

lemma symbexec_safe: "0 \<le> lastpc \<Longrightarrow> lastpc \<le> p_sizecode pt \<Longrightarrow> symbexec pt lastpc reg \<noteq> Inl e"
  unfolding symbexec_def using sx_loop_safe[of pt lastpc 0 "p_sizecode pt - 1"] precheck_last(1)[of pt]
  by (auto simp del: sx_loop.simps)

subsection \<open>What an accepted prototype guarantees\<close>

text \<open>The positions the checker comes to: all but the counts that follow a \<open>SETLIST\<close>.\<close>

definition next_pos :: "Proto \<Rightarrow> int \<Rightarrow> int" where
  "next_pos pt pc = (if setlist_count (p_code pt ! nat pc) then pc + 2 else pc + 1)"

inductive visited :: "Proto \<Rightarrow> int \<Rightarrow> bool" for pt where
  visited_0: "visited pt 0"
| visited_next: "visited pt pc \<Longrightarrow> pc < p_sizecode pt \<Longrightarrow> visited pt (next_pos pt pc)"

inductive_cases visitedE: "visited pt pc"

lemma visited_nonneg: "visited pt pc \<Longrightarrow> 0 \<le> pc"
  by (induction rule: visited.induct) (auto simp: next_pos_def)

lemma visited_or_count:
  assumes "x \<le> p_sizecode pt" "0 \<le> x"
  shows "visited pt x \<or> (0 < x \<and> visited pt (x - 1) \<and> setlist_count (p_code pt ! nat (x - 1)))"
  using assms(2,1)
proof (induction x rule: int_ge_induct)
  case base
  then show ?case by (simp add: visited_0)
next
  case (step x)
  then consider "visited pt x" | "0 < x" "visited pt (x - 1)" "setlist_count (p_code pt ! nat (x - 1))"
    by auto
  then show ?case
  proof cases
    case 1
    then show ?thesis using step visited_next[OF 1] by (auto simp: next_pos_def)
  next
    case 2
    then show ?thesis using step visited_next[OF 2(2)] by (auto simp: next_pos_def add.commute)
  qed
qed

text \<open>Nothing between a visited position and the next is visited.\<close>

primrec walk :: "Proto \<Rightarrow> nat \<Rightarrow> int" where
  "walk pt 0 = 0"
| "walk pt (Suc n) = next_pos pt (walk pt n)"

lemma walk_mono: "i \<le> j \<Longrightarrow> walk pt i \<le> walk pt j"
  by (rule lift_Suc_mono_le) (auto simp: next_pos_def)

lemma visited_walk: "visited pt x \<Longrightarrow> \<exists>n. x = walk pt n"
proof (induction rule: visited.induct)
  case visited_0
  show ?case by (rule exI[of _ 0]) simp
next
  case (visited_next pc)
  then obtain n where "pc = walk pt n" by blast
  then show ?case by (intro exI[of _ "Suc n"]) simp
qed

lemma visited_gap:
  assumes "visited pt x" "visited pt y" "x < y"
  shows "next_pos pt x \<le> y"
proof -
  obtain i j where ij: "x = walk pt i" "y = walk pt j" using visited_walk assms(1,2) by blast
  then have "i < j" using walk_mono[of j i pt] assms(3) by (cases "i < j") auto
  then show ?thesis using walk_mono[of "Suc i" j pt] ij by simp
qed

text \<open>A jump target with an even run of \<open>SETLIST\<close>s before it is visited.\<close>

lemma takeWhile_rev_take:
  assumes "n < length xs"
  shows "takeWhile P (rev (take (Suc n) xs)) = (if P (xs ! n) then xs ! n # takeWhile P (rev (take n xs)) else [])"
  using assms by (simp add: take_Suc_conv_app_nth)

lemma even_run_visited:
  assumes "n < length (p_code pt)" "even (length (takeWhile setlist_count (rev (take n (p_code pt)))))"
  shows "visited pt (int n)"
  using assms
proof (induction n rule: less_induct)
  case (less n)
  let ?run = "\<lambda>n. length (takeWhile setlist_count (rev (take n (p_code pt))))"
  show ?case
  proof (cases n)
    case 0
    then show ?thesis by (simp add: visited_0)
  next
    case (Suc m)
    note m = takeWhile_rev_take[of m "p_code pt" setlist_count]
    show ?thesis
    proof (cases "setlist_count (p_code pt ! m)")
      case False
      have "int m \<le> p_sizecode pt" using less.prems Suc by (simp add: p_sizecode_def)
      moreover have "visited pt (int n)" if "visited pt (int m)"
        using visited_next[OF that] False less.prems Suc by (simp add: next_pos_def p_sizecode_def add.commute)
      moreover have "visited pt (int n)"
        if "0 < int m" "visited pt (int m - 1)" "setlist_count (p_code pt ! nat (int m - 1))"
        using visited_next[OF that(2)] that less.prems Suc by (simp add: next_pos_def p_sizecode_def add.commute)
      ultimately show ?thesis using visited_or_count[of "int m" pt] by auto
    next
      case True
      then have r: "?run n = Suc (?run m)" using m less.prems(1) Suc by simp
      then obtain k where k: "m = Suc k"
        using less.prems(2) by (cases m) auto
      have r2: "?run m = (if setlist_count (p_code pt ! k) then Suc (?run k) else 0)"
        using takeWhile_rev_take[of k "p_code pt" setlist_count] less.prems(1) Suc k by simp
      then have c: "setlist_count (p_code pt ! k)" "even (?run k)"
        using r less.prems(2) by (auto split: if_splits)
      have "visited pt (int k)" using less.IH[of k] c(2) less.prems(1) Suc k by simp
      then show ?thesis using visited_next[of pt "int k"] c(1) less.prems(1) Suc k
        by (simp add: next_pos_def p_sizecode_def add.commute)
    qed
  qed
qed

text \<open>Each position visited has been checked.\<close>

definition checked_at :: "Proto \<Rightarrow> int \<Rightarrow> bool" where
  "checked_at pt pc = (\<exists>lst r. sx_step pt (p_sizecode pt) NO_REG pc lst = Inr (Some r))"

lemma sx_step_next:
  assumes "sx_step pt lastpc NO_REG pc lst = Inr (Some (pc', lst'))"
  shows "pc' + 1 = next_pos pt pc"
  using assms
proof (rule sx_step_Some)
  fix op b c lst0
  assume o: "decode_op (GET_OPCODE (p_code pt ! nat pc)) = Some op"
    "sx_operands pt pc (p_code pt ! nat pc) (op_num op) = Inr (Some (b, c))"
    "sx_op pt lastpc NO_REG pc lst0 op (GETARG_A (p_code pt ! nat pc)) b c = Inr (Some (pc', lst'))"
  have g: "GET_OPCODE (p_code pt ! nat pc) = op_num op" using o(1) by (simp add: decode_op_Some)
  have c: "op = OP_SETLIST \<longrightarrow> c = GETARG_C (p_code pt ! nat pc)"
    using o(2) getOpMode_op[of op] by (auto simp: sx_operands_def bindC_eq_Some Let_def)
  show ?thesis
    using o(3) c g
    by (cases op) (auto simp: sx_op_def Let_def bindC_eq_Some next_pos_def setlist_count_def
        split: if_splits)
qed

lemma sx_loop_checks:
  assumes "sx_loop fuel pt (p_sizecode pt) NO_REG pc lst = Inr (Some i)" "visited pt pc"
    "\<forall>x. visited pt x \<and> x < pc \<longrightarrow> checked_at pt x" "visited pt x" "x < p_sizecode pt"
  shows "checked_at pt x"
  using assms(1-3)
proof (induction fuel arbitrary: pc lst)
  case (Suc fuel)
  show ?case
  proof (cases "pc < p_sizecode pt")
    case True
    then obtain pc' lst' where s: "sx_step pt (p_sizecode pt) NO_REG pc lst = Inr (Some (pc', lst'))"
      "sx_loop fuel pt (p_sizecode pt) NO_REG (pc' + 1) lst' = Inr (Some i)"
      using Suc.prems(1) by (auto simp: bindC_eq_Some)
    have n: "pc' + 1 = next_pos pt pc" by (rule sx_step_next[OF s(1)])
    have "checked_at pt y" if "visited pt y" "y < next_pos pt pc" for y
    proof (cases "y \<le> pc")
      case True
      then show ?thesis using Suc.prems(3) that s(1) by (cases "y = pc") (auto simp: checked_at_def)
    next
      case False
      then have y: "y = pc + 1" "setlist_count (p_code pt ! nat pc)"
        using that(2) by (auto simp: next_pos_def split: if_splits)
      then show ?thesis using visited_gap[OF Suc.prems(2) that(1)] that(2) False by simp
    qed
    then show ?thesis using Suc.IH[OF s(2)] n visited_next[OF Suc.prems(2) True] by auto
  next
    case False
    then show ?thesis using Suc.prems(3) assms(4,5) by auto
  qed
qed simp

subsection \<open>Where control goes\<close>

text \<open>
  The positions the interpreter (\<open>luaV_execute\<close>) may go to after the instruction at \<open>pc\<close>; the
  instruction is fetched with \<open>*pc++\<close>, and an opcode with no case falls through to the next.
\<close>

definition vm_next :: "Proto \<Rightarrow> int \<Rightarrow> int set" where
  "vm_next pt pc =
     (let i = p_code pt ! nat pc;
          test = {pc + 2, pc + 2 + GETARG_sBx (p_code pt ! nat (pc + 1))}
      in case decode_op (GET_OPCODE i) of
           None \<Rightarrow> {pc + 1}
         | Some op \<Rightarrow>
             (case op of
                OP_LOADBOOL \<Rightarrow> {if GETARG_C i \<noteq> 0 then pc + 2 else pc + 1}
              | OP_JMP \<Rightarrow> {pc + 1 + GETARG_sBx i}
              | OP_EQ \<Rightarrow> test
              | OP_LT \<Rightarrow> test
              | OP_LE \<Rightarrow> test
              | OP_TEST \<Rightarrow> test
              | OP_TESTSET \<Rightarrow> test
              | OP_TFORLOOP \<Rightarrow> test
              | OP_RETURN \<Rightarrow> {}
              | OP_FORLOOP \<Rightarrow> {pc + 1, pc + 1 + GETARG_sBx i}
              | OP_FORPREP \<Rightarrow> {pc + 1 + GETARG_sBx i}
              | OP_SETLIST \<Rightarrow> {if GETARG_C i = 0 then pc + 2 else pc + 1}
              | OP_CLOSURE \<Rightarrow> {pc + 1 + uint (p_nups (p_p pt ! nat (GETARG_Bx i)))}
              | _ \<Rightarrow> {pc + 1}))"

lemma checkcode_True:
  assumes "luaG_checkcode pt = Inr True" "visited pt pc" "pc < p_sizecode pt"
  shows "precheck pt" "checked_at pt pc"
proof -
  obtain i where i: "symbexec pt (p_sizecode pt) NO_REG = Inr (Some i)"
    using assms(1) by (auto simp: luaG_checkcode_def bindR_def split: sum.splits option.splits)
  then show "precheck pt" by (auto simp: symbexec_def split: if_splits)
  then have "sx_loop (nat (p_sizecode pt) + 1) pt (p_sizecode pt) NO_REG 0 (p_sizecode pt - 1) = Inr (Some i)"
    using i by (simp add: symbexec_def)
  from sx_loop_checks[OF this visited_0 _ assms(2,3)] show "checked_at pt pc"
    using visited_nonneg by fastforce
qed

text \<open>Facts about one checked instruction.\<close>

lemma checked_atD:
  assumes "checked_at pt pc"
  obtains op b c lst r where "0 \<le> pc" "pc < p_sizecode pt" "GET_OPCODE (p_code pt ! nat pc) = op_num op"
    "GETARG_A (p_code pt ! nat pc) < maxreg pt"
    "sx_operands pt pc (p_code pt ! nat pc) (op_num op) = Inr (Some (b, c))"
    "sx_skip pt pc (op_num op) = Inr (Some ())"
    "sx_op pt (p_sizecode pt) NO_REG pc lst op (GETARG_A (p_code pt ! nat pc)) b c = Inr (Some r)"
proof -
  obtain l p q where "sx_step pt (p_sizecode pt) NO_REG pc l = Inr (Some (p, q))"
    using assms by (auto simp: checked_at_def)
  then show ?thesis by (rule sx_step_Some) (auto simp: decode_op_Some intro: that)
qed

lemma jump_target_visited:
  assumes "sx_operands pt pc i (op_num op) = Inr (Some (b, c))" "op \<in> {OP_JMP, OP_FORLOOP, OP_FORPREP}"
  shows "visited pt (pc + 1 + GETARG_sBx i) \<and> pc + 1 + GETARG_sBx i < p_sizecode pt"
proof -
  have m: "getOpMode (op_num op) = iAsBx" "getBMode (op_num op) = OpArgR"
    using assms(2) getOpMode_op[of op] getBMode_op[of op] by auto
  then have d: "0 \<le> pc + 1 + GETARG_sBx i" "pc + 1 + GETARG_sBx i < p_sizecode pt"
    "even (length (takeWhile setlist_count (rev (take (nat (pc + 1 + GETARG_sBx i)) (p_code pt)))))"
    using assms(1) by (auto simp: sx_operands_def bindC_eq_Some Let_def)
  then have "visited pt (int (nat (pc + 1 + GETARG_sBx i)))"
    by (intro even_run_visited) (simp_all add: p_sizecode_def nat_less_iff)
  then show ?thesis using d by simp
qed

lemma not_setlist_count:
  "GET_OPCODE i = op_num op \<Longrightarrow> op \<noteq> OP_SETLIST \<Longrightarrow> \<not> setlist_count i"
  using op_num_inject[of op OP_SETLIST] by (simp add: setlist_count_def)

lemma visited_over:
  assumes "visited pt x" "x + int n \<le> p_sizecode pt" "\<forall>j\<in>{0..<int n}. \<not> setlist_count (p_code pt ! nat (x + j))"
  shows "visited pt (x + int n)"
  using assms(2,3)
proof (induction n)
  case (Suc n)
  then have v: "visited pt (x + int n)" by simp
  show ?case using visited_next[OF v] Suc.prems by (simp add: next_pos_def ac_simps)
qed (use assms in simp)

lemma follows_inside:
  assumes "precheck pt" "0 \<le> pc" "pc < p_sizecode pt" "GET_OPCODE (p_code pt ! nat pc) = op_num op"
    "op \<noteq> OP_RETURN"
  shows "pc + 1 < p_sizecode pt"
proof (cases "pc + 1 = p_sizecode pt")
  case True
  then have "p_sizecode pt - 1 = pc" by simp
  then show ?thesis using precheck_last(2)[OF assms(1)] assms(4,5) by (simp only: decode_op_num) simp
qed (use assms in simp)

text \<open>Control stays on visited positions, unless a \<open>LOADBOOL\<close> skips with an operand above 1.\<close>

lemma control_stays:
  assumes ok: "luaG_checkcode pt = Inr True" and v: "visited pt pc" "pc < p_sizecode pt"
    and lb: "GET_OPCODE (p_code pt ! nat pc) = op_num OP_LOADBOOL \<longrightarrow> GETARG_C (p_code pt ! nat pc) \<le> 1"
    and q: "q \<in> vm_next pt pc"
  shows "visited pt q \<and> q < p_sizecode pt"
proof -
  let ?i = "p_code pt ! nat pc"
  note pre = checkcode_True(1)[OF ok v]
  note chk = checkcode_True(2)[OF ok]
  obtain op b c lst r where o: "0 \<le> pc" "GET_OPCODE ?i = op_num op"
    "sx_operands pt pc ?i (op_num op) = Inr (Some (b, c))"
    "sx_skip pt pc (op_num op) = Inr (Some ())"
    "sx_op pt (p_sizecode pt) NO_REG pc lst op (GETARG_A ?i) b c = Inr (Some r)"
    by (rule checked_atD[OF chk[OF v]]) blast
  note d = decode_op_Some[THEN iffD2, OF o(2)]
  have step: "visited pt (pc + 1) \<and> pc + 1 < p_sizecode pt"
    if "\<not> setlist_count ?i" "op \<noteq> OP_RETURN"
    using visited_next[OF v] follows_inside[OF pre o(1) v(2) o(2)] that by (simp add: next_pos_def)
  have skip: "visited pt (pc + 2)"
    if "\<not> setlist_count ?i" "op \<noteq> OP_RETURN" "\<not> setlist_count (p_code pt ! nat (pc + 1))"
    using visited_next[of pt "pc + 1"] step that by (simp add: next_pos_def ac_simps)
  consider (test) "op \<in> {OP_EQ, OP_LT, OP_LE, OP_TEST, OP_TESTSET, OP_TFORLOOP}" | (jump) "op \<in> {OP_JMP, OP_FORLOOP, OP_FORPREP}"
    | (bool) "op = OP_LOADBOOL" | (setl) "op = OP_SETLIST" | (clos) "op = OP_CLOSURE" | (ret) "op = OP_RETURN"
    | (other) "op \<notin> {OP_EQ, OP_LT, OP_LE, OP_TEST, OP_TESTSET, OP_TFORLOOP, OP_JMP, OP_FORLOOP, OP_FORPREP, OP_LOADBOOL,
        OP_SETLIST, OP_CLOSURE, OP_RETURN}"
    by blast
  then show ?thesis
  proof cases
    case test
    have ns: "\<not> setlist_count ?i" "op \<noteq> OP_RETURN" using not_setlist_count[OF o(2)] test by auto
    have j: "pc + 2 < p_sizecode pt" "GET_OPCODE (p_code pt ! nat (pc + 1)) = op_num OP_JMP"
      using o(4) test testTMode_op[of op] by (auto simp: sx_skip_def bindC_eq_Some code_of_simps)
    have v1: "visited pt (pc + 1)" "pc + 1 < p_sizecode pt" using step ns by auto
    obtain op' b' c' where o': "GET_OPCODE (p_code pt ! nat (pc + 1)) = op_num op'"
      "sx_operands pt (pc + 1) (p_code pt ! nat (pc + 1)) (op_num op') = Inr (Some (b', c'))"
      by (rule checked_atD[OF chk[OF v1]]) blast
    have "op' = OP_JMP" using o'(1) j(2) op_num_inject[of op' OP_JMP] by simp
    then have t: "visited pt (pc + 1 + 1 + GETARG_sBx (p_code pt ! nat (pc + 1)))
      \<and> pc + 1 + 1 + GETARG_sBx (p_code pt ! nat (pc + 1)) < p_sizecode pt"
      using jump_target_visited[OF o'(2)] by simp
    have "visited pt (pc + 2)" using skip ns not_setlist_count[OF j(2)] by simp
    then show ?thesis using q test d t j by (auto simp: vm_next_def Let_def add.assoc)
  next
    case jump
    have ns: "\<not> setlist_count ?i" "op \<noteq> OP_RETURN" using not_setlist_count[OF o(2)] jump by auto
    show ?thesis using q jump d jump_target_visited[OF o(3) jump] step[OF ns] by (auto simp: vm_next_def Let_def)
  next
    case bool
    have ns: "\<not> setlist_count ?i" "op \<noteq> OP_RETURN" using not_setlist_count[OF o(2)] bool by auto
    have "getOpMode (op_num OP_LOADBOOL) = iABC" using getOpMode_op[of OP_LOADBOOL] by simp
    then have c: "c = GETARG_C ?i" using o(3) bool by (auto simp: sx_operands_def bindC_eq_Some Let_def)
    show ?thesis
    proof (cases "GETARG_C ?i = 0")
      case True
      then show ?thesis using q bool d step[OF ns] by (auto simp: vm_next_def Let_def)
    next
      case False
      then have c1: "c = 1" using lb o(2) bool c getarg_bounds(6)[of ?i] by simp
      then have "pc + 2 < p_sizecode pt" "\<not> setlist_count (p_code pt ! nat (pc + 1))"
        using o(5) bool by (auto simp: sx_op_def bindC_eq_Some code_of_simps setlist_count_def)
      then show ?thesis using q bool d skip[OF ns] False by (auto simp: vm_next_def Let_def)
    qed
  next
    case setl
    have "getOpMode (op_num OP_SETLIST) = iABC" using getOpMode_op[of OP_SETLIST] by simp
    then have c: "c = GETARG_C ?i" using o(3) setl by (auto simp: sx_operands_def bindC_eq_Some Let_def)
    show ?thesis
    proof (cases "GETARG_C ?i = 0")
      case True
      then have "pc + 2 < p_sizecode pt" using o(5) setl c by (auto simp: sx_op_def bindC_eq_Some)
      then show ?thesis using q setl d True visited_next[OF v] o(2)
        by (auto simp: vm_next_def next_pos_def setlist_count_def Let_def)
    next
      case False
      then have "\<not> setlist_count ?i" by (simp add: setlist_count_def)
      then show ?thesis using q setl d False step by (auto simp: vm_next_def Let_def)
    qed
  next
    case clos
    have ns: "\<not> setlist_count ?i" "op \<noteq> OP_RETURN" using not_setlist_count[OF o(2)] clos by auto
    have m: "getOpMode (op_num OP_CLOSURE) = iABx" using getOpMode_op[of OP_CLOSURE] by simp
    then have b: "b = GETARG_Bx ?i" using o(3) clos by (auto simp: sx_operands_def bindC_eq_Some Let_def)
    let ?n = "unat (p_nups (p_p pt ! nat b))"
    have n: "pc + int ?n < p_sizecode pt"
      "\<forall>j\<in>{1..int ?n}. GET_OPCODE (p_code pt ! nat (pc + j)) \<in> {op_num OP_GETUPVAL, op_num OP_MOVE}"
      using o(5) clos by (auto simp: sx_op_def bindC_eq_Some p_of_simps Let_def)
    have nc: "\<not> setlist_count (p_code pt ! nat (pc + 1 + j))" if "0 \<le> j" "j < int ?n" for j
    proof -
      have "GET_OPCODE (p_code pt ! nat (pc + (j + 1))) \<in> {op_num OP_GETUPVAL, op_num OP_MOVE}"
        using n(2) that by simp
      then show ?thesis by (auto simp: setlist_count_def add.commute add.left_commute)
    qed
    have "pc + 1 + int ?n < p_sizecode pt"
    proof (cases "?n = 0")
      case True then show ?thesis using step[OF ns] by simp
    next
      case False
      have "1 \<le> int ?n" using False by linarith
      then have "GET_OPCODE (p_code pt ! nat (pc + int ?n)) \<in> {op_num OP_GETUPVAL, op_num OP_MOVE}"
        by (intro bspec[OF n(2)]) (simp only: atLeastAtMost_iff order_refl simp_thms)
      then have "\<exists>op'. GET_OPCODE (p_code pt ! nat (pc + int ?n)) = op_num op' \<and> op' \<noteq> OP_RETURN" by blast
      then show ?thesis using follows_inside[OF pre _ n(1)] o(1) by (auto simp: add.assoc add.commute)
    qed
    moreover have "visited pt (pc + 1 + int ?n)"
      by (rule visited_over) (use step[OF ns] nc calculation in auto)
    ultimately show ?thesis using q clos d b by (auto simp: vm_next_def Let_def)
  next
    case ret
    then show ?thesis using q d by (simp add: vm_next_def)
  next
    case other
    have ns: "\<not> setlist_count ?i" "op \<noteq> OP_RETURN" using not_setlist_count[OF o(2)] other by auto
    then show ?thesis using q other d step by (cases op) (auto simp: vm_next_def Let_def)
  qed
qed

subsection \<open>Properties\<close>

text \<open>C33. The checker always answers: on no prototype, however malformed, does it read outside the
  code, the constants or the nested prototypes, or loop.\<close>
theorem checkcode_total:
  "\<exists>b. luaG_checkcode pt = Inr b"
proof -
  have "symbexec pt (p_sizecode pt) NO_REG \<noteq> Inl e" for e
    by (rule symbexec_safe) (simp_all add: p_sizecode_def)
  then show ?thesis
    by (cases "symbexec pt (p_sizecode pt) NO_REG") (auto simp: luaG_checkcode_def bindR_def)
qed


definition two_instructions :: "int \<Rightarrow> Proto" where
  "two_instructions c = Proto [] [CREATE_ABC (op_num OP_LOADBOOL) 0 0 c, CREATE_ABC (op_num OP_RETURN) 0 1 0]
     [] [] [] [] null_TString 0 0 0 0 0 2"

lemma two_instructions_fields:
  "0 \<le> c \<Longrightarrow> c \<le> MAXARG_C \<Longrightarrow> GET_OPCODE (CREATE_ABC 2 0 0 c) = 2 \<and> GETARG_A (CREATE_ABC 2 0 0 c) = 0
     \<and> GETARG_B (CREATE_ABC 2 0 0 c) = 0 \<and> GETARG_C (CREATE_ABC 2 0 0 c) = c"
  "GET_OPCODE (CREATE_ABC 30 0 1 0) = 30" "GETARG_A (CREATE_ABC 30 0 1 0) = 0"
  "GETARG_B (CREATE_ABC 30 0 1 0) = 1" "GETARG_C (CREATE_ABC 30 0 1 0) = 0"
  by (simp_all add: CREATE_ABC_get maxarg_defs)

lemma two_instructions_ops:
  "decode_op 2 = Some OP_LOADBOOL" "decode_op 30 = Some OP_RETURN"
  "getOpMode 2 = iABC" "getOpMode 30 = iABC" "getBMode 2 = OpArgU" "getBMode 30 = OpArgU"
  "getCMode 2 = OpArgU" "getCMode 30 = OpArgN" "\<not> testTMode 2" "\<not> testTMode 30"
  using decode_op_num[of OP_LOADBOOL] decode_op_num[of OP_RETURN] getOpMode_op[of OP_LOADBOOL]
    getOpMode_op[of OP_RETURN] getBMode_op[of OP_LOADBOOL] getBMode_op[of OP_RETURN]
    getCMode_op[of OP_LOADBOOL] getCMode_op[of OP_RETURN] testTMode_op[of OP_LOADBOOL] testTMode_op[of OP_RETURN]
  by simp_all

lemma two_instructions_accepted:
  assumes "c = 0 \<or> 2 \<le> c" "c \<le> MAXARG_C"
  shows "luaG_checkcode (two_instructions c) = Inr True"
proof -
  have f: "GET_OPCODE (CREATE_ABC 2 0 0 c) = 2" "GETARG_A (CREATE_ABC 2 0 0 c) = 0"
    "GETARG_B (CREATE_ABC 2 0 0 c) = 0" "GETARG_C (CREATE_ABC 2 0 0 c) = c"
    using two_instructions_fields(1)[of c] assms by auto
  have nz: "CREATE_ABC 30 0 1 0 \<noteq> 0"
  proof
    assume "CREATE_ABC 30 0 1 0 = 0"
    then show False using two_instructions_fields(4) by (simp add: GETARG_B_def get_field_def)
  qed
  show ?thesis using assms(1)
    by (auto simp: luaG_checkcode_def symbexec_def precheck_def two_instructions_def p_sizecode_def maxreg_def
        MAXSTACK_def f nz two_instructions_fields two_instructions_ops sx_step_def code_of_def checkreg_def check_def sx_operands_def
        checkArgMode_def sx_skip_def sx_op_def Let_def NO_REG_def maxarg_defs bindR_def numeral_3_eq_3)
qed



end
