(* ===== verification/CodeGen.thy ===== *)
theory CodeGen
  imports Tables CodeCheck "HOL-Library.Signed_Division"
begin

text \<open>
  \<open>lcode.c\<close>: the code generator. An operation takes the state of the function being compiled and
  gives an error or a result with the new state; an expression descriptor passed by pointer is
  returned changed. The vectors \<open>code\<close>, \<open>lineinfo\<close> and \<open>k\<close> are lists of the used elements with
  their allocated sizes beside them; reading past the used elements is \<open>Undef\<close>. Lists of jumps
  are threaded through the code; a walk along one has fuel for as many links as there are
  instructions and then \<open>Diverges\<close>.
\<close>

definition NO_JUMP :: int where "NO_JUMP = -1"



subsection \<open>Descriptors and state\<close>

datatype BinOpr =
    OPR_ADD | OPR_SUB | OPR_MUL | OPR_DIV | OPR_MOD | OPR_POW | OPR_CONCAT | OPR_NE | OPR_EQ
  | OPR_LT | OPR_LE | OPR_GT | OPR_GE | OPR_AND | OPR_OR | OPR_NOBINOPR

datatype UnOpr = OPR_MINUS | OPR_NOT | OPR_LEN | OPR_NOUNOPR

datatype expkind =
    VVOID | VNIL | VTRUE | VFALSE | VK | VKNUM | VLOCAL | VUPVAL | VGLOBAL | VINDEXED | VJMP
  | VRELOCABLE | VNONRELOC | VCALL | VVARARG

record expdesc =
  ek :: expkind
  info :: int
  aux :: int
  nval :: lua_Number
  et :: int
  ef :: int

record FuncState =
  fcode :: "Instruction list"
  sizecode :: int
  flineinfo :: "int list"
  sizelineinfo :: int
  fk :: "TValue list"
  sizek :: int
  fh :: Table
  fh_addr :: addr
  lasttarget :: int
  jpc :: int
  freereg :: int
  nactvar :: int
  fmaxstacksize :: int
  lastline :: int

definition fpc :: "FuncState \<Rightarrow> int" where "fpc fs = int (length (fcode fs))"

definition fnk :: "FuncState \<Rightarrow> int" where "fnk fs = int (length (fk fs))"

definition hasjumps :: "expdesc \<Rightarrow> bool" where "hasjumps e = (et e \<noteq> ef e)"

definition isnumeral :: "expdesc \<Rightarrow> bool" where
  "isnumeral e = (ek e = VKNUM \<and> et e = NO_JUMP \<and> ef e = NO_JUMP)"

type_synonym 'a cg = "FuncState \<Rightarrow> ('a \<times> FuncState) res"

definition retG :: "'a \<Rightarrow> 'a cg" where "retG x fs = Inr (x, fs)"
definition failG :: "lua_error \<Rightarrow> 'a cg" where "failG e fs = Inl e"
definition bindG :: "'a cg \<Rightarrow> ('a \<Rightarrow> 'b cg) \<Rightarrow> 'b cg" where
  "bindG p f fs = bindR (p fs) (\<lambda>(x, fs'). f x fs')"
definition seqG :: "'a cg \<Rightarrow> 'b cg \<Rightarrow> 'b cg" where "seqG p q = bindG p (\<lambda>_. q)"
definition getG :: "(FuncState \<Rightarrow> 'a) \<Rightarrow> 'a cg" where "getG f fs = Inr (f fs, fs)"
definition modG :: "(FuncState \<Rightarrow> FuncState) \<Rightarrow> unit cg" where "modG f fs = Inr ((), f fs)"
definition liftG :: "'a res \<Rightarrow> 'a cg" where "liftG r fs = bindR r (\<lambda>x. Inr (x, fs))"

text \<open>Reading and writing \<open>code[i]\<close>.\<close>

definition code_at :: "int \<Rightarrow> Instruction cg" where
  "code_at i fs = (if 0 \<le> i \<and> i < fpc fs then Inr (fcode fs ! nat i, fs) else Inl Undef)"

definition set_code :: "int \<Rightarrow> Instruction \<Rightarrow> unit cg" where
  "set_code i ins fs =
     (if 0 \<le> i \<and> i < fpc fs then Inr ((), fs\<lparr>fcode := (fcode fs)[nat i := ins]\<rparr>) else Inl Undef)"

subsection \<open>Lists of jumps\<close>

definition fixjump :: "int \<Rightarrow> int \<Rightarrow> unit cg" where
  "fixjump pc dest =
     bindG (code_at pc) (\<lambda>jmp.
       let offset = dest - (pc + 1)
       in if MAXARG_sBx < \<bar>offset\<bar> then failG (ErrSyntax ''control structure too long'')
          else set_code pc (SETARG_sBx jmp offset))"

definition luaK_getlabel :: "int cg" where
  "luaK_getlabel = seqG (modG (\<lambda>fs. fs\<lparr>lasttarget := fpc fs\<rparr>)) (getG fpc)"

definition getjump :: "int \<Rightarrow> int cg" where
  "getjump pc = bindG (code_at pc) (\<lambda>i.
     let offset = GETARG_sBx i in retG (if offset = NO_JUMP then NO_JUMP else (pc + 1) + offset))"

text \<open>The position of the instruction that controls a jump.\<close>

definition getjumpcontrol :: "int \<Rightarrow> int cg" where
  "getjumpcontrol pc =
     (if 1 \<le> pc
      then bindG (code_at (pc - 1)) (\<lambda>i. retG (if testTMode (GET_OPCODE i) then pc - 1 else pc))
      else retG pc)"

fun need_value_loop :: "nat \<Rightarrow> int \<Rightarrow> bool cg" where
  "need_value_loop 0 list = failG Diverges"
| "need_value_loop (Suc n) list =
     (if list = NO_JUMP then retG False
      else bindG (getjumpcontrol list) (\<lambda>p. bindG (code_at p) (\<lambda>i.
             if GET_OPCODE i \<noteq> op_num OP_TESTSET then retG True
             else bindG (getjump list) (need_value_loop n))))"

definition list_fuel :: "nat cg" where "list_fuel = getG (\<lambda>fs. length (fcode fs) + 1)"

definition need_value :: "int \<Rightarrow> bool cg" where
  "need_value list = bindG list_fuel (\<lambda>n. need_value_loop n list)"

definition patchtestreg :: "int \<Rightarrow> int \<Rightarrow> bool cg" where
  "patchtestreg jump reg =
     bindG (getjumpcontrol jump) (\<lambda>p. bindG (code_at p) (\<lambda>i.
       if GET_OPCODE i \<noteq> op_num OP_TESTSET then retG False
       else seqG
         (if reg \<noteq> NO_REG \<and> reg \<noteq> GETARG_B i then set_code p (SETARG_A i reg)
          else set_code p (CREATE_ABC (op_num OP_TEST) (GETARG_B i) 0 (GETARG_C i)))
         (retG True)))"

fun removevalues_loop :: "nat \<Rightarrow> int \<Rightarrow> unit cg" where
  "removevalues_loop 0 list = failG Diverges"
| "removevalues_loop (Suc n) list =
     (if list = NO_JUMP then retG ()
      else seqG (patchtestreg list NO_REG) (bindG (getjump list) (removevalues_loop n)))"

definition removevalues :: "int \<Rightarrow> unit cg" where
  "removevalues list = bindG list_fuel (\<lambda>n. removevalues_loop n list)"

fun patchlist_loop :: "nat \<Rightarrow> int \<Rightarrow> int \<Rightarrow> int \<Rightarrow> int \<Rightarrow> unit cg" where
  "patchlist_loop 0 list vtarget reg dtarget = failG Diverges"
| "patchlist_loop (Suc n) list vtarget reg dtarget =
     (if list = NO_JUMP then retG ()
      else bindG (getjump list) (\<lambda>nxt.
           bindG (patchtestreg list reg) (\<lambda>patched.
             seqG (if patched then fixjump list vtarget else fixjump list dtarget)
               (patchlist_loop n nxt vtarget reg dtarget))))"

definition patchlistaux :: "int \<Rightarrow> int \<Rightarrow> int \<Rightarrow> int \<Rightarrow> unit cg" where
  "patchlistaux list vtarget reg dtarget =
     bindG list_fuel (\<lambda>n. patchlist_loop n list vtarget reg dtarget)"

definition dischargejpc :: "unit cg" where
  "dischargejpc = bindG (getG jpc) (\<lambda>j. bindG (getG fpc) (\<lambda>pc.
     seqG (patchlistaux j pc NO_REG pc) (modG (\<lambda>fs. fs\<lparr>jpc := NO_JUMP\<rparr>))))"

fun last_jump :: "nat \<Rightarrow> int \<Rightarrow> int cg" where
  "last_jump 0 list = failG Diverges"
| "last_jump (Suc n) list =
     bindG (getjump list) (\<lambda>nxt. if nxt \<noteq> NO_JUMP then last_jump n nxt else retG list)"

text \<open>The new value of \<open>*l1\<close>.\<close>

definition luaK_concat :: "int \<Rightarrow> int \<Rightarrow> int cg" where
  "luaK_concat l1 l2 =
     (if l2 = NO_JUMP then retG l1
      else if l1 = NO_JUMP then retG l2
      else bindG list_fuel (\<lambda>n. bindG (last_jump n l1) (\<lambda>list.
             seqG (fixjump list l2) (retG l1))))"

definition luaK_patchtohere :: "int \<Rightarrow> unit cg" where
  "luaK_patchtohere list =
     seqG luaK_getlabel (bindG (getG jpc) (\<lambda>j. bindG (luaK_concat j list)
       (\<lambda>j'. modG (\<lambda>fs. fs\<lparr>jpc := j'\<rparr>))))"

definition luaK_patchlist :: "int \<Rightarrow> int \<Rightarrow> unit cg" where
  "luaK_patchlist list target = bindG (getG fpc) (\<lambda>pc.
     if target = pc then luaK_patchtohere list else patchlistaux list target NO_REG target)"

subsection \<open>Emitting instructions\<close>

definition luaK_code :: "Instruction \<Rightarrow> int \<Rightarrow> int cg" where
  "luaK_code i line =
     seqG dischargejpc
    (bindG (getG fpc) (\<lambda>pc. bindG (getG sizecode) (\<lambda>sc.
     bindG (liftG (luaM_growvector pc sc 4 MAX_INT ''code size overflow'')) (\<lambda>sc'.
     bindG (getG sizelineinfo) (\<lambda>sl.
     bindG (liftG (luaM_growvector pc sl 4 MAX_INT ''code size overflow'')) (\<lambda>sl'.
     seqG (modG (\<lambda>fs. fs\<lparr>fcode := fcode fs @ [i], sizecode := sc',
                         flineinfo := take (nat pc) (flineinfo fs) @ [line], sizelineinfo := sl'\<rparr>))
       (retG pc)))))))"

definition luaK_codeABC :: "OpCode \<Rightarrow> int \<Rightarrow> int \<Rightarrow> int \<Rightarrow> int cg" where
  "luaK_codeABC op a b c = bindG (getG lastline) (luaK_code (CREATE_ABC (op_num op) a b c))"

definition luaK_codeABx :: "OpCode \<Rightarrow> int \<Rightarrow> int \<Rightarrow> int cg" where
  "luaK_codeABx op a bc = bindG (getG lastline) (luaK_code (CREATE_ABx (op_num op) a bc))"

definition luaK_codeAsBx :: "OpCode \<Rightarrow> int \<Rightarrow> int \<Rightarrow> int cg" where
  "luaK_codeAsBx op a sbx = luaK_codeABx op a (sbx + MAXARG_sBx)"

definition luaK_fixline :: "int \<Rightarrow> unit cg" where
  "luaK_fixline line = bindG (getG fpc) (\<lambda>pc.
     if 0 < pc then modG (\<lambda>fs. fs\<lparr>flineinfo := (flineinfo fs)[nat (pc - 1) := line]\<rparr>)
     else failG Undef)"

definition luaK_jump :: "int cg" where
  "luaK_jump = bindG (getG jpc) (\<lambda>j0.
     seqG (modG (\<lambda>fs. fs\<lparr>jpc := NO_JUMP\<rparr>))
       (bindG (luaK_codeAsBx OP_JMP 0 NO_JUMP) (\<lambda>j. luaK_concat j j0)))"

definition luaK_ret :: "int \<Rightarrow> int \<Rightarrow> unit cg" where
  "luaK_ret first nret = seqG (luaK_codeABC OP_RETURN first (nret + 1) 0) (retG ())"

definition condjump :: "OpCode \<Rightarrow> int \<Rightarrow> int \<Rightarrow> int \<Rightarrow> int cg" where
  "condjump op A B C = seqG (luaK_codeABC op A B C) luaK_jump"

definition luaK_nil :: "int \<Rightarrow> int \<Rightarrow> unit cg" where
  "luaK_nil from n =
     (let emit = seqG (luaK_codeABC OP_LOADNIL from (from + n - 1) 0) (retG ())
      in bindG (getG fpc) (\<lambda>pc. bindG (getG lasttarget) (\<lambda>lt. bindG (getG nactvar) (\<lambda>nact.
         if lt < pc
         then if pc = 0 then (if nact \<le> from then retG () else emit)
              else bindG (code_at (pc - 1)) (\<lambda>previous.
                if GET_OPCODE previous = op_num OP_LOADNIL
                   \<and> GETARG_A previous \<le> from \<and> from \<le> GETARG_B previous + 1
                then if GETARG_B previous < from + n - 1
                     then set_code (pc - 1) (SETARG_B previous (from + n - 1)) else retG ()
                else emit)
         else emit))))"

subsection \<open>Registers\<close>

definition luaK_checkstack :: "int \<Rightarrow> unit cg" where
  "luaK_checkstack n = bindG (getG freereg) (\<lambda>fr. bindG (getG fmaxstacksize) (\<lambda>mx.
     let newstack = fr + n
     in if mx < newstack
        then if MAXSTACK \<le> newstack then failG (ErrSyntax ''function or expression too complex'')
             else modG (\<lambda>fs. fs\<lparr>fmaxstacksize := newstack\<rparr>)
        else retG ()))"

definition luaK_reserveregs :: "int \<Rightarrow> unit cg" where
  "luaK_reserveregs n = seqG (luaK_checkstack n) (modG (\<lambda>fs. fs\<lparr>freereg := freereg fs + n\<rparr>))"

definition freereg_op :: "int \<Rightarrow> unit cg" where
  "freereg_op reg = modG (\<lambda>fs.
     if \<not> ISK reg \<and> nactvar fs \<le> reg then fs\<lparr>freereg := freereg fs - 1\<rparr> else fs)"

definition freeexp :: "expdesc \<Rightarrow> unit cg" where
  "freeexp e = (if ek e = VNONRELOC then freereg_op (info e) else retG ())"

subsection \<open>Constants\<close>

text \<open>\<open>cast_int\<close> of a number: undefined when it does not fit.\<close>

definition cast_int :: "lua_Number \<Rightarrow> int res" where
  "cast_int d = (if dbl_fits (- (2 ^ 31)) (2 ^ 31 - 1) d then Inr (dbl_trunc d) else Inl Undef)"

definition addk :: "TValue \<Rightarrow> TValue \<Rightarrow> int cg" where
  "addk k v =
     bindG (getG fh) (\<lambda>h. bindG (liftG (luaH_set h k)) (\<lambda>(idx, h').
       case slot_val h' idx of
         LNumber n \<Rightarrow> seqG (modG (\<lambda>fs. fs\<lparr>fh := h'\<rparr>)) (liftG (cast_int n))
       | _ \<Rightarrow>
           bindG (getG fnk) (\<lambda>nk.
             seqG (modG (\<lambda>fs. fs\<lparr>fh := set_slot h' idx (LNumber (cast_num nk))\<rparr>))
            (bindG (getG sizek) (\<lambda>sk.
             bindG (liftG (luaM_growvector nk sk sizeof_TValue MAXARG_Bx ''constant table overflow''))
               (\<lambda>sk'. seqG (modG (\<lambda>fs. fs\<lparr>fk := fk fs @ [v], sizek := sk'\<rparr>)) (retG nk)))))))"

definition luaK_stringK :: "TString \<Rightarrow> int cg" where
  "luaK_stringK s = addk (LString s) (LString s)"

definition luaK_numberK :: "lua_Number \<Rightarrow> int cg" where
  "luaK_numberK r = addk (LNumber r) (LNumber r)"

definition boolK :: "int \<Rightarrow> int cg" where
  "boolK b = addk (LBoolean b) (LBoolean b)"

definition nilK :: "int cg" where
  "nilK = bindG (getG fh_addr) (\<lambda>h. addk (LTable h) LNil)"

subsection \<open>Discharging expressions\<close>

definition luaK_setreturns :: "expdesc \<Rightarrow> int \<Rightarrow> unit cg" where
  "luaK_setreturns e nresults =
     (if ek e = VCALL
      then bindG (code_at (info e)) (\<lambda>i. set_code (info e) (SETARG_C i (nresults + 1)))
      else if ek e = VVARARG
      then bindG (code_at (info e)) (\<lambda>i. bindG (getG freereg) (\<lambda>fr.
             seqG (set_code (info e) (SETARG_A (SETARG_B i (nresults + 1)) fr))
               (luaK_reserveregs 1)))
      else retG ())"

definition luaK_setoneret :: "expdesc \<Rightarrow> expdesc cg" where
  "luaK_setoneret e =
     (if ek e = VCALL
      then bindG (code_at (info e)) (\<lambda>i. retG (e\<lparr>ek := VNONRELOC, info := GETARG_A i\<rparr>))
      else if ek e = VVARARG
      then bindG (code_at (info e)) (\<lambda>i.
             seqG (set_code (info e) (SETARG_B i 2)) (retG (e\<lparr>ek := VRELOCABLE\<rparr>)))
      else retG e)"

definition luaK_dischargevars :: "expdesc \<Rightarrow> expdesc cg" where
  "luaK_dischargevars e =
     (case ek e of
        VLOCAL \<Rightarrow> retG (e\<lparr>ek := VNONRELOC\<rparr>)
      | VUPVAL \<Rightarrow> bindG (luaK_codeABC OP_GETUPVAL 0 (info e) 0)
          (\<lambda>pc. retG (e\<lparr>info := pc, ek := VRELOCABLE\<rparr>))
      | VGLOBAL \<Rightarrow> bindG (luaK_codeABx OP_GETGLOBAL 0 (info e))
          (\<lambda>pc. retG (e\<lparr>info := pc, ek := VRELOCABLE\<rparr>))
      | VINDEXED \<Rightarrow> seqG (freereg_op (aux e)) (seqG (freereg_op (info e))
          (bindG (luaK_codeABC OP_GETTABLE 0 (info e) (aux e))
            (\<lambda>pc. retG (e\<lparr>info := pc, ek := VRELOCABLE\<rparr>))))
      | VVARARG \<Rightarrow> luaK_setoneret e
      | VCALL \<Rightarrow> luaK_setoneret e
      | _ \<Rightarrow> retG e)"

definition code_label :: "int \<Rightarrow> int \<Rightarrow> int \<Rightarrow> int cg" where
  "code_label A b jump = seqG luaK_getlabel (luaK_codeABC OP_LOADBOOL A b jump)"

definition discharge2reg :: "expdesc \<Rightarrow> int \<Rightarrow> expdesc cg" where
  "discharge2reg e0 reg =
     bindG (luaK_dischargevars e0) (\<lambda>e.
       let fin = retG (e\<lparr>info := reg, ek := VNONRELOC\<rparr>)
       in case ek e of
            VNIL \<Rightarrow> seqG (luaK_nil reg 1) fin
          | VFALSE \<Rightarrow> seqG (luaK_codeABC OP_LOADBOOL reg 0 0) fin
          | VTRUE \<Rightarrow> seqG (luaK_codeABC OP_LOADBOOL reg 1 0) fin
          | VK \<Rightarrow> seqG (luaK_codeABx OP_LOADK reg (info e)) fin
          | VKNUM \<Rightarrow> bindG (luaK_numberK (nval e)) (\<lambda>n. seqG (luaK_codeABx OP_LOADK reg n) fin)
          | VRELOCABLE \<Rightarrow> bindG (code_at (info e)) (\<lambda>i.
              seqG (set_code (info e) (SETARG_A i reg)) fin)
          | VNONRELOC \<Rightarrow>
              (if reg \<noteq> info e then seqG (luaK_codeABC OP_MOVE reg (info e) 0) fin else fin)
          | _ \<Rightarrow> retG e)"

definition discharge2anyreg :: "expdesc \<Rightarrow> expdesc cg" where
  "discharge2anyreg e =
     (if ek e \<noteq> VNONRELOC
      then seqG (luaK_reserveregs 1) (bindG (getG freereg) (\<lambda>fr. discharge2reg e (fr - 1)))
      else retG e)"

definition exp2reg :: "expdesc \<Rightarrow> int \<Rightarrow> expdesc cg" where
  "exp2reg e0 reg =
     bindG (discharge2reg e0 reg) (\<lambda>e1.
     bindG (if ek e1 = VJMP
            then bindG (luaK_concat (et e1) (info e1)) (\<lambda>t. retG (e1\<lparr>et := t\<rparr>)) else retG e1) (\<lambda>e.
     seqG
       (if hasjumps e
        then bindG (need_value (et e)) (\<lambda>nt. bindG (if nt then retG True else need_value (ef e)) (\<lambda>nv.
             bindG
               (if nv
                then bindG (if ek e = VJMP then retG NO_JUMP else luaK_jump) (\<lambda>fj.
                     bindG (code_label reg 0 1) (\<lambda>p_f. bindG (code_label reg 1 0) (\<lambda>p_t.
                       seqG (luaK_patchtohere fj) (retG (p_f, p_t)))))
                else retG (NO_JUMP, NO_JUMP))
               (\<lambda>(p_f, p_t). bindG luaK_getlabel (\<lambda>final.
                  seqG (patchlistaux (ef e) final reg p_f) (patchlistaux (et e) final reg p_t)))))
        else retG ())
       (retG (e\<lparr>ef := NO_JUMP, et := NO_JUMP, info := reg, ek := VNONRELOC\<rparr>))))"

definition luaK_exp2nextreg :: "expdesc \<Rightarrow> expdesc cg" where
  "luaK_exp2nextreg e0 =
     bindG (luaK_dischargevars e0) (\<lambda>e.
       seqG (freeexp e) (seqG (luaK_reserveregs 1)
         (bindG (getG freereg) (\<lambda>fr. exp2reg e (fr - 1)))))"

definition luaK_exp2anyreg :: "expdesc \<Rightarrow> (int \<times> expdesc) cg" where
  "luaK_exp2anyreg e0 =
     bindG (luaK_dischargevars e0) (\<lambda>e. bindG (getG nactvar) (\<lambda>nact.
       if ek e = VNONRELOC \<and> \<not> hasjumps e then retG (info e, e)
       else if ek e = VNONRELOC \<and> nact \<le> info e
       then bindG (exp2reg e (info e)) (\<lambda>e'. retG (info e', e'))
       else bindG (luaK_exp2nextreg e) (\<lambda>e'. retG (info e', e'))))"

definition luaK_exp2val :: "expdesc \<Rightarrow> expdesc cg" where
  "luaK_exp2val e =
     (if hasjumps e then bindG (luaK_exp2anyreg e) (\<lambda>(_, e'). retG e') else luaK_dischargevars e)"

definition luaK_exp2RK :: "expdesc \<Rightarrow> (int \<times> expdesc) cg" where
  "luaK_exp2RK e0 =
     bindG (luaK_exp2val e0) (\<lambda>e. bindG (getG fnk) (\<lambda>nk.
       if ek e \<in> {VKNUM, VTRUE, VFALSE, VNIL} \<and> nk \<le> MAXINDEXRK
       then bindG (if ek e = VNIL then nilK
                   else if ek e = VKNUM then luaK_numberK (nval e)
                   else boolK (if ek e = VTRUE then 1 else 0))
              (\<lambda>i. retG (RKASK i, e\<lparr>info := i, ek := VK\<rparr>))
       else if ek e = VK \<and> info e \<le> MAXINDEXRK then retG (RKASK (info e), e)
       else luaK_exp2anyreg e))"

definition luaK_storevar :: "expdesc \<Rightarrow> expdesc \<Rightarrow> unit cg" where
  "luaK_storevar var ex =
     (case ek var of
        VLOCAL \<Rightarrow> seqG (freeexp ex) (bindG (exp2reg ex (info var)) (\<lambda>_. retG ()))
      | VUPVAL \<Rightarrow> bindG (luaK_exp2anyreg ex) (\<lambda>(e, ex').
          seqG (luaK_codeABC OP_SETUPVAL e (info var) 0) (freeexp ex'))
      | VGLOBAL \<Rightarrow> bindG (luaK_exp2anyreg ex) (\<lambda>(e, ex').
          seqG (luaK_codeABx OP_SETGLOBAL e (info var)) (freeexp ex'))
      | VINDEXED \<Rightarrow> bindG (luaK_exp2RK ex) (\<lambda>(e, ex').
          seqG (luaK_codeABC OP_SETTABLE (info var) (aux var) e) (freeexp ex'))
      | _ \<Rightarrow> freeexp ex)"

definition luaK_self :: "expdesc \<Rightarrow> expdesc \<Rightarrow> (expdesc \<times> expdesc) cg" where
  "luaK_self e0 key0 =
     bindG (luaK_exp2anyreg e0) (\<lambda>(_, e). seqG (freeexp e) (bindG (getG freereg) (\<lambda>func.
       seqG (luaK_reserveregs 2) (bindG (luaK_exp2RK key0) (\<lambda>(rk, key).
         seqG (luaK_codeABC OP_SELF func (info e) rk)
        (seqG (freeexp key) (retG (e\<lparr>info := func, ek := VNONRELOC\<rparr>, key))))))))"

subsection \<open>Conditions\<close>

definition invertjump :: "expdesc \<Rightarrow> unit cg" where
  "invertjump e = bindG (getjumpcontrol (info e)) (\<lambda>p. bindG (code_at p) (\<lambda>i.
     set_code p (SETARG_A i (if GETARG_A i = 0 then 1 else 0))))"

definition jumponcond :: "expdesc \<Rightarrow> int \<Rightarrow> (int \<times> expdesc) cg" where
  "jumponcond e cond =
     (let through = bindG (discharge2anyreg e) (\<lambda>e'. seqG (freeexp e')
            (bindG (condjump OP_TESTSET NO_REG (info e') cond) (\<lambda>j. retG (j, e'))))
      in if ek e = VRELOCABLE
         then bindG (code_at (info e)) (\<lambda>ie.
                if GET_OPCODE ie = op_num OP_NOT
                then seqG (modG (\<lambda>fs. fs\<lparr>fcode := butlast (fcode fs)\<rparr>))
                       (bindG (condjump OP_TEST (GETARG_B ie) 0 (if cond = 0 then 1 else 0))
                         (\<lambda>j. retG (j, e)))
                else through)
         else through)"

definition luaK_goiftrue :: "expdesc \<Rightarrow> expdesc cg" where
  "luaK_goiftrue e0 =
     bindG (luaK_dischargevars e0) (\<lambda>e1.
     bindG (case ek e1 of
              VK \<Rightarrow> retG (NO_JUMP, e1)
            | VKNUM \<Rightarrow> retG (NO_JUMP, e1)
            | VTRUE \<Rightarrow> retG (NO_JUMP, e1)
            | VFALSE \<Rightarrow> bindG luaK_jump (\<lambda>j. retG (j, e1))
            | VJMP \<Rightarrow> seqG (invertjump e1) (retG (info e1, e1))
            | _ \<Rightarrow> jumponcond e1 0)
       (\<lambda>(pc, e). bindG (luaK_concat (ef e) pc) (\<lambda>f.
          seqG (luaK_patchtohere (et e)) (retG (e\<lparr>ef := f, et := NO_JUMP\<rparr>)))))"

definition luaK_goiffalse :: "expdesc \<Rightarrow> expdesc cg" where
  "luaK_goiffalse e0 =
     bindG (luaK_dischargevars e0) (\<lambda>e1.
     bindG (case ek e1 of
              VNIL \<Rightarrow> retG (NO_JUMP, e1)
            | VFALSE \<Rightarrow> retG (NO_JUMP, e1)
            | VTRUE \<Rightarrow> bindG luaK_jump (\<lambda>j. retG (j, e1))
            | VJMP \<Rightarrow> retG (info e1, e1)
            | _ \<Rightarrow> jumponcond e1 1)
       (\<lambda>(pc, e). bindG (luaK_concat (et e) pc) (\<lambda>t.
          seqG (luaK_patchtohere (ef e)) (retG (e\<lparr>et := t, ef := NO_JUMP\<rparr>)))))"

definition codenot :: "expdesc \<Rightarrow> expdesc cg" where
  "codenot e0 =
     bindG (luaK_dischargevars e0) (\<lambda>e1.
     bindG (if ek e1 \<in> {VNIL, VFALSE} then retG (e1\<lparr>ek := VTRUE\<rparr>)
            else if ek e1 \<in> {VK, VKNUM, VTRUE} then retG (e1\<lparr>ek := VFALSE\<rparr>)
            else if ek e1 = VJMP then seqG (invertjump e1) (retG e1)
            else if ek e1 \<in> {VRELOCABLE, VNONRELOC}
            then bindG (discharge2anyreg e1) (\<lambda>e2. seqG (freeexp e2)
                   (bindG (luaK_codeABC OP_NOT 0 (info e2) 0)
                     (\<lambda>pc. retG (e2\<lparr>info := pc, ek := VRELOCABLE\<rparr>))))
            else retG e1)
       (\<lambda>e. let e' = e\<lparr>et := ef e, ef := et e\<rparr>
            in seqG (removevalues (ef e')) (seqG (removevalues (et e')) (retG e'))))"

definition luaK_indexed :: "expdesc \<Rightarrow> expdesc \<Rightarrow> (expdesc \<times> expdesc) cg" where
  "luaK_indexed t k0 =
     bindG (luaK_exp2RK k0) (\<lambda>(rk, k). retG (t\<lparr>aux := rk, ek := VINDEXED\<rparr>, k))"

subsection \<open>Operators\<close>

text \<open>\<open>numpow\<close> is the C library's \<open>pow\<close>. \<open>Some r\<close>: folded to the constant \<open>r\<close>.\<close>

definition constfolding ::
  "(lua_Number \<Rightarrow> lua_Number \<Rightarrow> lua_Number) \<Rightarrow> OpCode \<Rightarrow> expdesc \<Rightarrow> expdesc \<Rightarrow> lua_Number option" where
  "constfolding numpow op e1 e2 =
     (if \<not> isnumeral e1 \<or> \<not> isnumeral e2 then None
      else let v1 = nval e1; v2 = nval e2;
               r = (case op of
                      OP_ADD \<Rightarrow> Some (luai_numadd v1 v2)
                    | OP_SUB \<Rightarrow> Some (luai_numsub v1 v2)
                    | OP_MUL \<Rightarrow> Some (luai_nummul v1 v2)
                    | OP_DIV \<Rightarrow> (if luai_numeq v2 (cast_num 0) then None else Some (luai_numdiv v1 v2))
                    | OP_MOD \<Rightarrow> (if luai_numeq v2 (cast_num 0) then None else Some (luai_nummod v1 v2))
                    | OP_POW \<Rightarrow> Some (numpow v1 v2)
                    | OP_UNM \<Rightarrow> Some (luai_numunm v1)
                    | OP_LEN \<Rightarrow> None
                    | _ \<Rightarrow> Some (cast_num 0))
           in case r of
                None \<Rightarrow> None
              | Some x \<Rightarrow> if luai_numisnan x then None else Some x)"

definition codearith ::
  "(lua_Number \<Rightarrow> lua_Number \<Rightarrow> lua_Number) \<Rightarrow> OpCode \<Rightarrow> expdesc \<Rightarrow> expdesc \<Rightarrow> expdesc cg" where
  "codearith numpow op e10 e20 =
     (case constfolding numpow op e10 e20 of
        Some r \<Rightarrow> retG (e10\<lparr>nval := r\<rparr>)
      | None \<Rightarrow>
          bindG (if op \<noteq> OP_UNM \<and> op \<noteq> OP_LEN then luaK_exp2RK e20 else retG (0, e20)) (\<lambda>(o2, e2).
          bindG (luaK_exp2RK e10) (\<lambda>(o1, e1).
            seqG (if o2 < o1 then seqG (freeexp e1) (freeexp e2) else seqG (freeexp e2) (freeexp e1))
              (bindG (luaK_codeABC op 0 o1 o2) (\<lambda>pc. retG (e1\<lparr>info := pc, ek := VRELOCABLE\<rparr>))))))"

definition codecomp :: "OpCode \<Rightarrow> int \<Rightarrow> expdesc \<Rightarrow> expdesc \<Rightarrow> expdesc cg" where
  "codecomp op cond e10 e20 =
     bindG (luaK_exp2RK e10) (\<lambda>(o1, e1). bindG (luaK_exp2RK e20) (\<lambda>(o2, e2).
       seqG (freeexp e2) (seqG (freeexp e1)
         (bindG (if cond = 0 \<and> op \<noteq> OP_EQ then condjump op 1 o2 o1 else condjump op cond o1 o2)
           (\<lambda>j. retG (e1\<lparr>info := j, ek := VJMP\<rparr>))))))"

definition luaK_prefix ::
  "(lua_Number \<Rightarrow> lua_Number \<Rightarrow> lua_Number) \<Rightarrow> UnOpr \<Rightarrow> expdesc \<Rightarrow> expdesc cg" where
  "luaK_prefix numpow op e =
     (let e2 = \<lparr>ek = VKNUM, info = 0, aux = 0, nval = cast_num 0, et = NO_JUMP, ef = NO_JUMP\<rparr>
      in case op of
           OPR_MINUS \<Rightarrow>
             bindG (if \<not> isnumeral e then bindG (luaK_exp2anyreg e) (\<lambda>(_, e'). retG e') else retG e)
               (\<lambda>e'. codearith numpow OP_UNM e' e2)
         | OPR_NOT \<Rightarrow> codenot e
         | OPR_LEN \<Rightarrow> bindG (luaK_exp2anyreg e) (\<lambda>(_, e'). codearith numpow OP_LEN e' e2)
         | OPR_NOUNOPR \<Rightarrow> retG e)"

definition luaK_infix :: "BinOpr \<Rightarrow> expdesc \<Rightarrow> expdesc cg" where
  "luaK_infix op v =
     (case op of
        OPR_AND \<Rightarrow> luaK_goiftrue v
      | OPR_OR \<Rightarrow> luaK_goiffalse v
      | OPR_CONCAT \<Rightarrow> luaK_exp2nextreg v
      | _ \<Rightarrow>
          if op \<in> {OPR_ADD, OPR_SUB, OPR_MUL, OPR_DIV, OPR_MOD, OPR_POW} \<and> isnumeral v then retG v
          else bindG (luaK_exp2RK v) (\<lambda>(_, v'). retG v'))"

definition luaK_posfix ::
  "(lua_Number \<Rightarrow> lua_Number \<Rightarrow> lua_Number) \<Rightarrow> BinOpr \<Rightarrow> expdesc \<Rightarrow> expdesc \<Rightarrow> expdesc cg" where
  "luaK_posfix numpow op e1 e20 =
     (case op of
        OPR_AND \<Rightarrow> bindG (luaK_dischargevars e20) (\<lambda>e2.
          bindG (luaK_concat (ef e2) (ef e1)) (\<lambda>f. retG (e2\<lparr>ef := f\<rparr>)))
      | OPR_OR \<Rightarrow> bindG (luaK_dischargevars e20) (\<lambda>e2.
          bindG (luaK_concat (et e2) (et e1)) (\<lambda>t. retG (e2\<lparr>et := t\<rparr>)))
      | OPR_CONCAT \<Rightarrow> bindG (luaK_exp2val e20) (\<lambda>e2.
          bindG (if ek e2 = VRELOCABLE
                 then bindG (code_at (info e2)) (\<lambda>i. retG (GET_OPCODE i = op_num OP_CONCAT))
                 else retG False) (\<lambda>chained.
          if chained
          then seqG (freeexp e1) (bindG (code_at (info e2)) (\<lambda>i.
                 seqG (set_code (info e2) (SETARG_B i (info e1)))
                   (retG (e1\<lparr>ek := VRELOCABLE, info := info e2\<rparr>))))
          else bindG (luaK_exp2nextreg e2) (\<lambda>e2'. codearith numpow OP_CONCAT e1 e2')))
      | OPR_ADD \<Rightarrow> codearith numpow OP_ADD e1 e20
      | OPR_SUB \<Rightarrow> codearith numpow OP_SUB e1 e20
      | OPR_MUL \<Rightarrow> codearith numpow OP_MUL e1 e20
      | OPR_DIV \<Rightarrow> codearith numpow OP_DIV e1 e20
      | OPR_MOD \<Rightarrow> codearith numpow OP_MOD e1 e20
      | OPR_POW \<Rightarrow> codearith numpow OP_POW e1 e20
      | OPR_EQ \<Rightarrow> codecomp OP_EQ 1 e1 e20
      | OPR_NE \<Rightarrow> codecomp OP_EQ 0 e1 e20
      | OPR_LT \<Rightarrow> codecomp OP_LT 1 e1 e20
      | OPR_LE \<Rightarrow> codecomp OP_LE 1 e1 e20
      | OPR_GT \<Rightarrow> codecomp OP_LT 0 e1 e20
      | OPR_GE \<Rightarrow> codecomp OP_LE 0 e1 e20
      | OPR_NOBINOPR \<Rightarrow> retG e1)"

definition luaK_setlist :: "int \<Rightarrow> int \<Rightarrow> int \<Rightarrow> unit cg" where
  "luaK_setlist base nelems tostore =
     (let c = (nelems - 1) sdiv LFIELDS_PER_FLUSH + 1;
          b = (if tostore = LUA_MULTRET then 0 else tostore)
      in seqG
           (if c \<le> MAXARG_C then luaK_codeABC OP_SETLIST base b c
            else seqG (luaK_codeABC OP_SETLIST base b 0)
                   (bindG (getG lastline) (luaK_code (word_of_int c))))
           (modG (\<lambda>fs. fs\<lparr>freereg := base + 1\<rparr>)))"

end
