(* ===== verification/Zio.thy ===== *)
theory Zio
  imports Memory
begin

text \<open>
  \<open>lzio.c\<close>: buffered input. The reader is a stream of chunks; a missing or an empty chunk is the end
  of the input. \<open>z_buf\<close> holds the bytes still unread in the current chunk (\<open>p\<close> and \<open>n\<close>).
\<close>

definition EOZ :: int where "EOZ = -1"
definition LUA_MINBUFFER :: nat where "LUA_MINBUFFER = 32"

record ZIO =
  z_buf :: "byte list"
  z_reader :: "byte list option list"

record Mbuffer =
  buffsize :: nat

definition luaZ_init :: "byte list option list \<Rightarrow> ZIO" where
  "luaZ_init reader = \<lparr>z_buf = [], z_reader = reader\<rparr>"

text \<open>A reader that has given its last chunk gives none for ever.\<close>

definition call_reader :: "ZIO \<Rightarrow> byte list option \<times> ZIO" where
  "call_reader z = (case z_reader z of
      [] \<Rightarrow> (None, z)
    | c # cs \<Rightarrow> (c, z\<lparr>z_reader := cs\<rparr>))"

definition luaZ_fill :: "ZIO \<Rightarrow> int \<times> ZIO" where
  "luaZ_fill z =
     (case call_reader z of
        (None, z') \<Rightarrow> (EOZ, z')
      | (Some [], z') \<Rightarrow> (EOZ, z')
      | (Some (b # bs), z') \<Rightarrow> (uint b, z'\<lparr>z_buf := bs\<rparr>))"

text \<open>
  At the end of the input the macro has counted \<open>n\<close> down from 0 to the largest \<open>size_t\<close>: the stream
  cannot be used any more (the next \<open>zgetc\<close> would read behind the last chunk), and there is none.
\<close>

definition zgetc :: "ZIO \<Rightarrow> int \<times> ZIO option" where
  "zgetc z = (case z_buf z of
      b # bs \<Rightarrow> (uint b, Some (z\<lparr>z_buf := bs\<rparr>))
    | [] \<Rightarrow> (case luaZ_fill z of (c, z') \<Rightarrow> (c, if c = EOZ then None else Some z')))"

text \<open>\<open>luaZ_fill\<close> has taken the first byte; it is put back.\<close>

definition luaZ_lookahead :: "ZIO \<Rightarrow> int \<times> ZIO" where
  "luaZ_lookahead z =
     (case z_buf z of
        b # bs \<Rightarrow> (uint b, z)
      | [] \<Rightarrow>
          (case luaZ_fill z of
             (c, z') \<Rightarrow> if c = EOZ then (EOZ, z') else (c, z'\<lparr>z_buf := word_of_int c # z_buf z'\<rparr>)))"

lemma luaZ_lookahead_buf:
  "luaZ_lookahead z = (c, z') \<Longrightarrow> c \<noteq> EOZ \<Longrightarrow> z_buf z' \<noteq> []"
  by (auto simp: luaZ_lookahead_def luaZ_fill_def call_reader_def EOZ_def
      split: list.splits option.splits prod.splits if_splits)

text \<open>The bytes read, the number of those missing, and the new state.\<close>

function luaZ_read :: "ZIO \<Rightarrow> nat \<Rightarrow> byte list \<times> nat \<times> ZIO" where
  "luaZ_read z n =
     (if n = 0 then ([], 0, z)
      else case luaZ_lookahead z of
        (c, z1) \<Rightarrow>
          if c = EOZ then ([], n, z1)
          else let m = (if n \<le> length (z_buf z1) then n else length (z_buf z1));
                   (bs, missing, z2) = luaZ_read (z1\<lparr>z_buf := drop m (z_buf z1)\<rparr>) (n - m)
               in (take m (z_buf z1) @ bs, missing, z2))"
  by pat_completeness auto
termination
proof (relation "measure (\<lambda>(z, n). n)", goal_cases)
  case (2 z n c z1)
  then have "z_buf z1 \<noteq> []" using luaZ_lookahead_buf[of z c z1] by metis
  then show ?case using 2 by simp
qed simp

declare luaZ_read.simps [simp del]

definition luaZ_resizebuffer :: "Mbuffer \<Rightarrow> nat \<Rightarrow> Mbuffer res" where
  "luaZ_resizebuffer b n = (if luaM_reallocv_ok (int n) 1 then Inr (b\<lparr>buffsize := n\<rparr>) else luaM_toobig)"

definition luaZ_openspace :: "Mbuffer \<Rightarrow> nat \<Rightarrow> Mbuffer res" where
  "luaZ_openspace b n =
     (if buffsize b < n then luaZ_resizebuffer b (if n < LUA_MINBUFFER then LUA_MINBUFFER else n)
      else Inr b)"

subsection \<open>The input as one sequence of bytes\<close>

fun reader_bytes :: "byte list option list \<Rightarrow> byte list" where
  "reader_bytes [] = []"
| "reader_bytes (None # cs) = []"
| "reader_bytes (Some [] # cs) = []"
| "reader_bytes (Some (b # bs) # cs) = (b # bs) @ reader_bytes cs"

definition pending :: "ZIO \<Rightarrow> byte list" where
  "pending z = z_buf z @ reader_bytes (z_reader z)"

lemma lookahead_pending:
  assumes "luaZ_lookahead z = (c, z')"
  shows "c \<noteq> EOZ \<Longrightarrow> pending z' = pending z \<and> pending z \<noteq> [] \<and> c = uint (hd (pending z))"
    and "c = EOZ \<Longrightarrow> pending z = []"
proof -
  have u: "uint (b::byte) \<noteq> -1" for b using uint_ge_0[of b] by linarith
  show "c \<noteq> EOZ \<Longrightarrow> pending z' = pending z \<and> pending z \<noteq> [] \<and> c = uint (hd (pending z))"
    "c = EOZ \<Longrightarrow> pending z = []"
    using assms u
    by (auto simp: luaZ_lookahead_def luaZ_fill_def call_reader_def EOZ_def pending_def
        split: list.splits option.splits prod.splits if_splits)
qed

lemma lookahead_EOZ_buf: "luaZ_lookahead z = (EOZ, z') \<Longrightarrow> z_buf z' = []"
proof -
  have u: "uint (b::byte) \<noteq> -1" for b using uint_ge_0[of b] by linarith
  show "luaZ_lookahead z = (EOZ, z') \<Longrightarrow> z_buf z' = []"
    using u by (auto simp: luaZ_lookahead_def luaZ_fill_def call_reader_def EOZ_def
        split: list.splits option.splits prod.splits if_splits)
qed

lemma luaZ_read_spec:
  "luaZ_read z n = (bs, missing, z') \<Longrightarrow>
     bs = take n (pending z) \<and> missing = n - length (pending z)
     \<and> (missing = 0 \<longrightarrow> pending z' = drop n (pending z))"
proof (induction z n arbitrary: bs missing z' rule: luaZ_read.induct)
  case (1 z n)
  show ?case
  proof (cases "n = 0")
    case True
    then show ?thesis using 1(2) by (simp add: luaZ_read.simps)
  next
    case False
    obtain c z1 where l: "luaZ_lookahead z = (c, z1)" by fastforce
    show ?thesis
    proof (cases "c = EOZ")
      case True
      then show ?thesis
        using 1(2) False l lookahead_pending(2)[OF l True] by (simp add: luaZ_read.simps[of z n])
    next
      case False
      note p = lookahead_pending(1)[OF l False]
      define m where "m = (if n \<le> length (z_buf z1) then n else length (z_buf z1))"
      let ?z2 = "z1\<lparr>z_buf := drop m (z_buf z1)\<rparr>"
      obtain bs2 mi z2 where r: "luaZ_read ?z2 (n - m) = (bs2, mi, z2)" by (metis prod_cases3)
      have res: "bs = take m (z_buf z1) @ bs2" "missing = mi" "z' = z2"
        using 1(2) \<open>n \<noteq> 0\<close> l False r by (simp_all add: luaZ_read.simps[of z n] m_def[symmetric])
      have ih: "bs2 = take (n - m) (pending ?z2) \<and> mi = (n - m) - length (pending ?z2)
          \<and> (mi = 0 \<longrightarrow> pending z2 = drop (n - m) (pending ?z2))"
        by (rule 1(1)[OF \<open>n \<noteq> 0\<close> l[symmetric] False m_def r])
      have m: "m \<le> length (z_buf z1)" "m \<le> n" by (auto simp: m_def)
      have d: "pending ?z2 = drop m (pending z)" "take m (z_buf z1) = take m (pending z)"
        using m conjunct1[OF p, symmetric] by (simp_all add: pending_def)
      have "m \<le> length (pending z1)" using m by (simp add: pending_def)
      then have lm: "m \<le> length (pending z)" using p by simp
      have t: "take m (pending z) @ take (n - m) (drop m (pending z)) = take n (pending z)"
        using take_add[of m "n - m" "pending z"] m by simp
      show ?thesis using ih res d t m lm by simp
    qed
  qed
qed

subsection \<open>The interface of a byte source\<close>

text \<open>What the loader of binary chunks relies on: reads take the pending bytes from the front.\<close>

locale byte_source =
  fixes read :: "'z \<Rightarrow> nat \<Rightarrow> byte list \<times> nat \<times> 'z"
    and rest :: "'z \<Rightarrow> byte list"
  assumes read_spec: "read z n = (bs, missing, z') \<Longrightarrow>
      bs = take n (rest z) \<and> missing = n - length (rest z) \<and> (missing = 0 \<longrightarrow> rest z' = drop n (rest z))"
begin

lemma read_exact:
  assumes "rest z = bs @ later"
  shows "\<exists>z'. read z (length bs) = (bs, 0, z') \<and> rest z' = later"
  using read_spec[of z "length bs"] assms by (cases "read z (length bs)") auto

lemma read_short:
  assumes "length (rest z) < n"
  shows "\<exists>z'. read z n = (rest z, n - length (rest z), z')"
  using read_spec[of z n] assms by (cases "read z n") auto

lemma read_all_or_missing: "read z n = (bs, missing, z') \<Longrightarrow> length bs + missing = n"
  using read_spec[of z n bs missing z'] by auto

lemma read_split:
  assumes "read z n = (xs, 0, z1)" "read z1 m = (ys, 0, z2)"
  shows "\<exists>z3. read z (n + m) = (xs @ ys, 0, z3) \<and> rest z3 = rest z2"
  using read_spec[OF assms(1)] read_spec[OF assms(2)] read_spec[of z "n + m"]
  by (cases "read z (n + m)") (auto simp: take_add[of n m] add.commute[of m n])

end

interpretation zio: byte_source luaZ_read pending
  by unfold_locales (rule luaZ_read_spec)

subsection \<open>Properties\<close>

text \<open>C36. \<open>luaZ_read\<close> sees through the cutting of the input into chunks: it gives the next bytes of
  the whole input and the number of those missing, and leaves what follows.\<close>
theorem read_through_chunks:
  "case luaZ_read z n of (bs, missing, z') \<Rightarrow>
     bs = take n (pending z) \<and> missing = n - length (pending z)
     \<and> pending z = bs @ (if missing = 0 then pending z' else [])"
  using zio.read_spec[of z n] by (auto split: prod.split)

end
