(* ===== verification/Chunks.thy ===== *)
theory Chunks
  imports StringTable Zio CodeCheck
begin

text \<open>
  \<open>ldump.c\<close> and \<open>lundump.c\<close>: writing a function prototype as a binary chunk and reading it back. The
  writer of the host is a parameter that takes a block of bytes; the sizes are those of the
  platform (4-byte integers and sizes, 8-byte numbers, little endian). The reader takes strings
  from the string table and checks the code of every prototype.
\<close>


subsection \<open>Machine words as bytes\<close>

definition le_bytes :: "nat \<Rightarrow> 'a::len word \<Rightarrow> byte list" where
  "le_bytes n w = map (\<lambda>i. ucast (drop_bit (8 * i) w)) [0..<n]"

fun le_word :: "byte list \<Rightarrow> 'a::len word" where
  "le_word [] = 0"
| "le_word (b # bs) = ucast b OR push_bit 8 (le_word bs)"

definition char_bytes :: "string \<Rightarrow> byte list" where "char_bytes s = map of_char s"

definition chars_of :: "byte list \<Rightarrow> string" where "chars_of bs = map (\<lambda>b. char_of (unat b)) bs"

subsection \<open>The header\<close>

definition LUA_SIGNATURE :: string where "LUA_SIGNATURE = CHR 0x1B # ''Lua''"
definition LUAC_VERSION :: byte where "LUAC_VERSION = 0x51"
definition LUAC_FORMAT :: byte where "LUAC_FORMAT = 0"
definition LUAC_HEADERSIZE :: nat where "LUAC_HEADERSIZE = 12"

definition luaU_header :: "byte list" where
  "luaU_header = char_bytes LUA_SIGNATURE @ [LUAC_VERSION, LUAC_FORMAT, 1, 4, 4, 4, 8, 0]"

subsection \<open>Writing\<close>

type_synonym 'd lua_Writer = "byte list \<Rightarrow> 'd \<Rightarrow> int \<times> 'd"

record 'd DumpState =
  d_data :: 'd
  d_strip :: bool
  d_status :: int

definition DumpBlock :: "'d lua_Writer \<Rightarrow> byte list \<Rightarrow> 'd DumpState \<Rightarrow> 'd DumpState" where
  "DumpBlock w b D =
     (if d_status D = 0
      then let (st, data) = w b (d_data D) in D\<lparr>d_status := st, d_data := data\<rparr> else D)"

definition DumpChar :: "'d lua_Writer \<Rightarrow> int \<Rightarrow> 'd DumpState \<Rightarrow> 'd DumpState" where
  "DumpChar w y = DumpBlock w [word_of_int y]"

definition DumpInt :: "'d lua_Writer \<Rightarrow> int \<Rightarrow> 'd DumpState \<Rightarrow> 'd DumpState" where
  "DumpInt w x = DumpBlock w (le_bytes 4 (word_of_int x :: u32))"

definition DumpNumber :: "'d lua_Writer \<Rightarrow> lua_Number \<Rightarrow> 'd DumpState \<Rightarrow> 'd DumpState" where
  "DumpNumber w x = DumpBlock w (le_bytes 8 x)"

definition DumpVector :: "'d lua_Writer \<Rightarrow> byte list \<Rightarrow> int \<Rightarrow> 'd DumpState \<Rightarrow> 'd DumpState" where
  "DumpVector w b n D = DumpBlock w b (DumpInt w n D)"

definition DumpString :: "'d lua_Writer \<Rightarrow> TString \<Rightarrow> 'd DumpState \<Rightarrow> 'd DumpState" where
  "DumpString w s D =
     (if ts_addr s = 0 then DumpBlock w (le_bytes 4 (0 :: u32)) D
      else DumpBlock w (char_bytes (ts_str s) @ [0])
             (DumpBlock w (le_bytes 4 (word_of_nat (ts_len s + 1) :: u32)) D))"

definition DumpCode :: "'d lua_Writer \<Rightarrow> Proto \<Rightarrow> 'd DumpState \<Rightarrow> 'd DumpState" where
  "DumpCode w f = DumpVector w (concat (map (le_bytes 4) (p_code f))) (int (length (p_code f)))"

definition DumpConstant :: "'d lua_Writer \<Rightarrow> TValue \<Rightarrow> 'd DumpState \<Rightarrow> 'd DumpState" where
  "DumpConstant w v D =
     (let D' = DumpChar w (ttype v) D
      in case v of
           LBoolean b \<Rightarrow> DumpChar w b D'
         | LNumber n \<Rightarrow> DumpNumber w n D'
         | LString s \<Rightarrow> DumpString w s D'
         | _ \<Rightarrow> D')"

definition DumpLocVar :: "'d lua_Writer \<Rightarrow> LocVar \<Rightarrow> 'd DumpState \<Rightarrow> 'd DumpState" where
  "DumpLocVar w v D = DumpInt w (endpc v) (DumpInt w (startpc v) (DumpString w (varname v) D))"

definition DumpDebug :: "'d lua_Writer \<Rightarrow> Proto \<Rightarrow> 'd DumpState \<Rightarrow> 'd DumpState" where
  "DumpDebug w f D =
     (let li = (if d_strip D then [] else p_lineinfo f);
          D1 = DumpVector w (concat (map (\<lambda>x. le_bytes 4 (word_of_int x :: u32)) li)) (int (length li)) D;
          lv = (if d_strip D then [] else p_locvars f);
          D2 = fold (DumpLocVar w) lv (DumpInt w (int (length lv)) D1);
          uv = (if d_strip D then [] else p_upvalues f)
      in fold (DumpString w) uv (DumpInt w (int (length uv)) D2))"

lemma size_p_p [termination_simp]: "q \<in> set (p_p f) \<Longrightarrow> size q < Suc (size f)"
  by (cases f) (auto dest: size_list_estimation'[where f = size, OF _ order_refl])

text \<open>\<open>DumpConstants\<close> is the middle part of \<open>DumpFunction\<close>, which it calls for the nested prototypes.\<close>

function DumpFunction :: "'d lua_Writer \<Rightarrow> Proto \<Rightarrow> TString \<Rightarrow> 'd DumpState \<Rightarrow> 'd DumpState" where
  "DumpFunction w f p D =
     (let D1 = DumpString w (if ts_addr (p_source f) = ts_addr p \<or> d_strip D then null_TString else p_source f) D;
          D2 = DumpInt w (p_lastlinedefined f) (DumpInt w (p_linedefined f) D1);
          D3 = DumpChar w (uint (p_maxstacksize f)) (DumpChar w (uint (p_is_vararg f))
                 (DumpChar w (uint (p_numparams f)) (DumpChar w (uint (p_nups f)) D2)));
          D4 = DumpCode w f D3;
          D5 = fold (DumpConstant w) (p_k f) (DumpInt w (int (length (p_k f))) D4);
          D6 = fold (\<lambda>q. DumpFunction w q (p_source f)) (p_p f) (DumpInt w (int (length (p_p f))) D5)
      in DumpDebug w f D6)"
  by pat_completeness auto
termination
proof (relation "measure (\<lambda>(w, f, p, D). size f)", goal_cases)
  case (2 w f p D q x)
  then show ?case by (cases f) (auto dest: size_list_estimation'[where f = size, OF _ order_refl])
qed simp

declare DumpFunction.simps [simp del]

definition luaU_dump :: "'d lua_Writer \<Rightarrow> Proto \<Rightarrow> 'd \<Rightarrow> bool \<Rightarrow> int \<times> 'd" where
  "luaU_dump w f data strip =
     (let D = DumpFunction w f null_TString
                (DumpBlock w luaU_header \<lparr>d_data = data, d_strip = strip, d_status = 0\<rparr>)
      in (d_status D, d_data D))"

subsection \<open>Reading\<close>

text \<open>
  What the reader changes: the input, the buffer for strings and the string table. The name of the
  chunk, for messages, does not change.
\<close>

record LoadState =
  ls_Z :: ZIO
  ls_b :: Mbuffer
  ls_g :: gstate
  ls_name :: string

type_synonym 'a load = "LoadState \<Rightarrow> ('a \<times> LoadState) res"

definition retL :: "'a \<Rightarrow> 'a load" where "retL x S = Inr (x, S)"
definition bindL :: "'a load \<Rightarrow> ('a \<Rightarrow> 'b load) \<Rightarrow> 'b load" where
  "bindL p f S = bindR (p S) (\<lambda>(x, S'). f x S')"

fun repeatL :: "nat \<Rightarrow> 'a load \<Rightarrow> 'a list load" where
  "repeatL 0 p = retL []"
| "repeatL (Suc n) p = bindL p (\<lambda>x. bindL (repeatL n p) (\<lambda>xs. retL (x # xs)))"

definition load_error :: "string \<Rightarrow> 'a load" where
  "load_error why S = Inl (ErrSyntax (ls_name S @ '': '' @ why @ '' in precompiled chunk''))"

definition IF :: "bool \<Rightarrow> string \<Rightarrow> unit load" where
  "IF c s = (if c then load_error s else retL ())"

definition LoadBlock :: "nat \<Rightarrow> byte list load" where
  "LoadBlock sz S =
     (case luaZ_read (ls_Z S) sz of
        (bs, r, z) \<Rightarrow> bindL (IF (r \<noteq> 0) ''unexpected end'') (\<lambda>_. retL bs) (S\<lparr>ls_Z := z\<rparr>))"

definition LoadChar :: "int load" where
  "LoadChar = bindL (LoadBlock 1) (\<lambda>bs. retL (sint (hd bs)))"

definition LoadByte :: "byte load" where
  "LoadByte = bindL LoadChar (\<lambda>x. retL (word_of_int x))"

definition LoadInt :: "int load" where
  "LoadInt = bindL (LoadBlock 4) (\<lambda>bs.
     let x = sint (le_word bs :: u32)
     in bindL (IF (x < 0) ''bad integer'') (\<lambda>_. retL x))"

definition LoadNumber :: "lua_Number load" where
  "LoadNumber = bindL (LoadBlock 8) (\<lambda>bs. retL (le_word bs))"

text \<open>The vector of \<open>n\<close> elements of \<open>e\<close> bytes is asked for; the allocator is taken to grant it.\<close>

definition newvector :: "int \<Rightarrow> nat \<Rightarrow> unit load" where
  "newvector n e S = (if luaM_reallocv_ok n e then Inr ((), S) else luaM_toobig)"

definition openspace :: "nat \<Rightarrow> unit load" where
  "openspace n S = bindR (luaZ_openspace (ls_b S) n) (\<lambda>b. Inr ((), S\<lparr>ls_b := b\<rparr>))"

definition intern :: "string \<Rightarrow> TString load" where
  "intern s S = (case luaS_newlstr s (ls_g S) of
      (Inl e, g) \<Rightarrow> Inl e
    | (Inr ts, g) \<Rightarrow> Inr (ts, S\<lparr>ls_g := g\<rparr>))"

definition LoadString :: "TString load" where
  "LoadString = bindL (LoadBlock 4) (\<lambda>bs.
     let sz = unat (le_word bs :: u32)
     in if sz = 0 then retL null_TString
        else bindL (openspace sz) (\<lambda>_. bindL (LoadBlock sz) (\<lambda>s.
               intern (chars_of (take (sz - 1) s)))))"

definition LoadCode :: "Instruction list load" where
  "LoadCode = bindL LoadInt (\<lambda>n. bindL (newvector n 4) (\<lambda>_. bindL (LoadBlock (nat n * 4)) (\<lambda>bs.
     retL (map (\<lambda>i. le_word (take 4 (drop (4 * i) bs))) [0..<nat n]))))"

definition LoadConstant :: "TValue load" where
  "LoadConstant = bindL LoadChar (\<lambda>t.
     if t = LUA_TNIL then retL LNil
     else if t = LUA_TBOOLEAN then bindL LoadChar (\<lambda>b. retL (LBoolean (if b \<noteq> 0 then 1 else 0)))
     else if t = LUA_TNUMBER then bindL LoadNumber (\<lambda>n. retL (LNumber n))
     else if t = LUA_TSTRING then bindL LoadString (\<lambda>s. retL (LString s))
     else load_error ''bad constant'')"

text \<open>\<open>LoadConstants\<close>; the reader of nested prototypes is an argument.\<close>

definition LoadConstants :: "Proto load \<Rightarrow> (TValue list \<times> Proto list) load" where
  "LoadConstants nested =
     bindL LoadInt (\<lambda>n. bindL (newvector n sizeof_TValue) (\<lambda>_. bindL (repeatL (nat n) LoadConstant) (\<lambda>k.
     bindL LoadInt (\<lambda>m. bindL (newvector m 4) (\<lambda>_. bindL (repeatL (nat m) nested) (\<lambda>p.
       retL (k, p)))))))"

definition LoadLocVar :: "LocVar load" where
  "LoadLocVar = bindL LoadString (\<lambda>s. bindL LoadInt (\<lambda>a. bindL LoadInt (\<lambda>b.
     retL \<lparr>varname = s, startpc = a, endpc = b\<rparr>)))"

definition LoadLineinfo :: "int list load" where
  "LoadLineinfo = bindL LoadInt (\<lambda>n. bindL (newvector n 4) (\<lambda>_. bindL (LoadBlock (nat n * 4)) (\<lambda>bs.
     retL (map (\<lambda>i. sint (le_word (take 4 (drop (4 * i) bs)) :: u32)) [0..<nat n]))))"

definition LoadDebug :: "(int list \<times> LocVar list \<times> TString list) load" where
  "LoadDebug =
     bindL LoadLineinfo (\<lambda>li.
     bindL LoadInt (\<lambda>n. bindL (newvector n 12) (\<lambda>_. bindL (repeatL (nat n) LoadLocVar) (\<lambda>lv.
     bindL LoadInt (\<lambda>m. bindL (newvector m 4) (\<lambda>_. bindL (repeatL (nat m) LoadString) (\<lambda>uv.
       retL (li, lv, uv))))))))"

text \<open>
  The first argument is how many more nested calls \<open>LUAI_MAXCCALLS\<close> allows: the call that raises
  \<open>nCcalls\<close> past it is an error.
\<close>

fun LoadFunction :: "nat \<Rightarrow> TString \<Rightarrow> Proto load" where
  "LoadFunction 0 p = load_error ''code too deep''"
| "LoadFunction (Suc calls) p =
     bindL LoadString (\<lambda>src0. let src = (if ts_addr src0 = 0 then p else src0) in
     bindL LoadInt (\<lambda>ld. bindL LoadInt (\<lambda>lld.
     bindL LoadByte (\<lambda>nups. bindL LoadByte (\<lambda>np. bindL LoadByte (\<lambda>va. bindL LoadByte (\<lambda>ms.
     bindL LoadCode (\<lambda>code. bindL (LoadConstants (LoadFunction calls src)) (\<lambda>(k, ps).
     bindL LoadDebug (\<lambda>(li, lv, uv).
       let f = Proto k code ps li lv uv src ld lld nups np va ms
       in bindL (\<lambda>S. bindR (luaG_checkcode f) (\<lambda>ok. Inr (ok, S))) (\<lambda>ok.
          bindL (IF (\<not> ok) ''bad code'') (\<lambda>_. retL f))))))))))))"

definition LoadHeader :: "unit load" where
  "LoadHeader = bindL (LoadBlock LUAC_HEADERSIZE) (\<lambda>s. IF (luaU_header \<noteq> s) ''bad header'')"

definition chunk_name :: "string \<Rightarrow> string" where
  "chunk_name name =
     (case name of
        [] \<Rightarrow> []
      | c # cs \<Rightarrow> if c = CHR ''@'' \<or> c = CHR ''='' then cs
                 else if c = CHR 0x1B then ''binary string'' else name)"

definition luaU_undump :: "nat \<Rightarrow> ZIO \<Rightarrow> Mbuffer \<Rightarrow> string \<Rightarrow> gstate \<Rightarrow> (Proto \<times> LoadState) res" where
  "luaU_undump nCcalls z buff name g =
     bindL LoadHeader (\<lambda>_. bindL (intern ''=?'') (LoadFunction (LUAI_MAXCCALLS - nCcalls)))
       \<lparr>ls_Z = z, ls_b = buff, ls_g = g, ls_name = chunk_name name\<rparr>"

end
