(* ===== verification/ChunkLaws.thy ===== *)
theory ChunkLaws
  imports Chunks "HOL-Library.Sublist"
begin

text \<open>
  Laws of the binary chunks: what the writer sends, block by block; the reader as the inverse of the
  writer; the reader on a truncated chunk. The reader is proved with a rule per routine
  (\<open>parses\<close>), composed as the reader is composed.
\<close>

subsection \<open>Bytes of a word\<close>

lemma bit_le_word:
  "bit (le_word bs :: 'a::len word) n \<longleftrightarrow>
     n < LENGTH('a) \<and> n < 8 * length bs \<and> bit (bs ! (n div 8)) (n mod 8)"
proof (induction bs arbitrary: n)
  case (Cons b bs)
  have e: "n \<ge> 8 \<Longrightarrow> n div 8 = Suc ((n - 8) div 8) \<and> n mod 8 = (n - 8) mod 8"
    by (metis Suc_eq_plus1 add.commute le_add_diff_inverse div_add_self1 mod_add_self1 zero_neq_numeral)
  show ?case
  proof (cases "n < 8")
    case True
    then show ?thesis
      by (auto simp: bit_or_iff bit_push_bit_iff bit_ucast_iff Cons.IH)
  next
    case False
    then have "\<not> bit b n" using bit_imp_le_length[of b n] by auto
    then show ?thesis using False e
      by (auto simp: bit_or_iff bit_push_bit_iff bit_ucast_iff Cons.IH)
  qed
qed simp

lemma length_le_bytes [simp]: "length (le_bytes n w) = n"
  by (simp add: le_bytes_def)

lemma le_word_bytes:
  assumes "LENGTH('a) \<le> 8 * n"
  shows "le_word (le_bytes n w) = (w :: 'a::len word)"
proof (rule bit_word_eqI)
  fix i assume i: "i < LENGTH('a)"
  then have "i div 8 < n" using assms by simp
  then show "bit (le_word (le_bytes n w) :: 'a word) i = bit w i"
    using i assms by (auto simp: bit_le_word le_bytes_def bit_ucast_iff bit_drop_bit_eq)
qed

lemma le_word_int: "le_word (le_bytes 4 w) = (w :: u32)"
  and le_word_num: "le_word (le_bytes 8 x) = (x :: 64 word)"
  by (simp_all add: le_word_bytes)

lemma sint_small:
  assumes "- (2 ^ 31) \<le> x" "x < 2 ^ 31"
  shows "sint (word_of_int x :: u32) = x"
  using assms by (simp add: sint_sbintrunc' signed_take_bit_int_eq_self)

lemma char_of_unat: "char_of (unat (of_char c :: byte)) = c"
proof -
  have "unat (of_char c :: byte) = unat (word_of_nat (of_char c) :: byte)" by (simp add: of_nat_of_char)
  also have "\<dots> = of_char c mod 256" by (simp only: unat_of_nat) simp
  finally show ?thesis by simp
qed

lemma chars_of_char_bytes: "chars_of (char_bytes s) = s"
  by (induction s) (auto simp: chars_of_def char_bytes_def char_of_unat)

lemma chunks_of_concat:
  assumes "\<forall>x\<in>set xs. length (e x) = 4"
  shows "map (\<lambda>i. f (take 4 (drop (4 * i) (concat (map e xs))))) [0..<length xs] = map (f \<circ> e) xs"
  using assms
proof (induction xs)
  case (Cons x xs)
  have "map (\<lambda>i. f (take 4 (drop (4 * i) (concat (map e (x # xs)))))) [0..<length (x # xs)]
      = f (e x) # map (\<lambda>i. f (take 4 (drop (4 * i) (concat (map e xs))))) [0..<length xs]"
    using Cons.prems by (simp add: upt_conv_Cons map_Suc_upt[symmetric] del: upt_Suc)
  then show ?case using Cons by simp
qed simp

subsection \<open>The blocks of a chunk\<close>

text \<open>The blocks the writer is given, in order; the chunk is their concatenation.\<close>

definition int_blocks :: "int \<Rightarrow> byte list list" where
  "int_blocks x = [le_bytes 4 (word_of_int x :: u32)]"

definition string_blocks :: "TString \<Rightarrow> byte list list" where
  "string_blocks s =
     (if ts_addr s = 0 then [le_bytes 4 (0 :: u32)]
      else [le_bytes 4 (word_of_nat (ts_len s + 1) :: u32), char_bytes (ts_str s) @ [0]])"

definition code_blocks :: "Instruction list \<Rightarrow> byte list list" where
  "code_blocks c = int_blocks (int (length c)) @ [concat (map (le_bytes 4) c)]"

definition const_blocks :: "TValue \<Rightarrow> byte list list" where
  "const_blocks v = [word_of_int (ttype v)] # (case v of
       LBoolean b \<Rightarrow> [[word_of_int b]]
     | LNumber n \<Rightarrow> [le_bytes 8 n]
     | LString s \<Rightarrow> string_blocks s
     | _ \<Rightarrow> [])"

definition locvar_blocks :: "LocVar \<Rightarrow> byte list list" where
  "locvar_blocks v = string_blocks (varname v) @ int_blocks (startpc v) @ int_blocks (endpc v)"

definition line_bytes :: "int \<Rightarrow> byte list" where
  "line_bytes x = le_bytes 4 (word_of_int x :: u32)"

definition debug_blocks :: "int list \<Rightarrow> LocVar list \<Rightarrow> TString list \<Rightarrow> byte list list" where
  "debug_blocks li lv uv =
     int_blocks (int (length li)) @ [concat (map line_bytes li)]
     @ int_blocks (int (length lv)) @ concat (map locvar_blocks lv)
     @ int_blocks (int (length uv)) @ concat (map string_blocks uv)"

fun function_blocks :: "bool \<Rightarrow> TString \<Rightarrow> Proto \<Rightarrow> byte list list" where
  "function_blocks strip p (Proto k code ps li lv uv src ld lld nups np va ms) =
     string_blocks (if ts_addr src = ts_addr p \<or> strip then null_TString else src)
     @ int_blocks ld @ int_blocks lld @ [[nups], [np], [va], [ms]]
     @ code_blocks code
     @ int_blocks (int (length k)) @ concat (map const_blocks k)
     @ int_blocks (int (length ps)) @ concat (map (function_blocks strip src) ps)
     @ (if strip then debug_blocks [] [] [] else debug_blocks li lv uv)"

definition chunk_blocks :: "bool \<Rightarrow> Proto \<Rightarrow> byte list list" where
  "chunk_blocks strip f = luaU_header # function_blocks strip null_TString f"

subsection \<open>The writer sends the blocks\<close>

text \<open>A writer is fed blocks until it answers with something other than 0.\<close>

fun feed :: "'d lua_Writer \<Rightarrow> byte list list \<Rightarrow> 'd \<Rightarrow> int \<times> 'd" where
  "feed w [] d = (0, d)"
| "feed w (b # bs) d = (case w b d of (st, d') \<Rightarrow> if st = 0 then feed w bs d' else (st, d'))"

lemma blocks_stop: "d_status D \<noteq> 0 \<Longrightarrow> fold (DumpBlock w) bs D = D"
  by (induction bs) (simp_all add: DumpBlock_def)

lemma blocks_feed:
  "d_status D = 0 \<Longrightarrow>
     fold (DumpBlock w) bs D = (case feed w bs (d_data D) of (st, d) \<Rightarrow> D\<lparr>d_status := st, d_data := d\<rparr>)"
proof (induction bs arbitrary: D)
  case (Cons b bs)
  obtain st d where w: "w b (d_data D) = (st, d)" by fastforce
  show ?case
  proof (cases "st = 0")
    case True
    then show ?thesis using Cons.IH[of "D\<lparr>d_status := 0, d_data := d\<rparr>"] Cons.prems w
      by (simp add: DumpBlock_def split: prod.splits)
  next
    case False
    have "DumpBlock w b D = D\<lparr>d_status := st, d_data := d\<rparr>" using Cons.prems w by (simp add: DumpBlock_def)
    then show ?thesis using False w blocks_stop[of "D\<lparr>d_status := st, d_data := d\<rparr>" w bs] by simp
  qed
qed simp

lemma fold_fold: "(\<And>x. x \<in> set xs \<Longrightarrow> g x = fold f (e x)) \<Longrightarrow> fold g xs = fold f (concat (map e xs))"
  by (induction xs) (simp_all add: fun_eq_iff)

lemma block_strip: "d_strip (fold (DumpBlock w) bs D) = d_strip D"
  by (induction bs arbitrary: D) (simp_all add: DumpBlock_def split: prod.splits)

lemma block_strip1: "d_strip (DumpBlock w b D) = d_strip D"
  using block_strip[of w "[b]" D] by simp

lemma dump_basic:
  "DumpInt w x = fold (DumpBlock w) (int_blocks x)"
  "DumpChar w y = fold (DumpBlock w) [[word_of_int y]]"
  "DumpNumber w n = fold (DumpBlock w) [le_bytes 8 n]"
  "DumpString w s = fold (DumpBlock w) (string_blocks s)"
  "DumpConstant w v = fold (DumpBlock w) (const_blocks v)"
  "DumpLocVar w lv = fold (DumpBlock w) (locvar_blocks lv)"
proof -
  show i: "DumpInt w x = fold (DumpBlock w) (int_blocks x)" for x
    by (simp add: DumpInt_def int_blocks_def fun_eq_iff)
  show c: "DumpChar w y = fold (DumpBlock w) [[word_of_int y]]" for y
    by (simp add: DumpChar_def fun_eq_iff)
  show n: "DumpNumber w n = fold (DumpBlock w) [le_bytes 8 n]" for n
    by (simp add: DumpNumber_def fun_eq_iff)
  show s: "DumpString w s = fold (DumpBlock w) (string_blocks s)" for s
    by (simp add: DumpString_def string_blocks_def fun_eq_iff)
  show "DumpConstant w v = fold (DumpBlock w) (const_blocks v)"
    by (cases v) (simp_all add: DumpConstant_def const_blocks_def c n s fun_eq_iff)
  show "DumpLocVar w lv = fold (DumpBlock w) (locvar_blocks lv)"
    by (simp add: DumpLocVar_def locvar_blocks_def i s fun_eq_iff)
qed

lemma dump_code: "DumpCode w f = fold (DumpBlock w) (code_blocks (p_code f))"
  by (simp add: DumpCode_def DumpVector_def code_blocks_def dump_basic fun_eq_iff)

lemma dump_debug:
  "DumpDebug w f D = fold (DumpBlock w)
     (if d_strip D then debug_blocks [] [] []
      else debug_blocks (p_lineinfo f) (p_locvars f) (p_upvalues f)) D"
proof -
  have l: "fold (DumpLocVar w) xs = fold (DumpBlock w) (concat (map locvar_blocks xs))" for xs
    by (rule fold_fold) (simp add: dump_basic)
  have u: "fold (DumpString w) xs = fold (DumpBlock w) (concat (map string_blocks xs))" for xs
    by (rule fold_fold) (simp add: dump_basic)
  have b: "(\<lambda>x. le_bytes 4 (word_of_int x :: u32)) = line_bytes"
    by (simp add: line_bytes_def fun_eq_iff)
  show ?thesis
    by (simp add: DumpDebug_def DumpVector_def debug_blocks_def l u dump_basic b Let_def)
qed

lemma fold_cong_inv:
  "I D \<Longrightarrow> (\<And>x D. x \<in> set xs \<Longrightarrow> I D \<Longrightarrow> g x D = h x D \<and> I (h x D)) \<Longrightarrow> fold g xs D = fold h xs D"
  by (induction xs arbitrary: D) auto

lemma dump_function:
  "DumpFunction w f p D = fold (DumpBlock w) (function_blocks (d_strip D) p f) D"
proof (induction "d_strip D" p f arbitrary: D rule: function_blocks.induct)
  case (1 p k code ps li lv uv src ld lld nups np va ms)
  have nest: "fold (\<lambda>q. DumpFunction w q src) ps D' =
      fold (DumpBlock w) (concat (map (function_blocks (d_strip D) src) ps)) D'"
    if "d_strip D' = d_strip D" for D'
  proof -
    have "fold (\<lambda>q. DumpFunction w q src) ps D' =
        fold (\<lambda>q. fold (DumpBlock w) (function_blocks (d_strip D) src q)) ps D'"
      using that 1 by (intro fold_cong_inv[where I = "\<lambda>E. d_strip E = d_strip D"]) (auto simp: block_strip)
    also have "\<dots> = fold (DumpBlock w) (concat (map (function_blocks (d_strip D) src) ps)) D'"
      by (rule fun_cong[OF fold_fold]) simp
    finally show ?thesis .
  qed
  have k: "fold (DumpConstant w) k = fold (DumpBlock w) (concat (map const_blocks k))"
    by (rule fold_fold) (simp add: dump_basic)
  show ?case
    by (simp add: DumpFunction.simps Let_def dump_basic dump_code dump_debug k nest block_strip block_strip1)
qed

lemma luaU_dump_feed: "luaU_dump w f d strip = feed w (chunk_blocks strip f) d"
proof -
  have "DumpFunction w f null_TString (DumpBlock w luaU_header \<lparr>d_data = d, d_strip = strip, d_status = 0\<rparr>)
      = fold (DumpBlock w) (chunk_blocks strip f) \<lparr>d_data = d, d_strip = strip, d_status = 0\<rparr>"
    by (simp add: block_strip1 dump_function chunk_blocks_def)
  then show ?thesis by (simp add: luaU_dump_def blocks_feed split: prod.splits)
qed

text \<open>The writer of \<open>string.dump\<close> (\<open>lstrlib.c\<close>) collects the blocks.\<close>

definition collector :: "byte list lua_Writer" where
  "collector b d = (0, d @ b)"

lemma feed_collector: "feed collector bs d = (0, d @ concat bs)"
  by (induction bs arbitrary: d) (simp_all add: collector_def)

subsection \<open>Rules for the reader\<close>

text \<open>The state a reader starts from: a well-formed string table with the strings \<open>I\<close>, and the chunk's
  name. The reader keeps both.\<close>

definition ready :: "TString set \<Rightarrow> string \<Rightarrow> LoadState \<Rightarrow> bool" where
  "ready I nm S = (strt_wf (ls_g S) \<and> interned (ls_g S) = I \<and> ls_name S = nm)"

definition cut_error :: "string \<Rightarrow> lua_error" where
  "cut_error nm = ErrSyntax (nm @ '': '' @ ''unexpected end'' @ '' in precompiled chunk'')"

text \<open>\<open>parses I nm m bs x\<close>: with \<open>bs\<close> at the front of the input, \<open>m\<close> takes exactly \<open>bs\<close> and gives \<open>x\<close>;
  when the input ends before \<open>bs\<close> does, \<open>m\<close> reports it.\<close>

definition parses :: "TString set \<Rightarrow> string \<Rightarrow> 'a load \<Rightarrow> byte list \<Rightarrow> 'a \<Rightarrow> bool" where
  "parses I nm m bs x =
     ((\<forall>S later. ready I nm S \<longrightarrow> pending (ls_Z S) = bs @ later \<longrightarrow>
         (\<exists>S'. m S = Inr (x, S') \<and> ready I nm S' \<and> pending (ls_Z S') = later))
      \<and> (\<forall>S. ready I nm S \<longrightarrow> strict_prefix (pending (ls_Z S)) bs \<longrightarrow> m S = Inl (cut_error nm)))"

lemma parses_ret: "parses I nm (retL x) [] x"
  by (simp add: parses_def retL_def)

lemma parses_step:
  assumes "\<And>S. ready I nm S \<Longrightarrow> \<exists>S'. m S = Inr (x, S') \<and> ready I nm S' \<and> ls_Z S' = ls_Z S"
  shows "parses I nm m [] x"
  using assms by (fastforce simp: parses_def)

lemma parsesD:
  assumes "parses I nm m bs x" "ready I nm S" "pending (ls_Z S) = bs @ later"
  obtains S' where "m S = Inr (x, S')" "ready I nm S'" "pending (ls_Z S') = later"
  using assms unfolding parses_def by blast

lemma parses_cutD:
  "parses I nm m bs x \<Longrightarrow> ready I nm S \<Longrightarrow> strict_prefix (pending (ls_Z S)) bs \<Longrightarrow> m S = Inl (cut_error nm)"
  by (simp add: parses_def)

lemma parses_bind:
  assumes m: "parses I nm m bs x" and f: "parses I nm (f x) cs y"
  shows "parses I nm (bindL m f) (bs @ cs) y"
  unfolding parses_def
proof (intro conjI allI impI)
  fix S later
  assume S: "ready I nm S" "pending (ls_Z S) = (bs @ cs) @ later"
  then have p: "pending (ls_Z S) = bs @ (cs @ later)" by simp
  obtain S1 where 1: "m S = Inr (x, S1)" "ready I nm S1" "pending (ls_Z S1) = cs @ later"
    by (rule parsesD[OF m S(1) p])
  obtain S2 where "f x S1 = Inr (y, S2)" "ready I nm S2" "pending (ls_Z S2) = later"
    by (rule parsesD[OF f 1(2,3)])
  then show "\<exists>S'. bindL m f S = Inr (y, S') \<and> ready I nm S' \<and> pending (ls_Z S') = later"
    using 1(1) by (simp add: bindL_def)
next
  fix S
  assume S: "ready I nm S" "strict_prefix (pending (ls_Z S)) (bs @ cs)"
  then consider "strict_prefix (pending (ls_Z S)) bs"
    | p where "pending (ls_Z S) = bs @ p" "strict_prefix p cs"
    by (cases "pending (ls_Z S) = bs") (auto simp: strict_prefix_def prefix_append)
  then show "bindL m f S = Inl (cut_error nm)"
  proof cases
    case 1
    then show ?thesis using parses_cutD[OF m S(1)] by (simp add: bindL_def)
  next
    case (2 p)
    obtain S1 where 1: "m S = Inr (x, S1)" "ready I nm S1" "pending (ls_Z S1) = p"
      by (rule parsesD[OF m S(1) 2(1)])
    then show ?thesis using parses_cutD[OF f 1(2)] 2 by (simp add: bindL_def)
  qed
qed

lemma parses_bind0: "parses I nm m [] x \<Longrightarrow> parses I nm (f x) cs y \<Longrightarrow> parses I nm (bindL m f) cs y"
  using parses_bind[of I nm m "[]"] by simp

lemma parses_last: "parses I nm m bs x \<Longrightarrow> parses I nm (f x) [] y \<Longrightarrow> parses I nm (bindL m f) bs y"
  using parses_bind[of I nm m bs x f "[]"] by simp

lemma parses_IF: "\<not> c \<Longrightarrow> parses I nm (IF c s) [] ()"
  by (simp add: IF_def parses_ret)

lemma parses_block: "n = length bs \<Longrightarrow> parses I nm (LoadBlock n) bs bs"
  unfolding parses_def
proof (intro conjI allI impI)
  fix S later
  assume n: "n = length bs" and S: "ready I nm S" "pending (ls_Z S) = bs @ later"
  then obtain z where "luaZ_read (ls_Z S) n = (bs, 0, z)" "pending z = later"
    using zio.read_exact[of "ls_Z S" bs later] by auto
  then show "\<exists>S'. LoadBlock n S = Inr (bs, S') \<and> ready I nm S' \<and> pending (ls_Z S') = later"
    using S by (simp add: LoadBlock_def bindL_def IF_def retL_def ready_def)
next
  fix S
  assume n: "n = length bs" and S: "ready I nm S" "strict_prefix (pending (ls_Z S)) bs"
  then have l: "length (pending (ls_Z S)) < n" by (simp add: prefix_length_less)
  then obtain z where "luaZ_read (ls_Z S) n = (pending (ls_Z S), n - length (pending (ls_Z S)), z)"
    using zio.read_short by blast
  then show "LoadBlock n S = Inl (cut_error nm)"
    using S l by (simp add: LoadBlock_def bindL_def IF_def load_error_def cut_error_def ready_def)
qed

lemma parses_repeat:
  "(\<And>x. x \<in> set xs \<Longrightarrow> parses I nm m (e x) (d x)) \<Longrightarrow>
     parses I nm (repeatL (length xs) m) (concat (map e xs)) (map d xs)"
proof (induction xs)
  case (Cons x xs)
  then show ?case
    by (auto intro!: parses_bind[OF _ parses_last[OF _ parses_ret]])
qed (simp add: parses_ret)

subsection \<open>Reading back what was written\<close>

definition vec_ok :: "nat \<Rightarrow> nat \<Rightarrow> bool" where
  "vec_ok n e = (n < 2 ^ 31 \<and> luaM_reallocv_ok (int n) e)"

definition known :: "TString set \<Rightarrow> TString \<Rightarrow> bool" where
  "known I s = (s = null_TString \<or> s \<in> I \<and> length (ts_str s) + 2 \<le> MAX_SIZET)"

lemma parses_char: "-128 \<le> t \<Longrightarrow> t < 128 \<Longrightarrow> parses I nm LoadChar [word_of_int t] t"
proof -
  assume "-128 \<le> t" "t < 128"
  then have "sint (word_of_int t :: byte) = t" by (simp add: sint_sbintrunc' signed_take_bit_int_eq_self)
  then show ?thesis unfolding LoadChar_def
    by (intro parses_last[OF parses_block]) (simp_all add: parses_ret)
qed

lemma parses_byte: "parses I nm LoadByte [b] b"
proof -
  have "parses I nm LoadChar [b] (sint b)" unfolding LoadChar_def
    by (rule parses_last[OF parses_block]) (simp_all add: parses_ret)
  then show ?thesis unfolding LoadByte_def
    by (rule parses_last) (use parses_ret[of I nm b] in simp)
qed

lemma parses_int: "0 \<le> x \<Longrightarrow> x < 2 ^ 31 \<Longrightarrow> parses I nm LoadInt (concat (int_blocks x)) x"
  unfolding LoadInt_def int_blocks_def
  by (rule parses_last[OF parses_block])
     (simp_all add: le_word_int sint_small Let_def parses_bind0[OF parses_IF] parses_ret)

lemma parses_number: "parses I nm LoadNumber (le_bytes 8 x) x"
  unfolding LoadNumber_def
  by (rule parses_last[OF parses_block]) (simp_all add: le_word_num parses_ret)

lemma parses_newvector: "vec_ok n e \<Longrightarrow> parses I nm (newvector (int n) e) [] ()"
  by (rule parses_step) (simp add: newvector_def vec_ok_def)

lemma parses_openspace: "n + 1 \<le> MAX_SIZET \<Longrightarrow> parses I nm (openspace n) [] ()"
proof (rule parses_step)
  fix S assume n: "n + 1 \<le> MAX_SIZET" and S: "ready I nm S"
  have u: "unat (word_of_int (int m + 1) :: u32) = m + 1" if "m + 1 \<le> MAX_SIZET" for m
  proof -
    have "unat (word_of_int (int m + 1) :: u32) = unat (word_of_nat (m + 1) :: u32)" by (simp add: add.commute)
    also have "\<dots> = m + 1" using that by (simp only: unat_of_nat) (simp add: MAX_SIZET_def)
    finally show ?thesis .
  qed
  have "luaM_reallocv_ok (int (if n < LUA_MINBUFFER then LUA_MINBUFFER else n)) 1"
    using n u[of n] u[of LUA_MINBUFFER] by (simp add: luaM_reallocv_ok_def LUA_MINBUFFER_def MAX_SIZET_def)
  then show "\<exists>S'. openspace n S = Inr ((), S') \<and> ready I nm S' \<and> ls_Z S' = ls_Z S"
    using S by (simp add: openspace_def luaZ_openspace_def luaZ_resizebuffer_def ready_def)
qed

lemma parses_intern: "s \<in> I \<Longrightarrow> parses I nm (intern (ts_str s)) [] s"
proof (rule parses_step)
  fix S assume s: "s \<in> I" and S: "ready I nm S"
  obtain r g where r: "luaS_newlstr (ts_str s) (ls_g S) = (r, g)" by fastforce
  have "r = Inr s \<and> interned g = I \<and> strt_wf g"
    using luaS_newlstr_wf(1,5)[OF _ r] s S by (simp add: ready_def)
  then show "\<exists>S'. intern (ts_str s) S = Inr (s, S') \<and> ready I nm S' \<and> ls_Z S' = ls_Z S"
    using r S by (simp add: intern_def ready_def)
qed

lemma parses_void: "(\<And>S. \<not> ready I nm S) \<Longrightarrow> parses I nm m bs x"
  by (simp add: parses_def)

lemma parses_string:
  assumes k: "known I s" shows "parses I nm LoadString (concat (string_blocks s)) s"
proof (cases "ts_addr s = 0")
  case True
  have "s = null_TString \<or> (\<forall>S. \<not> ready I nm S)"
    using k True strt.strings_nonnull by (auto simp: known_def ready_def)
  moreover have "parses I nm LoadString (concat (string_blocks null_TString)) null_TString"
    unfolding LoadString_def string_blocks_def null_TString_def
    by (simp, rule parses_last[OF parses_block])
       (simp_all add: le_word_int parses_ret null_TString_def[symmetric])
  ultimately show ?thesis by (auto intro: parses_void)
next
  case False
  let ?n = "ts_len s + 1"
  have s: "s \<in> I" "?n + 1 \<le> MAX_SIZET" using k False by (auto simp: known_def null_TString_def ts_len_def)
  have n: "unat (word_of_nat ?n :: u32) = ?n"
    using s(2) by (simp only: unat_of_nat) (simp add: MAX_SIZET_def)
  have l: "?n = length (char_bytes (ts_str s) @ [0])" by (simp add: char_bytes_def ts_len_def)
  have t: "chars_of (take (?n - 1) (char_bytes (ts_str s) @ [0])) = ts_str s"
    using chars_of_char_bytes[of "ts_str s"] l by simp
  have "parses I nm (bindL (openspace ?n) (\<lambda>_. bindL (LoadBlock ?n) (\<lambda>b. intern (chars_of (take (?n - 1) b)))))
      (char_bytes (ts_str s) @ [0]) s"
    by (rule parses_bind0[OF parses_openspace parses_last[OF parses_block[OF l]]])
       (use s t parses_intern in simp_all)
  then show ?thesis
    unfolding LoadString_def string_blocks_def using False n
    by (simp, intro parses_bind[OF parses_block]) (simp_all add: le_word_int Let_def)
qed

lemma parses_words:
  assumes "vec_ok (length xs) 4" "\<And>x. x \<in> set xs \<Longrightarrow> length (e x) = 4"
    and "\<And>x. x \<in> set xs \<Longrightarrow> f (e x) = x"
  shows "parses I nm
     (bindL LoadInt (\<lambda>n. bindL (newvector n 4) (\<lambda>_. bindL (LoadBlock (nat n * 4)) (\<lambda>bs.
        retL (map (\<lambda>i. f (take 4 (drop (4 * i) bs))) [0..<nat n])))))
     (concat (int_blocks (int (length xs)) @ [concat (map e xs)])) xs"
proof -
  have l: "length (concat (map e xs)) = length xs * 4"
    using assms(2) by (induction xs) auto
  have "map (\<lambda>i. f (take 4 (drop (4 * i) (concat (map e xs))))) [0..<length xs] = xs"
    using assms(2,3) by (subst chunks_of_concat) (auto simp: map_idI)
  moreover have "int (length xs) < 2 ^ 31" using assms(1) by (simp add: vec_ok_def)
  ultimately have "parses I nm (bindL LoadInt (\<lambda>n. bindL (newvector n 4) (\<lambda>_. bindL (LoadBlock (nat n * 4)) (\<lambda>bs.
        retL (map (\<lambda>i. f (take 4 (drop (4 * i) bs))) [0..<nat n])))))
     (concat (int_blocks (int (length xs))) @ concat (map e xs)) xs"
    using assms(1) l parses_ret[of I nm xs]
    by (intro parses_bind[OF parses_int] parses_bind0[OF parses_newvector] parses_last[OF parses_block]) simp_all
  then show ?thesis by simp
qed

lemma parses_code: "vec_ok (length c) 4 \<Longrightarrow> parses I nm LoadCode (concat (code_blocks c)) c"
  unfolding LoadCode_def code_blocks_def
  by (rule parses_words) (simp_all add: le_word_int)

lemma parses_lineinfo:
  assumes "vec_ok (length li) 4" "\<forall>x\<in>set li. - (2 ^ 31) \<le> x \<and> x < 2 ^ 31"
  shows "parses I nm LoadLineinfo (concat (int_blocks (int (length li)) @ [concat (map line_bytes li)])) li"
  unfolding LoadLineinfo_def
  by (rule parses_words[OF assms(1)]) (use assms(2) in \<open>simp_all add: line_bytes_def le_word_int sint_small\<close>)

lemma parses_vector:
  assumes "vec_ok (length xs) e" "\<And>x. x \<in> set xs \<Longrightarrow> parses I nm m (concat (b x)) (d x)"
    and "parses I nm (f (map d xs)) cs y"
  shows "parses I nm (bindL LoadInt (\<lambda>n. bindL (newvector n e) (\<lambda>_. bindL (repeatL (nat n) m) f)))
     (concat (int_blocks (int (length xs)) @ concat (map b xs)) @ cs) y"
proof -
  have r: "parses I nm (repeatL (length xs) m) (concat (map (\<lambda>x. concat (b x)) xs)) (map d xs)"
    by (rule parses_repeat) (rule assms(2))
  have c: "concat (concat (map b xs)) = concat (map (\<lambda>x. concat (b x)) xs)" by (induction xs) simp_all
  have "parses I nm (bindL LoadInt (\<lambda>n. bindL (newvector n e) (\<lambda>_. bindL (repeatL (nat n) m) f)))
     (concat (int_blocks (int (length xs))) @ concat (map (\<lambda>x. concat (b x)) xs) @ cs) y"
    apply (rule parses_bind[OF parses_int])
      apply simp
    using assms(1) apply (simp add: vec_ok_def)
    apply (rule parses_bind0[OF parses_newvector[OF assms(1)]])
    apply (simp, rule parses_bind, rule r)
    by (rule assms(3))
  then show ?thesis by (simp add: c)
qed

definition locvar_ok :: "TString set \<Rightarrow> LocVar \<Rightarrow> bool" where
  "locvar_ok I v = (known I (varname v) \<and> 0 \<le> startpc v \<and> startpc v < 2 ^ 31 \<and> 0 \<le> endpc v \<and> endpc v < 2 ^ 31)"

lemma parses_locvar: "locvar_ok I v \<Longrightarrow> parses I nm LoadLocVar (concat (locvar_blocks v)) v"
proof -
  assume v: "locvar_ok I v"
  have eta: "\<lparr>varname = varname v, startpc = startpc v, endpc = endpc v\<rparr> = v" by simp
  have "parses I nm LoadLocVar
      (concat (string_blocks (varname v)) @ concat (int_blocks (startpc v)) @ concat (int_blocks (endpc v))) v"
    unfolding LoadLocVar_def
    by (rule parses_bind[OF parses_string parses_bind[OF parses_int parses_last[OF parses_int]]])
       (use v parses_ret[of I nm v] in \<open>simp_all add: locvar_ok_def eta\<close>)
  then show ?thesis by (simp add: locvar_blocks_def)
qed

definition debug_ok :: "TString set \<Rightarrow> int list \<Rightarrow> LocVar list \<Rightarrow> TString list \<Rightarrow> bool" where
  "debug_ok I li lv uv =
     (vec_ok (length li) 4 \<and> (\<forall>x\<in>set li. - (2 ^ 31) \<le> x \<and> x < 2 ^ 31)
      \<and> vec_ok (length lv) 12 \<and> (\<forall>v\<in>set lv. locvar_ok I v)
      \<and> vec_ok (length uv) 4 \<and> (\<forall>s\<in>set uv. known I s))"

lemma parses_debug: "debug_ok I li lv uv \<Longrightarrow> parses I nm LoadDebug (concat (debug_blocks li lv uv)) (li, lv, uv)"
proof -
  assume d: "debug_ok I li lv uv"
  have d1: "vec_ok (length li) 4" and d2: "\<forall>x\<in>set li. - (2 ^ 31) \<le> x \<and> x < 2 ^ 31"
    using d by (simp_all add: debug_ok_def)
  have u: "parses I nm (bindL LoadInt (\<lambda>m. bindL (newvector m 4) (\<lambda>_. bindL (repeatL (nat m) LoadString)
      (\<lambda>uv. retL (li, lv, uv))))) (concat (int_blocks (int (length uv)) @ concat (map string_blocks uv)) @ []) (li, lv, uv)"
    by (rule parses_vector[where d = "\<lambda>x. x"]) (use d in \<open>simp_all add: debug_ok_def parses_ret parses_string\<close>)
  have v: "parses I nm (bindL LoadInt (\<lambda>n. bindL (newvector n 12) (\<lambda>_. bindL (repeatL (nat n) LoadLocVar)
      (\<lambda>lv. bindL LoadInt (\<lambda>m. bindL (newvector m 4) (\<lambda>_. bindL (repeatL (nat m) LoadString)
      (\<lambda>uv. retL (li, lv, uv))))))))
      (concat (int_blocks (int (length lv)) @ concat (map locvar_blocks lv))
       @ concat (int_blocks (int (length uv)) @ concat (map string_blocks uv)) @ []) (li, lv, uv)"
    by (rule parses_vector[where d = "\<lambda>x. x"]) (use d u in \<open>simp_all add: debug_ok_def parses_locvar\<close>)
  have "parses I nm LoadDebug
     (concat (int_blocks (int (length li)) @ [concat (map line_bytes li)])
      @ concat (int_blocks (int (length lv)) @ concat (map locvar_blocks lv))
      @ concat (int_blocks (int (length uv)) @ concat (map string_blocks uv)) @ []) (li, lv, uv)"
    unfolding LoadDebug_def
    by (rule parses_bind, rule parses_lineinfo, rule d1, rule d2, rule v)
  then show ?thesis by (simp add: debug_blocks_def)
qed

definition const_ok :: "TString set \<Rightarrow> TValue \<Rightarrow> bool" where
  "const_ok I v = (case v of
       LNil \<Rightarrow> True
     | LBoolean b \<Rightarrow> b = 0 \<or> b = 1
     | LNumber n \<Rightarrow> True
     | LString s \<Rightarrow> known I s
     | _ \<Rightarrow> False)"

lemma parses_const: "const_ok I v \<Longrightarrow> parses I nm LoadConstant (concat (const_blocks v)) v"
proof -
  assume v: "const_ok I v"
  have t: "parses I nm LoadConstant ([word_of_int (ttype v)] @ bs) v"
    if "parses I nm
     (if ttype v = LUA_TNIL then retL LNil
     else if ttype v = LUA_TBOOLEAN then bindL LoadChar (\<lambda>b. retL (LBoolean (if b \<noteq> 0 then 1 else 0)))
     else if ttype v = LUA_TNUMBER then bindL LoadNumber (\<lambda>n. retL (LNumber n))
     else if ttype v = LUA_TSTRING then bindL LoadString (\<lambda>s. retL (LString s))
     else load_error ''bad constant'') bs v" for bs
    unfolding LoadConstant_def
    by (rule parses_bind, rule parses_char[of "ttype v"]) (use that in \<open>cases v; simp\<close>)+
  show ?thesis
  proof (cases v)
    case LNil
    then show ?thesis using t[of "[]"] by (simp add: const_blocks_def parses_ret)
  next
    case (LBoolean b)
    have "parses I nm (bindL LoadChar (\<lambda>b. retL (LBoolean (if b \<noteq> 0 then 1 else 0)))) [word_of_int b] (LBoolean b)"
      by (rule parses_last[OF parses_char]) (use v LBoolean parses_ret[of I nm "LBoolean b"] in \<open>auto simp: const_ok_def\<close>)
    then show ?thesis using t[of "[word_of_int b]"] LBoolean by (simp add: const_blocks_def)
  next
    case (LNumber n)
    have "parses I nm (bindL LoadNumber (\<lambda>n. retL (LNumber n))) (le_bytes 8 n) (LNumber n)"
      by (rule parses_last[OF parses_number parses_ret])
    then show ?thesis using t[of "le_bytes 8 n"] LNumber by (simp add: const_blocks_def)
  next
    case (LString s)
    have "parses I nm (bindL LoadString (\<lambda>s. retL (LString s))) (concat (string_blocks s)) (LString s)"
      by (rule parses_last[OF parses_string parses_ret]) (use v LString in \<open>simp add: const_ok_def\<close>)
    then show ?thesis using t[of "concat (string_blocks s)"] LString by (simp add: const_blocks_def)
  qed (use v in \<open>simp_all add: const_ok_def\<close>)
qed

subsection \<open>Whole prototypes\<close>

text \<open>
  What reading gives back. A stripped prototype has lost its debug information, and its source is the
  name the reader starts from.
\<close>

fun as_loaded :: "bool \<Rightarrow> TString \<Rightarrow> Proto \<Rightarrow> Proto" where
  "as_loaded strip q (Proto k code ps li lv uv src ld lld nups np va ms) =
     (if strip
      then Proto k code (map (as_loaded strip q) ps) [] [] [] q ld lld nups np va ms
      else Proto k code ps li lv uv src ld lld nups np va ms)"

lemma as_loaded_False [simp]: "as_loaded False q f = f"
  by (cases f) simp

text \<open>
  A prototype that can be read back: its strings are those of the string table, its vectors and
  numbers fit their types, its constants are of the types a chunk can hold, its nesting is within
  the limit, and the checker accepts it and the prototypes nested in it.
\<close>

fun loadable :: "TString set \<Rightarrow> bool \<Rightarrow> TString \<Rightarrow> nat \<Rightarrow> Proto \<Rightarrow> bool" where
  "loadable I strip q 0 f = False"
| "loadable I strip q (Suc calls) f =
     (case f of Proto k code ps li lv uv src ld lld nups np va ms \<Rightarrow>
        vec_ok (length code) 4 \<and> vec_ok (length k) sizeof_TValue \<and> vec_ok (length ps) 4
        \<and> 0 \<le> ld \<and> ld < 2 ^ 31 \<and> 0 \<le> lld \<and> lld < 2 ^ 31 \<and> (\<forall>v\<in>set k. const_ok I v)
        \<and> (strip \<or> src \<noteq> null_TString \<and> known I src \<and> debug_ok I li lv uv)
        \<and> luaG_checkcode (as_loaded strip q f) = Inr True
        \<and> (\<forall>p\<in>set ps. loadable I strip q calls p))"

lemma parses_check: "luaG_checkcode f = Inr True \<Longrightarrow>
    parses I nm (\<lambda>S. bindR (luaG_checkcode f) (\<lambda>ok. Inr (ok, S))) [] True"
  by (rule parses_step) simp

text \<open>The source: written when it is not the enclosing one, else taken from there.\<close>

lemma parses_source:
  assumes w: "q \<in> I" "ts_addr q \<noteq> 0"
    and src: "strip \<or> src \<noteq> null_TString \<and> known I src \<and> (p = q \<or> p = null_TString)"
    and f: "parses I nm (f (if strip then q else src)) cs y"
  shows "parses I nm (bindL LoadString (\<lambda>s. f (if ts_addr s = 0 then q else s)))
     (concat (string_blocks (if ts_addr src = ts_addr p \<or> strip then null_TString else src)) @ cs) y"
proof (cases "\<exists>S. ready I nm S")
  case True
  then obtain S :: LoadState where S: "strt_wf (ls_g S)" "interned (ls_g S) = I" unfolding ready_def by blast
  have n: "known I null_TString" by (simp add: known_def)
  show ?thesis
  proof (cases "ts_addr src = ts_addr p \<or> strip")
    case here: True
    have s: "src = q" if "\<not> strip"
    proof -
      have "src \<in> I" "ts_addr src \<noteq> 0" using src that strt.strings_nonnull[OF S(1)] S(2) by (auto simp: known_def)
      then have "p = q" using src here that by (auto simp: null_TString_def)
      then have "ts_addr src = ts_addr q" using here that by simp
      then show ?thesis using interned_inject(2)[OF S(1)] \<open>src \<in> I\<close> w S(2) by metis
    qed
    have "parses I nm (f q) cs y" using f s by (cases strip) simp_all
    then show ?thesis using here
      by (simp, intro parses_bind[OF parses_string[OF n]]) (auto simp: null_TString_def)
  next
    case False
    then have "src \<in> I" "known I src" using src by (auto simp: known_def)
    moreover then have "ts_addr src \<noteq> 0" using strt.strings_nonnull[OF S(1)] S(2) by auto
    ultimately show ?thesis using False f
      by (simp, intro parses_bind[OF parses_string]) simp_all
  qed
qed (simp add: parses_void)

lemma loadable_source: "loadable I False q n f = loadable I False q' n f"
  by (induction n arbitrary: f) (auto split: Proto.split)

lemma parses_constants:
  assumes "vec_ok (length k) sizeof_TValue" "vec_ok (length ps) 4" "\<forall>v\<in>set k. const_ok I v"
    and "\<And>x. x \<in> set ps \<Longrightarrow> parses I nm m (concat (b x)) (d x)"
  shows "parses I nm (LoadConstants m)
     (concat (int_blocks (int (length k)) @ concat (map const_blocks k))
      @ concat (int_blocks (int (length ps)) @ concat (map b ps)) @ []) (k, map d ps)"
  unfolding LoadConstants_def
  by (rule parses_vector[where d = "\<lambda>x. x"], rule assms(1), rule parses_const, simp add: assms(3), simp only: map_ident,
      rule parses_vector, rule assms(2), rule assms(4), assumption, rule parses_ret)

text \<open>\<open>LoadFunction\<close> after the source has been settled.\<close>

definition load_body :: "nat \<Rightarrow> TString \<Rightarrow> Proto load" where
  "load_body calls src =
     bindL LoadInt (\<lambda>ld. bindL LoadInt (\<lambda>lld.
     bindL LoadByte (\<lambda>nups. bindL LoadByte (\<lambda>np. bindL LoadByte (\<lambda>va. bindL LoadByte (\<lambda>ms.
     bindL LoadCode (\<lambda>code. bindL (LoadConstants (LoadFunction calls src)) (\<lambda>(k, ps).
     bindL LoadDebug (\<lambda>(li, lv, uv).
       let f = Proto k code ps li lv uv src ld lld nups np va ms
       in bindL (\<lambda>S. bindR (luaG_checkcode f) (\<lambda>ok. Inr (ok, S))) (\<lambda>ok.
          bindL (IF (\<not> ok) ''bad code'') (\<lambda>_. retL f)))))))))))"

lemma LoadFunction_body:
  "LoadFunction (Suc calls) q = bindL LoadString (\<lambda>s. load_body calls (if ts_addr s = 0 then q else s))"
  by (simp add: load_body_def Let_def)

lemma parses_body:
  assumes "0 \<le> ld" "ld < 2 ^ 31" "0 \<le> lld" "lld < 2 ^ 31" "vec_ok (length code) 4"
    and k: "parses I nm (LoadConstants (LoadFunction calls src)) kb (k, ps)"
    and d: "parses I nm LoadDebug db (li, lv, uv)"
    and chk: "luaG_checkcode (Proto k code ps li lv uv src ld lld nups np va ms) = Inr True"
  shows "parses I nm (load_body calls src)
     (concat (int_blocks ld) @ concat (int_blocks lld) @ [nups] @ [np] @ [va] @ [ms]
      @ concat (code_blocks code) @ kb @ db)
     (Proto k code ps li lv uv src ld lld nups np va ms)"
  unfolding load_body_def
  apply (rule parses_bind, rule parses_int[OF assms(1,2)])
  apply (rule parses_bind, rule parses_int[OF assms(3,4)])
  apply (rule parses_bind, rule parses_byte)+
  apply (rule parses_bind, rule parses_code[OF assms(5)])
  apply (rule parses_bind, rule k, simp only: prod.case)
  apply (rule parses_last, rule d, simp only: prod.case Let_def)
  apply (rule parses_bind0, rule parses_check[OF chk])
  by (rule parses_bind0, rule parses_IF, simp, rule parses_ret)

lemma parses_function:
  assumes "loadable I strip q calls f" "q \<in> I" "ts_addr q \<noteq> 0" "strip \<or> p = q \<or> p = null_TString"
  shows "parses I nm (LoadFunction calls q) (concat (function_blocks strip p f)) (as_loaded strip q f)"
  using assms
proof (induction calls arbitrary: q f p)
  case (Suc calls)
  obtain k code ps li lv uv src ld lld nups np va ms
    where f: "f = Proto k code ps li lv uv src ld lld nups np va ms" by (cases f)
  let ?src = "if strip then q else src"
  let ?li = "if strip then [] else li" let ?lv = "if strip then [] else lv" let ?uv = "if strip then [] else uv"
  let ?ps = "map (as_loaded strip ?src) ps"
  note ok = Suc.prems(1)[unfolded f loadable.simps Proto.case]
  have nested: "parses I nm (LoadFunction calls ?src) (concat (function_blocks strip src x)) (as_loaded strip ?src x)"
    if x: "x \<in> set ps" for x
  proof (cases "\<exists>S. ready I nm S")
    case True
    have l: "loadable I strip q calls x" using ok x by simp
    show ?thesis
    proof (cases strip)
      case True
      then show ?thesis using Suc.IH[OF l Suc.prems(2,3)] by simp
    next
      case False
      obtain S :: LoadState where "strt_wf (ls_g S)" "interned (ls_g S) = I" using True unfolding ready_def by blast
      then have "src \<in> I" "ts_addr src \<noteq> 0"
        using ok False strt.strings_nonnull[of "ls_g S" src] by (auto simp: known_def)
      then show ?thesis using Suc.IH[of src x src] l False loadable_source[of I q calls x src] by simp
    qed
  qed (simp add: parses_void)
  have k: "parses I nm (LoadConstants (LoadFunction calls ?src))
     (concat (int_blocks (int (length k)) @ concat (map const_blocks k))
      @ concat (int_blocks (int (length ps)) @ concat (map (function_blocks strip src) ps)) @ []) (k, ?ps)"
    by (rule parses_constants) (use ok nested in simp_all)
  have d: "parses I nm LoadDebug (concat (debug_blocks ?li ?lv ?uv)) (?li, ?lv, ?uv)"
    by (rule parses_debug) (use ok in \<open>auto simp: debug_ok_def vec_ok_def luaM_reallocv_ok_def MAX_SIZET_def\<close>)
  have e: "as_loaded strip q f = Proto k code ?ps ?li ?lv ?uv ?src ld lld nups np va ms"
    by (simp add: f map_idI)
  have "parses I nm (load_body calls ?src)
     (concat (int_blocks ld) @ concat (int_blocks lld) @ [nups] @ [np] @ [va] @ [ms] @ concat (code_blocks code)
      @ (concat (int_blocks (int (length k)) @ concat (map const_blocks k))
         @ concat (int_blocks (int (length ps)) @ concat (map (function_blocks strip src) ps)) @ [])
      @ concat (debug_blocks ?li ?lv ?uv)) (as_loaded strip q f)"
    unfolding e by (rule parses_body[OF _ _ _ _ _ k d]) (use ok e f in simp_all)
  then have "parses I nm (LoadFunction (Suc calls) q)
     (concat (string_blocks (if ts_addr src = ts_addr p \<or> strip then null_TString else src))
      @ concat (int_blocks ld) @ concat (int_blocks lld) @ [nups] @ [np] @ [va] @ [ms] @ concat (code_blocks code)
      @ (concat (int_blocks (int (length k)) @ concat (map const_blocks k))
         @ concat (int_blocks (int (length ps)) @ concat (map (function_blocks strip src) ps)) @ [])
      @ concat (debug_blocks ?li ?lv ?uv)) (as_loaded strip q f)"
    unfolding LoadFunction_body
    by (rule parses_source[OF Suc.prems(2,3), rotated]) (use ok Suc.prems(4) in auto)
  then show ?case by (cases strip) (simp_all add: f)
qed simp

subsection \<open>Reading anything\<close>

text \<open>Every loader keeps the string table well formed and loses no string, whatever the input.\<close>

definition safe_load :: "'a load \<Rightarrow> ('a \<Rightarrow> bool) \<Rightarrow> bool" where
  "safe_load m Q = (\<forall>S x S'. strt_wf (ls_g S) \<longrightarrow> m S = Inr (x, S') \<longrightarrow>
     strt_wf (ls_g S') \<and> interned (ls_g S) \<subseteq> interned (ls_g S') \<and> Q x)"

lemma safe_loadD:
  "safe_load m Q \<Longrightarrow> strt_wf (ls_g S) \<Longrightarrow> m S = Inr (x, S') \<Longrightarrow>
     Q x \<and> strt_wf (ls_g S') \<and> interned (ls_g S) \<subseteq> interned (ls_g S')"
  unfolding safe_load_def by blast

lemma safe_load_bind:
  assumes "safe_load m P" "\<And>x. P x \<Longrightarrow> safe_load (f x) Q"
  shows "safe_load (bindL m f) Q"
  unfolding safe_load_def
proof (intro allI impI)
  fix S x S' assume S: "strt_wf (ls_g S)" "bindL m f S = Inr (x, S')"
  then obtain y S1 where 1: "m S = Inr (y, S1)" "f y S1 = Inr (x, S')"
    by (auto simp: bindL_def bindR_eq_Inr)
  then have "strt_wf (ls_g S1) \<and> interned (ls_g S) \<subseteq> interned (ls_g S1) \<and> P y"
    using assms(1) S by (auto simp: safe_load_def)
  then show "strt_wf (ls_g S') \<and> interned (ls_g S) \<subseteq> interned (ls_g S') \<and> Q x"
    using assms(2)[of y] 1 unfolding safe_load_def by blast
qed

lemma safe_load_weaken: "safe_load m P \<Longrightarrow> (\<And>x. P x \<Longrightarrow> Q x) \<Longrightarrow> safe_load m Q"
  unfolding safe_load_def by blast

lemma safe_load_ret: "Q x \<Longrightarrow> safe_load (retL x) Q"
  by (simp add: safe_load_def retL_def)

lemma safe_load_same:
  assumes "\<And>S x S'. m S = Inr (x, S') \<Longrightarrow> ls_g S' = ls_g S \<and> Q x" shows "safe_load m Q"
  using assms by (fastforce simp: safe_load_def)

lemma safe_load_intern: "safe_load (intern s) (\<lambda>_. True)"
  unfolding safe_load_def
proof (intro allI impI)
  fix S x S' assume S: "strt_wf (ls_g S)" "intern s S = Inr (x, S')"
  obtain r g where r: "luaS_newlstr s (ls_g S) = (r, g)" by fastforce
  then have "ls_g S' = g" using S(2) by (auto simp: intern_def split: sum.splits)
  then show "strt_wf (ls_g S') \<and> interned (ls_g S) \<subseteq> interned (ls_g S') \<and> True"
    using luaS_newlstr_wf(1,2)[OF S(1) r] by simp
qed

lemma safe_load_error: "safe_load (load_error s) Q"
  by (simp add: safe_load_def load_error_def)

lemma safe_load_IF: "safe_load (IF c s) (\<lambda>_. \<not> c)"
  by (simp add: safe_load_def IF_def load_error_def retL_def)

lemma safe_load_block: "safe_load (LoadBlock n) (\<lambda>_. True)"
  by (rule safe_load_same)
     (auto simp: LoadBlock_def bindL_def IF_def load_error_def retL_def split: prod.splits if_splits)

lemma safe_load_newvector: "safe_load (newvector n e) (\<lambda>_. True)"
  by (rule safe_load_same) (auto simp: newvector_def luaM_toobig_def split: if_splits)

lemma safe_load_openspace: "safe_load (openspace n) (\<lambda>_. True)"
  by (rule safe_load_same) (auto simp: openspace_def bindR_eq_Inr)

lemma safe_load_repeat: "safe_load m P \<Longrightarrow> safe_load (repeatL n m) (\<lambda>xs. \<forall>x\<in>set xs. P x)"
proof (induction n)
  case (Suc n)
  show ?case unfolding repeatL.simps
    by (rule safe_load_bind[OF Suc.prems], rule safe_load_bind[OF Suc.IH[OF Suc.prems]])
       (simp add: safe_load_ret)
qed (simp add: safe_load_ret)

lemmas safe_load_basic = safe_load_block safe_load_newvector safe_load_openspace safe_load_intern
  safe_load_error safe_load_IF safe_load_ret

lemma safe_LoadInt: "safe_load LoadInt (\<lambda>_. True)"
  unfolding LoadInt_def Let_def
  by (rule safe_load_bind[OF safe_load_block], rule safe_load_bind[OF safe_load_IF]) (simp add: safe_load_ret)

lemma safe_LoadChar: "safe_load LoadChar (\<lambda>_. True)"
  unfolding LoadChar_def by (rule safe_load_bind[OF safe_load_block]) (simp add: safe_load_ret)

lemma safe_LoadByte: "safe_load LoadByte (\<lambda>_. True)"
  unfolding LoadByte_def by (rule safe_load_bind[OF safe_LoadChar]) (simp add: safe_load_ret)

lemma safe_LoadNumber: "safe_load LoadNumber (\<lambda>_. True)"
  unfolding LoadNumber_def by (rule safe_load_bind[OF safe_load_block]) (simp add: safe_load_ret)

lemma safe_LoadString: "safe_load LoadString (\<lambda>_. True)"
  unfolding LoadString_def Let_def
  by (rule safe_load_bind[OF safe_load_block])
     (auto intro!: safe_load_bind[OF safe_load_openspace] safe_load_bind[OF safe_load_block] safe_load_intern safe_load_ret)

lemma safe_LoadCode: "safe_load LoadCode (\<lambda>_. True)"
  unfolding LoadCode_def
  by (rule safe_load_bind[OF safe_LoadInt], rule safe_load_bind[OF safe_load_newvector],
      rule safe_load_bind[OF safe_load_block]) (simp add: safe_load_ret)

lemma safe_LoadConstant: "safe_load LoadConstant (\<lambda>_. True)"
  unfolding LoadConstant_def
  by (rule safe_load_bind[OF safe_LoadChar])
     (auto intro!: safe_load_bind[OF safe_LoadChar] safe_load_bind[OF safe_LoadNumber]
        safe_load_bind[OF safe_LoadString] safe_load_ret safe_load_error)

lemma safe_LoadLineinfo: "safe_load LoadLineinfo (\<lambda>_. True)"
  unfolding LoadLineinfo_def
  by (rule safe_load_bind[OF safe_LoadInt], rule safe_load_bind[OF safe_load_newvector],
      rule safe_load_bind[OF safe_load_block]) (simp add: safe_load_ret)

lemma safe_LoadLocVar: "safe_load LoadLocVar (\<lambda>_. True)"
  unfolding LoadLocVar_def
  by (rule safe_load_bind[OF safe_LoadString], rule safe_load_bind[OF safe_LoadInt],
      rule safe_load_bind[OF safe_LoadInt]) (simp add: safe_load_ret)

lemma safe_load_vector:
  assumes "safe_load m P" "\<And>xs. \<forall>x\<in>set xs. P x \<Longrightarrow> safe_load (f xs) Q"
  shows "safe_load (bindL LoadInt (\<lambda>n. bindL (newvector n e) (\<lambda>_. bindL (repeatL (nat n) m) f))) Q"
  by (rule safe_load_bind[OF safe_LoadInt], rule safe_load_bind[OF safe_load_newvector],
      rule safe_load_bind[OF safe_load_repeat[OF assms(1)]]) (rule assms(2))

lemma safe_LoadDebug: "safe_load LoadDebug (\<lambda>_. True)"
  unfolding LoadDebug_def
  by (rule safe_load_bind[OF safe_LoadLineinfo], rule safe_load_vector[OF safe_LoadLocVar],
      rule safe_load_vector[OF safe_LoadString]) (simp add: safe_load_ret)

text \<open>A prototype accepted by the checker with all those nested in it.\<close>

fun all_checked :: "Proto \<Rightarrow> bool" where
  "all_checked (Proto k code ps li lv uv src ld lld nups np va ms) =
     (luaG_checkcode (Proto k code ps li lv uv src ld lld nups np va ms) = Inr True
      \<and> (\<forall>p\<in>set ps. all_checked p))"

lemma safe_LoadFunction: "safe_load (LoadFunction calls q) all_checked"
proof (induction calls arbitrary: q)
  case (Suc calls)
  have k: "safe_load (LoadConstants m) (\<lambda>(k, ps). \<forall>p\<in>set ps. P p)" if "safe_load m P" for m P
    unfolding LoadConstants_def
    by (rule safe_load_vector[OF safe_LoadConstant], rule safe_load_vector[OF that]) (simp add: safe_load_ret)
  have c: "safe_load (\<lambda>S. bindR r (\<lambda>ok. Inr (ok, S))) (\<lambda>ok. r = Inr ok)" for r :: "bool res"
    by (rule safe_load_same) (auto simp: bindR_eq_Inr)
  have b: "safe_load (load_body calls s) all_checked" for s
    unfolding load_body_def Let_def
    apply (rule safe_load_bind[OF safe_LoadInt], rule safe_load_bind[OF safe_LoadInt])
    apply (rule safe_load_bind[OF safe_LoadByte])+
    apply (rule safe_load_bind[OF safe_LoadCode], rule safe_load_bind[OF k[OF Suc.IH]], simp only: split_beta)
    apply (rule safe_load_bind[OF safe_LoadDebug], simp only: split_beta)
    apply (rule safe_load_bind[OF c], rule safe_load_bind[OF safe_load_IF])
    by (rule safe_load_ret) auto
  show ?case unfolding LoadFunction_body
    by (rule safe_load_bind[OF safe_LoadString]) (rule b)
qed (simp add: safe_load_error)

subsection \<open>Properties\<close>

text \<open>C40. \<open>luaU_dump\<close> gives the writer the header and then the blocks of the prototype in order, and
  stops at the first block for which the writer does not answer 0: that answer is the result, and no
  block is written after it.\<close>
theorem dump_feeds_writer:
  "luaU_dump w f data strip = feed w (luaU_header # function_blocks strip null_TString f) data"
  by (simp add: luaU_dump_feed chunk_blocks_def)

lemma dump_collected: "snd (luaU_dump collector f [] strip) = concat (chunk_blocks strip f)"
  by (simp add: luaU_dump_feed feed_collector)

lemma chunk_start:
  assumes "strt_wf g"
  shows "ready (interned g) nm \<lparr>ls_Z = z, ls_b = b, ls_g = g, ls_name = nm\<rparr>"
  using assms by (simp add: ready_def)

lemma parses_header: "parses I nm LoadHeader luaU_header ()"
  unfolding LoadHeader_def
  by (rule parses_last[OF parses_block]) (simp_all add: LUAC_HEADERSIZE_def luaU_header_def
      LUA_SIGNATURE_def char_bytes_def parses_IF)

text \<open>The reader of the whole chunk, once the name for sources is in the string table.\<close>

lemma parses_undump:
  assumes g: "strt_wf g" "luaS_newlstr ''=?'' g = (Inr q, g1)"
    and f: "loadable (interned g1) strip q (LUAI_MAXCCALLS - nCcalls) f"
    and S: "ready (interned g) nm S" "ls_g S = g"
    and body: "pending (ls_Z S) = luaU_header @ bs"
  shows "\<exists>S1. bindL LoadHeader (\<lambda>_. bindL (intern ''=?'') (LoadFunction (LUAI_MAXCCALLS - nCcalls))) S
       = LoadFunction (LUAI_MAXCCALLS - nCcalls) q S1
     \<and> ready (interned g1) nm S1 \<and> pending (ls_Z S1) = bs"
proof -
  obtain z where "luaZ_read (ls_Z S) (length luaU_header) = (luaU_header, 0, z)" "pending z = bs"
    using zio.read_exact[OF body] by blast
  moreover have "length luaU_header = LUAC_HEADERSIZE"
    by (simp add: LUAC_HEADERSIZE_def luaU_header_def LUA_SIGNATURE_def char_bytes_def)
  ultimately have h: "LoadHeader S = Inr ((), S\<lparr>ls_Z := z\<rparr>)" and z: "pending z = bs"
    by (simp_all add: LoadHeader_def LoadBlock_def bindL_def IF_def retL_def)
  have i: "intern ''=?'' (S\<lparr>ls_Z := z\<rparr>) = Inr (q, S\<lparr>ls_Z := z, ls_g := g1\<rparr>)"
    using g(2) S(2) by (simp add: intern_def)
  have "ready (interned g1) nm (S\<lparr>ls_Z := z, ls_g := g1\<rparr>)"
    using strt.intern_inv[OF g] S(1) by (simp add: ready_def)
  then show ?thesis using h i z by (intro exI[of _ "S\<lparr>ls_Z := z, ls_g := g1\<rparr>"]) (simp add: bindL_def)
qed

lemma source_name_ok:
  assumes "strt_wf g" "luaS_newlstr ''=?'' g = (Inr q, g1)"
  shows "q \<in> interned g1" "ts_addr q \<noteq> 0"
  using strt.intern_res[OF assms] strt.intern_inv[OF assms] strt.strings_nonnull by blast+

lemma undump_dumped:
  assumes "strt_wf g" "luaS_newlstr ''=?'' g = (Inr q, g1)"
    and "loadable (interned g1) strip q (LUAI_MAXCCALLS - nCcalls) f"
    and "pending z = snd (luaU_dump collector f [] strip) @ later"
  shows "\<exists>S. luaU_undump nCcalls z buff name g = Inr (as_loaded strip q f, S)
     \<and> pending (ls_Z S) = later \<and> strt_wf (ls_g S) \<and> interned (ls_g S) = interned g1"
proof -
  note start = chunk_start[OF assms(1), of "chunk_name name" z buff]
  have "pending z = luaU_header @ (concat (function_blocks strip null_TString f) @ later)"
    using assms(4) by (simp add: dump_collected chunk_blocks_def)
  then obtain S1 where S1: "luaU_undump nCcalls z buff name g = LoadFunction (LUAI_MAXCCALLS - nCcalls) q S1"
    "ready (interned g1) (chunk_name name) S1"
    "pending (ls_Z S1) = concat (function_blocks strip null_TString f) @ later"
    using parses_undump[OF assms(1-3) start] by (auto simp: luaU_undump_def)
  show ?thesis
    by (rule parsesD[OF parses_function[OF assms(3) source_name_ok[OF assms(1,2)] disjI2[OF disjI2[OF refl]]] S1(2,3)])
       (use S1(1) in \<open>auto simp: ready_def\<close>)
qed

text \<open>C37. Reading back: \<open>luaU_undump\<close> on the bytes \<open>luaU_dump\<close> wrote, however the input is cut and
  whatever follows them, gives the prototype itself, or the prototype without its debug information
  when it was dumped stripped, and leaves the rest of the input.\<close>
theorem undump_of_dump:
  assumes "strt_wf g" "luaS_newlstr ''=?'' g = (Inr q, g1)"
    and "loadable (interned g1) strip q (LUAI_MAXCCALLS - nCcalls) f"
    and "pending z = snd (luaU_dump collector f [] strip) @ later"
  shows "\<exists>S. luaU_undump nCcalls z buff name g = Inr (as_loaded strip q f, S)
     \<and> pending (ls_Z S) = later \<and> strt_wf (ls_g S) \<and> interned (ls_g S) = interned g1"
  by (rule undump_dumped[OF assms])

text \<open>C38. A truncated chunk: when the input ends anywhere inside the bytes \<open>luaU_dump\<close> wrote, also inside
  the header, \<open>luaU_undump\<close> reports that the chunk ends unexpectedly.\<close>
theorem undump_truncated:
  assumes "strt_wf g" "luaS_newlstr ''=?'' g = (Inr q, g1)"
    and "loadable (interned g1) strip q (LUAI_MAXCCALLS - nCcalls) f"
    and "strict_prefix (pending z) (snd (luaU_dump collector f [] strip))"
  shows "luaU_undump nCcalls z buff name g =
     Inl (ErrSyntax (chunk_name name @ '': unexpected end in precompiled chunk''))"
proof -
  note start = chunk_start[OF assms(1), of "chunk_name name" z buff]
  have p: "strict_prefix (pending z) (luaU_header @ concat (function_blocks strip null_TString f))"
    using assms(4) by (simp add: dump_collected chunk_blocks_def)
  have "luaU_undump nCcalls z buff name g = Inl (cut_error (chunk_name name))"
  proof (cases "strict_prefix (pending z) luaU_header")
    case True
    then show ?thesis using parses_cutD[OF parses_header start] by (simp add: luaU_undump_def bindL_def)
  next
    case False
    then obtain bs where bs: "pending z = luaU_header @ bs"
      "strict_prefix bs (concat (function_blocks strip null_TString f))"
      using p by (cases "pending z = luaU_header") (auto simp: strict_prefix_def prefix_append)
    then obtain S1 where S1: "luaU_undump nCcalls z buff name g = LoadFunction (LUAI_MAXCCALLS - nCcalls) q S1"
      "ready (interned g1) (chunk_name name) S1" "pending (ls_Z S1) = bs"
      using parses_undump[OF assms(1-3) start] by (auto simp: luaU_undump_def)
    show ?thesis
      using parses_cutD[OF parses_function[OF assms(3) source_name_ok[OF assms(1,2)] disjI2[OF disjI2[OF refl]]] S1(2)]
        S1 bs(2) by simp
  qed
  then show ?thesis by (simp add: cut_error_def)
qed

text \<open>C39. Whatever the input, a prototype that \<open>luaU_undump\<close> returns has been accepted by the checker,
  and so has every prototype nested in it; the string table stays well formed and loses no string.\<close>
theorem undump_checked:
  assumes "strt_wf g" "luaU_undump nCcalls z buff name g = Inr (f, S)"
  shows "all_checked f \<and> strt_wf (ls_g S) \<and> interned g \<subseteq> interned (ls_g S)"
proof -
  have "safe_load LoadHeader (\<lambda>_. True)" unfolding LoadHeader_def
    by (rule safe_load_bind[OF safe_load_block], rule safe_load_weaken[OF safe_load_IF]) simp
  then have "safe_load (bindL LoadHeader (\<lambda>_. bindL (intern ''=?'') (LoadFunction n))) all_checked" for n
    by (rule safe_load_bind, intro safe_load_bind[OF safe_load_intern] safe_LoadFunction)
  from safe_loadD[OF this _ assms(2)[unfolded luaU_undump_def]] assms(1) show ?thesis by simp
qed

subsection \<open>An example\<close>

definition example_inner :: Proto where
  "example_inner = Proto [] (p_code (two_instructions 0)) [] [] [] []
     \<lparr>ts_addr = 100, ts_hash = 5161, ts_str = ''ab''\<rparr> 3 4 0 0 0 2"

definition example_proto :: Proto where
  "example_proto = Proto [LNil, LBoolean 1, LString null_TString] (p_code (two_instructions 0)) [example_inner]
     [] [] [] \<lparr>ts_addr = 100, ts_hash = 5161, ts_str = ''ab''\<rparr> 0 9 0 0 0 2"

lemma two_accepted:
  "luaG_checkcode (Proto k (p_code (two_instructions 0)) ps [] [] [] src ld lld 0 0 0 2) = Inr True"
proof -
  have f: "GET_OPCODE (CREATE_ABC 2 0 0 0) = 2" "GETARG_A (CREATE_ABC 2 0 0 0) = 0"
    "GETARG_B (CREATE_ABC 2 0 0 0) = 0" "GETARG_C (CREATE_ABC 2 0 0 0) = 0"
    using two_instructions_fields(1)[of 0] by (auto simp: maxarg_defs)
  have nz: "CREATE_ABC 30 0 1 0 \<noteq> 0"
  proof
    assume "CREATE_ABC 30 0 1 0 = 0"
    then show False using two_instructions_fields(4) by (simp add: GETARG_B_def get_field_def)
  qed
  show ?thesis
    by (auto simp: luaG_checkcode_def symbexec_def precheck_def two_instructions_def p_sizecode_def maxreg_def
        MAXSTACK_def f nz two_instructions_fields two_instructions_ops sx_step_def code_of_def checkreg_def check_def sx_operands_def
        checkArgMode_def sx_skip_def sx_op_def Let_def NO_REG_def maxarg_defs bindR_def numeral_3_eq_3)
qed

definition example_state :: gstate where "example_state = snd (luaS_newlstr ''ab'' example_strt)"

lemma example_hash_src: "luaS_hash ''=?'' = 3969"
  by (simp add: luaS_hash_def hash_loop.simps of_char_def drop_bit_eq_div push_bit_eq_mult)

lemma example_source:
  "luaS_newlstr ''=?'' example_state =
     (Inr \<lparr>ts_addr = 200, ts_hash = 3969, ts_str = ''=?''\<rparr>, snd (luaS_newlstr ''=?'' example_state))"
  unfolding example_state_def example_first snd_conv
  by (simp add: newlstr_run replicate_2 example_hash_src)

lemma example_state_wf: "strt_wf example_state"
  using luaS_newlstr_wf(1)[OF example_strt_wf example_first]
  unfolding example_state_def example_first snd_conv .

lemma example_interned:
  "\<lparr>ts_addr = 100, ts_hash = 5161, ts_str = ''ab''\<rparr> \<in> interned (snd (luaS_newlstr ''=?'' example_state))"
proof -
  have "\<lparr>ts_addr = 100, ts_hash = 5161, ts_str = ''ab''\<rparr> \<in> interned example_state"
    using luaS_newlstr_wf(4)[OF example_strt_wf example_first refl]
    unfolding example_state_def example_first snd_conv by simp
  then show ?thesis using luaS_newlstr_wf(2)[OF example_state_wf example_source] by blast
qed

lemma example_loadable:
  "loadable (interned (snd (luaS_newlstr ''=?'' example_state))) False q (LUAI_MAXCCALLS - 0) example_proto"
proof -
  have "length (p_code (two_instructions 0)) = 2" by (simp add: two_instructions_def)
  then have "loadable (interned (snd (luaS_newlstr ''=?'' example_state))) False q (Suc (Suc n)) example_proto" for n
    using example_interned
    by (simp add: example_proto_def example_inner_def two_accepted vec_ok_def luaM_reallocv_ok_def
        MAX_SIZET_def sizeof_TValue_def const_ok_def known_def debug_ok_def null_TString_def)
  from this[of 198] show ?thesis by (simp add: LUAI_MAXCCALLS_def)
qed

text \<open>Input that arrives in two pieces.\<close>

definition in_pieces :: "byte list \<Rightarrow> ZIO" where
  "in_pieces bs = luaZ_init (if length bs < 6 then [Some bs] else [Some (take 5 bs), Some (drop 5 bs)])"

lemma pending_in_pieces: "pending (in_pieces bs) = bs"
proof -
  have one: "reader_bytes [Some xs] = xs" for xs by (cases xs) simp_all
  have two: "xs \<noteq> [] \<Longrightarrow> reader_bytes [Some xs, Some ys] = xs @ ys" for xs ys
    using one[of ys] by (cases xs) simp_all
  have "\<not> length bs < 6 \<Longrightarrow> reader_bytes [Some (take 5 bs), Some (drop 5 bs)] = bs" by (subst two) auto
  then show ?thesis by (auto simp: pending_def in_pieces_def luaZ_init_def one)
qed

theorem undump_of_dump_witness:
  "\<exists>S. luaU_undump 0 (in_pieces (snd (luaU_dump collector example_proto [] False) @ [7])) \<lparr>buffsize = 0\<rparr>
       ''@ab'' example_state = Inr (example_proto, S) \<and> pending (ls_Z S) = [7]"
  using undump_of_dump[OF example_state_wf example_source example_loadable pending_in_pieces]
  by (metis as_loaded_False)

theorem undump_truncated_witness:
  "luaU_undump 0 (in_pieces [27, 76, 117]) \<lparr>buffsize = 0\<rparr> ''@ab'' example_state
     = Inl (ErrSyntax ''ab: unexpected end in precompiled chunk'')"
proof -
  have "strict_prefix (pending (in_pieces [27, 76, 117])) (snd (luaU_dump collector example_proto [] False))"
    by (simp add: pending_in_pieces dump_collected chunk_blocks_def luaU_header_def LUA_SIGNATURE_def
        char_bytes_def of_char_def)
  from undump_truncated[OF example_state_wf example_source example_loadable this, of "\<lparr>buffsize = 0\<rparr>" "''@ab''"]
  show ?thesis by (simp add: chunk_name_def)
qed

theorem undump_checked_witness:
  "all_checked example_proto"
proof -
  obtain S where "luaU_undump 0 (in_pieces (snd (luaU_dump collector example_proto [] False) @ [7])) \<lparr>buffsize = 0\<rparr>
       ''@ab'' example_state = Inr (as_loaded False \<lparr>ts_addr = 200, ts_hash = 3969, ts_str = ''=?''\<rparr> example_proto, S)"
    using undump_dumped[OF example_state_wf example_source example_loadable pending_in_pieces] by blast
  from undump_checked[OF example_state_wf this] show ?thesis by simp
qed

text \<open>A chunk can hold a string constant that is the null pointer: \<open>LoadString\<close> gives \<open>NULL\<close> for size
  0, \<open>LoadConstants\<close> stores it as a string, and the checker does not look. The chunk of a prototype
  with such a constant is read without error.\<close>
theorem null_string_constant:
  "\<exists>bs f S. luaU_undump 0 (in_pieces bs) \<lparr>buffsize = 0\<rparr> ''@ab'' example_state = Inr (f, S)
     \<and> LString null_TString \<in> set (p_k f)"
proof -
  have "pending (in_pieces bs) = bs @ []" for bs using pending_in_pieces by simp
  from undump_dumped[OF example_state_wf example_source example_loadable this, of "\<lparr>buffsize = 0\<rparr>" "''@ab''"]
  obtain S where "luaU_undump 0 (in_pieces (snd (luaU_dump collector example_proto [] False))) \<lparr>buffsize = 0\<rparr> ''@ab''
      example_state = Inr (example_proto, S)" unfolding as_loaded_False by blast
  moreover have "LString null_TString \<in> set (p_k example_proto)" by (simp add: example_proto_def)
  ultimately show ?thesis by blast
qed

end
