(* ===== verification/TableChains.thy ===== *)
theory TableChains
  imports Tables
begin

text \<open>
  Chains of nodes: the next pointers of a node vector as a relation, the walks of \<open>ltable.c\<close> along it,
  and what the two ways of linking a node in do to reachability.
\<close>

subsection \<open>Links\<close>

definition link :: "Node list \<Rightarrow> (nat \<times> nat) set" where
  "link ns = {(i, j). i < length ns \<and> n_next (ns ! i) = Some j}"

definition chain_ok :: "Node list \<Rightarrow> bool" where
  "chain_ok ns = ((\<forall>i j. (i, j) \<in> link ns \<longrightarrow> j < length ns) \<and> (\<forall>i j k. (i, k) \<in> link ns \<longrightarrow> (j, k) \<in> link ns \<longrightarrow> i = j)
     \<and> acyclic (link ns))"

lemma chain_okI:
  "(\<And>i j. (i, j) \<in> link ns \<Longrightarrow> j < length ns) \<Longrightarrow>
   (\<And>i j k. (i, k) \<in> link ns \<Longrightarrow> (j, k) \<in> link ns \<Longrightarrow> i = j) \<Longrightarrow> acyclic (link ns) \<Longrightarrow> chain_ok ns"
  unfolding chain_ok_def by blast

lemma link_functional: "(i, j) \<in> link ns \<Longrightarrow> (i, k) \<in> link ns \<Longrightarrow> j = k"
  by (simp add: link_def)

lemma link_pred: "chain_ok ns \<Longrightarrow> (i, k) \<in> link ns \<Longrightarrow> (j, k) \<in> link ns \<Longrightarrow> i = j"
  unfolding chain_ok_def by blast

lemma reach_less:
  assumes "chain_ok ns" "(i, j) \<in> (link ns)\<^sup>*" "i < length ns" shows "j < length ns"
  using assms(2,3,1) by (induction rule: rtrancl_induct) (auto simp: chain_ok_def)

lemma reach_next: "n_next (ns ! i) = Some j \<Longrightarrow> i < length ns \<Longrightarrow>
    (i, k) \<in> (link ns)\<^sup>* \<longleftrightarrow> i = k \<or> (j, k) \<in> (link ns)\<^sup>*"
  by (auto simp: link_def intro: converse_rtrancl_into_rtrancl elim: converse_rtranclE)

lemma reach_end: "n_next (ns ! i) = None \<Longrightarrow> (i, k) \<in> (link ns)\<^sup>* \<longleftrightarrow> i = k"
  by (auto simp: link_def elim: converse_rtranclE)

subsection \<open>Walks\<close>

lemma chain_find_fuel:
  assumes ok: "chain_ok ns"
  shows "i < length ns \<Longrightarrow> card {j. (i, j) \<in> (link ns)\<^sup>*} \<le> fuel \<Longrightarrow>
     (\<exists>j. chain_find fuel ns P i = Inr (Some j) \<and> (i, j) \<in> (link ns)\<^sup>* \<and> P (ns ! j))
     \<or> chain_find fuel ns P i = Inr None \<and> (\<forall>j. (i, j) \<in> (link ns)\<^sup>* \<longrightarrow> \<not> P (ns ! j))"
proof (induction fuel arbitrary: i)
  case 0
  have "finite {j. (i, j) \<in> (link ns)\<^sup>*}"
    using reach_less[OF ok] 0(1) by (auto intro: finite_subset[of _ "{..<length ns}"])
  then show ?case using 0 by auto
next
  case (Suc fuel)
  have fin: "finite {j. (i, j) \<in> (link ns)\<^sup>*}"
    using reach_less[OF ok] Suc.prems(1) by (auto intro: finite_subset[of _ "{..<length ns}"])
  show ?case
  proof (cases "n_next (ns ! i)")
    case None
    then show ?thesis by (auto simp: reach_end)
  next
    case (Some k)
    then have ik: "(i, k) \<in> link ns" using Suc.prems(1) by (simp add: link_def)
    then have k: "k < length ns" using ok by (auto simp: chain_ok_def)
    have "(k, i) \<notin> (link ns)\<^sup>*" using ok ik by (auto simp: chain_ok_def acyclic_def dest: rtrancl_into_trancl2)
    then have "{j. (k, j) \<in> (link ns)\<^sup>*} \<subset> {j. (i, j) \<in> (link ns)\<^sup>*}"
      using ik by (auto intro: converse_rtrancl_into_rtrancl)
    then have "card {j. (k, j) \<in> (link ns)\<^sup>*} < card {j. (i, j) \<in> (link ns)\<^sup>*}"
      by (rule psubset_card_mono[OF fin])
    then have "card {j. (k, j) \<in> (link ns)\<^sup>*} \<le> fuel" using Suc.prems(2) by simp
    from Suc.IH[OF k this] show ?thesis
      using Some Suc.prems(1) by (auto simp: reach_next)
  qed
qed

lemma chain_find_spec:
  assumes "chain_ok ns" "i < length ns"
  shows "(\<exists>j. chain_find (length ns) ns P i = Inr (Some j) \<and> (i, j) \<in> (link ns)\<^sup>* \<and> P (ns ! j))
     \<or> chain_find (length ns) ns P i = Inr None \<and> (\<forall>j. (i, j) \<in> (link ns)\<^sup>* \<longrightarrow> \<not> P (ns ! j))"
proof (rule chain_find_fuel[OF assms])
  have "{j. (i, j) \<in> (link ns)\<^sup>*} \<subseteq> {..<length ns}" using reach_less[OF assms(1)] assms(2) by auto
  then show "card {j. (i, j) \<in> (link ns)\<^sup>*} \<le> length ns" using card_mono[of "{..<length ns}"] by fastforce
qed

lemma find_previous_fuel:
  assumes ok: "chain_ok ns"
  shows "i < length ns \<Longrightarrow> card {j. (i, j) \<in> (link ns)\<^sup>*} \<le> fuel \<Longrightarrow> (i, mp) \<in> (link ns)\<^sup>+ \<Longrightarrow>
     \<exists>p. find_previous fuel ns i mp = Inr p \<and> (p, mp) \<in> link ns \<and> (i, p) \<in> (link ns)\<^sup>*"
proof (induction fuel arbitrary: i)
  case 0
  have "finite {j. (i, j) \<in> (link ns)\<^sup>*}"
    using reach_less[OF ok] 0(1) by (auto intro: finite_subset[of _ "{..<length ns}"])
  then show ?case using 0 by auto
next
  case (Suc fuel)
  have fin: "finite {j. (i, j) \<in> (link ns)\<^sup>*}"
    using reach_less[OF ok] Suc.prems(1) by (auto intro: finite_subset[of _ "{..<length ns}"])
  obtain k where ik: "(i, k) \<in> link ns" and kmp: "(k, mp) \<in> (link ns)\<^sup>*"
    using Suc.prems(3) by (auto dest: tranclD)
  then have nk: "n_next (ns ! i) = Some k" by (simp add: link_def)
  show ?case
  proof (cases "k = mp")
    case True
    then show ?thesis using nk ik by auto
  next
    case False
    then have t: "(k, mp) \<in> (link ns)\<^sup>+" using kmp by (simp add: rtrancl_eq_or_trancl)
    have k: "k < length ns" using ik ok by (auto simp: chain_ok_def)
    have "(k, i) \<notin> (link ns)\<^sup>*" using ok ik by (auto simp: chain_ok_def acyclic_def dest: rtrancl_into_trancl2)
    then have "{j. (k, j) \<in> (link ns)\<^sup>*} \<subset> {j. (i, j) \<in> (link ns)\<^sup>*}"
      using ik by (auto intro: converse_rtrancl_into_rtrancl)
    then have "card {j. (k, j) \<in> (link ns)\<^sup>*} < card {j. (i, j) \<in> (link ns)\<^sup>*}"
      by (rule psubset_card_mono[OF fin])
    then have "card {j. (k, j) \<in> (link ns)\<^sup>*} \<le> fuel" using Suc.prems(2) by simp
    from Suc.IH[OF k this t] show ?thesis
      using False nk ik by (auto intro: converse_rtrancl_into_rtrancl)
  qed
qed

lemma find_previous_spec:
  assumes "chain_ok ns" "i < length ns" "(i, mp) \<in> (link ns)\<^sup>+"
  shows "\<exists>p. find_previous (length ns) ns i mp = Inr p \<and> (p, mp) \<in> link ns \<and> (i, p) \<in> (link ns)\<^sup>*"
proof (rule find_previous_fuel[OF assms(1,2) _ assms(3)])
  have "{j. (i, j) \<in> (link ns)\<^sup>*} \<subseteq> {..<length ns}" using reach_less[OF assms(1)] assms(2) by auto
  then show "card {j. (i, j) \<in> (link ns)\<^sup>*} \<le> length ns" using card_mono[of "{..<length ns}"] by fastforce
qed

subsection \<open>Linking a node in\<close>

lemma link_cong: "map n_next ns = map n_next ns' \<Longrightarrow> link ns = link ns'"
  unfolding link_def by (metis (no_types, lifting) Collect_cong length_map nth_map)

definition free_node :: "Node list \<Rightarrow> nat \<Rightarrow> bool" where
  "free_node ns n = (n < length ns \<and> n_next (ns ! n) = None \<and> (\<forall>i. (i, n) \<notin> link ns))"

lemma trancl_map:
  assumes "\<And>a b. (a, b) \<in> r \<Longrightarrow> (f a, f b) \<in> s" "(a, b) \<in> r\<^sup>+" shows "(f a, f b) \<in> s\<^sup>+"
  using assms(2) by induction (use assms(1) in \<open>auto intro: trancl_into_trancl\<close>)

lemma rtrancl_map:
  assumes "\<And>a b. (a, b) \<in> r \<Longrightarrow> (f a, f b) \<in> s" "(a, b) \<in> r\<^sup>*" shows "(f a, f b) \<in> s\<^sup>*"
  using assms(2) by induction (use assms(1) in \<open>auto intro: rtrancl_into_rtrancl\<close>)

text \<open>Moving the colliding node: the links of \<open>mp\<close> become those of \<open>n\<close>.\<close>

definition swap_nodes :: "nat \<Rightarrow> nat \<Rightarrow> nat \<Rightarrow> nat" where
  "swap_nodes a b x = (if x = a then b else if x = b then a else x)"

lemma length_move [simp]: "length (move_colliding ns p mp n) = length ns"
  by (simp add: move_colliding_def Let_def)

lemma link_move:
  assumes "chain_ok ns" "(p, mp) \<in> link ns" "free_node ns n" "n \<noteq> mp"
  shows "(i, j) \<in> link (move_colliding ns p mp n) \<longleftrightarrow> (swap_nodes mp n i, swap_nodes mp n j) \<in> link ns"
proof -
  have pm: "p \<noteq> mp" using assms(1,2) by (auto simp: chain_ok_def acyclic_def)
  have pn: "p \<noteq> n" using assms(2,3) by (auto simp: free_node_def link_def)
  have len: "p < length ns" "mp < length ns" "n < length ns"
    using assms by (auto simp: link_def free_node_def chain_ok_def)
  have nth: "n_next (move_colliding ns p mp n ! x) =
      (if x = mp then None else if x = n then n_next (ns ! mp) else if x = p then Some n else n_next (ns ! x))"
    if "x < length ns" for x
    using that pm pn len assms(4) by (auto simp: move_colliding_def Let_def nth_list_update)
  have uniq: "(x, mp) \<in> link ns \<longleftrightarrow> x = p" for x using link_pred[OF assms(1) _ assms(2)] assms(2) by blast
  have nn: "(x, n) \<notin> link ns" "(n, x) \<notin> link ns" for x using assms(3) by (auto simp: free_node_def link_def)
  show ?thesis
  proof (cases "i < length ns")
    case True
    have e: "(i, j) \<in> link (move_colliding ns p mp n) \<longleftrightarrow> n_next (move_colliding ns p mp n ! i) = Some j"
      using True by (simp add: link_def)
    consider "i = mp" | "i = n" | "i = p" | "i \<noteq> mp" "i \<noteq> n" "i \<noteq> p" by blast
    then show ?thesis
    proof cases
      case 1
      then show ?thesis using e nth[OF True] nn by (simp add: swap_nodes_def)
    next
      case 2
      have "(mp, mp) \<notin> link ns" using uniq[of mp] pm by simp
      then show ?thesis using 2 e nth[OF True] nn assms(4) len
        by (auto simp: swap_nodes_def link_def)
    next
      case 3
      have "(p, x) \<in> link ns \<longleftrightarrow> x = mp" for x using assms(2) link_functional by blast
      then show ?thesis using 3 e nth[OF True] pm pn assms(4) by (auto simp: swap_nodes_def)
    next
      case 4
      have "(i, j) \<in> link ns \<longleftrightarrow> n_next (ns ! i) = Some j" using True by (simp add: link_def)
      then show ?thesis using 4 e nth[OF True] nn uniq by (auto simp: swap_nodes_def)
    qed
  next
    case False
    then have "swap_nodes mp n i = i" using len by (auto simp: swap_nodes_def)
    then show ?thesis using False by (simp add: link_def)
  qed
qed

lemma swap_swap [simp]: "swap_nodes a b (swap_nodes a b x) = x"
  by (auto simp: swap_nodes_def)

lemma reach_move:
  assumes "chain_ok ns" "(p, mp) \<in> link ns" "free_node ns n" "n \<noteq> mp"
  shows "(i, j) \<in> (link ns)\<^sup>* \<Longrightarrow> (swap_nodes mp n i, swap_nodes mp n j) \<in> (link (move_colliding ns p mp n))\<^sup>*"
  by (rule rtrancl_map[of "link ns"]) (simp_all add: link_move[OF assms])

lemma chain_ok_move:
  assumes "chain_ok ns" "(p, mp) \<in> link ns" "free_node ns n" "n \<noteq> mp"
  shows "chain_ok (move_colliding ns p mp n)"
proof -
  let ?l = "link (move_colliding ns p mp n)"
  have len: "mp < length ns" "n < length ns" using assms by (auto simp: free_node_def chain_ok_def)
  have b: "j < length ns" if "(i, j) \<in> ?l" for i j
  proof -
    have "swap_nodes mp n j < length ns" using that assms(1) by (auto simp: link_move[OF assms] chain_ok_def)
    then show ?thesis using len by (auto simp: swap_nodes_def split: if_splits)
  qed
  have "i = j" if "(i, k) \<in> ?l" "(j, k) \<in> ?l" for i j k
    using that link_pred[OF assms(1)] unfolding link_move[OF assms] by (metis swap_swap)
  moreover have "acyclic ?l"
  proof (rule acyclicI, intro allI notI)
    fix x assume "(x, x) \<in> ?l\<^sup>+"
    then have "(swap_nodes mp n x, swap_nodes mp n x) \<in> (link ns)\<^sup>+"
      by (rule trancl_map[rotated]) (simp add: link_move[OF assms])
    then show False using assms(1) by (auto simp: chain_ok_def acyclic_def)
  qed
  ultimately show ?thesis using b by (intro chain_okI) simp_all
qed

text \<open>Linking \<open>n\<close> in after \<open>mp\<close>.\<close>

lemma length_chain_after [simp]: "length (chain_after ns mp n) = length ns"
  by (simp add: chain_after_def Let_def)

lemma link_after:
  assumes "free_node ns n" "mp < length ns" "n \<noteq> mp"
  shows "(i, j) \<in> link (chain_after ns mp n) \<longleftrightarrow>
     (if i = mp then j = n else if i = n then (mp, j) \<in> link ns else (i, j) \<in> link ns)"
  using assms by (auto simp: chain_after_def Let_def link_def free_node_def nth_list_update)

lemma reach_after:
  assumes "free_node ns n" "mp < length ns" "n \<noteq> mp" "(i, j) \<in> (link ns)\<^sup>*"
  shows "(i, j) \<in> (link (chain_after ns mp n))\<^sup>*"
  using assms(4)
proof induction
  case (step j k)
  show ?case
  proof (cases "j = mp")
    case True
    then have "(j, n) \<in> link (chain_after ns mp n)" "(n, k) \<in> link (chain_after ns mp n)"
      using step.hyps(2) assms(3) by (auto simp: link_after[OF assms(1-3)])
    then show ?thesis using step.IH by (meson rtrancl.rtrancl_into_rtrancl)
  next
    case False
    moreover have "j \<noteq> n" using step.hyps(2) assms(1) by (auto simp: free_node_def link_def)
    ultimately have "(j, k) \<in> link (chain_after ns mp n)"
      using step.hyps(2) by (simp add: link_after[OF assms(1-3)])
    then show ?thesis using step.IH by (rule rtrancl_into_rtrancl[rotated])
  qed
qed simp

lemma chain_ok_after:
  assumes ok: "chain_ok ns" and f: "free_node ns n" "mp < length ns" "n \<noteq> mp"
  shows "chain_ok (chain_after ns mp n)"
proof -
  let ?l = "link (chain_after ns mp n)"
  let ?f = "\<lambda>x. if x = n then mp else x"
  have nn: "(x, n) \<notin> link ns" "(n, x) \<notin> link ns" for x using f(1) by (auto simp: free_node_def link_def)
  have "j < length ns" if "(i, j) \<in> ?l" for i j
    using that ok f by (auto simp: link_after[OF f] free_node_def chain_ok_def split: if_splits)
  moreover have "i = j" if "(i, k) \<in> ?l" "(j, k) \<in> ?l" for i j k
    using that nn link_pred[OF ok] unfolding link_after[OF f] by (auto split: if_splits)
  moreover have "acyclic ?l"
  proof (rule acyclicI, intro allI notI)
    have c: "(?f a, ?f b) \<in> (link ns)\<^sup>+ \<or> a = mp \<and> b = n" if "(a, b) \<in> ?l\<^sup>+" for a b
      using that
    proof induction
      case (base b)
      then show ?case using nn unfolding link_after[OF f] by (auto split: if_splits)
    next
      case (step b c)
      have bc: "(?f b, ?f c) \<in> link ns \<or> b = mp \<and> c = n"
        using step.hyps(2) nn unfolding link_after[OF f] by (auto split: if_splits)
      show ?case using step.IH
      proof
        assume "(?f a, ?f b) \<in> (link ns)\<^sup>+"
        then show ?case using bc f(3) by (auto intro: trancl_into_trancl split: if_splits)
      next
        assume "a = mp \<and> b = n"
        then show ?case using bc f(3) by (auto split: if_splits)
      qed
    qed
    fix x assume "(x, x) \<in> ?l\<^sup>+"
    from c[OF this] show False using ok f(3) by (auto simp: chain_ok_def acyclic_def)
  qed
  ultimately show ?thesis by (intro chain_okI) simp_all
qed

end
