(* ===== verification/TableLaws.thy ===== *)
theory TableLaws
  imports TableChains
begin

text \<open>
  The invariant of tables and the laws of \<open>luaH_get\<close> and \<open>luaH_set\<close>: a table is a map from keys, up to
  raw equality, to values.
\<close>

subsection \<open>Keys\<close>

text \<open>\<open>I\<close> is the set of the strings that exist; one address has one string (\<open>strt\<close> of \<open>lstring.c\<close>).\<close>

definition key_ok :: "TString set \<Rightarrow> TValue \<Rightarrow> bool" where
  "key_ok I k = (case k of LNil \<Rightarrow> False | LDeadKey a \<Rightarrow> False | LNumber n \<Rightarrow> \<not> dbl_isnan n
                 | LString s \<Rightarrow> s \<in> I | _ \<Rightarrow> True)"

abbreviation keq :: "TValue \<Rightarrow> TValue \<Rightarrow> bool" where "keq \<equiv> luaO_rawequalObj"

lemma keq_refl: "key_ok I k \<Longrightarrow> keq k k"
  by (cases k) (simp_all add: luaO_rawequalObj_def key_ok_def)

lemma keq_sym: "keq a b \<Longrightarrow> keq b a"
  by (cases a; cases b) (auto simp: luaO_rawequalObj_def intro: luai_numeq_sym split: if_splits)

lemma keq_trans: "keq a b \<Longrightarrow> keq b c \<Longrightarrow> keq a c"
  by (cases a; cases b; cases c) (auto simp: luaO_rawequalObj_def intro: luai_numeq_trans split: if_splits)

lemma keq_cases:
  assumes "keq a b" "inj_on ts_addr I" "key_ok I a" "key_ok I b"
  shows "a = b \<or> (\<exists>m n. a = LNumber m \<and> b = LNumber n \<and> luai_numeq m n)"
  using assms by (cases a; cases b) (auto simp: luaO_rawequalObj_def key_ok_def inj_on_def split: if_splits)

lemma keq_nil: "keq a LNil \<longleftrightarrow> a = LNil" "keq LNil a \<longleftrightarrow> a = LNil"
  by (cases a; simp add: luaO_rawequalObj_def)+

lemma lua_number2int_bounds: "- (2 ^ 31) \<le> lua_number2int d" "lua_number2int d < 2 ^ 31"
  using sint_range_size[of "word_of_nat (unat (luai_numadd d (cast_num 6755399441055744))) :: u32"]
  by (simp_all add: lua_number2int_def word_size)

lemma arrayindex_numeq:
  assumes "luai_numeq m n" shows "arrayindex (LNumber m) = arrayindex (LNumber n)"
proof -
  have "arrayindex (LNumber n) = k" if "luai_numeq m n" "luai_numeq (cast_num k) m" "k = lua_number2int m" for m n k
  proof -
    have e: "luai_numeq (cast_num k) n" using that luai_numeq_trans by blast
    then have "lua_number2int n = k"
      using lua_number2int_numeq[of k n] lua_number2int_bounds[of m] that(3) by simp
    then show ?thesis using e by (simp add: arrayindex_def)
  qed
  from this[OF assms] this[OF luai_numeq_sym[OF assms]] show ?thesis
    by (auto simp: arrayindex_def Let_def)
qed

lemma arrayindex_int:
  assumes "- (2 ^ 31) \<le> i" "i < 2 ^ 31" shows "arrayindex (LNumber (cast_num i)) = i"
  using lua_number2int_cast_num[of i] cast_num_props(2)[of i] assms
  by (simp add: arrayindex_def)

lemma arrayindex_pos:
  assumes "0 < arrayindex k"
  obtains n where "k = LNumber n" "luai_numeq (cast_num (arrayindex k)) n" "arrayindex k < 2 ^ 31"
  using assms lua_number2int_bounds
  by (cases k) (auto simp: arrayindex_def Let_def split: if_splits)

lemma arrayindex_keq_int:
  assumes "0 < arrayindex k" shows "keq k (LNumber (cast_num (arrayindex k)))"
  using assms by (elim arrayindex_pos) (auto simp: luaO_rawequalObj_def intro: luai_numeq_sym)

subsection \<open>Main positions\<close>

lemma hashnum_numeq: "luai_numeq m n \<Longrightarrow> hashnum t m = hashnum t n"
proof -
  assume e: "luai_numeq m n"
  have "luai_numeq m (cast_num 0) \<longleftrightarrow> luai_numeq n (cast_num 0)"
    using e luai_numeq_trans luai_numeq_sym by blast
  then show ?thesis using luai_numeq_bits[OF e] by (auto simp: hashnum_def)
qed

lemma keq_same:
  assumes "keq a b" "inj_on ts_addr I" "key_ok I a" "key_ok I b"
  shows "mainposition t a = mainposition t b" "arrayindex a = arrayindex b"
  using keq_cases[OF assms] hashnum_numeq arrayindex_numeq by (auto simp: mainposition_def)

lemma hashmod_less: "lsizenode t \<le> 26 \<Longrightarrow> hashmod t n < 2 ^ lsizenode t"
proof -
  assume "lsizenode t \<le> 26"
  show ?thesis
  proof (cases "lsizenode t")
    case 0
    then show ?thesis by (simp add: hashmod_def sizenode_def)
  next
    case (Suc l)
    then have "even (sizenode t)" "2 \<le> sizenode t" by (simp_all add: sizenode_def)
    then have "(sizenode t - 1) OR 1 = sizenode t - 1" by (simp add: or_one_eq)
    then have "hashmod t n < nat (sizenode t - 1)"
      using \<open>2 \<le> sizenode t\<close> by (simp add: hashmod_def)
    also have "\<dots> \<le> 2 ^ lsizenode t" by (simp add: sizenode_def)
    finally show ?thesis .
  qed
qed

lemma hashpow2_less: "lsizenode t \<le> 26 \<Longrightarrow> hashpow2 t n < 2 ^ lsizenode t"
  by (simp add: hashpow2_def sizenode_def lmod_less)

lemma mainposition_less: "lsizenode t \<le> 26 \<Longrightarrow> mainposition t k < 2 ^ lsizenode t"
  by (cases k) (simp_all add: mainposition_def hashnum_def hashmod_less hashpow2_less)

lemma mainposition_cong: "lsizenode t' = lsizenode t \<Longrightarrow> mainposition t' = mainposition t"
  by (simp add: fun_eq_iff mainposition_def hashnum_def hashmod_def hashpow2_def sizenode_def split: TValue.split)

subsection \<open>The invariant of the node vector\<close>

definition keyed :: "Node list \<Rightarrow> nat \<Rightarrow> bool" where
  "keyed ns i = (i < length ns \<and> i_key (ns ! i) \<noteq> LNil \<and> (\<forall>a. i_key (ns ! i) \<noteq> LDeadKey a))"

text \<open>
  \<open>m\<close> is the main position. A free node is in no chain; a node with a value has a key; a key is
  reachable from its main position; a node at the main position of some key of the table is not a
  stranger there; no key is there twice.
\<close>

definition node_wf :: "TString set \<Rightarrow> (TValue \<Rightarrow> nat) \<Rightarrow> Node list \<Rightarrow> bool" where
  "node_wf I m ns =
     (chain_ok ns
      \<and> (\<forall>i<length ns. i_key (ns ! i) = LNil \<longrightarrow> n_next (ns ! i) = None \<and> i_val (ns ! i) = LNil)
      \<and> (\<forall>i j. (i, j) \<in> link ns \<longrightarrow> i_key (ns ! j) \<noteq> LNil)
      \<and> (\<forall>i<length ns. i_val (ns ! i) \<noteq> LNil \<longrightarrow> keyed ns i)
      \<and> (\<forall>i. keyed ns i \<longrightarrow> key_ok I (i_key (ns ! i)) \<and> m (i_key (ns ! i)) < length ns
             \<and> (m (i_key (ns ! i)), i) \<in> (link ns)\<^sup>*)
      \<and> (\<forall>i. keyed ns i \<longrightarrow> keyed ns (m (i_key (ns ! i))) \<longrightarrow>
             m (i_key (ns ! m (i_key (ns ! i)))) = m (i_key (ns ! i)))
      \<and> (\<forall>i j. keyed ns i \<longrightarrow> keyed ns j \<longrightarrow> keq (i_key (ns ! i)) (i_key (ns ! j)) \<longrightarrow> i = j))"

lemma node_wfD:
  assumes "node_wf I m ns"
  shows "chain_ok ns"
    and "i < length ns \<Longrightarrow> i_key (ns ! i) = LNil \<Longrightarrow> n_next (ns ! i) = None \<and> i_val (ns ! i) = LNil"
    and "(i, j) \<in> link ns \<Longrightarrow> i_key (ns ! j) \<noteq> LNil"
    and "i < length ns \<Longrightarrow> i_val (ns ! i) \<noteq> LNil \<Longrightarrow> keyed ns i"
    and "keyed ns i \<Longrightarrow> key_ok I (i_key (ns ! i))"
    and "keyed ns i \<Longrightarrow> m (i_key (ns ! i)) < length ns"
    and "keyed ns i \<Longrightarrow> (m (i_key (ns ! i)), i) \<in> (link ns)\<^sup>*"
    and "keyed ns i \<Longrightarrow> keyed ns (m (i_key (ns ! i))) \<Longrightarrow> m (i_key (ns ! m (i_key (ns ! i)))) = m (i_key (ns ! i))"
    and "keyed ns i \<Longrightarrow> keyed ns j \<Longrightarrow> keq (i_key (ns ! i)) (i_key (ns ! j)) \<Longrightarrow> i = j"
  using assms unfolding node_wf_def by blast+

lemma node_wfI:
  assumes "chain_ok ns"
    and "\<And>i. i < length ns \<Longrightarrow> i_key (ns ! i) = LNil \<Longrightarrow> n_next (ns ! i) = None \<and> i_val (ns ! i) = LNil"
    and "\<And>i j. (i, j) \<in> link ns \<Longrightarrow> i_key (ns ! j) \<noteq> LNil"
    and "\<And>i. i < length ns \<Longrightarrow> i_val (ns ! i) \<noteq> LNil \<Longrightarrow> keyed ns i"
    and "\<And>i. keyed ns i \<Longrightarrow> key_ok I (i_key (ns ! i)) \<and> m (i_key (ns ! i)) < length ns
             \<and> (m (i_key (ns ! i)), i) \<in> (link ns)\<^sup>*"
    and "\<And>i. keyed ns i \<Longrightarrow> keyed ns (m (i_key (ns ! i))) \<Longrightarrow>
             m (i_key (ns ! m (i_key (ns ! i)))) = m (i_key (ns ! i))"
    and "\<And>i j. keyed ns i \<Longrightarrow> keyed ns j \<Longrightarrow> keq (i_key (ns ! i)) (i_key (ns ! j)) \<Longrightarrow> i = j"
  shows "node_wf I m ns"
  using assms unfolding node_wf_def by blast

lemma wf_free_node:
  assumes "node_wf I m ns" "n < length ns" "i_key (ns ! n) = LNil"
  shows "free_node ns n"
  using assms node_wfD(2,3)[OF assms(1)] unfolding free_node_def by blast

text \<open>No key has a free node as its main position.\<close>

lemma wf_free_main:
  assumes "node_wf I m ns" "n < length ns" "i_key (ns ! n) = LNil" "keyed ns i"
  shows "m (i_key (ns ! i)) \<noteq> n"
proof
  assume e: "m (i_key (ns ! i)) = n"
  have "(n, i) \<in> (link ns)\<^sup>*" using node_wfD(7)[OF assms(1,4)] e by simp
  moreover have "n \<noteq> i" using assms(3,4) by (auto simp: keyed_def)
  ultimately show False using wf_free_node[OF assms(1-3)] by (auto simp: free_node_def link_def elim: converse_rtranclE)
qed

subsection \<open>The value of a key in the node vector\<close>

definition nget :: "Node list \<Rightarrow> TValue \<Rightarrow> TValue" where
  "nget ns k =
     (case List.filter (\<lambda>i. keyed ns i \<and> keq (i_key (ns ! i)) k) [0..<length ns] of
        [] \<Rightarrow> LNil
      | i # is \<Rightarrow> i_val (ns ! i))"

lemma nget_none: "(\<And>i. keyed ns i \<Longrightarrow> \<not> keq (i_key (ns ! i)) k) \<Longrightarrow> nget ns k = LNil"
proof -
  assume "\<And>i. keyed ns i \<Longrightarrow> \<not> keq (i_key (ns ! i)) k"
  then have "List.filter (\<lambda>i. keyed ns i \<and> keq (i_key (ns ! i)) k) [0..<length ns] = []"
    by (auto simp: filter_empty_conv)
  then show ?thesis by (simp add: nget_def)
qed

lemma keyed_unique:
  assumes "node_wf I m ns" "keyed ns i" "keyed ns j" "keq (i_key (ns ! i)) k" "keq (i_key (ns ! j)) k"
  shows "i = j"
  using node_wfD(9)[OF assms(1-3)] keq_trans[OF assms(4) keq_sym[OF assms(5)]] by blast

lemma nget_at:
  assumes "node_wf I m ns" "keyed ns i" "keq (i_key (ns ! i)) k"
  shows "nget ns k = i_val (ns ! i)"
proof -
  let ?f = "List.filter (\<lambda>i. keyed ns i \<and> keq (i_key (ns ! i)) k) [0..<length ns]"
  have "i \<in> set ?f" using assms by (auto simp: keyed_def)
  then obtain j js where f: "?f = j # js" by (cases ?f) auto
  then have "j \<in> set ?f" by simp
  then have "keyed ns j \<and> keq (i_key (ns ! j)) k" by simp
  then have "j = i" using keyed_unique[OF assms(1), of j i k] assms by blast
  then show ?thesis using f by (simp add: nget_def)
qed

lemma nget_cases:
  assumes "node_wf I m ns"
  obtains i where "keyed ns i" "keq (i_key (ns ! i)) k" "nget ns k = i_val (ns ! i)"
  | "\<And>i. keyed ns i \<Longrightarrow> \<not> keq (i_key (ns ! i)) k" "nget ns k = LNil"
  using nget_at[OF assms] nget_none by metis

lemma nget_cong:
  assumes "node_wf I m ns" "node_wf I m ns'"
    and "\<And>i. keyed ns i \<Longrightarrow> keq (i_key (ns ! i)) k \<Longrightarrow> i_val (ns ! i) \<noteq> LNil \<Longrightarrow>
        \<exists>j. keyed ns' j \<and> i_key (ns' ! j) = i_key (ns ! i) \<and> i_val (ns' ! j) = i_val (ns ! i)"
    and "\<And>j. keyed ns' j \<Longrightarrow> keq (i_key (ns' ! j)) k \<Longrightarrow> i_val (ns' ! j) \<noteq> LNil \<Longrightarrow>
        \<exists>i. keyed ns i \<and> i_key (ns ! i) = i_key (ns' ! j) \<and> i_val (ns ! i) = i_val (ns' ! j)"
  shows "nget ns' k = nget ns k"
proof (cases "nget ns k = LNil")
  case True
  show ?thesis
  proof (rule ccontr)
    assume n: "nget ns' k \<noteq> nget ns k"
    then obtain j where "keyed ns' j" "keq (i_key (ns' ! j)) k" "nget ns' k = i_val (ns' ! j)"
      using True by (metis nget_cases[OF assms(2)])
    then show False using assms(4)[of j] nget_at[OF assms(1)] n True by metis
  qed
next
  case False
  then obtain i where "keyed ns i" "keq (i_key (ns ! i)) k" "nget ns k = i_val (ns ! i)"
    by (metis nget_cases[OF assms(1)])
  then show ?thesis using assms(3)[of i] nget_at[OF assms(2)] False by metis
qed

subsection \<open>Inserting into the node vector\<close>

definition used :: "Node list \<Rightarrow> nat set" where
  "used ns = {i. i < length ns \<and> i_key (ns ! i) \<noteq> LNil}"

lemma finite_used [simp]: "finite (used ns)" by (simp add: used_def)

definition inserted :: "TString set \<Rightarrow> (TValue \<Rightarrow> nat) \<Rightarrow> Node list \<Rightarrow> Node list \<Rightarrow> nat \<Rightarrow> TValue \<Rightarrow> bool" where
  "inserted I m ns ns' s k =
     (node_wf I m ns' \<and> length ns' = length ns \<and> keyed ns' s \<and> i_key (ns' ! s) = k \<and> i_val (ns' ! s) = LNil
      \<and> used ns \<subseteq> used ns' \<and> card (used ns') \<le> Suc (card (used ns)) \<and> (\<forall>k'. nget ns' k' = nget ns k')
      \<and> (\<forall>j. keyed ns' j \<longrightarrow> i_key (ns' ! j) = k \<or> (\<exists>i. keyed ns i \<and> i_key (ns ! i) = i_key (ns' ! j))))"

lemma card_used_le:
  assumes "used ns' \<subseteq> insert n (used ns)" shows "card (used ns') \<le> Suc (card (used ns))"
  using card_mono[OF _ assms] card_insert_le_m1[of "Suc (card (used ns))" "used ns" n]
  by (simp add: card_insert_if split: if_splits)

lemma length_set_key [simp]: "length (set_key ns i k) = length ns"
  by (simp add: set_key_def)

lemma set_key_nth:
  "j < length ns \<Longrightarrow> i_key (set_key ns i k ! j) = (if j = i then k else i_key (ns ! j))"
  "j < length ns \<Longrightarrow> i_val (set_key ns i k ! j) = i_val (ns ! j)"
  "j < length ns \<Longrightarrow> n_next (set_key ns i k ! j) = n_next (ns ! j)"
  by (cases "i = j"; simp add: set_key_def)+

lemma link_set_key [simp]: "link (set_key ns i k) = link ns"
  by (rule link_cong) (simp add: list_eq_iff_nth_eq set_key_nth)

lemma chain_ok_set_key [simp]: "chain_ok (set_key ns i k) = chain_ok ns"
  by (simp add: chain_ok_def)

lemma key_ok_proper: "key_ok I k \<Longrightarrow> k \<noteq> LNil \<and> (\<forall>a. k \<noteq> LDeadKey a)"
  by (cases k) (auto simp: key_ok_def)

lemma keyed_set_key:
  "key_ok I k \<Longrightarrow> i < length ns \<Longrightarrow> keyed (set_key ns i k) j \<longleftrightarrow> j = i \<or> keyed ns j"
  using key_ok_proper[of I k] by (auto simp: keyed_def set_key_nth split: if_splits)

text \<open>The main position of the new key is without a value: the key goes there.\<close>

lemma insert_main:
  assumes wf: "node_wf I m ns" and k: "key_ok I k" and mp: "m k < length ns" "i_val (ns ! m k) = LNil"
    and absent: "\<And>i. keyed ns i \<Longrightarrow> \<not> keq (i_key (ns ! i)) k"
  shows "inserted I m ns (set_key ns (m k) k) (m k) k"
proof -
  let ?ns = "set_key ns (m k) k"
  note kd = keyed_set_key[OF k mp(1)]
  have key: "keyed ns i \<Longrightarrow> i < length ns" for i by (simp add: keyed_def)
  have absent2: "keyed ns i \<Longrightarrow> \<not> keq k (i_key (ns ! i))" for i using absent keq_sym by blast
  have wf': "node_wf I m ?ns"
  proof (rule node_wfI)
    show "chain_ok ?ns" using node_wfD(1)[OF wf] by simp
    show "i < length ?ns \<Longrightarrow> i_key (?ns ! i) = LNil \<Longrightarrow> n_next (?ns ! i) = None \<and> i_val (?ns ! i) = LNil" for i
      using node_wfD(2)[OF wf, of i] key_ok_proper[OF k] by (auto simp: set_key_nth split: if_splits)
    show "(i, j) \<in> link ?ns \<Longrightarrow> i_key (?ns ! j) \<noteq> LNil" for i j
      using node_wfD(3)[OF wf, of i j] node_wfD(1)[OF wf] key_ok_proper[OF k]
      by (auto simp: set_key_nth chain_ok_def)
    show "i < length ?ns \<Longrightarrow> i_val (?ns ! i) \<noteq> LNil \<Longrightarrow> keyed ?ns i" for i
      using node_wfD(4)[OF wf, of i] by (simp add: set_key_nth kd)
    show "keyed ?ns i \<Longrightarrow> key_ok I (i_key (?ns ! i)) \<and> m (i_key (?ns ! i)) < length ?ns
        \<and> (m (i_key (?ns ! i)), i) \<in> (link ?ns)\<^sup>*" for i
      using node_wfD(5-7)[OF wf, of i] k mp(1) key by (auto simp: kd set_key_nth)
    show "keyed ?ns i \<Longrightarrow> keyed ?ns (m (i_key (?ns ! i))) \<Longrightarrow>
        m (i_key (?ns ! m (i_key (?ns ! i)))) = m (i_key (?ns ! i))" for i
      using node_wfD(6,8)[OF wf, of i] k mp(1) key by (auto simp: kd set_key_nth)
    show "keyed ?ns i \<Longrightarrow> keyed ?ns j \<Longrightarrow> keq (i_key (?ns ! i)) (i_key (?ns ! j)) \<Longrightarrow> i = j" for i j
      using node_wfD(9)[OF wf, of i j] absent absent2 key mp(1) by (auto simp: kd set_key_nth split: if_splits)
  qed
  have "nget ?ns k' = nget ns k'" for k'
  proof (rule nget_cong[OF wf wf'])
    fix i assume i: "keyed ns i" "i_val (ns ! i) \<noteq> LNil"
    then have "i \<noteq> m k" using mp by auto
    then show "\<exists>j. keyed ?ns j \<and> i_key (?ns ! j) = i_key (ns ! i) \<and> i_val (?ns ! j) = i_val (ns ! i)"
      using i key[of i] by (intro exI[of _ i]) (simp add: kd set_key_nth)
  next
    fix j assume j: "keyed ?ns j" "i_val (?ns ! j) \<noteq> LNil"
    then have "j \<noteq> m k" "keyed ns j" using mp by (auto simp: kd set_key_nth)
    then show "\<exists>i. keyed ns i \<and> i_key (ns ! i) = i_key (?ns ! j) \<and> i_val (ns ! i) = i_val (?ns ! j)"
      using key[of j] by (intro exI[of _ j]) (simp add: set_key_nth)
  qed
  moreover have "used ns \<subseteq> used ?ns" "used ?ns \<subseteq> insert (m k) (used ns)"
    using key_ok_proper[OF k] by (auto simp: used_def set_key_nth split: if_splits)
  moreover have "i_key (?ns ! j) = k \<or> (\<exists>i. keyed ns i \<and> i_key (ns ! i) = i_key (?ns ! j))" if "keyed ?ns j" for j
    using that key[of j] mp(1) by (cases "j = m k") (auto simp: kd set_key_nth)
  ultimately show ?thesis
    unfolding inserted_def using wf' kd mp card_used_le[of ?ns "m k" ns] by (auto simp: set_key_nth)
qed

lemma after_nth:
  assumes "n < length ns" "mp < length ns" "n \<noteq> mp" "j < length ns"
  shows "i_key (chain_after ns mp n ! j) = i_key (ns ! j)" "i_val (chain_after ns mp n ! j) = i_val (ns ! j)"
    "j \<noteq> n \<Longrightarrow> j \<noteq> mp \<Longrightarrow> n_next (chain_after ns mp n ! j) = n_next (ns ! j)"
  using assms by (auto simp: chain_after_def Let_def nth_list_update)

text \<open>The node at the main position of the new key is at home: the key goes to the free node \<open>n\<close>.\<close>

lemma insert_after:
  assumes wf: "node_wf I m ns" and k: "key_ok I k" and n: "n < length ns" "i_key (ns ! n) = LNil"
    and mp: "keyed ns (m k)" "m (i_key (ns ! m k)) = m k"
    and absent: "\<And>i. keyed ns i \<Longrightarrow> \<not> keq (i_key (ns ! i)) k"
  shows "inserted I m ns (set_key (chain_after ns (m k) n) n k) n k"
proof -
  define ns1 where "ns1 = chain_after ns (m k) n"
  let ?ns = "set_key ns1 n k"
  have len: "m k < length ns" "length ns1 = length ns" and nm: "n \<noteq> m k"
    using mp n by (auto simp: keyed_def ns1_def)
  note fr = wf_free_node[OF wf n]
  note link1 = link_after[OF fr len(1) nm, folded ns1_def] and reach1 = reach_after[OF fr len(1) nm, folded ns1_def]
    and nth1 = after_nth[OF n(1) len(1) nm, folded ns1_def]
  have key1: "keyed ns1 i \<longleftrightarrow> keyed ns i" for i using nth1 len by (auto simp: keyed_def)
  have kd: "keyed ?ns i \<longleftrightarrow> i = n \<or> keyed ns i" for i using keyed_set_key[OF k, of n ns1] n len key1 by simp
  have key: "keyed ns i \<Longrightarrow> i < length ns \<and> i \<noteq> n" for i using n by (auto simp: keyed_def)
  have K: "i < length ns \<Longrightarrow> i_key (?ns ! i) = (if i = n then k else i_key (ns ! i))"
    "i < length ns \<Longrightarrow> i_val (?ns ! i) = i_val (ns ! i)" for i
    using nth1 len by (simp_all add: set_key_nth)
  have absent2: "keyed ns i \<Longrightarrow> \<not> keq k (i_key (ns ! i))" for i using absent keq_sym by blast
  have vn: "i_val (ns ! n) = LNil" using node_wfD(2)[OF wf n] by simp
  have wf': "node_wf I m ?ns"
  proof (rule node_wfI)
    show "chain_ok ?ns" using chain_ok_after[OF node_wfD(1)[OF wf] fr len(1) nm] by (simp add: ns1_def)
    fix i
    show "i < length ?ns \<Longrightarrow> i_key (?ns ! i) = LNil \<Longrightarrow> n_next (?ns ! i) = None \<and> i_val (?ns ! i) = LNil"
    proof -
      assume i: "i < length ?ns" "i_key (?ns ! i) = LNil"
      then have "i \<noteq> n" "i_key (ns ! i) = LNil" "i \<noteq> m k"
        using key_ok_proper[OF k] mp len by (auto simp: K keyed_def split: if_splits)
      then show ?thesis using node_wfD(2)[OF wf, of i] i len nth1(2,3)[of i] by (simp add: set_key_nth)
    qed
    show "i < length ?ns \<Longrightarrow> i_val (?ns ! i) \<noteq> LNil \<Longrightarrow> keyed ?ns i"
      using node_wfD(4)[OF wf, of i] len by (simp add: K kd)
    show "keyed ?ns i \<Longrightarrow> key_ok I (i_key (?ns ! i)) \<and> m (i_key (?ns ! i)) < length ?ns
        \<and> (m (i_key (?ns ! i)), i) \<in> (link ?ns)\<^sup>*"
    proof (cases "i = n")
      case True
      have "(m k, n) \<in> link ns1" by (simp add: link1)
      then show ?thesis using True k len n K(1)[of n] by auto
    next
      case False
      assume "keyed ?ns i"
      then have "keyed ns i" using False by (simp add: kd)
      then show ?thesis using node_wfD(5-7)[OF wf, of i] key[of i] reach1 len False by (simp add: K)
    qed
    show "keyed ?ns i \<Longrightarrow> keyed ?ns (m (i_key (?ns ! i))) \<Longrightarrow>
        m (i_key (?ns ! m (i_key (?ns ! i)))) = m (i_key (?ns ! i))"
    proof (cases "i = n")
      case True
      then show ?thesis using mp len n K nm by simp
    next
      case False
      assume i: "keyed ?ns i" "keyed ?ns (m (i_key (?ns ! i)))"
      then have "keyed ns i" using False by (simp add: kd)
      moreover then have "m (i_key (ns ! i)) \<noteq> n" using wf_free_main[OF wf n] by blast
      ultimately show ?thesis using node_wfD(6,8)[OF wf, of i] i(2) key[of i] False by (simp add: K kd)
    qed
    fix j
    show "(i, j) \<in> link ?ns \<Longrightarrow> i_key (?ns ! j) \<noteq> LNil"
      using node_wfD(3)[OF wf, of _ j] node_wfD(1)[OF wf] key_ok_proper[OF k] n K(1)[of j] K(1)[of n]
      by (auto simp: link1 chain_ok_def split: if_splits)
    show "keyed ?ns i \<Longrightarrow> keyed ?ns j \<Longrightarrow> keq (i_key (?ns ! i)) (i_key (?ns ! j)) \<Longrightarrow> i = j"
      using node_wfD(9)[OF wf, of i j] absent absent2 key n by (auto simp: kd K split: if_splits)
  qed
  have "nget ?ns k' = nget ns k'" for k'
  proof (rule nget_cong[OF wf wf'])
    fix i assume i: "keyed ns i"
    then show "\<exists>j. keyed ?ns j \<and> i_key (?ns ! j) = i_key (ns ! i) \<and> i_val (?ns ! j) = i_val (ns ! i)"
      using key[of i] by (intro exI[of _ i]) (simp add: kd K)
  next
    fix j assume j: "keyed ?ns j" "i_val (?ns ! j) \<noteq> LNil"
    then have "j \<noteq> n" "keyed ns j" using vn n by (auto simp: kd K)
    then show "\<exists>i. keyed ns i \<and> i_key (ns ! i) = i_key (?ns ! j) \<and> i_val (ns ! i) = i_val (?ns ! j)"
      using key[of j] by (intro exI[of _ j]) (simp add: K)
  qed
  moreover have "used ns \<subseteq> used ?ns" "used ?ns \<subseteq> insert n (used ns)"
    using key_ok_proper[OF k] len by (auto simp: used_def K split: if_splits)
  moreover have "i_key (?ns ! j) = k \<or> (\<exists>i. keyed ns i \<and> i_key (ns ! i) = i_key (?ns ! j))" if "keyed ?ns j" for j
    using that key[of j] n(1) by (cases "j = n") (auto simp: kd K)
  ultimately show ?thesis
    unfolding inserted_def ns1_def[symmetric] using wf' kd n len vn card_used_le[of ?ns n ns] by (auto simp: K)
qed

lemma move_nth:
  assumes "p < length ns" "mp < length ns" "n < length ns" "p \<noteq> mp" "p \<noteq> n" "n \<noteq> mp" "j < length ns"
  shows "i_key (move_colliding ns p mp n ! j) = (if j = n then i_key (ns ! mp) else i_key (ns ! j))"
    "i_val (move_colliding ns p mp n ! j) = (if j = n then i_val (ns ! mp) else if j = mp then LNil else i_val (ns ! j))"
    "n_next (move_colliding ns p mp n ! j) =
      (if j = mp then None else if j = n then n_next (ns ! mp) else if j = p then Some n else n_next (ns ! j))"
  using assms by (auto simp: move_colliding_def Let_def nth_list_update)

text \<open>The node at the main position of the new key is a stranger there: it moves to the free node \<open>n\<close>, and
  the key takes its place.\<close>

lemma insert_move:
  assumes wf: "node_wf I m ns" and k: "key_ok I k" and n: "n < length ns" "i_key (ns ! n) = LNil"
    and mp: "keyed ns (m k)" "m (i_key (ns ! m k)) \<noteq> m k" and p: "(p, m k) \<in> link ns"
    and absent: "\<And>i. keyed ns i \<Longrightarrow> \<not> keq (i_key (ns ! i)) k"
  shows "inserted I m ns (set_key (move_colliding ns p (m k) n) (m k) k) (m k) k"
proof -
  define ns1 where "ns1 = move_colliding ns p (m k) n"
  let ?ns = "set_key ns1 (m k) k" and ?sw = "swap_nodes (m k) n"
  have ok: "chain_ok ns" by (rule node_wfD(1)[OF wf])
  have len: "m k < length ns" "p < length ns" "length ns1 = length ns" and nm: "n \<noteq> m k"
    using mp n p by (auto simp: keyed_def ns1_def link_def)
  note fr = wf_free_node[OF wf n]
  have pn: "p \<noteq> m k" "p \<noteq> n" using p ok fr by (auto simp: chain_ok_def acyclic_def free_node_def link_def)
  note link1 = link_move[OF ok p fr nm, folded ns1_def] and reach1 = reach_move[OF ok p fr nm, folded ns1_def]
    and nth1 = move_nth[OF len(2,1) n(1) pn nm, folded ns1_def]
  have K: "i < length ns \<Longrightarrow> i_key (?ns ! i) = (if i = m k then k else i_key (ns ! ?sw i))"
    "i < length ns \<Longrightarrow> i_val (?ns ! i) = (if i = m k then LNil else i_val (ns ! ?sw i))" for i
    using nth1 len n nm by (auto simp: set_key_nth swap_nodes_def)
  have key: "keyed ns i \<Longrightarrow> i < length ns \<and> i \<noteq> n" for i using n by (auto simp: keyed_def)
  have kd: "keyed ?ns i \<longleftrightarrow> i = m k \<or> (i \<noteq> m k \<and> keyed ns (?sw i))" for i
  proof (cases "i < length ns")
    case True
    then have "?sw i < length ns" using len n by (auto simp: swap_nodes_def)
    then show ?thesis using key_ok_proper[OF k] True len by (simp add: keyed_def K(1)[OF True])
  next
    case False
    then show ?thesis using len n by (auto simp: keyed_def swap_nodes_def)
  qed
  have stranger: "m (i_key (ns ! i)) \<noteq> m k" if "keyed ns i" for i
    using node_wfD(8)[OF wf that] mp by metis
  have home: "?sw (m (i_key (ns ! i))) = m (i_key (ns ! i))" if "keyed ns i" for i
    using stranger[OF that] wf_free_main[OF wf n that] by (simp add: swap_nodes_def)
  have absent2: "keyed ns i \<Longrightarrow> \<not> keq k (i_key (ns ! i))" for i using absent keq_sym by blast
  have swl: "?sw i < length ns \<longleftrightarrow> i < length ns" for i using len n by (auto simp: swap_nodes_def)
  have wf': "node_wf I m ?ns"
  proof (rule node_wfI)
    show "chain_ok ?ns" using chain_ok_move[OF ok p fr nm] by (simp add: ns1_def)
    fix i
    show "i < length ?ns \<Longrightarrow> i_key (?ns ! i) = LNil \<Longrightarrow> n_next (?ns ! i) = None \<and> i_val (?ns ! i) = LNil"
    proof -
      assume i: "i < length ?ns" "i_key (?ns ! i) = LNil"
      then have a: "i \<noteq> m k" "i_key (ns ! ?sw i) = LNil" using key_ok_proper[OF k] len by (auto simp: K split: if_splits)
      then have "i \<noteq> n" using mp by (auto simp: swap_nodes_def keyed_def)
      then have "i_key (ns ! i) = LNil" "?sw i = i" using a by (auto simp: swap_nodes_def)
      moreover have "i \<noteq> p" using calculation node_wfD(2)[OF wf, of i] p len by (auto simp: link_def)
      ultimately show ?thesis using node_wfD(2)[OF wf, of i] i len a \<open>i \<noteq> n\<close> nth1(3)[of i]
        by (simp add: set_key_nth K(2)[unfolded set_key_nth] nth1)
    qed
    show "i < length ?ns \<Longrightarrow> i_val (?ns ! i) \<noteq> LNil \<Longrightarrow> keyed ?ns i"
      using node_wfD(4)[OF wf, of "?sw i"] len swl by (auto simp: K kd split: if_splits)
    show "keyed ?ns i \<Longrightarrow> key_ok I (i_key (?ns ! i)) \<and> m (i_key (?ns ! i)) < length ?ns
        \<and> (m (i_key (?ns ! i)), i) \<in> (link ?ns)\<^sup>*"
    proof (cases "i = m k")
      case True
      then show ?thesis using k len K(1)[of i] by simp
    next
      case False
      assume "keyed ?ns i"
      then have y: "keyed ns (?sw i)" using False kd by blast
      have "(m (i_key (ns ! ?sw i)), ?sw (?sw i)) \<in> (link ns1)\<^sup>*"
        using reach1[OF node_wfD(7)[OF wf y]] home[OF y] by simp
      then show ?thesis
        using node_wfD(5,6)[OF wf y] key[OF y] len False swl[of i] by (simp add: K)
    qed
    show "keyed ?ns i \<Longrightarrow> keyed ?ns (m (i_key (?ns ! i))) \<Longrightarrow>
        m (i_key (?ns ! m (i_key (?ns ! i)))) = m (i_key (?ns ! i))"
    proof (cases "i = m k")
      case True
      then show ?thesis using len K(1)[of i] by simp
    next
      case False
      assume i: "keyed ?ns i" "keyed ?ns (m (i_key (?ns ! i)))"
      then have y: "keyed ns (?sw i)" using False kd by blast
      have e: "i_key (?ns ! i) = i_key (ns ! ?sw i)" using False key[OF y] swl[of i] by (simp add: K)
      let ?q = "m (i_key (ns ! ?sw i))"
      have q: "keyed ns ?q" "?q \<noteq> m k" using i(2) stranger[OF y] home[OF y] by (auto simp: e kd)
      then show ?thesis using node_wfD(8)[OF wf y q(1)] key[OF q(1)] home[OF y] by (simp add: e K)
    qed
    fix j
    show "(i, j) \<in> link ?ns \<Longrightarrow> i_key (?ns ! j) \<noteq> LNil"
    proof -
      assume "(i, j) \<in> link ?ns"
      then have l: "(?sw i, ?sw j) \<in> link ns" by (simp add: link1)
      then have "?sw j < length ns" using ok by (auto simp: chain_ok_def)
      then show ?thesis using node_wfD(3)[OF wf l] key_ok_proper[OF k] swl[of j] by (simp add: K)
    qed
    show "keyed ?ns i \<Longrightarrow> keyed ?ns j \<Longrightarrow> keq (i_key (?ns ! i)) (i_key (?ns ! j)) \<Longrightarrow> i = j"
    proof -
      assume a: "keyed ?ns i" "keyed ?ns j" "keq (i_key (?ns ! i)) (i_key (?ns ! j))"
      have l: "i < length ns" "j < length ns" using a(1,2) len by (simp_all add: keyed_def)
      show "i = j"
      proof (cases "i = m k \<or> j = m k")
        case True
        then show ?thesis using a absent absent2 l by (auto simp: K kd)
      next
        case False
        then have "?sw i = ?sw j" using node_wfD(9)[OF wf, of "?sw i" "?sw j"] a l by (simp add: K kd)
        then show ?thesis by (metis swap_swap)
      qed
    qed
  qed
  have "nget ?ns k' = nget ns k'" for k'
  proof (rule nget_cong[OF wf wf'])
    fix i assume i: "keyed ns i"
    then have "?sw i \<noteq> m k" using key[OF i] nm by (auto simp: swap_nodes_def split: if_splits)
    then show "\<exists>j. keyed ?ns j \<and> i_key (?ns ! j) = i_key (ns ! i) \<and> i_val (?ns ! j) = i_val (ns ! i)"
      using i key[OF i] swl[of i] by (intro exI[of _ "?sw i"]) (simp add: kd K)
  next
    fix j assume j: "keyed ?ns j" "i_val (?ns ! j) \<noteq> LNil"
    then have "j \<noteq> m k" "keyed ns (?sw j)" using len by (auto simp: kd K)
    then show "\<exists>i. keyed ns i \<and> i_key (ns ! i) = i_key (?ns ! j) \<and> i_val (ns ! i) = i_val (?ns ! j)"
      using key[of "?sw j"] swl[of j] by (intro exI[of _ "?sw j"]) (simp add: K)
  qed
  moreover have "used ns \<subseteq> used ?ns" "used ?ns \<subseteq> insert n (used ns)"
    using key_ok_proper[OF k] len mp by (auto simp: used_def K swap_nodes_def keyed_def split: if_splits)
  moreover have "i_key (?ns ! j) = k \<or> (\<exists>i. keyed ns i \<and> i_key (ns ! i) = i_key (?ns ! j))" if "keyed ?ns j" for j
    using that key[of "?sw j"] len(1) swl[of j] by (cases "j = m k") (auto simp: kd K)
  ultimately show ?thesis
    unfolding inserted_def ns1_def[symmetric] using wf' kd n len card_used_le[of ?ns n ns] by (auto simp: K)
qed

subsection \<open>The invariant of tables\<close>

definition in_array :: "Table \<Rightarrow> TValue \<Rightarrow> bool" where
  "in_array t k = (0 < arrayindex k \<and> arrayindex k \<le> int (sizearray t))"

definition table_core :: "TString set \<Rightarrow> Table \<Rightarrow> bool" where
  "table_core I t =
     (inj_on ts_addr I \<and> sizearray t \<le> length (array t) \<and> int (sizearray t) \<le> MAXASIZE
      \<and> lsizenode t \<le> MAXBITS \<and> length (nodes t) = 2 ^ lsizenode t
      \<and> (node t = None \<longrightarrow> lastfree t \<le> 0) \<and> lastfree t \<le> 2 ^ lsizenode t
      \<and> (node t \<noteq> None \<longrightarrow> (\<forall>i<length (nodes t). lastfree t \<le> int i \<longrightarrow> i_key (nodes t ! i) \<noteq> LNil))
      \<and> node_wf I (mainposition t) (nodes t)
      \<and> (\<forall>i. keyed (nodes t) i \<longrightarrow> \<not> in_array t (i_key (nodes t ! i))))"

definition table_wf :: "TString set \<Rightarrow> Table \<Rightarrow> bool" where
  "table_wf I t = (table_core I t \<and> length (array t) = sizearray t)"

lemma table_coreD:
  assumes "table_core I t"
  shows "inj_on ts_addr I" "sizearray t \<le> length (array t)" "int (sizearray t) \<le> MAXASIZE"
    "lsizenode t \<le> 26" "length (nodes t) = 2 ^ lsizenode t" "node t = None \<Longrightarrow> lastfree t \<le> 0"
    "lastfree t \<le> 2 ^ lsizenode t"
    "node t \<noteq> None \<Longrightarrow> i < length (nodes t) \<Longrightarrow> lastfree t \<le> int i \<Longrightarrow> i_key (nodes t ! i) \<noteq> LNil"
    "node_wf I (mainposition t) (nodes t)"
    "keyed (nodes t) i \<Longrightarrow> \<not> in_array t (i_key (nodes t ! i))"
    "mainposition t k < length (nodes t)"
  using assms mainposition_less[of t k] unfolding table_core_def MAXBITS_def by auto

text \<open>What a key is bound to.\<close>

definition lookup :: "Table \<Rightarrow> TValue \<Rightarrow> TValue" where
  "lookup t k = (if in_array t k then array t ! nat (arrayindex k - 1) else nget (nodes t) k)"

text \<open>The slot a search ends in.\<close>

definition finds :: "Table \<Rightarrow> TValue \<Rightarrow> slot \<Rightarrow> bool" where
  "finds t k s =
     (if in_array t k then s = SArray (nat (arrayindex k - 1))
      else (\<exists>i. keyed (nodes t) i \<and> keq (i_key (nodes t ! i)) k \<and> s = SNode i)
           \<or> s = SNilObject \<and> (\<forall>i. keyed (nodes t) i \<longrightarrow> \<not> keq (i_key (nodes t ! i)) k))"

lemma finds_val: "table_core I t \<Longrightarrow> finds t k s \<Longrightarrow> slot_val t s = lookup t k"
  using nget_at[OF table_coreD(9)] nget_none by (auto simp: finds_def lookup_def split: if_splits)

lemma finds_same: "table_core I t \<Longrightarrow> finds t k s \<Longrightarrow> finds t k s' \<Longrightarrow> s = s'"
  using keyed_unique[OF table_coreD(9)] unfolding finds_def by (metis (full_types))

lemma keq_proper: "keq x k \<Longrightarrow> key_ok I k \<Longrightarrow> x \<noteq> LNil \<and> (\<forall>a. x \<noteq> LDeadKey a)"
  by (cases x; cases k) (auto simp: luaO_rawequalObj_def key_ok_def)

lemma chain_slot_finds:
  assumes wf: "table_core I t" and k: "key_ok I k" and na: "\<not> in_array t k"
    and P: "\<And>n. P n \<longleftrightarrow> keq (i_key n) k" and start: "start = mainposition t k"
  shows "\<exists>s. chain_slot t P start = Inr s \<and> finds t k s"
proof -
  note nw = table_coreD(9)[OF wf]
  have lt: "start < length (nodes t)" using table_coreD(11)[OF wf] start by simp
  from chain_find_spec[OF node_wfD(1)[OF nw] lt, of P] show ?thesis
  proof (elim disjE exE conjE)
    fix j assume j: "chain_find (length (nodes t)) (nodes t) P start = Inr (Some j)"
      "(start, j) \<in> (link (nodes t))\<^sup>*" "P (nodes t ! j)"
    have "j < length (nodes t)" by (rule reach_less[OF node_wfD(1)[OF nw] j(2) lt])
    then have "keyed (nodes t) j" using j(3) keq_proper[OF _ k] by (auto simp: keyed_def P)
    then show ?thesis using j na by (auto simp: chain_slot_def finds_def P)
  next
    assume n: "chain_find (length (nodes t)) (nodes t) P start = Inr None"
      "\<forall>j. (start, j) \<in> (link (nodes t))\<^sup>* \<longrightarrow> \<not> P (nodes t ! j)"
    have "\<not> keq (i_key (nodes t ! i)) k" if i: "keyed (nodes t) i" for i
    proof
      assume e: "keq (i_key (nodes t ! i)) k"
      then have "mainposition t (i_key (nodes t ! i)) = start"
        using keq_same(1)[OF e table_coreD(1)[OF wf] node_wfD(5)[OF nw i] k] start by simp
      then have "(start, i) \<in> (link (nodes t))\<^sup>*" using node_wfD(7)[OF nw i] by simp
      then show False using n(2) e by (auto simp: P)
    qed
    then show ?thesis using n na by (auto simp: chain_slot_def finds_def)
  qed
qed

lemma key_num_ok: "\<bar>i\<bar> < 2 ^ 53 \<Longrightarrow> key_ok I (LNumber (cast_num i))"
  by (simp add: key_ok_def cast_num_props)

lemma array_word:
  assumes "- (2 ^ 31) \<le> i" "i < 2 ^ 31" "int n \<le> MAXASIZE"
  shows "(word_of_int (i - 1) :: u32) < word_of_nat n \<longleftrightarrow> 0 < i \<and> i \<le> int n"
proof -
  have n: "uint (word_of_nat n :: u32) = int n"
    using assms(3) by (simp add: uint_nat unat_of_nat take_bit_nat_eq_self MAXASIZE_def MAXBITS_def)
  have "uint (word_of_int (i - 1) :: u32) = (i - 1) mod 2 ^ 32" by (simp only: uint_word_of_int) simp
  also have "\<dots> = (if 0 < i then i - 1 else i - 1 + 2 ^ 32)"
  proof (cases "0 < i")
    case False
    have "(i - 1) mod 2 ^ 32 = (i - 1 + 2 ^ 32) mod 2 ^ 32" by (simp only: mod_add_self2)
    also have "\<dots> = i - 1 + 2 ^ 32" using False assms(1) by (intro mod_pos_pos_trivial) auto
    finally show ?thesis using False by simp
  qed (use assms(2) in \<open>simp add: mod_pos_pos_trivial\<close>)
  finally show ?thesis using n assms unfolding word_less_def by (auto simp: MAXASIZE_def MAXBITS_def)
qed

lemma luaH_getnum_finds:
  assumes wf: "table_core I t" and i: "- (2 ^ 31) \<le> i" "i < 2 ^ 31"
  shows "\<exists>s. luaH_getnum t i = Inr s \<and> finds t (LNumber (cast_num i)) s"
proof -
  have a: "arrayindex (LNumber (cast_num i)) = i" using i by (intro arrayindex_int) auto
  show ?thesis
  proof (cases "in_array t (LNumber (cast_num i))")
    case True
    then show ?thesis using a array_word[OF i table_coreD(3)[OF wf]]
      by (simp add: luaH_getnum_def finds_def in_array_def)
  next
    case False
    have k: "key_ok I (LNumber (cast_num i))" using i by (intro key_num_ok) auto
    have "\<exists>s. chain_slot t (\<lambda>n. case i_key n of LNumber m \<Rightarrow> luai_numeq m (cast_num i) | _ \<Rightarrow> False)
        (hashnum t (cast_num i)) = Inr s \<and> finds t (LNumber (cast_num i)) s"
      by (rule chain_slot_finds[OF wf k False])
         (auto simp: luaO_rawequalObj_def mainposition_def split: TValue.split)
    then show ?thesis using False a array_word[OF i table_coreD(3)[OF wf]]
      unfolding luaH_getnum_def Let_def in_array_def by auto
  qed
qed

lemma finds_keq:
  assumes wf: "table_core I t" and e: "keq a b" and ok: "key_ok I a" "key_ok I b"
  shows "finds t a s \<longleftrightarrow> finds t b s"
proof -
  have "in_array t a = in_array t b" "arrayindex a = arrayindex b"
    using keq_same(2)[OF e table_coreD(1)[OF wf] ok] by (simp_all add: in_array_def)
  moreover have "keq x a \<longleftrightarrow> keq x b" for x using e keq_trans keq_sym by blast
  ultimately show ?thesis by (simp add: finds_def)
qed

lemma luaH_getstr_finds:
  assumes "table_core I t" "s \<in> I" shows "\<exists>r. luaH_getstr t s = Inr r \<and> finds t (LString s) r"
  unfolding luaH_getstr_def
  by (rule chain_slot_finds[OF assms(1)])
     (use assms in \<open>auto simp: key_ok_def in_array_def arrayindex_def luaO_rawequalObj_def mainposition_def split: TValue.split\<close>)

lemma luaH_get_any_finds:
  assumes "table_core I t" "key_ok I k" "\<not> in_array t k"
  shows "\<exists>s. luaH_get_any t k = Inr s \<and> finds t k s"
  unfolding luaH_get_any_def by (rule chain_slot_finds[OF assms refl refl])

lemma luaH_get_finds:
  assumes wf: "table_core I t" and k: "key_ok I k"
  shows "\<exists>s. luaH_get t k = Inr s \<and> finds t k s"
proof (cases k)
  case (LNumber n)
  define i where "i = lua_number2int n"
  note b = lua_number2int_bounds[of n, folded i_def]
  show ?thesis
  proof (cases "luai_numeq (cast_num i) n")
    case True
    have e: "keq (LNumber (cast_num i)) k" using True LNumber by (simp add: luaO_rawequalObj_def)
    have ok: "key_ok I (LNumber (cast_num i))" using b by (intro key_num_ok) auto
    show ?thesis using luaH_getnum_finds[OF wf b] finds_keq[OF wf e ok k] True LNumber
      by (auto simp: luaH_get_def i_def Let_def)
  next
    case False
    then have "\<not> in_array t k" using LNumber by (simp add: in_array_def arrayindex_def i_def Let_def)
    then show ?thesis using luaH_get_any_finds[OF wf k] False LNumber by (simp add: luaH_get_def i_def Let_def)
  qed
next
  case (LString s)
  then show ?thesis using luaH_getstr_finds[OF wf, of s] k by (simp add: luaH_get_def key_ok_def)
qed (use luaH_get_any_finds[OF wf k] k in \<open>simp_all add: luaH_get_def in_array_def arrayindex_def key_ok_def\<close>)

subsection \<open>Free positions\<close>

lemma getfree_loop_None:
  "getfree_loop ns l = (None, lf) \<Longrightarrow> lf = -1 \<and> (\<forall>i<l. i_key (ns ! i) \<noteq> LNil)"
  by (induction l) (auto simp: less_Suc_eq split: if_splits)

lemma getfree_loop_Some:
  "getfree_loop ns l = (Some n, lf) \<Longrightarrow>
     lf = int n \<and> n < l \<and> i_key (ns ! n) = LNil \<and> (\<forall>i<l. n < i \<longrightarrow> i_key (ns ! i) \<noteq> LNil)"
  by (induction l) (auto simp: less_Suc_eq split: if_splits)

lemma getfreepos_None:
  assumes "table_core I t" "getfreepos t = (None, t')"
  shows "t' = t\<lparr>lastfree := lastfree t'\<rparr>" "lastfree t' \<le> 0"
    "node t \<noteq> None \<Longrightarrow> i < length (nodes t) \<Longrightarrow> i_key (nodes t ! i) \<noteq> LNil"
proof -
  have *: "t' = t\<lparr>lastfree := lastfree t'\<rparr> \<and> lastfree t' \<le> 0
    \<and> (\<forall>i<nat (lastfree t). i_key (nodes t ! i) \<noteq> LNil)"
    using assms(2) getfree_loop_None[of "nodes t" "nat (lastfree t)"]
    by (auto simp: getfreepos_def Let_def split: if_splits prod.splits)
  show "t' = t\<lparr>lastfree := lastfree t'\<rparr>" "lastfree t' \<le> 0" using * by blast+
  assume "node t \<noteq> None" "i < length (nodes t)"
  then show "i_key (nodes t ! i) \<noteq> LNil"
    using table_coreD(8)[OF assms(1), of i] * by (cases "lastfree t \<le> int i") auto
qed

lemma getfreepos_Some:
  assumes wf: "table_core I t" and g: "getfreepos t = (Some n, t')"
  shows "t' = t\<lparr>lastfree := int n\<rparr>" "n < length (nodes t)" "i_key (nodes t ! n) = LNil" "node t \<noteq> None"
    "i < length (nodes t) \<Longrightarrow> n < i \<Longrightarrow> i_key (nodes t ! i) \<noteq> LNil"
proof -
  have s: "0 < lastfree t" "t' = t\<lparr>lastfree := int n\<rparr>" "n < nat (lastfree t)" "i_key (nodes t ! n) = LNil"
    "\<forall>i<nat (lastfree t). n < i \<longrightarrow> i_key (nodes t ! i) \<noteq> LNil"
    using g getfree_loop_Some[of "nodes t" "nat (lastfree t)" n]
    by (auto simp: getfreepos_def Let_def split: if_splits prod.splits)
  show "t' = t\<lparr>lastfree := int n\<rparr>" "i_key (nodes t ! n) = LNil" by (rule s)+
  show nd: "node t \<noteq> None" using s(1) table_coreD(6)[OF wf] by auto
  have "lastfree t \<le> int (length (nodes t))" using table_coreD(5,7)[OF wf] by simp
  then show "n < length (nodes t)" using s(3) by linarith
  show "i < length (nodes t) \<Longrightarrow> n < i \<Longrightarrow> i_key (nodes t ! i) \<noteq> LNil"
    using s(5) table_coreD(8)[OF wf nd, of i] by (cases "lastfree t \<le> int i") auto
qed

subsection \<open>A new key where there is room\<close>

definition grown :: "TString set \<Rightarrow> Table \<Rightarrow> Table \<Rightarrow> TValue \<Rightarrow> slot \<Rightarrow> bool" where
  "grown I t t' k s =
     (table_core I t' \<and> finds t' k s \<and> s \<noteq> SNilObject \<and> (\<forall>k'. lookup t' k' = lookup t k')
      \<and> array t' = array t \<and> sizearray t' = sizearray t \<and> lsizenode t' = lsizenode t \<and> metatable t' = metatable t
      \<and> (node t \<noteq> None \<longrightarrow> node t' \<noteq> None)
      \<and> card (used (nodes t')) \<le> card (used (nodes t)) + (if in_array t k then 0 else 1))"

lemma in_array_cong: "sizearray t' = sizearray t \<Longrightarrow> in_array t' = in_array t"
  by (simp add: in_array_def fun_eq_iff)

text \<open>A vector of nodes with a key put in gives a table again.\<close>

lemma inserted_grown:
  assumes wf: "table_core I t" and k: "key_ok I k" and na: "\<not> in_array t k"
    and ins: "inserted I (mainposition t) (nodes t) ns' s k" and nd: "node t \<noteq> None"
    and lf: "lf \<le> 2 ^ lsizenode t" "\<And>i. i < length (nodes t) \<Longrightarrow> lf \<le> int i \<Longrightarrow> i_key (ns' ! i) \<noteq> LNil"
  shows "grown I t (t\<lparr>lastfree := lf, node := Some ns'\<rparr>) k (SNode s)"
proof -
  let ?t = "t\<lparr>lastfree := lf, node := Some ns'\<rparr>"
  have n: "nodes ?t = ns'" by (simp add: nodes_def)
  note mp = mainposition_cong[of ?t t, simplified] and ia = in_array_cong[of ?t t, simplified]
  have i: "node_wf I (mainposition t) ns'" "length ns' = length (nodes t)" "keyed ns' s" "i_key (ns' ! s) = k"
    "\<And>k'. nget ns' k' = nget (nodes t) k'" "card (used ns') \<le> Suc (card (used (nodes t)))"
    using ins unfolding inserted_def by blast+
  have "\<not> in_array t (i_key (ns' ! j))" if j: "keyed ns' j" for j
    using ins j na table_coreD(10)[OF wf] unfolding inserted_def by metis
  then have "table_core I ?t"
    using wf i lf unfolding table_core_def n mp ia by simp
  moreover have "finds ?t k (SNode s)" using i na keq_refl[OF k] unfolding finds_def n ia by auto
  moreover have "lookup ?t k' = lookup t k'" for k' using i(5) unfolding lookup_def n ia by simp
  ultimately show ?thesis using i(6) na by (simp add: grown_def n)
qed

lemma flags_irrelevant [simp]:
  "nodes (t\<lparr>flags := x\<rparr>) = nodes t" "in_array (t\<lparr>flags := x\<rparr>) = in_array t"
  "mainposition (t\<lparr>flags := x\<rparr>) = mainposition t" "table_core I (t\<lparr>flags := x\<rparr>) = table_core I t"
  "finds (t\<lparr>flags := x\<rparr>) = finds t" "lookup (t\<lparr>flags := x\<rparr>) = lookup t"
proof -
  show n: "nodes (t\<lparr>flags := x\<rparr>) = nodes t" by (simp add: nodes_def)
  show a: "in_array (t\<lparr>flags := x\<rparr>) = in_array t" by (rule in_array_cong) simp
  show m: "mainposition (t\<lparr>flags := x\<rparr>) = mainposition t" by (rule mainposition_cong) simp
  show "table_core I (t\<lparr>flags := x\<rparr>) = table_core I t" by (simp add: table_core_def n a m)
  show "finds (t\<lparr>flags := x\<rparr>) = finds t" by (simp add: finds_def n a fun_eq_iff)
  show "lookup (t\<lparr>flags := x\<rparr>) = lookup t" by (simp add: lookup_def n a fun_eq_iff)
qed

lemma grown_flags: "grown I (t\<lparr>flags := x\<rparr>) t' k s = grown I t t' k s"
  by (simp add: grown_def)

lemma newkey_room:
  assumes wf: "table_core I t" and k: "key_ok I k" and na: "\<not> in_array t k"
    and absent: "\<And>i. keyed (nodes t) i \<Longrightarrow> \<not> keq (i_key (nodes t ! i)) k"
    and nd: "node t \<noteq> None"
    and room: "i_val (nodes t ! mainposition t k) \<noteq> LNil \<Longrightarrow> card (used (nodes t)) < length (nodes t)"
  shows "\<exists>s t'. newkey (Suc d) t k = Inr (s, t') \<and> grown I t t' k s"
proof -
  let ?ns = "nodes t" and ?m = "mainposition t"
  note nw = table_coreD(9)[OF wf]
  have mp: "?m k < length ?ns" by (rule table_coreD(11)[OF wf])
  have lf: "lastfree t \<le> 2 ^ lsizenode t" by (rule table_coreD(7)[OF wf])
  have keys: "i_key (ns' ! i) \<noteq> LNil" if "inserted I ?m ?ns ns' s k" "i < length ?ns" "i_key (?ns ! i) \<noteq> LNil" for ns' s i
    using that by (auto simp: inserted_def used_def)
  show ?thesis
  proof (cases "i_val (?ns ! ?m k) = LNil")
    case True
    have ins: "inserted I ?m ?ns (set_key ?ns (?m k) k) (?m k) k"
      by (rule insert_main[OF nw k mp True]) (rule absent)
    have "grown I t (t\<lparr>lastfree := lastfree t, node := Some (set_key ?ns (?m k) k)\<rparr>) k (SNode (?m k))"
      by (rule inserted_grown[OF wf k na ins nd lf]) (intro keys[OF ins] table_coreD(8)[OF wf nd])
    moreover have "newkey (Suc d) t k = Inr (SNode (?m k), t\<lparr>node := Some (set_key ?ns (?m k) k)\<rparr>)"
      using True nd by (auto simp: newkey.simps Let_def)
    ultimately show ?thesis by simp
  next
    case False
    have kmp: "keyed ?ns (?m k)" by (rule node_wfD(4)[OF nw mp False])
    obtain r t1 where g: "getfreepos t = (r, t1)" by fastforce
    obtain n where r: "r = Some n"
    proof (cases r)
      case None
      then have "used ?ns = {..<length ?ns}" using getfreepos_None(3)[OF wf _ nd] g by (auto simp: used_def)
      then show ?thesis using room[OF False] by simp
    qed
    note f = getfreepos_Some[OF wf g[unfolded r]]
    have t1: "nodes t1 = ?ns" "mainposition t1 = ?m"
      using mainposition_cong[of t1 t] by (simp_all add: f(1) nodes_def)
    have fin: "grown I t (t\<lparr>lastfree := int n, node := Some ns'\<rparr>) k (SNode s)"
      if ins: "inserted I ?m ?ns ns' s k" and nn: "i_key (ns' ! n) \<noteq> LNil" for ns' s
    proof (rule inserted_grown[OF wf k na ins nd])
      show "int n \<le> 2 ^ lsizenode t" using f(2) table_coreD(5)[OF wf] by simp
      fix i assume i: "i < length ?ns" "int n \<le> int i"
      then show "i_key (ns' ! i) \<noteq> LNil"
        using keys[OF ins i(1)] f(5)[OF i(1)] nn by (cases "i = n") auto
    qed
    show ?thesis
    proof (cases "?m (i_key (?ns ! ?m k)) = ?m k")
      case True
      have ins: "inserted I ?m ?ns (set_key (chain_after ?ns (?m k) n) n k) n k"
        by (rule insert_after[OF nw k f(2,3) kmp True]) (rule absent)
      have "newkey (Suc d) t k = Inr (SNode n, t1\<lparr>node := Some (set_key (chain_after ?ns (?m k) n) n k)\<rparr>)"
        using False g r True t1 by (simp add: newkey.simps Let_def)
      moreover have "i_key (set_key (chain_after ?ns (?m k) n) n k ! n) \<noteq> LNil"
        using ins key_ok_proper[OF k] by (simp add: inserted_def)
      ultimately show ?thesis using fin[OF ins] f(1) by simp
    next
      case stranger: False
      have "(?m (i_key (?ns ! ?m k)), ?m k) \<in> (link ?ns)\<^sup>+"
        using node_wfD(7)[OF nw kmp] stranger by (simp add: rtrancl_eq_or_trancl)
      then obtain p where p: "find_previous (length ?ns) ?ns (?m (i_key (?ns ! ?m k))) (?m k) = Inr p"
        "(p, ?m k) \<in> link ?ns"
        using find_previous_spec[OF node_wfD(1)[OF nw] table_coreD(11)[OF wf]] by blast
      have ins: "inserted I ?m ?ns (set_key (move_colliding ?ns p (?m k) n) (?m k) k) (?m k) k"
        by (rule insert_move[OF nw k f(2,3) kmp stranger p(2)]) (rule absent)
      have "newkey (Suc d) t k = Inr (SNode (?m k), t1\<lparr>node := Some (set_key (move_colliding ?ns p (?m k) n) (?m k) k)\<rparr>)"
        using False g r stranger t1 p(1) by (simp add: newkey.simps Let_def)
      moreover have "i_key (set_key (move_colliding ?ns p (?m k) n) (?m k) k ! n) \<noteq> LNil"
      proof -
        have "n \<noteq> ?m k" using f(3) kmp by (auto simp: keyed_def)
        moreover have "p \<noteq> ?m k" using p(2) node_wfD(1)[OF nw] by (auto simp: chain_ok_def acyclic_def)
        moreover have "p \<noteq> n" using p(2) wf_free_node[OF nw f(2,3)] by (auto simp: free_node_def link_def)
        moreover have "p < length ?ns" using p(2) by (simp add: link_def)
        ultimately show ?thesis using f(2) mp kmp by (simp add: set_key_nth move_nth keyed_def)
      qed
      ultimately show ?thesis using fin[OF ins] f(1) by simp
    qed
  qed
qed

text \<open>Room for a key: it belongs to the array, or a node is free.\<close>

definition room_for :: "Table \<Rightarrow> TValue \<Rightarrow> bool" where
  "room_for t k = (in_array t k \<or> node t \<noteq> None \<and> card (used (nodes t)) < length (nodes t))"

lemma finds_grown_same:
  "table_core I t \<Longrightarrow> finds t k s \<Longrightarrow> s \<noteq> SNilObject \<Longrightarrow> grown I t t k s"
  by (simp add: grown_def)

lemma luaH_set_room:
  assumes wf: "table_core I t" and k: "key_ok I k" and room: "room_for t k"
  shows "\<exists>s t'. luaH_set_by (newkey (Suc d)) t k = Inr (s, t') \<and> grown I t t' k s"
proof -
  obtain s where s: "luaH_get t k = Inr s" "finds t k s" using luaH_get_finds[OF wf k] by blast
  show ?thesis
  proof (cases "s = SNilObject")
    case False
    then show ?thesis using s finds_grown_same[OF _ _ False, of I "t\<lparr>flags := 0\<rparr>" k] wf
      by (simp add: luaH_set_by_def grown_flags)
  next
    case True
    then have a: "\<not> in_array t k" "\<And>i. keyed (nodes t) i \<Longrightarrow> \<not> keq (i_key (nodes t ! i)) k"
      using s(2) by (auto simp: finds_def split: if_splits)
    then have r: "node t \<noteq> None" "card (used (nodes t)) < length (nodes t)" using room by (auto simp: room_for_def)
    have "\<exists>s t'. newkey (Suc d) (t\<lparr>flags := 0\<rparr>) k = Inr (s, t') \<and> grown I (t\<lparr>flags := 0\<rparr>) t' k s"
      by (rule newkey_room) (use wf k a r in simp_all)
    moreover have "luaH_set_by (newkey (Suc d)) t k = newkey (Suc d) (t\<lparr>flags := 0\<rparr>) k"
      using s(1) True k by (cases k) (simp_all add: luaH_set_by_def key_ok_def luai_numisnan_iff)
    ultimately show ?thesis by (simp add: grown_flags)
  qed
qed

lemma luaH_setnum_room:
  assumes wf: "table_core I t" and i: "- (2 ^ 31) \<le> i" "i < 2 ^ 31" and room: "room_for t (LNumber (cast_num i))"
  shows "\<exists>s t'. luaH_setnum_by (newkey (Suc d)) t i = Inr (s, t') \<and> grown I t t' (LNumber (cast_num i)) s"
proof -
  obtain s where s: "luaH_getnum t i = Inr s" "finds t (LNumber (cast_num i)) s"
    using luaH_getnum_finds[OF wf i] by blast
  have k: "key_ok I (LNumber (cast_num i))" using i by (intro key_num_ok) auto
  show ?thesis
  proof (cases "s = SNilObject")
    case False
    then show ?thesis using s finds_grown_same[OF wf] by (simp add: luaH_setnum_by_def)
  next
    case True
    then have a: "\<not> in_array t (LNumber (cast_num i))"
      "\<And>j. keyed (nodes t) j \<Longrightarrow> \<not> keq (i_key (nodes t ! j)) (LNumber (cast_num i))"
      using s(2) by (auto simp: finds_def split: if_splits)
    then have "\<exists>s t'. newkey (Suc d) t (LNumber (cast_num i)) = Inr (s, t') \<and> grown I t t' (LNumber (cast_num i)) s"
      using room by (intro newkey_room[OF wf k]) (auto simp: room_for_def)
    then show ?thesis using s(1) True by (simp add: luaH_setnum_by_def)
  qed
qed

subsection \<open>Writing to a slot\<close>

definition set_val :: "Node list \<Rightarrow> nat \<Rightarrow> TValue \<Rightarrow> Node list" where
  "set_val ns i v = ns[i := (ns ! i)\<lparr>i_val := v\<rparr>]"

lemma set_val_nth:
  "length (set_val ns i v) = length ns"
  "j < length ns \<Longrightarrow> i_key (set_val ns i v ! j) = i_key (ns ! j)"
  "j < length ns \<Longrightarrow> n_next (set_val ns i v ! j) = n_next (ns ! j)"
  "j < length ns \<Longrightarrow> i_val (set_val ns i v ! j) = (if j = i then v else i_val (ns ! j))"
  by (cases "i = j"; simp add: set_val_def)+

lemma set_val_keyed: "keyed (set_val ns i v) j \<longleftrightarrow> keyed ns j"
  by (auto simp: keyed_def set_val_nth)

lemma set_val_used: "used (set_val ns i v) = used ns"
  by (auto simp: used_def set_val_nth)

lemma set_val_link: "link (set_val ns i v) = link ns"
  by (rule link_cong) (simp add: list_eq_iff_nth_eq set_val_nth)

lemma set_val_wf:
  assumes wf: "node_wf I m ns" and i: "keyed ns i" shows "node_wf I m (set_val ns i v)"
proof -
  have key: "keyed ns j \<Longrightarrow> j < length ns" for j by (simp add: keyed_def)
  note S = set_val_keyed set_val_nth set_val_link
  show ?thesis
  proof (rule node_wfI)
    show "chain_ok (set_val ns i v)" using node_wfD(1)[OF wf] by (simp add: chain_ok_def S)
    fix a b
    show "a < length (set_val ns i v) \<Longrightarrow> i_key (set_val ns i v ! a) = LNil \<Longrightarrow>
        n_next (set_val ns i v ! a) = None \<and> i_val (set_val ns i v ! a) = LNil"
      using node_wfD(2)[OF wf, of a] i by (auto simp: S keyed_def)
    show "(a, b) \<in> link (set_val ns i v) \<Longrightarrow> i_key (set_val ns i v ! b) \<noteq> LNil"
      using node_wfD(3)[OF wf, of a b] node_wfD(1)[OF wf] by (simp add: S chain_ok_def)
    show "a < length (set_val ns i v) \<Longrightarrow> i_val (set_val ns i v ! a) \<noteq> LNil \<Longrightarrow> keyed (set_val ns i v) a"
      using node_wfD(4)[OF wf, of a] i by (auto simp: S split: if_splits)
    show "keyed (set_val ns i v) a \<Longrightarrow> key_ok I (i_key (set_val ns i v ! a))
        \<and> m (i_key (set_val ns i v ! a)) < length (set_val ns i v)
        \<and> (m (i_key (set_val ns i v ! a)), a) \<in> (link (set_val ns i v))\<^sup>*"
      using node_wfD(5-7)[OF wf, of a] key[of a] by (simp add: S)
    show "keyed (set_val ns i v) a \<Longrightarrow> keyed (set_val ns i v) (m (i_key (set_val ns i v ! a))) \<Longrightarrow>
        m (i_key (set_val ns i v ! m (i_key (set_val ns i v ! a)))) = m (i_key (set_val ns i v ! a))"
      using node_wfD(6,8)[OF wf, of a] key[of a] by (simp add: S)
    show "keyed (set_val ns i v) a \<Longrightarrow> keyed (set_val ns i v) b \<Longrightarrow>
        keq (i_key (set_val ns i v ! a)) (i_key (set_val ns i v ! b)) \<Longrightarrow> a = b"
      using node_wfD(9)[OF wf, of a b] key[of a] key[of b] by (simp add: S)
  qed
qed

lemma set_val_nget:
  assumes wf: "node_wf I m ns" and i: "keyed ns i"
  shows "nget (set_val ns i v) k = (if keq (i_key (ns ! i)) k then v else nget ns k)"
proof -
  have il: "i < length ns" using i by (simp add: keyed_def)
  note wf' = set_val_wf[OF wf i, of v]
  show ?thesis
  proof (cases "keq (i_key (ns ! i)) k")
    case True
    then show ?thesis using nget_at[OF wf', of i k] i il by (simp add: set_val_keyed set_val_nth)
  next
    case False
    have o: "j \<noteq> i \<and> j < length ns" if "keyed ns j" "keq (i_key (ns ! j)) k" for j
      using that False by (auto simp: keyed_def)
    show ?thesis
    proof (rule nget_cases[OF wf, of k])
      fix j assume j: "keyed ns j" "keq (i_key (ns ! j)) k" "nget ns k = i_val (ns ! j)"
      then show ?thesis using nget_at[OF wf', of j k] o[OF j(1,2)] False by (simp add: set_val_keyed set_val_nth)
    next
      assume n: "\<And>j. keyed ns j \<Longrightarrow> \<not> keq (i_key (ns ! j)) k" "nget ns k = LNil"
      have "nget (set_val ns i v) k = LNil"
      proof (rule nget_none)
        fix j assume "keyed (set_val ns i v) j"
        then have "keyed ns j" "j < length ns" by (simp_all add: set_val_keyed) (simp add: keyed_def)
        then show "\<not> keq (i_key (set_val ns i v ! j)) k" using n(1)[of j] by (simp add: set_val_nth)
      qed
      then show ?thesis using n(2) False by simp
    qed
  qed
qed

lemma in_array_key: "in_array t k \<Longrightarrow> nat (arrayindex k - 1) < sizearray t"
  by (auto simp: in_array_def)

lemma set_slot_law:
  assumes wf: "table_core I t" and k: "key_ok I k" and s: "finds t k s" "s \<noteq> SNilObject"
  shows "table_core I (set_slot t s v)
    \<and> (\<forall>k'. key_ok I k' \<longrightarrow> lookup (set_slot t s v) k' = (if keq k' k then v else lookup t k'))
    \<and> array (set_slot t s v) = (if in_array t k then (array t)[nat (arrayindex k - 1) := v] else array t)
    \<and> sizearray (set_slot t s v) = sizearray t \<and> lsizenode (set_slot t s v) = lsizenode t
    \<and> used (nodes (set_slot t s v)) = used (nodes t)
    \<and> (node (set_slot t s v) = None \<longleftrightarrow> node t = None) \<and> metatable (set_slot t s v) = metatable t"
proof (cases "in_array t k")
  case True
  let ?i = "nat (arrayindex k - 1)"
  let ?t = "t\<lparr>array := (array t)[?i := v]\<rparr>"
  have s': "set_slot t s v = ?t" using s True by (simp add: finds_def)
  have e: "nodes ?t = nodes t" "in_array ?t = in_array t" "mainposition ?t = mainposition t"
    using in_array_cong[of ?t t] mainposition_cong[of ?t t] by (simp_all add: nodes_def)
  have il: "?i < length (array t)" using in_array_key[OF True] table_coreD(2)[OF wf] by simp
  have "table_core I ?t" using wf by (simp add: table_core_def e)
  moreover have "lookup ?t k' = (if keq k' k then v else lookup t k')" if k': "key_ok I k'" for k'
  proof (cases "in_array t k'")
    case True: True
    show ?thesis
    proof (cases "arrayindex k' = arrayindex k")
      case same: True
      have "keq k' k"
        using arrayindex_keq_int[of k'] arrayindex_keq_int[of k] True \<open>in_array t k\<close> keq_trans keq_sym
        unfolding in_array_def same by blast
      then show ?thesis using True il same by (simp add: lookup_def e)
    next
      case False
      then have "\<not> keq k' k" using keq_same(2)[OF _ table_coreD(1)[OF wf] k' k] by blast
      moreover have "nat (arrayindex k' - 1) \<noteq> ?i" using False True \<open>in_array t k\<close> by (auto simp: in_array_def)
      ultimately show ?thesis using True by (simp add: lookup_def e)
    qed
  next
    case False
    then have "\<not> keq k' k" using keq_same(2)[OF _ table_coreD(1)[OF wf] k' k] True by (auto simp: in_array_def)
    then show ?thesis using False by (simp add: lookup_def e)
  qed
  ultimately show ?thesis using True unfolding s' by (simp add: e)
next
  case False
  then obtain i where i: "keyed (nodes t) i" "keq (i_key (nodes t ! i)) k" "s = SNode i"
    using s by (auto simp: finds_def)
  note nw = table_coreD(9)[OF wf]
  have nd: "node t \<noteq> None"
  proof
    assume "node t = None"
    then show False using i(1) by (auto simp: nodes_def keyed_def dummynode_def)
  qed
  then have s': "set_slot t s v = t\<lparr>node := Some (set_val (nodes t) i v)\<rparr>"
    by (auto simp: i(3) nodes_def set_val_def)
  let ?t = "t\<lparr>node := Some (set_val (nodes t) i v)\<rparr>"
  have e: "nodes ?t = set_val (nodes t) i v" "in_array ?t = in_array t" "mainposition ?t = mainposition t"
    using in_array_cong[of ?t t] mainposition_cong[of ?t t] by (simp_all add: nodes_def)
  have "table_core I ?t"
    using wf nd set_val_wf[OF nw i(1), of v]
    by (auto simp: table_core_def e set_val_nth set_val_keyed) (auto simp: keyed_def set_val_nth)
  moreover have "lookup ?t k' = (if keq k' k then v else lookup t k')" if k': "key_ok I k'" for k'
  proof -
    have "keq (i_key (nodes t ! i)) k' \<longleftrightarrow> keq k' k" using i(2) keq_trans keq_sym by blast
    moreover have "keq k' k \<Longrightarrow> \<not> in_array t k'"
      using keq_same(2)[OF _ table_coreD(1)[OF wf] k' k] False by (auto simp: in_array_def)
    ultimately show ?thesis by (auto simp: lookup_def e set_val_nget[OF nw i(1)])
  qed
  ultimately show ?thesis using False nd unfolding s' by (simp add: e set_val_used)
qed

end
