(* ===== verification/TableRehash.thy ===== *)
theory TableRehash
  imports TableLaws
begin

text \<open>
  Resizing a table keeps its map; a rehash finds room for the new key, so that insertion never
  rehashes twice. With it the law of \<open>luaH_set\<close>.
\<close>

subsection \<open>Inserting a list of entries\<close>

type_synonym entry = "TValue \<times> TValue"

primrec overlay :: "entry list \<Rightarrow> (TValue \<Rightarrow> TValue) \<Rightarrow> TValue \<Rightarrow> TValue" where
  "overlay [] f k = f k"
| "overlay (x # xs) f k = overlay xs (\<lambda>k'. if keq k' (fst x) then snd x else f k') k"

lemma overlay_miss: "(\<And>x. x \<in> set xs \<Longrightarrow> \<not> keq k (fst x)) \<Longrightarrow> overlay xs f k = f k"
  by (induction xs arbitrary: f) simp_all

lemma overlay_hit:
  "x \<in> set xs \<Longrightarrow> keq k (fst x) \<Longrightarrow> (\<And>y. y \<in> set xs \<Longrightarrow> keq k (fst y) \<Longrightarrow> snd y = snd x) \<Longrightarrow>
     overlay xs f k = snd x"
proof (induction xs arbitrary: x f)
  case (Cons z xs)
  show ?case
  proof (cases "\<exists>y\<in>set xs. keq k (fst y)")
    case True
    then obtain y where y: "y \<in> set xs" "keq k (fst y)" by blast
    then have "snd y = snd x" using Cons.prems(3) by simp
    moreover have "snd w = snd y" if "w \<in> set xs" "keq k (fst w)" for w
      using Cons.prems(3)[of w] that calculation by simp
    ultimately show ?thesis using Cons.IH[OF y] by simp
  next
    case False
    then have "x = z" using Cons.prems(1,2) by auto
    moreover have "overlay xs g k = g k" for g using False by (intro overlay_miss) blast
    ultimately show ?thesis using Cons.prems(2) by simp
  qed
qed simp

lemma overlay_cong: "f k = g k \<Longrightarrow> overlay xs f k = overlay xs g k"
proof (induction xs arbitrary: f g)
  case (Cons x xs)
  show ?case unfolding overlay.simps by (rule Cons.IH) (simp add: Cons.prems)
qed simp

definition outside :: "Table \<Rightarrow> entry list \<Rightarrow> entry list" where
  "outside t xs = List.filter (\<lambda>x. \<not> in_array t (fst x)) xs"

definition entered :: "TString set \<Rightarrow> Table \<Rightarrow> Table \<Rightarrow> entry list \<Rightarrow> bool" where
  "entered I t t' xs =
     (table_core I t' \<and> sizearray t' = sizearray t \<and> lsizenode t' = lsizenode t
      \<and> length (array t') = length (array t) \<and> metatable t' = metatable t \<and> (node t \<noteq> None \<longrightarrow> node t' \<noteq> None)
      \<and> card (used (nodes t')) \<le> card (used (nodes t)) + length (outside t xs)
      \<and> (\<forall>k. key_ok I k \<longrightarrow> lookup t' k = overlay xs (lookup t) k)
      \<and> ((\<forall>x\<in>set xs. \<not> in_array t (fst x)) \<longrightarrow> array t' = array t))"

lemma entered_Nil: "table_core I t \<Longrightarrow> entered I t t []"
  by (simp add: entered_def)

lemma outside_cong: "sizearray t' = sizearray t \<Longrightarrow> outside t' = outside t"
  by (simp add: outside_def in_array_def fun_eq_iff)

lemma entered_Cons:
  assumes "entered I t t1 [x]" "entered I t1 t' xs" shows "entered I t t' (x # xs)"
proof -
  have o: "outside t1 = outside t" using assms(1) by (intro outside_cong) (simp add: entered_def)
  have l: "lookup t' k = overlay (x # xs) (lookup t) k" if "key_ok I k" for k
    using assms that overlay_cong[of "lookup t1" k "\<lambda>k'. if keq k' (fst x) then snd x else lookup t k'" xs]
    by (simp add: entered_def)
  have a: "in_array t1 = in_array t" using assms(1) by (intro in_array_cong) (simp add: entered_def)
  have "length (outside t (x # xs)) = length (outside t [x]) + length (outside t xs)"
    by (simp add: outside_def)
  then show ?thesis using assms l unfolding entered_def o a by auto
qed

lemma grown_entered:
  assumes wf: "table_core I t" and k: "key_ok I k" and g: "grown I t t' k s"
  shows "entered I t (set_slot t' s v) [(k, v)]"
proof -
  have c: "table_core I t'" "finds t' k s" "s \<noteq> SNilObject" using g by (auto simp: grown_def)
  note law = set_slot_law[OF c(1) k c(2,3), of v]
  have a: "in_array t' = in_array t" using g by (intro in_array_cong) (simp add: grown_def)
  show ?thesis using g law unfolding a by (auto simp: entered_def grown_def outside_def)
qed

lemma nodes_length: "table_core I t \<Longrightarrow> length (nodes t) = 2 ^ lsizenode t"
  by (rule table_coreD(5))

text \<open>Enough free nodes for the entries that do not belong to the array.\<close>

definition fits :: "Table \<Rightarrow> entry list \<Rightarrow> bool" where
  "fits t xs =
     ((outside t xs \<noteq> [] \<longrightarrow> node t \<noteq> None)
      \<and> card (used (nodes t)) + length (outside t xs) \<le> length (nodes t))"

lemma fits_room: "fits t (x # xs) \<Longrightarrow> room_for t (fst x)"
  by (auto simp: fits_def room_for_def outside_def split: if_splits)

lemma fits_step:
  assumes "fits t (x # xs)" "entered I t t1 [x]" "table_core I t" shows "fits t1 xs"
proof -
  have o: "outside t1 = outside t" using assms(2) by (intro outside_cong) (simp add: entered_def)
  have l: "length (nodes t1) = length (nodes t)" "node t \<noteq> None \<longrightarrow> node t1 \<noteq> None"
    "card (used (nodes t1)) \<le> card (used (nodes t)) + length (outside t [x])"
    using assms(2,3) nodes_length by (auto simp: entered_def)
  have "length (outside t (x # xs)) = length (outside t [x]) + length (outside t xs)"
    "outside t xs \<noteq> [] \<longrightarrow> outside t (x # xs) \<noteq> []"
    by (simp_all add: outside_def)
  then show ?thesis using assms(1) l unfolding fits_def o by auto
qed

definition live_entries :: "Node list \<Rightarrow> entry list" where
  "live_entries ns = map (\<lambda>o'. (i_key o', i_val o')) (List.filter (\<lambda>o'. i_val o' \<noteq> LNil) ns)"

lemma reinsert_nodes_spec:
  "table_core I t \<Longrightarrow> (\<forall>x\<in>set (live_entries olds). key_ok I (fst x)) \<Longrightarrow> fits t (live_entries olds) \<Longrightarrow>
     \<exists>t'. reinsert_nodes (newkey (Suc d)) olds t = Inr t' \<and> entered I t t' (live_entries olds)"
proof (induction olds arbitrary: t)
  case Nil
  then show ?case by (simp add: live_entries_def entered_Nil)
next
  case (Cons old olds)
  show ?case
  proof (cases "i_val old = LNil")
    case True
    then have "live_entries (old # olds) = live_entries olds" by (simp add: live_entries_def)
    then show ?thesis using Cons True by simp
  next
    case False
    then have e: "live_entries (old # olds) = (i_key old, i_val old) # live_entries olds"
      by (simp add: live_entries_def)
    have k: "key_ok I (i_key old)" using Cons.prems(2) by (simp add: e)
    have "room_for t (i_key old)" using fits_room Cons.prems(3) by (fastforce simp: e)
    then obtain s t1 where s: "luaH_set_by (newkey (Suc d)) t (i_key old) = Inr (s, t1)" "grown I t t1 (i_key old) s"
      using luaH_set_room[OF Cons.prems(1) k] by blast
    note en = grown_entered[OF Cons.prems(1) k s(2), of "i_val old"]
    have "table_core I (set_slot t1 s (i_val old))" using en by (simp add: entered_def)
    then obtain t' where "reinsert_nodes (newkey (Suc d)) olds (set_slot t1 s (i_val old)) = Inr t'"
      "entered I (set_slot t1 s (i_val old)) t' (live_entries olds)"
      using Cons.IH fits_step[OF Cons.prems(3)[unfolded e] en Cons.prems(1)] Cons.prems(2) by (auto simp: e)
    then show ?thesis using False s(1) entered_Cons[OF en] by (simp add: e)
  qed
qed

definition slice_entries :: "TValue list \<Rightarrow> nat list \<Rightarrow> entry list" where
  "slice_entries arr is =
     map (\<lambda>i. (LNumber (cast_num (int i + 1)), arr ! i)) (List.filter (\<lambda>i. arr ! i \<noteq> LNil) is)"

lemma reinsert_array_spec:
  "table_core I t \<Longrightarrow> (\<forall>i\<in>set is. sizearray t \<le> i \<and> i < 2 ^ 31 - 1) \<Longrightarrow> fits t (slice_entries (array t) is) \<Longrightarrow>
     \<exists>t'. reinsert_array (newkey (Suc d)) is t = Inr t' \<and> entered I t t' (slice_entries (array t) is)
       \<and> array t' = array t"
proof (induction "is" arbitrary: t)
  case Nil
  then show ?case by (simp add: slice_entries_def entered_Nil)
next
  case (Cons i "is")
  show ?case
  proof (cases "array t ! i = LNil")
    case True
    then have "slice_entries (array t) (i # is) = slice_entries (array t) is" by (simp add: slice_entries_def)
    then show ?thesis using Cons True by simp
  next
    case False
    let ?k = "LNumber (cast_num (int i + 1))"
    have e: "slice_entries (array t) (i # is) = (?k, array t ! i) # slice_entries (array t) is"
      using False by (simp add: slice_entries_def)
    have i: "- (2 ^ 31) \<le> int i + 1" "int i + 1 < 2 ^ 31" "sizearray t \<le> i" using Cons.prems(2) by auto
    have k: "key_ok I ?k" using i by (intro key_num_ok) auto
    have na: "\<not> in_array t ?k" using i arrayindex_int[OF i(1,2)] by (simp add: in_array_def)
    have "room_for t ?k" using fits_room Cons.prems(3) by (fastforce simp: e)
    then obtain s t1 where s: "luaH_setnum_by (newkey (Suc d)) t (int i + 1) = Inr (s, t1)" "grown I t t1 ?k s"
      using luaH_setnum_room[OF Cons.prems(1) i(1,2)] by blast
    note en = grown_entered[OF Cons.prems(1) k s(2), of "array t ! i"]
    let ?t2 = "set_slot t1 s (array t ! i)"
    have t2: "table_core I ?t2" "array ?t2 = array t" "sizearray ?t2 = sizearray t"
      using en na by (simp_all add: entered_def outside_def)
    then obtain t' where "reinsert_array (newkey (Suc d)) is ?t2 = Inr t'"
      "entered I ?t2 t' (slice_entries (array t) is)" "array t' = array t"
      using Cons.IH[OF t2(1)] fits_step[OF Cons.prems(3)[unfolded e] en Cons.prems(1)] Cons.prems(2) by auto
    then show ?thesis using False s(1) entered_Cons[OF en] by (simp add: e)
  qed
qed

subsection \<open>Resizing\<close>

lemma empty_nodes:
  "\<not> keyed (replicate n dummynode) i" "node_wf I m (replicate n dummynode)" "used (replicate n dummynode) = {}"
  "nget (replicate n dummynode) k = LNil"
proof -
  show k: "\<not> keyed (replicate n dummynode) i" for i by (auto simp: keyed_def dummynode_def)
  have l: "link (replicate n dummynode) = {}" by (auto simp: link_def dummynode_def)
  have f: "n_next dummynode = None" "i_val dummynode = LNil" by (simp_all add: dummynode_def)
  show "node_wf I m (replicate n dummynode)"
    by (rule node_wfI) (use k in \<open>auto simp: chain_ok_def l f acyclic_def\<close>)
  show "used (replicate n dummynode) = {}" by (auto simp: used_def dummynode_def)
  show "nget (replicate n dummynode) k = LNil" by (rule nget_none) (simp add: k)
qed

definition fresh_nodes :: "Table \<Rightarrow> bool" where
  "fresh_nodes t =
     (nodes t = replicate (2 ^ lsizenode t) dummynode \<and> lsizenode t \<le> MAXBITS
      \<and> lastfree t = (if node t = None then 0 else 2 ^ lsizenode t))"

lemma setnodevector_cases:
  assumes "sz < 2 ^ 31"
  shows "(\<exists>t'. setnodevector t sz = Inr t' \<and> fresh_nodes t' \<and> (node t' = None \<longleftrightarrow> sz = 0)
      \<and> sz \<le> length (nodes t') \<and> array t' = array t \<and> sizearray t' = sizearray t \<and> metatable t' = metatable t)
    \<or> setnodevector t sz = Inl table_overflow \<and> 2 ^ 26 < sz"
proof (cases "sz = 0")
  case True
  then show ?thesis by (simp add: setnodevector_def fresh_nodes_def nodes_def)
next
  case False
  obtain n where n: "ceillog2 (int sz) = int n" "int sz \<le> 2 ^ n" "0 < n \<longrightarrow> 2 ^ (n - 1) < int sz"
    using ceillog2_spec[of "int sz"] False assms by auto
  have le: "sz \<le> 2 ^ n" using n(2) by (metis of_nat_le_iff of_nat_numeral of_nat_power)
  show ?thesis
  proof (cases "MAXBITS < n")
    case True
    then have "(2::int) ^ 26 \<le> 2 ^ (n - 1)" by (intro power_increasing) (auto simp: MAXBITS_def)
    also have "\<dots> < int sz" using n(3) True by blast
    finally have "2 ^ 26 < sz" by (metis of_nat_less_iff of_nat_numeral of_nat_power)
    then show ?thesis using True False n(1) by (simp add: setnodevector_def)
  next
    case nle: False
    then show ?thesis using False n(1) le by (simp add: setnodevector_def fresh_nodes_def nodes_def)
  qed
qed

lemma setarrayvector_ok:
  assumes "int sz \<le> MAXASIZE"
  shows "setarrayvector t sz =
     Inr (t\<lparr>array := take sz (array t) @ replicate (sz - sizearray t) LNil, sizearray := sz\<rparr>)"
proof -
  have u: "unat (word_of_int (int sz + 1) :: u32) = sz + 1"
  proof -
    have "unat (word_of_int (int sz + 1) :: u32) = unat (word_of_nat (sz + 1) :: u32)" by (simp add: add.commute)
    also have "\<dots> = sz + 1" using assms
      by (simp only: unat_of_nat) (simp add: MAXASIZE_def MAXBITS_def)
    finally show ?thesis .
  qed
  have "sz + 1 \<le> MAX_SIZET div sizeof_TValue" using assms
    by (simp add: MAX_SIZET_def sizeof_TValue_def MAXASIZE_def MAXBITS_def)
  then show ?thesis using u by (simp add: setarrayvector_def luaM_reallocv_ok_def)
qed

lemma fresh_core:
  assumes "fresh_nodes t" "inj_on ts_addr I" "sizearray t \<le> length (array t)" "int (sizearray t) \<le> MAXASIZE"
  shows "table_core I t" "used (nodes t) = {}"
    "lookup t k = (if in_array t k then array t ! nat (arrayindex k - 1) else LNil)"
  using assms empty_nodes by (auto simp: table_core_def fresh_nodes_def lookup_def)

text \<open>The entries a resize to \<open>n\<close> array slots puts into nodes.\<close>

definition slice_out :: "Table \<Rightarrow> nat \<Rightarrow> entry list" where
  "slice_out t n = (if n < sizearray t then slice_entries (array t) [n..<sizearray t] else [])"

definition nodes_out :: "Table \<Rightarrow> nat \<Rightarrow> entry list" where
  "nodes_out t n =
     List.filter (\<lambda>x. \<not> (0 < arrayindex (fst x) \<and> arrayindex (fst x) \<le> int n)) (live_entries (rev (nodes t)))"

definition hash_bound :: "Table \<Rightarrow> nat \<Rightarrow> nat" where
  "hash_bound t n = length (slice_out t n) + length (nodes_out t n)"

lemma outside_nodes: "sizearray t' = n \<Longrightarrow> outside t' (live_entries (rev (nodes t))) = nodes_out t n"
  by (simp add: outside_def nodes_out_def in_array_def)

lemma live_entries_set:
  "x \<in> set (live_entries ns) \<longleftrightarrow> (\<exists>i<length ns. i_val (ns ! i) \<noteq> LNil \<and> x = (i_key (ns ! i), i_val (ns ! i)))"
  by (auto simp: live_entries_def in_set_conv_nth)

lemma live_entries_rev: "set (live_entries (rev ns)) = set (live_entries ns)"
  by (auto simp: live_entries_def rev_filter)

lemma slice_key:
  assumes "x \<in> set (slice_entries arr [a..<b])" "int b < 2 ^ 31"
  obtains i where "a \<le> i" "i < b" "arr ! i \<noteq> LNil" "x = (LNumber (cast_num (int i + 1)), arr ! i)"
    "arrayindex (fst x) = int i + 1"
  using assms by (auto simp: slice_entries_def arrayindex_int)

text \<open>The map after the two re-insertions is the map before.\<close>

lemma resize_lookup:
  assumes wf: "table_wf I t" and k: "key_ok I k"
    and base: "f k = (if 0 < arrayindex k \<and> arrayindex k \<le> int n
      then (if arrayindex k \<le> int (sizearray t) then array t ! nat (arrayindex k - 1) else LNil) else LNil)"
  shows "overlay (live_entries (rev (nodes t))) (overlay (slice_out t n) f) k = lookup t k"
proof -
  have core: "table_core I t" using wf by (simp add: table_wf_def)
  note nw = table_coreD(9)[OF core] and inj = table_coreD(1)[OF core]
  have sz: "int (sizearray t) < 2 ^ 31" using table_coreD(3)[OF core] by (simp add: MAXASIZE_def MAXBITS_def)
  have key: "keyed (nodes t) i" if "i < length (nodes t)" "i_val (nodes t ! i) \<noteq> LNil" for i
    using node_wfD(4)[OF nw] that by blast
  have slice: "x \<in> set (slice_out t n) \<Longrightarrow> keq k (fst x) \<Longrightarrow>
      int n < arrayindex k \<and> arrayindex k \<le> int (sizearray t) \<and> snd x = array t ! nat (arrayindex k - 1)
      \<and> snd x \<noteq> LNil" for x
  proof -
    assume x: "x \<in> set (slice_out t n)" "keq k (fst x)"
    then have "x \<in> set (slice_entries (array t) [n..<sizearray t])" by (auto simp: slice_out_def split: if_splits)
    then obtain i where i: "n \<le> i" "i < sizearray t" "array t ! i \<noteq> LNil"
      "x = (LNumber (cast_num (int i + 1)), array t ! i)" "arrayindex (fst x) = int i + 1"
      using slice_key sz by blast
    have "key_ok I (fst x)" using i sz by (simp add: key_num_ok)
    then have "arrayindex k = int i + 1" using keq_same(2)[OF x(2) inj k] i(5) by simp
    then show ?thesis using i by simp
  qed
  show ?thesis
  proof (cases "\<exists>i<length (nodes t). i_val (nodes t ! i) \<noteq> LNil \<and> keq k (i_key (nodes t ! i))")
    case True
    then obtain i where i: "i < length (nodes t)" "i_val (nodes t ! i) \<noteq> LNil" "keq k (i_key (nodes t ! i))" by blast
    note ki = key[OF i(1,2)]
    have "overlay (live_entries (rev (nodes t))) (overlay (slice_out t n) f) k = snd (i_key (nodes t ! i), i_val (nodes t ! i))"
    proof (rule overlay_hit)
      show "(i_key (nodes t ! i), i_val (nodes t ! i)) \<in> set (live_entries (rev (nodes t)))"
        using i by (auto simp: live_entries_rev live_entries_set)
      fix y assume y: "y \<in> set (live_entries (rev (nodes t)))" "keq k (fst y)"
      then obtain j where j: "j < length (nodes t)" "i_val (nodes t ! j) \<noteq> LNil" "y = (i_key (nodes t ! j), i_val (nodes t ! j))"
        by (auto simp: live_entries_rev live_entries_set)
      have "j = i" using keyed_unique[OF nw key[OF j(1,2)] ki, of k] keq_sym i(3) y(2) j(3) by auto
      then show "snd y = snd (i_key (nodes t ! i), i_val (nodes t ! i))" using j by simp
    qed (use i in simp)
    moreover have "\<not> in_array t k"
      using table_coreD(10)[OF core ki] keq_same(2)[OF i(3) inj k node_wfD(5)[OF nw ki]] by (simp add: in_array_def)
    ultimately show ?thesis using nget_at[OF nw ki keq_sym[OF i(3)]] by (simp add: lookup_def)
  next
    case False
    then have m: "overlay (live_entries (rev (nodes t))) g k = g k" for g
      by (intro overlay_miss) (auto simp: live_entries_rev live_entries_set)
    have ng: "nget (nodes t) k = LNil"
      using nget_cases[OF nw, of k] False keq_sym by (metis keyed_def)
    show ?thesis
    proof (cases "\<exists>x\<in>set (slice_out t n). keq k (fst x)")
      case True
      then obtain x where x: "x \<in> set (slice_out t n)" "keq k (fst x)" by blast
      then have "overlay (slice_out t n) f k = snd x" using slice by (intro overlay_hit) auto
      then show ?thesis using m slice[OF x] by (simp add: lookup_def in_array_def)
    next
      case nos: False
      then have o: "overlay (slice_out t n) f k = f k" by (intro overlay_miss) blast
      show ?thesis
      proof (cases "in_array t k \<and> int n < arrayindex k")
        case True
        define j where "j = nat (arrayindex k - 1)"
        have j: "n \<le> j" "j < sizearray t" "int j + 1 = arrayindex k" using True by (auto simp: in_array_def j_def)
        have "array t ! j = LNil"
        proof (rule ccontr)
          assume "array t ! j \<noteq> LNil"
          then have "(LNumber (cast_num (int j + 1)), array t ! j) \<in> set (slice_out t n)"
            using j(1,2) by (auto simp: slice_out_def slice_entries_def)
          moreover have "keq k (LNumber (cast_num (int j + 1)))"
            using arrayindex_keq_int[of k] True j(3) by (simp add: in_array_def)
          ultimately show False using nos by fastforce
        qed
        then show ?thesis using True m o base by (simp add: lookup_def in_array_def j_def)
      next
        case False
        then show ?thesis using m o base ng by (auto simp: lookup_def in_array_def)
      qed
    qed
  qed
qed

definition resized :: "TString set \<Rightarrow> Table \<Rightarrow> Table \<Rightarrow> nat \<Rightarrow> nat \<Rightarrow> bool" where
  "resized I t t' nasize nhsize =
     (table_wf I t' \<and> (\<forall>k. key_ok I k \<longrightarrow> lookup t' k = lookup t k) \<and> sizearray t' = nasize
      \<and> (0 < nhsize \<longrightarrow> node t' \<noteq> None) \<and> nhsize \<le> length (nodes t')
      \<and> card (used (nodes t')) \<le> hash_bound t nasize \<and> metatable t' = metatable t)"

lemma resize_steps:
  assumes t: "table_wf I t" and f: "fresh_nodes t2" "sizearray t2 = nasize" "int nasize \<le> MAXASIZE"
    and arr: "nasize \<le> length (array t2)" "sizearray t \<le> length (array t2)"
      "take (sizearray t) (array t2) = array t" "sizearray t < nasize \<Longrightarrow> \<forall>i<nasize. sizearray t \<le> i \<longrightarrow> array t2 ! i = LNil"
    and room: "hash_bound t nasize \<le> length (nodes t2)" "0 < hash_bound t nasize \<Longrightarrow> node t2 \<noteq> None"
  obtains t3 where "reinsert_array (newkey (Suc d)) (if nasize < sizearray t then [nasize..<sizearray t] else []) t2 = Inr t3"
    "array t3 = array t2" "table_core I t3"
    "\<exists>t4. reinsert_nodes (newkey (Suc d)) (rev (nodes t)) (t3\<lparr>array := take nasize (array t3)\<rparr>) = Inr t4 \<and> table_wf I t4 \<and> sizearray t4 = nasize
         \<and> (\<forall>k. key_ok I k \<longrightarrow> lookup t4 k = lookup t k) \<and> (node t2 \<noteq> None \<longrightarrow> node t4 \<noteq> None)
         \<and> length (nodes t4) = length (nodes t2) \<and> card (used (nodes t4)) \<le> hash_bound t nasize
         \<and> metatable t4 = metatable t2"
proof -
  let ?is = "if nasize < sizearray t then [nasize..<sizearray t] else []"
  have core: "table_core I t" and la: "length (array t) = sizearray t" using t by (simp_all add: table_wf_def)
  note inj = table_coreD(1)[OF core]
  have sz: "int (sizearray t) < 2 ^ 31 - 1" using table_coreD(3)[OF core] by (simp add: MAXASIZE_def MAXBITS_def)
  have c2: "table_core I t2" "used (nodes t2) = {}"
    "\<And>k. lookup t2 k = (if in_array t2 k then array t2 ! nat (arrayindex k - 1) else LNil)"
    using fresh_core[OF f(1) inj] arr f by auto
  have at: "i < sizearray t \<Longrightarrow> array t2 ! i = array t ! i" for i using arr(3) la by (metis nth_take)
  have sl: "slice_entries (array t2) ?is = slice_out t nasize"
  proof -
    have "List.filter (\<lambda>i. array t2 ! i \<noteq> LNil) ?is = List.filter (\<lambda>i. array t ! i \<noteq> LNil) ?is"
      by (rule filter_cong) (use at in \<open>auto split: if_splits\<close>)
    then show ?thesis using at by (auto simp: slice_out_def slice_entries_def)
  qed
  have out: "outside t2 (slice_out t nasize) = slice_out t nasize"
  proof -
    have "\<not> in_array t2 (fst x)" if x: "x \<in> set (slice_out t nasize)" for x
    proof -
      have "x \<in> set (slice_entries (array t) [nasize..<sizearray t])" using x by (auto simp: slice_out_def split: if_splits)
      moreover have "int (sizearray t) < 2 ^ 31" using sz by simp
      ultimately have "\<exists>i\<ge>nasize. arrayindex (fst x) = int i + 1" by (rule slice_key) blast
      then show ?thesis using f(2) by (auto simp: in_array_def)
    qed
    then show ?thesis by (simp add: outside_def)
  qed
  have "fits t2 (slice_out t nasize)" using room out c2(2) by (auto simp: fits_def hash_bound_def)
  then obtain t3 where t3: "reinsert_array (newkey (Suc d)) ?is t2 = Inr t3" "entered I t2 t3 (slice_out t nasize)"
    "array t3 = array t2"
    using reinsert_array_spec[OF c2(1), of ?is d] f(2) sz unfolding sl by (auto split: if_splits)
  show thesis
  proof (rule that[OF t3(1,3)])
    show c3: "table_core I t3" using t3(2) by (simp add: entered_def)
    define t3' where t3': "t3' = t3\<lparr>array := take nasize (array t3)\<rparr>"
    have e: "nodes t3' = nodes t3" "in_array t3' = in_array t3" "mainposition t3' = mainposition t3" "sizearray t3' = nasize"
      "node t3' = node t3" "metatable t3' = metatable t3"
      using in_array_cong[of t3' t3] mainposition_cong[of t3' t3] t3(2) f(2) by (simp_all add: t3' nodes_def entered_def)
    have c3': "table_core I t3'" "length (array t3') = nasize"
      using c3 arr(1) t3(2,3) f(2) unfolding table_core_def e by (auto simp: t3' entered_def)
    have l3: "lookup t3' k = lookup t3 k" for k
      using in_array_key[of t3' k] t3(2) f(2) unfolding lookup_def e by (auto simp: t3' entered_def in_array_def)
    have o: "outside t3' (live_entries (rev (nodes t))) = nodes_out t nasize" by (rule outside_nodes[OF e(4)])
    have n3: "length (nodes t3) = length (nodes t2)" using nodes_length[OF c3] nodes_length[OF c2(1)] t3(2) by (simp add: entered_def)
    have "fits t3' (live_entries (rev (nodes t)))"
      using room t3(2) c2(2) n3 out unfolding fits_def o by (auto simp: e hash_bound_def entered_def)
    moreover have "\<forall>x\<in>set (live_entries (rev (nodes t))). key_ok I (fst x)"
      using node_wfD(4,5)[OF table_coreD(9)[OF core]] by (auto simp: live_entries_rev live_entries_set)
    ultimately obtain t4 where t4: "reinsert_nodes (newkey (Suc d)) (rev (nodes t)) t3' = Inr t4"
      "entered I t3' t4 (live_entries (rev (nodes t)))"
      using reinsert_nodes_spec[OF c3'(1)] by blast
    have "lookup t4 k = lookup t k" if k: "key_ok I k" for k
    proof -
      have "lookup t4 k = overlay (live_entries (rev (nodes t))) (lookup t3') k" using t4(2) k by (simp add: entered_def)
      also have "\<dots> = overlay (live_entries (rev (nodes t))) (overlay (slice_out t nasize) (lookup t2)) k"
        using t3(2) k l3 by (intro overlay_cong) (simp add: entered_def)
      also have "\<dots> = lookup t k"
      proof (rule resize_lookup[OF t k])
        show "lookup t2 k = (if 0 < arrayindex k \<and> arrayindex k \<le> int nasize
          then if arrayindex k \<le> int (sizearray t) then array t ! nat (arrayindex k - 1) else LNil else LNil)"
        proof (cases "in_array t2 k")
          case True
          then have i: "0 < arrayindex k" "arrayindex k \<le> int nasize" using f(2) by (simp_all add: in_array_def)
          show ?thesis
          proof (cases "arrayindex k \<le> int (sizearray t)")
            case True
            then show ?thesis using i at[of "nat (arrayindex k - 1)"] \<open>in_array t2 k\<close> c2(3) by simp
          next
            case False
            then have "sizearray t < nasize" "sizearray t \<le> nat (arrayindex k - 1)" "nat (arrayindex k - 1) < nasize"
              using i by auto
            then show ?thesis using i arr(4) \<open>in_array t2 k\<close> c2(3) False by simp
          qed
        next
          case False
          then show ?thesis using f(2) c2(3) by (auto simp: in_array_def)
        qed
      qed
      finally show ?thesis .
    qed
    moreover have "length (nodes t4) = length (nodes t2)" "card (used (nodes t4)) \<le> hash_bound t nasize"
      using nodes_length[of I t4] nodes_length[OF c3'(1)] t4(2) t3(2) c2(2) n3 out o
      by (simp_all add: entered_def hash_bound_def e)
    ultimately show "\<exists>t4. reinsert_nodes (newkey (Suc d)) (rev (nodes t)) (t3\<lparr>array := take nasize (array t3)\<rparr>) = Inr t4 \<and> table_wf I t4 \<and> sizearray t4 = nasize
         \<and> (\<forall>k. key_ok I k \<longrightarrow> lookup t4 k = lookup t k) \<and> (node t2 \<noteq> None \<longrightarrow> node t4 \<noteq> None)
         \<and> length (nodes t4) = length (nodes t2) \<and> card (used (nodes t4)) \<le> hash_bound t nasize
         \<and> metatable t4 = metatable t2"
      using t4 t3(2) c3' e unfolding t3'[symmetric] by (auto simp: entered_def table_wf_def)
  qed
qed

lemma resize_spec:
  assumes t: "table_wf I t" and n: "int nasize \<le> MAXASIZE" "nhsize < 2 ^ 31" and b: "hash_bound t nasize \<le> nhsize"
  shows "(\<exists>t'. resize_by (newkey (Suc d)) t nasize nhsize = Inr t' \<and> resized I t t' nasize nhsize)
     \<or> resize_by (newkey (Suc d)) t nasize nhsize = Inl table_overflow \<and> 2 ^ 26 < nhsize"
proof -
  have la: "length (array t) = sizearray t" and core: "table_core I t" using t by (simp_all add: table_wf_def)
  define t1 where "t1 = (if sizearray t < nasize
      then t\<lparr>array := array t @ replicate (nasize - sizearray t) LNil, sizearray := nasize\<rparr> else t)"
  have s1: "(if sizearray t < nasize then setarrayvector t nasize else Inr t) = Inr t1"
    using setarrayvector_ok[OF n(1), of t] la by (simp add: t1_def)
  have t1: "metatable t1 = metatable t" "array t1 = array t @ replicate (nasize - sizearray t) LNil"
    "sizearray t1 = max nasize (sizearray t)"
    by (auto simp: t1_def)
  from setnodevector_cases[OF n(2), of t1] show ?thesis
  proof (elim disjE exE conjE)
    assume "setnodevector t1 nhsize = Inl table_overflow" "2 ^ 26 < nhsize"
    then show ?thesis using s1 by (simp add: resize_by_def Let_def)
  next
    fix t2 assume t2: "setnodevector t1 nhsize = Inr t2" "fresh_nodes t2" "(node t2 = None) = (nhsize = 0)"
      "nhsize \<le> length (nodes t2)" "array t2 = array t1" "sizearray t2 = sizearray t1" "metatable t2 = metatable t1"
    define ts where "ts = (if nasize < sizearray t then t2\<lparr>sizearray := nasize\<rparr> else t2)"
    have ts: "fresh_nodes ts" "sizearray ts = nasize" "nodes ts = nodes t2" "array ts = array t1" "node ts = node t2"
      "metatable ts = metatable t"
      using t2 t1 by (auto simp: ts_def fresh_nodes_def nodes_def)
    have a: "nasize \<le> length (array ts)" "sizearray t \<le> length (array ts)" "take (sizearray t) (array ts) = array t"
      "sizearray t < nasize \<Longrightarrow> \<forall>i<nasize. sizearray t \<le> i \<longrightarrow> array ts ! i = LNil"
      using la by (auto simp: ts(4) t1(2) nth_append)
    have "hash_bound t nasize \<le> length (nodes ts)" "0 < hash_bound t nasize \<Longrightarrow> node ts \<noteq> None"
      using b t2(3,4) ts by auto
    from resize_steps[OF t ts(1,2) n(1) a this]
    obtain t3 t4 where t3: "reinsert_array (newkey (Suc d)) (if nasize < sizearray t then [nasize..<sizearray t] else []) ts = Inr t3"
      and t4: "reinsert_nodes (newkey (Suc d)) (rev (nodes t)) (t3\<lparr>array := take nasize (array t3)\<rparr>) = Inr t4"
      "table_wf I t4" "sizearray t4 = nasize" "\<forall>k. key_ok I k \<longrightarrow> lookup t4 k = lookup t k"
      "node ts \<noteq> None \<longrightarrow> node t4 \<noteq> None" "length (nodes t4) = length (nodes ts)"
      "card (used (nodes t4)) \<le> hash_bound t nasize" "metatable t4 = metatable ts"
      by metis
    have "resize_by (newkey (Suc d)) t nasize nhsize = Inr t4"
    proof (cases "nasize < sizearray t")
      case True
      then show ?thesis using s1 t2(1) t3 t4(1) by (simp add: resize_by_def Let_def ts_def)
    next
      case False
      have "t3 = t2" using False t3 by (simp add: ts_def)
      moreover have "t2\<lparr>array := take nasize (array t2)\<rparr> = t2"
        using False la by (simp add: t2(5) t1(2))
      ultimately show ?thesis using False s1 t2(1) t4(1) by (simp add: resize_by_def Let_def)
    qed
    moreover have "resized I t t4 nasize nhsize"
      using t4 t2(3,4) ts by (simp add: resized_def)
    ultimately show ?thesis by blast
  qed
qed

end
