(* ===== verification/TableCount.thy ===== *)
theory TableCount
  imports TableRehash
begin

text \<open>
  The counting of a rehash: the candidates for the array part by powers of two, the choice of the
  size, and that what is left over is what the node part must hold.
\<close>

subsection \<open>Powers of two\<close>

lemma ceillog2_eqI:
  assumes "0 < k" "k < 2 ^ 31" "k \<le> 2 ^ n" "0 < n \<Longrightarrow> 2 ^ (n - 1) < k"
  shows "ceillog2 k = int n"
proof -
  obtain m where m: "ceillog2 k = int m" "k \<le> 2 ^ m" "0 < m \<longrightarrow> 2 ^ (m - 1) < k"
    using ceillog2_spec[OF assms(1,2)] by blast
  have "\<not> a < b" if "k \<le> 2 ^ a" "0 < b \<longrightarrow> 2 ^ (b - 1) < k" for a b :: nat
  proof
    assume "a < b"
    then have "k \<le> 2 ^ (b - 1)" by (intro order_trans[OF that(1)] power_increasing) auto
    then show False using that(2) \<open>a < b\<close> by simp
  qed
  from this[OF m(2)] this[OF assms(3) m(3)] show ?thesis using assms(4) m(1) by (metis linorder_neqE_nat)
qed

lemma ceillog2_le:
  assumes "0 < k" "k < 2 ^ 31" shows "nat (ceillog2 k) \<le> n \<longleftrightarrow> k \<le> 2 ^ n"
proof -
  obtain m where m: "ceillog2 k = int m" "k \<le> 2 ^ m" "0 < m \<longrightarrow> 2 ^ (m - 1) < k"
    using ceillog2_spec[OF assms] by blast
  have "k \<le> 2 ^ n" if "m \<le> n"
    using that by (intro order_trans[OF m(2)] power_increasing) auto
  moreover have "m \<le> n" if "k \<le> 2 ^ n"
  proof (rule ccontr)
    assume "\<not> m \<le> n"
    then have "k \<le> 2 ^ (m - 1)" by (intro order_trans[OF that] power_increasing) auto
    then show False using m(3) \<open>\<not> m \<le> n\<close> by simp
  qed
  ultimately show ?thesis using m(1) by auto
qed

lemma int_pow:
  "j + 1 \<le> 2 ^ m \<Longrightarrow> int j + 1 \<le> 2 ^ m" "2 ^ m < j + 1 \<Longrightarrow> 2 ^ m < int j + 1"
  using of_nat_le_iff[of "j + 1" "2 ^ m", where 'a = int] of_nat_less_iff[of "2 ^ m" "j + 1", where 'a = int] by simp_all

subsection \<open>Counts\<close>

definition ikeys :: "entry list \<Rightarrow> int list" where
  "ikeys xs = List.filter (\<lambda>k. 0 < k \<and> k \<le> MAXASIZE) (map (\<lambda>x. arrayindex (fst x)) xs)"

lemma ikeys_append [simp]: "ikeys (xs @ ys) = ikeys xs @ ikeys ys"
  by (simp add: ikeys_def)

text \<open>\<open>nums\<close> counts the keys of \<open>K\<close> by their logarithms.\<close>

definition counts :: "nat list \<Rightarrow> int list \<Rightarrow> bool" where
  "counts nums K =
     (length nums = MAXBITS + 1 \<and> (\<forall>k\<in>set K. 0 < k \<and> k \<le> MAXASIZE)
      \<and> (\<forall>b\<le>MAXBITS. nums ! b = length (List.filter (\<lambda>k. nat (ceillog2 k) = b) K)))"

lemma key_range: "0 < k \<Longrightarrow> k \<le> MAXASIZE \<Longrightarrow> k < 2 ^ 31 \<and> nat (ceillog2 k) \<le> MAXBITS"
  using ceillog2_le[of k MAXBITS] by (simp add: MAXASIZE_def MAXBITS_def)

lemma countint_counts:
  assumes "counts nums K" "countint key nums = (nums', c)"
  shows "counts nums' (ikeys [(key, v)] @ K)" "c = length (ikeys [(key, v)])"
proof -
  let ?k = "arrayindex key"
  have "counts nums' (ikeys [(key, v)] @ K) \<and> c = length (ikeys [(key, v)])"
  proof (cases "0 < ?k \<and> ?k \<le> MAXASIZE")
    case True
    then have b: "nat (ceillog2 ?k) \<le> MAXBITS" using key_range by blast
    have e: "nums' = nums[nat (ceillog2 ?k) := nums ! nat (ceillog2 ?k) + 1]" "c = 1"
      using assms(2) True by (auto simp: countint_def Let_def)
    show ?thesis using assms(1) True b by (auto simp: counts_def ikeys_def e nth_list_update)
  next
    case False
    then have "nums' = nums" "c = 0" using assms(2) by (auto simp: countint_def Let_def split: if_splits)
    moreover have "ikeys [(key, v)] = []" using False by (auto simp: ikeys_def)
    ultimately show ?thesis using assms(1) by simp
  qed
  then show "counts nums' (ikeys [(key, v)] @ K)" "c = length (ikeys [(key, v)])" by auto
qed

lemma nuh_loop_counts:
  "counts nums K \<Longrightarrow> nuh_loop ns i nums a u = (nums', a', u') \<Longrightarrow> i \<le> length ns \<Longrightarrow>
     counts nums' (ikeys (live_entries (take i ns)) @ K) \<and> a' = a + length (ikeys (live_entries (take i ns)))
     \<and> u' = u + length (live_entries (take i ns))"
proof (induction i arbitrary: nums K a u)
  case 0
  then show ?case by (simp add: live_entries_def ikeys_def)
next
  case (Suc i)
  have tk: "take (Suc i) ns = take i ns @ [ns ! i]" using Suc.prems(3) by (simp add: take_Suc_conv_app_nth)
  show ?case
  proof (cases "i_val (ns ! i) = LNil")
    case True
    then have "live_entries (take (Suc i) ns) = live_entries (take i ns)" by (simp add: tk live_entries_def)
    then show ?thesis using Suc.IH[OF Suc.prems(1)] Suc.prems True by simp
  next
    case False
    let ?e = "(i_key (ns ! i), i_val (ns ! i))"
    have le: "live_entries (take (Suc i) ns) = live_entries (take i ns) @ [?e]"
      using False by (simp add: tk live_entries_def)
    obtain n1 c where c: "countint (i_key (ns ! i)) nums = (n1, c)" by fastforce
    note cc = countint_counts[OF Suc.prems(1) c, of "i_val (ns ! i)"]
    have "nuh_loop ns i n1 (a + c) (u + 1) = (nums', a', u')" using Suc.prems(2) False c by simp
    from Suc.IH[OF cc(1) this] Suc.prems(3) cc(2) show ?thesis by (simp add: le)
  qed
qed

lemma numusehash_counts:
  assumes "counts nums K" "numusehash t nums p = (nums', p', u)" "length (nodes t) = 2 ^ lsizenode t"
  shows "counts nums' (ikeys (live_entries (nodes t)) @ K)" "p' = p + length (ikeys (live_entries (nodes t)))"
    "u = length (live_entries (nodes t))"
proof -
  obtain a where "nuh_loop (nodes t) (nat (sizenode t)) nums 0 0 = (nums', a, u)" "p' = p + a"
    using assms(2) by (auto simp: numusehash_def split: prod.splits)
  moreover have "nat (sizenode t) = length (nodes t)" using assms(3) by (simp add: sizenode_def nat_power_eq)
  ultimately show "counts nums' (ikeys (live_entries (nodes t)) @ K)" "p' = p + length (ikeys (live_entries (nodes t)))"
    "u = length (live_entries (nodes t))"
    using nuh_loop_counts[OF assms(1), of "nodes t" "length (nodes t)" 0 0 nums' a u] by simp_all
qed

subsection \<open>The array part\<close>

definition live_below :: "TValue list \<Rightarrow> nat \<Rightarrow> nat list" where
  "live_below arr n = List.filter (\<lambda>j. arr ! j \<noteq> LNil) [0..<n]"

definition lg_count :: "TValue list \<Rightarrow> nat \<Rightarrow> nat \<Rightarrow> nat" where
  "lg_count arr n b = length (List.filter (\<lambda>j. nat (ceillog2 (int j + 1)) = b) (live_below arr n))"

lemma count_slice_spec:
  "count_slice arr i ub lc = (lc', i') \<Longrightarrow> 0 < i \<Longrightarrow> i \<le> Suc ub \<Longrightarrow>
     lc' = lc + length (List.filter (\<lambda>j. arr ! j \<noteq> LNil) [i - 1..<ub]) \<and> i' = Suc ub"
proof (induction arr i ub lc rule: count_slice.induct)
  case (1 arr i ub lc)
  show ?case
  proof (cases "i \<le> ub")
    case True
    have "[i - 1..<ub] = (i - 1) # [i..<ub]" using True "1.prems"(2) by (simp add: upt_conv_Cons)
    then show ?thesis using 1(1)[OF True] "1.prems" True by (simp add: count_slice.simps[of arr i] split: if_splits)
  next
    case False
    then show ?thesis using "1.prems" by (simp add: count_slice.simps[of arr i])
  qed
qed

lemma slice_lg:
  assumes "n \<le> 2 ^ MAXBITS" "lo = (if lg = 0 then 0 else min (2 ^ (lg - 1)) n)"
  shows "length (List.filter (\<lambda>j. arr ! j \<noteq> LNil) [lo..<min n (2 ^ lg)]) = lg_count arr n lg"
proof -
  have sp: "[0..<n] = [0..<lo] @ [lo..<min n (2 ^ lg)] @ [min n (2 ^ lg)..<n]"
  proof -
    have "(2::nat) ^ (lg - 1) \<le> 2 ^ lg" by (rule power_increasing) auto
    then have "lo \<le> min n (2 ^ lg)" unfolding assms(2) by (auto simp del: power_increasing_iff intro: min.coboundedI1)
    then have "[0..<min n (2 ^ lg)] = [0..<lo] @ [lo..<min n (2 ^ lg)]"
      using upt_add_eq_append[of 0 lo "min n (2 ^ lg) - lo"] by simp
    moreover have "[0..<n] = [0..<min n (2 ^ lg)] @ [min n (2 ^ lg)..<n]"
      using upt_add_eq_append[of 0 "min n (2 ^ lg)" "n - min n (2 ^ lg)"] by simp
    ultimately show ?thesis by simp
  qed
  have r: "0 < int j + 1 \<and> int j + 1 < 2 ^ 31" if "j < n" for j
    using that assms(1) by (simp add: MAXBITS_def)
  have lo: "nat (ceillog2 (int j + 1)) \<noteq> lg" if "j < lo" for j
  proof -
    have "0 < lg" "j < 2 ^ (lg - 1)" "j < n" using that assms(2) by (auto split: if_splits)
    then have "int j + 1 \<le> 2 ^ (lg - 1)" by (intro int_pow) simp
    then have "nat (ceillog2 (int j + 1)) \<le> lg - 1" using ceillog2_le r[OF \<open>j < n\<close>] by blast
    then show ?thesis using \<open>0 < lg\<close> by simp
  qed
  have mid: "nat (ceillog2 (int j + 1)) = lg" if "lo \<le> j" "j < min n (2 ^ lg)" for j
  proof -
    have "ceillog2 (int j + 1) = int lg"
    proof (rule ceillog2_eqI)
      show "0 < int j + 1" "int j + 1 < 2 ^ 31" using r[of j] that by auto
      have "j + 1 \<le> 2 ^ lg" using that by simp
      then show "int j + 1 \<le> 2 ^ lg" by (rule int_pow)
      assume "0 < lg"
      then have "2 ^ (lg - 1) < j + 1" using that assms(2) by (auto split: if_splits)
      then show "2 ^ (lg - 1) < int j + 1" by (rule int_pow)
    qed
    then show ?thesis by simp
  qed
  have hi: "nat (ceillog2 (int j + 1)) \<noteq> lg" if "min n (2 ^ lg) \<le> j" "j < n" for j
  proof -
    have "2 ^ lg < j + 1" using that by simp
    then have "2 ^ lg < int j + 1" by (rule int_pow)
    then have "\<not> nat (ceillog2 (int j + 1)) \<le> lg" using ceillog2_le[of "int j + 1" lg] r[OF that(2)] by (metis not_le)
    then show ?thesis by simp
  qed
  have "List.filter (\<lambda>j. nat (ceillog2 (int j + 1)) = lg \<and> arr ! j \<noteq> LNil) [0..<n]
      = List.filter (\<lambda>j. arr ! j \<noteq> LNil) [lo..<min n (2 ^ lg)]"
    unfolding sp using lo mid hi by (auto simp: filter_empty_conv intro!: filter_cong)
  then show ?thesis by (simp add: lg_count_def live_below_def conj_commute)
qed

lemma lg_count_zero:
  assumes "n \<le> 2 ^ MAXBITS" "if lg = 0 then n = 0 else n \<le> 2 ^ (lg - 1)" "lg \<le> b"
  shows "lg_count arr n b = 0"
proof -
  have "nat (ceillog2 (int j + 1)) \<noteq> b" if j: "j < n" for j
  proof -
    have lg: "0 < lg" "j + 1 \<le> 2 ^ (lg - 1)" using j assms(2) by (auto split: if_splits)
    have "int j + 1 \<le> 2 ^ (lg - 1)" by (rule int_pow(1)[OF lg(2)])
    moreover have "0 < int j + 1 \<and> int j + 1 < 2 ^ 31" using j assms(1) by (simp add: MAXBITS_def)
    ultimately have "nat (ceillog2 (int j + 1)) \<le> lg - 1" using ceillog2_le by blast
    then show ?thesis using \<open>0 < lg\<close> assms(3) by simp
  qed
  then show ?thesis by (auto simp: lg_count_def live_below_def filter_empty_conv)
qed

lemma nua_loop_spec:
  "nua_loop t lg i ause nums = (nums', a') \<Longrightarrow> sizearray t \<le> 2 ^ MAXBITS \<Longrightarrow> lg \<le> MAXBITS + 1 \<Longrightarrow>
   length nums = MAXBITS + 1 \<Longrightarrow> i = Suc (if lg = 0 then 0 else min (2 ^ (lg - 1)) (sizearray t)) \<Longrightarrow>
   ause = length (live_below (array t) (i - 1)) \<Longrightarrow>
   (\<forall>b\<le>MAXBITS. nums ! b = (if b < lg then lg_count (array t) (sizearray t) b else 0)) \<Longrightarrow>
     length nums' = MAXBITS + 1 \<and> a' = length (live_below (array t) (sizearray t))
     \<and> (\<forall>b\<le>MAXBITS. nums' ! b = lg_count (array t) (sizearray t) b)"
proof (induction t lg i ause nums rule: nua_loop.induct)
  case (1 t lg i ause nums)
  note p = "1.prems"
  let ?n = "sizearray t" and ?ub = "if sizearray t < 2 ^ lg then sizearray t else 2 ^ lg"
  have ub: "?ub = min ?n (2 ^ lg)" by simp
  show ?case
  proof (cases "lg \<le> MAXBITS")
    case False
    then have lg: "lg = MAXBITS + 1" using p(3) by simp
    then have "(nums', a') = (nums, ause)" using p(1) by (simp add: nua_loop.simps[of t "Suc MAXBITS"])
    moreover have "i - 1 = ?n" using p(2,5) lg by simp
    ultimately show ?thesis using p(4,6,7) lg by auto
  next
    case le: True
    have lo: "i - 1 = (if lg = 0 then 0 else min (2 ^ (lg - 1)) ?n)" using p(5) by simp
    show ?thesis
    proof (cases "?n < 2 ^ lg \<and> ?ub < i")
      case True
      then have "sizearray t < 2 ^ lg" "sizearray t < i" by auto
      then have "(nums', a') = (nums, ause)" using p(1) le by (simp add: nua_loop.simps[of t lg] Let_def)
      moreover have e: "i - 1 = ?n" using True p(5) by (auto split: if_splits)
      moreover have "lg_count (array t) ?n b = 0" if "lg \<le> b" for b
        by (rule lg_count_zero[OF p(2) _ that]) (use e lo in \<open>auto split: if_splits\<close>)
      ultimately show ?thesis using p(4,6,7) by (auto simp: not_less)
    next
      case False
      obtain lc i' where c: "count_slice (array t) i ?ub 0 = (lc, i')" by fastforce
      have "i - 1 \<le> ?ub" unfolding lo ub using power_increasing[of "lg - 1" lg "2::nat"]
        by (auto simp del: power_increasing_iff intro: min.coboundedI1)
      then have i: "0 < i" "i \<le> Suc ?ub" using p(5) by auto
      note cs = count_slice_spec[OF c i]
      have lcn: "lc = lg_count (array t) ?n lg" using cs slice_lg[OF p(2) lo, of "array t"] by (simp add: ub)
      have r: "nua_loop t (Suc lg) i' (ause + lc) (nums[lg := nums ! lg + lc]) = (nums', a')"
        using p(1) le False c by (simp add: nua_loop.simps[of t lg] Let_def)
      have la: "live_below (array t) (i' - 1) = live_below (array t) (i - 1) @ List.filter (\<lambda>j. array t ! j \<noteq> LNil) [i - 1..<?ub]"
        using cs i \<open>i - 1 \<le> ?ub\<close> upt_add_eq_append[of 0 "i - 1" "?ub - (i - 1)"]
        by (simp add: live_below_def flip: filter_append)
      show ?thesis
      proof (rule "1.IH"[OF le refl refl False c[symmetric] refl r p(2)])
        show "Suc lg \<le> MAXBITS + 1" "length (nums[lg := nums ! lg + lc]) = MAXBITS + 1" using le p(4) by simp_all
        show "i' = Suc (if Suc lg = 0 then 0 else min (2 ^ (Suc lg - 1)) ?n)" using cs by (simp add: ub min.commute)
        show "ause + lc = length (live_below (array t) (i' - 1))" using p(6) la cs by simp
        show "\<forall>b\<le>MAXBITS. nums[lg := nums ! lg + lc] ! b = (if b < Suc lg then lg_count (array t) ?n b else 0)"
        proof (intro allI impI)
          fix b assume "b \<le> MAXBITS"
          moreover have "lg < length nums" using p(4) le by simp
          ultimately show "nums[lg := nums ! lg + lc] ! b = (if b < Suc lg then lg_count (array t) ?n b else 0)"
            using p(7) le lcn by (cases "b = lg") auto
        qed
      qed
    qed
  qed
qed

lemma array_ikeys:
  assumes "int n \<le> MAXASIZE"
  shows "ikeys (slice_entries arr [0..<n]) = map (\<lambda>j. int j + 1) (live_below arr n)"
proof -
  have "map (\<lambda>x. arrayindex (fst x)) (slice_entries arr [0..<n]) = map (\<lambda>j. int j + 1) (live_below arr n)"
    using assms by (auto simp: slice_entries_def live_below_def arrayindex_int MAXASIZE_def MAXBITS_def)
  then show ?thesis
    unfolding ikeys_def using assms by (auto simp: live_below_def intro!: filter_True)
qed

lemma numusearray_counts:
  assumes "int (sizearray t) \<le> MAXASIZE" "numusearray t (replicate (MAXBITS + 1) 0) = (nums, a)"
  shows "counts nums (ikeys (slice_entries (array t) [0..<sizearray t]))"
    "a = length (slice_entries (array t) [0..<sizearray t])"
proof -
  have n: "sizearray t \<le> 2 ^ MAXBITS" using assms(1) by (simp add: MAXASIZE_def nat_power_eq flip: of_nat_le_iff)
  have "length nums = MAXBITS + 1 \<and> a = length (live_below (array t) (sizearray t))
     \<and> (\<forall>b\<le>MAXBITS. nums ! b = lg_count (array t) (sizearray t) b)"
    by (rule nua_loop_spec[of t 0 1 0 "replicate (MAXBITS + 1) 0"])
       (use assms(2) n in \<open>simp_all add: numusearray_def live_below_def del: replicate_Suc\<close>)
  then show "counts nums (ikeys (slice_entries (array t) [0..<sizearray t]))"
    "a = length (slice_entries (array t) [0..<sizearray t])"
    using assms(1) unfolding array_ikeys[OF assms(1)]
    by (auto simp: counts_def lg_count_def filter_map o_def live_below_def slice_entries_def)
qed

subsection \<open>The size of the array part\<close>

definition upto_count :: "int list \<Rightarrow> nat \<Rightarrow> nat" where
  "upto_count K n = length (List.filter (\<lambda>k. k \<le> int n) K)"

lemma filter_disj_length:
  "(\<And>x. x \<in> set xs \<Longrightarrow> \<not> (P x \<and> Q x)) \<Longrightarrow>
     length (List.filter (\<lambda>x. P x \<or> Q x) xs) = length (List.filter P xs) + length (List.filter Q xs)"
  by (induction xs) auto

lemma counts_step:
  assumes "counts nums K" "i \<le> MAXBITS"
  shows "upto_count K (2 ^ i) = (if i = 0 then 0 else upto_count K (2 ^ (i - 1))) + nums ! i"
proof -
  have k: "k \<in> set K \<Longrightarrow> 0 < k \<and> k < 2 ^ 31" for k
    using assms(1) key_range by (auto simp: counts_def)
  have le: "k \<in> set K \<Longrightarrow> k \<le> int (2 ^ b) \<longleftrightarrow> nat (ceillog2 k) \<le> b" for k b
    using ceillog2_le[of k b] k by simp
  have n: "nums ! i = length (List.filter (\<lambda>k. nat (ceillog2 k) = i) K)"
    using assms by (simp add: counts_def)
  have a: "upto_count K (2 ^ i) = length (List.filter (\<lambda>k. nat (ceillog2 k) < i \<or> nat (ceillog2 k) = i) K)"
    unfolding upto_count_def using le by (intro arg_cong[where f = length] filter_cong) auto
  also have "\<dots> = length (List.filter (\<lambda>k. nat (ceillog2 k) < i) K) + nums ! i"
    unfolding n by (rule filter_disj_length) simp
  also have "length (List.filter (\<lambda>k. nat (ceillog2 k) < i) K) = (if i = 0 then 0 else upto_count K (2 ^ (i - 1)))"
    unfolding upto_count_def using le[of _ "i - 1"]
    by (auto simp: filter_empty_conv intro!: arg_cong[where f = length] filter_cong)
  finally show ?thesis .
qed

lemma upto_all: "counts nums K \<Longrightarrow> MAXBITS \<le> i \<Longrightarrow> upto_count K (2 ^ i) = length K"
proof -
  assume c: "counts nums K" and i: "MAXBITS \<le> i"
  have "k \<le> int (2 ^ i)" if "k \<in> set K" for k
  proof -
    have "k \<le> 2 ^ MAXBITS" using c that by (simp add: counts_def MAXASIZE_def)
    also have "\<dots> \<le> (2::int) ^ i" by (rule power_increasing[OF i]) simp
    finally show ?thesis by simp
  qed
  then show ?thesis by (simp add: upto_count_def)
qed

text \<open>What \<open>computesizes\<close> chooses: a size, 0 or a power of two, more than half of which is used, and
  the number of the keys that go there.\<close>

definition size_ok :: "int list \<Rightarrow> nat \<Rightarrow> nat \<Rightarrow> bool" where
  "size_ok K na n = (n = 0 \<and> na = 0 \<or> (\<exists>p\<le>MAXBITS. n = 2 ^ p) \<and> na = upto_count K n \<and> n < 2 * na)"

text \<open>True of every list of distinct positive numbers.\<close>

definition no_crowd :: "int list \<Rightarrow> bool" where
  "no_crowd K = (\<forall>p. upto_count K (2 ^ p) \<le> 2 ^ p)"

lemma distinct_no_crowd:
  assumes "distinct K" "\<forall>k\<in>set K. 0 < k" shows "no_crowd K"
proof -
  have "upto_count K n \<le> n" for n
  proof -
    have "upto_count K n = card (set (List.filter (\<lambda>k. k \<le> int n) K))"
      unfolding upto_count_def using assms(1) by (intro distinct_card[symmetric] distinct_filter)
    also have "\<dots> \<le> card {1..int n}" using assms(2) by (intro card_mono) auto
    finally show ?thesis by simp
  qed
  then show ?thesis by (simp add: no_crowd_def)
qed

lemma cs_loop_spec:
  "cs_loop nums narray i a na n = (na', n') \<Longrightarrow> counts nums K \<Longrightarrow> narray = length K \<Longrightarrow>
   a = (if i = 0 then 0 else upto_count K (2 ^ (i - 1))) \<Longrightarrow> (i = 0 \<or> a \<noteq> narray) \<Longrightarrow> size_ok K na n \<Longrightarrow>
   (no_crowd K \<longrightarrow> (\<forall>p. n < 2 ^ p \<longrightarrow> p < i \<longrightarrow> 2 * upto_count K (2 ^ p) \<le> 2 ^ p)) \<Longrightarrow>
     size_ok K na' n' \<and> (no_crowd K \<longrightarrow> (\<forall>p. n' < 2 ^ p \<longrightarrow> 2 * upto_count K (2 ^ p) \<le> 2 ^ p))"
proof (induction nums narray i a na n rule: cs_loop.induct)
  case (1 nums narray i a na n)
  note p = "1.prems"
  have all: "upto_count K q \<le> narray" for q using p(3) by (simp add: upto_count_def)
  show ?case
  proof (cases "2 ^ i div 2 < narray")
    case False
    then have r: "na' = na" "n' = n" using p(1) by (simp_all add: cs_loop.simps[of nums narray i])
    have "2 * upto_count K (2 ^ q) \<le> 2 ^ q" if "no_crowd K" "n < 2 ^ q" for q
    proof (cases "q < i")
      case False
      then have "(2::nat) ^ i \<le> 2 ^ q" by (intro power_increasing) auto
      moreover have "2 * narray \<le> 2 ^ i" using \<open>\<not> 2 ^ i div 2 < narray\<close> by simp
      ultimately show ?thesis using all[of "2 ^ q"] by linarith
    qed (use p(7) that in blast)
    then show ?thesis using p(6) r by simp
  next
    case True
    have i: "i \<le> MAXBITS"
    proof (rule ccontr)
      assume "\<not> i \<le> MAXBITS"
      then have "0 < i" "MAXBITS \<le> i - 1" by auto
      then show False using p(3-5) upto_all[OF p(2), of "i - 1"] by auto
    qed
    have a: "a + nums ! i = upto_count K (2 ^ i)" using counts_step[OF p(2) i] p(4) by simp
    define a1 where "a1 = a + nums ! i"
    define r where "r = (if 0 < nums ! i then if 2 ^ i div 2 < a1 then (a1, a1, 2 ^ i) else (a1, na, n) else (a, na, n))"
    obtain na1 n1 where r1: "r = (a1, na1, n1)" by (cases "0 < nums ! i"; cases "2 ^ i div 2 < a1") (auto simp: r_def a1_def)
    have step: "cs_loop nums narray i a na n = (if a1 = narray then (na1, n1) else cs_loop nums narray (Suc i) a1 na1 n1)"
      using True r1 by (simp add: cs_loop.simps[of nums narray i] Let_def a1_def r_def split: if_splits)
    have a1: "a1 = upto_count K (2 ^ i)" using a by (simp add: a1_def)
    have ok: "size_ok K na1 n1"
    proof (cases "0 < nums ! i \<and> 2 ^ i div 2 < a1")
      case True
      then have "na1 = a1" "n1 = 2 ^ i" using r1 by (simp_all add: r_def)
      moreover have "2 ^ i < 2 * a1" using True by (cases i) auto
      ultimately show ?thesis using i a1 by (auto simp: size_ok_def)
    next
      case False
      then have "na1 = na" "n1 = n" using r1 by (auto simp: r_def split: if_splits)
      then show ?thesis using p(6) by simp
    qed
    have mx: "2 * upto_count K (2 ^ q) \<le> 2 ^ q" if D: "no_crowd K" and "n1 < 2 ^ q" "q < Suc i" for q
    proof (cases "0 < nums ! i \<and> 2 ^ i div 2 < a1")
      case True
      then have "n1 = 2 ^ i" using r1 by (simp add: r_def)
      then have "i < q" using that(2) by simp
      then show ?thesis using that(3) by simp
    next
      case False
      then have n1: "n1 = n" using r1 by (auto simp: r_def split: if_splits)
      have "2 * upto_count K (2 ^ i) \<le> 2 ^ i"
      proof (cases "nums ! i = 0")
        case True
        then have "upto_count K (2 ^ i) = (if i = 0 then 0 else upto_count K (2 ^ (i - 1)))"
          using counts_step[OF p(2) i] by simp
        then show ?thesis using D[unfolded no_crowd_def, rule_format, of "i - 1"] by (cases i) auto
      next
        case nz: False
        then show ?thesis using False a1 by auto
      qed
      then show ?thesis using p(7) that n1 by (cases "q = i") auto
    qed
    show ?thesis
    proof (cases "a1 = narray")
      case True
      then have r: "na' = na1" "n' = n1" using p(1) step by auto
      have "2 * upto_count K (2 ^ q) \<le> 2 ^ q" if D: "no_crowd K" and "n1 < 2 ^ q" for q
      proof (cases "q < Suc i")
        case False
        then have "2 * (2::nat) ^ i \<le> 2 ^ q" using power_increasing[of "Suc i" q "2::nat"] by simp
        moreover have "upto_count K (2 ^ q) \<le> 2 ^ i" using all[of "2 ^ q"] True a1 D[unfolded no_crowd_def, rule_format, of i] by simp
        ultimately show ?thesis by linarith
      qed (use mx that in blast)
      then show ?thesis using ok r by simp
    next
      case False
      have l: "cs_loop nums narray (Suc i) a1 na1 n1 = (na', n')" using p(1) step False by simp
      have dec: "(a1, na1, n1) = (if 0 < nums ! i
              then let a1 = a + nums ! i
                   in if 2 ^ i div 2 < a1 then (a1, a1, 2 ^ i) else (a1, na, n)
              else (a, na, n))" unfolding a1_def Let_def using r1[unfolded r_def a1_def] by (rule sym)
      show ?thesis
        by (rule "1.IH"[OF True dec refl refl False l p(2,3) _ _ ok]) (use a1 False mx in auto)
    qed
  qed
qed

lemma computesizes_spec:
  assumes "counts nums K" "computesizes nums (length K) = (na, n)"
  shows "size_ok K na n" "no_crowd K \<Longrightarrow> n < 2 ^ p \<Longrightarrow> 2 * upto_count K (2 ^ p) \<le> 2 ^ p"
  using cs_loop_spec[OF assms(2)[unfolded computesizes_def] assms(1) refl] by (auto simp: size_ok_def)

subsection \<open>A rehash makes room\<close>

definition outside_n :: "nat \<Rightarrow> entry \<Rightarrow> bool" where
  "outside_n n x = (\<not> (0 < arrayindex (fst x) \<and> arrayindex (fst x) \<le> int n))"

lemma live_entries_rev': "live_entries (rev ns) = rev (live_entries ns)"
  by (simp add: live_entries_def rev_map rev_filter)

lemma hash_bound_entries:
  assumes "int (sizearray t) \<le> MAXASIZE"
  shows "hash_bound t n = length (List.filter (outside_n n) (slice_entries (array t) [0..<sizearray t] @ live_entries (nodes t)))"
proof -
  have ix: "arrayindex (LNumber (cast_num (int i + 1))) = int i + 1" if "i < sizearray t" for i
    using assms that by (intro arrayindex_int) (auto simp: MAXASIZE_def MAXBITS_def)
  have "length (slice_out t n) = length (List.filter (outside_n n) (slice_entries (array t) [0..<sizearray t]))"
  proof (cases "n < sizearray t")
    case True
    then have "[0..<sizearray t] = [0..<n] @ [n..<sizearray t]" using upt_add_eq_append[of 0 n "sizearray t - n"] by simp
    then have sp: "slice_entries (array t) [0..<sizearray t]
        = slice_entries (array t) [0..<n] @ slice_entries (array t) [n..<sizearray t]"
      by (simp add: slice_entries_def)
    have "List.filter (outside_n n) (slice_entries (array t) [0..<n]) = []"
      using True ix by (auto simp: filter_empty_conv slice_entries_def outside_n_def)
    moreover have "List.filter (outside_n n) (slice_entries (array t) [n..<sizearray t]) = slice_entries (array t) [n..<sizearray t]"
      using ix by (intro filter_True) (auto simp: slice_entries_def outside_n_def)
    ultimately show ?thesis using True by (simp add: sp slice_out_def)
  next
    case False
    then have "List.filter (outside_n n) (slice_entries (array t) [0..<sizearray t]) = []"
      using ix by (auto simp: filter_empty_conv slice_entries_def outside_n_def)
    then show ?thesis using False by (simp add: slice_out_def)
  qed
  moreover have "length (nodes_out t n) = length (List.filter (outside_n n) (live_entries (nodes t)))"
    by (simp add: nodes_out_def live_entries_rev' outside_n_def[abs_def] flip: rev_filter)
  ultimately show ?thesis by (simp add: hash_bound_def)
qed

lemma size_ok_count:
  assumes "size_ok (ikeys L) na n"
  shows "length L - na = length (List.filter (outside_n n) L)" "na \<le> length L" "int n \<le> MAXASIZE"
proof -
  show n: "int n \<le> MAXASIZE"
    using assms power_increasing[of _ MAXBITS "2::int"] by (auto simp: size_ok_def MAXASIZE_def)
  have "na = upto_count (ikeys L) n" using assms by (auto simp: size_ok_def upto_count_def ikeys_def filter_empty_conv)
  also have "\<dots> = length (List.filter (\<lambda>x. \<not> outside_n n x) L)"
  proof -
    have "List.filter (\<lambda>k. k \<le> int n) (ikeys L) = List.filter (\<lambda>k. 0 < k \<and> k \<le> int n) (map (\<lambda>x. arrayindex (fst x)) L)"
      unfolding ikeys_def filter_filter using n by (intro filter_cong) auto
    then show ?thesis by (simp add: upto_count_def filter_map o_def outside_n_def)
  qed
  finally have "na + length (List.filter (outside_n n) L) = length L"
    using sum_length_filter_compl[of "outside_n n" L] by simp
  then show "length L - na = length (List.filter (outside_n n) L)" "na \<le> length L" by auto
qed

lemma counts_mset: "counts nums K \<Longrightarrow> mset K = mset K' \<Longrightarrow> counts nums K'"
proof -
  assume c: "counts nums K" and m: "mset K = mset K'"
  have "length (List.filter P K) = length (List.filter P K')" for P
    using arg_cong[OF m, of "\<lambda>M. size (filter_mset P M)"] by (simp flip: size_mset mset_filter)
  moreover have "set K = set K'" using m by (metis set_mset_mset)
  ultimately show ?thesis using c by (simp add: counts_def)
qed

text \<open>The entries of the table and the new key.\<close>

definition rehash_entries :: "Table \<Rightarrow> TValue \<Rightarrow> entry list" where
  "rehash_entries t ek = slice_entries (array t) [0..<sizearray t] @ live_entries (nodes t) @ [(ek, LNil)]"

lemma rehash_sizes:
  assumes wf: "table_core I t"
  obtains nums na n where "counts nums (ikeys (rehash_entries t ek))"
    "computesizes nums (length (ikeys (rehash_entries t ek))) = (na, n)"
    "rehash_by nk t ek = resize_by nk t n (length (rehash_entries t ek) - na)"
proof -
  note sz = table_coreD(3)[OF wf]
  obtain nums1 a where 1: "numusearray t (replicate (MAXBITS + 1) 0) = (nums1, a)" by fastforce
  obtain nums2 b u where 2: "numusehash t nums1 a = (nums2, b, u)" by (metis prod_cases3)
  obtain nums3 c where 3: "countint ek nums2 = (nums3, c)" by fastforce
  obtain na n where 4: "computesizes nums3 (b + c) = (na, n)" by fastforce
  note c1 = numusearray_counts[OF sz 1]
  note c2 = numusehash_counts[OF c1(1) 2 table_coreD(5)[OF wf]]
  note c3 = countint_counts[OF c2(1) 3, of LNil]
  let ?L = "rehash_entries t ek"
  have k: "counts nums3 (ikeys ?L)"
    by (rule counts_mset[OF c3(1)]) (simp add: rehash_entries_def)
  have a: "a = length (ikeys (slice_entries (array t) [0..<sizearray t]))"
    using c1(2) arg_cong[OF array_ikeys[OF sz, of "array t"], of length] by (simp add: slice_entries_def live_below_def)
  have l: "b + c = length (ikeys ?L)" using c2(2) c3(2) a by (simp add: rehash_entries_def)
  have t: "a + u + 1 = length ?L" using c1(2) c2(3) by (simp add: rehash_entries_def)
  have "rehash_by nk t ek = resize_by nk t n (a + u + 1 - na)"
    using 1 2 3 4 by (simp add: rehash_by_def Let_def del: replicate_Suc)
  then show thesis using that[OF k 4[unfolded l]] t by simp
qed

lemma live_bound: "length (live_entries ns) \<le> length ns"
  by (simp add: live_entries_def)

lemma rehash_room:
  assumes t: "table_wf I t" and k: "key_ok I ek"
  shows "(\<exists>t'. rehash_by (newkey (Suc d)) t ek = Inr t' \<and> table_wf I t' \<and> room_for t' ek
        \<and> (\<forall>k. key_ok I k \<longrightarrow> lookup t' k = lookup t k) \<and> metatable t' = metatable t)
     \<or> rehash_by (newkey (Suc d)) t ek = Inl table_overflow"
proof -
  have core: "table_core I t" using t by (simp add: table_wf_def)
  let ?L = "rehash_entries t ek"
  obtain nums na n where s: "counts nums (ikeys ?L)" "computesizes nums (length (ikeys ?L)) = (na, n)"
    "rehash_by (newkey (Suc d)) t ek = resize_by (newkey (Suc d)) t n (length ?L - na)"
    by (rule rehash_sizes[OF core])
  note ok = size_ok_count[OF computesizes_spec(1)[OF s(1,2)]]
  have hb: "length ?L - na = hash_bound t n + (if outside_n n (ek, LNil) then 1 else 0)"
    using ok(1) hash_bound_entries[OF table_coreD(3)[OF core], of n] by (simp add: rehash_entries_def)
  have "length ?L < 2 ^ 31"
  proof -
    have "length (slice_entries (array t) [0..<sizearray t]) \<le> sizearray t"
      using length_filter_le[of "\<lambda>i. array t ! i \<noteq> LNil" "[0..<sizearray t]"] by (simp add: slice_entries_def)
    moreover have "int (sizearray t) \<le> 2 ^ 26" using table_coreD(3)[OF core] by (simp add: MAXASIZE_def MAXBITS_def)
    moreover have "length (nodes t) \<le> 2 ^ 26"
      using power_increasing[OF table_coreD(4)[OF core], of "2::nat"] table_coreD(5)[OF core] by simp
    ultimately show ?thesis using live_bound[of "nodes t"] by (simp add: rehash_entries_def)
  qed
  then have lt: "length ?L - na < 2 ^ 31" by simp
  have b: "hash_bound t n \<le> length ?L - na" using hb by simp
  from resize_spec[OF t ok(3) lt b, of d] show ?thesis
  proof (elim disjE exE conjE)
    fix t' assume t': "resize_by (newkey (Suc d)) t n (length ?L - na) = Inr t'" "resized I t t' n (length ?L - na)"
    have "room_for t' ek"
    proof (cases "outside_n n (ek, LNil)")
      case True
      then have "0 < length ?L - na" "hash_bound t n < length ?L - na" using hb by auto
      then show ?thesis using t'(2) by (auto simp: room_for_def resized_def)
    next
      case False
      then show ?thesis using t'(2) by (auto simp: room_for_def resized_def in_array_def outside_n_def)
    qed
    then show ?thesis using t' s(3) by (auto simp: resized_def)
  qed (simp add: s(3))
qed

subsection \<open>The law of insertion\<close>

text \<open>A new key anywhere: it goes to a free node, or the table is rehashed once.\<close>

definition bound_to :: "TString set \<Rightarrow> Table \<Rightarrow> Table \<Rightarrow> TValue \<Rightarrow> slot \<Rightarrow> bool" where
  "bound_to I t t' k s =
     (table_wf I t' \<and> finds t' k s \<and> s \<noteq> SNilObject \<and> (\<forall>k'. key_ok I k' \<longrightarrow> lookup t' k' = lookup t k')
      \<and> metatable t' = metatable t)"

lemma grown_bound: "length (array t) = sizearray t \<Longrightarrow> grown I t t' k s \<Longrightarrow> bound_to I t t' k s"
  by (simp add: grown_def bound_to_def table_wf_def)

lemma newkey_full:
  assumes t: "table_wf I t" and k: "key_ok I k" and g: "getfreepos t = (None, t1)"
    and full: "i_val (nodes t ! mainposition t k) \<noteq> LNil \<or> node t = None"
  shows "(\<exists>s t'. newkey (Suc (Suc d)) t k = Inr (s, t') \<and> bound_to I t t' k s)
     \<or> newkey (Suc (Suc d)) t k = Inl table_overflow"
proof -
  have core: "table_core I t" using t by (simp add: table_wf_def)
  note f = getfreepos_None[OF core g]
  have e: "nodes t1 = nodes t" "in_array t1 = in_array t" "mainposition t1 = mainposition t" "node t1 = node t"
    "array t1 = array t" "sizearray t1 = sizearray t" "lsizenode t1 = lsizenode t" "metatable t1 = metatable t"
    using f(1) in_array_cong[of t1 t] mainposition_cong[of t1 t] by (metis (no_types) Table.ext_inject Table.surjective Table.update_convs(6) nodes_def)+
  have l: "lookup t1 = lookup t" by (simp add: lookup_def fun_eq_iff e)
  have w1: "table_wf I t1"
    using t f(2,3) unfolding table_wf_def table_core_def e by (auto intro: order_trans)
  have nk: "newkey (Suc (Suc d)) t k = bindR (rehash_by (newkey (Suc d)) t1 k) (\<lambda>t2. luaH_set_by (newkey (Suc d)) t2 k)"
    using g full by (auto simp: newkey.simps(2) Let_def)
  from rehash_room[OF w1 k, of d] show ?thesis
  proof (elim disjE exE conjE)
    fix t2 assume r: "rehash_by (newkey (Suc d)) t1 k = Inr t2" "table_wf I t2" "room_for t2 k"
      "\<forall>k'. key_ok I k' \<longrightarrow> lookup t2 k' = lookup t1 k'" "metatable t2 = metatable t1"
    have c2: "table_core I t2" "length (array t2) = sizearray t2" using r(2) by (simp_all add: table_wf_def)
    obtain s t' where s: "luaH_set_by (newkey (Suc d)) t2 k = Inr (s, t')" "grown I t2 t' k s"
      using luaH_set_room[OF c2(1) k r(3)] by blast
    have "bound_to I t t' k s" using grown_bound[OF c2(2) s(2)] r(4,5) l e(8) by (simp add: bound_to_def)
    then show ?thesis using nk r(1) s(1) by simp
  qed (simp add: nk)
qed

lemma newkey_spec:
  assumes t: "table_wf I t" and k: "key_ok I k" and a: "finds t k SNilObject"
  shows "(\<exists>s t'. newkey (Suc (Suc d)) t k = Inr (s, t') \<and> bound_to I t t' k s)
     \<or> newkey (Suc (Suc d)) t k = Inl table_overflow"
proof -
  have core: "table_core I t" "length (array t) = sizearray t" using t by (simp_all add: table_wf_def)
  have ab: "\<not> in_array t k" "\<And>i. keyed (nodes t) i \<Longrightarrow> \<not> keq (i_key (nodes t ! i)) k"
    using a by (auto simp: finds_def split: if_splits)
  show ?thesis
  proof (cases "node t \<noteq> None \<and> (i_val (nodes t ! mainposition t k) \<noteq> LNil \<longrightarrow> card (used (nodes t)) < length (nodes t))")
    case True
    then have "\<exists>s t'. newkey (Suc (Suc d)) t k = Inr (s, t') \<and> grown I t t' k s"
      by (intro newkey_room[OF core(1) k]) (use ab in auto)
    then show ?thesis using grown_bound[OF core(2)] by blast
  next
    case False
    then have full: "i_val (nodes t ! mainposition t k) \<noteq> LNil \<or> node t = None" by blast
    obtain r t1 where g: "getfreepos t = (r, t1)" by fastforce
    have "r = None"
    proof (rule ccontr)
      assume "r \<noteq> None"
      then obtain n where r: "r = Some n" by blast
      note f = getfreepos_Some[OF core(1) g[unfolded r]]
      have "used (nodes t) \<subset> {..<length (nodes t)}" using f(2,3) by (auto simp: used_def)
      from psubset_card_mono[OF _ this] show False using False f(4) by simp
    qed
    then show ?thesis using newkey_full[OF t k _ full] g by blast
  qed
qed

text \<open>\<open>luaH_set\<close> answers with a slot for the key and leaves the map as it was; what is then written to
  the slot is what the key is bound to. The only failure is that the node part would be too big.\<close>

lemma luaH_set_cases:
  assumes t: "table_wf I t" and k: "key_ok I k"
  shows "(\<exists>s t'. luaH_set t k = Inr (s, t') \<and> bound_to I t t' k s) \<or> luaH_set t k = Inl table_overflow"
proof -
  have core: "table_core I t" using t by (simp add: table_wf_def)
  obtain s where s: "luaH_get t k = Inr s" "finds t k s" using luaH_get_finds[OF core k] by blast
  have t0: "table_wf I (t\<lparr>flags := 0\<rparr>)" using t by (simp add: table_wf_def)
  show ?thesis
  proof (cases "s = SNilObject")
    case False
    then have "luaH_set t k = Inr (s, t\<lparr>flags := 0\<rparr>)" using s by (simp add: luaH_set_def luaH_set_by_def)
    then show ?thesis using False s t0 by (simp add: bound_to_def)
  next
    case True
    have "luaH_set t k = newkey newkey_depth (t\<lparr>flags := 0\<rparr>) k"
      using s(1) True k by (cases k) (simp_all add: luaH_set_def luaH_set_by_def key_ok_def luai_numisnan_iff)
    moreover have "newkey_depth = Suc (Suc 0)" by (simp add: newkey_depth_def)
    moreover have "finds (t\<lparr>flags := 0\<rparr>) k SNilObject" using s(2) True by simp
    ultimately show ?thesis using newkey_spec[OF t0 k, of 0] by (auto simp: bound_to_def)
  qed
qed

lemma bound_set:
  assumes "bound_to I t t' k s" "key_ok I k"
  shows "table_wf I (set_slot t' s v)"
    "key_ok I k' \<Longrightarrow> lookup (set_slot t' s v) k' = (if keq k' k then v else lookup t k')"
    "metatable (set_slot t' s v) = metatable t"
proof -
  have c: "table_core I t'" "length (array t') = sizearray t'" "finds t' k s" "s \<noteq> SNilObject"
    using assms(1) by (auto simp: bound_to_def table_wf_def)
  note law = set_slot_law[OF c(1) assms(2) c(3,4), of v]
  show "table_wf I (set_slot t' s v)" using law c(2) by (simp add: table_wf_def)
  show "key_ok I k' \<Longrightarrow> lookup (set_slot t' s v) k' = (if keq k' k then v else lookup t k')"
    using law assms(1) by (simp add: bound_to_def)
  show "metatable (set_slot t' s v) = metatable t" using law assms(1) by (simp add: bound_to_def)
qed

end
