(* ===== verification/TableMap.thy ===== *)
theory TableMap
  imports TableCount
begin

text \<open>
  Tables as maps: raw reading and writing (\<open>lua_rawget\<close>, \<open>lua_rawset\<close> of \<open>lapi.c\<close>) as an
  implementation of the interface of a map with an equivalence on keys; traversal and boundaries.
\<close>

subsection \<open>Raw access (\<open>lapi.c\<close>)\<close>

text \<open>What \<open>lua_rawget\<close>, \<open>lua_rawset\<close>, \<open>lua_rawgeti\<close> and \<open>lua_rawseti\<close> do to the table once
  they have found it on the stack.\<close>

definition raw_get :: "Table \<Rightarrow> TValue \<Rightarrow> TValue res" where
  "raw_get t k = bindR (luaH_get t k) (\<lambda>s. Inr (slot_val t s))"

definition raw_set :: "Table \<Rightarrow> TValue \<Rightarrow> TValue \<Rightarrow> Table res" where
  "raw_set t k v = bindR (luaH_set t k) (\<lambda>(s, t'). Inr (set_slot t' s v))"

definition raw_geti :: "Table \<Rightarrow> int \<Rightarrow> TValue res" where
  "raw_geti t n = bindR (luaH_getnum t n) (\<lambda>s. Inr (slot_val t s))"

definition raw_seti :: "Table \<Rightarrow> int \<Rightarrow> TValue \<Rightarrow> Table res" where
  "raw_seti t n v = bindR (luaH_setnum t n) (\<lambda>(s, t'). Inr (set_slot t' s v))"

subsection \<open>The interface of a map\<close>

text \<open>A whole list of assignments, and the last one that counts for a key.\<close>

fun put_list :: "('t \<Rightarrow> 'k \<Rightarrow> 'v \<Rightarrow> 't res) \<Rightarrow> ('k \<times> 'v) list \<Rightarrow> 't \<Rightarrow> 't res" where
  "put_list put [] t = Inr t"
| "put_list put ((k, v) # kvs) t = bindR (put t k v) (put_list put kvs)"

fun last_for :: "('k \<Rightarrow> 'k \<Rightarrow> bool) \<Rightarrow> ('k \<times> 'v) list \<Rightarrow> 'k \<Rightarrow> 'v option" where
  "last_for same [] k = None"
| "last_for same ((a, v) # kvs) k =
     (case last_for same kvs k of Some w \<Rightarrow> Some w | None \<Rightarrow> if same k a then Some v else None)"

locale raw_map =
  fixes get :: "'t \<Rightarrow> 'k \<Rightarrow> 'v res" and put :: "'t \<Rightarrow> 'k \<Rightarrow> 'v \<Rightarrow> 't res"
    and inv :: "'t \<Rightarrow> bool" and ok :: "'k \<Rightarrow> bool" and same :: "'k \<Rightarrow> 'k \<Rightarrow> bool"
  assumes get_total: "inv t \<Longrightarrow> ok k \<Longrightarrow> \<exists>v. get t k = Inr v"
    and put_inv: "inv t \<Longrightarrow> ok k \<Longrightarrow> put t k v = Inr t' \<Longrightarrow> inv t'"
    and get_put: "inv t \<Longrightarrow> ok k \<Longrightarrow> ok k' \<Longrightarrow> put t k v = Inr t' \<Longrightarrow>
      get t' k' = (if same k' k then Inr v else get t k')"
    and same_refl: "ok k \<Longrightarrow> same k k" and same_sym: "same a b \<Longrightarrow> same b a"
    and same_trans: "same a b \<Longrightarrow> same b c \<Longrightarrow> same a c"
    and get_same: "inv t \<Longrightarrow> ok a \<Longrightarrow> ok b \<Longrightarrow> same a b \<Longrightarrow> get t a = get t b"
begin

lemma get_put_same: "inv t \<Longrightarrow> ok k \<Longrightarrow> put t k v = Inr t' \<Longrightarrow> get t' k = Inr v"
  using get_put same_refl by simp

lemma put_put_same:
  assumes "inv t" "ok k" "put t k v = Inr t1" "put t1 k w = Inr t2" "ok k'"
  shows "get t2 k' = (if same k' k then Inr w else get t k')"
  using get_put[OF put_inv[OF assms(1-3)] assms(2,5,4)] get_put[OF assms(1,2,5,3)] by simp

lemma put_commute:
  assumes "inv t" "ok a" "ok b" "\<not> same a b"
    and "put t a v = Inr t1" "put t1 b w = Inr t2" "put t b w = Inr s1" "put s1 a v = Inr s2" "ok k"
  shows "get t2 k = get s2 k"
proof -
  have "get t2 k = (if same k b then Inr w else if same k a then Inr v else get t k)"
    using get_put[OF put_inv[OF assms(1,2,5)] assms(3,9,6)] get_put[OF assms(1,2,9,5)] by simp
  moreover have "get s2 k = (if same k a then Inr v else if same k b then Inr w else get t k)"
    using get_put[OF put_inv[OF assms(1,3,7)] assms(2,9,8)] get_put[OF assms(1,3,9,7)] by simp
  moreover have "\<not> (same k a \<and> same k b)" using assms(4) same_sym same_trans by blast
  ultimately show ?thesis by auto
qed

lemma put_list_get:
  "inv t \<Longrightarrow> (\<forall>(k, v)\<in>set kvs. ok k) \<Longrightarrow> put_list put kvs t = Inr t' \<Longrightarrow> ok k \<Longrightarrow>
     inv t' \<and> get t' k = (case last_for same kvs k of Some v \<Rightarrow> Inr v | None \<Rightarrow> get t k)"
proof (induction kvs arbitrary: t)
  case (Cons kv kvs)
  obtain a v where kv: "kv = (a, v)" by (cases kv)
  then obtain t1 where t1: "put t a v = Inr t1" "put_list put kvs t1 = Inr t'"
    using Cons.prems(3) by (auto simp: bindR_eq_Inr)
  have a: "ok a" using Cons.prems(2) kv by simp
  have i: "inv t1" by (rule put_inv[OF Cons.prems(1) a t1(1)])
  from Cons.IH[OF i _ t1(2) Cons.prems(4)] Cons.prems(2) get_put[OF Cons.prems(1) a Cons.prems(4) t1(1)]
  show ?case by (auto simp: kv split: option.splits)
qed simp

end

lemma rawget_lookup: "table_core I t \<Longrightarrow> key_ok I k \<Longrightarrow> raw_get t k = Inr (lookup t k)"
  using luaH_get_finds[of I t k] finds_val[of I t k] by (auto simp: raw_get_def)

lemma rawset_cases:
  assumes "table_wf I t" "key_ok I k"
  shows "(\<exists>t'. raw_set t k v = Inr t' \<and> table_wf I t' \<and> metatable t' = metatable t
        \<and> (\<forall>k'. key_ok I k' \<longrightarrow> lookup t' k' = (if keq k' k then v else lookup t k')))
     \<or> raw_set t k v = Inl table_overflow"
  using luaH_set_cases[OF assms] bound_set[OF _ assms(2)] by (fastforce simp: raw_set_def)

lemma wf_core: "table_wf I t \<Longrightarrow> table_core I t"
  by (simp add: table_wf_def)

interpretation tab: raw_map raw_get raw_set "table_wf I" "key_ok I" keq
proof unfold_locales
  fix t t' :: Table and k k' a b c v :: TValue
  show "table_wf I t \<Longrightarrow> key_ok I k \<Longrightarrow> \<exists>v. raw_get t k = Inr v"
    using rawget_lookup[OF wf_core] by blast
  show "table_wf I t \<Longrightarrow> key_ok I k \<Longrightarrow> raw_set t k v = Inr t' \<Longrightarrow> table_wf I t'"
    using rawset_cases[of I t k v] by auto
  show "table_wf I t \<Longrightarrow> key_ok I k \<Longrightarrow> key_ok I k' \<Longrightarrow> raw_set t k v = Inr t' \<Longrightarrow>
      raw_get t' k' = (if keq k' k then Inr v else raw_get t k')"
    using rawset_cases[of I t k v] rawget_lookup[OF wf_core] by auto
  show "key_ok I k \<Longrightarrow> keq k k" by (rule keq_refl)
  show "keq a b \<Longrightarrow> keq b a" by (rule keq_sym)
  show "keq a b \<Longrightarrow> keq b c \<Longrightarrow> keq a c" by (rule keq_trans)
  show "table_wf I t \<Longrightarrow> key_ok I a \<Longrightarrow> key_ok I b \<Longrightarrow> keq a b \<Longrightarrow> raw_get t a = raw_get t b"
  proof -
    assume t: "table_wf I t" "key_ok I a" "key_ok I b" "keq a b"
    obtain s where "luaH_get t a = Inr s" "finds t a s" using luaH_get_finds[OF wf_core[OF t(1)] t(2)] by blast
    moreover then have "finds t b s" using finds_keq[OF wf_core[OF t(1)] t(4,2,3)] by simp
    moreover obtain s' where "luaH_get t b = Inr s'" "finds t b s'" using luaH_get_finds[OF wf_core[OF t(1)] t(3)] by blast
    ultimately show ?thesis using finds_same[OF wf_core[OF t(1)], of b s s'] by (simp add: raw_get_def)
  qed
qed

subsection \<open>Integer keys, new tables, the array part\<close>

lemma luaH_setnum_cases:
  assumes t: "table_wf I t" and i: "- (2 ^ 31) \<le> i" "i < 2 ^ 31"
  shows "(\<exists>s t'. luaH_setnum t i = Inr (s, t') \<and> bound_to I t t' (LNumber (cast_num i)) s)
     \<or> luaH_setnum t i = Inl table_overflow"
proof -
  have core: "table_core I t" by (rule wf_core[OF t])
  have k: "key_ok I (LNumber (cast_num i))" using i by (intro key_num_ok) auto
  obtain s where s: "luaH_getnum t i = Inr s" "finds t (LNumber (cast_num i)) s"
    using luaH_getnum_finds[OF core i] by blast
  have d: "newkey_depth = Suc (Suc 0)" by (simp add: newkey_depth_def)
  show ?thesis
  proof (cases "s = SNilObject")
    case False
    then show ?thesis using s t by (simp add: luaH_setnum_def luaH_setnum_by_def bound_to_def)
  next
    case True
    then show ?thesis using s newkey_spec[OF t k, of 0] by (simp add: luaH_setnum_def luaH_setnum_by_def d)
  qed
qed

lemma rawseti_cases:
  assumes "table_wf I t" "- (2 ^ 31) \<le> i" "i < 2 ^ 31"
  shows "(\<exists>t'. raw_seti t i v = Inr t' \<and> table_wf I t' \<and> metatable t' = metatable t
        \<and> (\<forall>k'. key_ok I k' \<longrightarrow> lookup t' k' = (if keq k' (LNumber (cast_num i)) then v else lookup t k')))
     \<or> raw_seti t i v = Inl table_overflow"
proof -
  have "key_ok I (LNumber (cast_num i))" using assms by (intro key_num_ok) auto
  then show ?thesis
    using luaH_setnum_cases[OF assms] bound_set[of I t _ "LNumber (cast_num i)"] by (fastforce simp: raw_seti_def)
qed

lemma luaH_new_cases:
  assumes "inj_on ts_addr I" "int narray \<le> MAXASIZE" "nhash < 2 ^ 31"
  shows "(\<exists>t. luaH_new narray nhash = Inr t \<and> table_wf I t \<and> (\<forall>k. lookup t k = LNil) \<and> sizearray t = narray
        \<and> nhash \<le> 2 ^ lsizenode t) \<or> luaH_new narray nhash = Inl table_overflow \<and> 2 ^ 26 < nhash"
proof -
  let ?t = "\<lparr>flags = NOT 0, lsizenode = 0, metatable = 0, array = replicate narray LNil, node = None,
               lastfree = 0, sizearray = narray\<rparr>"
  have n: "luaH_new narray nhash = setnodevector ?t nhash"
    by (simp add: luaH_new_def setarrayvector_ok[OF assms(2)])
  from setnodevector_cases[OF assms(3), of ?t] show ?thesis
  proof (elim disjE exE conjE)
    fix t' assume t': "setnodevector ?t nhash = Inr t'" "fresh_nodes t'" "nhash \<le> length (nodes t')"
      "array t' = array ?t" "sizearray t' = sizearray ?t"
    have c: "table_core I t'" "\<And>k. lookup t' k = (if in_array t' k then array t' ! nat (arrayindex k - 1) else LNil)"
      using fresh_core[OF t'(2) assms(1)] t'(4,5) assms(2) by auto
    have "lookup t' k = LNil" for k using c(2)[of k] in_array_key[of t' k] t'(4,5) by auto
    moreover have "nhash \<le> 2 ^ lsizenode t'" using t'(3) table_coreD(5)[OF c(1)] by simp
    ultimately show ?thesis using n t' c(1) by (simp add: table_wf_def)
  qed (simp add: n)
qed

lemma luaH_resizearray_grow:
  assumes t: "table_wf I t" and n: "sizearray t \<le> nasize" "int nasize \<le> MAXASIZE"
  shows "\<exists>t'. luaH_resizearray t nasize = Inr t' \<and> resized I t t' nasize (if node t = None then 0 else length (nodes t))"
proof -
  have core: "table_core I t" by (rule wf_core[OF t])
  let ?h = "if node t = None then 0 else length (nodes t)"
  have l: "nat (sizenode t) = length (nodes t)" using table_coreD(5)[OF core] by (simp add: sizenode_def nat_power_eq)
  have h: "?h \<le> 2 ^ 26"
    using power_increasing[OF table_coreD(4)[OF core], of "2::nat"] table_coreD(5)[OF core] by simp
  have b: "hash_bound t nasize \<le> ?h"
  proof (cases "node t = None")
    case True
    then have "live_entries (rev (nodes t)) = []" by (simp add: live_entries_def nodes_def dummynode_def)
    then show ?thesis using True n by (simp add: hash_bound_def slice_out_def nodes_out_def)
  next
    case False
    have "length (nodes_out t nasize) \<le> length (live_entries (rev (nodes t)))" by (simp add: nodes_out_def)
    also have "\<dots> \<le> length (nodes t)" using live_bound[of "rev (nodes t)"] by simp
    finally show ?thesis unfolding hash_bound_def slice_out_def using False n by (cases "node t") auto
  qed
  have "newkey_depth = Suc (Suc 0)" by (simp add: newkey_depth_def)
  then have "luaH_resizearray t nasize = resize_by (newkey (Suc (Suc 0))) t nasize ?h"
    by (simp add: luaH_resizearray_def resize_def l)
  then show ?thesis using resize_spec[OF t n(2) _ b, of "Suc 0"] h by auto
qed

subsection \<open>Traversal\<close>

definition table_entries :: "Table \<Rightarrow> entry list" where
  "table_entries t = slice_entries (array t) [0..<sizearray t] @ live_entries (nodes t)"

text \<open>Array slots and nodes numbered in one sequence, as \<open>findindex\<close> numbers them.\<close>

definition live_at :: "Table \<Rightarrow> nat \<Rightarrow> bool" where
  "live_at t i = (if i < sizearray t then array t ! i \<noteq> LNil else i_val (nodes t ! (i - sizearray t)) \<noteq> LNil)"

definition entry_at :: "Table \<Rightarrow> nat \<Rightarrow> entry" where
  "entry_at t i =
     (if i < sizearray t then (LNumber (cast_num (int i + 1)), array t ! i)
      else (i_key (nodes t ! (i - sizearray t)), i_val (nodes t ! (i - sizearray t))))"

definition slots :: "Table \<Rightarrow> nat" where "slots t = sizearray t + length (nodes t)"

lemma live_entries_upt:
  "live_entries ns = map (\<lambda>i. (i_key (ns ! i), i_val (ns ! i))) (List.filter (\<lambda>i. i_val (ns ! i) \<noteq> LNil) [0..<length ns])"
proof -
  have "List.filter (\<lambda>o'. i_val o' \<noteq> LNil) (map ((!) ns) [0..<length ns])
      = map ((!) ns) (List.filter (\<lambda>i. i_val (ns ! i) \<noteq> LNil) [0..<length ns])"
    by (simp add: filter_map o_def)
  then show ?thesis by (simp add: live_entries_def map_nth)
qed

lemma entries_slots: "table_entries t = map (entry_at t) (List.filter (live_at t) [0..<slots t])"
proof -
  have sp: "[0..<slots t] = [0..<sizearray t] @ map (\<lambda>i. i + sizearray t) [0..<length (nodes t)]"
    using upt_add_eq_append[of 0 "sizearray t" "length (nodes t)"] by (simp add: slots_def map_add_upt add.commute)
  have a: "map (entry_at t) (List.filter (live_at t) [0..<sizearray t]) = slice_entries (array t) [0..<sizearray t]"
    unfolding slice_entries_def by (intro map_cong filter_cong) (auto simp: live_at_def entry_at_def)
  have h: "map (entry_at t) (List.filter (live_at t) (map (\<lambda>i. i + sizearray t) [0..<length (nodes t)])) = live_entries (nodes t)"
    unfolding live_entries_upt by (simp add: filter_map o_def live_at_def entry_at_def)
  show ?thesis unfolding sp by (simp add: table_entries_def a h)
qed

definition next_from :: "Table \<Rightarrow> nat \<Rightarrow> entry option" where
  "next_from t i =
     (case next_array t i of Inl kv \<Rightarrow> Some kv | Inr i' \<Rightarrow> next_hash t (i' - sizearray t))"

definition first_live :: "Table \<Rightarrow> nat \<Rightarrow> entry option" where
  "first_live t i = (case List.filter (live_at t) [i..<slots t] of [] \<Rightarrow> None | j # js \<Rightarrow> Some (entry_at t j))"

lemma first_live_step:
  "i < slots t \<Longrightarrow> first_live t i = (if live_at t i then Some (entry_at t i) else first_live t (Suc i))"
  by (simp add: first_live_def upt_conv_Cons)

lemma next_hash_first:
  "length (nodes t) = 2 ^ lsizenode t \<Longrightarrow> next_hash t i = first_live t (i + sizearray t)"
proof (induction t i rule: next_hash.induct)
  case (1 t i)
  have b: "int i < sizenode t \<longleftrightarrow> i + sizearray t < slots t"
    using "1.prems" by (simp add: sizenode_def slots_def flip: of_nat_less_iff)
  show ?case
  proof (cases "int i < sizenode t")
    case True
    have "live_at t (i + sizearray t) \<longleftrightarrow> i_val (nodes t ! i) \<noteq> LNil"
      "entry_at t (i + sizearray t) = (i_key (nodes t ! i), i_val (nodes t ! i))"
      by (simp_all add: live_at_def entry_at_def)
    then show ?thesis using "1.IH"[OF True _ "1.prems"] True b
      by (simp add: next_hash.simps[of t i] first_live_step)
  next
    case False
    then show ?thesis using b by (simp add: next_hash.simps[of t i] first_live_def)
  qed
qed

lemma next_from_first:
  assumes l: "length (nodes t) = 2 ^ lsizenode t" shows "next_from t i = first_live t i"
proof (cases "i < sizearray t")
  case True
  have "next_from t i = first_live t i" if "i \<le> sizearray t" using that
  proof (induction "sizearray t - i" arbitrary: i)
    case 0
    then show ?case using next_hash_first[OF l, of 0] by (simp add: next_from_def next_array.simps[of t i])
  next
    case (Suc n)
    then have i: "i < sizearray t" by simp
    have "next_from t i = (if array t ! i \<noteq> LNil then Some (LNumber (cast_num (int i + 1)), array t ! i) else next_from t (Suc i))"
      using i by (simp add: next_from_def next_array.simps[of t i])
    also have "\<dots> = first_live t i"
      using Suc i by (simp add: first_live_step slots_def live_at_def entry_at_def)
    finally show ?case .
  qed
  then show ?thesis using True by simp
next
  case False
  then show ?thesis using next_hash_first[OF l, of "i - sizearray t"] by (simp add: next_from_def next_array.simps[of t i])
qed

text \<open>No key has the address of a dead key of the table: the collector has not given away again the memory
  of an object it freed to an object that is now a key.\<close>

definition dead_apart :: "Table \<Rightarrow> bool" where
  "dead_apart t =
     (\<forall>i<length (nodes t). \<forall>j<length (nodes t). \<forall>a. i_key (nodes t ! i) = LDeadKey a \<longrightarrow>
        iscollectable (i_key (nodes t ! j)) \<longrightarrow> keyed (nodes t) j \<longrightarrow> gcvalue (i_key (nodes t ! j)) \<noteq> a)"

lemma ttype_dead: "ttype k = LUA_TDEADKEY \<Longrightarrow> \<exists>a. k = LDeadKey a"
  by (cases k) simp_all

lemma findindex_entry:
  assumes t: "table_wf I t" "dead_apart t" and i: "i < slots t" "live_at t i"
  shows "findindex t (fst (entry_at t i)) = Inr (int i)"
proof -
  have core: "table_core I t" by (rule wf_core[OF t(1)])
  note nw = table_coreD(9)[OF core]
  show ?thesis
  proof (cases "i < sizearray t")
    case True
    have "arrayindex (LNumber (cast_num (int i + 1))) = int i + 1"
      using True table_coreD(3)[OF core] by (intro arrayindex_int) (auto simp: MAXASIZE_def MAXBITS_def)
    then show ?thesis using True by (simp add: findindex_def entry_at_def)
  next
    case False
    define j where "j = i - sizearray t"
    have j: "j < length (nodes t)" "i_val (nodes t ! j) \<noteq> LNil" "i = j + sizearray t"
      using False i by (auto simp: j_def slots_def live_at_def)
    let ?k = "i_key (nodes t ! j)"
    have kj: "keyed (nodes t) j" by (rule node_wfD(4)[OF nw j(1,2)])
    have k: "key_ok I ?k" by (rule node_wfD(5)[OF nw kj])
    define P where "P n \<longleftrightarrow> keq (i_key (n :: Node)) ?k \<or>
      (ttype (i_key n) = LUA_TDEADKEY \<and> iscollectable ?k \<and> gcvalue (i_key n) = gcvalue ?k)" for n
    have mp: "mainposition t ?k < length (nodes t)" by (rule table_coreD(11)[OF core])
    consider (found) r where "chain_find (length (nodes t)) (nodes t) P (mainposition t ?k) = Inr (Some r)"
        "(mainposition t ?k, r) \<in> (link (nodes t))\<^sup>*" "P (nodes t ! r)"
      | (none) "chain_find (length (nodes t)) (nodes t) P (mainposition t ?k) = Inr None"
        "\<And>r. (mainposition t ?k, r) \<in> (link (nodes t))\<^sup>* \<Longrightarrow> \<not> P (nodes t ! r)"
      using chain_find_spec[OF node_wfD(1)[OF nw] mp, of P] by blast
    then have "chain_find (length (nodes t)) (nodes t) P (mainposition t ?k) = Inr (Some j)"
    proof cases
      case r: found
      have rl: "r < length (nodes t)" by (rule reach_less[OF node_wfD(1)[OF nw] r(2) mp])
      have eq: "keq (i_key (nodes t ! r)) ?k"
      proof (rule ccontr)
        assume "\<not> keq (i_key (nodes t ! r)) ?k"
        then obtain a where "i_key (nodes t ! r) = LDeadKey a" "iscollectable ?k" "gcvalue ?k = a"
          using r(3) ttype_dead[of "i_key (nodes t ! r)"] unfolding P_def by auto
        then show False using t(2) rl j(1) kj unfolding dead_apart_def by blast
      qed
      then have "keyed (nodes t) r" using keq_proper[OF _ k] rl by (auto simp: keyed_def)
      then have "r = j" using node_wfD(9)[OF nw _ kj] eq by blast
      then show ?thesis using r(1) by simp
    next
      case none
      then show ?thesis using node_wfD(7)[OF nw kj] keq_refl[OF k] unfolding P_def by blast
    qed
    moreover have "?k \<noteq> LNil" using kj by (simp add: keyed_def)
    moreover have "\<not> (0 < arrayindex ?k \<and> arrayindex ?k \<le> int (sizearray t))"
      using table_coreD(10)[OF core kj] by (simp add: in_array_def)
    moreover have "fst (entry_at t i) = ?k" using False by (simp add: entry_at_def j_def)
    ultimately show ?thesis using j(3) by (simp add: findindex_def Let_def P_def[abs_def])
  qed
qed

lemma luaH_next_from: "findindex t k = Inr i \<Longrightarrow> -1 \<le> i \<Longrightarrow> luaH_next t k = Inr (next_from t (nat (i + 1)))"
  by (simp add: luaH_next_def next_from_def split: sum.splits)

lemma filter_upt_nth:
  assumes "j < length (List.filter P [0..<N])" "x = List.filter P [0..<N] ! j"
  shows "x < N" "P x" "List.filter P [Suc x..<N] = drop (Suc j) (List.filter P [0..<N])"
proof -
  have "x \<in> set (List.filter P [0..<N])" using assms by (metis nth_mem)
  then show x: "x < N" "P x" by auto
  have "[0..<N] = [0..<x] @ x # [Suc x..<N]"
    using x(1) upt_add_eq_append[of 0 x "N - x"] by (simp add: upt_conv_Cons)
  then have f: "List.filter P [0..<N] = List.filter P [0..<x] @ x # List.filter P [Suc x..<N]"
    using x(2) by (metis filter.simps(2) filter_append)
  have d: "distinct (List.filter P [0..<N])" by simp
  have lt: "length (List.filter P [0..<x]) < length (List.filter P [0..<N])" unfolding f by simp
  have "List.filter P [0..<N] ! length (List.filter P [0..<x]) = x" unfolding f by (simp add: nth_append)
  then have "j = length (List.filter P [0..<x])"
    using nth_eq_iff_index_eq[OF d lt assms(1)] assms(2) by simp
  then show "List.filter P [Suc x..<N] = drop (Suc j) (List.filter P [0..<N])" unfolding f by simp
qed

lemma luaH_next_entries:
  assumes t: "table_wf I t" "dead_apart t"
  shows "luaH_next t LNil = Inr (case table_entries t of [] \<Rightarrow> None | e # es \<Rightarrow> Some e)"
    and "j < length (table_entries t) \<Longrightarrow> luaH_next t (fst (table_entries t ! j)) =
      Inr (if Suc j < length (table_entries t) then Some (table_entries t ! Suc j) else None)"
proof -
  note l = table_coreD(5)[OF wf_core[OF t(1)]]
  let ?f = "List.filter (live_at t) [0..<slots t]"
  have "findindex t LNil = Inr (- 1)" by (simp add: findindex_def)
  then have "luaH_next t LNil = Inr (first_live t 0)" by (simp add: luaH_next_from next_from_first[OF l])
  then show "luaH_next t LNil = Inr (case table_entries t of [] \<Rightarrow> None | e # es \<Rightarrow> Some e)"
    by (simp add: first_live_def entries_slots split: list.split)
  assume j: "j < length (table_entries t)"
  then have jf: "j < length ?f" by (simp add: entries_slots)
  define x where "x = ?f ! j"
  note x = filter_upt_nth[OF jf x_def]
  have e: "table_entries t ! j = entry_at t x" using jf by (simp add: entries_slots x_def)
  have "luaH_next t (fst (entry_at t x)) = Inr (first_live t (Suc x))"
    using luaH_next_from[OF findindex_entry[OF t x(1,2)]] by (simp add: next_from_first[OF l] nat_add_distrib)
  also have "first_live t (Suc x) = (if Suc j < length ?f then Some (entry_at t (?f ! Suc j)) else None)"
    using Cons_nth_drop_Suc[of "Suc j" ?f]
    by (cases "Suc j < length ?f") (simp_all add: first_live_def x(3) eq_commute[of _ "drop _ _"])
  finally show "luaH_next t (fst (table_entries t ! j)) =
      Inr (if Suc j < length (table_entries t) then Some (table_entries t ! Suc j) else None)"
    by (simp add: e) (simp add: entries_slots)
qed

subsection \<open>Boundaries\<close>

definition present :: "Table \<Rightarrow> nat \<Rightarrow> bool" where
  "present t j = (lookup t (LNumber (cast_num (int j))) \<noteq> LNil)"

definition boundary :: "Table \<Rightarrow> nat \<Rightarrow> bool" where
  "boundary t n = ((n = 0 \<or> present t n) \<and> \<not> present t (Suc n))"

lemma num_present_present:
  assumes "table_core I t" "j < 2 ^ 31" shows "num_present t j = Inr (present t j)"
proof -
  obtain s where "luaH_getnum t (int j) = Inr s" "finds t (LNumber (cast_num (int j))) s"
    using luaH_getnum_finds[OF assms(1), of "int j"] assms(2) by auto
  then show ?thesis using finds_val[OF assms(1)] by (simp add: num_present_def present_def)
qed

lemma bin_search_spec:
  "(\<And>m. m < j \<Longrightarrow> p m = Inr (q m)) \<Longrightarrow> i < j \<Longrightarrow> (i = i0 \<or> q i) \<Longrightarrow> \<not> q j \<Longrightarrow>
     \<exists>r. bin_search p i j = Inr r \<and> i \<le> r \<and> r < j \<and> (r = i0 \<or> q r) \<and> \<not> q (Suc r)"
proof (induction p i j rule: bin_search.induct)
  case (1 p i j)
  show ?case
  proof (cases "1 < j - i")
    case True
    let ?m = "(i + j) div 2"
    have m: "i < ?m" "?m < j" using True by auto
    show ?thesis
    proof (cases "q ?m")
      case q: True
      obtain r where "bin_search p ?m j = Inr r" "?m \<le> r" "r < j" "r = i0 \<or> q r" "\<not> q (Suc r)"
        using "1.IH"(1)[OF True refl _ _ m(2) _ "1.prems"(4)] "1.prems"(1) q m by auto
      then show ?thesis using True q m "1.prems"(1)[OF m(2)] by (simp add: bin_search.simps[of p i])
    next
      case q: False
      have "\<exists>r. bin_search p i ?m = Inr r \<and> i \<le> r \<and> r < ?m \<and> (r = i0 \<or> q r) \<and> \<not> q (Suc r)"
        using "1.IH"(2)[OF True refl, of False] "1.prems" q m by auto
      then show ?thesis using True q m "1.prems"(1)[OF m(2)] by (auto simp: bin_search.simps[of p i])
    qed
  next
    case False
    then have "j = Suc i" using "1.prems"(2) by simp
    then show ?thesis using "1.prems"(3,4) by (simp add: bin_search.simps[of p i])
  qed
qed

lemma present_array: "table_core I t \<Longrightarrow> 0 < j \<Longrightarrow> j \<le> sizearray t \<Longrightarrow> present t j \<longleftrightarrow> array t ! (j - 1) \<noteq> LNil"
proof -
  assume t: "table_core I t" "0 < j" "j \<le> sizearray t"
  have "arrayindex (LNumber (cast_num (int j))) = int j"
    using t table_coreD(3)[OF t(1)] by (intro arrayindex_int) (auto simp: MAXASIZE_def MAXBITS_def)
  then show ?thesis using t by (simp add: present_def lookup_def in_array_def nat_diff_distrib)
qed

lemma some_absent:
  assumes t: "table_core I t" shows "\<exists>j>0. j \<le> 2 ^ 28 \<and> \<not> present t j"
proof (rule ccontr)
  assume n: "\<not> ?thesis"
  let ?f = "\<lambda>i. nat (arrayindex (i_key (nodes t ! i)))"
  have "{1..2 ^ 28} \<subseteq> {1..sizearray t} \<union> ?f ` {..<length (nodes t)}"
  proof
    fix j :: nat assume j: "j \<in> {1..2 ^ 28}"
    then have p: "present t j" using n by auto
    have ai: "arrayindex (LNumber (cast_num (int j))) = int j" using j by (intro arrayindex_int) auto
    show "j \<in> {1..sizearray t} \<union> ?f ` {..<length (nodes t)}"
    proof (cases "j \<le> sizearray t")
      case False
      then have "nget (nodes t) (LNumber (cast_num (int j))) \<noteq> LNil"
        using p ai by (simp add: present_def lookup_def in_array_def)
      then obtain i where i: "keyed (nodes t) i" "keq (i_key (nodes t ! i)) (LNumber (cast_num (int j)))"
        using nget_none by blast
      have "key_ok I (LNumber (cast_num (int j)))" using j by (intro key_num_ok) auto
      then have "arrayindex (i_key (nodes t ! i)) = int j"
        using keq_same(2)[OF i(2) table_coreD(1)[OF t] node_wfD(5)[OF table_coreD(9)[OF t] i(1)]] ai by simp
      then have "j = ?f i" by simp
      moreover have "i \<in> {..<length (nodes t)}" using i(1) by (simp add: keyed_def)
      ultimately show ?thesis by blast
    qed (use j in simp)
  qed
  then have "card {1..(2::nat) ^ 28} \<le> card ({1..sizearray t} \<union> ?f ` {..<length (nodes t)})"
    by (intro card_mono) auto
  also have "\<dots> \<le> card {1..sizearray t} + card (?f ` {..<length (nodes t)})" by (rule card_Un_le)
  also have "\<dots> \<le> sizearray t + length (nodes t)" using card_image_le[of "{..<length (nodes t)}" ?f] by simp
  finally have "2 ^ 28 \<le> sizearray t + length (nodes t)" by simp
  moreover have "int (sizearray t) \<le> 2 ^ 26" using table_coreD(3)[OF t] by (simp add: MAXASIZE_def MAXBITS_def)
  moreover have "length (nodes t) \<le> 2 ^ 26"
    using power_increasing[OF table_coreD(4)[OF t], of "2::nat"] table_coreD(5)[OF t] by simp
  ultimately show False by simp
qed

lemma linear_search_spec:
  assumes t: "table_core I t"
  shows "0 < i \<Longrightarrow> i \<le> 2 ^ 28 \<Longrightarrow> (\<forall>j. 0 < j \<longrightarrow> j < i \<longrightarrow> present t j) \<Longrightarrow>
     \<exists>r. linear_search t i = Inr r \<and> boundary t r"
proof (induction "2 ^ 28 - i" arbitrary: i rule: less_induct)
  case less
  have np: "num_present t i = Inr (present t i)" using less.prems by (intro num_present_present[OF t]) simp
  show ?case
  proof (cases "present t i")
    case True
    have "i \<noteq> 2 ^ 28"
    proof
      assume "i = 2 ^ 28"
      then have "present t j" if "0 < j" "j \<le> 2 ^ 28" for j
        using that True less.prems(3) by (cases "j = i") auto
      then show False using some_absent[OF t] by blast
    qed
    then have lt: "i < 2 ^ 28" using less.prems(2) by simp
    have "\<exists>r. linear_search t (Suc i) = Inr r \<and> boundary t r"
      using lt True less.prems by (intro less.hyps) (auto simp: less_Suc_eq)
    then show ?thesis using True np lt by (simp add: linear_search.simps[of t i])
  next
    case False
    have "i - 1 = 0 \<or> present t (i - 1)" using less.prems by (cases "i = 1") auto
    then have "boundary t (i - 1)" using False less.prems by (simp add: boundary_def)
    then show ?thesis using False np less.prems by (simp add: linear_search.simps[of t i])
  qed
qed

lemma unbound_loop_spec:
  assumes t: "table_core I t"
  shows "i < j \<Longrightarrow> 0 < j \<Longrightarrow> int j \<le> MAX_INT \<Longrightarrow> (i = 0 \<or> present t i) \<Longrightarrow>
     \<exists>r. unbound_loop t i j = Inr r \<and> boundary t r"
proof (induction "nat MAX_INT + 1 - j" arbitrary: i j rule: less_induct)
  case less
  have j31: "j < 2 ^ 31" using less.prems(3) by (simp add: MAX_INT_def)
  note np = num_present_present[OF t j31]
  show ?case
  proof (cases "present t j")
    case False
    obtain r where r: "bin_search (num_present t) i j = Inr r" "i \<le> r" "r < j" "r = i \<or> present t r"
        "\<not> present t (Suc r)"
      using bin_search_spec[of j "num_present t" "present t" i i] num_present_present[OF t] less.prems(1) False j31
      by auto
    have "boundary t r" using r less.prems(4) by (auto simp: boundary_def)
    then show ?thesis using False np r(1) less.prems by (simp add: unbound_loop.simps[of t i])
  next
    case True
    show ?thesis
    proof (cases "MAX_INT < int (j * 2)")
      case over: True
      obtain r where "linear_search t 1 = Inr r" "boundary t r" using linear_search_spec[OF t, of 1] by auto
      then show ?thesis using True np over less.prems by (simp add: unbound_loop.simps[of t i])
    next
      case False
      have "\<exists>r. unbound_loop t j (j * 2) = Inr r \<and> boundary t r"
        using less.prems True False by (intro less.hyps) auto
      then show ?thesis using True np False less.prems by (simp add: unbound_loop.simps[of t i])
    qed
  qed
qed

lemma luaH_getn_boundary_aux:
  assumes t: "table_core I t" shows "\<exists>r. luaH_getn t = Inr r \<and> boundary t r"
proof -
  let ?j = "sizearray t"
  have ml: "?j < 2 ^ 28" using table_coreD(3)[OF t] by (simp add: MAXASIZE_def MAXBITS_def)
  show ?thesis
  proof (cases "0 < ?j \<and> array t ! (?j - 1) = LNil")
    case True
    have np: "\<not> present t ?j" using present_array[OF t, of ?j] True by simp
    let ?q = "\<lambda>m. array t ! (m - 1) \<noteq> LNil"
    obtain r where r: "bin_search (\<lambda>m. Inr (?q m)) 0 ?j = Inr r" "r < ?j" "r = 0 \<or> ?q r" "\<not> ?q (Suc r)"
      using bin_search_spec[of ?j "\<lambda>m. Inr (?q m)" ?q 0 0] True by auto
    have "boundary t r" using r present_array[OF t, of r] present_array[OF t, of "Suc r"]
      by (auto simp: boundary_def)
    then show ?thesis using True r(1) by (simp add: luaH_getn_def Let_def)
  next
    case full: False
    then have p: "?j = 0 \<or> present t ?j" using present_array[OF t, of ?j] by auto
    show ?thesis
    proof (cases "node t")
      case None
      have "arrayindex (LNumber (cast_num (int (Suc ?j)))) = int (Suc ?j)" using ml by (intro arrayindex_int) auto
      moreover have "nget (nodes t) k = LNil" for k
        by (rule nget_none) (simp add: keyed_def nodes_def dummynode_def None)
      ultimately have "\<not> present t (Suc ?j)" by (simp add: present_def lookup_def in_array_def)
      then show ?thesis using None full p by (auto simp: luaH_getn_def boundary_def)
    next
      case (Some ns)
      have "\<exists>r. unbound_loop t ?j (?j + 1) = Inr r \<and> boundary t r"
        using ml p by (intro unbound_loop_spec[OF t]) (auto simp: MAX_INT_def)
      then show ?thesis using Some full by (auto simp: luaH_getn_def unbound_search_def)
    qed
  qed
qed

subsection \<open>Properties\<close>

lemma nan_never_equal: "dbl_isnan n \<Longrightarrow> \<not> keq k (LNumber n)"
  by (cases k) (auto simp: luaO_rawequalObj_def luai_numeq_def)

lemma luaH_get_nan:
  assumes t: "table_core I t" and n: "dbl_isnan n" shows "luaH_get t (LNumber n) = Inr SNilObject"
proof -
  have "chain_find (length (nodes t)) (nodes t) (\<lambda>x. keq (i_key x) (LNumber n)) (mainposition t (LNumber n)) = Inr None"
    using chain_find_spec[OF node_wfD(1)[OF table_coreD(9)[OF t]] table_coreD(11)[OF t],
        of "\<lambda>x. keq (i_key x) (LNumber n)" "LNumber n"] nan_never_equal[OF n] by auto
  moreover have "\<not> luai_numeq x n" for x using n by (simp add: luai_numeq_def)
  ultimately show ?thesis by (simp add: luaH_get_def luaH_get_any_def chain_slot_def Let_def)
qed

text \<open>A small table to evaluate the properties on: an array of two elements, no node.\<close>

definition pair_table :: "TValue \<Rightarrow> TValue \<Rightarrow> Table" where
  "pair_table a b = \<lparr>flags = 0, lsizenode = 0, metatable = 0, array = [a, b], node = None, lastfree = 0, sizearray = 2\<rparr>"

lemma pair_table_wf: "table_wf {} (pair_table a b)"
  using fresh_core(1)[of "pair_table a b" "{}"]
  by (simp add: table_wf_def pair_table_def fresh_nodes_def nodes_def MAXASIZE_def MAXBITS_def)

lemma pair_table_dead: "dead_apart (pair_table a b)"
  by (simp add: dead_apart_def pair_table_def nodes_def dummynode_def)

lemma key_3_ok: "key_ok {} (LNumber (cast_num 3))"
  by (rule key_num_ok) simp

text \<open>C15. Raw assignment implements the update of a map: on a well formed table, for any key but nil, NaN and a
  dead key, \<open>lua_rawset\<close> either reports the overflow of the table, or ends with a well formed table with the same
  metatable in which every key reads what it read before, except those equal to the assigned key, which read the
  assigned value. The node allocation, collision handling and rehashing it goes through never show, and it neither
  runs into undefined behaviour nor recurses without end.\<close>

theorem rawset_updates_map:
  assumes "table_wf I t" "key_ok I k"
  shows "(\<exists>t'. raw_set t k v = Inr t' \<and> table_wf I t' \<and> metatable t' = metatable t
        \<and> (\<forall>k'. key_ok I k' \<longrightarrow> raw_get t' k' = (if luaO_rawequalObj k' k then Inr v else raw_get t k')))
     \<or> raw_set t k v = Inl table_overflow"
  using rawset_cases[OF assms] tab.get_put[OF assms] by blast

theorem rawset_updates_map_witness:
  "(\<exists>t'. raw_set (pair_table LNil LNil) (LNumber (cast_num 3)) (LBoolean 1) = Inr t'
       \<and> raw_get t' (LNumber (cast_num 3)) = Inr (LBoolean 1))
     \<or> raw_set (pair_table LNil LNil) (LNumber (cast_num 3)) (LBoolean 1) = Inl table_overflow"
  using rawset_updates_map[OF pair_table_wf key_3_ok, of LNil LNil "LBoolean 1"] keq_refl[OF key_3_ok] key_3_ok
  by auto

text \<open>After any sequence of raw assignments that all succeed, a key reads the value of the last assignment to a
  key equal to it, or what it read before the sequence when there is none, and the table is still well formed.\<close>

theorem rawset_list_last_wins:
  assumes "table_wf I t" "\<forall>(k, v)\<in>set kvs. key_ok I k" "put_list raw_set kvs t = Inr t'" "key_ok I k"
  shows "table_wf I t' \<and> raw_get t' k =
    (case last_for luaO_rawequalObj kvs k of Some v \<Rightarrow> Inr v | None \<Rightarrow> raw_get t k)"
  by (rule tab.put_list_get[OF assms])

lemma put_list_two:
  "raw_set (pair_table LNil LNil) (LNumber (cast_num 1)) (LBoolean 1) = Inr (pair_table (LBoolean 1) LNil)"
  "raw_set (pair_table (LBoolean 1) LNil) (LNumber (cast_num 1)) (LBoolean 0) = Inr (pair_table (LBoolean 0) LNil)"
  by (simp_all add: raw_set_def luaH_set_def luaH_set_by_def luaH_get_def lua_number2int_cast_num
      luaH_getnum_def pair_table_def cast_num_props Let_def)

theorem rawset_list_last_wins_witness:
  "raw_get (pair_table (LBoolean 0) LNil) (LNumber (cast_num 1)) = Inr (LBoolean 0)"
proof -
  have k: "key_ok {} (LNumber (cast_num 1))" by (rule key_num_ok) simp
  show ?thesis
    using rawset_list_last_wins[OF pair_table_wf[of LNil LNil], of
        "[(LNumber (cast_num 1), LBoolean 1), (LNumber (cast_num 1), LBoolean 0)]"
        "pair_table (LBoolean 0) LNil" "LNumber (cast_num 1)"] k keq_refl[OF k]
    by (simp add: put_list_two)
qed

text \<open>C16. The hash lookup is equivalent to a linear scan: on a well formed table, reading any legal key through the
  array test, the main position and the collision chain gives the value that a scan of the array slice and then of
  all the nodes for an equal key gives.\<close>

theorem rawget_is_scan:
  assumes "table_wf I t" "key_ok I k" shows "raw_get t k = Inr (lookup t k)"
  by (rule rawget_lookup[OF wf_core[OF assms(1)] assms(2)])

theorem rawget_is_scan_witness:
  "raw_get (pair_table LNil (LBoolean 1)) (LNumber (cast_num 3)) = Inr LNil"
proof -
  have "nget (nodes (pair_table LNil (LBoolean 1))) k = LNil" for k
    by (rule nget_none) (simp add: keyed_def nodes_def dummynode_def pair_table_def)
  moreover have "\<not> in_array (pair_table LNil (LBoolean 1)) (LNumber (cast_num 3))"
    using arrayindex_int[of 3] by (simp add: in_array_def pair_table_def)
  ultimately show ?thesis using rawget_is_scan[OF pair_table_wf key_3_ok, of LNil "LBoolean 1"] by (simp add: lookup_def)
qed

text \<open>C17. Assigning to the nil key, or in a well formed table to a NaN key, is refused with the error of the
  language, and reading such a key gives nil.\<close>

theorem bad_keys_refused:
  assumes "table_wf I t" "dbl_isnan n"
  shows "raw_set t LNil v = Inl (ErrRun ''table index is nil'') \<and> raw_get t LNil = Inr LNil
    \<and> raw_set t (LNumber n) v = Inl (ErrRun ''table index is NaN'') \<and> raw_get t (LNumber n) = Inr LNil"
  using luaH_get_nan[OF wf_core[OF assms(1)] assms(2)] assms(2)
  by (auto simp: raw_set_def raw_get_def luaH_set_def luaH_set_by_def luaH_get_def[of t LNil] luai_numisnan_def luai_numeq_def)

lemma quiet_nan: "dbl_isnan 0x7FF8000000000000"
  by (simp add: dbl_isnan_def dbl_exp_def dbl_frac_def dbl_bits_def)

theorem bad_keys_refused_witness:
  "raw_set (pair_table LNil LNil) (LNumber 0x7FF8000000000000) LNil = Inl (ErrRun ''table index is NaN'')"
  using bad_keys_refused[OF pair_table_wf quiet_nan] by blast

text \<open>C18. Traversal visits every entry once and in order: \<open>luaH_next\<close> started with nil returns the first non-nil
  slot of the array, or of the nodes after it, and called with the key of any entry it returns the entry after that
  one, with none left out or repeated, and reports the end after the last; so following it from nil lists exactly
  \<open>table_entries\<close>. (A live key with the address of a dead key would confuse it; the collector keeps them apart.)\<close>

theorem next_enumerates:
  assumes "table_wf I t" "dead_apart t"
  shows "luaH_next t LNil = Inr (case table_entries t of [] \<Rightarrow> None | e # es \<Rightarrow> Some e)
    \<and> (\<forall>j<length (table_entries t). luaH_next t (fst (table_entries t ! j)) =
      Inr (if Suc j < length (table_entries t) then Some (table_entries t ! Suc j) else None))"
  using luaH_next_entries[OF assms] by blast

theorem next_enumerates_witness:
  "luaH_next (pair_table (LBoolean 1) LNil) (LNumber (cast_num 1)) = Inr None"
proof -
  have "table_entries (pair_table (LBoolean 1) LNil) = [(LNumber (cast_num 1), LBoolean 1)]"
    by (simp add: table_entries_def pair_table_def slice_entries_def live_entries_def nodes_def dummynode_def upt_rec)
  then show ?thesis using next_enumerates[OF pair_table_wf pair_table_dead, of "LBoolean 1" LNil] by simp
qed

text \<open>C19. The length operator returns a boundary of every well formed table: a number \<open>n\<close> that is zero or has a
  non-nil value, with nil at \<open>n + 1\<close>, whichever of the binary search of the array, the doubling search of the hash
  part and the linear search after an overflow it uses; the searches end and never leave the range of \<open>int\<close>.\<close>

theorem getn_boundary:
  assumes "table_wf I t" shows "\<exists>n. luaH_getn t = Inr n \<and> boundary t n"
  by (rule luaH_getn_boundary_aux[OF wf_core[OF assms]])

theorem getn_boundary_witness: "\<exists>n. luaH_getn (pair_table (LBoolean 1) LNil) = Inr n \<and> boundary (pair_table (LBoolean 1) LNil) n"
  by (rule getn_boundary[OF pair_table_wf])

text \<open>C20. A new table is well formed and empty, with the array slots and at least the node slots asked for, and
  growing the array part of a well formed table with \<open>luaH_resizearray\<close> keeps what every key reads and the
  metatable, and gives exactly the new array size: the entries that move from nodes to the array are not lost.\<close>

theorem new_and_grown_tables:
  assumes "inj_on ts_addr I" "int narray \<le> MAXASIZE" "nhash \<le> 2 ^ 26" "table_wf I t" "sizearray t \<le> nasize" "int nasize \<le> MAXASIZE"
  shows "(\<exists>n. luaH_new narray nhash = Inr n \<and> table_wf I n \<and> (\<forall>k. lookup n k = LNil)
        \<and> sizearray n = narray \<and> nhash \<le> 2 ^ lsizenode n)
    \<and> (\<exists>t'. luaH_resizearray t nasize = Inr t' \<and> table_wf I t' \<and> sizearray t' = nasize
        \<and> metatable t' = metatable t \<and> (\<forall>k. key_ok I k \<longrightarrow> raw_get t' k = raw_get t k))"
proof -
  have "nhash < 2 ^ 31" using assms(3) by simp
  from luaH_new_cases[OF assms(1,2) this] assms(3)
  have "\<exists>n. luaH_new narray nhash = Inr n \<and> table_wf I n \<and> (\<forall>k. lookup n k = LNil)
        \<and> sizearray n = narray \<and> nhash \<le> 2 ^ lsizenode n" by auto
  moreover obtain t' where "luaH_resizearray t nasize = Inr t'" "resized I t t' nasize (if node t = None then 0 else length (nodes t))"
    using luaH_resizearray_grow[OF assms(4-6)] by blast
  ultimately show ?thesis using rawget_lookup[OF wf_core[OF assms(4)]] rawget_lookup[OF wf_core, of I t']
    by (auto simp: resized_def)
qed

theorem new_and_grown_tables_witness:
  "(\<exists>n. luaH_new 0 5 = Inr n \<and> 5 \<le> (2::nat) ^ lsizenode n)
    \<and> (\<exists>t'. luaH_resizearray (pair_table LNil LNil) 4 = Inr t' \<and> sizearray t' = 4)"
proof -
  have "inj_on ts_addr {}" "int 0 \<le> MAXASIZE" "(5::nat) \<le> 2 ^ 26" "sizearray (pair_table LNil LNil) \<le> 4" "int 4 \<le> MAXASIZE"
    by (simp_all add: MAXASIZE_def MAXBITS_def pair_table_def)
  from new_and_grown_tables[OF this(1-3) pair_table_wf this(4,5)] show ?thesis by auto
qed



end
