(* ===== verification/Patterns.thy ===== *)
theory Patterns
  imports Objects
begin

text \<open>
  Pattern matching of \<open>lstrlib.c\<close>. A C string is the list of its characters, with a
  terminating null character one past the last; a pointer into it is an index, and a read beyond the
  terminator is \<open>Undef\<close>. The subject and the pattern never change during a match, so the match state
  holds the subject and the captures. A call of \<open>match\<close> gives the changed state and the end of the
  match, \<open>None\<close> for \<open>NULL\<close>. The message of an error comes without the position that
  \<open>luaL_error\<close> puts before it.
\<close>

subsection \<open>Characters (\<open>ctype.h\<close>, C locale)\<close>

abbreviation code :: "char \<Rightarrow> nat" where "code c \<equiv> of_char c"

definition NUL :: char where "NUL = CHR 0x00"

definition char_in :: "nat \<Rightarrow> nat \<Rightarrow> char \<Rightarrow> bool" where
  "char_in lo hi c = (lo \<le> code c \<and> code c \<le> hi)"

definition isupper :: "char \<Rightarrow> bool" where "isupper c = char_in 65 90 c"
definition islower :: "char \<Rightarrow> bool" where "islower c = char_in 97 122 c"
definition isalpha :: "char \<Rightarrow> bool" where "isalpha c = (isupper c \<or> islower c)"
definition isdigit :: "char \<Rightarrow> bool" where "isdigit c = char_in 48 57 c"
definition isalnum :: "char \<Rightarrow> bool" where "isalnum c = (isalpha c \<or> isdigit c)"
definition isxdigit :: "char \<Rightarrow> bool" where
  "isxdigit c = (isdigit c \<or> char_in 65 70 c \<or> char_in 97 102 c)"
definition iscntrl :: "char \<Rightarrow> bool" where "iscntrl c = (code c < 32 \<or> code c = 127)"
definition isspace :: "char \<Rightarrow> bool" where "isspace c = (char_in 9 13 c \<or> code c = 32)"
definition ispunct :: "char \<Rightarrow> bool" where "ispunct c = (char_in 33 126 c \<and> \<not> isalnum c)"

definition tolower :: "char \<Rightarrow> char" where
  "tolower c = (if isupper c then char_of (code c + 32) else c)"

definition toupper :: "char \<Rightarrow> char" where
  "toupper c = (if islower c then char_of (code c - 32) else c)"

subsection \<open>Reading C strings\<close>

definition char_at :: "string \<Rightarrow> nat \<Rightarrow> char" where
  "char_at xs i = (if i < length xs then xs ! i else NUL)"

definition rd :: "string \<Rightarrow> nat \<Rightarrow> char res" where
  "rd xs i = (if i \<le> length xs then Inr (char_at xs i) else Inl Undef)"

lemma rd_simps [simp]: "i \<le> length xs \<Longrightarrow> rd xs i = Inr (char_at xs i)"
  by (simp add: rd_def)

lemma rd_less: "rd xs i = Inr c \<Longrightarrow> c \<noteq> NUL \<Longrightarrow> i < length xs"
  by (auto simp: rd_def char_at_def split: if_splits)

subsection \<open>The match state\<close>

definition LUA_MAXCAPTURES :: nat where "LUA_MAXCAPTURES = 32"
definition CAP_UNFINISHED :: int where "CAP_UNFINISHED = -1"
definition CAP_POSITION :: int where "CAP_POSITION = -2"
definition L_ESC :: char where "L_ESC = CHR ''%''"

record MatchState =
  src :: string
  level :: nat
  capture :: "(nat \<times> int) list"

definition check_capture :: "MatchState \<Rightarrow> char \<Rightarrow> nat res" where
  "check_capture ms c =
     (let l = int (code c) - 49
      in if l < 0 \<or> int (level ms) \<le> l \<or> snd (capture ms ! nat l) = CAP_UNFINISHED
         then Inl (ErrRun ''invalid capture index'') else Inr (nat l))"

fun close_loop :: "MatchState \<Rightarrow> nat \<Rightarrow> nat res" where
  "close_loop ms 0 = Inl (ErrRun ''invalid pattern capture'')"
| "close_loop ms (Suc l) =
     (if snd (capture ms ! l) = CAP_UNFINISHED then Inr l else close_loop ms l)"

definition capture_to_close :: "MatchState \<Rightarrow> nat res" where
  "capture_to_close ms = close_loop ms (level ms)"

subsection \<open>Single character classes\<close>

text \<open>The loop of \<open>classend\<close> looking for the bracket that closes a set.\<close>

function set_end :: "string \<Rightarrow> nat \<Rightarrow> nat res" where
  "set_end pat p =
     (case rd pat p of
        Inl e \<Rightarrow> Inl e
      | Inr c \<Rightarrow>
          if c = NUL then Inl (ErrRun ''malformed pattern (missing ']')'')
          else if c = L_ESC
          then (case rd pat (p + 1) of
                  Inl e \<Rightarrow> Inl e
                | Inr d \<Rightarrow>
                    let p' = (if d \<noteq> NUL then p + 2 else p + 1)
                    in case rd pat p' of
                         Inl e \<Rightarrow> Inl e
                       | Inr f \<Rightarrow> if f \<noteq> CHR '']'' then set_end pat p' else Inr p')
          else (case rd pat (p + 1) of
                  Inl e \<Rightarrow> Inl e
                | Inr f \<Rightarrow> if f \<noteq> CHR '']'' then set_end pat (p + 1) else Inr (p + 1)))"
  by pat_completeness auto
termination
  by (relation "measure (\<lambda>(pat, p). length pat - p)") (auto dest: rd_less split: if_splits)

declare set_end.simps [simp del]

definition classend :: "string \<Rightarrow> nat \<Rightarrow> nat res" where
  "classend pat p =
     bindR (rd pat p) (\<lambda>c.
       if c = L_ESC
       then bindR (rd pat (p + 1)) (\<lambda>d.
              if d = NUL then Inl (ErrRun ''malformed pattern (ends with '%')'') else Inr (p + 2))
       else if c = CHR ''[''
       then bindR (rd pat (p + 1)) (\<lambda>d.
              bindR (set_end pat (if d = CHR ''^'' then p + 2 else p + 1)) (\<lambda>q. Inr (q + 1)))
       else Inr (p + 1))"

definition match_class :: "char \<Rightarrow> char \<Rightarrow> bool" where
  "match_class c cl =
     (let sgn = (\<lambda>res. if islower cl then res else \<not> res); k = tolower cl
      in if k = CHR ''a'' then sgn (isalpha c)
         else if k = CHR ''c'' then sgn (iscntrl c)
         else if k = CHR ''d'' then sgn (isdigit c)
         else if k = CHR ''l'' then sgn (islower c)
         else if k = CHR ''p'' then sgn (ispunct c)
         else if k = CHR ''s'' then sgn (isspace c)
         else if k = CHR ''u'' then sgn (isupper c)
         else if k = CHR ''w'' then sgn (isalnum c)
         else if k = CHR ''x'' then sgn (isxdigit c)
         else if k = CHR ''z'' then sgn (c = NUL)
         else cl = c)"

text \<open>The loop of \<open>matchbracketclass\<close>; \<open>p\<close> is the last character it has taken, \<open>sig\<close> what a match
  gives.\<close>

function bracket_loop :: "string \<Rightarrow> char \<Rightarrow> bool \<Rightarrow> nat \<Rightarrow> nat \<Rightarrow> bool res" where
  "bracket_loop pat c sig p ec =
     (let p1 = p + 1
      in if p1 < ec
         then bindR (rd pat p1) (\<lambda>x.
                if x = L_ESC
                then bindR (rd pat (p1 + 1)) (\<lambda>y.
                       if match_class c y then Inr sig else bracket_loop pat c sig (p1 + 1) ec)
                else bindR (rd pat (p1 + 1)) (\<lambda>y.
                  if y = CHR ''-'' \<and> p1 + 2 < ec
                  then bindR (rd pat (p1 + 2)) (\<lambda>z.
                         if code x \<le> code c \<and> code c \<le> code z then Inr sig
                         else bracket_loop pat c sig (p1 + 2) ec)
                  else if x = c then Inr sig else bracket_loop pat c sig p1 ec))
         else Inr (\<not> sig))"
  by pat_completeness auto
termination
  by (relation "measure (\<lambda>(pat, c, sig, p, ec). ec - p)") auto

declare bracket_loop.simps [simp del]

definition matchbracketclass :: "string \<Rightarrow> char \<Rightarrow> nat \<Rightarrow> nat \<Rightarrow> bool res" where
  "matchbracketclass pat c p ec =
     bindR (rd pat (p + 1)) (\<lambda>d.
       if d = CHR ''^'' then bracket_loop pat c False (p + 1) ec else bracket_loop pat c True p ec)"

definition singlematch :: "string \<Rightarrow> char \<Rightarrow> nat \<Rightarrow> nat \<Rightarrow> bool res" where
  "singlematch pat c p ep =
     bindR (rd pat p) (\<lambda>x.
       if x = CHR ''.'' then Inr True
       else if x = L_ESC then bindR (rd pat (p + 1)) (\<lambda>y. Inr (match_class c y))
       else if x = CHR ''['' then matchbracketclass pat c p (ep - 1)
       else Inr (x = c))"

text \<open>\<open>s < ms->src_end && singlematch(uchar( *s ), p, ep)\<close>.\<close>

definition single_here :: "string \<Rightarrow> string \<Rightarrow> nat \<Rightarrow> nat \<Rightarrow> nat \<Rightarrow> bool res" where
  "single_here pat sr s p ep =
     (if s < length sr then bindR (rd sr s) (\<lambda>c. singlematch pat c p ep) else Inr False)"

subsection \<open>Balanced strings\<close>

function balance_loop :: "string \<Rightarrow> char \<Rightarrow> char \<Rightarrow> nat \<Rightarrow> nat \<Rightarrow> nat option res" where
  "balance_loop sr b e cont s =
     (let s1 = s + 1
      in if s1 < length sr
         then bindR (rd sr s1) (\<lambda>c.
                if c = e then if cont - 1 = 0 then Inr (Some (s1 + 1)) else balance_loop sr b e (cont - 1) s1
                else if c = b then balance_loop sr b e (cont + 1) s1
                else balance_loop sr b e cont s1)
         else Inr None)"
  by pat_completeness auto
termination
  by (relation "measure (\<lambda>(sr, b, e, cont, s). length sr - s)") auto

declare balance_loop.simps [simp del]

definition matchbalance :: "string \<Rightarrow> string \<Rightarrow> nat \<Rightarrow> nat \<Rightarrow> nat option res" where
  "matchbalance pat sr s p =
     bindR (rd pat p) (\<lambda>b.
       if b = NUL then Inl (ErrRun ''unbalanced pattern'')
       else bindR (rd pat (p + 1)) (\<lambda>e.
         if e = NUL then Inl (ErrRun ''unbalanced pattern'')
         else bindR (rd sr s) (\<lambda>c. if c \<noteq> b then Inr None else balance_loop sr b e 1 s)))"

subsection \<open>Repetitions and captures\<close>

text \<open>
  The functions that call \<open>match\<close> back get it as their first argument, applied to the match state,
  the position in the subject and the position in the pattern.
\<close>

type_synonym matcher = "MatchState \<Rightarrow> nat \<Rightarrow> nat \<Rightarrow> (MatchState \<times> nat option) res"

function count_loop :: "string \<Rightarrow> string \<Rightarrow> nat \<Rightarrow> nat \<Rightarrow> nat \<Rightarrow> nat \<Rightarrow> nat res" where
  "count_loop pat sr s p ep i =
     (case single_here pat sr (s + i) p ep of
        Inl e \<Rightarrow> Inl e
      | Inr b \<Rightarrow> if b then count_loop pat sr s p ep (i + 1) else Inr i)"
  by pat_completeness auto
termination
  by (relation "measure (\<lambda>(pat, sr, s, p, ep, i). length sr - (s + i))")
    (auto simp: single_here_def split: if_splits)

declare count_loop.simps [simp del]

fun try_loop :: "matcher \<Rightarrow> MatchState \<Rightarrow> nat \<Rightarrow> nat \<Rightarrow> nat \<Rightarrow> (MatchState \<times> nat option) res" where
  "try_loop mat ms s ep i =
     bindR (mat ms (s + i) (ep + 1)) (\<lambda>(ms', r).
       case r of Some e \<Rightarrow> Inr (ms', Some e)
       | None \<Rightarrow> (case i of 0 \<Rightarrow> Inr (ms', None) | Suc j \<Rightarrow> try_loop mat ms' s ep j))"

declare try_loop.simps [simp del]

definition max_expand :: "matcher \<Rightarrow> string \<Rightarrow> MatchState \<Rightarrow> nat \<Rightarrow> nat \<Rightarrow> nat \<Rightarrow> (MatchState \<times> nat option) res" where
  "max_expand mat pat ms s p ep =
     bindR (count_loop pat (src ms) s p ep 0) (\<lambda>i. try_loop mat ms s ep i)"

function min_expand :: "matcher \<Rightarrow> string \<Rightarrow> string \<Rightarrow> MatchState \<Rightarrow> nat \<Rightarrow> nat \<Rightarrow> nat \<Rightarrow> (MatchState \<times> nat option) res" where
  "min_expand mat pat sr ms s p ep =
     (case mat ms s (ep + 1) of
        Inl e \<Rightarrow> Inl e
      | Inr (ms', Some e) \<Rightarrow> Inr (ms', Some e)
      | Inr (ms', None) \<Rightarrow>
          (case single_here pat sr s p ep of
             Inl e \<Rightarrow> Inl e
           | Inr b \<Rightarrow> if b then min_expand mat pat sr ms' (s + 1) p ep else Inr (ms', None)))"
  by pat_completeness auto
termination
  by (relation "measure (\<lambda>(mat, pat, sr, ms, s, p, ep). length sr - s)")
    (auto simp: single_here_def split: if_splits)

declare min_expand.simps [simp del]

definition start_capture :: "matcher \<Rightarrow> MatchState \<Rightarrow> nat \<Rightarrow> nat \<Rightarrow> int \<Rightarrow> (MatchState \<times> nat option) res" where
  "start_capture mat ms s p what =
     (if LUA_MAXCAPTURES \<le> level ms then Inl (ErrRun ''too many captures'')
      else bindR (mat (ms\<lparr>capture := (capture ms)[level ms := (s, what)], level := level ms + 1\<rparr>) s p)
             (\<lambda>(ms', r). Inr (if r = None then ms'\<lparr>level := level ms' - 1\<rparr> else ms', r)))"

definition end_capture :: "matcher \<Rightarrow> MatchState \<Rightarrow> nat \<Rightarrow> nat \<Rightarrow> (MatchState \<times> nat option) res" where
  "end_capture mat ms s p =
     bindR (capture_to_close ms) (\<lambda>l.
       let start = fst (capture ms ! l)
       in bindR (mat (ms\<lparr>capture := (capture ms)[l := (start, int s - int start)]\<rparr>) s p)
            (\<lambda>(ms', r). Inr (if r = None
                             then ms'\<lparr>capture := (capture ms')[l := (fst (capture ms' ! l), CAP_UNFINISHED)]\<rparr>
                             else ms', r)))"

text \<open>The length of a position capture, as a \<open>size_t\<close>, is larger than any subject.\<close>

definition match_capture :: "MatchState \<Rightarrow> nat \<Rightarrow> char \<Rightarrow> nat option res" where
  "match_capture ms s c =
     bindR (check_capture ms c) (\<lambda>l.
       let start = fst (capture ms ! l); len = unat (word_of_int (snd (capture ms ! l)) :: u32)
       in if len \<le> length (src ms) - s
          then if start + len \<le> length (src ms)
               then Inr (if take len (drop start (src ms)) = take len (drop s (src ms)) then Some (s + len) else None)
               else Inl Undef
          else Inr None)"

subsection \<open>The matcher\<close>

text \<open>The default case: a single character class with an optional suffix.\<close>

definition match_default :: "matcher \<Rightarrow> string \<Rightarrow> matcher" where
  "match_default mat pat ms s p =
     bindR (classend pat p) (\<lambda>ep.
     bindR (single_here pat (src ms) s p ep) (\<lambda>m.
     bindR (rd pat ep) (\<lambda>x.
       if x = CHR ''?''
       then if m
            then bindR (mat ms (s + 1) (ep + 1)) (\<lambda>(ms', r).
                   case r of Some e \<Rightarrow> Inr (ms', Some e) | None \<Rightarrow> mat ms' s (ep + 1))
            else mat ms s (ep + 1)
       else if x = CHR ''*'' then max_expand mat pat ms s p ep
       else if x = CHR ''+'' then (if m then max_expand mat pat ms (s + 1) p ep else Inr (ms, None))
       else if x = CHR ''-'' then min_expand mat pat (src ms) ms s p ep
       else if \<not> m then Inr (ms, None) else mat ms (s + 1) ep)))"

definition match_frontier :: "matcher \<Rightarrow> string \<Rightarrow> matcher" where
  "match_frontier mat pat ms s p =
     bindR (rd pat p) (\<lambda>x.
       if x \<noteq> CHR ''['' then Inl (ErrRun ''missing '[' after '%f' in pattern'')
       else bindR (classend pat p) (\<lambda>ep.
         bindR (if s = 0 then Inr NUL else rd (src ms) (s - 1)) (\<lambda>previous.
         bindR (matchbracketclass pat previous p (ep - 1)) (\<lambda>a.
           if a then Inr (ms, None)
           else bindR (rd (src ms) s) (\<lambda>c.
                bindR (matchbracketclass pat c p (ep - 1)) (\<lambda>b.
                  if \<not> b then Inr (ms, None) else mat ms s ep))))))"

definition match_step :: "matcher \<Rightarrow> string \<Rightarrow> matcher" where
  "match_step mat pat ms s p =
     bindR (rd pat p) (\<lambda>x.
       if x = CHR ''(''
       then bindR (rd pat (p + 1)) (\<lambda>y.
              if y = CHR '')'' then start_capture mat ms s (p + 2) CAP_POSITION
              else start_capture mat ms s (p + 1) CAP_UNFINISHED)
       else if x = CHR '')'' then end_capture mat ms s (p + 1)
       else if x = L_ESC
       then bindR (rd pat (p + 1)) (\<lambda>y.
              if y = CHR ''b''
              then bindR (matchbalance pat (src ms) s (p + 2)) (\<lambda>r.
                     case r of None \<Rightarrow> Inr (ms, None) | Some s' \<Rightarrow> mat ms s' (p + 4))
              else if y = CHR ''f'' then match_frontier mat pat ms s (p + 2)
              else if isdigit y
              then bindR (match_capture ms s y) (\<lambda>r.
                     case r of None \<Rightarrow> Inr (ms, None) | Some s' \<Rightarrow> mat ms s' (p + 2))
              else match_default mat pat ms s p)
       else if x = NUL then Inr (ms, Some s)
       else if x = CHR ''$''
       then bindR (rd pat (p + 1)) (\<lambda>y.
              if y = NUL then Inr (ms, if s = length (src ms) then Some s else None)
              else match_default mat pat ms s p)
       else match_default mat pat ms s p)"

text \<open>Every call and every \<open>goto init\<close> moves on in the pattern, so its length bounds the depth.\<close>

fun match_depth :: "nat \<Rightarrow> string \<Rightarrow> matcher" where
  "match_depth 0 pat ms s p = Inl Diverges"
| "match_depth (Suc n) pat ms s p = match_step (match_depth n pat) pat ms s p"

declare match_depth.simps [simp del]

definition match :: "string \<Rightarrow> matcher" where
  "match pat = match_depth (length pat + 1) pat"

subsection \<open>Plain search\<close>

text \<open>\<open>memchr\<close> among the first \<open>n\<close> characters.\<close>

fun memchr :: "string \<Rightarrow> char \<Rightarrow> nat \<Rightarrow> nat option" where
  "memchr [] c n = None"
| "memchr (x # xs) c 0 = None"
| "memchr (x # xs) c (Suc n) = (if x = c then Some 0 else map_option Suc (memchr xs c n))"

lemma memchr_less: "memchr xs c n = Some i \<Longrightarrow> i < n \<and> i < length xs"
  by (induction xs c n arbitrary: i rule: memchr.induct) (auto split: if_splits)

text \<open>The loop of \<open>lmemfind\<close>: \<open>s1\<close> is the rest of the subject, \<open>l1\<close> the places still to try, \<open>at\<close> how
  far it has moved.\<close>

function find_loop_mem :: "string \<Rightarrow> nat \<Rightarrow> char \<Rightarrow> string \<Rightarrow> nat \<Rightarrow> nat option" where
  "find_loop_mem s1 l1 c rest moved =
     (if 0 < l1
      then case memchr s1 c l1 of
             None \<Rightarrow> None
           | Some i \<Rightarrow>
               if take (length rest) (drop (i + 1) s1) = rest then Some (moved + i)
               else find_loop_mem (drop (i + 1) s1) (l1 - (i + 1)) c rest (moved + i + 1)
      else None)"
  by pat_completeness auto
termination
  by (relation "measure (\<lambda>(s1, l1, c, rest, moved). l1)") auto

declare find_loop_mem.simps [simp del]

definition lmemfind :: "string \<Rightarrow> string \<Rightarrow> nat option" where
  "lmemfind s1 s2 =
     (case s2 of
        [] \<Rightarrow> Some 0
      | c # rest \<Rightarrow> if length s1 < length s2 then None
                    else find_loop_mem s1 (length s1 - length rest) c rest 0)"

end
