(* ===== verification/PatternLaws.thy ===== *)
theory PatternLaws
  imports Patterns
begin

text \<open>
  What the matcher of \<open>lstrlib.c\<close> guarantees: no read outside the subject or the pattern and captures
  inside the subject, an end on every input, and agreement with a declarative meaning of patterns.
\<close>

subsection \<open>Reads stay inside\<close>

definition pattern_errors :: "lua_error set" where
  "pattern_errors = ErrRun ` {''invalid capture index'', ''invalid pattern capture'',
     ''malformed pattern (missing ']')'', ''malformed pattern (ends with '%')'', ''unbalanced pattern'',
     ''too many captures'', ''missing '[' after '%f' in pattern''}"

text \<open>An operation that ends with one of these errors or with a value that satisfies \<open>P\<close>.\<close>

definition yields :: "'a res \<Rightarrow> ('a \<Rightarrow> bool) \<Rightarrow> bool" where
  "yields m P = (case m of Inl e \<Rightarrow> e \<in> pattern_errors | Inr x \<Rightarrow> P x)"

lemma yields_Inr [simp]: "yields (Inr x) P = P x"
  by (simp add: yields_def)

lemma yields_err [simp]:
  "yields (Inl (ErrRun ''invalid capture index'')) P" "yields (Inl (ErrRun ''invalid pattern capture'')) P"
  "yields (Inl (ErrRun ''malformed pattern (missing ']')'')) P"
  "yields (Inl (ErrRun ''malformed pattern (ends with '%')'')) P" "yields (Inl (ErrRun ''unbalanced pattern'')) P"
  "yields (Inl (ErrRun ''too many captures'')) P" "yields (Inl (ErrRun ''missing '[' after '%f' in pattern'')) P"
  by (simp_all add: yields_def pattern_errors_def)

lemma yields_bind: "yields m Q \<Longrightarrow> (\<And>x. m = Inr x \<Longrightarrow> Q x \<Longrightarrow> yields (f x) P) \<Longrightarrow> yields (bindR m f) P"
  by (cases m) (simp_all add: yields_def)

lemma yields_mono: "yields m Q \<Longrightarrow> (\<And>x. m = Inr x \<Longrightarrow> Q x \<Longrightarrow> P x) \<Longrightarrow> yields m P"
  by (cases m) (simp_all add: yields_def)

lemma char_at_less: "char_at xs i \<noteq> NUL \<Longrightarrow> i < length xs"
  by (auto simp: char_at_def split: if_splits)

lemma char_consts [simp]: "L_ESC \<noteq> NUL" "CHR ''['' \<noteq> NUL" "CHR '']'' \<noteq> NUL" "CHR ''('' \<noteq> NUL" "CHR '')'' \<noteq> NUL"
  "CHR ''^'' \<noteq> NUL" "CHR ''-'' \<noteq> NUL" "CHR ''$'' \<noteq> NUL" "CHR ''?'' \<noteq> NUL" "CHR ''*'' \<noteq> NUL" "CHR ''+'' \<noteq> NUL"
  "CHR ''b'' \<noteq> NUL" "CHR ''f'' \<noteq> NUL" "\<not> isdigit NUL"
  by (simp_all add: L_ESC_def NUL_def isdigit_def char_in_def)

lemmas char_consts' [simp] = char_consts(1-13)[THEN not_sym]

lemma esc_distinct [simp]: "L_ESC \<noteq> CHR ''(''" "L_ESC \<noteq> CHR '')''" "L_ESC \<noteq> CHR ''$''" "L_ESC \<noteq> CHR ''.''" "L_ESC \<noteq> CHR ''[''"
  by (simp_all add: L_ESC_def)

lemmas esc_distinct' [simp] = esc_distinct[THEN not_sym]

lemma set_end_yields: "p \<le> length pat \<Longrightarrow> yields (set_end pat p) (\<lambda>q. p < q \<and> q < length pat)"
proof (induction pat p rule: set_end.induct)
  case (1 pat p)
  show ?case
  proof (cases "char_at pat p = NUL")
    case True
    then show ?thesis using 1(3) by (simp add: set_end.simps[of pat p])
  next
    case False
    then have p: "p < length pat" by (rule char_at_less)
    have stop: "char_at pat q = CHR '']'' \<Longrightarrow> q < length pat" for q by (rule char_at_less) simp
    show ?thesis
    proof (cases "char_at pat p = L_ESC")
      case esc: True
      let ?q = "if char_at pat (p + 1) \<noteq> NUL then p + 2 else p + 1"
      have q: "p < ?q" "?q \<le> length pat" using p char_at_less[of pat "p + 1"] by auto
      show ?thesis
      proof (cases "char_at pat ?q = CHR '']''")
        case True
        then show ?thesis using esc p q stop[of ?q] by (simp add: set_end.simps[of pat p] Let_def)
      next
        case no: False
        have "yields (set_end pat ?q) (\<lambda>r. ?q < r \<and> r < length pat)"
          by (rule "1.IH"(1)[of L_ESC "char_at pat (p + 1)" ?q "char_at pat ?q"]) (use esc p q no in auto)
        then have "yields (set_end pat ?q) (\<lambda>r. p < r \<and> r < length pat)"
          by (rule yields_mono) (use q in auto)
        moreover have "set_end pat p = set_end pat ?q" using esc p q no by (subst set_end.simps) (simp add: Let_def)
        ultimately show ?thesis by (simp only:)
      qed
    next
      case other: False
      show ?thesis
      proof (cases "char_at pat (p + 1) = CHR '']''")
        case True
        then show ?thesis using other False p stop[of "p + 1"] by (simp add: set_end.simps[of pat p])
      next
        case no: False
        have "yields (set_end pat (p + 1)) (\<lambda>r. p + 1 < r \<and> r < length pat)"
          by (rule "1.IH"(2)[of "char_at pat p" "char_at pat (p + 1)"]) (use other False p no in auto)
        then have "yields (set_end pat (p + 1)) (\<lambda>r. p < r \<and> r < length pat)"
          by (rule yields_mono) auto
        then show ?thesis using other False p no by (simp add: set_end.simps[of pat p])
      qed
    qed
  qed
qed

lemma classend_yields:
  assumes "char_at pat p \<noteq> NUL" shows "yields (classend pat p) (\<lambda>ep. p < ep \<and> ep \<le> length pat)"
proof -
  have p: "p < length pat" by (rule char_at_less[OF assms])
  show ?thesis
  proof (cases "char_at pat p = CHR ''[''")
    case True
    let ?q = "if char_at pat (p + 1) = CHR ''^'' then p + 2 else p + 1"
    have "p < ?q" "?q \<le> length pat" using p char_at_less[of pat "p + 1"] by auto
    then have "yields (set_end pat ?q) (\<lambda>q. p < q \<and> q < length pat)"
      by (intro yields_mono[OF set_end_yields]) auto
    then have "yields (bindR (set_end pat ?q) (\<lambda>q. Inr (q + 1))) (\<lambda>ep. p < ep \<and> ep \<le> length pat)"
      by (rule yields_bind) simp
    then show ?thesis using p True by (simp add: classend_def L_ESC_def)
  next
    case False
    then show ?thesis using p char_at_less[of pat "p + 1"] by (auto simp: classend_def)
  qed
qed

lemma bracket_total: "ec \<le> length pat \<Longrightarrow> \<exists>b. bracket_loop pat c sig p ec = Inr b"
proof (induction pat c sig p ec rule: bracket_loop.induct)
  case (1 pat c sig p ec)
  show ?case
  proof (cases "p + 1 < ec")
    case True
    then have r: "p + 1 \<le> length pat" "p + 2 \<le> length pat" "p + 3 < ec \<Longrightarrow> p + 3 \<le> length pat" using "1.prems" by auto
    have "\<exists>b. bracket_loop pat c sig (p + 2) ec = Inr b" if "char_at pat (p + 1) = L_ESC" "\<not> match_class c (char_at pat (p + 2))"
      using "1.IH"(1)[OF refl True, of L_ESC "char_at pat (p + 2)"] that "1.prems" r by (simp add: add.assoc)
    moreover have "\<exists>b. bracket_loop pat c sig (p + 3) ec = Inr b"
      if "char_at pat (p + 1) \<noteq> L_ESC" "char_at pat (p + 2) = CHR ''-''" "p + 3 < ec"
        "\<not> (code (char_at pat (p + 1)) \<le> code c \<and> code c \<le> code (char_at pat (p + 3)))"
      using "1.IH"(2)[OF refl True, of "char_at pat (p + 1)" "CHR ''-''" "char_at pat (p + 3)"] that "1.prems" r
      by (simp add: add.assoc numeral_3_eq_3)
    moreover have "\<exists>b. bracket_loop pat c sig (p + 1) ec = Inr b"
      if "char_at pat (p + 1) \<noteq> L_ESC" "\<not> (char_at pat (p + 2) = CHR ''-'' \<and> p + 3 < ec)" "char_at pat (p + 1) \<noteq> c"
      using "1.IH"(3)[OF refl True, of "char_at pat (p + 1)" "char_at pat (p + 2)"] that "1.prems" r
      by (simp add: add.assoc numeral_3_eq_3)
    ultimately show ?thesis
      using True r by (subst bracket_loop.simps) (auto simp: Let_def numeral_eq_Suc)
  qed (simp add: bracket_loop.simps[of pat c sig p])
qed

lemma matchbracketclass_total:
  "p < length pat \<Longrightarrow> ec \<le> length pat \<Longrightarrow> \<exists>b. matchbracketclass pat c p ec = Inr b"
  using bracket_total by (simp add: matchbracketclass_def)

lemma singlematch_total:
  "p < length pat \<Longrightarrow> ep \<le> length pat \<Longrightarrow> \<exists>b. singlematch pat c p ep = Inr b"
  using matchbracketclass_total[of p pat "ep - 1"] by (auto simp: singlematch_def L_ESC_def)

lemma single_here_total:
  assumes "p < length pat" "ep \<le> length pat"
  shows "\<exists>b. single_here pat sr s p ep = Inr b \<and> (b \<longrightarrow> s < length sr)"
  using singlematch_total[OF assms] by (cases "s < length sr") (auto simp: single_here_def)

lemma count_loop_total:
  assumes p: "p < length pat" "ep \<le> length pat"
  shows "s + i \<le> length sr \<Longrightarrow> \<exists>n. count_loop pat sr s p ep i = Inr n \<and> i \<le> n \<and> s + n \<le> length sr"
proof (induction "length sr - (s + i)" arbitrary: i rule: less_induct)
  case less
  obtain b where b: "single_here pat sr (s + i) p ep = Inr b" "b \<longrightarrow> s + i < length sr"
    using single_here_total[OF p] by blast
  show ?case
  proof (cases b)
    case True
    then have "\<exists>n. count_loop pat sr s p ep (i + 1) = Inr n \<and> i + 1 \<le> n \<and> s + n \<le> length sr"
      using b by (intro less.hyps) auto
    then show ?thesis using b True by (auto simp: count_loop.simps[of pat sr s p ep i])
  qed (use b less.prems in \<open>simp add: count_loop.simps[of pat sr s p ep i]\<close>)
qed

lemma balance_total:
  "s \<le> length sr \<Longrightarrow> \<exists>r. balance_loop sr b e n s = Inr r \<and> (\<forall>s'. r = Some s' \<longrightarrow> s < s' \<and> s' \<le> length sr)"
proof (induction "length sr - s" arbitrary: s n rule: less_induct)
  case less
  show ?case
  proof (cases "s + 1 < length sr")
    case True
    have "\<exists>r. balance_loop sr b e m (s + 1) = Inr r \<and> (\<forall>s'. r = Some s' \<longrightarrow> s < s' \<and> s' \<le> length sr)" for m
      using less.hyps[of "s + 1" m] True by fastforce
    then show ?thesis using True by (auto simp: balance_loop.simps[of sr b e n s] Let_def)
  qed (simp add: balance_loop.simps[of sr b e n s])
qed

lemma matchbalance_yields:
  assumes "s \<le> length sr" "p \<le> length pat"
  shows "yields (matchbalance pat sr s p) (\<lambda>r. p + 1 < length pat \<and> (\<forall>s'. r = Some s' \<longrightarrow> s < s' \<and> s' \<le> length sr))"
proof (cases "char_at pat p = NUL \<or> char_at pat (p + 1) = NUL")
  case True
  then show ?thesis using assms(2) char_at_less[of pat p] by (auto simp: matchbalance_def)
next
  case False
  then have p: "p < length pat" "p + 1 < length pat" using char_at_less by blast+
  obtain r where "balance_loop sr (char_at pat p) (char_at pat (p + 1)) 1 s = Inr r"
    "\<forall>s'. r = Some s' \<longrightarrow> s < s' \<and> s' \<le> length sr" using balance_total[OF assms(1)] by blast
  then show ?thesis using False p assms by (simp add: matchbalance_def)
qed

subsection \<open>Match states\<close>

definition cap_ok :: "nat \<Rightarrow> nat \<times> int \<Rightarrow> bool" where
  "cap_ok s c = (fst c \<le> s \<and> (snd c = CAP_UNFINISHED \<or> snd c = CAP_POSITION \<or> 0 \<le> snd c \<and> fst c + nat (snd c) \<le> s))"

definition ms_ok :: "MatchState \<Rightarrow> nat \<Rightarrow> bool" where
  "ms_ok ms s = (level ms \<le> LUA_MAXCAPTURES \<and> length (capture ms) = LUA_MAXCAPTURES \<and> s \<le> length (src ms)
     \<and> length (src ms) < 2 ^ 31 \<and> (\<forall>i<level ms. cap_ok s (capture ms ! i)))"

definition same_caps :: "MatchState \<Rightarrow> MatchState \<Rightarrow> bool" where
  "same_caps ms ms' = (src ms' = src ms \<and> level ms' = level ms \<and> length (capture ms') = length (capture ms)
     \<and> (\<forall>i<level ms. capture ms' ! i = capture ms ! i))"

definition good :: "MatchState \<Rightarrow> nat \<Rightarrow> MatchState \<times> nat option \<Rightarrow> bool" where
  "good ms s r = (case r of (ms', None) \<Rightarrow> same_caps ms ms'
     | (ms', Some e) \<Rightarrow> src ms' = src ms \<and> s \<le> e \<and> ms_ok ms' e \<and> level ms \<le> level ms')"

lemma good_simps [simp]:
  "good ms s (ms', None) = same_caps ms ms'"
  "good ms s (ms', Some e) = (src ms' = src ms \<and> s \<le> e \<and> ms_ok ms' e \<and> level ms \<le> level ms')"
  by (simp_all add: good_def)

lemma same_caps_refl [simp]: "same_caps ms ms"
  by (simp add: same_caps_def)

lemma same_caps_trans: "same_caps a b \<Longrightarrow> same_caps b c \<Longrightarrow> same_caps a c"
  by (simp add: same_caps_def)

lemma same_caps_ok: "same_caps a b \<Longrightarrow> ms_ok a s \<Longrightarrow> ms_ok b s"
  by (simp add: same_caps_def ms_ok_def)

lemma ms_ok_mono: "ms_ok ms s \<Longrightarrow> s \<le> s' \<Longrightarrow> s' \<le> length (src ms) \<Longrightarrow> ms_ok ms s'"
  by (fastforce simp: ms_ok_def cap_ok_def)

lemma good_later: "good ms s' r \<Longrightarrow> s \<le> s' \<Longrightarrow> good ms s r"
  by (auto simp: good_def split: prod.splits option.splits)

lemma yields_later: "yields m (good ms s') \<Longrightarrow> s \<le> s' \<Longrightarrow> yields m (good ms s)"
  using good_later by (auto elim!: yields_mono)

lemma good_after: "same_caps ms ms1 \<Longrightarrow> good ms1 s r \<Longrightarrow> good ms s r"
  by (auto simp: good_def same_caps_def split: prod.splits option.splits)

definition sound_at :: "matcher \<Rightarrow> nat \<Rightarrow> bool" where
  "sound_at mat p = (\<forall>ms s. ms_ok ms s \<longrightarrow> yields (mat ms s p) (good ms s))"

lemma sound_atD: "sound_at mat p \<Longrightarrow> ms_ok ms s \<Longrightarrow> yields (mat ms s p) (good ms s)"
  by (simp add: sound_at_def)

lemma try_loop_yields:
  assumes m: "sound_at mat (ep + 1)"
  shows "ms_ok ms s \<Longrightarrow> s + i \<le> length (src ms) \<Longrightarrow> yields (try_loop mat ms s ep i) (good ms s)"
proof (induction i arbitrary: ms)
  case 0
  have "yields (mat ms s (ep + 1)) (good ms s)" by (rule sound_atD[OF m 0(1)])
  then show ?case
    by (subst try_loop.simps) (auto elim!: yields_bind split: option.splits)
next
  case (Suc i)
  have "ms_ok ms (s + Suc i)" using Suc.prems by (intro ms_ok_mono[OF Suc.prems(1)]) auto
  then have "yields (mat ms (s + Suc i) (ep + 1)) (good ms (s + Suc i))" by (rule sound_atD[OF m])
  then show ?case
  proof (subst try_loop.simps, elim yields_bind)
    fix r assume r: "good ms (s + Suc i) r"
    obtain ms1 q where q: "r = (ms1, q)" by (cases r)
    show "yields (case r of (ms', r) \<Rightarrow> case r of Some e \<Rightarrow> Inr (ms', Some e)
        | None \<Rightarrow> (case Suc i of 0 \<Rightarrow> Inr (ms', None) | Suc j \<Rightarrow> try_loop mat ms' s ep j)) (good ms s)"
    proof (cases q)
      case None
      then have sc: "same_caps ms ms1" using r q by simp
      have "yields (try_loop mat ms1 s ep i) (good ms1 s)"
        using Suc.IH[of ms1] same_caps_ok[OF sc Suc.prems(1)] Suc.prems(2) sc by (simp add: same_caps_def)
      then show ?thesis using q None good_after[OF sc] by (auto elim!: yields_mono)
    qed (use r q in auto)
  qed
qed

lemma max_expand_yields:
  assumes "sound_at mat (ep + 1)" "p < length pat" "ep \<le> length pat" "ms_ok ms s"
  shows "yields (max_expand mat pat ms s p ep) (good ms s)"
proof -
  have "s + 0 \<le> length (src ms)" using assms(4) by (simp add: ms_ok_def)
  from count_loop_total[OF assms(2,3) this] obtain n
    where "count_loop pat (src ms) s p ep 0 = Inr n" "s + n \<le> length (src ms)" by blast
  then show ?thesis using try_loop_yields[OF assms(1,4)] by (simp add: max_expand_def)
qed

lemma min_expand_yields:
  assumes m: "sound_at mat (ep + 1)" "p < length pat" "ep \<le> length pat"
  shows "ms_ok ms s \<Longrightarrow> yields (min_expand mat pat (src ms) ms s p ep) (good ms s)"
proof (induction "length (src ms) - s" arbitrary: ms s rule: less_induct)
  case less
  have y: "yields (mat ms s (ep + 1)) (good ms s)" by (rule sound_atD[OF m(1) less.prems])
  show ?case
  proof (cases "mat ms s (ep + 1)")
    case (Inl e)
    then show ?thesis using y by (simp add: min_expand.simps[of mat pat _ ms s] yields_def)
  next
    case (Inr r)
    obtain ms1 q where q: "r = (ms1, q)" by (cases r)
    show ?thesis
    proof (cases q)
      case (Some e)
      then show ?thesis using y Inr q by (simp add: min_expand.simps[of mat pat _ ms s])
    next
      case None
      then have sc: "same_caps ms ms1" using y Inr q by simp
      have s1: "src ms1 = src ms" using sc by (simp add: same_caps_def)
      obtain b where b: "single_here pat (src ms) s p ep = Inr b" "b \<longrightarrow> s < length (src ms)"
        using single_here_total[OF m(2,3)] by blast
      show ?thesis
      proof (cases b)
        case True
        have "ms_ok ms1 (s + 1)" using ms_ok_mono[OF same_caps_ok[OF sc less.prems], of "s + 1"] b True s1 by simp
        then have "yields (min_expand mat pat (src ms1) ms1 (s + 1) p ep) (good ms1 (s + 1))"
          using b True s1 by (intro less.hyps) auto
        then have "yields (min_expand mat pat (src ms) ms1 (s + 1) p ep) (good ms s)"
          unfolding s1 by (rule yields_mono) (use good_after[OF sc] good_later in fastforce)
        then show ?thesis using Inr q None b True by (simp add: min_expand.simps[of mat pat _ ms s])
      qed (use Inr q None b sc in \<open>simp add: min_expand.simps[of mat pat _ ms s]\<close>)
    qed
  qed
qed

subsection \<open>Captures\<close>

lemma start_capture_yields:
  assumes m: "sound_at mat p" and w: "what = CAP_UNFINISHED \<or> what = CAP_POSITION" and ms: "ms_ok ms s"
  shows "yields (start_capture mat ms s p what) (good ms s)"
proof (cases "level ms < LUA_MAXCAPTURES")
  case True
  let ?ms = "ms\<lparr>capture := (capture ms)[level ms := (s, what)], level := level ms + 1\<rparr>"
  have ok: "ms_ok ?ms s" using ms True w by (auto simp: ms_ok_def nth_list_update less_Suc_eq cap_ok_def)
  have "yields (mat ?ms s p) (good ?ms s)" by (rule sound_atD[OF m ok])
  then have "yields (bindR (mat ?ms s p) (\<lambda>(ms', r). Inr (if r = None then ms'\<lparr>level := level ms' - 1\<rparr> else ms', r))) (good ms s)"
    by (rule yields_bind) (auto simp: good_def same_caps_def split: option.splits)
  then show ?thesis using True by (simp add: start_capture_def)
qed (simp add: start_capture_def)

lemma close_loop_yields: "yields (close_loop ms n) (\<lambda>l. l < n \<and> snd (capture ms ! l) = CAP_UNFINISHED)"
  by (induction n) (auto elim: yields_mono)

lemma end_capture_yields:
  assumes m: "sound_at mat p" and ms: "ms_ok ms s"
  shows "yields (end_capture mat ms s p) (good ms s)"
  unfolding end_capture_def
proof (rule yields_bind)
  show "yields (capture_to_close ms) (\<lambda>l. l < level ms \<and> snd (capture ms ! l) = CAP_UNFINISHED)"
    unfolding capture_to_close_def by (rule close_loop_yields)
next
  fix l assume l: "l < level ms \<and> snd (capture ms ! l) = CAP_UNFINISHED"
  let ?st = "fst (capture ms ! l)"
  let ?ms = "ms\<lparr>capture := (capture ms)[l := (?st, int s - int ?st)]\<rparr>"
  have st: "?st \<le> s" using l ms by (simp add: ms_ok_def cap_ok_def)
  have ok: "ms_ok ?ms s" using ms l st by (auto simp: ms_ok_def nth_list_update cap_ok_def nat_diff_distrib)
  have "yields (mat ?ms s p) (good ?ms s)" by (rule sound_atD[OF m ok])
  then have "yields (bindR (mat ?ms s p) (\<lambda>(ms', r). Inr (if r = None
      then ms'\<lparr>capture := (capture ms')[l := (fst (capture ms' ! l), CAP_UNFINISHED)]\<rparr> else ms', r))) (good ms s)"
  proof (rule yields_bind)
    fix r :: "MatchState \<times> nat option" assume g: "good ?ms s r"
    obtain ms1 q where r: "r = (ms1, q)" by (cases r)
    show "yields (case r of (ms', r) \<Rightarrow> Inr (if r = None
      then ms'\<lparr>capture := (capture ms')[l := (fst (capture ms' ! l), CAP_UNFINISHED)]\<rparr> else ms', r)) (good ms s)"
      using g l ms unfolding r by (cases q) (auto simp: same_caps_def nth_list_update ms_ok_def prod_eq_iff)
  qed
  then show "yields (let start = ?st in bindR (mat (ms\<lparr>capture := (capture ms)[l := (start, int s - int start)]\<rparr>) s p)
            (\<lambda>(ms', r). Inr (if r = None
                             then ms'\<lparr>capture := (capture ms')[l := (fst (capture ms' ! l), CAP_UNFINISHED)]\<rparr>
                             else ms', r))) (good ms s)" by (simp add: Let_def)
qed

lemma check_capture_yields:
  "yields (check_capture ms c) (\<lambda>l. l < level ms \<and> snd (capture ms ! l) \<noteq> CAP_UNFINISHED)"
  by (auto simp: check_capture_def Let_def)

lemma match_capture_yields:
  assumes ms: "ms_ok ms s"
  shows "yields (match_capture ms s c) (\<lambda>r. \<forall>s'. r = Some s' \<longrightarrow> s \<le> s' \<and> s' \<le> length (src ms))"
  unfolding match_capture_def
proof (rule yields_bind[OF check_capture_yields])
  fix l assume l: "l < level ms \<and> snd (capture ms ! l) \<noteq> CAP_UNFINISHED"
  then have c: "cap_ok s (capture ms ! l)" using ms by (simp add: ms_ok_def)
  let ?len = "unat (word_of_int (snd (capture ms ! l)) :: u32)"
  have s: "s \<le> length (src ms)" "length (src ms) < 2 ^ 31" using ms by (simp_all add: ms_ok_def)
  have "?len = nat (snd (capture ms ! l)) \<or> length (src ms) < ?len"
  proof (cases "snd (capture ms ! l) = CAP_POSITION")
    case False
    then have "0 \<le> snd (capture ms ! l)" "snd (capture ms ! l) < 2 ^ 31" using c l s by (auto simp: cap_ok_def)
    then have "uint (word_of_int (snd (capture ms ! l)) :: u32) = snd (capture ms ! l)"
      by (simp add: uint_word_of_int)
    then show ?thesis by (metis unat_eq_nat_uint)
  next
    case True
    have "unat (word_of_int (-2) :: u32) = 2 ^ 32 - 2" by (simp add: unat_eq_nat_uint uint_word_of_int)
    then show ?thesis using s True by (simp add: CAP_POSITION_def)
  qed
  then show "yields (let start = fst (capture ms ! l); len = ?len
       in if len \<le> length (src ms) - s
          then if start + len \<le> length (src ms)
               then Inr (if take len (drop start (src ms)) = take len (drop s (src ms)) then Some (s + len) else None)
               else Inl Undef
          else Inr None) (\<lambda>r. \<forall>s'. r = Some s' \<longrightarrow> s \<le> s' \<and> s' \<le> length (src ms))"
    using c s l by (auto simp: Let_def cap_ok_def CAP_POSITION_def CAP_UNFINISHED_def)
qed

subsection \<open>The matcher\<close>

lemma match_default_yields:
  assumes m: "\<And>q. p < q \<Longrightarrow> q \<le> length pat \<Longrightarrow> sound_at mat q" and p: "char_at pat p \<noteq> NUL" and ms: "ms_ok ms s"
  shows "yields (match_default mat pat ms s p) (good ms s)"
  unfolding match_default_def
proof (rule yields_bind[OF classend_yields[OF p]])
  fix ep assume ep: "p < ep \<and> ep \<le> length pat"
  have pl: "p < length pat" by (rule char_at_less[OF p])
  obtain b where b: "single_here pat (src ms) s p ep = Inr b" "b \<longrightarrow> s < length (src ms)"
    using single_here_total[OF pl] ep by blast
  have nx: "sound_at mat (ep + 1)" if "char_at pat ep \<noteq> NUL"
    using char_at_less[OF that] ep by (intro m) auto
  have ms1: "ms_ok ms (s + 1)" if b by (rule ms_ok_mono[OF ms]) (use b that in auto)
  have item: "yields (mat ms (s + 1) q) (good ms s)" if "p < q" "q \<le> length pat" b for q
    by (rule yields_later[OF sound_atD[OF m[OF that(1,2)] ms1[OF that(3)]]]) simp
  have opt: "yields (bindR (mat ms (s + 1) (ep + 1)) (\<lambda>(ms', r). case r of Some e \<Rightarrow> Inr (ms', Some e) | None \<Rightarrow> mat ms' s (ep + 1)))
      (good ms s)" if x: "char_at pat ep \<noteq> NUL" and b
  proof (rule yields_bind[OF item])
    fix r assume r: "good ms s r"
    obtain ms' q where q: "r = (ms', q)" by (cases r)
    show "yields (case r of (ms', r) \<Rightarrow> case r of Some e \<Rightarrow> Inr (ms', Some e) | None \<Rightarrow> mat ms' s (ep + 1)) (good ms s)"
    proof (cases q)
      case None
      then have sc: "same_caps ms ms'" using r q by simp
      show ?thesis using sound_atD[OF nx[OF x] same_caps_ok[OF sc ms]] good_after[OF sc] q None
        by (auto elim!: yields_mono)
    qed (use r q in simp)
  qed (use that ep char_at_less[OF x] in auto)
  have plus: "yields (max_expand mat pat ms (s + 1) p ep) (good ms s)" if "char_at pat ep \<noteq> NUL" b
    using max_expand_yields[OF nx[OF that(1)] pl _ ms1[OF that(2)]] ep yields_later[of _ ms "s + 1" s] by simp
  show "yields (bindR (single_here pat (src ms) s p ep) (\<lambda>m. bindR (rd pat ep) (\<lambda>x.
       if x = CHR ''?''
       then if m
            then bindR (mat ms (s + 1) (ep + 1)) (\<lambda>(ms', r).
                   case r of Some e \<Rightarrow> Inr (ms', Some e) | None \<Rightarrow> mat ms' s (ep + 1))
            else mat ms s (ep + 1)
       else if x = CHR ''*'' then max_expand mat pat ms s p ep
       else if x = CHR ''+'' then (if m then max_expand mat pat ms (s + 1) p ep else Inr (ms, None))
       else if x = CHR ''-'' then min_expand mat pat (src ms) ms s p ep
       else if \<not> m then Inr (ms, None) else mat ms (s + 1) ep))) (good ms s)"
    using ep b nx opt plus item[of ep] sound_atD[OF nx ms] max_expand_yields[OF nx pl _ ms]
      min_expand_yields[OF nx pl _ ms] by auto
qed

lemma frontier_yields:
  assumes m: "\<And>q. p < q \<Longrightarrow> q \<le> length pat \<Longrightarrow> sound_at mat q" and p: "p \<le> length pat" and ms: "ms_ok ms s"
  shows "yields (match_frontier mat pat ms s p) (good ms s)"
proof (cases "char_at pat p = CHR ''[''")
  case True
  then have pl: "p < length pat" by (intro char_at_less) simp
  have s: "s \<le> length (src ms)" "s - 1 \<le> length (src ms)" using ms by (auto simp: ms_ok_def)
  have "yields (bindR (classend pat p) (\<lambda>ep.
         bindR (if s = 0 then Inr NUL else rd (src ms) (s - 1)) (\<lambda>previous.
         bindR (matchbracketclass pat previous p (ep - 1)) (\<lambda>a.
           if a then Inr (ms, None)
           else bindR (rd (src ms) s) (\<lambda>c.
                bindR (matchbracketclass pat c p (ep - 1)) (\<lambda>b.
                  if \<not> b then Inr (ms, None) else mat ms s ep)))))) (good ms s)"
  proof (rule yields_bind[OF classend_yields])
    fix ep assume ep: "p < ep \<and> ep \<le> length pat"
    define pr where "pr = (if s = 0 then NUL else char_at (src ms) (s - 1))"
    have e: "(if s = 0 then Inr NUL else rd (src ms) (s - 1)) = Inr pr" using s by (simp add: pr_def)
    have el: "ep - 1 \<le> length pat" using ep by linarith
    obtain a where "matchbracketclass pat pr p (ep - 1) = Inr a" using matchbracketclass_total[OF pl el] by blast
    moreover obtain b where "matchbracketclass pat (char_at (src ms) s) p (ep - 1) = Inr b"
      using matchbracketclass_total[OF pl el] by blast
    ultimately show "yields (bindR (if s = 0 then Inr NUL else rd (src ms) (s - 1)) (\<lambda>previous.
         bindR (matchbracketclass pat previous p (ep - 1)) (\<lambda>a.
           if a then Inr (ms, None)
           else bindR (rd (src ms) s) (\<lambda>c.
                bindR (matchbracketclass pat c p (ep - 1)) (\<lambda>b.
                  if \<not> b then Inr (ms, None) else mat ms s ep))))) (good ms s)"
      using s ep sound_atD[OF m ms] unfolding e by simp
  qed (use True in simp)
  then show ?thesis using True pl by (simp add: match_frontier_def)
qed (use p in \<open>simp add: match_frontier_def\<close>)

lemma match_step_yields:
  assumes m: "\<And>q. p < q \<Longrightarrow> q \<le> length pat \<Longrightarrow> sound_at mat q" and p: "p \<le> length pat" and ms: "ms_ok ms s"
  shows "yields (match_step mat pat ms s p) (good ms s)"
proof (cases "char_at pat p = NUL")
  case True
  then show ?thesis using p ms by (simp add: match_step_def L_ESC_def NUL_def)
next
  case False
  note pl = char_at_less[OF False]
  have p1: "p + 1 \<le> length pat" using pl by simp
  have p2: "p + 2 \<le> length pat" if "char_at pat (p + 1) \<noteq> NUL" using char_at_less[OF that] by simp
  have d: "yields (match_default mat pat ms s p) (good ms s)" by (rule match_default_yields[OF m False ms]) auto
  have o: "yields (start_capture mat ms s (p + 1) CAP_UNFINISHED) (good ms s)"
    "char_at pat (p + 1) \<noteq> NUL \<Longrightarrow> yields (start_capture mat ms s (p + 2) CAP_POSITION) (good ms s)"
    using p1 p2 by (auto intro!: start_capture_yields[OF _ _ ms] m)
  have c: "yields (end_capture mat ms s (p + 1)) (good ms s)" using p1 by (intro end_capture_yields[OF _ ms] m) auto
  have s: "s \<le> length (src ms)" using ms by (simp add: ms_ok_def)
  have b: "yields (bindR (matchbalance pat (src ms) s (p + 2)) (\<lambda>r. case r of None \<Rightarrow> Inr (ms, None) | Some s' \<Rightarrow> mat ms s' (p + 4)))
      (good ms s)" if "char_at pat (p + 1) \<noteq> NUL"
  proof (rule yields_bind[OF matchbalance_yields[OF s p2[OF that]]])
    fix r :: "nat option"
    assume r: "p + 2 + 1 < length pat \<and> (\<forall>s'. r = Some s' \<longrightarrow> s < s' \<and> s' \<le> length (src ms))"
    then have m4: "sound_at mat (p + 4)" by (intro m) auto
    show "yields (case r of None \<Rightarrow> Inr (ms, None) | Some s' \<Rightarrow> mat ms s' (p + 4)) (good ms s)"
    proof (cases r)
      case (Some s')
      then have "s < s'" "ms_ok ms s'" using r ms_ok_mono[OF ms] by auto
      then show ?thesis using yields_later[OF sound_atD[OF m4], of ms s' s] Some by simp
    qed simp
  qed
  have k: "yields (bindR (match_capture ms s y) (\<lambda>r. case r of None \<Rightarrow> Inr (ms, None) | Some s' \<Rightarrow> mat ms s' (p + 2)))
      (good ms s)" if "char_at pat (p + 1) \<noteq> NUL" for y
  proof (rule yields_bind[OF match_capture_yields[OF ms]])
    fix r :: "nat option" assume r: "\<forall>s'. r = Some s' \<longrightarrow> s \<le> s' \<and> s' \<le> length (src ms)"
    have m2: "sound_at mat (p + 2)" using p2[OF that] by (intro m) auto
    show "yields (case r of None \<Rightarrow> Inr (ms, None) | Some s' \<Rightarrow> mat ms s' (p + 2)) (good ms s)"
    proof (cases r)
      case (Some s')
      then have "s \<le> s'" "ms_ok ms s'" using r ms_ok_mono[OF ms] by auto
      then show ?thesis using yields_later[OF sound_atD[OF m2], of ms s' s] Some by simp
    qed simp
  qed
  have f: "yields (match_frontier mat pat ms s (p + 2)) (good ms s)" if "char_at pat (p + 1) \<noteq> NUL"
    using p2[OF that] by (intro frontier_yields[OF m _ ms]) auto
  show ?thesis
    using False p p1 d o c b f k s ms
    by (auto simp: match_step_def)
qed

lemma match_depth_sound: "p \<le> length pat \<Longrightarrow> length pat - p < n \<Longrightarrow> sound_at (match_depth n pat) p"
proof (induction n arbitrary: p)
  case (Suc n)
  have "sound_at (match_depth n pat) q" if "p < q" "q \<le> length pat" for q using that Suc.prems by (intro Suc.IH) auto
  then show ?case using match_step_yields Suc.prems(1) by (simp add: sound_at_def match_depth.simps(2))
qed simp

lemma match_sound: "p \<le> length pat \<Longrightarrow> ms_ok ms s \<Longrightarrow> yields (match pat ms s p) (good ms s)"
  unfolding match_def by (rule sound_atD[OF match_depth_sound]) auto

subsection \<open>The meaning of a pattern\<close>

text \<open>
  Which stretches of a subject a pattern stands for, leaving captures aside: \<open>matches pat sr p s e\<close> says
  that the part of the pattern from \<open>p\<close> on can be matched with the subject from \<open>s\<close> to \<open>e\<close>. The
  rule for an item takes any number of repetitions that its suffix allows, with no order among them.
\<close>

definition item_at :: "string \<Rightarrow> nat \<Rightarrow> bool" where
  "item_at pat p =
     (char_at pat p \<noteq> NUL \<and> char_at pat p \<noteq> CHR ''('' \<and> char_at pat p \<noteq> CHR '')''
      \<and> \<not> (char_at pat p = L_ESC \<and> (char_at pat (p + 1) = CHR ''b'' \<or> char_at pat (p + 1) = CHR ''f''
             \<or> isdigit (char_at pat (p + 1))))
      \<and> \<not> (char_at pat p = CHR ''$'' \<and> char_at pat (p + 1) = NUL))"

definition suffix :: "char \<Rightarrow> bool" where
  "suffix x = (x = CHR ''?'' \<or> x = CHR ''*'' \<or> x = CHR ''+'' \<or> x = CHR ''-'')"

definition allows :: "char \<Rightarrow> nat \<Rightarrow> bool" where
  "allows x n = (if x = CHR ''?'' then n \<le> 1 else if x = CHR ''*'' \<or> x = CHR ''-'' then True
                 else if x = CHR ''+'' then 1 \<le> n else n = 1)"

definition run :: "string \<Rightarrow> string \<Rightarrow> nat \<Rightarrow> nat \<Rightarrow> nat \<Rightarrow> nat \<Rightarrow> bool" where
  "run pat sr p ep s n = (\<forall>j<n. single_here pat sr (s + j) p ep = Inr True)"

definition frontier_at :: "string \<Rightarrow> string \<Rightarrow> nat \<Rightarrow> nat \<Rightarrow> nat \<Rightarrow> bool" where
  "frontier_at pat sr p ep s =
     (char_at pat p = CHR ''[''
      \<and> matchbracketclass pat (if s = 0 then NUL else char_at sr (s - 1)) p (ep - 1) = Inr False
      \<and> matchbracketclass pat (char_at sr s) p (ep - 1) = Inr True)"

inductive matches :: "string \<Rightarrow> string \<Rightarrow> nat \<Rightarrow> nat \<Rightarrow> nat \<Rightarrow> bool" for pat sr where
  at_end: "char_at pat p = NUL \<Longrightarrow> matches pat sr p s s"
| open_cap: "char_at pat p = CHR ''('' \<Longrightarrow>
    matches pat sr (if char_at pat (p + 1) = CHR '')'' then p + 2 else p + 1) s e \<Longrightarrow> matches pat sr p s e"
| close_cap: "char_at pat p = CHR '')'' \<Longrightarrow> matches pat sr (p + 1) s e \<Longrightarrow> matches pat sr p s e"
| balance: "char_at pat p = L_ESC \<Longrightarrow> char_at pat (p + 1) = CHR ''b'' \<Longrightarrow>
    matchbalance pat sr s (p + 2) = Inr (Some s') \<Longrightarrow> matches pat sr (p + 4) s' e \<Longrightarrow> matches pat sr p s e"
| frontier: "char_at pat p = L_ESC \<Longrightarrow> char_at pat (p + 1) = CHR ''f'' \<Longrightarrow> classend pat (p + 2) = Inr ep \<Longrightarrow>
    frontier_at pat sr (p + 2) ep s \<Longrightarrow> matches pat sr ep s e \<Longrightarrow> matches pat sr p s e"
| dollar: "char_at pat p = CHR ''$'' \<Longrightarrow> char_at pat (p + 1) = NUL \<Longrightarrow> s = length sr \<Longrightarrow> matches pat sr p s s"
| item: "item_at pat p \<Longrightarrow> classend pat p = Inr ep \<Longrightarrow> allows (char_at pat ep) n \<Longrightarrow> run pat sr p ep s n \<Longrightarrow>
    matches pat sr (if suffix (char_at pat ep) then ep + 1 else ep) (s + n) e \<Longrightarrow> matches pat sr p s e"

definition no_backrefs :: "string \<Rightarrow> bool" where
  "no_backrefs pat = (\<forall>i<length pat. pat ! i = L_ESC \<longrightarrow> \<not> isdigit (char_at pat (i + 1)))"

definition exact :: "string \<Rightarrow> nat \<Rightarrow> MatchState \<Rightarrow> nat \<Rightarrow> MatchState \<times> nat option \<Rightarrow> bool" where
  "exact pat p ms s r = (src (fst r) = src ms \<and>
     (case snd r of Some e \<Rightarrow> matches pat (src ms) p s e | None \<Rightarrow> \<forall>e. \<not> matches pat (src ms) p s e))"

definition exact_at :: "matcher \<Rightarrow> string \<Rightarrow> nat \<Rightarrow> bool" where
  "exact_at mat pat p = (\<forall>ms s r. mat ms s p = Inr r \<longrightarrow> exact pat p ms s r)"

lemma exact_atD: "exact_at mat pat p \<Longrightarrow> mat ms s p = Inr r \<Longrightarrow> exact pat p ms s r"
  unfolding exact_at_def by blast

lemma exact_simps [simp]:
  "exact pat p ms s (ms', Some e) = (src ms' = src ms \<and> matches pat (src ms) p s e)"
  "exact pat p ms s (ms', None) = (src ms' = src ms \<and> (\<forall>e. \<not> matches pat (src ms) p s e))"
  by (simp_all add: exact_def)

lemma exact_same:
  "exact pat q ms s' r \<Longrightarrow> (\<And>e. matches pat (src ms) p s e = matches pat (src ms) q s' e) \<Longrightarrow> exact pat p ms s r"
  by (simp add: exact_def split: option.splits)

lemma matches_item:
  assumes "item_at pat p" "classend pat p = Inr ep"
  shows "matches pat sr p s e \<longleftrightarrow> (\<exists>n. allows (char_at pat ep) n \<and> run pat sr p ep s n
    \<and> matches pat sr (if suffix (char_at pat ep) then ep + 1 else ep) (s + n) e)"
proof
  assume "matches pat sr p s e"
  then show "\<exists>n. allows (char_at pat ep) n \<and> run pat sr p ep s n
    \<and> matches pat sr (if suffix (char_at pat ep) then ep + 1 else ep) (s + n) e"
    using assms by (cases rule: matches.cases) (auto simp: item_at_def isdigit_def char_in_def)
qed (use assms item in blast)

lemma matches_end:
  "char_at pat p = NUL \<Longrightarrow> matches pat sr p s e \<longleftrightarrow> e = s"
  by (rule iffI, cases rule: matches.cases) (auto simp: item_at_def intro: matches.intros)

lemma matches_open:
  assumes c: "char_at pat p = CHR ''(''"
  shows "matches pat sr p s e \<longleftrightarrow>
     matches pat sr (if char_at pat (p + 1) = CHR '')'' then p + 2 else p + 1) s e"
proof
  show "matches pat sr p s e \<Longrightarrow> matches pat sr (if char_at pat (p + 1) = CHR '')'' then p + 2 else p + 1) s e"
    by (erule matches.cases) (use c in \<open>auto simp: item_at_def split: if_splits\<close>)
qed (rule open_cap[OF c])

lemma matches_close:
  assumes c: "char_at pat p = CHR '')''"
  shows "matches pat sr p s e \<longleftrightarrow> matches pat sr (p + 1) s e"
proof
  show "matches pat sr p s e \<Longrightarrow> matches pat sr (p + 1) s e"
    by (erule matches.cases) (use c in \<open>auto simp: item_at_def split: if_splits\<close>)
qed (rule close_cap[OF c])

lemma matches_balance:
  "char_at pat p = L_ESC \<Longrightarrow> char_at pat (p + 1) = CHR ''b'' \<Longrightarrow> matches pat sr p s e \<longleftrightarrow>
     (\<exists>s'. matchbalance pat sr s (p + 2) = Inr (Some s') \<and> matches pat sr (p + 4) s' e)"
  by (rule iffI, cases rule: matches.cases) (auto simp: item_at_def intro: matches.intros)

lemma matches_frontier:
  "char_at pat p = L_ESC \<Longrightarrow> char_at pat (p + 1) = CHR ''f'' \<Longrightarrow> matches pat sr p s e \<longleftrightarrow>
     (\<exists>ep. classend pat (p + 2) = Inr ep \<and> frontier_at pat sr (p + 2) ep s \<and> matches pat sr ep s e)"
  by (rule iffI, cases rule: matches.cases) (auto simp: item_at_def intro: matches.intros)

lemma matches_dollar:
  "char_at pat p = CHR ''$'' \<Longrightarrow> char_at pat (p + 1) = NUL \<Longrightarrow> matches pat sr p s e \<longleftrightarrow> s = length sr \<and> e = s"
  by (rule iffI, cases rule: matches.cases) (auto simp: item_at_def intro: matches.intros)

subsection \<open>The matcher finds what the pattern means\<close>

lemma run_0 [simp]: "run pat sr p ep s 0"
  by (simp add: run_def)

lemma run_Suc: "run pat sr p ep s (Suc n) \<longleftrightarrow> single_here pat sr s p ep = Inr True \<and> run pat sr p ep (Suc s) n"
  unfolding run_def by (auto simp: all_conj_distrib) (metis Suc_less_eq add_Suc_right add.right_neutral less_Suc_eq_0_disj)+

lemma count_loop_run:
  "count_loop pat sr s p ep i = Inr n \<Longrightarrow> i \<le> n \<and> run pat sr p ep (s + i) (n - i) \<and> single_here pat sr (s + n) p ep = Inr False"
proof (induction "length sr - (s + i)" arbitrary: i rule: less_induct)
  case less
  obtain b where b: "single_here pat sr (s + i) p ep = Inr b"
    using less.prems by (subst (asm) count_loop.simps) (auto split: sum.splits)
  show ?case
  proof (cases b)
    case True
    then have lt: "s + i < length sr" using b by (auto simp: single_here_def split: if_splits)
    have c: "count_loop pat sr s p ep (i + 1) = Inr n" using less.prems b True by (subst (asm) count_loop.simps) simp
    have "i + 1 \<le> n \<and> run pat sr p ep (s + (i + 1)) (n - (i + 1)) \<and> single_here pat sr (s + n) p ep = Inr False"
      using lt by (intro less.hyps c) auto
    moreover have "n - i = Suc (n - (i + 1))" if "i + 1 \<le> n" using that by simp
    ultimately show ?thesis using b True by (auto simp: run_Suc)
  next
    case False
    then show ?thesis using less.prems b by (subst (asm) count_loop.simps) auto
  qed
qed

lemma run_bounded:
  assumes "run pat sr p ep s n" "single_here pat sr (s + m) p ep = Inr False" shows "n \<le> m"
  using assms by (rule_tac ccontr) (auto simp: run_def not_le)

lemma run_less: "run pat sr p ep s m \<Longrightarrow> n \<le> m \<Longrightarrow> run pat sr p ep s n"
  by (simp add: run_def)

lemma try_loop_step:
  assumes "try_loop mat ms s ep i = Inr (ms', r)"
  obtains ms1 q where "mat ms (s + i) (ep + 1) = Inr (ms1, q)"
    "case q of Some e \<Rightarrow> ms' = ms1 \<and> r = Some e
     | None \<Rightarrow> (case i of 0 \<Rightarrow> ms' = ms1 \<and> r = None | Suc j \<Rightarrow> try_loop mat ms1 s ep j = Inr (ms', r))"
proof -
  from assms obtain y where y: "mat ms (s + i) (ep + 1) = Inr y"
    "(case y of (ms', r) \<Rightarrow> case r of Some e \<Rightarrow> Inr (ms', Some e)
       | None \<Rightarrow> (case i of 0 \<Rightarrow> Inr (ms', None) | Suc j \<Rightarrow> try_loop mat ms' s ep j)) = Inr (ms', r)"
    unfolding try_loop.simps[of mat ms s ep i] bindR_eq_Inr by blast
  obtain ms1 q where "y = (ms1, q)" by (cases y)
  with y show ?thesis by (intro that[of ms1 q]) (auto split: option.splits nat.splits)
qed

lemma try_loop_exact:
  assumes m: "exact_at mat pat (ep + 1)"
  shows "try_loop mat ms s ep i = Inr (ms', r) \<Longrightarrow> src ms' = src ms \<and>
    (case r of Some e \<Rightarrow> \<exists>j\<le>i. matches pat (src ms) (ep + 1) (s + j) e
     | None \<Rightarrow> \<forall>j\<le>i. \<forall>e. \<not> matches pat (src ms) (ep + 1) (s + j) e)"
proof (induction i arbitrary: ms)
  case 0
  then obtain ms1 q where q: "mat ms (s + 0) (ep + 1) = Inr (ms1, q)" "ms' = ms1" "r = q"
    by (rule try_loop_step) (auto split: option.splits)
  then show ?case using exact_atD[OF m q(1)] by (cases q) auto
next
  case (Suc i)
  from Suc.prems obtain ms1 q where q: "mat ms (s + Suc i) (ep + 1) = Inr (ms1, q)"
    "case q of Some e \<Rightarrow> ms' = ms1 \<and> r = Some e | None \<Rightarrow> try_loop mat ms1 s ep i = Inr (ms', r)"
    by (rule try_loop_step) (auto split: option.splits)
  note x = exact_atD[OF m q(1)]
  show ?case
  proof (cases q)
    case None
    then have t: "try_loop mat ms1 s ep i = Inr (ms', r)" and x': "src ms1 = src ms"
      "\<And>e. \<not> matches pat (src ms) (ep + 1) (s + Suc i) e" using q(2) x by simp_all
    show ?thesis
    proof (cases r)
      case None
      have "\<not> matches pat (src ms) (ep + 1) (s + j) e" if "j \<le> Suc i" for j e
      proof (cases "j = Suc i")
        case False
        then have "j \<le> i" using that by simp
        then show ?thesis using Suc.IH[OF t] None x'(1) by simp
      qed (use x'(2) in simp)
      then show ?thesis using Suc.IH[OF t] None x'(1) by simp
    next
      case (Some e)
      then obtain j where "src ms' = src ms1" "j \<le> i" "matches pat (src ms1) (ep + 1) (s + j) e"
        using Suc.IH[OF t] by auto
      then show ?thesis using Some x'(1) by (auto intro!: exI[of _ j])
    qed
  next
    case (Some e)
    then have "ms' = ms1" "r = Some e" "matches pat (src ms) (ep + 1) (s + Suc i) e" "src ms1 = src ms"
      using q(2) x by simp_all
    then show ?thesis by auto
  qed
qed

lemma max_expand_exact:
  assumes m: "exact_at mat pat (ep + 1)" and r: "max_expand mat pat ms s p ep = Inr (ms', r)"
  shows "src ms' = src ms \<and> (case r of
      Some e \<Rightarrow> \<exists>n. run pat (src ms) p ep s n \<and> matches pat (src ms) (ep + 1) (s + n) e
    | None \<Rightarrow> \<forall>n. run pat (src ms) p ep s n \<longrightarrow> (\<forall>e. \<not> matches pat (src ms) (ep + 1) (s + n) e))"
proof -
  from r obtain i where i: "count_loop pat (src ms) s p ep 0 = Inr i" "try_loop mat ms s ep i = Inr (ms', r)"
    by (auto simp: max_expand_def bindR_eq_Inr)
  from count_loop_run[OF i(1)] have c: "run pat (src ms) p ep s i" "single_here pat (src ms) (s + i) p ep = Inr False"
    by simp_all
  show ?thesis
    using try_loop_exact[OF m i(2)] run_bounded[OF _ c(2)] run_less[OF c(1)] by (fastforce split: option.splits)
qed

lemma min_expand_exact:
  assumes m: "exact_at mat pat (ep + 1)"
  shows "min_expand mat pat sr ms s p ep = Inr (ms', r) \<Longrightarrow> src ms = sr \<Longrightarrow> src ms' = sr \<and> (case r of
      Some e \<Rightarrow> \<exists>n. run pat sr p ep s n \<and> matches pat sr (ep + 1) (s + n) e
    | None \<Rightarrow> \<forall>n. run pat sr p ep s n \<longrightarrow> (\<forall>e. \<not> matches pat sr (ep + 1) (s + n) e))"
proof (induction "length sr - s" arbitrary: ms s rule: less_induct)
  case less
  obtain ms1 q where q: "mat ms s (ep + 1) = Inr (ms1, q)"
    using less.prems(1) by (subst (asm) min_expand.simps) (auto split: sum.splits prod.splits)
  note x = exact_atD[OF m q]
  show ?case
  proof (cases q)
    case (Some e)
    then have "ms' = ms1" "r = Some e" using less.prems(1) q by (subst (asm) (1) min_expand.simps, simp)+
    then show ?thesis using x Some less.prems(2) by (auto intro: exI[of _ 0])
  next
    case None
    then obtain b where b: "single_here pat sr s p ep = Inr b"
      using less.prems(1) q by (subst (asm) min_expand.simps) (auto split: sum.splits)
    show ?thesis
    proof (cases b)
      case True
      then have lt: "s < length sr" using b by (auto simp: single_here_def split: if_splits)
      have c: "min_expand mat pat sr ms1 (s + 1) p ep = Inr (ms', r)"
        using less.prems(1) q None b True by (subst (asm) min_expand.simps) simp
      have ind: "src ms' = sr \<and> (case r of
          Some e \<Rightarrow> \<exists>n. run pat sr p ep (s + 1) n \<and> matches pat sr (ep + 1) (s + 1 + n) e
        | None \<Rightarrow> \<forall>n. run pat sr p ep (s + 1) n \<longrightarrow> (\<forall>e. \<not> matches pat sr (ep + 1) (s + 1 + n) e))"
        using lt x None less.prems(2) by (intro less.hyps[OF _ c]) auto
      have "(\<exists>n. run pat sr p ep s n \<and> P (s + n)) \<longleftrightarrow> P s \<or> (\<exists>n. run pat sr p ep (s + 1) n \<and> P (s + 1 + n))" for P
      proof -
        have "(\<exists>n. run pat sr p ep s n \<and> P (s + n)) \<longleftrightarrow>
          (run pat sr p ep s 0 \<and> P (s + 0)) \<or> (\<exists>n. run pat sr p ep s (Suc n) \<and> P (s + Suc n))"
          by (metis not0_implies_Suc)
        then show ?thesis using b True by (simp add: run_Suc)
      qed
      note split_run = this
      show ?thesis
      proof (cases r)
        case None
        then show ?thesis using ind split_run[of "\<lambda>q. \<exists>e. matches pat sr (ep + 1) q e"] x \<open>q = None\<close> less.prems(2) by simp blast
      next
        case (Some e)
        then show ?thesis using ind split_run[of "\<lambda>q. matches pat sr (ep + 1) q e"] by simp
      qed
    next
      case False
      then have "ms' = ms1" "r = None" using less.prems(1) q None b by (subst (asm) (1) min_expand.simps, simp)+
      moreover have "n = 0" if "run pat sr p ep s n" for n
        using that b False by (cases n) (simp_all add: run_Suc)
      ultimately show ?thesis using x None less.prems(2) by (auto, metis add.right_neutral)
    qed
  qed
qed

lemma match_default_exact:
  assumes m: "\<And>q. exact_at mat pat q" and it: "item_at pat p" and r: "match_default mat pat ms s p = Inr (ms', r)"
  shows "exact pat p ms s (ms', r)"
proof -
  from r obtain ep b x where e: "classend pat p = Inr ep" "single_here pat (src ms) s p ep = Inr b" "rd pat ep = Inr x"
    by (auto simp: match_default_def bindR_eq_Inr)
  have x: "char_at pat ep = x" using e(3) by (auto simp: rd_def split: if_splits)
  note mi = matches_item[OF it e(1), unfolded x]
  have one: "run pat (src ms) p ep s (Suc 0) \<longleftrightarrow> b" using e(2) by (simp add: run_Suc)
  consider (opt) "x = CHR ''?''" | (star) "x = CHR ''*''" | (plus) "x = CHR ''+''" | (minus) "x = CHR ''-''"
    | (single) "\<not> suffix x" by (auto simp: suffix_def)
  then show ?thesis
  proof cases
    case opt
    have n: "allows x n \<longleftrightarrow> n = 0 \<or> n = Suc 0" for n using opt by (auto simp: allows_def)
    have i: "matches pat (src ms) p s q \<longleftrightarrow>
      matches pat (src ms) (ep + 1) s q \<or> b \<and> matches pat (src ms) (ep + 1) (s + 1) q" for q
      unfolding mi n using opt one by (auto simp: suffix_def)
    show ?thesis
    proof (cases b)
      case True
      have "bindR (mat ms (s + 1) (ep + 1)) (\<lambda>(ms', r). case r of Some e \<Rightarrow> Inr (ms', Some e)
          | None \<Rightarrow> mat ms' s (ep + 1)) = Inr (ms', r)" using r e opt True by (simp add: match_default_def del: One_nat_def)
      then obtain y where y: "mat ms (s + 1) (ep + 1) = Inr y"
        "(case y of (ms', r) \<Rightarrow> case r of Some e \<Rightarrow> Inr (ms', Some e) | None \<Rightarrow> mat ms' s (ep + 1)) = Inr (ms', r)"
        unfolding bindR_eq_Inr by blast
      obtain ms1 q where "y = (ms1, q)" by (cases y)
      with y have q: "mat ms (s + 1) (ep + 1) = Inr (ms1, q)"
        "(case q of Some e \<Rightarrow> Inr (ms1, Some e) | None \<Rightarrow> mat ms1 s (ep + 1)) = Inr (ms', r)" by (simp_all del: One_nat_def)
      note x1 = exact_atD[OF m q(1)]
      show ?thesis
      proof (cases q)
        case None
        then have "mat ms1 s (ep + 1) = Inr (ms', r)" using q(2) by simp
        from exact_atD[OF m this] show ?thesis using x1 None i True by (cases r) auto
      qed (use q(2) x1 i True in auto)
    next
      case False
      then have "mat ms s (ep + 1) = Inr (ms', r)" using r e opt by (simp add: match_default_def)
      from exact_atD[OF m this] show ?thesis using i False by (cases r) auto
    qed
  next
    case star
    then have "max_expand mat pat ms s p ep = Inr (ms', r)" using r e by (simp add: match_default_def)
    from max_expand_exact[OF m this] show ?thesis
      using star by (auto simp: exact_def mi allows_def suffix_def split: option.splits)
  next
    case minus
    then have "min_expand mat pat (src ms) ms s p ep = Inr (ms', r)" using r e by (simp add: match_default_def)
    from min_expand_exact[OF m this refl] show ?thesis
      using minus by (auto simp: exact_def mi allows_def suffix_def split: option.splits)
  next
    case plus
    have i: "matches pat (src ms) p s q \<longleftrightarrow>
      b \<and> (\<exists>n. run pat (src ms) p ep (s + 1) n \<and> matches pat (src ms) (ep + 1) (s + 1 + n) q)" for q
    proof -
      have "matches pat (src ms) p s q \<longleftrightarrow> (\<exists>n. run pat (src ms) p ep s (Suc n) \<and> matches pat (src ms) (ep + 1) (s + Suc n) q)"
      proof -
        have aux: "(\<exists>n\<ge>Suc 0. A n) \<longleftrightarrow> (\<exists>n. A (Suc n))" for A :: "nat \<Rightarrow> bool"
          by (metis Suc_le_D Suc_le_mono zero_le)
        show ?thesis unfolding mi using plus aux[of "\<lambda>n. run pat (src ms) p ep s n \<and> matches pat (src ms) (ep + 1) (s + n) q"]
          by (simp add: allows_def suffix_def)
      qed
      then show ?thesis using e(2) by (simp add: run_Suc)
    qed
    show ?thesis
    proof (cases b)
      case True
      then have "max_expand mat pat ms (s + 1) p ep = Inr (ms', r)" using r e plus by (simp add: match_default_def)
      from max_expand_exact[OF m this] show ?thesis
        using True by (auto simp: exact_def i split: option.splits)
    next
      case False
      then show ?thesis using r e plus i by (auto simp: match_default_def)
    qed
  next
    case single
    have i: "matches pat (src ms) p s q \<longleftrightarrow> b \<and> matches pat (src ms) ep (s + 1) q" for q
      unfolding mi using single one by (auto simp: allows_def suffix_def)
    show ?thesis
    proof (cases b)
      case True
      then have "mat ms (s + 1) ep = Inr (ms', r)" using r e single by (simp add: match_default_def suffix_def)
      from exact_atD[OF m this] show ?thesis using i True by (cases r) auto
    next
      case False
      then show ?thesis using r e single i by (auto simp: match_default_def suffix_def)
    qed
  qed
qed

lemma start_capture_exact:
  assumes m: "exact_at mat pat p" and r: "start_capture mat ms s p what = Inr (ms', r)"
  shows "exact pat p ms s (ms', r)"
  using r by (cases r) (auto simp: start_capture_def bindR_eq_Inr split: if_splits dest!: exact_atD[OF m])

lemma end_capture_exact:
  assumes m: "exact_at mat pat p" and r: "end_capture mat ms s p = Inr (ms', r)"
  shows "exact pat p ms s (ms', r)"
  using r by (cases r) (auto simp: end_capture_def bindR_eq_Inr Let_def split: if_splits dest!: exact_atD[OF m])

lemma match_step_exact:
  assumes m: "\<And>q. exact_at mat pat q" and nb: "no_backrefs pat" and r: "match_step mat pat ms s p = Inr (ms', r)"
  shows "exact pat p ms s (ms', r)"
proof -
  from r have "p \<le> length pat" by (auto simp: match_step_def bindR_eq_Inr rd_def split: if_splits)
  show ?thesis
  proof (cases "item_at pat p")
    case True
    then have "p < length pat" using char_at_less by (auto simp: item_at_def)
    then have "match_step mat pat ms s p = match_default mat pat ms s p"
      using True by (auto simp: match_step_def item_at_def)
    then show ?thesis using match_default_exact[OF m True] r by simp
  next
    case False
    have nd: "\<not> isdigit (char_at pat (p + 1))" if "char_at pat p = L_ESC"
    proof -
      have "p < length pat" using that by (intro char_at_less) simp
      then show ?thesis using that nb by (simp add: no_backrefs_def char_at_def)
    qed
    have pl: "p + 1 \<le> length pat" if "char_at pat p \<noteq> NUL" using char_at_less[OF that] by simp
    consider (final) "char_at pat p = NUL" | (opn) "char_at pat p = CHR ''(''" | (cls) "char_at pat p = CHR '')''"
      | (bal) "char_at pat p = L_ESC" "char_at pat (p + 1) = CHR ''b''"
      | (front) "char_at pat p = L_ESC" "char_at pat (p + 1) = CHR ''f''"
      | (dol) "char_at pat p = CHR ''$''" "char_at pat (p + 1) = NUL"
      using False nd unfolding item_at_def by blast
    then show ?thesis
    proof cases
      case final
      then show ?thesis using r \<open>p \<le> length pat\<close> by (auto simp: match_step_def matches_end)
    next
      case opn
      show ?thesis
      proof (cases "char_at pat (p + 1) = CHR '')''")
        case True
        then have "start_capture mat ms s (p + 2) CAP_POSITION = Inr (ms', r)"
          using r opn pl \<open>p \<le> length pat\<close> by (simp add: match_step_def)
        moreover have "matches pat (src ms) p s e \<longleftrightarrow> matches pat (src ms) (p + 2) s e" for e
          using matches_open[OF opn] True by simp
        ultimately show ?thesis using start_capture_exact[OF m, of ms s "p + 2" CAP_POSITION ms' r] by (cases r) auto
      next
        case False
        then have "start_capture mat ms s (p + 1) CAP_UNFINISHED = Inr (ms', r)"
          using r opn pl \<open>p \<le> length pat\<close> by (simp add: match_step_def)
        moreover have "matches pat (src ms) p s e \<longleftrightarrow> matches pat (src ms) (p + 1) s e" for e
          using matches_open[OF opn] False by simp
        ultimately show ?thesis using start_capture_exact[OF m, of ms s "p + 1" CAP_UNFINISHED ms' r] by (cases r) auto
      qed
    next
      case cls
      then have "end_capture mat ms s (p + 1) = Inr (ms', r)"
        using r \<open>p \<le> length pat\<close> by (simp add: match_step_def)
      from end_capture_exact[OF m this] show ?thesis by (rule exact_same) (rule matches_close[OF cls])
    next
      case bal
      then have "bindR (matchbalance pat (src ms) s (p + 2)) (\<lambda>r. case r of None \<Rightarrow> Inr (ms, None) | Some s' \<Rightarrow> mat ms s' (p + 4))
          = Inr (ms', r)"
        using r pl \<open>p \<le> length pat\<close> by (simp add: match_step_def)
      then obtain y where y: "matchbalance pat (src ms) s (p + 2) = Inr y"
        "(case y of None \<Rightarrow> Inr (ms, None) | Some s' \<Rightarrow> mat ms s' (p + 4)) = Inr (ms', r)"
        unfolding bindR_eq_Inr by blast
      show ?thesis
      proof (cases y)
        case None
        then show ?thesis using y by (auto simp: matches_balance[OF bal])
      next
        case (Some s')
        then have "mat ms s' (p + 4) = Inr (ms', r)" using y by simp
        from exact_atD[OF m this] show ?thesis
          by (rule exact_same) (use y(1) Some in \<open>simp add: matches_balance[OF bal]\<close>)
      qed
    next
      case front
      then have f: "match_frontier mat pat ms s (p + 2) = Inr (ms', r)"
        using r pl \<open>p \<le> length pat\<close> by (simp add: match_step_def)
      define pr where "pr = (if s = 0 then NUL else char_at (src ms) (s - 1))"
      from f obtain ep a where e: "char_at pat (p + 2) = CHR ''[''" "classend pat (p + 2) = Inr ep"
        "matchbracketclass pat pr (p + 2) (ep - 1) = Inr a"
        "(if a then Inr (ms, None) else bindR (rd (src ms) s) (\<lambda>c.
           bindR (matchbracketclass pat c (p + 2) (ep - 1)) (\<lambda>b. if \<not> b then Inr (ms, None) else mat ms s ep))) = Inr (ms', r)"
        by (auto simp: match_frontier_def bindR_eq_Inr rd_def pr_def split: if_splits)
      have mf: "matches pat (src ms) p s q \<longleftrightarrow> \<not> a
          \<and> matchbracketclass pat (char_at (src ms) s) (p + 2) (ep - 1) = Inr True \<and> matches pat (src ms) ep s q" for q
        using e(1-3) by (auto simp: matches_frontier[OF front] frontier_at_def pr_def)
      show ?thesis
      proof (cases a)
        case True
        then show ?thesis using e(4) mf by auto
      next
        case False
        then obtain b where b: "matchbracketclass pat (char_at (src ms) s) (p + 2) (ep - 1) = Inr b"
          "(if \<not> b then Inr (ms, None) else mat ms s ep) = Inr (ms', r)"
          using e(4) by (auto simp: bindR_eq_Inr rd_def split: if_splits)
        show ?thesis
        proof (cases b)
          case True
          then have "mat ms s ep = Inr (ms', r)" using b by simp
          from exact_atD[OF m this] show ?thesis by (rule exact_same) (use e b True False in \<open>simp add: mf\<close>)
        qed (use b e mf in auto)
      qed
    next
      case dol
      then show ?thesis using r pl \<open>p \<le> length pat\<close> by (auto simp: match_step_def matches_dollar split: if_splits)
    qed
  qed
qed

lemma match_depth_exact: "no_backrefs pat \<Longrightarrow> exact_at (match_depth n pat) pat p"
proof (induction n arbitrary: p)
  case (Suc n p)
  have "exact pat p ms s (ms', q)" if "match_depth (Suc n) pat ms s p = Inr (ms', q)" for ms s ms' q
    using match_step_exact[OF Suc.IH[OF Suc.prems] Suc.prems] that by (simp add: match_depth.simps(2))
  then show ?case unfolding exact_at_def by (metis surj_pair)
qed (simp add: exact_at_def match_depth.simps(1))

lemma match_exact: "no_backrefs pat \<Longrightarrow> match pat ms s p = Inr r \<Longrightarrow> exact pat p ms s r"
  unfolding match_def by (rule exact_atD[OF match_depth_exact])

subsection \<open>Properties\<close>

definition fresh_state :: "string \<Rightarrow> MatchState" where
  "fresh_state sr = \<lparr>src = sr, level = 0, capture = replicate 32 (0, 0)\<rparr>"

lemma fresh_state_ok: "length sr < 2 ^ 31 \<Longrightarrow> s \<le> length sr \<Longrightarrow> ms_ok (fresh_state sr) s"
  by (simp add: ms_ok_def fresh_state_def LUA_MAXCAPTURES_def)

text \<open>C22. The matcher is memory safe and total: started inside the subject and the pattern with captures that lie in
  the subject, whatever the pattern, it never reads outside the two strings or the capture array and always
  returns; it ends with one of its seven errors, or with failure and every capture restored, or with an end of the
  match at or after the start, inside the subject, and all captures inside the part of the subject passed.\<close>

theorem match_safe:
  assumes "ms_ok ms s" "p \<le> length pat"
  shows "case match pat ms s p of
      Inl e \<Rightarrow> e \<in> pattern_errors
    | Inr (ms', None) \<Rightarrow> same_caps ms ms'
    | Inr (ms', Some e) \<Rightarrow> src ms' = src ms \<and> s \<le> e \<and> e \<le> length (src ms) \<and> ms_ok ms' e \<and> level ms \<le> level ms'"
proof (cases "match pat ms s p")
  case (Inr r)
  then have g: "good ms s r" using match_sound[OF assms(2,1)] by simp
  obtain ms' q where r: "r = (ms', q)" by (cases r)
  show ?thesis
  proof (cases q)
    case (Some e)
    then have "ms_ok ms' e" "src ms' = src ms" using g r by simp_all
    then have "e \<le> length (src ms)" by (simp add: ms_ok_def)
    then show ?thesis using g r Inr Some by simp
  qed (use g r Inr in simp)
qed (use match_sound[OF assms(2,1)] in \<open>simp add: yields_def\<close>)

theorem match_safe_witness:
  "case match ''(a*)%1'' (fresh_state ''aab'') 0 0 of Inl e \<Rightarrow> e \<in> pattern_errors | Inr (ms', None) \<Rightarrow> True
    | Inr (ms', Some e) \<Rightarrow> e \<le> 3"
  using match_safe[OF fresh_state_ok, of "''aab''" 0 0 "''(a*)%1''"]
  by (auto simp: fresh_state_def split: sum.splits prod.splits option.splits)

text \<open>C23. The matcher finds what a pattern means: for a pattern without back references, when it reports an end, the
  declarative relation \<open>matches\<close> holds of the start and this end, and when it reports failure the relation holds of
  no end at all. So the backtracking of greedy, lazy and optional items misses no match and invents none.\<close>

theorem match_means:
  assumes "no_backrefs pat" "match pat ms s p = Inr (ms', r)"
  shows "case r of Some e \<Rightarrow> matches pat (src ms) p s e | None \<Rightarrow> \<not> (\<exists>e. matches pat (src ms) p s e)"
  using match_exact[OF assms] by (cases r) auto

theorem match_means_witness:
  "matches ''a*ab'' ''aaab'' 0 0 4 \<and> \<not> (\<exists>e. matches ''a*ab'' ''aaba'' 0 2 e)"
proof -
  have n: "no_backrefs ''a*ab''" by (simp add: no_backrefs_def L_ESC_def less_Suc_eq numeral_eq_Suc)
  have "match ''a*ab'' (fresh_state ''aaab'') 0 0 = Inr (fresh_state ''aaab'', Some 4)"
    "match ''a*ab'' (fresh_state ''aaba'') 2 0 = Inr (fresh_state ''aaba'', None)" by code_simp+
  from this[THEN match_means[OF n]] show ?thesis by (simp add: fresh_state_def)
qed

end
