(* ===== verification/StrLib.thy ===== *)
theory StrLib
  imports Patterns
begin

text \<open>
  The functions of the string library (\<open>lstrlib.c\<close>) on arguments as \<open>luaL_checklstring\<close>,
  \<open>luaL_checkinteger\<close> and \<open>luaL_optinteger\<close> deliver them (\<open>None\<close> for an argument that is absent).
  A buffer of \<open>lauxlib.c\<close> is the characters put into it. The results are the values pushed, in order;
  an error carries its message without the position and the function name before it.
\<close>

datatype pushed = PString string | PInt int | PNil

definition opt :: "'a \<Rightarrow> 'a option \<Rightarrow> 'a" where
  "opt d x = (case x of None \<Rightarrow> d | Some v \<Rightarrow> v)"

subsection \<open>Plain functions\<close>

definition str_len :: "string \<Rightarrow> pushed list res" where
  "str_len s = Inr [PInt (int (length s))]"

definition posrelat :: "int \<Rightarrow> nat \<Rightarrow> int" where
  "posrelat pos len =
     (let pos' = (if pos < 0 then pos + (int len + 1) else pos)
      in if 0 \<le> pos' then pos' else 0)"

text \<open>The characters from pointer \<open>a\<close> on, \<open>n\<close> of them; they must all be there.\<close>

definition substr :: "string \<Rightarrow> int \<Rightarrow> int \<Rightarrow> string res" where
  "substr s a n =
     (if 0 \<le> a \<and> 0 \<le> n \<and> a + n \<le> int (length s) then Inr (take (nat n) (drop (nat a) s)) else Inl Undef)"

definition str_sub :: "string \<Rightarrow> int \<Rightarrow> int option \<Rightarrow> pushed list res" where
  "str_sub s i j =
     (let l = length s; start = posrelat i l; end' = posrelat (opt (-1) j) l;
          start = (if start < 1 then 1 else start);
          end' = (if int l < end' then int l else end')
      in if start \<le> end' then bindR (substr s (start - 1) (end' - start + 1)) (\<lambda>x. Inr [PString x])
         else Inr [PString []])"

fun reverse_loop :: "string \<Rightarrow> nat \<Rightarrow> string" where
  "reverse_loop s 0 = []"
| "reverse_loop s (Suc l) = s ! l # reverse_loop s l"

definition str_reverse :: "string \<Rightarrow> pushed list res" where
  "str_reverse s = Inr [PString (reverse_loop s (length s))]"

definition str_lower :: "string \<Rightarrow> pushed list res" where
  "str_lower s = Inr [PString (map tolower s)]"

definition str_upper :: "string \<Rightarrow> pushed list res" where
  "str_upper s = Inr [PString (map toupper s)]"

function rep_loop :: "string \<Rightarrow> int \<Rightarrow> string" where
  "rep_loop s n = (if 0 < n then s @ rep_loop s (n - 1) else [])"
  by pat_completeness auto
termination by (relation "measure (\<lambda>(s, n). nat n)") auto

declare rep_loop.simps [simp del]

definition str_rep :: "string \<Rightarrow> int \<Rightarrow> pushed list res" where
  "str_rep s n = Inr [PString (rep_loop s n)]"

definition LUAI_MAXCSTACK :: int where "LUAI_MAXCSTACK = 8000"

text \<open>\<open>luaL_checkstack\<close> with \<open>used\<close> slots of the frame in use.\<close>

definition luaL_checkstack :: "nat \<Rightarrow> int \<Rightarrow> string \<Rightarrow> unit res" where
  "luaL_checkstack used space mes =
     (if LUAI_MAXCSTACK < space \<or> LUAI_MAXCSTACK < int used + space
      then Inl (ErrRun (''stack overflow ('' @ mes @ '')'')) else Inr ())"

fun byte_loop :: "string \<Rightarrow> int \<Rightarrow> nat \<Rightarrow> pushed list res" where
  "byte_loop s a 0 = Inr []"
| "byte_loop s a (Suc n) =
     (if 0 \<le> a \<and> a < int (length s)
      then bindR (byte_loop s (a + 1) n) (\<lambda>xs. Inr (PInt (int (code (s ! nat a))) # xs))
      else Inl Undef)"

definition str_byte :: "nat \<Rightarrow> string \<Rightarrow> int option \<Rightarrow> int option \<Rightarrow> pushed list res" where
  "str_byte used s i j =
     (let l = length s; posi = posrelat (opt 1 i) l; pose = posrelat (opt posi j) l;
          posi = (if posi \<le> 0 then 1 else posi);
          pose = (if int l < pose then int l else pose)
      in if pose < posi then Inr []
         else let n = pose - posi + 1
              in if sint (word_of_int (posi + n) :: 32 word) \<le> pose then Inl (ErrRun ''string slice too long'')
                 else bindR (luaL_checkstack used n ''string slice too long'')
                        (\<lambda>_. byte_loop s (posi - 1) (nat n)))"

fun char_loop :: "int list \<Rightarrow> string res" where
  "char_loop [] = Inr []"
| "char_loop (c # cs) =
     (if 0 \<le> c \<and> c \<le> 255 then bindR (char_loop cs) (\<lambda>xs. Inr (char_of (nat c) # xs))
      else Inl (ErrRun ''invalid value''))"

definition str_char :: "int list \<Rightarrow> pushed list res" where
  "str_char cs = bindR (char_loop cs) (\<lambda>xs. Inr [PString xs])"

subsection \<open>Captures as results\<close>

definition push_onecapture :: "MatchState \<Rightarrow> nat \<Rightarrow> nat \<Rightarrow> nat \<Rightarrow> pushed res" where
  "push_onecapture ms i s e =
     (if level ms \<le> i
      then if i = 0 then bindR (substr (src ms) (int s) (int e - int s)) (\<lambda>x. Inr (PString x))
           else Inl (ErrRun ''invalid capture index'')
      else let (start, l) = capture ms ! i
           in if l = CAP_UNFINISHED then Inl (ErrRun ''unfinished capture'')
              else if l = CAP_POSITION then Inr (PInt (int start + 1))
              else bindR (substr (src ms) (int start) l) (\<lambda>x. Inr (PString x)))"

fun push_all :: "MatchState \<Rightarrow> nat list \<Rightarrow> nat \<Rightarrow> nat \<Rightarrow> pushed list res" where
  "push_all ms [] s e = Inr []"
| "push_all ms (i # is) s e =
     bindR (push_onecapture ms i s e) (\<lambda>x. bindR (push_all ms is s e) (\<lambda>xs. Inr (x # xs)))"

text \<open>\<open>None\<close> for the call with a \<open>NULL\<close> start.\<close>

definition push_captures :: "nat \<Rightarrow> MatchState \<Rightarrow> (nat \<times> nat) option \<Rightarrow> pushed list res" where
  "push_captures used ms se =
     (let nlevels = (if level ms = 0 \<and> se \<noteq> None then 1 else level ms); (s, e) = opt (0, 0) se
      in bindR (luaL_checkstack used (int nlevels) ''too many captures'')
           (\<lambda>_. push_all ms [0..<nlevels] s e))"

subsection \<open>Searching\<close>

definition SPECIALS :: string where "SPECIALS = ''^$*+?.([%-''"

definition no_specials :: "string \<Rightarrow> bool" where
  "no_specials p = (\<forall>c\<in>set (takeWhile (\<lambda>c. c \<noteq> NUL) p). c \<notin> set SPECIALS)"

definition MatchState_init :: "string \<Rightarrow> MatchState" where
  "MatchState_init s = \<lparr>src = s, level = 0, capture = replicate LUA_MAXCAPTURES (0, 0)\<rparr>"

text \<open>
  The loop over the starting points; \<open>p\<close> is where the pattern starts after an anchor. The captures
  keep what earlier attempts left in them.
\<close>

function scan_loop :: "nat \<Rightarrow> bool \<Rightarrow> string \<Rightarrow> string \<Rightarrow> bool \<Rightarrow> nat \<Rightarrow> MatchState \<Rightarrow> nat \<Rightarrow> pushed list res" where
  "scan_loop used fnd s pat anchor p ms s1 =
     (case match pat (ms\<lparr>level := 0\<rparr>) s1 p of
        Inl e \<Rightarrow> Inl e
      | Inr (ms', Some e) \<Rightarrow>
          if fnd
          then bindR (push_captures (used + 2) ms' None)
                 (\<lambda>xs. Inr (PInt (int s1 + 1) # PInt (int e) # xs))
          else push_captures used ms' (Some (s1, e))
      | Inr (ms', None) \<Rightarrow>
          if s1 < length s \<and> \<not> anchor then scan_loop used fnd s pat anchor p ms' (s1 + 1)
          else Inr [PNil])"
  by pat_completeness auto
termination
  by (relation "measure (\<lambda>(used, fnd, s, pat, anchor, p, ms, s1). length s - s1)") auto

declare scan_loop.simps [simp del]

definition str_find_aux ::
  "nat \<Rightarrow> bool \<Rightarrow> string \<Rightarrow> string \<Rightarrow> int option \<Rightarrow> bool \<Rightarrow> pushed list res" where
  "str_find_aux used fnd s p i plain =
     (let l1 = length s; init = posrelat (opt 1 i) l1 - 1;
          init = (if init < 0 then 0 else if int l1 < init then l1 else nat init)
      in if fnd \<and> (plain \<or> no_specials p)
         then (case lmemfind (drop init s) p of
                 Some k \<Rightarrow> Inr [PInt (int (init + k) + 1), PInt (int (init + k) + int (length p))]
               | None \<Rightarrow> Inr [PNil])
         else let anchor = (char_at p 0 = CHR ''^'')
              in scan_loop used fnd s p anchor (if anchor then 1 else 0) (MatchState_init s) init)"

definition str_find :: "nat \<Rightarrow> string \<Rightarrow> string \<Rightarrow> int option \<Rightarrow> bool \<Rightarrow> pushed list res" where
  "str_find used s p i plain = str_find_aux used True s p i plain"

definition str_match :: "nat \<Rightarrow> string \<Rightarrow> string \<Rightarrow> int option \<Rightarrow> bool \<Rightarrow> pushed list res" where
  "str_match used s p i plain = str_find_aux used False s p i plain"

text \<open>The iterator of \<open>gmatch\<close>: the values for one round and the new third upvalue.\<close>

function gmatch_loop :: "nat \<Rightarrow> string \<Rightarrow> string \<Rightarrow> MatchState \<Rightarrow> nat \<Rightarrow> nat \<Rightarrow> (pushed list \<times> nat) res" where
  "gmatch_loop used s p ms pos sr =
     (if sr \<le> length s
      then case match p (ms\<lparr>level := 0\<rparr>) sr 0 of
             Inl e \<Rightarrow> Inl e
           | Inr (ms', Some e) \<Rightarrow>
               let newstart = (if e = sr then e + 1 else e)
               in bindR (push_captures used ms' (Some (sr, e))) (\<lambda>xs. Inr (xs, newstart))
           | Inr (ms', None) \<Rightarrow> gmatch_loop used s p ms' pos (sr + 1)
      else Inr ([], pos))"
  by pat_completeness auto
termination
  by (relation "measure (\<lambda>(used, s, p, ms, pos, sr). length s + 1 - sr)") auto

declare gmatch_loop.simps [simp del]

definition gmatch_aux :: "nat \<Rightarrow> string \<Rightarrow> string \<Rightarrow> nat \<Rightarrow> (pushed list \<times> nat) res" where
  "gmatch_aux used s p pos = gmatch_loop used s p (MatchState_init s) pos pos"

text \<open>The upvalues of the closure \<open>gmatch\<close> returns.\<close>

definition gmatch :: "string \<Rightarrow> string \<Rightarrow> string \<times> string \<times> nat" where
  "gmatch s p = (s, p, 0)"

definition gfind_nodef :: "pushed list res" where
  "gfind_nodef = Inl (ErrRun (''string.gfind'' @ '' was renamed to '' @ ''string.gmatch''))"

subsection \<open>Substitution\<close>

text \<open>
  The third argument of \<open>gsub\<close>. What a function or a table answers (with the calls it makes and
  their effects on a state \<open>'w\<close> of the interpreter) is a parameter: false or nil, a string (or number,
  converted), or a value that is neither.
\<close>

datatype replacement = ReplString string | ReplFunction | ReplTable
datatype answer = AFalse | AString string | AOther string

type_synonym 'w ask = "replacement \<Rightarrow> pushed list \<Rightarrow> 'w \<Rightarrow> (answer \<times> 'w) res"

text \<open>\<open>lua_tolstring\<close> on the number of a position capture: its decimal digits.\<close>

function decimal :: "nat \<Rightarrow> string" where
  "decimal n = (if n < 10 then [] else decimal (n div 10)) @ [char_of (48 + n mod 10)]"
  by pat_completeness auto
termination by (relation "measure id") auto

declare decimal.simps [simp del]

definition text_of :: "pushed \<Rightarrow> string res" where
  "text_of v = (case v of PString x \<Rightarrow> Inr x | PInt k \<Rightarrow> Inr (decimal (nat k)) | PNil \<Rightarrow> Inl Undef)"

function add_s_loop :: "MatchState \<Rightarrow> string \<Rightarrow> nat \<Rightarrow> nat \<Rightarrow> nat \<Rightarrow> string res" where
  "add_s_loop ms news i s e =
     (if i < length news
      then if news ! i \<noteq> L_ESC
           then bindR (add_s_loop ms news (i + 1) s e) (\<lambda>b. Inr (news ! i # b))
           else bindR (rd news (i + 1)) (\<lambda>c.
             bindR (if \<not> isdigit c then Inr [c]
                    else if c = CHR ''0'' then substr (src ms) (int s) (int e - int s)
                    else bindR (push_onecapture ms (code c - 49) s e) text_of) (\<lambda>x.
             bindR (add_s_loop ms news (i + 2) s e) (\<lambda>b. Inr (x @ b))))
      else Inr [])"
  by pat_completeness auto
termination by (relation "measure (\<lambda>(ms, news, i, s, e). length news - i)") auto

declare add_s_loop.simps [simp del]

definition add_s :: "MatchState \<Rightarrow> string \<Rightarrow> nat \<Rightarrow> nat \<Rightarrow> string res" where
  "add_s ms news s e = add_s_loop ms news 0 s e"

definition add_value ::
  "'w ask \<Rightarrow> nat \<Rightarrow> MatchState \<Rightarrow> replacement \<Rightarrow> nat \<Rightarrow> nat \<Rightarrow> 'w \<Rightarrow> (string \<times> 'w) res" where
  "add_value ask used ms repl s e w =
     (case repl of
        ReplString news \<Rightarrow> bindR (add_s ms news s e) (\<lambda>x. Inr (x, w))
      | _ \<Rightarrow>
          bindR (if repl = ReplFunction then push_captures used ms (Some (s, e))
                 else bindR (push_onecapture ms 0 s e) (\<lambda>x. Inr [x]))
            (\<lambda>vs. bindR (ask repl vs w) (\<lambda>(a, w').
               case a of
                 AFalse \<Rightarrow> bindR (substr (src ms) (int s) (int e - int s)) (\<lambda>x. Inr (x, w'))
               | AString x \<Rightarrow> Inr (x, w')
               | AOther tname \<Rightarrow> Inl (ErrRun (''invalid replacement value (a '' @ tname @ '')'')))))"

text \<open>
  The loop of \<open>str_gsub\<close>: what it adds to the buffer from \<open>sp\<close> on, the number of substitutions and the
  interpreter's new state. An end of match past the subject would be undefined.
\<close>

function gsub_loop ::
  "'w ask \<Rightarrow> nat \<Rightarrow> string \<Rightarrow> string \<Rightarrow> bool \<Rightarrow> nat \<Rightarrow> replacement \<Rightarrow> int \<Rightarrow> MatchState \<Rightarrow> nat \<Rightarrow> int \<Rightarrow> 'w
     \<Rightarrow> (string \<times> int \<times> 'w) res" where
  "gsub_loop ask used s pat anchor p repl max_s ms sp n w =
     (if n < max_s
      then case match pat (ms\<lparr>level := 0\<rparr>) sp p of
             Inl e \<Rightarrow> Inl e
           | Inr (ms', r) \<Rightarrow>
               (case (case r of None \<Rightarrow> Inr (n, [], w)
                      | Some e \<Rightarrow> bindR (add_value ask used ms' repl sp e w) (\<lambda>(x, w'). Inr (n + 1, x, w'))) of
                  Inl e \<Rightarrow> Inl e
                | Inr (n', x, w') \<Rightarrow>
                    if r \<noteq> None \<and> sp < the r
                    then if length s < the r then Inl Undef
                         else if anchor then Inr (x @ drop (the r) s, n', w')
                         else bindR (gsub_loop ask used s pat anchor p repl max_s ms' (the r) n' w')
                                (\<lambda>(y, m, v). Inr (x @ y, m, v))
                    else if sp < length s
                    then if anchor then Inr (x @ s ! sp # drop (sp + 1) s, n', w')
                         else bindR (gsub_loop ask used s pat anchor p repl max_s ms' (sp + 1) n' w')
                                (\<lambda>(y, m, v). Inr (x @ s ! sp # y, m, v))
                    else Inr (x @ drop sp s, n', w'))
      else Inr (drop sp s, n, w))"
  by pat_completeness auto
termination
  by (relation "measure (\<lambda>(ask, used, s, pat, anchor, p, repl, max_s, ms, sp, n, w). length s - sp)") auto

declare gsub_loop.simps [simp del]

definition str_gsub ::
  "'w ask \<Rightarrow> nat \<Rightarrow> string \<Rightarrow> string \<Rightarrow> replacement \<Rightarrow> int option \<Rightarrow> 'w \<Rightarrow> (pushed list \<times> 'w) res" where
  "str_gsub ask used s pat repl max_s w =
     (let anchor = (char_at pat 0 = CHR ''^'')
      in bindR (gsub_loop ask used s pat anchor (if anchor then 1 else 0) repl (opt (int (length s) + 1) max_s)
                 (MatchState_init s) 0 0 w)
           (\<lambda>(x, n, w'). Inr ([PString x, PInt n], w')))"

subsection \<open>Formatting\<close>

definition FLAGS :: string where "FLAGS = ''-+ #0''"
definition LUA_INTFRMLEN :: string where "LUA_INTFRMLEN = ''l''"
definition MAX_ITEM :: nat where "MAX_ITEM = 512"
definition MAX_FORMAT :: nat where "MAX_FORMAT = (length FLAGS + 1) + (length LUA_INTFRMLEN + 1) + 10"

definition quote_char :: "char \<Rightarrow> string" where
  "quote_char c =
     (if code c = 34 \<or> code c = 92 \<or> code c = 10 then [char_of (92 :: nat), c]
      else if code c = 13 then [char_of (92 :: nat), CHR ''r'']
      else if c = NUL then char_of (92 :: nat) # ''000''
      else [c])"

definition addquoted :: "string \<Rightarrow> string" where
  "addquoted s = [char_of (34 :: nat)] @ concat (map quote_char s) @ [char_of (34 :: nat)]"

function skip_flags :: "string \<Rightarrow> nat \<Rightarrow> nat res" where
  "skip_flags f p =
     (case rd f p of
        Inl e \<Rightarrow> Inl e
      | Inr c \<Rightarrow> if c \<noteq> NUL \<and> c \<in> set FLAGS then skip_flags f (p + 1) else Inr p)"
  by pat_completeness auto
termination by (relation "measure (\<lambda>(f, p). length f - p)") (auto dest: rd_less)

declare skip_flags.simps [simp del]

definition skip_digit :: "string \<Rightarrow> nat \<Rightarrow> nat res" where
  "skip_digit f p = bindR (rd f p) (\<lambda>c. Inr (if isdigit c then p + 1 else p))"

text \<open>The new pointer and the specification put into \<open>form\<close>, without its terminator.\<close>

definition scanformat :: "string \<Rightarrow> nat \<Rightarrow> (nat \<times> string) res" where
  "scanformat f start =
     bindR (skip_flags f start) (\<lambda>p0.
     if length FLAGS + 1 \<le> p0 - start then Inl (ErrRun ''invalid format (repeated flags)'')
     else bindR (skip_digit f p0) (\<lambda>p1. bindR (skip_digit f p1) (\<lambda>p2.
          bindR (rd f p2) (\<lambda>c.
          bindR (if c = CHR ''.'' then bindR (skip_digit f (p2 + 1)) (skip_digit f) else Inr p2) (\<lambda>p3.
          bindR (rd f p3) (\<lambda>d.
          if isdigit d then Inl (ErrRun ''invalid format (width or precision too long)'')
          else let copied = takeWhile (\<lambda>c. c \<noteq> NUL) (take (p3 - start + 1) (drop start f))
               in if MAX_FORMAT < 1 + (p3 - start + 1) + 1 then Inl Undef
                  else Inr (p3, CHR ''%'' # copied)))))))"

text \<open>The integer length goes before the conversion character, which stays the last one.\<close>

definition addintlen :: "string \<Rightarrow> string res" where
  "addintlen form =
     (let l = length form
      in if l = 0 \<or> MAX_FORMAT < l + length LUA_INTFRMLEN + 1 then Inl Undef
         else Inr (butlast form @ LUA_INTFRMLEN @ [last form]))"

text \<open>The argument of \<open>sprintf\<close> after the cast of the source.\<close>

datatype cvalue = CInt int | CLong int | CUlong int | CDouble lua_Number | CString string

text \<open>A cast of a double to an integer type is undefined outside its range.\<close>

definition cast_to :: "(int \<Rightarrow> cvalue) \<Rightarrow> int \<Rightarrow> int \<Rightarrow> lua_Number \<Rightarrow> cvalue res" where
  "cast_to con lo hi d = (if dbl_fits lo hi d then Inr (con (dbl_trunc d)) else Inl Undef)"

text \<open>
  One format item: \<open>sprintf\<close> is the C library's function, \<open>num\<close> and \<open>chars\<close> what
  \<open>luaL_checknumber\<close> and \<open>luaL_checklstring\<close> give for an argument. A formatted item that does not fit
  into \<open>buff\<close> is undefined. Of a formatted string only what comes before a null character is kept.
\<close>

definition printed :: "(string \<Rightarrow> cvalue \<Rightarrow> string) \<Rightarrow> string \<Rightarrow> cvalue \<Rightarrow> string res" where
  "printed sprintf form v =
     (let out = sprintf form v
      in if MAX_ITEM < length out + 1 then Inl Undef else Inr (takeWhile (\<lambda>c. c \<noteq> NUL) out))"

definition format_item ::
  "(string \<Rightarrow> cvalue \<Rightarrow> string) \<Rightarrow> (nat \<Rightarrow> lua_Number res) \<Rightarrow> (nat \<Rightarrow> string res) \<Rightarrow> nat \<Rightarrow> char \<Rightarrow> string \<Rightarrow> string res" where
  "format_item sprintf num chars arg c form =
     (if c = CHR ''c''
      then bindR (num arg) (\<lambda>d. bindR (cast_to CInt (- (2 ^ 31)) (2 ^ 31 - 1) d) (printed sprintf form))
      else if c = CHR ''d'' \<or> c = CHR ''i''
      then bindR (addintlen form) (\<lambda>form'.
           bindR (num arg) (\<lambda>d. bindR (cast_to CLong (- (2 ^ 31)) (2 ^ 31 - 1) d) (printed sprintf form')))
      else if c = CHR ''o'' \<or> c = CHR ''u'' \<or> c = CHR ''x'' \<or> c = CHR ''X''
      then bindR (addintlen form) (\<lambda>form'.
           bindR (num arg) (\<lambda>d. bindR (cast_to CUlong 0 (2 ^ 32 - 1) d) (printed sprintf form')))
      else if c = CHR ''e'' \<or> c = CHR ''E'' \<or> c = CHR ''f'' \<or> c = CHR ''g'' \<or> c = CHR ''G''
      then bindR (num arg) (\<lambda>d. printed sprintf form (CDouble d))
      else if c = CHR ''q'' then bindR (chars arg) (\<lambda>s. Inr (addquoted s))
      else if c = CHR ''s''
      then bindR (chars arg) (\<lambda>s.
             if CHR ''.'' \<notin> set form \<and> 100 \<le> length s then Inr s
             else printed sprintf form (CString (takeWhile (\<lambda>c. c \<noteq> NUL) s)))
      else Inl (ErrRun (''invalid option '' @ ''%'' @ [c] @ '' to format'')))"

function format_loop ::
  "(string \<Rightarrow> cvalue \<Rightarrow> string) \<Rightarrow> (nat \<Rightarrow> lua_Number res) \<Rightarrow> (nat \<Rightarrow> string res) \<Rightarrow> string \<Rightarrow> nat \<Rightarrow> nat \<Rightarrow> string res" where
  "format_loop sprintf num chars f i arg =
     (if i < length f
      then if f ! i \<noteq> L_ESC
           then bindR (format_loop sprintf num chars f (i + 1) arg) (\<lambda>b. Inr (f ! i # b))
           else (case rd f (i + 1) of
                   Inl e \<Rightarrow> Inl e
                 | Inr c \<Rightarrow>
                     if c = L_ESC
                     then bindR (format_loop sprintf num chars f (i + 2) arg) (\<lambda>b. Inr (c # b))
                     else (case scanformat f (i + 1) of
                             Inl e \<Rightarrow> Inl e
                           | Inr (p, form) \<Rightarrow>
                               if p < i then Inl Undef
                               else bindR (rd f p) (\<lambda>d.
                                    bindR (format_item sprintf num chars (arg + 1) d form) (\<lambda>x.
                                    bindR (format_loop sprintf num chars f (p + 1) (arg + 1)) (\<lambda>b. Inr (x @ b))))))
      else Inr [])"
  by pat_completeness auto
termination
  by (relation "measure (\<lambda>(sprintf, num, chars, f, i, arg). length f - i)") auto

declare format_loop.simps [simp del]

definition str_format ::
  "(string \<Rightarrow> cvalue \<Rightarrow> string) \<Rightarrow> (nat \<Rightarrow> lua_Number res) \<Rightarrow> (nat \<Rightarrow> string res) \<Rightarrow> string \<Rightarrow> pushed list res" where
  "str_format sprintf num chars f =
     bindR (format_loop sprintf num chars f 0 1) (\<lambda>x. Inr [PString x])"

end
