(* ===== verification/StrLibLaws.thy ===== *)
theory StrLibLaws
  imports PatternLaws StrLib
begin

text \<open>
  What the string library guarantees: searches find the leftmost place, substitution loses nothing,
  iteration makes progress, formats fit into their buffers, and nothing is undefined.
\<close>

subsection \<open>Results without undefined behaviour\<close>

definition clean :: "'a res \<Rightarrow> ('a \<Rightarrow> bool) \<Rightarrow> bool" where
  "clean m P = (case m of Inl e \<Rightarrow> \<exists>msg. e = ErrRun msg | Inr x \<Rightarrow> P x)"

lemma clean_simps [simp]: "clean (Inr x) P = P x" "clean (Inl (ErrRun msg)) P"
  by (simp_all add: clean_def)

lemma if_clean: "(b \<Longrightarrow> clean m P) \<Longrightarrow> (\<not> b \<Longrightarrow> clean m' P) \<Longrightarrow> clean (if b then m else m') P"
  by simp

lemma clean_bind: "clean m Q \<Longrightarrow> (\<And>x. m = Inr x \<Longrightarrow> Q x \<Longrightarrow> clean (f x) P) \<Longrightarrow> clean (bindR m f) P"
  by (cases m) (simp_all add: clean_def)

lemma clean_mono: "clean m Q \<Longrightarrow> (\<And>x. m = Inr x \<Longrightarrow> Q x \<Longrightarrow> P x) \<Longrightarrow> clean m P"
  by (cases m) (simp_all add: clean_def)

lemma yields_clean: "yields m P \<Longrightarrow> clean m P"
  by (auto simp: yields_def clean_def pattern_errors_def split: sum.splits)

lemma substr_ok: "0 \<le> a \<Longrightarrow> 0 \<le> n \<Longrightarrow> a + n \<le> int (length s) \<Longrightarrow> substr s a n = Inr (take (nat n) (drop (nat a) s))"
  by (simp add: substr_def)

lemma clean_checkstack: "clean (luaL_checkstack used n mes) (\<lambda>_. True)"
  by (simp add: luaL_checkstack_def)

subsection \<open>Plain functions\<close>

lemma posrelat_range: "i < 2 ^ 31 \<Longrightarrow> int len < 2 ^ 31 \<Longrightarrow> 0 \<le> posrelat i len \<and> posrelat i len < 2 ^ 31"
  by (auto simp: posrelat_def Let_def)

lemma reverse_loop_rev: "n \<le> length s \<Longrightarrow> reverse_loop s n = rev (take n s)"
  by (induction n) (simp_all add: take_Suc_conv_app_nth)

lemma byte_loop_bytes:
  "0 \<le> a \<Longrightarrow> a + int n \<le> int (length s) \<Longrightarrow>
     byte_loop s a n = Inr (map (\<lambda>c. PInt (int (code c))) (take n (drop (nat a) s)))"
proof (induction n arbitrary: a)
  case (Suc n)
  obtain k where k: "a = int k" using Suc.prems(1) zero_le_imp_eq_int by blast
  have kl: "k < length s" using Suc.prems k by simp
  have "nat (a + 1) = Suc k" using k by simp
  then show ?case using Suc.IH[of "a + 1"] Suc.prems k kl Cons_nth_drop_Suc[OF kl, symmetric] by simp
qed simp

lemma char_loop_codes: "char_loop (map (\<lambda>c. int (code c)) s) = Inr s"
proof (induction s)
  case (Cons c s)
  have "code c < 256" using of_char_mod_256[of c, where 'a = nat] by (metis mod_less_divisor zero_less_numeral)
  then have "code c \<le> 255" by linarith
  then show ?case using Cons by simp
qed simp

subsection \<open>Plain search\<close>

lemma memchr_spec:
  "memchr xs c n = Some i \<Longrightarrow> i < n \<and> i < length xs \<and> xs ! i = c \<and> (\<forall>j<i. xs ! j \<noteq> c)"
  "memchr xs c n = None \<Longrightarrow> \<forall>j. j < n \<longrightarrow> j < length xs \<longrightarrow> xs ! j \<noteq> c"
proof (induction xs c n arbitrary: i rule: memchr.induct)
  case (3 x xs c n)
  { case 1
    show ?case
    proof (cases "x = c")
      case False
      then obtain z where z: "memchr xs c n = Some z" "i = Suc z" using 1 by auto
      have "(x # xs) ! j \<noteq> c" if "j < i" for j
        using that False z "3.IH"(1)[OF False z(1)] by (cases j) auto
      then show ?thesis using False z "3.IH"(1)[OF False z(1)] by simp
    qed (use 1 in simp) }
  { case 2 then show ?case using "3.IH"(2) by (auto simp: less_Suc_eq_0_disj split: if_splits) }
qed simp_all

definition occurs :: "string \<Rightarrow> string \<Rightarrow> nat \<Rightarrow> bool" where
  "occurs s x k = (take (length x) (drop k s) = x \<and> k + length x \<le> length s)"

lemma occurs_Cons:
  "occurs s (c # r) k \<longleftrightarrow> k < length s \<and> s ! k = c \<and> occurs s r (k + 1)"
  by (cases "k < length s") (auto simp: occurs_def Cons_nth_drop_Suc[symmetric])

lemma occurs_drop: "i \<le> length s \<Longrightarrow> occurs (drop i s) x k \<longleftrightarrow> occurs s x (i + k)"
  by (auto simp: occurs_def add.commute)

lemma find_loop_mem_spec:
  "l1 + length r = length s1 \<Longrightarrow>
     (case find_loop_mem s1 l1 c r m of
        Some k \<Rightarrow> m \<le> k \<and> occurs s1 (c # r) (k - m) \<and> (\<forall>j<k - m. \<not> occurs s1 (c # r) j)
      | None \<Rightarrow> \<forall>j. \<not> occurs s1 (c # r) j)"
proof (induction s1 l1 c r m rule: find_loop_mem.induct)
  case (1 s1 l1 c r m)
  show ?case
  proof (cases "0 < l1")
    case False
    then show ?thesis using 1(2) by (auto simp: find_loop_mem.simps[of s1] occurs_def)
  next
    case True
    have lim: "occurs s1 (c # r) j \<Longrightarrow> j < l1" for j using 1(2) by (simp add: occurs_def)
    show ?thesis
    proof (cases "memchr s1 c l1")
      case None
      then have "\<not> occurs s1 (c # r) j" for j using lim[of j] memchr_spec(2)[OF None] by (auto simp: occurs_Cons)
      then show ?thesis using True None by (simp add: find_loop_mem.simps[of s1])
    next
      case (Some i)
      note i = memchr_spec(1)[OF Some]
      have before: "\<not> occurs s1 (c # r) j" if "j < i" for j using that i by (auto simp: occurs_Cons)
      have il: "i + 1 \<le> length s1" using i by simp
      show ?thesis
      proof (cases "take (length r) (drop (i + 1) s1) = r")
        case hit: True
        then have "occurs s1 (c # r) i" using i 1(2) by (simp add: occurs_Cons) (simp add: occurs_def)
        then show ?thesis using True Some hit before by (simp add: find_loop_mem.simps[of s1])
      next
        case miss: False
        have occurs_tail: "occurs s1 (c # r) i \<Longrightarrow> take (length r) (drop (i + 1) s1) = r"
          unfolding occurs_Cons by (simp add: occurs_def)
        have at_i: "\<not> occurs s1 (c # r) i" using miss occurs_tail by blast
        have len: "l1 - (i + 1) + length r = length (drop (i + 1) s1)" using i 1(2) by simp
        have ih: "case find_loop_mem (drop (i + 1) s1) (l1 - (i + 1)) c r (m + i + 1) of
            Some k \<Rightarrow> m + i + 1 \<le> k \<and> occurs s1 (c # r) (i + 1 + (k - (m + i + 1)))
              \<and> (\<forall>j<k - (m + i + 1). \<not> occurs s1 (c # r) (i + 1 + j))
          | None \<Rightarrow> \<forall>j. \<not> occurs s1 (c # r) (i + 1 + j)"
          by (rule "1.IH"[OF True Some miss len, unfolded occurs_drop[OF il]])
        have eq: "find_loop_mem s1 l1 c r m = find_loop_mem (drop (i + 1) s1) (l1 - (i + 1)) c r (m + i + 1)"
          using True Some miss by (simp add: find_loop_mem.simps[of s1])
        have low: "\<not> occurs s1 (c # r) j" if "j < i + 1" for j using before at_i that by (cases "j = i") auto
        have all: "\<not> occurs s1 (c # r) j" if "\<forall>j<n. \<not> occurs s1 (c # r) (i + 1 + j)" "j < i + 1 + n" for j n
        proof (cases "j < i + 1")
          case False
          then have "j = i + 1 + (j - (i + 1))" "j - (i + 1) < n" using that(2) by auto
          then show ?thesis using that(1) by metis
        qed (rule low)
        show ?thesis
        proof (cases "find_loop_mem (drop (i + 1) s1) (l1 - (i + 1)) c r (m + i + 1)")
          case None
          then have "\<not> occurs s1 (c # r) j" for j using ih all[of "j + 1" j] by simp
          then show ?thesis using None eq by simp
        next
          case (Some k)
          then have k: "m + i + 1 \<le> k" "k - m = i + 1 + (k - (m + i + 1))" using ih by auto
          show ?thesis using ih all[of "k - (m + i + 1)"] k Some eq by auto
        qed
      qed
    qed
  qed
qed

lemma lmemfind_spec:
  "case lmemfind s x of Some k \<Rightarrow> occurs s x k \<and> (\<forall>j<k. \<not> occurs s x j) | None \<Rightarrow> \<forall>j. \<not> occurs s x j"
proof (cases x)
  case Nil
  then show ?thesis by (simp add: lmemfind_def occurs_def)
next
  case (Cons c r)
  show ?thesis
  proof (cases "length s < length x")
    case True
    then show ?thesis using Cons by (auto simp: lmemfind_def occurs_def)
  next
    case False
    then show ?thesis using Cons find_loop_mem_spec[of "length s - length r" r s c 0]
      by (simp add: lmemfind_def split: option.splits)
  qed
qed

subsection \<open>Matching from the library\<close>

text \<open>A match state of the library before an attempt: the subject, and whatever captures.\<close>

definition ready :: "string \<Rightarrow> MatchState \<Rightarrow> bool" where
  "ready s ms = (src ms = s \<and> length (capture ms) = LUA_MAXCAPTURES \<and> length s < 2 ^ 31)"

lemma ready_init: "length s < 2 ^ 31 \<Longrightarrow> ready s (MatchState_init s)"
  by (simp add: ready_def MatchState_init_def)

lemma ready_ok: "ready s ms \<Longrightarrow> sp \<le> length s \<Longrightarrow> ms_ok (ms\<lparr>level := 0\<rparr>) sp"
  by (simp add: ready_def ms_ok_def)

lemma attempt:
  assumes "ready s ms" "sp \<le> length s" "p \<le> length pat"
  obtains (err) msg where "match pat (ms\<lparr>level := 0\<rparr>) sp p = Inl (ErrRun msg)"
    | (fails) ms' where "match pat (ms\<lparr>level := 0\<rparr>) sp p = Inr (ms', None)" "ready s ms'"
    | (hit) ms' e where "match pat (ms\<lparr>level := 0\<rparr>) sp p = Inr (ms', Some e)" "ready s ms'" "ms_ok ms' e"
        "sp \<le> e" "e \<le> length s"
proof -
  note ok = ready_ok[OF assms(1,2)]
  from match_sound[OF assms(3) ok]
  have y: "yields (match pat (ms\<lparr>level := 0\<rparr>) sp p) (good (ms\<lparr>level := 0\<rparr>) sp)" .
  show ?thesis
  proof (cases "match pat (ms\<lparr>level := 0\<rparr>) sp p")
    case (Inl e)
    then show ?thesis using y that(1) by (auto simp: yields_def pattern_errors_def)
  next
    case (Inr r)
    obtain ms' q where r: "r = (ms', q)" by (cases r)
    have g: "good (ms\<lparr>level := 0\<rparr>) sp (ms', q)" using y Inr r by simp
    show ?thesis
    proof (cases q)
      case None
      then have "ready s ms'" using g assms(1) by (simp add: same_caps_def ready_def)
      then show ?thesis using that(2) Inr r None by simp
    next
      case (Some e)
      then have g': "src ms' = s" "sp \<le> e" "ms_ok ms' e" using g assms(1) by (simp_all add: ready_def)
      then have "ready s ms'" "e \<le> length s" using assms(1) by (simp_all add: ready_def ms_ok_def)
      then show ?thesis using that(3) Inr r Some g' by simp
    qed
  qed
qed

lemma push_onecapture_clean:
  assumes "ms_ok ms e" "s \<le> e" shows "clean (push_onecapture ms i s e) (\<lambda>v. \<exists>x. text_of v = Inr x)"
proof (cases "i < level ms")
  case True
  obtain start l where c: "capture ms ! i = (start, l)" by (cases "capture ms ! i")
  have "cap_ok e (start, l)" "e \<le> length (src ms)" using assms True c by (auto simp: ms_ok_def)
  then show ?thesis using True c
    by (auto simp: push_onecapture_def cap_ok_def text_of_def substr_ok)
next
  case False
  then show ?thesis using assms by (auto simp: push_onecapture_def ms_ok_def substr_ok text_of_def)
qed

lemma push_all_clean:
  assumes "ms_ok ms e" "s \<le> e" shows "clean (push_all ms is s e) (\<lambda>vs. length vs = length is)"
proof (induction "is")
  case (Cons i "is")
  show ?case unfolding push_all.simps
    by (rule clean_bind[OF push_onecapture_clean[OF assms]]) (auto intro!: clean_bind[OF Cons])
qed simp

lemma push_captures_clean:
  assumes "ms_ok ms e" "\<And>a b. se = Some (a, b) \<Longrightarrow> a \<le> b \<and> b = e"
  shows "clean (push_captures used ms se) (\<lambda>vs. se \<noteq> None \<longrightarrow> vs \<noteq> [])"
proof -
  obtain a b where ab: "opt (0, 0) se = (a, b)" by fastforce
  have p: "clean (push_all ms is a b) (\<lambda>vs. length vs = length is)" for "is"
  proof (cases se)
    case None
    then have "ms_ok ms e" "a = 0" "b = 0" using assms ab by (auto simp: opt_def)
    then show ?thesis
    proof (induction "is")
      case (Cons i "is")
      have "clean (push_onecapture ms i 0 0) (\<lambda>_. True)"
      proof (cases "i < level ms")
        case True
        then show ?thesis using push_onecapture_clean[OF assms(1), of 0 i]
          by (auto simp: push_onecapture_def elim: clean_mono)
      qed (simp add: push_onecapture_def substr_def)
      then show ?case unfolding push_all.simps Cons.prems(2,3)
        by (rule clean_bind) (use Cons in \<open>auto intro!: clean_bind\<close>)
    qed simp
  next
    case (Some x)
    then show ?thesis using assms ab push_all_clean by (cases x) (auto simp: opt_def)
  qed
  show ?thesis unfolding push_captures_def Let_def ab prod.case
    by (rule clean_bind[OF clean_checkstack], rule clean_mono[OF p]) (auto split: if_splits)
qed

subsection \<open>Searching with a pattern\<close>

text \<open>The leftmost place where the pattern from \<open>p\<close> on matches, from \<open>s1\<close> on (only there, when anchored).\<close>

definition leftmost :: "string \<Rightarrow> string \<Rightarrow> bool \<Rightarrow> nat \<Rightarrow> nat \<Rightarrow> nat \<Rightarrow> bool" where
  "leftmost pat s anchor p s1 a =
     (s1 \<le> a \<and> a \<le> length s \<and> (anchor \<longrightarrow> a = s1) \<and> (\<exists>e. matches pat s p a e)
      \<and> (\<forall>b e. s1 \<le> b \<longrightarrow> b < a \<longrightarrow> \<not> matches pat s p b e))"

lemma scan_loop_spec:
  assumes p: "p \<le> length pat" and nb: "no_backrefs pat"
  shows "ready s ms \<Longrightarrow> s1 \<le> length s \<Longrightarrow>
    clean (scan_loop used True s pat anchor p ms s1) (\<lambda>vs.
      vs = [PNil] \<and> (\<forall>b e. s1 \<le> b \<longrightarrow> b \<le> length s \<longrightarrow> (anchor \<longrightarrow> b = s1) \<longrightarrow> \<not> matches pat s p b e)
      \<or> (\<exists>a e xs. vs = PInt (int a + 1) # PInt (int e) # xs \<and> leftmost pat s anchor p s1 a \<and> matches pat s p a e))"
proof (induction "length s - s1" arbitrary: ms s1 rule: less_induct)
  case less
  show ?case
  proof (cases rule: attempt[OF less.prems p])
    case (1 msg)
    then show ?thesis by (simp add: scan_loop.simps[of _ _ _ _ _ _ _ s1])
  next
    case (3 ms' e)
    have m: "matches pat s p s1 e" using match_exact[OF nb 3(1)] less.prems(1) by (simp add: ready_def)
    then have "leftmost pat s anchor p s1 s1" using less.prems(2) by (auto simp: leftmost_def)
    then show ?thesis using 3(1) m
      by (auto simp: scan_loop.simps[of _ _ _ _ _ _ _ s1] intro!: clean_bind[OF push_captures_clean[OF 3(3)]])
  next
    case (2 ms')
    have m: "\<not> matches pat s p s1 e" for e using match_exact[OF nb 2(1)] less.prems(1) by (simp add: ready_def)
    show ?thesis
    proof (cases "s1 < length s \<and> \<not> anchor")
      case True
      have "clean (scan_loop used True s pat anchor p ms' (s1 + 1)) (\<lambda>vs.
          vs = [PNil] \<and> (\<forall>b e. s1 + 1 \<le> b \<longrightarrow> b \<le> length s \<longrightarrow> (anchor \<longrightarrow> b = s1 + 1) \<longrightarrow> \<not> matches pat s p b e)
          \<or> (\<exists>a e xs. vs = PInt (int a + 1) # PInt (int e) # xs \<and> leftmost pat s anchor p (s1 + 1) a \<and> matches pat s p a e))"
        using True 2(2) by (intro less.hyps) auto
      moreover have "leftmost pat s anchor p (s1 + 1) a \<Longrightarrow> leftmost pat s anchor p s1 a" for a
        using True m by (auto simp: leftmost_def) (metis Suc_leI le_neq_implies_less)
      moreover have "s1 \<le> b \<Longrightarrow> b = s1 \<or> s1 + 1 \<le> b" for b by auto
      ultimately have "clean (scan_loop used True s pat anchor p ms' (s1 + 1)) (\<lambda>vs.
          vs = [PNil] \<and> (\<forall>b e. s1 \<le> b \<longrightarrow> b \<le> length s \<longrightarrow> (anchor \<longrightarrow> b = s1) \<longrightarrow> \<not> matches pat s p b e)
          \<or> (\<exists>a e xs. vs = PInt (int a + 1) # PInt (int e) # xs \<and> leftmost pat s anchor p s1 a \<and> matches pat s p a e))"
        using True m by (elim clean_mono) blast
      then show ?thesis using 2(1) True by (simp add: scan_loop.simps[of _ _ _ _ _ _ _ s1])
    next
      case False
      then have "\<not> matches pat s p b e" if "s1 \<le> b" "b \<le> length s" "anchor \<longrightarrow> b = s1" for b e
        using m that less.prems(2) by (cases "b = s1") auto
      moreover have "scan_loop used True s pat anchor p ms s1 = Inr [PNil]"
        using 2(1) False by (auto simp: scan_loop.simps[of _ _ _ _ _ _ _ s1])
      ultimately show ?thesis by simp
    qed
  qed
qed

subsection \<open>Substitution\<close>

lemma add_s_clean:
  assumes ok: "ms_ok ms e" "s \<le> e" shows "clean (add_s_loop ms news i s e) (\<lambda>_. True)"
proof (induction "length news - i" arbitrary: i rule: less_induct)
  case less
  show ?case
  proof (cases "i < length news")
    case True
    have ih: "clean (add_s_loop ms news j s e) (\<lambda>_. True)" if "i < j" for j using that True by (intro less.hyps) simp
    have tail: "clean (bindR (add_s_loop ms news j s e) (\<lambda>b. Inr (x @ b))) (\<lambda>_. True)" if "i < j" for j x
      by (rule clean_bind[OF ih[OF that]]) simp
    have el: "e \<le> length (src ms)" using ok(1) by (simp add: ms_ok_def)
    have piece: "clean (if \<not> isdigit c then Inr [c]
                    else if c = CHR ''0'' then substr (src ms) (int s) (int e - int s)
                    else bindR (push_onecapture ms (code c - 49) s e) text_of) (\<lambda>_. True)" for c
      using el ok(2) by (auto simp: substr_ok intro!: clean_bind[OF push_onecapture_clean[OF ok]])
    show ?thesis
    proof (cases "news ! i = L_ESC")
      case esc: True
      have "add_s_loop ms news i s e = bindR (if \<not> isdigit (char_at news (i + 1)) then Inr [char_at news (i + 1)]
          else if char_at news (i + 1) = CHR ''0'' then substr (src ms) (int s) (int e - int s)
          else bindR (push_onecapture ms (code (char_at news (i + 1)) - 49) s e) text_of)
        (\<lambda>x. bindR (add_s_loop ms news (i + 2) s e) (\<lambda>b. Inr (x @ b)))"
        using True esc by (subst add_s_loop.simps) simp
      then show ?thesis by (simp only:) (rule clean_bind[OF piece], rule tail, simp)
    next
      case False
      then show ?thesis using True tail[of "i + 1" "[news ! i]"] by (simp add: add_s_loop.simps[of ms news i])
    qed
  qed (simp add: add_s_loop.simps[of ms news i])
qed

lemma add_s_whole:
  assumes ok: "ms_ok ms e" "s \<le> e" shows "add_s ms ''%0'' s e = Inr (take (e - s) (drop s (src ms)))"
proof -
  have el: "e \<le> length (src ms)" using ok(1) by (simp add: ms_ok_def)
  have "nat (int e - int s) = e - s" using ok(2) by simp
  then show ?thesis using el ok(2)
    by (simp add: add_s_def add_s_loop.simps[of ms "''%0''" 0] add_s_loop.simps[of ms "''%0''" "Suc (Suc 0)"]
        add_s_loop.simps[of ms "''%0''" 2] L_ESC_def char_at_def isdigit_def char_in_def substr_ok)
qed

definition asks_clean :: "'w ask \<Rightarrow> bool" where
  "asks_clean ask = (\<forall>r vs w. clean (ask r vs w) (\<lambda>_. True))"

lemma add_value_clean:
  assumes ok: "ms_ok ms e" "s \<le> e" and ask: "asks_clean ask"
  shows "clean (add_value ask used ms repl s e w)
    (\<lambda>(x, w'). repl = ReplString ''%0'' \<longrightarrow> x = take (e - s) (drop s (src ms)) \<and> w' = w)"
proof -
  have el: "e \<le> length (src ms)" using ok(1) by (simp add: ms_ok_def)
  have asked: "clean (bindR (if repl = ReplFunction then push_captures used ms (Some (s, e))
                 else bindR (push_onecapture ms 0 s e) (\<lambda>x. Inr [x]))
            (\<lambda>vs. bindR (ask repl vs w) (\<lambda>(a, w').
               case a of
                 AFalse \<Rightarrow> bindR (substr (src ms) (int s) (int e - int s)) (\<lambda>x. Inr (x, w'))
               | AString x \<Rightarrow> Inr (x, w')
               | AOther tname \<Rightarrow> Inl (ErrRun (''invalid replacement value (a '' @ tname @ '')''))))) (\<lambda>_. True)"
  proof (rule clean_bind[where Q = "\<lambda>_. True"])
    show "clean (if repl = ReplFunction then push_captures used ms (Some (s, e))
                 else bindR (push_onecapture ms 0 s e) (\<lambda>x. Inr [x])) (\<lambda>_. True)"
      using clean_mono[OF push_captures_clean[OF ok(1), of "Some (s, e)"]] ok(2)
      by (auto intro: clean_bind[OF push_onecapture_clean[OF ok]])
  next
    fix vs
    have "clean (ask repl vs w) (\<lambda>_. True)" using ask by (simp add: asks_clean_def)
    then show "clean (bindR (ask repl vs w) (\<lambda>(a, w').
               case a of
                 AFalse \<Rightarrow> bindR (substr (src ms) (int s) (int e - int s)) (\<lambda>x. Inr (x, w'))
               | AString x \<Rightarrow> Inr (x, w')
               | AOther tname \<Rightarrow> Inl (ErrRun (''invalid replacement value (a '' @ tname @ '')'')))) (\<lambda>_. True)"
      by (rule clean_bind) (use el ok(2) in \<open>auto simp: substr_ok simp del: append.simps split: answer.split\<close>)
  qed
  show ?thesis
  proof (cases repl)
    case (ReplString news)
    have "clean (add_s ms news s e) (\<lambda>x. news = ''%0'' \<longrightarrow> x = take (e - s) (drop s (src ms)))"
      using add_s_clean[OF ok, of news 0] add_s_whole[OF ok]
      by (cases "add_s ms news s e") (auto simp: add_s_def clean_def)
    then show ?thesis using ReplString by (auto simp: add_value_def intro: clean_bind)
  qed (use asked in \<open>auto simp: add_value_def elim: clean_mono\<close>)
qed

lemma gsub_loop_spec:
  assumes p: "p \<le> length pat" and ask: "asks_clean ask"
  shows "ready s ms \<Longrightarrow> sp \<le> length s \<Longrightarrow>
    clean (gsub_loop ask used s pat anchor p repl max_s ms sp n w) (\<lambda>(x, m, w'). n \<le> m \<and> m \<le> n + int (length s - sp) + 1
      \<and> (m \<le> n \<or> m \<le> max_s) \<and> (repl = ReplString ''%0'' \<longrightarrow> x = drop sp s \<and> w' = w))"
proof (induction "length s - sp" arbitrary: ms sp n w rule: less_induct)
  case less
  let ?g = "gsub_loop ask used s pat anchor p repl max_s"
  let ?P = "\<lambda>k n w (x, m, w'). n \<le> m \<and> m \<le> n + int (length s - k) + 1 \<and> (m \<le> n \<or> m \<le> max_s)
      \<and> (repl = ReplString ''%0'' \<longrightarrow> x = drop k s \<and> w' = w)"
  have rec: "clean (bindR (?g ms' k n' w') (\<lambda>(y, m, v). Inr (x @ y, m, v))) (?P sp n w)"
    if "ready s ms'" "sp < k" "k \<le> length s" "n \<le> n'" "n' \<le> n + 1" "n < max_s"
      "repl = ReplString ''%0'' \<Longrightarrow> x = take (k - sp) (drop sp s) \<and> w' = w" for ms' k n' x w'
  proof (rule clean_bind[OF less.hyps[OF _ that(1,3)]])
    show "length s - k < length s - sp" using that(2,3) by simp
  next
    fix r assume r: "case r of (x, m, v) \<Rightarrow> n' \<le> m \<and> m \<le> n' + int (length s - k) + 1 \<and> (m \<le> n' \<or> m \<le> max_s)
      \<and> (repl = ReplString ''%0'' \<longrightarrow> x = drop k s \<and> v = w')"
    obtain y m v where rv: "r = (y, m, v)" by (cases r)
    have "drop sp s = take (k - sp) (drop sp s) @ drop k s"
      using that(2) append_take_drop_id[of "k - sp" "drop sp s"] by simp
    moreover have "int (length s - k) + 1 \<le> int (length s - sp)" using that(2,3) by simp
    ultimately show "clean (case r of (y, m, v) \<Rightarrow> Inr (x @ y, m, v)) (?P sp n w)"
      using r that(4-7) unfolding rv by auto
  qed
  show ?case
  proof (cases "n < max_s")
    case False
    then show ?thesis by (simp add: gsub_loop.simps[of _ _ _ _ _ _ _ _ _ sp n])
  next
    case more: True
    have one: "take (Suc sp - sp) (drop sp s) = [s ! sp]" if "sp < length s"
      using that by (simp add: Suc_diff_le take_Suc_conv_app_nth Cons_nth_drop_Suc[symmetric])
    have step: "clean (if sp < length s
        then if anchor then Inr (x @ s ! sp # drop (sp + 1) s, n', w')
             else bindR (?g ms' (sp + 1) n' w') (\<lambda>(y, m, v). Inr (x @ s ! sp # y, m, v))
        else Inr (x @ drop sp s, n', w')) (?P sp n w)"
      if "ready s ms'" "n \<le> n'" "n' \<le> n + 1" "repl = ReplString ''%0'' \<Longrightarrow> x = [] \<and> w' = w" for ms' n' x w'
      using rec[of ms' "sp + 1" n' "x @ [s ! sp]" w'] that more one less.prems(2)
      by (auto simp: Cons_nth_drop_Suc)
    show ?thesis
    proof (cases rule: attempt[OF less.prems p])
      case (1 msg)
      then show ?thesis using more by (simp add: gsub_loop.simps[of _ _ _ _ _ _ _ _ _ sp n])
    next
      case (2 ms')
      have "?g ms sp n w = (if sp < length s
        then if anchor then Inr ([] @ s ! sp # drop (sp + 1) s, n, w)
             else bindR (?g ms' (sp + 1) n w) (\<lambda>(y, m, v). Inr ([] @ s ! sp # y, m, v))
        else Inr ([] @ drop sp s, n, w))" using 2(1) more by (subst gsub_loop.simps) simp
      then show ?thesis using step[OF 2(2), of n "[]" w] by simp
    next
      case (3 ms' e)
      have s': "src ms' = s" using 3(2) by (simp add: ready_def)
      note av = add_value_clean[OF 3(3,4) ask, of used repl w, unfolded s']
      show ?thesis
      proof (cases "add_value ask used ms' repl sp e w")
        case (Inl err)
        then show ?thesis using av more 3(1) by (subst gsub_loop.simps) (auto simp: clean_def)
      next
        case (Inr r)
        obtain x w' where r: "r = (x, w')" by (cases r)
        have id: "repl = ReplString ''%0'' \<Longrightarrow> x = take (e - sp) (drop sp s) \<and> w' = w" using av Inr r by simp
        show ?thesis
        proof (cases "sp < e")
          case True
          have eq: "?g ms sp n w = (if anchor then Inr (x @ drop e s, n + 1, w')
              else bindR (?g ms' e (n + 1) w') (\<lambda>(y, m, v). Inr (x @ y, m, v)))"
            using 3 more Inr r True by (subst gsub_loop.simps) simp
          have "drop sp s = take (e - sp) (drop sp s) @ drop e s"
            using True append_take_drop_id[of "e - sp" "drop sp s"] by simp
          then show ?thesis unfolding eq using rec[OF 3(2) True 3(5), of "n + 1" x w'] id more by auto
        next
          case False
          then have "e = sp" using 3(4) by simp
          then have "?g ms sp n w = (if sp < length s
            then if anchor then Inr (x @ s ! sp # drop (sp + 1) s, n + 1, w')
                 else bindR (?g ms' (sp + 1) (n + 1) w') (\<lambda>(y, m, v). Inr (x @ s ! sp # y, m, v))
            else Inr (x @ drop sp s, n + 1, w'))" using 3(1) more Inr r by (subst gsub_loop.simps) simp
          then show ?thesis using step[OF 3(2), of "n + 1" x w'] id \<open>e = sp\<close> by simp
        qed
      qed
    qed
  qed
qed

subsection \<open>Iteration\<close>

lemma gmatch_loop_spec:
  "ready s ms \<Longrightarrow> clean (gmatch_loop used s p ms pos sr) (\<lambda>(vs, new). vs = [] \<or> sr < new \<and> new \<le> length s + 1)"
proof (induction "length s + 1 - sr" arbitrary: ms sr rule: less_induct)
  case less
  show ?case
  proof (cases "sr \<le> length s")
    case True
    show ?thesis
    proof (cases rule: attempt[OF less.prems True, of 0 p])
      case (2 msg)
      then show ?thesis using True by (simp add: gmatch_loop.simps[of used s p ms pos sr])
    next
      case (3 ms')
      have "clean (gmatch_loop used s p ms' pos (sr + 1)) (\<lambda>(vs, new). vs = [] \<or> sr + 1 < new \<and> new \<le> length s + 1)"
        using True 3(2) by (intro less.hyps) auto
      then have "clean (gmatch_loop used s p ms' pos (sr + 1)) (\<lambda>(vs, new). vs = [] \<or> sr < new \<and> new \<le> length s + 1)"
        by (elim clean_mono) auto
      then show ?thesis using True 3(1) by (simp add: gmatch_loop.simps[of used s p ms pos sr])
    next
      case (4 ms' e)
      have "clean (bindR (push_captures used ms' (Some (sr, e))) (\<lambda>xs. Inr (xs, if e = sr then e + 1 else e)))
          (\<lambda>(vs, new). vs = [] \<or> sr < new \<and> new \<le> length s + 1)"
        using 4 by (intro clean_bind[OF push_captures_clean[OF 4(3)]]) auto
      then show ?thesis using True 4(1) by (simp add: gmatch_loop.simps[of used s p ms pos sr])
    qed simp
  qed (simp add: gmatch_loop.simps[of used s p ms pos sr])
qed

text \<open>What a generic \<open>for\<close> over \<open>gmatch\<close> does: it calls the iterator until it returns nothing.\<close>

fun gmatch_rounds :: "nat \<Rightarrow> nat \<Rightarrow> string \<Rightarrow> string \<Rightarrow> nat \<Rightarrow> pushed list list res" where
  "gmatch_rounds 0 used s p pos = Inl Diverges"
| "gmatch_rounds (Suc n) used s p pos =
     bindR (gmatch_aux used s p pos) (\<lambda>(vs, new).
       if vs = [] then Inr [] else bindR (gmatch_rounds n used s p new) (\<lambda>r. Inr (vs # r)))"

lemma gmatch_rounds_clean:
  "length s < 2 ^ 31 \<Longrightarrow> pos \<le> length s + 1 \<Longrightarrow> length s + 1 < pos + n \<Longrightarrow> clean (gmatch_rounds n used s p pos) (\<lambda>r. length r < n)"
proof (induction n arbitrary: pos)
  case (Suc n)
  show ?case unfolding gmatch_rounds.simps gmatch_aux_def
  proof (rule clean_bind[OF gmatch_loop_spec[OF ready_init[OF Suc.prems(1)]]])
    fix r :: "pushed list \<times> nat"
    assume r: "case r of (vs, new) \<Rightarrow> vs = [] \<or> pos < new \<and> new \<le> length s + 1"
    obtain vs new where rv: "r = (vs, new)" by (cases r)
    show "clean (case r of (vs, new) \<Rightarrow> if vs = [] then Inr []
        else bindR (gmatch_rounds n used s p new) (\<lambda>r. Inr (vs # r))) (\<lambda>r. length r < Suc n)"
    proof (cases "vs = []")
      case False
      then have new: "pos < new" "new \<le> length s + 1" using r rv by auto
      then have "clean (gmatch_rounds n used s p new) (\<lambda>r. length r < n)"
        using Suc.prems by (intro Suc.IH) auto
      then have "clean (bindR (gmatch_rounds n used s p new) (\<lambda>r. Inr (vs # r))) (\<lambda>r. length r < Suc n)"
        by (rule clean_bind) simp
      then show ?thesis using False rv by simp
    qed (simp add: rv)
  qed
qed simp

subsection \<open>Formats\<close>

lemma skip_flags_range: "p \<le> length f \<Longrightarrow> \<exists>q. skip_flags f p = Inr q \<and> p \<le> q \<and> q \<le> length f"
proof (induction "length f - p" arbitrary: p rule: less_induct)
  case less
  show ?case
  proof (cases "char_at f p \<noteq> NUL \<and> char_at f p \<in> set FLAGS")
    case True
    then have "p < length f" using char_at_less by blast
    then have "\<exists>q. skip_flags f (p + 1) = Inr q \<and> p + 1 \<le> q \<and> q \<le> length f" by (intro less.hyps) auto
    then show ?thesis using True less.prems by (auto simp: skip_flags.simps[of f p])
  qed (use less.prems in \<open>auto simp: skip_flags.simps[of f p]\<close>)
qed

lemma skip_digit_range: "p \<le> length f \<Longrightarrow> \<exists>q. skip_digit f p = Inr q \<and> p \<le> q \<and> q \<le> p + 1 \<and> q \<le> length f"
  using char_at_less[of f p] by (cases "char_at f p = NUL") (auto simp: skip_digit_def)

lemma scanformat_clean:
  assumes st: "start \<le> length f"
  shows "clean (scanformat f start) (\<lambda>(p, form). start \<le> p \<and> p \<le> length f \<and> form \<noteq> [] \<and> length form \<le> 12)"
proof -
  obtain p0 where p0: "skip_flags f start = Inr p0" "start \<le> p0" "p0 \<le> length f"
    using skip_flags_range[OF st] by blast
  show ?thesis
  proof (cases "6 \<le> p0 - start")
    case True
    then show ?thesis using p0 by (simp add: scanformat_def FLAGS_def)
  next
    case False
    obtain p1 where p1: "skip_digit f p0 = Inr p1" "p0 \<le> p1" "p1 \<le> p0 + 1" "p1 \<le> length f"
      using skip_digit_range[OF p0(3)] by blast
    obtain p2 where p2: "skip_digit f p1 = Inr p2" "p1 \<le> p2" "p2 \<le> p1 + 1" "p2 \<le> length f"
      using skip_digit_range[OF p1(4)] by blast
    obtain p3 where p3: "(if char_at f p2 = CHR ''.'' then bindR (skip_digit f (p2 + 1)) (skip_digit f) else Inr p2) = Inr p3"
      "p2 \<le> p3" "p3 \<le> p2 + 3" "p3 \<le> length f"
    proof (cases "char_at f p2 = CHR ''.''")
      case True
      then have "p2 < length f" by (intro char_at_less) (simp add: NUL_def)
      then obtain q1 where q1: "skip_digit f (p2 + 1) = Inr q1" "p2 + 1 \<le> q1" "q1 \<le> p2 + 2" "q1 \<le> length f"
        using skip_digit_range[of "p2 + 1" f] by auto
      obtain q2 where q2: "skip_digit f q1 = Inr q2" "q1 \<le> q2" "q2 \<le> q1 + 1" "q2 \<le> length f"
        using skip_digit_range[OF q1(4)] by blast
      then show ?thesis using that[of q2] True q1 by simp
    qed (use that[of p2] p2 in simp)
    have len: "length (takeWhile (\<lambda>c. c \<noteq> NUL) (take (p3 - start + 1) (drop start f))) \<le> p3 - start + 1"
      using length_takeWhile_le[of "\<lambda>c. c \<noteq> NUL" "take (p3 - start + 1) (drop start f)"] by simp
    have "p3 - start \<le> 10" "start \<le> p3" using False p0 p1 p2 p3 by auto
    then show ?thesis using p0(1) p1(1) p2(1,4) p3 False len
      by (auto simp: scanformat_def FLAGS_def MAX_FORMAT_def LUA_INTFRMLEN_def)
  qed
qed

text \<open>What the specifications that \<open>scanformat\<close> lets through ask of \<open>sprintf\<close>: with a width and a precision of
  at most two digits, a number or a string of less than 100 characters (or cut by a precision) is formatted into
  less than 512 characters.\<close>

definition sprintf_fits :: "(string \<Rightarrow> cvalue \<Rightarrow> string) \<Rightarrow> bool" where
  "sprintf_fits sprintf = (\<forall>form v. length form < MAX_FORMAT \<longrightarrow>
     (\<forall>s. v = CString s \<longrightarrow> length s < 100 \<or> CHR ''.'' \<in> set form) \<longrightarrow> length (sprintf form v) < MAX_ITEM)"

lemma format_item_clean:
  assumes sp: "sprintf_fits sprintf" and num: "\<And>n. clean (num n) (dbl_fits 0 (2 ^ 31 - 1))"
    and chars: "\<And>n. clean (chars n) (\<lambda>_. True)" and form: "form \<noteq> []" "length form \<le> 12"
  shows "clean (format_item sprintf num chars arg c form) (\<lambda>_. True)"
proof -
  have pr: "clean (printed sprintf g v) (\<lambda>_. True)"
    if "length g < MAX_FORMAT" "\<And>s. v = CString s \<Longrightarrow> length s < 100 \<or> CHR ''.'' \<in> set g" for g v
  proof -
    have "length (sprintf g v) < MAX_ITEM" using sp that unfolding sprintf_fits_def by blast
    then show ?thesis by (simp add: printed_def)
  qed
  have mf: "MAX_FORMAT = 18" by (simp add: MAX_FORMAT_def FLAGS_def LUA_INTFRMLEN_def)
  have cast: "clean (bindR (num arg) (\<lambda>d. bindR (cast_to con lo hi d) (printed sprintf g))) (\<lambda>_. True)"
    if "lo \<le> 0" "2 ^ 31 - 1 \<le> hi" "length g < MAX_FORMAT" "\<And>d s. con d \<noteq> CString s" for con lo hi g
  proof (rule clean_bind[OF num])
    fix d assume "dbl_fits 0 (2 ^ 31 - 1) d"
    then have "dbl_fits lo hi d" using that(1,2) by (auto simp: dbl_fits_def)
    then show "clean (bindR (cast_to con lo hi d) (printed sprintf g)) (\<lambda>_. True)"
      using pr[OF that(3)] that(4) by (auto simp: cast_to_def)
  qed
  have len: "\<exists>g. addintlen form = Inr g \<and> length g < MAX_FORMAT"
    using form by (simp add: addintlen_def mf LUA_INTFRMLEN_def Let_def)
  then obtain g where g: "addintlen form = Inr g" "length g < MAX_FORMAT" by blast
  have f: "length form < MAX_FORMAT" using form mf by simp
  have s: "clean (bindR (chars arg) (\<lambda>s. if CHR ''.'' \<notin> set form \<and> 100 \<le> length s then Inr s
             else printed sprintf form (CString (takeWhile (\<lambda>c. c \<noteq> NUL) s)))) (\<lambda>_. True)"
  proof (rule clean_bind[OF chars])
    fix s :: string
    have "length (takeWhile (\<lambda>c. c \<noteq> NUL) s) \<le> length s" by (rule length_takeWhile_le)
    then show "clean (if CHR ''.'' \<notin> set form \<and> 100 \<le> length s then Inr s
             else printed sprintf form (CString (takeWhile (\<lambda>c. c \<noteq> NUL) s))) (\<lambda>_. True)"
      using pr[OF f, of "CString (takeWhile (\<lambda>c. c \<noteq> NUL) s)"] by auto
  qed
  have q: "clean (bindR (chars arg) (\<lambda>s. Inr (addquoted s))) (\<lambda>_. True)" by (rule clean_bind[OF chars]) simp
  have e: "clean (bindR (num arg) (\<lambda>d. printed sprintf form (CDouble d))) (\<lambda>_. True)"
    by (rule clean_bind[OF num]) (rule pr[OF f], simp)
  show ?thesis unfolding format_item_def g(1) bindR_simps
    by (intro if_clean q e s cast f g(2) clean_simps) simp_all
qed

lemma format_loop_clean:
  assumes sp: "sprintf_fits sprintf" and num: "\<And>n. clean (num n) (dbl_fits 0 (2 ^ 31 - 1))"
    and chars: "\<And>n. clean (chars n) (\<lambda>_. True)"
  shows "clean (format_loop sprintf num chars f i arg) (\<lambda>_. True)"
proof (induction "length f - i" arbitrary: i arg rule: less_induct)
  case less
  let ?g = "format_loop sprintf num chars f"
  show ?case
  proof (cases "i < length f")
    case True
    have tail: "clean (bindR (?g j a) (\<lambda>b. Inr (x @ b))) (\<lambda>_. True)" if "i < j" for j a x
      by (rule clean_bind[OF less.hyps]) (use True that in auto)
    show ?thesis
    proof (cases "f ! i = L_ESC")
      case False
      then show ?thesis using True tail[of "i + 1" arg "[f ! i]"] by (simp add: format_loop.simps[of _ _ _ f i])
    next
      case esc: True
      show ?thesis
      proof (cases "char_at f (i + 1) = L_ESC")
        case True
        then show ?thesis using \<open>i < length f\<close> esc tail[of "i + 2" arg "[L_ESC]"] by (simp add: format_loop.simps[of _ _ _ f i])
      next
        case False
        have st: "i + 1 \<le> length f" using True by simp
        have eq: "?g i arg = bindR (scanformat f (i + 1)) (\<lambda>(p, form).
            if p < i then Inl Undef
            else bindR (rd f p) (\<lambda>d. bindR (format_item sprintf num chars (arg + 1) d form)
                   (\<lambda>x. bindR (?g (p + 1) (arg + 1)) (\<lambda>b. Inr (x @ b)))))"
          using True esc False by (subst format_loop.simps) (auto simp: bindR_def split: sum.splits)
        show ?thesis unfolding eq
        proof (rule clean_bind[OF scanformat_clean[OF st]])
          fix r :: "nat \<times> string" assume r: "case r of (p, form) \<Rightarrow> i + 1 \<le> p \<and> p \<le> length f \<and> form \<noteq> [] \<and> length form \<le> 12"
          obtain p form where pf: "r = (p, form)" by (cases r)
          have "clean (bindR (format_item sprintf num chars (arg + 1) (char_at f p) form)
                   (\<lambda>x. bindR (?g (p + 1) (arg + 1)) (\<lambda>b. Inr (x @ b)))) (\<lambda>_. True)"
            using r pf tail[of "p + 1"] by (intro clean_bind[OF format_item_clean[OF sp num chars]]) auto
          then show "clean (case r of (p, form) \<Rightarrow> if p < i then Inl Undef
            else bindR (rd f p) (\<lambda>d. bindR (format_item sprintf num chars (arg + 1) d form)
                   (\<lambda>x. bindR (?g (p + 1) (arg + 1)) (\<lambda>b. Inr (x @ b))))) (\<lambda>_. True)"
            using r pf by simp
        qed
      qed
    qed
  qed (simp add: format_loop.simps[of _ _ _ f i])
qed

subsection \<open>Properties\<close>

definition first_index :: "int option \<Rightarrow> nat \<Rightarrow> nat" where
  "first_index i l = (let k = posrelat (opt 1 i) l - 1 in if k < 0 then 0 else if int l < k then l else nat k)"

lemma first_index_le: "first_index i l \<le> l"
  by (auto simp: first_index_def Let_def nat_le_iff)

lemma str_find_first:
  "str_find used s p i plain = (let init = first_index i (length s) in
     if plain \<or> no_specials p
     then (case lmemfind (drop init s) p of
             Some k \<Rightarrow> Inr [PInt (int (init + k) + 1), PInt (int (init + k) + int (length p))]
           | None \<Rightarrow> Inr [PNil])
     else let anchor = (char_at p 0 = CHR ''^'')
          in scan_loop used True s p anchor (if anchor then 1 else 0) (MatchState_init s) init)"
  by (simp only: str_find_def str_find_aux_def first_index_def Let_def simp_thms)

lemma find_aux_plain:
  "plain \<or> no_specials p \<Longrightarrow> str_find used s p i plain =
     (case lmemfind (drop (first_index i (length s)) s) p of
        Some k \<Rightarrow> Inr [PInt (int (first_index i (length s) + k) + 1), PInt (int (first_index i (length s) + k) + int (length p))]
      | None \<Rightarrow> Inr [PNil])"
  by (simp add: str_find_first Let_def)

lemma find_aux_pattern:
  "\<not> (plain \<or> no_specials p) \<Longrightarrow> str_find used s p i plain =
     scan_loop used True s p (char_at p 0 = CHR ''^'') (if char_at p 0 = CHR ''^'' then 1 else 0)
       (MatchState_init s) (first_index i (length s))"
  by (simp add: str_find_first Let_def)

text \<open>C24. A plain search finds the first place: \<open>string.find\<close> with the plain flag, or with a pattern without special
  characters, returns the first and last position of the leftmost occurrence of the pattern at or after the start
  position, embedded zeros included, and nil exactly when there is none.\<close>

theorem find_plain_first:
  assumes "plain \<or> no_specials p"
  shows "\<exists>r. str_find used s p i plain = Inr r \<and>
    (r = [PNil] \<and> (\<forall>k\<ge>first_index i (length s). \<not> occurs s p k)
     \<or> (\<exists>k\<ge>first_index i (length s). r = [PInt (int k + 1), PInt (int k + int (length p))] \<and> occurs s p k
         \<and> (\<forall>j\<ge>first_index i (length s). j < k \<longrightarrow> \<not> occurs s p j)))"
proof -
  let ?b = "first_index i (length s)"
  have sp: "case lmemfind (drop ?b s) p of Some k \<Rightarrow> occurs s p (?b + k) \<and> (\<forall>j<k. \<not> occurs s p (?b + j))
      | None \<Rightarrow> \<forall>j. \<not> occurs s p (?b + j)"
    using lmemfind_spec[of "drop ?b s" p] unfolding occurs_drop[OF first_index_le] .
  show ?thesis
  proof (cases "lmemfind (drop ?b s) p")
    case None
    then have none: "\<not> occurs s p (?b + j)" for j using sp by simp
    have "\<not> occurs s p k" if "?b \<le> k" for k using none le_Suc_ex[OF that] by auto
    then show ?thesis using None find_aux_plain[OF assms, of used s i] by auto
  next
    case (Some k)
    have "\<not> occurs s p j" if "?b \<le> j" "j < ?b + k" for j
      using sp Some that le_Suc_ex[OF that(1)] by auto
    then show ?thesis using Some sp find_aux_plain[OF assms, of used s i]
      by (intro exI[of _ "[PInt (int (?b + k) + 1), PInt (int (?b + k) + int (length p))]"] conjI disjI2 exI[of _ "?b + k"]) auto
  qed
qed

lemma plain_example: "str_find 3 ''banana'' ''an'' (Some 3) True = Inr [PInt 4, PInt 5]"
  by code_simp

theorem find_plain_first_witness: "occurs ''banana'' ''an'' 3 \<and> \<not> occurs ''banana'' ''an'' 2"
proof -
  have "first_index (Some 3) (length ''banana'') = 2" by code_simp
  then show ?thesis using find_plain_first[of True "''an''" 3 "''banana''" "Some 3"] plain_example by auto
qed

text \<open>C25. A search with a pattern finds the leftmost match: for a pattern without back references \<open>string.find\<close>
  either raises a Lua error, or returns first the position of the leftmost place at or after the start where the
  pattern matches (the start itself, if the pattern is anchored) and an end that it matches to, or returns nil and
  the pattern matches nowhere it may be tried. It never runs into undefined behaviour and always returns.\<close>

theorem find_leftmost:
  fixes p :: string and i :: "int option"
  defines "anchor \<equiv> char_at p 0 = CHR ''^''"
  assumes "length s < 2 ^ 31" "no_backrefs p" "\<not> (plain \<or> no_specials p)"
  shows "clean (str_find used s p i plain) (\<lambda>vs.
      vs = [PNil] \<and> (\<forall>b e. first_index i (length s) \<le> b \<longrightarrow> b \<le> length s \<longrightarrow> (anchor \<longrightarrow> b = first_index i (length s))
        \<longrightarrow> \<not> matches p s (if anchor then 1 else 0) b e)
      \<or> (\<exists>a e xs. vs = PInt (int a + 1) # PInt (int e) # xs
        \<and> leftmost p s anchor (if anchor then 1 else 0) (first_index i (length s)) a
        \<and> matches p s (if anchor then 1 else 0) a e))"
proof -
  have "char_at p 0 = CHR ''^'' \<Longrightarrow> 0 < length p" by (rule char_at_less) simp
  then have "(if anchor then 1 else 0) \<le> length p" by (simp add: anchor_def Suc_le_eq)
  from scan_loop_spec[OF this assms(3) ready_init[OF assms(2)] first_index_le, of used anchor i]
  show ?thesis unfolding find_aux_pattern[OF assms(4)] anchor_def .
qed

theorem find_leftmost_witness: "leftmost ''l+'' ''hello'' False 0 0 2"
proof -
  have c: "char_at ''l+'' 0 = CHR ''l''" "first_index None (length ''hello'') = 0" "\<not> no_specials ''l+''"
    "str_find 2 ''hello'' ''l+'' None False = Inr [PInt 3, PInt 4]" by code_simp+
  have "no_backrefs ''l+''" by (simp add: no_backrefs_def L_ESC_def less_Suc_eq)
  then show ?thesis using find_leftmost[of "''hello''" "''l+''" False 2 None] c by simp
qed

text \<open>C26. Substitution is total and conservative: with replacements that behave (a function or table lookup may raise
  errors or change the state, but not break C), \<open>string.gsub\<close> never runs into undefined behaviour and always
  returns; it makes at most one substitution more than the subject has characters and never more than the limit;
  and replacing every match by itself (\<open>%0\<close>) gives back exactly the subject, whatever the pattern.\<close>

theorem gsub_conservative:
  assumes "length s < 2 ^ 31" "\<forall>r vs w. clean (ask r vs w) (\<lambda>_. True)"
  shows "clean (str_gsub ask used s pat repl max_s w) (\<lambda>(vs, w'). \<exists>x n. vs = [PString x, PInt n] \<and> 0 \<le> n
    \<and> n \<le> int (length s) + 1 \<and> (n = 0 \<or> n \<le> opt (int (length s) + 1) max_s) \<and> (repl = ReplString ''%0'' \<longrightarrow> x = s \<and> w' = w))"
proof -
  have "char_at pat 0 = CHR ''^'' \<Longrightarrow> 0 < length pat" by (rule char_at_less) simp
  then have p: "(if char_at pat 0 = CHR ''^'' then 1 else 0) \<le> length pat" by (simp add: Suc_le_eq)
  have a: "asks_clean ask" using assms(2) by (simp add: asks_clean_def)
  show ?thesis unfolding str_gsub_def Let_def
    by (rule clean_bind[OF gsub_loop_spec[OF p a ready_init[OF assms(1)]]]) (auto split: prod.splits)
qed

theorem gsub_conservative_witness:
  "str_gsub (\<lambda>r vs w. Inr (AFalse, w)) 3 ''abab'' ''a(b)'' (ReplString ''%0'') None () = Inr ([PString ''abab'', PInt 2], ())"
proof -
  have "\<exists>x. str_gsub (\<lambda>r vs w. Inr (AFalse, w)) 3 ''abab'' ''a(b)'' (ReplString ''%0'') None () = Inr ([PString x, PInt 2], ())"
    by (rule exI[of _ "''abab''"]) code_simp
  then show ?thesis
    using gsub_conservative[of "''abab''" "\<lambda>r vs w. Inr (AFalse, w)" 3 "''a(b)''" "ReplString ''%0''" None "()"] by auto
qed

text \<open>C27. Iteration with \<open>gmatch\<close> comes to an end: a generic \<open>for\<close> over a subject calls the iterator at most one time
  more than the subject has characters and one final time, each round hands out at least one value, and unless a round
  raises an error the loop is left; empty matches do not hold it in place.\<close>

theorem gmatch_ends:
  assumes "length s < 2 ^ 31"
  shows "clean (gmatch_rounds (length s + 2) used s p (snd (snd (gmatch s p)))) (\<lambda>rounds. length rounds \<le> length s + 1)"
  using gmatch_rounds_clean[OF assms, of 0 "length s + 2" used p] by (auto simp: gmatch_def elim: clean_mono)

theorem gmatch_ends_witness:
  "clean (gmatch_rounds (length ''a b'' + 2) 2 ''a b'' ''%a*'' 0) (\<lambda>rounds. length rounds \<le> length ''a b'' + 1)"
proof -
  have l: "length ''a b'' < 2 ^ 31" by simp
  show ?thesis by (rule gmatch_ends[OF l, of 2 "''%a*''", unfolded gmatch_def snd_conv])
qed


lemma fits_1: "dbl_fits 0 (2 ^ 31 - 1) (cast_num 1)"
  by (simp add: dbl_fits_cast_num)

lemma echo_fits: "sprintf_fits (\<lambda>form v. form)"
  by (simp add: sprintf_fits_def MAX_FORMAT_def MAX_ITEM_def FLAGS_def LUA_INTFRMLEN_def)


text \<open>C29. \<open>string.byte\<close> and \<open>string.char\<close> are inverse: the bytes of a whole string, taken from position 1 to -1, are its
  characters' codes in order, and making a string of them gives the string back.\<close>

theorem byte_char_roundtrip:
  assumes "int used + int (length s) \<le> 8000"
  shows "str_byte used s (Some 1) (Some (- 1)) = Inr (map (\<lambda>c. PInt (int (code c))) s)
    \<and> str_char (map (\<lambda>c. int (code c)) s) = Inr [PString s]"
proof -
  have p: "posrelat 1 n = 1" "posrelat (- 1) n = int n" for n by (simp_all add: posrelat_def)
  have "str_byte used s (Some 1) (Some (- 1)) = Inr (map (\<lambda>c. PInt (int (code c))) s)"
  proof (cases "s = []")
    case False
    have "sint (word_of_int (1 + int (length s)) :: 32 word) = 1 + int (length s)"
      using assms by (subst sint_sbintrunc') (simp add: signed_take_bit_int_eq_self)
    then show ?thesis using False assms byte_loop_bytes[of 0 "length s" s]
      by (simp add: str_byte_def opt_def p luaL_checkstack_def LUAI_MAXCSTACK_def Suc_le_eq)
  qed (simp add: str_byte_def opt_def p)
  then show ?thesis by (simp add: str_char_def char_loop_codes)
qed

theorem byte_char_roundtrip_witness: "str_byte 3 ''Lua'' (Some 1) (Some (- 1)) = Inr [PInt 76, PInt 117, PInt 97]"
  using byte_char_roundtrip[of 3 "''Lua''"] by simp

text \<open>The conversions \<open>%o\<close>, \<open>%u\<close>, \<open>%x\<close> and \<open>%X\<close> cast the number to an unsigned type, which C leaves undefined
  for a negative number.\<close>

lemma format_negative_undefined:
  "str_format sprintf (\<lambda>n. Inr (cast_num (- 1))) chars ''%x'' = Inl Undef"
proof -
  have "scanformat ''%x'' 1 = Inr (1, ''%x'')" "addintlen ''%x'' = Inr ''%lx''" "rd ''%x'' 1 = Inr (CHR ''x'')"
    "rd ''%x'' (0 + 1) = Inr (CHR ''x'')" by code_simp+
  moreover have "\<not> dbl_fits 0 4294967295 (cast_num (- 1))" using dbl_fits_cast_num[of "- 1" 0 4294967295] by simp
  ultimately show ?thesis
    by (simp add: str_format_def format_loop.simps[of _ _ _ "''%x''" 0] format_item_def cast_to_def L_ESC_def)
qed

end
