(* ===== verification/LuaState.thy ===== *)
theory LuaState
  imports CodeCheck TableMap
begin

text \<open>
  The state of a Lua thread (\<open>lstate.h\<close>), the values it reaches on the heap, upvalues
  (\<open>lfunc.c\<close>) and tag methods (\<open>ltm.c\<close>). A pointer into the stack (\<open>StkId\<close>) is an index,
  \<open>savedpc\<close> an index into the code of the running function. The heap has one map for each kind of object;
  objects are never collected here, and the debug hooks are not set. \<open>L->ci\<close> is the head of a list
  that goes down to \<open>base_ci\<close>. \<open>tv_limit\<close> is the length of the longest vector of values that the allocator
  (\<open>frealloc\<close>) grants. There is always someone to catch an error (\<open>errorJmp\<close>).
\<close>

subsection \<open>Functions, upvalues, userdata\<close>

datatype Closure =
    CClosure (c_env: addr) (c_f: addr) (c_upvalue: "TValue list")
  | LClosure (c_env: addr) (l_p: Proto) (l_upvals: "addr list")

definition isC :: "Closure \<Rightarrow> bool" where
  "isC cl = (case cl of CClosure _ _ _ \<Rightarrow> True | LClosure _ _ _ \<Rightarrow> False)"

text \<open>Where \<open>uv->v\<close> points: to a slot of the stack, or to the value in the upvalue itself.\<close>

datatype UpVal = UOpen int | UClosed TValue

record Udata =
  u_metatable :: addr
  u_env :: addr
  u_len :: nat

subsection \<open>Calls and threads\<close>

record CallInfo =
  ci_base :: int
  ci_func :: int
  ci_top :: int
  ci_savedpc :: int
  ci_nresults :: int
  ci_tailcalls :: int

definition LUAI_MAXCALLS :: int where "LUAI_MAXCALLS = 20000"
definition EXTRA_STACK :: int where "EXTRA_STACK = 5"

definition LUA_ERRRUN :: int where "LUA_ERRRUN = 2"
definition LUA_ERRSYNTAX :: int where "LUA_ERRSYNTAX = 3"
definition LUA_ERRMEM :: int where "LUA_ERRMEM = 4"
definition LUA_ERRERR :: int where "LUA_ERRERR = 5"

record lua_State =
  stack :: "TValue list"
  l_top :: int
  l_base :: int
  l_ci :: "CallInfo list"
  savedpc :: int
  size_ci :: int
  nCcalls :: int
  openupval :: "addr list"
  errfunc :: int
  l_G :: gstate
  l_mt :: "addr list"
  tmname :: "TString list"
  uvhead :: "addr list"
  tables :: "addr \<Rightarrow> Table option"
  closures :: "addr \<Rightarrow> Closure option"
  upvals :: "addr \<Rightarrow> UpVal option"
  udatas :: "addr \<Rightarrow> Udata option"
  tv_limit :: nat

definition stacksize :: "lua_State \<Rightarrow> int" where
  "stacksize L = int (length (stack L))"

definition stack_last :: "lua_State \<Rightarrow> int" where
  "stack_last L = stacksize L - EXTRA_STACK - 1"

subsection \<open>Running\<close>

text \<open>
  How a piece of the interpreter can leave other than by returning: by \<open>luaD_throw\<close> with an error
  code, by undefined behaviour of C, or not at all (\<open>Looping\<close>). The state goes with it.
\<close>

datatype vm_exit = Thrown int | Undefined | Looping

type_synonym 'a exec = "lua_State \<Rightarrow> (vm_exit \<times> lua_State) + ('a \<times> lua_State)"

definition ret :: "'a \<Rightarrow> 'a exec" where
  "ret x = (\<lambda>L. Inr (x, L))"

definition leave :: "vm_exit \<Rightarrow> 'a exec" where
  "leave e = (\<lambda>L. Inl (e, L))"

definition bindX :: "'a exec \<Rightarrow> ('a \<Rightarrow> 'b exec) \<Rightarrow> 'b exec" where
  "bindX m f = (\<lambda>L. case m L of Inl e \<Rightarrow> Inl e | Inr (x, L') \<Rightarrow> f x L')"

abbreviation thenX :: "'a exec \<Rightarrow> 'b exec \<Rightarrow> 'b exec" where
  "thenX m k \<equiv> bindX m (\<lambda>_. k)"

definition get :: "(lua_State \<Rightarrow> 'a) \<Rightarrow> 'a exec" where
  "get f = (\<lambda>L. Inr (f L, L))"

definition modify :: "(lua_State \<Rightarrow> lua_State) \<Rightarrow> unit exec" where
  "modify f = (\<lambda>L. Inr ((), f L))"

definition defined :: "bool \<Rightarrow> unit exec" where
  "defined b = (if b then ret () else leave Undefined)"

definition the_def :: "'a option \<Rightarrow> 'a exec" where
  "the_def r = (case r of None \<Rightarrow> leave Undefined | Some x \<Rightarrow> ret x)"

definition luaD_throw :: "int \<Rightarrow> 'a exec" where
  "luaD_throw errcode = leave (Thrown errcode)"

text \<open>The allocator's answer to the request for a vector of \<open>n\<close> values.\<close>

definition granted :: "nat \<Rightarrow> unit exec" where
  "granted n = bindX (get tv_limit) (\<lambda>k. if n \<le> k then ret () else luaD_throw LUA_ERRMEM)"

subsection \<open>The stack\<close>

definition get_s :: "int \<Rightarrow> TValue exec" where
  "get_s i = (\<lambda>L. if 0 \<le> i \<and> i < stacksize L then Inr (stack L ! nat i, L) else Inl (Undefined, L))"

definition set_s :: "int \<Rightarrow> TValue \<Rightarrow> unit exec" where
  "set_s i v = (\<lambda>L. if 0 \<le> i \<and> i < stacksize L then Inr ((), L\<lparr>stack := (stack L)[nat i := v]\<rparr>)
                     else Inl (Undefined, L))"

definition set_top :: "int \<Rightarrow> unit exec" where
  "set_top i = modify (\<lambda>L. L\<lparr>l_top := i\<rparr>)"

text \<open>\<open>setobjs2s\<close>\<close>

definition copy_s :: "int \<Rightarrow> int \<Rightarrow> unit exec" where
  "copy_s to src = bindX (get_s src) (set_s to)"

text \<open>The new part of a grown stack is not initialised in the code; here it is nil.\<close>

definition luaD_reallocstack :: "int \<Rightarrow> unit exec" where
  "luaD_reallocstack newsize = (let realsize = newsize + 1 + EXTRA_STACK
     in thenX (granted (nat realsize)) (modify (\<lambda>L. L\<lparr>stack :=
          take (nat realsize) (stack L) @ replicate (nat (realsize - stacksize L)) LNil\<rparr>)))"

definition luaD_growstack :: "int \<Rightarrow> unit exec" where
  "luaD_growstack n = bindX (get stacksize) (\<lambda>s.
     if n \<le> s then luaD_reallocstack (2 * s) else luaD_reallocstack (s + n))"

definition luaD_checkstack :: "int \<Rightarrow> unit exec" where
  "luaD_checkstack n = bindX (get (\<lambda>L. stack_last L - l_top L)) (\<lambda>room.
     if room \<le> n then luaD_growstack n else ret ())"

definition incr_top :: "unit exec" where
  "incr_top = thenX (luaD_checkstack 1) (modify (\<lambda>L. L\<lparr>l_top := l_top L + 1\<rparr>))"

text \<open>A \<open>TValue *\<close>: to a slot of the stack, or to a value elsewhere (a constant, a field of a table,
  a local variable of the C function).\<close>

datatype operand = OStack int | OVal TValue

definition deref :: "operand \<Rightarrow> TValue exec" where
  "deref p = (case p of OStack i \<Rightarrow> get_s i | OVal v \<Rightarrow> ret v)"

subsection \<open>The heap\<close>

definition get_table :: "addr \<Rightarrow> Table exec" where
  "get_table h = bindX (get (\<lambda>L. tables L h)) the_def"

definition put_table :: "addr \<Rightarrow> Table \<Rightarrow> unit exec" where
  "put_table h t = modify (\<lambda>L. L\<lparr>tables := (tables L)(h \<mapsto> t)\<rparr>)"

definition get_closure :: "addr \<Rightarrow> Closure exec" where
  "get_closure a = bindX (get (\<lambda>L. closures L a)) the_def"

definition get_upval :: "addr \<Rightarrow> UpVal exec" where
  "get_upval a = bindX (get (\<lambda>L. upvals L a)) the_def"

definition get_udata :: "addr \<Rightarrow> Udata exec" where
  "get_udata a = bindX (get (\<lambda>L. udatas L a)) the_def"

text \<open>\<open>luaM_malloc\<close>: the address of a new object, or \<open>LUA_ERRMEM\<close>.\<close>

definition new_object :: "addr exec" where
  "new_object = (\<lambda>L. case str_alloc (l_G L) of
     (Inl _, g) \<Rightarrow> Inl (Thrown LUA_ERRMEM, L\<lparr>l_G := g\<rparr>)
   | (Inr a, g) \<Rightarrow> Inr (a, L\<lparr>l_G := g\<rparr>))"

subsection \<open>Closures and upvalues (\<open>lfunc.c\<close>)\<close>

text \<open>\<open>luaF_newLclosure\<close> with the assignment of \<open>ncl->l.p\<close> that follows it.\<close>

definition luaF_newLclosure :: "nat \<Rightarrow> addr \<Rightarrow> Proto \<Rightarrow> addr exec" where
  "luaF_newLclosure nelems e p = bindX new_object (\<lambda>a. thenX
     (modify (\<lambda>L. L\<lparr>closures := (closures L)(a \<mapsto> LClosure e p (replicate nelems 0))\<rparr>)) (ret a))"

definition luaF_newCclosure :: "nat \<Rightarrow> addr \<Rightarrow> addr \<Rightarrow> addr exec" where
  "luaF_newCclosure nelems e f = bindX new_object (\<lambda>a. thenX
     (modify (\<lambda>L. L\<lparr>closures := (closures L)(a \<mapsto> CClosure e f (replicate nelems LNil))\<rparr>)) (ret a))"

definition luaF_newupval :: "addr exec" where
  "luaF_newupval = bindX new_object (\<lambda>a. thenX
     (modify (\<lambda>L. L\<lparr>upvals := (upvals L)(a \<mapsto> UClosed LNil)\<rparr>)) (ret a))"

text \<open>The level of an open upvalue; a list of open upvalues is searched while levels are not below
  the one looked for.\<close>

definition upval_level :: "(addr \<Rightarrow> UpVal option) \<Rightarrow> addr \<Rightarrow> int option" where
  "upval_level us a = (case us a of Some (UOpen i) \<Rightarrow> Some i | _ \<Rightarrow> None)"

fun find_open :: "(addr \<Rightarrow> UpVal option) \<Rightarrow> int \<Rightarrow> addr list \<Rightarrow> addr option exec" where
  "find_open us level [] = ret None"
| "find_open us level (p # ps) = bindX (the_def (upval_level us p)) (\<lambda>v.
     if level \<le> v then if v = level then ret (Some p) else find_open us level ps else ret None)"

fun insert_open :: "(addr \<Rightarrow> UpVal option) \<Rightarrow> int \<Rightarrow> addr \<Rightarrow> addr list \<Rightarrow> addr list" where
  "insert_open us level uv [] = [uv]"
| "insert_open us level uv (p # ps) =
     (case upval_level us p of
        Some v \<Rightarrow> if level \<le> v then p # insert_open us level uv ps else uv # p # ps
      | None \<Rightarrow> uv # p # ps)"

definition luaF_findupval :: "int \<Rightarrow> addr exec" where
  "luaF_findupval level = bindX (get (\<lambda>L. (upvals L, openupval L))) (\<lambda>(us, ps).
     bindX (find_open us level ps) (\<lambda>r. case r of
       Some p \<Rightarrow> ret p
     | None \<Rightarrow> bindX new_object (\<lambda>uv. thenX
         (modify (\<lambda>L. L\<lparr>upvals := (upvals L)(uv \<mapsto> UOpen level),
                         openupval := insert_open us level uv ps, uvhead := uv # uvhead L\<rparr>))
         (ret uv))))"

definition unlinkupval :: "addr \<Rightarrow> unit exec" where
  "unlinkupval uv = modify (\<lambda>L. L\<lparr>uvhead := remove1 uv (uvhead L)\<rparr>)"

fun close_upvals :: "int \<Rightarrow> addr list \<Rightarrow> unit exec" where
  "close_upvals level [] = ret ()"
| "close_upvals level (uv # ps) = bindX (get upvals) (\<lambda>us. bindX (the_def (upval_level us uv)) (\<lambda>i.
     if level \<le> i
     then thenX (modify (\<lambda>L. L\<lparr>openupval := ps\<rparr>)) (thenX (unlinkupval uv) (bindX (get_s i) (\<lambda>v. thenX
            (modify (\<lambda>L. L\<lparr>upvals := (upvals L)(uv \<mapsto> UClosed v)\<rparr>)) (close_upvals level ps))))
     else ret ()))"

definition luaF_close :: "int \<Rightarrow> unit exec" where
  "luaF_close level = bindX (get openupval) (close_upvals level)"

text \<open>\<open>*uv->v\<close> and the assignment to it.\<close>

definition read_upval :: "addr \<Rightarrow> TValue exec" where
  "read_upval a = bindX (get_upval a) (\<lambda>uv. case uv of UOpen i \<Rightarrow> get_s i | UClosed v \<Rightarrow> ret v)"

definition write_upval :: "addr \<Rightarrow> TValue \<Rightarrow> unit exec" where
  "write_upval a v = bindX (get_upval a) (\<lambda>uv. case uv of
     UOpen i \<Rightarrow> set_s i v
   | UClosed _ \<Rightarrow> modify (\<lambda>L. L\<lparr>upvals := (upvals L)(a \<mapsto> UClosed v)\<rparr>))"

text \<open>\<open>luaF_getlocalname\<close>: the name of the \<open>n\<close>-th local variable that is active at \<open>pc\<close>.\<close>

fun getlocalname_loop :: "LocVar list \<Rightarrow> int \<Rightarrow> int \<Rightarrow> TString option" where
  "getlocalname_loop [] n pc = None"
| "getlocalname_loop (v # vs) n pc =
     (if startpc v \<le> pc
      then if pc < endpc v
           then if n - 1 = 0 then Some (varname v) else getlocalname_loop vs (n - 1) pc
           else getlocalname_loop vs n pc
      else None)"

definition luaF_getlocalname :: "Proto \<Rightarrow> int \<Rightarrow> int \<Rightarrow> TString option" where
  "luaF_getlocalname f local_number pc = getlocalname_loop (p_locvars f) local_number pc"

subsection \<open>Tag methods (\<open>ltm.c\<close>)\<close>

datatype TMS = TM_INDEX | TM_NEWINDEX | TM_GC | TM_MODE | TM_EQ | TM_ADD | TM_SUB | TM_MUL | TM_DIV
  | TM_MOD | TM_POW | TM_UNM | TM_LEN | TM_LT | TM_LE | TM_CONCAT | TM_CALL

fun tm_num :: "TMS \<Rightarrow> nat" where
  "tm_num TM_INDEX = 0" | "tm_num TM_NEWINDEX = 1" | "tm_num TM_GC = 2" | "tm_num TM_MODE = 3"
| "tm_num TM_EQ = 4" | "tm_num TM_ADD = 5" | "tm_num TM_SUB = 6" | "tm_num TM_MUL = 7"
| "tm_num TM_DIV = 8" | "tm_num TM_MOD = 9" | "tm_num TM_POW = 10" | "tm_num TM_UNM = 11"
| "tm_num TM_LEN = 12" | "tm_num TM_LT = 13" | "tm_num TM_LE = 14" | "tm_num TM_CONCAT = 15"
| "tm_num TM_CALL = 16"

definition TM_N :: nat where "TM_N = 17"

definition luaT_typenames :: "string list" where
  "luaT_typenames = [''nil'', ''boolean'', ''userdata'', ''number'', ''string'', ''table'',
     ''function'', ''userdata'', ''thread'', ''proto'', ''upval'']"

definition luaT_eventname :: "string list" where
  "luaT_eventname = [''__index'', ''__newindex'', ''__gc'', ''__mode'', ''__eq'', ''__add'', ''__sub'',
     ''__mul'', ''__div'', ''__mod'', ''__pow'', ''__unm'', ''__len'', ''__lt'', ''__le'', ''__concat'',
     ''__call'']"

definition name_of :: "'a list \<Rightarrow> nat \<Rightarrow> 'a exec" where
  "name_of xs i = the_def (if i < length xs then Some (xs ! i) else None)"

text \<open>The chains of a table are followed with \<open>luaH_getstr\<close>; a cyclic one would not end.\<close>

definition of_table :: "'a res \<Rightarrow> 'a exec" where
  "of_table r = (case r of Inr x \<Rightarrow> ret x | Inl Diverges \<Rightarrow> leave Looping | Inl _ \<Rightarrow> leave Undefined)"

definition luaT_gettm :: "addr \<Rightarrow> TMS \<Rightarrow> TString \<Rightarrow> TValue option exec" where
  "luaT_gettm events event ename = bindX (get_table events) (\<lambda>t.
     bindX (of_table (luaH_getstr t ename)) (\<lambda>s.
       if slot_val t s = LNil
       then thenX (put_table events (t\<lparr>flags := flags t OR push_bit (tm_num event) 1\<rparr>)) (ret None)
       else ret (Some (slot_val t s))))"

definition fasttm :: "addr \<Rightarrow> TMS \<Rightarrow> TValue option exec" where
  "fasttm et e =
     (if et = 0 then ret None
      else bindX (get_table et) (\<lambda>t.
        if flags t AND push_bit (tm_num e) 1 \<noteq> 0 then ret None
        else bindX (get tmname) (\<lambda>names. bindX (name_of names (tm_num e)) (luaT_gettm et e))))"

definition luaT_gettmbyobj :: "TValue \<Rightarrow> TMS \<Rightarrow> TValue exec" where
  "luaT_gettmbyobj obj event =
     bindX (case obj of
              LTable h \<Rightarrow> bindX (get_table h) (\<lambda>t. ret (metatable t))
            | LUserdata u \<Rightarrow> bindX (get_udata u) (\<lambda>u. ret (u_metatable u))
            | _ \<Rightarrow> bindX (get l_mt) (\<lambda>mts. name_of mts (nat (ttype obj))))
       (\<lambda>mt. if mt \<noteq> 0
             then bindX (get tmname) (\<lambda>names. bindX (name_of names (tm_num event)) (\<lambda>ename.
                    bindX (get_table mt) (\<lambda>t. bindX (of_table (luaH_getstr t ename)) (\<lambda>s.
                      ret (slot_val t s)))))
             else ret LNil)"

end
