(* ===== verification/Calls.thy ===== *)
theory Calls
  imports LuaState
begin

text \<open>
  Errors (\<open>ldebug.c\<close>) and calls (\<open>ldo.c\<close>). \<open>luaD_call\<close> reaches the interpreter loop, which calls back; the
  functions here get the \<open>luaD_call\<close> they use as the argument \<open>call\<close> (function position and number of
  results), and the next theory ties the knot.
\<close>

subsection \<open>The host\<close>

text \<open>
  The C library and the C functions that were given to Lua. \<open>c_function\<close> runs the function at
  an address and returns the number of its results (negative: it yields). \<open>str2number\<close> (\<open>strtod\<close>) and
  \<open>strtoul16\<close> return the value and the number of characters read. \<open>pun\<close> is the number the bits of a
  value's union make when they are read as one without a check of the tag.
\<close>

record vm_env =
  c_function :: "(int \<Rightarrow> int \<Rightarrow> unit exec) \<Rightarrow> addr \<Rightarrow> int exec"
  str2number :: "string \<Rightarrow> lua_Number \<times> nat"
  strtoul16 :: "string \<Rightarrow> u32 \<times> nat"
  number2str :: "lua_Number \<Rightarrow> string"
  numpow :: "lua_Number \<Rightarrow> lua_Number \<Rightarrow> lua_Number"
  strcoll :: "string \<Rightarrow> string \<Rightarrow> int"
  pun :: "TValue \<Rightarrow> lua_Number"

definition nvalue :: "vm_env \<Rightarrow> TValue \<Rightarrow> lua_Number" where
  "nvalue E v = (case v of LNumber n \<Rightarrow> n | _ \<Rightarrow> pun E v)"

subsection \<open>Strings and messages\<close>

text \<open>\<open>luaS_newlstr\<close> in a thread; the only error of its own is lack of memory.\<close>

definition newlstr_x :: "string \<Rightarrow> TString exec" where
  "newlstr_x s = (\<lambda>L. case luaS_newlstr s (l_G L) of
     (Inl _, g) \<Rightarrow> Inl (Thrown LUA_ERRMEM, L\<lparr>l_G := g\<rparr>)
   | (Inr ts, g) \<Rightarrow> Inr (ts, L\<lparr>l_G := g\<rparr>))"

definition pushstr :: "string \<Rightarrow> unit exec" where
  "pushstr s = bindX (newlstr_x s) (\<lambda>ts. bindX (get l_top) (\<lambda>t. thenX (set_s t (LString ts)) incr_top))"

definition ci_closure :: "Closure exec" where
  "ci_closure = bindX (get l_ci) (\<lambda>frs. case frs of
     [] \<Rightarrow> leave Undefined
   | ci # _ \<Rightarrow> bindX (get_s (ci_func ci)) (\<lambda>f. case f of LFunction a \<Rightarrow> get_closure a | _ \<Rightarrow> leave Undefined))"

text \<open>\<open>isLua(L->ci)\<close>, with the prototype.\<close>

definition isLua :: "Proto option exec" where
  "isLua = bindX (get l_ci) (\<lambda>frs. case frs of
     [] \<Rightarrow> leave Undefined
   | ci # _ \<Rightarrow> bindX (get_s (ci_func ci)) (\<lambda>f. case f of
       LFunction a \<Rightarrow> bindX (get_closure a) (\<lambda>cl. ret (case cl of LClosure _ p _ \<Rightarrow> Some p | CClosure _ _ _ \<Rightarrow> None))
     | _ \<Rightarrow> ret None))"

definition save_pc :: "unit exec" where
  "save_pc = modify (\<lambda>L. L\<lparr>l_ci := (case l_ci L of [] \<Rightarrow> [] | ci # frs \<Rightarrow> ci\<lparr>ci_savedpc := savedpc L\<rparr> # frs)\<rparr>)"

text \<open>\<open>currentpc(L, L->ci)\<close> in a Lua function\<close>

definition currentpc :: "int exec" where
  "currentpc = thenX save_pc (get (\<lambda>L. savedpc L - 1))"

definition getline :: "Proto \<Rightarrow> int \<Rightarrow> int exec" where
  "getline p pc =
     (if p_lineinfo p = [] then ret 0
      else thenX (defined (0 \<le> pc \<and> pc < int (length (p_lineinfo p)))) (ret (p_lineinfo p ! nat pc)))"

text \<open>\<open>luaO_chunkid\<close> raises no error: it ends, or it is undefined.\<close>

definition run_res :: "'a res \<Rightarrow> 'a exec" where
  "run_res r = (case r of Inl _ \<Rightarrow> leave Undefined | Inr x \<Rightarrow> ret x)"

definition LUA_IDSIZE :: u32 where "LUA_IDSIZE = 60"

definition quoted :: "string \<Rightarrow> string" where
  "quoted s = [CHR 0x27] @ s @ [CHR 0x27]"

definition addinfo :: "vm_env \<Rightarrow> string \<Rightarrow> unit exec" where
  "addinfo E msg = bindX isLua (\<lambda>r. case r of
     None \<Rightarrow> ret ()
   | Some p \<Rightarrow> bindX currentpc (\<lambda>pc. bindX (getline p pc) (\<lambda>line.
       bindX (run_res (chunk_name LUA_IDSIZE (c_str (ts_str (p_source p))))) (\<lambda>buff.
         pushstr (buff @ '':'' @ number2str E (cast_num line) @ '': '' @ c_str msg)))))"

definition luaG_errormsg :: "(int \<Rightarrow> int \<Rightarrow> unit exec) \<Rightarrow> 'a exec" where
  "luaG_errormsg call = thenX
     (bindX (get errfunc) (\<lambda>ef. if ef = 0 then ret () else bindX (get_s ef) (\<lambda>f.
        case f of
          LFunction _ \<Rightarrow> bindX (get l_top) (\<lambda>t.
            thenX (copy_s t (t - 1)) (thenX (copy_s (t - 1) ef) (thenX incr_top
              (bindX (get l_top) (\<lambda>t'. call (t' - 2) 1)))))
        | _ \<Rightarrow> luaD_throw LUA_ERRERR)))
     (luaD_throw LUA_ERRRUN)"

text \<open>The format and its arguments are the finished message here.\<close>

definition luaG_runerror :: "vm_env \<Rightarrow> (int \<Rightarrow> int \<Rightarrow> unit exec) \<Rightarrow> string \<Rightarrow> 'a exec" where
  "luaG_runerror E call msg = thenX (pushstr msg) (thenX (addinfo E msg) (luaG_errormsg call))"

text \<open>An operation on a table, whose errors are raised here.\<close>

definition lift_res :: "vm_env \<Rightarrow> (int \<Rightarrow> int \<Rightarrow> unit exec) \<Rightarrow> 'a res \<Rightarrow> 'a exec" where
  "lift_res E call r = (case r of
     Inr x \<Rightarrow> ret x
   | Inl (ErrRun msg) \<Rightarrow> luaG_runerror E call msg
   | Inl ErrMem \<Rightarrow> luaD_throw LUA_ERRMEM
   | Inl Diverges \<Rightarrow> leave Looping
   | Inl _ \<Rightarrow> leave Undefined)"

text \<open>\<open>luaH_new\<close> as a step of the machine: the table and its address.\<close>

definition new_table :: "vm_env \<Rightarrow> (int \<Rightarrow> int \<Rightarrow> unit exec) \<Rightarrow> nat \<Rightarrow> nat \<Rightarrow> (addr \<times> Table) exec" where
  "new_table E call narray nhash = thenX (granted narray) (bindX (lift_res E call (luaH_new narray nhash))
     (\<lambda>t. bindX new_object (\<lambda>h. ret (h, t))))"

subsection \<open>Names for the operands of a failed operation\<close>

definition kname :: "Proto \<Rightarrow> int \<Rightarrow> string exec" where
  "kname p c =
     (if ISK c
      then bindX (name_of (p_k p) (nat (INDEXK c))) (\<lambda>v. case v of LString s \<Rightarrow> ret (c_str (ts_str s)) | _ \<Rightarrow> ret ''?'')
      else ret ''?'')"

text \<open>The instruction that last changed a register, by symbolic execution of the code so far; 0 for none.\<close>

definition last_change :: "Proto \<Rightarrow> int \<Rightarrow> int \<Rightarrow> Instruction exec" where
  "last_change p pc stackpos =
     (case symbexec p pc stackpos of
        Inl Diverges \<Rightarrow> leave Looping
      | Inl _ \<Rightarrow> leave Undefined
      | Inr None \<Rightarrow> ret 0
      | Inr (Some i) \<Rightarrow> ret i)"

text \<open>The kind of variable the instruction loads, and its name.\<close>

definition name_loaded :: "Proto \<Rightarrow> Instruction \<Rightarrow> (int \<Rightarrow> (string \<times> string) option exec) \<Rightarrow> (string \<times> string) option exec" where
  "name_loaded p i name_of_register =
     (case decode_op (GET_OPCODE i) of
        Some OP_GETGLOBAL \<Rightarrow> bindX (name_of (p_k p) (nat (GETARG_Bx i))) (\<lambda>v. case v of
          LString s \<Rightarrow> ret (Some (''global'', c_str (ts_str s))) | _ \<Rightarrow> leave Undefined)
      | Some OP_MOVE \<Rightarrow> if GETARG_B i < GETARG_A i then name_of_register (GETARG_B i) else ret None
      | Some OP_GETTABLE \<Rightarrow> bindX (kname p (GETARG_C i)) (\<lambda>nm. ret (Some (''field'', nm)))
      | Some OP_GETUPVAL \<Rightarrow>
          (if p_upvalues p = [] then ret (Some (''upvalue'', ''?''))
           else bindX (name_of (p_upvalues p) (nat (GETARG_B i))) (\<lambda>nm.
                  ret (Some (''upvalue'', c_str (ts_str nm)))))
      | Some OP_SELF \<Rightarrow> bindX (kname p (GETARG_C i)) (\<lambda>nm. ret (Some (''method'', nm)))
      | _ \<Rightarrow> ret None)"

text \<open>
  \<open>getobjname\<close> for the running function. A value that was moved from a lower register is looked for
  there, with as much fuel as there are registers.
\<close>

fun getobjname :: "nat \<Rightarrow> int \<Rightarrow> (string \<times> string) option exec" where
  "getobjname 0 stackpos = leave Looping"
| "getobjname (Suc fuel) stackpos = bindX isLua (\<lambda>r. case r of
     None \<Rightarrow> ret None
   | Some p \<Rightarrow> bindX currentpc (\<lambda>pc. case luaF_getlocalname p (stackpos + 1) pc of
       Some nm \<Rightarrow> ret (Some (''local'', c_str (ts_str nm)))
     | None \<Rightarrow> bindX (last_change p pc stackpos) (\<lambda>i. name_loaded p i (getobjname fuel))))"

definition isinstack :: "CallInfo \<Rightarrow> operand \<Rightarrow> bool" where
  "isinstack ci p = (case p of OStack i \<Rightarrow> ci_base ci \<le> i \<and> i < ci_top ci | OVal _ \<Rightarrow> False)"

definition typename :: "TValue \<Rightarrow> string exec" where
  "typename v = name_of luaT_typenames (nat (ttype v))"

definition luaG_typeerror :: "vm_env \<Rightarrow> (int \<Rightarrow> int \<Rightarrow> unit exec) \<Rightarrow> operand \<Rightarrow> string \<Rightarrow> 'a exec" where
  "luaG_typeerror E call p op = bindX (deref p) (\<lambda>v. bindX (typename v) (\<lambda>t.
     bindX (get l_ci) (\<lambda>frs. case frs of
       [] \<Rightarrow> leave Undefined
     | ci # _ \<Rightarrow> bindX (get l_base) (\<lambda>b.
         bindX (case p of
                  OStack i \<Rightarrow> if isinstack ci p then getobjname (Suc (nat (i - b))) (i - b) else ret None
                | OVal _ \<Rightarrow> ret None)
           (\<lambda>kind. case kind of
              Some (kd, nm) \<Rightarrow> luaG_runerror E call
                (''attempt to '' @ op @ '' '' @ kd @ '' '' @ quoted nm @ '' (a '' @ t @ '' value)'')
            | None \<Rightarrow> luaG_runerror E call (''attempt to '' @ op @ '' a '' @ t @ '' value''))))))"

definition strnum :: "TValue \<Rightarrow> bool" where
  "strnum v = (ttisstring v \<or> ttisnumber v)"

definition luaG_concaterror :: "vm_env \<Rightarrow> (int \<Rightarrow> int \<Rightarrow> unit exec) \<Rightarrow> operand \<Rightarrow> operand \<Rightarrow> 'a exec" where
  "luaG_concaterror E call p1 p2 = bindX (deref p1) (\<lambda>v1.
     luaG_typeerror E call (if strnum v1 then p2 else p1) ''concatenate'')"

definition luaG_ordererror :: "vm_env \<Rightarrow> (int \<Rightarrow> int \<Rightarrow> unit exec) \<Rightarrow> TValue \<Rightarrow> TValue \<Rightarrow> 'a exec" where
  "luaG_ordererror E call p1 p2 = bindX (typename p1) (\<lambda>t1. bindX (typename p2) (\<lambda>t2.
     luaG_runerror E call
       (if t1 ! 2 = t2 ! 2 then ''attempt to compare two '' @ t1 @ '' values''
        else ''attempt to compare '' @ t1 @ '' with '' @ t2)))"

subsection \<open>Call frames\<close>

definition luaD_reallocCI :: "int \<Rightarrow> unit exec" where
  "luaD_reallocCI newsize = modify (\<lambda>L. L\<lparr>size_ci := newsize\<rparr>)"

text \<open>\<open>growCI\<close> and \<open>inc_ci\<close>, up to the step to the next \<open>CallInfo\<close>.\<close>

definition growCI :: "vm_env \<Rightarrow> (int \<Rightarrow> int \<Rightarrow> unit exec) \<Rightarrow> unit exec" where
  "growCI E call = bindX (get size_ci) (\<lambda>n.
     if LUAI_MAXCALLS < n then luaD_throw LUA_ERRERR
     else thenX (luaD_reallocCI (2 * n))
            (if LUAI_MAXCALLS < 2 * n then luaG_runerror E call ''stack overflow'' else ret ()))"

definition inc_ci :: "vm_env \<Rightarrow> (int \<Rightarrow> int \<Rightarrow> unit exec) \<Rightarrow> unit exec" where
  "inc_ci E call = bindX (get (\<lambda>L. int (length (l_ci L)) = size_ci L)) (\<lambda>full.
     if full then growCI E call else ret ())"

definition push_ci :: "CallInfo \<Rightarrow> unit exec" where
  "push_ci ci = modify (\<lambda>L. L\<lparr>l_ci := ci # l_ci L, l_base := ci_base ci\<rparr>)"

fun set_nils :: "nat \<Rightarrow> int \<Rightarrow> unit exec" where
  "set_nils 0 st = ret ()"
| "set_nils (Suc n) st = thenX (set_s st LNil) (set_nils n (st + 1))"

text \<open>\<open>setnilvalue(L->top++)\<close> while an argument is missing\<close>

fun push_nils :: "nat \<Rightarrow> unit exec" where
  "push_nils 0 = ret ()"
| "push_nils (Suc n) = bindX (get l_top) (\<lambda>t. thenX (set_s t LNil) (thenX (set_top (t + 1)) (push_nils n)))"

text \<open>The old-style \<open>arg\<close> table: the extra arguments and their number.\<close>

fun arg_fields :: "vm_env \<Rightarrow> (int \<Rightarrow> int \<Rightarrow> unit exec) \<Rightarrow> nat \<Rightarrow> int \<Rightarrow> int \<Rightarrow> Table \<Rightarrow> Table exec" where
  "arg_fields E call 0 i first t = ret t"
| "arg_fields E call (Suc n) i first t = bindX (lift_res E call (luaH_setnum t (i + 1))) (\<lambda>(s, t').
     bindX (get_s (first + i)) (\<lambda>v. arg_fields E call n (i + 1) first (set_slot t' s v)))"

definition arg_table :: "vm_env \<Rightarrow> (int \<Rightarrow> int \<Rightarrow> unit exec) \<Rightarrow> int \<Rightarrow> addr exec" where
  "arg_table E call nvar = bindX (new_table E call (nat nvar) 1) (\<lambda>(h, t). bindX (get l_top) (\<lambda>tp.
     bindX (arg_fields E call (nat nvar) 0 (tp - nvar) t) (\<lambda>t'. bindX (newlstr_x ''n'') (\<lambda>n.
       bindX (lift_res E call (luaH_setstr t' n)) (\<lambda>(s, t'').
         thenX (put_table h (set_slot t'' s (LNumber (cast_num nvar)))) (ret h))))))"

fun move_fixed :: "nat \<Rightarrow> int \<Rightarrow> unit exec" where
  "move_fixed 0 fixed = ret ()"
| "move_fixed (Suc n) fixed = bindX (get l_top) (\<lambda>t. thenX (copy_s t fixed) (thenX (set_top (t + 1))
     (thenX (set_s fixed LNil) (move_fixed n (fixed + 1)))))"

definition adjust_varargs :: "vm_env \<Rightarrow> (int \<Rightarrow> int \<Rightarrow> unit exec) \<Rightarrow> Proto \<Rightarrow> int \<Rightarrow> int exec" where
  "adjust_varargs E call p actual0 =
     (let nfixargs = uint (p_numparams p); actual = max actual0 nfixargs
      in thenX (push_nils (nat (nfixargs - actual0)))
         (bindX (if p_is_vararg p AND VARARG_NEEDSARG \<noteq> 0
                 then bindX (arg_table E call (actual - nfixargs)) (\<lambda>h. ret (Some h)) else ret None) (\<lambda>htab.
          bindX (get l_top) (\<lambda>base. thenX (move_fixed (nat nfixargs) (base - actual))
            (case htab of
               None \<Rightarrow> ret base
             | Some h \<Rightarrow> bindX (get l_top) (\<lambda>t. thenX (set_s t (LTable h)) (thenX (set_top (t + 1)) (ret base))))))))"

text \<open>The stack from \<open>func\<close> on is moved up by one, from the top down.\<close>

fun shift_up :: "nat \<Rightarrow> int \<Rightarrow> unit exec" where
  "shift_up 0 p = ret ()"
| "shift_up (Suc n) p = thenX (copy_s p (p - 1)) (shift_up n (p - 1))"

definition tryfuncTM :: "vm_env \<Rightarrow> (int \<Rightarrow> int \<Rightarrow> unit exec) \<Rightarrow> int \<Rightarrow> unit exec" where
  "tryfuncTM E call func = bindX (get_s func) (\<lambda>v. bindX (luaT_gettmbyobj v TM_CALL) (\<lambda>tm.
     case tm of
       LFunction _ \<Rightarrow> bindX (get l_top) (\<lambda>t. thenX (shift_up (nat (t - func)) t)
         (thenX incr_top (set_s func tm)))
     | _ \<Rightarrow> luaG_typeerror E call (OStack func) ''call''))"

text \<open>Moving the results down, and filling up with nils.\<close>

fun move_results :: "nat \<Rightarrow> int \<Rightarrow> int \<Rightarrow> int \<Rightarrow> (int \<times> int) exec" where
  "move_results 0 i res first = ret (i, res)"
| "move_results (Suc n) i res first =
     (if i = 0 then ret (i, res) else thenX (copy_s res first) (move_results n (i - 1) (res + 1) (first + 1)))"

definition luaD_poscall :: "int \<Rightarrow> int exec" where
  "luaD_poscall firstResult = bindX (get l_ci) (\<lambda>frs. case frs of
     ci # prev # rest \<Rightarrow>
       thenX (modify (\<lambda>L. L\<lparr>l_ci := prev # rest, l_base := ci_base prev, savedpc := ci_savedpc prev\<rparr>))
       (bindX (get l_top) (\<lambda>t.
        bindX (move_results (nat (t - firstResult)) (ci_nresults ci) (ci_func ci) firstResult) (\<lambda>(i, res).
        thenX (set_nils (nat i) res) (thenX (set_top (res + max 0 i))
          (ret (ci_nresults ci - LUA_MULTRET))))))
   | _ \<Rightarrow> leave Undefined)"

datatype pcr = PCRLUA | PCRC | PCRYIELD

text \<open>\<open>luaD_precall\<close>, for a Lua function and for a C function.\<close>

definition precall_Lua :: "vm_env \<Rightarrow> (int \<Rightarrow> int \<Rightarrow> unit exec) \<Rightarrow> int \<Rightarrow> int \<Rightarrow> Proto \<Rightarrow> pcr exec" where
  "precall_Lua E call func nresults p = thenX (luaD_checkstack (uint (p_maxstacksize p)))
     (bindX (if p_is_vararg p = 0
             then (let base = func + 1; lim = base + uint (p_numparams p)
                   in thenX (modify (\<lambda>L. if lim < l_top L then L\<lparr>l_top := lim\<rparr> else L)) (ret base))
             else bindX (get l_top) (\<lambda>t. adjust_varargs E call p (t - func - 1)))
       (\<lambda>base. thenX (inc_ci E call)
         (let top = base + uint (p_maxstacksize p)
          in thenX (push_ci \<lparr>ci_base = base, ci_func = func, ci_top = top, ci_savedpc = 0,
                             ci_nresults = nresults, ci_tailcalls = 0\<rparr>)
             (thenX (modify (\<lambda>L. L\<lparr>savedpc := 0\<rparr>)) (bindX (get l_top) (\<lambda>st.
              thenX (set_nils (nat (top - st)) st) (thenX (set_top top) (ret PCRLUA))))))))"

definition precall_C :: "vm_env \<Rightarrow> (int \<Rightarrow> int \<Rightarrow> unit exec) \<Rightarrow> int \<Rightarrow> int \<Rightarrow> addr \<Rightarrow> pcr exec" where
  "precall_C E call func nresults f = thenX (luaD_checkstack (int LUA_MINSTACK)) (thenX (inc_ci E call)
     (bindX (get l_top) (\<lambda>t. thenX
       (push_ci \<lparr>ci_base = func + 1, ci_func = func, ci_top = t + int LUA_MINSTACK, ci_savedpc = 0,
                 ci_nresults = nresults, ci_tailcalls = 0\<rparr>)
       (bindX (c_function E call f) (\<lambda>n.
          if n < 0 then ret PCRYIELD
          else bindX (get l_top) (\<lambda>t'. thenX (luaD_poscall (t' - n)) (ret PCRC)))))))"

definition luaD_precall :: "vm_env \<Rightarrow> (int \<Rightarrow> int \<Rightarrow> unit exec) \<Rightarrow> int \<Rightarrow> int \<Rightarrow> pcr exec" where
  "luaD_precall E call func nresults = bindX (get_s func) (\<lambda>v.
     thenX (case v of LFunction _ \<Rightarrow> ret () | _ \<Rightarrow> tryfuncTM E call func) (bindX (get_s func) (\<lambda>f.
       case f of
         LFunction a \<Rightarrow> thenX save_pc (bindX (get_closure a) (\<lambda>cl. case cl of
             LClosure _ p _ \<Rightarrow> precall_Lua E call func nresults p
           | CClosure _ g _ \<Rightarrow> precall_C E call func nresults g))
       | _ \<Rightarrow> leave Undefined)))"

text \<open>\<open>luaD_call\<close>, given the interpreter loop it starts.\<close>

definition luaD_call_by ::
  "vm_env \<Rightarrow> (int \<Rightarrow> int \<Rightarrow> unit exec) \<Rightarrow> (int \<Rightarrow> unit exec) \<Rightarrow> int \<Rightarrow> int \<Rightarrow> unit exec" where
  "luaD_call_by E call execute func nResults =
     thenX (modify (\<lambda>L. L\<lparr>nCcalls := nCcalls L + 1\<rparr>)) (bindX (get nCcalls) (\<lambda>n.
       thenX (if int LUAI_MAXCCALLS \<le> n
              then if n = int LUAI_MAXCCALLS then luaG_runerror E call ''C stack overflow''
                   else if int (LUAI_MAXCCALLS + LUAI_MAXCCALLS div 8) \<le> n then luaD_throw LUA_ERRERR
                   else ret ()
              else ret ())
       (bindX (luaD_precall E call func nResults) (\<lambda>r.
        thenX (if r = PCRLUA then execute 1 else ret ())
          (modify (\<lambda>L. L\<lparr>nCcalls := nCcalls L - 1\<rparr>))))))"

subsection \<open>Protected calls\<close>

definition luaD_seterrorobj :: "int \<Rightarrow> int \<Rightarrow> unit exec" where
  "luaD_seterrorobj errcode oldtop = thenX
     (if errcode = LUA_ERRMEM then bindX (newlstr_x ''not enough memory'') (\<lambda>s. set_s oldtop (LString s))
      else if errcode = LUA_ERRERR then bindX (newlstr_x ''error in error handling'') (\<lambda>s. set_s oldtop (LString s))
      else if errcode = LUA_ERRSYNTAX \<or> errcode = LUA_ERRRUN
      then bindX (get l_top) (\<lambda>t. copy_s oldtop (t - 1))
      else ret ())
     (set_top (oldtop + 1))"

definition restore_stack_limit :: "unit exec" where
  "restore_stack_limit = bindX (get (\<lambda>L. (size_ci L, int (length (l_ci L)) - 1))) (\<lambda>(n, inuse).
     if LUAI_MAXCALLS < n \<and> inuse + 1 < LUAI_MAXCALLS then luaD_reallocCI LUAI_MAXCALLS else ret ())"

text \<open>The status of a protected run, and the state it leaves behind.\<close>

definition luaD_rawrunprotected :: "unit exec \<Rightarrow> int exec" where
  "luaD_rawrunprotected f = (\<lambda>L. case f L of
     Inr (_, L') \<Rightarrow> Inr (0, L')
   | Inl (Thrown status, L') \<Rightarrow> Inr (status, L')
   | Inl (e, L') \<Rightarrow> Inl (e, L'))"

definition luaD_pcall :: "unit exec \<Rightarrow> int \<Rightarrow> int \<Rightarrow> int exec" where
  "luaD_pcall func old_top ef =
     bindX (get (\<lambda>L. (nCcalls L, length (l_ci L), errfunc L))) (\<lambda>(oldnCcalls, old_ci, old_errfunc).
     thenX (modify (\<lambda>L. L\<lparr>errfunc := ef\<rparr>)) (bindX (luaD_rawrunprotected func) (\<lambda>status.
     thenX (if status \<noteq> 0
            then thenX (luaF_close old_top) (thenX (luaD_seterrorobj status old_top)
                 (thenX (modify (\<lambda>L. L\<lparr>nCcalls := oldnCcalls,
                                        l_ci := drop (length (l_ci L) - old_ci) (l_ci L)\<rparr>))
                 (thenX (bindX (get l_ci) (\<lambda>frs. case frs of
                           [] \<Rightarrow> leave Undefined
                         | ci # _ \<Rightarrow> modify (\<lambda>L. L\<lparr>l_base := ci_base ci, savedpc := ci_savedpc ci\<rparr>)))
                    restore_stack_limit)))
            else ret ())
       (thenX (modify (\<lambda>L. L\<lparr>errfunc := old_errfunc\<rparr>)) (ret status)))))"

end
