(* ===== verification/VM.thy ===== *)
theory VM
  imports Calls Patterns
begin

text \<open>
  The virtual machine (\<open>lvm.c\<close>): conversions, table access with tag methods, comparison, concatenation,
  arithmetic, and the interpreter loop. One turn of the loop of \<open>luaV_execute\<close> is \<open>vm_step\<close>; its local
  variables are the closure \<open>cl\<close>, the position \<open>pc\<close> and \<open>nexeccalls\<close>. \<open>luaV_execute\<close> and \<open>luaD_call\<close> run
  with fuel.
\<close>

definition MAXTAGLOOP :: nat where "MAXTAGLOOP = 100"

type_synonym caller = "int \<Rightarrow> int \<Rightarrow> unit exec"

subsection \<open>Conversions\<close>

definition luaO_str2d :: "vm_env \<Rightarrow> string \<Rightarrow> lua_Number option" where
  "luaO_str2d E s0 =
     (let s = c_str s0; (d, n) = str2number E s
      in if n = 0 then None
         else let (d', n') = (if n < length s \<and> (s ! n = CHR ''x'' \<or> s ! n = CHR ''X'')
                              then (let (u, m) = strtoul16 E s in (cast_num (uint u), m)) else (d, n))
              in if dropWhile isspace (drop n' s) = [] then Some d' else None)"

definition luaV_tonumber :: "vm_env \<Rightarrow> TValue \<Rightarrow> lua_Number option" where
  "luaV_tonumber E v = (case v of LNumber n \<Rightarrow> Some n | LString s \<Rightarrow> luaO_str2d E (ts_str s) | _ \<Rightarrow> None)"

text \<open>The macro \<open>tostring\<close> with \<open>luaV_tostring\<close> on a slot of the stack\<close>

definition tostring_at :: "vm_env \<Rightarrow> int \<Rightarrow> bool exec" where
  "tostring_at E p = bindX (get_s p) (\<lambda>v. case v of
     LString _ \<Rightarrow> ret True
   | LNumber n \<Rightarrow> bindX (newlstr_x (number2str E n)) (\<lambda>s. thenX (set_s p (LString s)) (ret True))
   | _ \<Rightarrow> ret False)"

subsection \<open>Calling tag methods\<close>

definition callTMres :: "caller \<Rightarrow> int \<Rightarrow> TValue \<Rightarrow> operand \<Rightarrow> operand \<Rightarrow> unit exec" where
  "callTMres call res f p1 p2 = bindX (get l_top) (\<lambda>t.
     thenX (set_s t f)
     (thenX (bindX (deref p1) (set_s (t + 1)))
     (thenX (bindX (deref p2) (set_s (t + 2)))
     (thenX (luaD_checkstack 3)
     (thenX (set_top (t + 3))
     (thenX (call t 1)
     (bindX (get l_top) (\<lambda>t'. thenX (set_top (t' - 1)) (copy_s res (t' - 1))))))))))"

definition callTM :: "caller \<Rightarrow> TValue \<Rightarrow> operand \<Rightarrow> operand \<Rightarrow> operand \<Rightarrow> unit exec" where
  "callTM call f p1 p2 p3 = bindX (get l_top) (\<lambda>t.
     thenX (set_s t f)
     (thenX (bindX (deref p1) (set_s (t + 1)))
     (thenX (bindX (deref p2) (set_s (t + 2)))
     (thenX (bindX (deref p3) (set_s (t + 3)))
     (thenX (luaD_checkstack 4)
     (thenX (set_top (t + 4)) (call t 0)))))))"

subsection \<open>Table access\<close>

text \<open>One turn of the loop of \<open>luaV_gettable\<close>: the access is done, or goes on with another value.\<close>

definition gettable_turn :: "vm_env \<Rightarrow> caller \<Rightarrow> operand \<Rightarrow> operand \<Rightarrow> int \<Rightarrow> TValue option exec" where
  "gettable_turn E call t key val = bindX (deref t) (\<lambda>tv. bindX (deref key) (\<lambda>k.
     bindX (case tv of
              LTable h \<Rightarrow> bindX (get_table h) (\<lambda>tab. bindX (of_table (luaH_get tab k)) (\<lambda>s.
                if slot_val tab s \<noteq> LNil then ret (Inl (slot_val tab s))
                else bindX (fasttm (metatable tab) TM_INDEX) (\<lambda>tm. case tm of
                       None \<Rightarrow> ret (Inl (slot_val tab s)) | Some f \<Rightarrow> ret (Inr f))))
            | _ \<Rightarrow> bindX (luaT_gettmbyobj tv TM_INDEX) (\<lambda>tm.
                if tm = LNil then luaG_typeerror E call t ''index'' else ret (Inr tm)))
       (\<lambda>r. case r of
          Inl res \<Rightarrow> thenX (set_s val res) (ret None)
        | Inr tm \<Rightarrow> (case tm of
            LFunction _ \<Rightarrow> thenX (callTMres call val tm t key) (ret None)
          | _ \<Rightarrow> ret (Some tm)))))"

fun gettable_loop :: "vm_env \<Rightarrow> caller \<Rightarrow> nat \<Rightarrow> operand \<Rightarrow> operand \<Rightarrow> int \<Rightarrow> unit exec" where
  "gettable_loop E call 0 t key val = luaG_runerror E call ''loop in gettable''"
| "gettable_loop E call (Suc n) t key val = bindX (gettable_turn E call t key val) (\<lambda>r.
     case r of None \<Rightarrow> ret () | Some tm \<Rightarrow> gettable_loop E call n (OVal tm) key val)"

definition luaV_gettable :: "vm_env \<Rightarrow> caller \<Rightarrow> operand \<Rightarrow> operand \<Rightarrow> int \<Rightarrow> unit exec" where
  "luaV_gettable E call t key val = gettable_loop E call MAXTAGLOOP t key val"

definition settable_turn :: "vm_env \<Rightarrow> caller \<Rightarrow> operand \<Rightarrow> operand \<Rightarrow> operand \<Rightarrow> TValue option exec" where
  "settable_turn E call t key val = bindX (deref t) (\<lambda>tv. bindX (deref key) (\<lambda>k.
     bindX (case tv of
              LTable h \<Rightarrow> bindX (get_table h) (\<lambda>tab.
                bindX (lift_res E call (luaH_set tab k)) (\<lambda>(s, tab').
                thenX (put_table h tab')
                (let done = bindX (deref val) (\<lambda>v. bindX (get_table h) (\<lambda>tab2.
                              thenX (put_table h (set_slot tab2 s v)) (ret None)))
                 in if slot_val tab' s \<noteq> LNil then done
                    else bindX (fasttm (metatable tab') TM_NEWINDEX) (\<lambda>tm. case tm of
                           None \<Rightarrow> done | Some f \<Rightarrow> ret (Some f)))))
            | _ \<Rightarrow> bindX (luaT_gettmbyobj tv TM_NEWINDEX) (\<lambda>tm.
                if tm = LNil then luaG_typeerror E call t ''index'' else ret (Some tm)))
       (\<lambda>r. case r of
          None \<Rightarrow> ret None
        | Some tm \<Rightarrow> (case tm of
            LFunction _ \<Rightarrow> thenX (callTM call tm t key val) (ret None)
          | _ \<Rightarrow> ret (Some tm)))))"

fun settable_loop :: "vm_env \<Rightarrow> caller \<Rightarrow> nat \<Rightarrow> operand \<Rightarrow> operand \<Rightarrow> operand \<Rightarrow> unit exec" where
  "settable_loop E call 0 t key val = luaG_runerror E call ''loop in settable''"
| "settable_loop E call (Suc n) t key val = bindX (settable_turn E call t key val) (\<lambda>r.
     case r of None \<Rightarrow> ret () | Some tm \<Rightarrow> settable_loop E call n (OVal tm) key val)"

definition luaV_settable :: "vm_env \<Rightarrow> caller \<Rightarrow> operand \<Rightarrow> operand \<Rightarrow> operand \<Rightarrow> unit exec" where
  "luaV_settable E call t key val = settable_loop E call MAXTAGLOOP t key val"

subsection \<open>Tag methods of binary operations\<close>

definition call_binTM :: "caller \<Rightarrow> operand \<Rightarrow> operand \<Rightarrow> int \<Rightarrow> TMS \<Rightarrow> bool exec" where
  "call_binTM call p1 p2 res event = bindX (deref p1) (\<lambda>v1. bindX (luaT_gettmbyobj v1 event) (\<lambda>tm1.
     bindX (if tm1 = LNil then bindX (deref p2) (\<lambda>v2. luaT_gettmbyobj v2 event) else ret tm1) (\<lambda>tm.
       if tm = LNil then ret False else thenX (callTMres call res tm p1 p2) (ret True))))"

definition get_compTM :: "addr \<Rightarrow> addr \<Rightarrow> TMS \<Rightarrow> TValue option exec" where
  "get_compTM mt1 mt2 event = bindX (fasttm mt1 event) (\<lambda>r1. case r1 of
     None \<Rightarrow> ret None
   | Some tm1 \<Rightarrow> if mt1 = mt2 then ret (Some tm1)
       else bindX (fasttm mt2 event) (\<lambda>r2. case r2 of
              None \<Rightarrow> ret None
            | Some tm2 \<Rightarrow> ret (if luaO_rawequalObj tm1 tm2 then Some tm1 else None)))"

text \<open>\<open>!l_isfalse(L->top)\<close> after a call that leaves its result there\<close>

definition truth_at_top :: "int exec" where
  "truth_at_top = bindX (get l_top) (\<lambda>t. bindX (get_s t) (\<lambda>v. ret (if l_isfalse v then 0 else 1)))"

definition call_orderTM :: "caller \<Rightarrow> operand \<Rightarrow> operand \<Rightarrow> TMS \<Rightarrow> int exec" where
  "call_orderTM call p1 p2 event = bindX (deref p1) (\<lambda>v1. bindX (luaT_gettmbyobj v1 event) (\<lambda>tm1.
     if tm1 = LNil then ret (-1)
     else bindX (deref p2) (\<lambda>v2. bindX (luaT_gettmbyobj v2 event) (\<lambda>tm2.
       if \<not> luaO_rawequalObj tm1 tm2 then ret (-1)
       else bindX (get l_top) (\<lambda>t. thenX (callTMres call t tm1 p1 p2) truth_at_top)))))"

subsection \<open>Comparison\<close>

text \<open>
  Strings are compared piece by piece between their zero characters. A \<open>strcoll\<close> that takes
  pieces of different lengths for equal can make the loop run past the shorter string.
\<close>

function l_strcmp :: "(string \<Rightarrow> string \<Rightarrow> int) \<Rightarrow> string \<Rightarrow> string \<Rightarrow> int res" where
  "l_strcmp coll l r =
     (let temp = coll (c_str l) (c_str r); len = length (c_str l)
      in if temp \<noteq> 0 then Inr temp
         else if len = length r then Inr (if len = length l then 0 else 1)
         else if len = length l then Inr (-1)
         else if length r < len then Inl Undef
         else l_strcmp coll (drop (len + 1) l) (drop (len + 1) r))"
  by pat_completeness auto
termination
proof (relation "measure (\<lambda>(coll, l, r). length l)", goal_cases)
  case (2 coll l r temp len)
  have "length (c_str l) \<le> length l" by (simp add: c_str_def length_takeWhile_le)
  then show ?case using 2 by auto
qed simp

declare l_strcmp.simps [simp del]

definition strcmp_x :: "vm_env \<Rightarrow> TString \<Rightarrow> TString \<Rightarrow> int exec" where
  "strcmp_x E l r = of_table (l_strcmp (strcoll E) (ts_str l) (ts_str r))"

definition truth :: "bool \<Rightarrow> int" where "truth b = (if b then 1 else 0)"

definition luaV_lessthan :: "vm_env \<Rightarrow> caller \<Rightarrow> operand \<Rightarrow> operand \<Rightarrow> int exec" where
  "luaV_lessthan E call l r = bindX (deref l) (\<lambda>vl. bindX (deref r) (\<lambda>vr.
     if ttype vl \<noteq> ttype vr then luaG_ordererror E call vl vr
     else case (vl, vr) of
       (LNumber a, LNumber b) \<Rightarrow> ret (truth (luai_numlt a b))
     | (LString a, LString b) \<Rightarrow> bindX (strcmp_x E a b) (\<lambda>c. ret (truth (c < 0)))
     | _ \<Rightarrow> bindX (call_orderTM call l r TM_LT) (\<lambda>res.
              if res \<noteq> -1 then ret res else luaG_ordererror E call vl vr)))"

definition lessequal :: "vm_env \<Rightarrow> caller \<Rightarrow> operand \<Rightarrow> operand \<Rightarrow> int exec" where
  "lessequal E call l r = bindX (deref l) (\<lambda>vl. bindX (deref r) (\<lambda>vr.
     if ttype vl \<noteq> ttype vr then luaG_ordererror E call vl vr
     else case (vl, vr) of
       (LNumber a, LNumber b) \<Rightarrow> ret (truth (luai_numle a b))
     | (LString a, LString b) \<Rightarrow> bindX (strcmp_x E a b) (\<lambda>c. ret (truth (c \<le> 0)))
     | _ \<Rightarrow> bindX (call_orderTM call l r TM_LE) (\<lambda>res.
              if res \<noteq> -1 then ret res
              else bindX (call_orderTM call r l TM_LT) (\<lambda>res2.
                if res2 \<noteq> -1 then ret (truth (res2 = 0)) else luaG_ordererror E call vl vr))))"

definition luaV_equalval :: "caller \<Rightarrow> operand \<Rightarrow> operand \<Rightarrow> int exec" where
  "luaV_equalval call t1 t2 = bindX (deref t1) (\<lambda>v1. bindX (deref t2) (\<lambda>v2.
     let tagged = (\<lambda>tm. case tm of
           None \<Rightarrow> ret 0
         | Some f \<Rightarrow> bindX (get l_top) (\<lambda>t. thenX (callTMres call t f t1 t2) truth_at_top))
     in case (v1, v2) of
          (LNil, LNil) \<Rightarrow> ret 1
        | (LNumber a, LNumber b) \<Rightarrow> ret (truth (luai_numeq a b))
        | (LBoolean a, LBoolean b) \<Rightarrow> ret (truth (a = b))
        | (LLightUserdata a, LLightUserdata b) \<Rightarrow> ret (truth (a = b))
        | (LUserdata a, LUserdata b) \<Rightarrow>
            (if a = b then ret 1
             else bindX (get_udata a) (\<lambda>ua. bindX (get_udata b) (\<lambda>ub.
                    bindX (get_compTM (u_metatable ua) (u_metatable ub) TM_EQ) tagged)))
        | (LTable a, LTable b) \<Rightarrow>
            (if a = b then ret 1
             else bindX (get_table a) (\<lambda>ta. bindX (get_table b) (\<lambda>tb.
                    bindX (get_compTM (metatable ta) (metatable tb) TM_EQ) tagged)))
        | _ \<Rightarrow> ret (truth (gcvalue v1 = gcvalue v2))))"

definition equalobj :: "caller \<Rightarrow> operand \<Rightarrow> operand \<Rightarrow> int exec" where
  "equalobj call o1 o2 = bindX (deref o1) (\<lambda>v1. bindX (deref o2) (\<lambda>v2.
     if ttype v1 = ttype v2 then luaV_equalval call o1 o2 else ret 0))"

subsection \<open>Concatenation\<close>

text \<open>As many strings and numbers below \<open>tp\<close> as there are, at most \<open>cnt\<close>: their number and total length.\<close>

fun collect_loop :: "vm_env \<Rightarrow> caller \<Rightarrow> nat \<Rightarrow> int \<Rightarrow> int \<Rightarrow> nat \<Rightarrow> (int \<times> nat) exec" where
  "collect_loop E call 0 tp n len = ret (n, len)"
| "collect_loop E call (Suc k) tp n len = bindX (tostring_at E (tp - n - 1)) (\<lambda>b.
     if b then bindX (get_s (tp - n - 1)) (\<lambda>v. case v of
            LString s \<Rightarrow>
              (if int MAX_SIZET - int len \<le> int (ts_len s) then luaG_runerror E call ''string length overflow''
               else collect_loop E call k tp (n + 1) (len + ts_len s))
          | _ \<Rightarrow> leave Undefined)
     else ret (n, len))"

fun copy_strings :: "nat \<Rightarrow> int \<Rightarrow> string exec" where
  "copy_strings 0 tp = ret []"
| "copy_strings (Suc i) tp = bindX (get_s (tp - int (Suc i))) (\<lambda>v. case v of
     LString s \<Rightarrow> bindX (copy_strings i tp) (\<lambda>rest. ret (ts_str s @ rest))
   | _ \<Rightarrow> leave Undefined)"

text \<open>One turn of the loop of \<open>luaV_concat\<close>: the number of operands that were handled.\<close>

definition concat_turn :: "vm_env \<Rightarrow> caller \<Rightarrow> int \<Rightarrow> int \<Rightarrow> int exec" where
  "concat_turn E call cnt last' = bindX (get (\<lambda>L. l_base L + last' + 1)) (\<lambda>tp.
     bindX (get_s (tp - 2)) (\<lambda>v2.
     bindX (if strnum v2 then tostring_at E (tp - 1) else ret False) (\<lambda>b.
     if \<not> b
     then bindX (call_binTM call (OStack (tp - 2)) (OStack (tp - 1)) (tp - 2) TM_CONCAT) (\<lambda>r.
            if r then ret 2 else luaG_concaterror E call (OStack (tp - 2)) (OStack (tp - 1)))
     else bindX (get_s (tp - 1)) (\<lambda>v1. case v1 of
       LString s \<Rightarrow>
         (if ts_len s = 0 then thenX (tostring_at E (tp - 2)) (ret 2)
          else bindX (collect_loop E call (nat (cnt - 1)) tp 1 (ts_len s)) (\<lambda>(n, tl).
               bindX (copy_strings (nat n) tp) (\<lambda>buffer.
               bindX (newlstr_x buffer) (\<lambda>str. thenX (set_s (tp - n) (LString str)) (ret n)))))
     | _ \<Rightarrow> leave Undefined))))"

fun concat_loop :: "nat \<Rightarrow> vm_env \<Rightarrow> caller \<Rightarrow> int \<Rightarrow> int \<Rightarrow> unit exec" where
  "concat_loop 0 E call cnt last' = leave Looping"
| "concat_loop (Suc fuel) E call cnt last' = bindX (concat_turn E call cnt last') (\<lambda>n.
     if 1 < cnt - (n - 1) then concat_loop fuel E call (cnt - (n - 1)) (last' - (n - 1)) else ret ())"

definition luaV_concat :: "vm_env \<Rightarrow> caller \<Rightarrow> int \<Rightarrow> int \<Rightarrow> unit exec" where
  "luaV_concat E call cnt last' = concat_loop (nat cnt) E call cnt last'"

subsection \<open>Arithmetic\<close>

definition arith_num :: "vm_env \<Rightarrow> TMS \<Rightarrow> lua_Number \<Rightarrow> lua_Number \<Rightarrow> lua_Number" where
  "arith_num E tm nb nc =
     (case tm of
        TM_ADD \<Rightarrow> luai_numadd nb nc
      | TM_SUB \<Rightarrow> luai_numsub nb nc
      | TM_MUL \<Rightarrow> luai_nummul nb nc
      | TM_DIV \<Rightarrow> luai_numdiv nb nc
      | TM_MOD \<Rightarrow> luai_nummod nb nc
      | TM_POW \<Rightarrow> numpow E nb nc
      | _ \<Rightarrow> luai_numunm nb)"

definition luaG_aritherror :: "vm_env \<Rightarrow> caller \<Rightarrow> operand \<Rightarrow> operand \<Rightarrow> 'a exec" where
  "luaG_aritherror E call p1 p2 = bindX (deref p1) (\<lambda>v1.
     luaG_typeerror E call (if luaV_tonumber E v1 = None then p1 else p2) ''perform arithmetic on'')"

definition Arith :: "vm_env \<Rightarrow> caller \<Rightarrow> int \<Rightarrow> operand \<Rightarrow> operand \<Rightarrow> TMS \<Rightarrow> unit exec" where
  "Arith E call ra rb rc tm = bindX (deref rb) (\<lambda>b. bindX (deref rc) (\<lambda>c.
     case (luaV_tonumber E b, luaV_tonumber E c) of
       (Some nb, Some nc) \<Rightarrow> set_s ra (LNumber (arith_num E tm nb nc))
     | _ \<Rightarrow> bindX (call_binTM call rb rc ra tm) (\<lambda>r. if r then ret () else luaG_aritherror E call rb rc)))"

end
