(* ===== verification/Execute.thy ===== *)
theory Execute
  imports VM
begin

text \<open>
  The interpreter loop \<open>luaV_execute\<close> (\<open>lvm.c\<close>) and, with it, \<open>luaD_call\<close> (\<open>ldo.c\<close>). \<open>vm_step\<close> is one turn of the loop; its local
  variables are the closure (an address), the position \<open>pc\<close>, which has already been moved
  past the instruction when the opcode is looked at, and \<open>nexeccalls\<close>.
\<close>

datatype vm_result = Continue int | Reentry int | Return_here

definition fetch :: "Proto \<Rightarrow> int \<Rightarrow> Instruction exec" where
  "fetch p pc = (if 0 \<le> pc \<and> pc < p_sizecode p then ret (p_code p ! nat pc) else leave Undefined)"

definition const_k :: "Proto \<Rightarrow> int \<Rightarrow> TValue exec" where
  "const_k p k = (if 0 \<le> k \<and> k < p_sizek p then ret (p_k p ! nat k) else leave Undefined)"

text \<open>\<open>base + n\<close>, and \<open>RKB\<close>, \<open>RKC\<close>\<close>

definition reg :: "int \<Rightarrow> int exec" where
  "reg n = get (\<lambda>L. l_base L + n)"

definition RK :: "Proto \<Rightarrow> int \<Rightarrow> operand exec" where
  "RK p n =
     (if ISK n then bindX (const_k p (INDEXK n)) (\<lambda>v. ret (OVal v))
      else bindX (reg n) (\<lambda>r. ret (OStack r)))"

definition Protect :: "int \<Rightarrow> 'a exec \<Rightarrow> 'a exec" where
  "Protect pc m = thenX (modify (\<lambda>L. L\<lparr>savedpc := pc\<rparr>)) m"

definition go_on :: "int \<Rightarrow> unit exec \<Rightarrow> vm_result exec" where
  "go_on pc m = thenX m (ret (Continue pc))"

text \<open>\<open>if (b) dojump(L, pc, GETARG_sBx(*pc)); pc++\<close>\<close>

definition cond_jump :: "Proto \<Rightarrow> int \<Rightarrow> bool \<Rightarrow> vm_result exec" where
  "cond_jump p pc b =
     (if b then bindX (fetch p pc) (\<lambda>j. ret (Continue (pc + GETARG_sBx j + 1)))
      else ret (Continue (pc + 1)))"

subsection \<open>Loads, upvalues, tables\<close>

definition op_move :: "Proto \<Rightarrow> int \<Rightarrow> Instruction \<Rightarrow> OpCode \<Rightarrow> vm_result exec" where
  "op_move p pc i op = bindX (reg (GETARG_A i)) (\<lambda>ra.
     case op of
       OP_MOVE \<Rightarrow> go_on pc (bindX (reg (GETARG_B i)) (\<lambda>rb. copy_s ra rb))
     | OP_LOADK \<Rightarrow> go_on pc (bindX (const_k p (GETARG_Bx i)) (set_s ra))
     | OP_LOADBOOL \<Rightarrow> thenX (set_s ra (LBoolean (GETARG_B i)))
         (ret (Continue (if GETARG_C i \<noteq> 0 then pc + 1 else pc)))
     | _ \<Rightarrow> go_on pc (bindX (reg (GETARG_B i)) (\<lambda>rb.
              if ra \<le> rb then set_nils (nat (rb - ra + 1)) ra else set_s rb LNil)))"

definition op_upval :: "addr list \<Rightarrow> int \<Rightarrow> Instruction \<Rightarrow> OpCode \<Rightarrow> vm_result exec" where
  "op_upval ups pc i op = bindX (reg (GETARG_A i)) (\<lambda>ra.
     bindX (name_of ups (nat (GETARG_B i))) (\<lambda>uv. go_on pc
       (case op of
          OP_GETUPVAL \<Rightarrow> bindX (read_upval uv) (set_s ra)
        | _ \<Rightarrow> bindX (get_s ra) (write_upval uv))))"

definition op_table :: "vm_env \<Rightarrow> caller \<Rightarrow> addr \<Rightarrow> Proto \<Rightarrow> int \<Rightarrow> Instruction \<Rightarrow> OpCode \<Rightarrow> vm_result exec" where
  "op_table E call env p pc i op = bindX (reg (GETARG_A i)) (\<lambda>ra. go_on pc
     (case op of
        OP_GETGLOBAL \<Rightarrow> bindX (const_k p (GETARG_Bx i)) (\<lambda>k.
          Protect pc (luaV_gettable E call (OVal (LTable env)) (OVal k) ra))
      | OP_GETTABLE \<Rightarrow> bindX (reg (GETARG_B i)) (\<lambda>rb. bindX (RK p (GETARG_C i)) (\<lambda>rc.
          Protect pc (luaV_gettable E call (OStack rb) rc ra)))
      | OP_SETGLOBAL \<Rightarrow> bindX (const_k p (GETARG_Bx i)) (\<lambda>k.
          Protect pc (luaV_settable E call (OVal (LTable env)) (OVal k) (OStack ra)))
      | OP_SETTABLE \<Rightarrow> bindX (RK p (GETARG_B i)) (\<lambda>rb. bindX (RK p (GETARG_C i)) (\<lambda>rc.
          Protect pc (luaV_settable E call (OStack ra) rb rc)))
      | OP_NEWTABLE \<Rightarrow>
          bindX (the_def (luaO_fb2int (GETARG_B i))) (\<lambda>narray.
          bindX (the_def (luaO_fb2int (GETARG_C i))) (\<lambda>nhash.
          bindX (new_table E call (nat narray) (nat nhash)) (\<lambda>(h, t).
            thenX (put_table h t) (Protect pc (set_s ra (LTable h))))))
      | _ \<Rightarrow> bindX (reg (GETARG_B i)) (\<lambda>rb. thenX (copy_s (ra + 1) rb)
          (bindX (RK p (GETARG_C i)) (\<lambda>rc. Protect pc (luaV_gettable E call (OStack rb) rc ra))))))"

subsection \<open>Arithmetic, logic, length, concatenation\<close>

text \<open>\<open>arith_op\<close>: two numbers are combined at once, anything else goes to \<open>Arith\<close>.\<close>

definition arith_op :: "vm_env \<Rightarrow> caller \<Rightarrow> int \<Rightarrow> int \<Rightarrow> operand \<Rightarrow> operand \<Rightarrow> TMS \<Rightarrow> unit exec" where
  "arith_op E call pc ra rb rc tm = bindX (deref rb) (\<lambda>b. bindX (deref rc) (\<lambda>c.
     case (b, c) of
       (LNumber nb, LNumber nc) \<Rightarrow> set_s ra (LNumber (arith_num E tm nb nc))
     | _ \<Rightarrow> Protect pc (Arith E call ra rb rc tm)))"

fun arith_event :: "OpCode \<Rightarrow> TMS" where
  "arith_event OP_ADD = TM_ADD"
| "arith_event OP_SUB = TM_SUB"
| "arith_event OP_MUL = TM_MUL"
| "arith_event OP_DIV = TM_DIV"
| "arith_event OP_MOD = TM_MOD"
| "arith_event OP_POW = TM_POW"
| "arith_event _ = TM_UNM"

definition op_len :: "vm_env \<Rightarrow> caller \<Rightarrow> int \<Rightarrow> int \<Rightarrow> int \<Rightarrow> unit exec" where
  "op_len E call pc ra rb = bindX (get_s rb) (\<lambda>v.
     case v of
       LTable h \<Rightarrow> bindX (get_table h) (\<lambda>t. bindX (of_table (luaH_getn t)) (\<lambda>n.
         set_s ra (LNumber (cast_num (int n)))))
     | LString s \<Rightarrow> set_s ra (LNumber (cast_num (int (ts_len s))))
     | _ \<Rightarrow> Protect pc (bindX (call_binTM call (OStack rb) (OVal LNil) ra TM_LEN) (\<lambda>r.
              if r then ret () else luaG_typeerror E call (OStack rb) ''get length of'')))"

definition op_arith :: "vm_env \<Rightarrow> caller \<Rightarrow> Proto \<Rightarrow> int \<Rightarrow> Instruction \<Rightarrow> OpCode \<Rightarrow> vm_result exec" where
  "op_arith E call p pc i op = bindX (reg (GETARG_A i)) (\<lambda>ra. go_on pc
     (case op of
        OP_UNM \<Rightarrow> bindX (reg (GETARG_B i)) (\<lambda>rb. arith_op E call pc ra (OStack rb) (OStack rb) TM_UNM)
      | OP_NOT \<Rightarrow> bindX (reg (GETARG_B i)) (\<lambda>rb. bindX (get_s rb) (\<lambda>v. set_s ra (LBoolean (truth (l_isfalse v)))))
      | OP_LEN \<Rightarrow> bindX (reg (GETARG_B i)) (\<lambda>rb. op_len E call pc ra rb)
      | OP_CONCAT \<Rightarrow> (let b = GETARG_B i; c = GETARG_C i in
          thenX (Protect pc (luaV_concat E call (c - b + 1) c))
            (bindX (reg (GETARG_A i)) (\<lambda>ra. bindX (reg b) (\<lambda>rb. copy_s ra rb))))
      | _ \<Rightarrow> bindX (RK p (GETARG_B i)) (\<lambda>rb. bindX (RK p (GETARG_C i)) (\<lambda>rc.
          arith_op E call pc ra rb rc (arith_event op)))))"

subsection \<open>Tests and jumps\<close>

definition op_test :: "vm_env \<Rightarrow> caller \<Rightarrow> Proto \<Rightarrow> int \<Rightarrow> Instruction \<Rightarrow> OpCode \<Rightarrow> vm_result exec" where
  "op_test E call p pc i op = bindX (reg (GETARG_A i)) (\<lambda>ra.
     let compare = (\<lambda>f. bindX (RK p (GETARG_B i)) (\<lambda>rb. bindX (RK p (GETARG_C i)) (\<lambda>rc.
           bindX (Protect pc (f rb rc)) (\<lambda>res. cond_jump p pc (res = GETARG_A i)))))
     in case op of
          OP_JMP \<Rightarrow> ret (Continue (pc + GETARG_sBx i))
        | OP_EQ \<Rightarrow> compare (equalobj call)
        | OP_LT \<Rightarrow> compare (luaV_lessthan E call)
        | OP_LE \<Rightarrow> compare (lessequal E call)
        | OP_TEST \<Rightarrow> bindX (get_s ra) (\<lambda>v. cond_jump p pc (truth (l_isfalse v) \<noteq> GETARG_C i))
        | _ \<Rightarrow> bindX (reg (GETARG_B i)) (\<lambda>rb. bindX (get_s rb) (\<lambda>v.
                 if truth (l_isfalse v) \<noteq> GETARG_C i then thenX (set_s ra v) (cond_jump p pc True)
                 else cond_jump p pc False)))"

subsection \<open>Calls and returns\<close>

definition top_to_ci :: "unit exec" where
  "top_to_ci = bindX (get l_ci) (\<lambda>frs. case frs of [] \<Rightarrow> leave Undefined | ci # _ \<Rightarrow> set_top (ci_top ci))"

definition op_call :: "vm_env \<Rightarrow> caller \<Rightarrow> int \<Rightarrow> int \<Rightarrow> Instruction \<Rightarrow> vm_result exec" where
  "op_call E call pc nexeccalls i = bindX (reg (GETARG_A i)) (\<lambda>ra.
     let b = GETARG_B i; nresults = GETARG_C i - 1
     in thenX (if b \<noteq> 0 then set_top (ra + b) else ret ())
        (Protect pc (bindX (luaD_precall E call ra nresults) (\<lambda>r. case r of
           PCRLUA \<Rightarrow> ret (Reentry (nexeccalls + 1))
         | PCRC \<Rightarrow> thenX (if 0 \<le> nresults then top_to_ci else ret ()) (ret (Continue pc))
         | PCRYIELD \<Rightarrow> ret Return_here))))"

text \<open>\<open>for (aux = 0; pfunc+aux < L->top; aux++) setobjs2s(L, func+aux, pfunc+aux)\<close>\<close>

fun move_down :: "nat \<Rightarrow> int \<Rightarrow> int \<Rightarrow> unit exec" where
  "move_down 0 func pfunc = ret ()"
| "move_down (Suc n) func pfunc = thenX (copy_s func pfunc) (move_down n (func + 1) (pfunc + 1))"

definition reuse_frame :: "unit exec" where
  "reuse_frame = bindX (get l_ci) (\<lambda>frs. case frs of
     new # prev # rest \<Rightarrow>
       (let func = ci_func prev; pfunc = ci_func new; base' = func + (ci_base new - pfunc)
        in thenX (bindX (get openupval) (\<lambda>us. if us \<noteq> [] then luaF_close (ci_base prev) else ret ()))
           (bindX (get l_top) (\<lambda>t. let n = nat (t - pfunc)
            in thenX (move_down n func pfunc)
               (modify (\<lambda>L. L\<lparr>l_base := base', l_top := func + int n,
                  l_ci := prev\<lparr>ci_base := base', ci_top := func + int n, ci_savedpc := savedpc L,
                               ci_tailcalls := ci_tailcalls prev + 1\<rparr> # rest\<rparr>)))))
   | _ \<Rightarrow> leave Undefined)"

definition op_tailcall :: "vm_env \<Rightarrow> caller \<Rightarrow> int \<Rightarrow> int \<Rightarrow> Instruction \<Rightarrow> vm_result exec" where
  "op_tailcall E call pc nexeccalls i = bindX (reg (GETARG_A i)) (\<lambda>ra.
     let b = GETARG_B i
     in thenX (if b \<noteq> 0 then set_top (ra + b) else ret ())
        (Protect pc (bindX (luaD_precall E call ra LUA_MULTRET) (\<lambda>r. case r of
           PCRLUA \<Rightarrow> thenX reuse_frame (ret (Reentry nexeccalls))
         | PCRC \<Rightarrow> ret (Continue pc)
         | PCRYIELD \<Rightarrow> ret Return_here))))"

definition op_return :: "int \<Rightarrow> int \<Rightarrow> Instruction \<Rightarrow> vm_result exec" where
  "op_return pc nexeccalls i = bindX (reg (GETARG_A i)) (\<lambda>ra.
     let b = GETARG_B i
     in thenX (if b \<noteq> 0 then set_top (ra + b - 1) else ret ())
        (bindX (get (\<lambda>L. (openupval L, l_base L))) (\<lambda>(us, base). thenX (if us \<noteq> [] then luaF_close base else ret ())
          (Protect pc (bindX (luaD_poscall ra) (\<lambda>b'.
             if nexeccalls - 1 = 0 then ret Return_here
             else thenX (if b' \<noteq> 0 then top_to_ci else ret ()) (ret (Reentry (nexeccalls - 1)))))))))"

subsection \<open>Loops\<close>

text \<open>\<open>OP_FORLOOP\<close> reads its three registers as numbers without looking at their tags.\<close>

definition op_forloop :: "vm_env \<Rightarrow> int \<Rightarrow> Instruction \<Rightarrow> vm_result exec" where
  "op_forloop E pc i = bindX (reg (GETARG_A i)) (\<lambda>ra.
     bindX (get_s (ra + 2)) (\<lambda>vstep. bindX (get_s ra) (\<lambda>vidx. bindX (get_s (ra + 1)) (\<lambda>vlim.
       let step = nvalue E vstep; idx = luai_numadd (nvalue E vidx) step; limit = nvalue E vlim
       in if (if luai_numlt (cast_num 0) step then luai_numle idx limit else luai_numle limit idx)
          then thenX (set_s ra (LNumber idx)) (thenX (set_s (ra + 3) (LNumber idx))
                 (ret (Continue (pc + GETARG_sBx i))))
          else ret (Continue pc)))))"

definition for_number :: "vm_env \<Rightarrow> caller \<Rightarrow> int \<Rightarrow> string \<Rightarrow> lua_Number exec" where
  "for_number E call r what = bindX (get_s r) (\<lambda>v. case luaV_tonumber E v of
     None \<Rightarrow> luaG_runerror E call (quoted ''for'' @ '' '' @ what @ '' must be a number'')
   | Some n \<Rightarrow> thenX (set_s r (LNumber n)) (ret n))"

definition op_forprep :: "vm_env \<Rightarrow> caller \<Rightarrow> int \<Rightarrow> Instruction \<Rightarrow> vm_result exec" where
  "op_forprep E call pc i = bindX (reg (GETARG_A i)) (\<lambda>ra.
     Protect pc (bindX (for_number E call ra ''initial value'') (\<lambda>init.
       bindX (for_number E call (ra + 1) ''limit'') (\<lambda>limit.
       bindX (for_number E call (ra + 2) ''step'') (\<lambda>step.
         thenX (set_s ra (LNumber (luai_numsub init step))) (ret (Continue (pc + GETARG_sBx i))))))))"

definition op_tforloop :: "caller \<Rightarrow> Proto \<Rightarrow> int \<Rightarrow> Instruction \<Rightarrow> vm_result exec" where
  "op_tforloop call p pc i = bindX (reg (GETARG_A i)) (\<lambda>ra.
     thenX (copy_s (ra + 5) (ra + 2))
     (thenX (copy_s (ra + 4) (ra + 1))
     (thenX (copy_s (ra + 3) ra)
     (thenX (set_top (ra + 6))
     (thenX (Protect pc (call (ra + 3) (GETARG_C i)))
     (thenX top_to_ci
     (bindX (reg (GETARG_A i + 3)) (\<lambda>cb. bindX (get_s cb) (\<lambda>v.
        if v \<noteq> LNil then thenX (set_s (cb - 1) v) (cond_jump p pc True) else cond_jump p pc False)))))))))"

subsection \<open>List constructors, closures, varargs\<close>

text \<open>The items \<open>ra+n\<close> down to \<open>ra+1\<close> go to the fields \<open>last'\<close> downwards.\<close>

fun setlist_loop :: "vm_env \<Rightarrow> caller \<Rightarrow> nat \<Rightarrow> addr \<Rightarrow> int \<Rightarrow> int \<Rightarrow> unit exec" where
  "setlist_loop E call 0 h ra last' = ret ()"
| "setlist_loop E call (Suc n) h ra last' = bindX (get_table h) (\<lambda>t.
     bindX (lift_res E call (luaH_setnum t last')) (\<lambda>(s, t'). bindX (get_s (ra + int (Suc n))) (\<lambda>v.
       thenX (put_table h (set_slot t' s v)) (setlist_loop E call n h ra (last' - 1)))))"

text \<open>The index arithmetic is in \<open>int\<close>; an overflow is undefined.\<close>

definition is_int :: "int \<Rightarrow> bool" where
  "is_int x = (- (2 ^ 31) \<le> x \<and> x < 2 ^ 31)"

definition setlist_store :: "vm_env \<Rightarrow> caller \<Rightarrow> nat \<Rightarrow> addr \<Rightarrow> int \<Rightarrow> int \<Rightarrow> int \<Rightarrow> unit exec" where
  "setlist_store E call len h ra c1 n =
     (let last' = c1 * LFIELDS_PER_FLUSH + n
      in thenX (defined (is_int c1 \<and> is_int (c1 * LFIELDS_PER_FLUSH) \<and> is_int last'))
        (thenX (bindX (get_table h) (\<lambda>t.
           if int (sizearray t) < last'
           then thenX (granted (nat last')) (bindX (lift_res E call (luaH_resizearray t (nat last'))) (put_table h))
           else ret ()))
         (setlist_loop E call len h ra last')))"

definition op_setlist :: "vm_env \<Rightarrow> caller \<Rightarrow> Proto \<Rightarrow> int \<Rightarrow> Instruction \<Rightarrow> vm_result exec" where
  "op_setlist E call p pc i = bindX (reg (GETARG_A i)) (\<lambda>ra.
     bindX (if GETARG_B i = 0
            then bindX (get l_top) (\<lambda>t. thenX top_to_ci (ret (t - ra - 1))) else ret (GETARG_B i)) (\<lambda>n.
     bindX (if GETARG_C i = 0 then bindX (fetch p pc) (\<lambda>w. ret (sint w, pc + 1)) else ret (GETARG_C i, pc)) (\<lambda>(c, pc').
     bindX (get_s ra) (\<lambda>v. case v of
       LTable h \<Rightarrow>
         go_on pc' (setlist_store E call (nat n) h ra (c - 1) n)
     | _ \<Rightarrow> ret (Continue pc')))))"

text \<open>The pseudo-instructions after \<open>OP_CLOSURE\<close> name the upvalues of the new closure.\<close>

fun closure_upvals :: "Proto \<Rightarrow> addr list \<Rightarrow> addr \<Rightarrow> nat \<Rightarrow> nat \<Rightarrow> int \<Rightarrow> int exec" where
  "closure_upvals p ups ncl 0 j pc = ret pc"
| "closure_upvals p ups ncl (Suc n) j pc = bindX (fetch p pc) (\<lambda>u.
     bindX (if GET_OPCODE u = op_num OP_GETUPVAL then name_of ups (nat (GETARG_B u))
            else bindX (reg (GETARG_B u)) luaF_findupval) (\<lambda>uv.
     thenX (modify (\<lambda>L. L\<lparr>closures := (closures L)(ncl := map_option
              (\<lambda>cl. case cl of LClosure e q us \<Rightarrow> LClosure e q (us[j := uv]) | _ \<Rightarrow> cl) (closures L ncl))\<rparr>))
       (closure_upvals p ups ncl n (Suc j) (pc + 1))))"

definition op_closure :: "addr \<Rightarrow> Proto \<Rightarrow> addr list \<Rightarrow> int \<Rightarrow> Instruction \<Rightarrow> vm_result exec" where
  "op_closure env p ups pc i = bindX (reg (GETARG_A i)) (\<lambda>ra.
     bindX (name_of (p_p p) (nat (GETARG_Bx i))) (\<lambda>q.
     let nup = unat (p_nups q)
     in bindX (luaF_newLclosure nup env q) (\<lambda>ncl. bindX (closure_upvals p ups ncl nup 0 pc) (\<lambda>pc'.
          go_on pc' (Protect pc' (set_s ra (LFunction ncl)))))))"

text \<open>The extra arguments lie below the base of the frame.\<close>

fun vararg_loop :: "nat \<Rightarrow> int \<Rightarrow> int \<Rightarrow> int \<Rightarrow> int \<Rightarrow> unit exec" where
  "vararg_loop 0 j ra base n = ret ()"
| "vararg_loop (Suc k) j ra base n = thenX
     (if j < n then copy_s (ra + j) (base - n + j) else set_s (ra + j) LNil)
     (vararg_loop k (j + 1) ra base n)"

definition op_vararg :: "Proto \<Rightarrow> int \<Rightarrow> Instruction \<Rightarrow> vm_result exec" where
  "op_vararg p pc i = bindX (reg (GETARG_A i)) (\<lambda>ra. bindX (get l_ci) (\<lambda>frs. case frs of
     [] \<Rightarrow> leave Undefined
   | ci # _ \<Rightarrow>
       (let b = GETARG_B i - 1; n = ci_base ci - ci_func ci - uint (p_numparams p) - 1
        in go_on pc (if b = LUA_MULTRET
             then thenX (Protect pc (luaD_checkstack n)) (thenX (set_top (ra + n))
                    (vararg_loop (nat n) 0 ra (ci_base ci) n))
             else vararg_loop (nat b) 0 ra (ci_base ci) n))))"

subsection \<open>The loop\<close>

definition exec_op :: "vm_env \<Rightarrow> caller \<Rightarrow> addr \<Rightarrow> Proto \<Rightarrow> addr list \<Rightarrow> int \<Rightarrow> int \<Rightarrow> Instruction \<Rightarrow> OpCode
    \<Rightarrow> vm_result exec" where
  "exec_op E call env p ups pc nexeccalls i op =
     (case op of
        OP_MOVE \<Rightarrow> op_move p pc i op | OP_LOADK \<Rightarrow> op_move p pc i op
      | OP_LOADBOOL \<Rightarrow> op_move p pc i op | OP_LOADNIL \<Rightarrow> op_move p pc i op
      | OP_GETUPVAL \<Rightarrow> op_upval ups pc i op | OP_SETUPVAL \<Rightarrow> op_upval ups pc i op
      | OP_GETGLOBAL \<Rightarrow> op_table E call env p pc i op | OP_GETTABLE \<Rightarrow> op_table E call env p pc i op
      | OP_SETGLOBAL \<Rightarrow> op_table E call env p pc i op | OP_SETTABLE \<Rightarrow> op_table E call env p pc i op
      | OP_NEWTABLE \<Rightarrow> op_table E call env p pc i op | OP_SELF \<Rightarrow> op_table E call env p pc i op
      | OP_ADD \<Rightarrow> op_arith E call p pc i op | OP_SUB \<Rightarrow> op_arith E call p pc i op
      | OP_MUL \<Rightarrow> op_arith E call p pc i op | OP_DIV \<Rightarrow> op_arith E call p pc i op
      | OP_MOD \<Rightarrow> op_arith E call p pc i op | OP_POW \<Rightarrow> op_arith E call p pc i op
      | OP_UNM \<Rightarrow> op_arith E call p pc i op | OP_NOT \<Rightarrow> op_arith E call p pc i op
      | OP_LEN \<Rightarrow> op_arith E call p pc i op | OP_CONCAT \<Rightarrow> op_arith E call p pc i op
      | OP_JMP \<Rightarrow> op_test E call p pc i op | OP_EQ \<Rightarrow> op_test E call p pc i op
      | OP_LT \<Rightarrow> op_test E call p pc i op | OP_LE \<Rightarrow> op_test E call p pc i op
      | OP_TEST \<Rightarrow> op_test E call p pc i op | OP_TESTSET \<Rightarrow> op_test E call p pc i op
      | OP_CALL \<Rightarrow> op_call E call pc nexeccalls i
      | OP_TAILCALL \<Rightarrow> op_tailcall E call pc nexeccalls i
      | OP_RETURN \<Rightarrow> op_return pc nexeccalls i
      | OP_FORLOOP \<Rightarrow> op_forloop E pc i
      | OP_FORPREP \<Rightarrow> op_forprep E call pc i
      | OP_TFORLOOP \<Rightarrow> op_tforloop call p pc i
      | OP_SETLIST \<Rightarrow> op_setlist E call p pc i
      | OP_CLOSE \<Rightarrow> go_on pc (bindX (reg (GETARG_A i)) luaF_close)
      | OP_CLOSURE \<Rightarrow> op_closure env p ups pc i
      | OP_VARARG \<Rightarrow> op_vararg p pc i)"

definition vm_step :: "vm_env \<Rightarrow> caller \<Rightarrow> addr \<Rightarrow> int \<Rightarrow> int \<Rightarrow> vm_result exec" where
  "vm_step E call cl pc nexeccalls = bindX (get_closure cl) (\<lambda>c. case c of
     CClosure _ _ _ \<Rightarrow> leave Undefined
   | LClosure env p ups \<Rightarrow> bindX (fetch p pc) (\<lambda>i. case decode_op (GET_OPCODE i) of
       None \<Rightarrow> ret (Continue (pc + 1))
     | Some op \<Rightarrow> exec_op E call env p ups (pc + 1) nexeccalls i op))"

text \<open>\<open>reentry\<close>: the running function is looked up at its place in the stack.\<close>

definition reenter :: "(addr \<times> int) exec" where
  "reenter = bindX (get (\<lambda>L. (l_ci L, savedpc L))) (\<lambda>(frs, pc). case frs of
     [] \<Rightarrow> leave Undefined
   | ci # _ \<Rightarrow> bindX (get_s (ci_func ci)) (\<lambda>f. case f of LFunction a \<Rightarrow> ret (a, pc) | _ \<Rightarrow> leave Undefined))"

fun vm_loop :: "nat \<Rightarrow> vm_env \<Rightarrow> caller \<Rightarrow> addr \<Rightarrow> int \<Rightarrow> int \<Rightarrow> unit exec" where
  "vm_loop 0 E call cl pc nexeccalls = leave Looping"
| "vm_loop (Suc fuel) E call cl pc nexeccalls = bindX (vm_step E call cl pc nexeccalls) (\<lambda>r. case r of
     Continue pc' \<Rightarrow> vm_loop fuel E call cl pc' nexeccalls
   | Reentry n \<Rightarrow> bindX reenter (\<lambda>(cl', pc'). vm_loop fuel E call cl' pc' n)
   | Return_here \<Rightarrow> ret ())"

definition luaV_execute :: "nat \<Rightarrow> vm_env \<Rightarrow> caller \<Rightarrow> int \<Rightarrow> unit exec" where
  "luaV_execute fuel E call nexeccalls = bindX reenter (\<lambda>(cl, pc). vm_loop fuel E call cl pc nexeccalls)"

text \<open>The fuel bounds the depth of the calls from C to Lua and the number of turns of each loop.\<close>

fun luaD_call :: "nat \<Rightarrow> vm_env \<Rightarrow> caller" where
  "luaD_call 0 E func nResults = leave Looping"
| "luaD_call (Suc fuel) E func nResults =
     luaD_call_by E (luaD_call fuel E) (luaV_execute fuel E (luaD_call fuel E)) func nResults"

end
