(* ===== verification/VMState.thy ===== *)
theory VMState
  imports Execute
begin

text \<open>
  Well-formed states of the interpreter: every value refers to an object that is there, strings are
  interned, tables satisfy their invariant, closures have code that the checker accepts, the frames lie in
  order inside the stack. \<open>ok m Q\<close> says that a piece \<open>m\<close> of the interpreter meets no undefined
  behaviour, ends in a state with \<open>Q\<close> when it returns, and in a well-formed one when it throws.
\<close>

subsection \<open>Code the interpreter can trust\<close>

text \<open>
  What the checker leaves open and the compiler keeps to: the skip of \<open>LOADBOOL\<close> is 0 or 1, a tail call passes on all
  results, an open argument list does not start above its arguments, a generic \<open>for\<close> has room for its call,
  the counts of \<open>SETLIST\<close> and \<open>NEWTABLE\<close> are not absurd, a vararg function has few parameters, and
  the registers that closures captured are closed before a call is made at or below them (\<open>closes\<close>).
\<close>

definition instr :: "Proto \<Rightarrow> int \<Rightarrow> Instruction" where
  "instr p pc = p_code p ! nat pc"

definition opcode_at :: "Proto \<Rightarrow> int \<Rightarrow> OpCode \<Rightarrow> bool" where
  "opcode_at p pc op = (0 \<le> pc \<and> pc < p_sizecode p \<and> GET_OPCODE (instr p pc) = op_num op)"

text \<open>An instruction that leaves \<open>L->top\<close> at the end of an open list of values.\<close>

definition producer :: "Proto \<Rightarrow> int \<Rightarrow> bool" where
  "producer p pc = ((opcode_at p pc OP_CALL \<or> opcode_at p pc OP_TAILCALL) \<and> GETARG_C (instr p pc) = 0
     \<or> opcode_at p pc OP_VARARG \<and> GETARG_B (instr p pc) = 0)"

text \<open>
  The register that the closure made at \<open>pc\<close> captures with its \<open>j\<close>-th upvalue.
\<close>

definition captures :: "Proto \<Rightarrow> int \<Rightarrow> int \<Rightarrow> bool" where
  "captures p pc r = (opcode_at p pc OP_CLOSURE \<and>
     (\<exists>j. 0 < j \<and> j \<le> uint (p_nups (p_p p ! nat (GETARG_Bx (instr p pc))))
      \<and> GET_OPCODE (instr p (pc + j)) \<noteq> op_num OP_GETUPVAL \<and> r = GETARG_B (instr p (pc + j))))"

text \<open>
  \<open>h pc\<close> is above all registers that may be captured and not closed when control comes to \<open>pc\<close>.
\<close>

definition closes :: "Proto \<Rightarrow> (int \<Rightarrow> int) \<Rightarrow> bool" where
  "closes p h = (\<forall>pc. 0 \<le> pc \<longrightarrow> pc < p_sizecode p \<longrightarrow>
     0 \<le> h pc \<and> h pc \<le> maxreg p
     \<and> (\<forall>q\<in>vm_next p pc. (if opcode_at p pc OP_CLOSE then min (h pc) (GETARG_A (instr p pc)) else h pc) \<le> h q
          \<and> (\<forall>r. captures p pc r \<longrightarrow> r < h q))
     \<and> (opcode_at p pc OP_CALL \<or> opcode_at p pc OP_TAILCALL \<longrightarrow> h pc \<le> GETARG_A (instr p pc))
     \<and> (opcode_at p pc OP_TFORLOOP \<longrightarrow> h pc \<le> GETARG_A (instr p pc) + 3))"

definition tight_instr :: "Proto \<Rightarrow> int \<Rightarrow> bool" where
  "tight_instr p pc =
     ((opcode_at p pc OP_LOADBOOL \<longrightarrow> GETARG_C (instr p pc) \<le> 1)
      \<and> (opcode_at p pc OP_NEWTABLE \<longrightarrow> luaO_fb2int (GETARG_B (instr p pc)) \<noteq> None
           \<and> (\<exists>n. luaO_fb2int (GETARG_C (instr p pc)) = Some n \<and> n \<le> 2 ^ 26))
      \<and> (opcode_at p pc OP_TAILCALL \<longrightarrow> GETARG_C (instr p pc) = 0)
      \<and> (opcode_at p pc OP_TFORLOOP \<longrightarrow> GETARG_A (instr p pc) + 5 < maxreg p)
      \<and> (opcode_at p pc OP_SETLIST \<and> GETARG_C (instr p pc) = 0 \<longrightarrow>
           1 \<le> sint (instr p (pc + 1)) \<and> sint (instr p (pc + 1)) \<le> 2 ^ 24)
      \<and> ((opcode_at p (pc + 1) OP_CALL \<or> opcode_at p (pc + 1) OP_TAILCALL) \<and> GETARG_B (instr p (pc + 1)) = 0
         \<and> producer p pc \<longrightarrow> GETARG_A (instr p (pc + 1)) < GETARG_A (instr p pc)))"

definition tight :: "Proto \<Rightarrow> bool" where
  "tight p =
     ((\<forall>pc. tight_instr p pc) \<and> (\<exists>h. closes p h)
      \<and> (p_is_vararg p = 0 \<or> uint (p_numparams p) \<le> 3)
      \<and> (p_upvalues p = [] \<or> int (length (p_upvalues p)) = uint (p_nups p)))"

definition const_ok :: "TString set \<Rightarrow> TValue \<Rightarrow> bool" where
  "const_ok I v = (case v of LNil \<Rightarrow> True | LBoolean _ \<Rightarrow> True | LNumber _ \<Rightarrow> True | LString s \<Rightarrow> s \<in> I | _ \<Rightarrow> False)"

fun code_ok :: "TString set \<Rightarrow> Proto \<Rightarrow> bool" where
  "code_ok I (Proto k cd ps li lv uv sc ld lld nups np va ms) =
     (luaG_checkcode (Proto k cd ps li lv uv sc ld lld nups np va ms) = Inr True
      \<and> tight (Proto k cd ps li lv uv sc ld lld nups np va ms)
      \<and> (\<forall>v\<in>set k. const_ok I v) \<and> (\<forall>q\<in>set ps. code_ok I q))"

lemma code_okD:
  assumes "code_ok I p"
  shows "luaG_checkcode p = Inr True" "tight p" "v \<in> set (p_k p) \<Longrightarrow> const_ok I v"
    "q \<in> set (p_p p) \<Longrightarrow> code_ok I q"
  using assms by (cases p; auto)+

lemma code_ok_mono: "code_ok I p \<Longrightarrow> I \<subseteq> J \<Longrightarrow> code_ok J p"
  by (induction I p rule: code_ok.induct) (auto simp: const_ok_def split: TValue.splits)

subsection \<open>Values and objects\<close>

abbreviation strs :: "lua_State \<Rightarrow> TString set" where "strs L \<equiv> interned (l_G L)"

definition closure_ok :: "lua_State \<Rightarrow> Closure \<Rightarrow> bool" where
  "closure_ok L cl = (case cl of
     CClosure _ _ _ \<Rightarrow> True
   | LClosure env p us \<Rightarrow> env \<in> dom (tables L) \<and> code_ok (strs L) p \<and> length us = unat (p_nups p)
       \<and> set us \<subseteq> dom (upvals L))"

definition value_ok :: "lua_State \<Rightarrow> TValue \<Rightarrow> bool" where
  "value_ok L v = (case v of
     LString s \<Rightarrow> s \<in> strs L
   | LTable h \<Rightarrow> h \<in> dom (tables L)
   | LUserdata u \<Rightarrow> u \<in> dom (udatas L)
   | LFunction a \<Rightarrow> (\<exists>cl. closures L a = Some cl \<and> closure_ok L cl)
   | LDeadKey _ \<Rightarrow> False
   | _ \<Rightarrow> True)"

text \<open>
  A closure stays one of the same code: the C function it calls, or the prototype and the upvalues
  it shares with other closures. Its environment may change (\<open>lua_setfenv\<close>), and so may the values a C
  function keeps with it.
\<close>

definition same_code :: "Closure \<Rightarrow> Closure \<Rightarrow> bool" where
  "same_code cl cl' = (case (cl, cl') of
     (CClosure _ f _, CClosure _ f' _) \<Rightarrow> f' = f
   | (LClosure _ p us, LClosure _ p' us') \<Rightarrow> p' = p \<and> us' = us
   | _ \<Rightarrow> False)"

text \<open>The objects of one state are objects of the other.\<close>

definition extends :: "lua_State \<Rightarrow> lua_State \<Rightarrow> bool" where
  "extends L L' = (strs L \<subseteq> strs L' \<and> dom (tables L) \<subseteq> dom (tables L') \<and> dom (udatas L) \<subseteq> dom (udatas L')
     \<and> dom (upvals L) \<subseteq> dom (upvals L')
     \<and> (\<forall>a cl. closures L a = Some cl \<longrightarrow> closure_ok L cl \<longrightarrow>
          (\<exists>cl'. closures L' a = Some cl' \<and> closure_ok L' cl' \<and> same_code cl cl')))"

lemma same_code_refl [simp]: "same_code cl cl"
  by (cases cl) (simp_all add: same_code_def)

lemma same_code_trans: "same_code a b \<Longrightarrow> same_code b c \<Longrightarrow> same_code a c"
  by (cases a; cases b; cases c) (simp_all add: same_code_def)

lemma same_code_simps:
  "same_code (CClosure e f vs) cl \<longleftrightarrow> (\<exists>e' vs'. cl = CClosure e' f vs')"
  "same_code (LClosure e p us) cl \<longleftrightarrow> (\<exists>e'. cl = LClosure e' p us)"
  "same_code cl (LClosure e p us) \<longleftrightarrow> (\<exists>e'. cl = LClosure e' p us)"
  by (cases cl; auto simp: same_code_def)+

lemma closure_ok_mono: "closure_ok L cl \<Longrightarrow> extends L L' \<Longrightarrow> closure_ok L' cl"
  unfolding closure_ok_def extends_def by (cases cl) (simp_all, blast intro: code_ok_mono)

lemma extendsI:
  assumes "strs L \<subseteq> strs L'" "dom (tables L) \<subseteq> dom (tables L')" "dom (udatas L) \<subseteq> dom (udatas L')"
    "dom (upvals L) \<subseteq> dom (upvals L')"
    "\<And>a cl. closures L a = Some cl \<Longrightarrow> closure_ok L cl \<Longrightarrow> closures L' a = Some cl"
  shows "extends L L'"
proof -
  have "closure_ok L' cl" if "closure_ok L cl" for cl
    using that assms(1-4) code_ok_mono[of "strs L" _ "strs L'"]
    by (cases cl) (simp_all add: closure_ok_def, blast)
  then show ?thesis using assms same_code_refl unfolding extends_def by blast
qed

lemma extends_closure:
  "extends L L' \<Longrightarrow> closures L a = Some cl \<Longrightarrow> closure_ok L cl \<Longrightarrow>
   \<exists>cl'. closures L' a = Some cl' \<and> closure_ok L' cl' \<and> same_code cl cl'"
  by (simp add: extends_def)

lemma extends_Lua:
  assumes "extends L L'" "closures L a = Some (LClosure e p us)" "closure_ok L (LClosure e p us)"
  obtains e' where "closures L' a = Some (LClosure e' p us)" "closure_ok L' (LClosure e' p us)"
  using extends_closure[OF assms] that by (auto simp: same_code_simps)

lemma extends_C:
  assumes "extends L L'" "closures L a = Some (CClosure e fn vs)"
  obtains e' vs' where "closures L' a = Some (CClosure e' fn vs')"
  using extends_closure[OF assms] that by (auto simp: same_code_simps closure_ok_def)

lemma value_ok_simps [simp]:
  "value_ok L LNil" "value_ok L (LBoolean b)" "value_ok L (LNumber n)" "value_ok L (LLightUserdata p)"
  "value_ok L (LThread t)" "\<not> value_ok L (LDeadKey a)"
  "value_ok L (LString s) \<longleftrightarrow> s \<in> strs L" "value_ok L (LTable h) \<longleftrightarrow> h \<in> dom (tables L)"
  "value_ok L (LUserdata u) \<longleftrightarrow> u \<in> dom (udatas L)"
  "value_ok L (LFunction a) \<longleftrightarrow> (\<exists>cl. closures L a = Some cl \<and> closure_ok L cl)"
  by (simp_all add: value_ok_def)

lemma value_ok_mono:
  assumes "value_ok L v" "extends L L'" shows "value_ok L' v"
proof (cases v)
  case (LFunction a)
  then obtain cl where cl: "closures L a = Some cl" "closure_ok L cl" using assms(1) by auto
  then show ?thesis using LFunction extends_closure[OF assms(2) cl] by auto
qed (use assms in \<open>auto simp: extends_def\<close>)

lemma extends_refl [simp]: "extends L L" by (rule extendsI) simp_all

lemma extends_trans: "extends L L' \<Longrightarrow> extends L' L'' \<Longrightarrow> extends L L''"
  unfolding extends_def using same_code_trans by (meson order_trans)

definition meta_ok :: "lua_State \<Rightarrow> addr \<Rightarrow> bool" where
  "meta_ok L mt = (mt = 0 \<or> mt \<in> dom (tables L))"

definition table_ok :: "lua_State \<Rightarrow> Table \<Rightarrow> bool" where
  "table_ok L t = (table_wf (strs L) t \<and> (\<forall>k. key_ok (strs L) k \<longrightarrow> value_ok L (lookup t k)) \<and> meta_ok L (metatable t))"

lemma meta_ok_mono: "meta_ok L mt \<Longrightarrow> extends L L' \<Longrightarrow> meta_ok L' mt"
  by (auto simp: meta_ok_def extends_def)

lemma key_ok_mono: "key_ok I k \<Longrightarrow> I \<subseteq> J \<Longrightarrow> key_ok J k"
  by (auto simp: key_ok_def split: TValue.splits)

lemma node_wf_mono: "node_wf I m ns \<Longrightarrow> I \<subseteq> J \<Longrightarrow> node_wf J m ns"
  unfolding node_wf_def using key_ok_mono[of I _ J] by blast

lemma table_wf_mono: "table_wf I t \<Longrightarrow> I \<subseteq> J \<Longrightarrow> inj_on ts_addr J \<Longrightarrow> table_wf J t"
  unfolding table_wf_def table_core_def using node_wf_mono[of I _ _ J] by blast

text \<open>A string that was not there before is no key of the table.\<close>

lemma lookup_new_key:
  assumes "table_wf I t" "I \<subseteq> J" "inj_on ts_addr J" "key_ok J k" "\<not> key_ok I k"
  shows "lookup t k = LNil"
proof -
  obtain s where s: "k = LString s" "s \<in> J" "s \<notin> I"
    using assms(4,5) by (auto simp: key_ok_def split: TValue.splits)
  have na: "\<not> in_array t k" by (simp add: in_array_def arrayindex_def s)
  have "\<not> keq (i_key (nodes t ! i)) k" if i: "keyed (nodes t) i" for i
  proof
    assume e: "keq (i_key (nodes t ! i)) k"
    have k: "key_ok I (i_key (nodes t ! i))"
      by (rule node_wfD(5)[OF table_coreD(9)[OF wf_core[OF assms(1)]] i])
    have "i_key (nodes t ! i) = k"
      using keq_cases[OF e assms(3) key_ok_mono[OF k assms(2)] assms(4)] s by auto
    then show False using k assms(5) by simp
  qed
  then show ?thesis using na nget_none by (auto simp: lookup_def)
qed

lemma table_ok_mono:
  assumes "table_ok L t" "extends L L'" "inj_on ts_addr (strs L')"
  shows "table_ok L' t"
proof -
  have I: "strs L \<subseteq> strs L'" using assms(2) by (simp add: extends_def)
  have "value_ok L' (lookup t k)" if k: "key_ok (strs L') k" for k
  proof (cases "key_ok (strs L) k")
    case True
    then show ?thesis using assms(1) value_ok_mono[OF _ assms(2)] by (simp add: table_ok_def)
  next
    case False
    then have "lookup t k = LNil"
      using lookup_new_key[OF _ I assms(3) k] assms(1) by (simp add: table_ok_def)
    then show ?thesis by (simp add: value_ok_def)
  qed
  then show ?thesis using assms I meta_ok_mono[OF _ assms(2)] table_wf_mono[OF _ I assms(3)] by (simp add: table_ok_def)
qed

subsection \<open>States\<close>

text \<open>The stack slots that open upvalues point to.\<close>

definition levels :: "lua_State \<Rightarrow> int set" where
  "levels L = {i. \<exists>a. upvals L a = Some (UOpen i)}"

text \<open>Frames from the current one down.\<close>

fun frames_ok :: "CallInfo list \<Rightarrow> bool" where
  "frames_ok [] = False"
| "frames_ok [ci] = (0 \<le> ci_func ci \<and> ci_func ci < ci_base ci)"
| "frames_ok (ci # prev # rest) = (ci_base prev \<le> ci_func ci \<and> ci_func ci < ci_base ci \<and> frames_ok (prev # rest))"

definition fresh_objects :: "lua_State \<Rightarrow> bool" where
  "fresh_objects L = (upvals L 0 = None \<and> (\<forall>a\<in>set (allocs (l_G L)). a \<noteq> 0 \<longrightarrow>
     tables L a = None \<and> closures L a = None \<and> upvals L a = None \<and> udatas L a = None))"

definition heap_ok :: "lua_State \<Rightarrow> bool" where
  "heap_ok L =
     (strt_wf (l_G L) \<and> fresh_objects L
      \<and> (\<forall>h t. tables L h = Some t \<longrightarrow> table_ok L t)
      \<and> (\<forall>a e f vs. closures L a = Some (CClosure e f vs) \<longrightarrow> (\<forall>v\<in>set vs. value_ok L v))
      \<and> (\<forall>a v. upvals L a = Some (UClosed v) \<longrightarrow> value_ok L v)
      \<and> (\<forall>u d. udatas L u = Some d \<longrightarrow> meta_ok L (u_metatable d))
      \<and> 9 \<le> length (l_mt L) \<and> (\<forall>mt\<in>set (l_mt L). meta_ok L mt)
      \<and> TM_N \<le> length (tmname L) \<and> set (tmname L) \<subseteq> strs L)"

text \<open>The list of open upvalues has all of them, from the top of the stack down, at most one for a slot.\<close>

definition higher :: "(addr \<Rightarrow> UpVal option) \<Rightarrow> addr \<Rightarrow> addr \<Rightarrow> bool" where
  "higher us a b = (\<exists>i j. us a = Some (UOpen i) \<and> us b = Some (UOpen j) \<and> j < i)"

definition open_list :: "(addr \<Rightarrow> UpVal option) \<Rightarrow> addr list \<Rightarrow> bool" where
  "open_list us ps =
     ((\<forall>a i. us a = Some (UOpen i) \<longrightarrow> a \<in> set ps) \<and> (\<forall>a\<in>set ps. \<exists>i. us a = Some (UOpen i))
      \<and> sorted_wrt (higher us) ps)"

definition stack_ok :: "lua_State \<Rightarrow> bool" where
  "stack_ok L =
     ((\<forall>v\<in>set (stack L). value_ok L v) \<and> tv_limit L \<le> 2 ^ 26
      \<and> (\<forall>i\<in>levels L. 0 \<le> i \<and> i < stacksize L) \<and> open_list (upvals L) (openupval L)
      \<and> EXTRA_STACK < stacksize L \<and> stacksize L \<le> 2 ^ 26 \<and> 0 \<le> errfunc L \<and> errfunc L < stacksize L)"

definition good :: "lua_State \<Rightarrow> bool" where
  "good L =
     (heap_ok L \<and> stack_ok L \<and> frames_ok (l_ci L) \<and> l_base L = ci_base (hd (l_ci L))
      \<and> l_base L \<le> l_top L \<and> l_top L \<le> stack_last L + 2
      \<and> (\<forall>ci\<in>set (l_ci L). ci_func ci \<notin> levels L))"

subsection \<open>What a piece of the interpreter guarantees\<close>

definition ok :: "'a exec \<Rightarrow> ('a \<Rightarrow> lua_State \<Rightarrow> bool) \<Rightarrow> lua_State \<Rightarrow> bool" where
  "ok m Q L = (case m L of
     Inr (x, L') \<Rightarrow> Q x L'
   | Inl (Thrown s, L') \<Rightarrow> good L'
   | Inl (Undefined, L') \<Rightarrow> False
   | Inl (Looping, L') \<Rightarrow> True)"

named_theorems ok_rules

lemma ok_simps [ok_rules]:
  "ok (ret x) Q1 = Q1 x"
  "ok (get f) Q2 L = Q2 (f L) L"
  "ok (modify g) Q3 L = Q3 () (g L)"
  "ok (defined b) Q3 L = (b \<and> Q3 () L)"
  "ok (leave Undefined) Q4 = (\<lambda>L. False)"
  "ok (leave Looping) Q5 = (\<lambda>L. True)"
  "ok (luaD_throw s) Q6 = good"
  "ok (get_s i) Q7 L = (0 \<le> i \<and> i < stacksize L \<and> Q7 (stack L ! nat i) L)"
  "ok (set_s i v) Q3 L = (0 \<le> i \<and> i < stacksize L \<and> Q3 () (L\<lparr>stack := (stack L)[nat i := v]\<rparr>))"
  "ok (set_top i) Q3 L = Q3 () (L\<lparr>l_top := i\<rparr>)"
  by (auto simp: fun_eq_iff ok_def ret_def get_def modify_def defined_def leave_def luaD_throw_def get_s_def set_s_def set_top_def)

lemma ok_bind [ok_rules]: "ok (bindX m f) Q = ok m (\<lambda>x. ok (f x) Q)"
  by (rule ext) (auto simp: ok_def bindX_def split: sum.splits prod.splits vm_exit.splits)

lemma ok_if [ok_rules]: "ok (if b then m else n) Q L = (if b then ok m Q L else ok n Q L)"
  by simp

lemma ok_the_def [ok_rules]: "ok (the_def r) Q L = (\<exists>x. r = Some x \<and> Q x L)"
  by (cases r) (simp_all add: the_def_def ok_simps)

lemma ok_name_of [ok_rules]: "ok (name_of xs i) Q L = (i < length xs \<and> Q (xs ! i) L)"
  by (simp add: name_of_def ok_the_def)

lemma ok_mono: "ok m Q L \<Longrightarrow> (\<And>x L'. Q x L' \<Longrightarrow> R x L') \<Longrightarrow> ok m R L"
  by (auto simp: ok_def split: sum.splits prod.splits vm_exit.splits)

lemma ok_heap [ok_rules]:
  "ok (get_table h) Q1 L = (\<exists>t. tables L h = Some t \<and> Q1 t L)"
  "ok (get_closure a) Q2 L = (\<exists>cl. closures L a = Some cl \<and> Q2 cl L)"
  "ok (get_upval a) Q3 L = (\<exists>u. upvals L a = Some u \<and> Q3 u L)"
  "ok (get_udata a) Q4 L = (\<exists>u. udatas L a = Some u \<and> Q4 u L)"
  "ok (put_table h t) Q5 L = Q5 () (L\<lparr>tables := (tables L)(h \<mapsto> t)\<rparr>)"
  by (simp_all add: get_table_def get_closure_def get_upval_def get_udata_def put_table_def ok_rules)

subsection \<open>What stays as it is\<close>

text \<open>The frames, but for the \<open>savedpc\<close> that the current one stores when it calls.\<close>

definition shape :: "CallInfo \<Rightarrow> int \<times> int \<times> int \<times> int" where
  "shape ci = (ci_base ci, ci_func ci, ci_top ci, ci_nresults ci)"

definition same_frames :: "CallInfo list \<Rightarrow> CallInfo list \<Rightarrow> bool" where
  "same_frames cs ds = (map shape ds = map shape cs \<and> tl ds = tl cs)"

definition keeps :: "lua_State \<Rightarrow> lua_State \<Rightarrow> bool" where
  "keeps L L' = (extends L L' \<and> stacksize L \<le> stacksize L' \<and> same_frames (l_ci L) (l_ci L')
     \<and> ci_savedpc (hd (l_ci L')) \<in> {ci_savedpc (hd (l_ci L)), savedpc L}
     \<and> l_base L' = l_base L \<and> savedpc L' = savedpc L \<and> levels L' \<subseteq> levels L
     \<and> (\<forall>ci\<in>set (l_ci L). stack L' ! nat (ci_func ci) = stack L ! nat (ci_func ci)))"

lemma same_frames_refl [simp]: "same_frames cs cs" by (simp add: same_frames_def)

lemma same_frames_trans: "same_frames cs ds \<Longrightarrow> same_frames ds es \<Longrightarrow> same_frames cs es"
  by (simp add: same_frames_def)

lemma same_frames_fields:
  assumes "same_frames cs ds"
  shows "length ds = length cs" "map ci_func ds = map ci_func cs" "map ci_base ds = map ci_base cs"
    "map ci_top ds = map ci_top cs" "map ci_nresults ds = map ci_nresults cs"
proof -
  have m: "map shape ds = map shape cs" using assms by (simp add: same_frames_def)
  show "length ds = length cs" using m by (metis length_map)
  have "map (fst \<circ> snd) (map shape ds) = map (fst \<circ> snd) (map shape cs)" "map fst (map shape ds) = map fst (map shape cs)"
    "map (fst \<circ> snd \<circ> snd) (map shape ds) = map (fst \<circ> snd \<circ> snd) (map shape cs)"
    "map (snd \<circ> snd \<circ> snd) (map shape ds) = map (snd \<circ> snd \<circ> snd) (map shape cs)" using m by simp_all
  then show "map ci_func ds = map ci_func cs" "map ci_base ds = map ci_base cs" "map ci_top ds = map ci_top cs"
    "map ci_nresults ds = map ci_nresults cs"
    by (simp_all add: shape_def comp_def)
qed

lemma keeps_refl [simp]: "keeps L L" by (simp add: keeps_def)

lemma keeps_trans:
  assumes "keeps L L'" "keeps L' L''" shows "keeps L L''"
proof -
  have f: "map ci_func (l_ci L') = map ci_func (l_ci L)"
    using assms(1) same_frames_fields(2) by (auto simp: keeps_def)
  have "\<exists>ci'\<in>set (l_ci L'). ci_func ci' = ci_func ci" if "ci \<in> set (l_ci L)" for ci
    using that f by (metis (mono_tags, opaque_lifting) imageE image_eqI list.set_map)
  then have "stack L'' ! nat (ci_func ci) = stack L ! nat (ci_func ci)" if "ci \<in> set (l_ci L)" for ci
    using that assms unfolding keeps_def by metis
  then show ?thesis
    using assms extends_trans[of L L' L''] same_frames_trans[of "l_ci L" "l_ci L'" "l_ci L''"]
    by (auto simp: keeps_def)
qed

end
