(* ===== verification/VMHeap.thy ===== *)
theory VMHeap
  imports VMState
begin

text \<open>
  Changes of a well-formed state: to the stack, the string table, the tables, the upvalues and closures; and
  the primitive operations of the interpreter.
\<close>

subsection \<open>Frames\<close>

lemma frames_okD:
  assumes "frames_ok cs" "ci \<in> set cs"
  shows "0 \<le> ci_func ci" "ci_func ci < ci_base ci" "ci_base ci \<le> ci_base (hd cs)" "0 < ci_base (hd cs)"
proof -
  have "\<forall>ci\<in>set cs. 0 \<le> ci_func ci \<and> ci_func ci < ci_base ci \<and> ci_base ci \<le> ci_base (hd cs)"
    using assms(1)
  proof (induction cs rule: frames_ok.induct)
    case (3 ci prev rest)
    then have "\<forall>x\<in>set (prev # rest). 0 \<le> ci_func x \<and> ci_func x < ci_base x \<and> ci_base x \<le> ci_base prev" by simp
    moreover from this have "0 \<le> ci_func prev" "ci_func prev < ci_base prev" by simp_all
    ultimately show ?case using 3(2) by force
  qed auto
  then show "0 \<le> ci_func ci" "ci_func ci < ci_base ci" "ci_base ci \<le> ci_base (hd cs)" "0 < ci_base (hd cs)"
    using assms(2) by fastforce+
qed

lemma frames_ok_func_less:
  assumes "frames_ok cs" "ci \<in> set cs" shows "ci_func ci < ci_base (hd cs)"
  using frames_okD[OF assms] by linarith

lemma goodD:
  assumes "good L"
  shows "heap_ok L" "stack_ok L" "frames_ok (l_ci L)" "l_base L = ci_base (hd (l_ci L))"
    "l_base L \<le> l_top L" "l_top L \<le> stack_last L + 2" "ci \<in> set (l_ci L) \<Longrightarrow> ci_func ci \<notin> levels L"
    "0 < l_base L" "0 < l_top L" "l_top L + 3 < stacksize L"
    "ci \<in> set (l_ci L) \<Longrightarrow> 0 \<le> ci_func ci \<and> ci_func ci < l_base L" "l_ci L \<noteq> []"
proof -
  show g: "heap_ok L" "stack_ok L" "frames_ok (l_ci L)" "l_base L = ci_base (hd (l_ci L))"
    "l_base L \<le> l_top L" "l_top L \<le> stack_last L + 2" "ci \<in> set (l_ci L) \<Longrightarrow> ci_func ci \<notin> levels L"
    using assms by (simp_all add: good_def)
  show n: "l_ci L \<noteq> []" using g(3) by auto
  show b: "0 < l_base L" using frames_okD(4)[OF g(3)] n g(4) by (metis hd_in_set)
  show "0 < l_top L" "l_top L + 3 < stacksize L" using b g(5,6) by (simp_all add: stack_last_def EXTRA_STACK_def)
  show "ci \<in> set (l_ci L) \<Longrightarrow> 0 \<le> ci_func ci \<and> ci_func ci < l_base L"
    using frames_okD(1)[OF g(3)] frames_ok_func_less[OF g(3)] g(4) by simp
qed

lemma heap_okD:
  assumes "heap_ok L"
  shows "strt_wf (l_G L)" "fresh_objects L" "tables L h = Some t \<Longrightarrow> table_ok L t"
    "closures L a = Some (CClosure e f vs) \<Longrightarrow> v \<in> set vs \<Longrightarrow> value_ok L v"
    "upvals L a = Some (UClosed v) \<Longrightarrow> value_ok L v" "udatas L u = Some d \<Longrightarrow> meta_ok L (u_metatable d)"
    "9 \<le> length (l_mt L)" "mt \<in> set (l_mt L) \<Longrightarrow> meta_ok L mt" "TM_N \<le> length (tmname L)"
    "set (tmname L) \<subseteq> strs L"
  using assms unfolding heap_ok_def by blast+

lemma open_listD:
  assumes "open_list us ps"
  shows "us a = Some (UOpen i) \<Longrightarrow> a \<in> set ps" "a \<in> set ps \<Longrightarrow> \<exists>i. us a = Some (UOpen i)"
  using assms unfolding open_list_def by blast+

lemma sorted_higher_cong:
  assumes "sorted_wrt (higher us) ps" "\<And>b. b \<in> set ps \<Longrightarrow> us' b = us b"
  shows "sorted_wrt (higher us') ps"
  by (rule sorted_wrt_mono_rel[OF _ assms(1)]) (simp add: higher_def assms(2))

lemma open_list_cong:
  assumes "open_list us ps" "\<And>b. b \<in> set ps \<Longrightarrow> us' b = us b" "\<And>b i. us' b = Some (UOpen i) \<Longrightarrow> b \<in> set ps"
  shows "open_list us' ps"
  unfolding open_list_def
proof (intro conjI allI impI ballI)
  fix a assume "a \<in> set ps"
  then show "\<exists>i. us' a = Some (UOpen i)" using open_listD(2)[OF assms(1)] assms(2)[of a] by simp
next
  have "sorted_wrt (higher us) ps" using assms(1) by (simp add: open_list_def)
  then show "sorted_wrt (higher us') ps" by (rule sorted_higher_cong) (rule assms(2))
qed (rule assms(3))

lemma open_list_Cons:
  "open_list us (a # ps) \<longleftrightarrow>
     (\<exists>i. us a = Some (UOpen i) \<and> (\<forall>b\<in>set ps. \<exists>j. us b = Some (UOpen j) \<and> j < i)) \<and> a \<notin> set ps
     \<and> open_list (us(a := None)) ps"
  (is "?l \<longleftrightarrow> ?r")
proof
  assume l: ?l
  obtain i where i: "us a = Some (UOpen i)" using l by (auto simp: open_list_def)
  then have less: "\<forall>b\<in>set ps. \<exists>j. us b = Some (UOpen j) \<and> j < i" using l by (auto simp: open_list_def higher_def)
  then have n: "a \<notin> set ps" using i by auto
  have s: "sorted_wrt (higher us) ps" using l by (simp add: open_list_def)
  have "sorted_wrt (higher (us(a := None))) ps" by (rule sorted_higher_cong[OF s]) (use n in auto)
  then show ?r using l i less n by (auto simp: open_list_def)
next
  assume r: ?r
  then have n: "a \<notin> set ps" by blast
  have s: "sorted_wrt (higher (us(a := None))) ps" using r by (simp add: open_list_def)
  have "sorted_wrt (higher us) ps" by (rule sorted_higher_cong[OF s]) (use n in auto)
  moreover obtain i where i: "us a = Some (UOpen i)" "\<forall>b\<in>set ps. \<exists>j. us b = Some (UOpen j) \<and> j < i" using r by blast
  moreover have "b = a \<or> b \<in> set ps" if "us b = Some (UOpen j)" for b j
    using r that open_listD(1)[of "us(a := None)" ps b j] by (cases "b = a") simp_all
  ultimately show ?l by (simp add: open_list_def higher_def) blast
qed

lemma stack_okD:
  assumes "stack_ok L"
  shows "v \<in> set (stack L) \<Longrightarrow> value_ok L v" "tv_limit L \<le> 2 ^ 26" "i \<in> levels L \<Longrightarrow> 0 \<le> i \<and> i < stacksize L"
    "a \<in> set (openupval L) \<Longrightarrow> \<exists>i. upvals L a = Some (UOpen i)" "EXTRA_STACK < stacksize L"
    "stacksize L \<le> 2 ^ 26" "0 \<le> errfunc L" "errfunc L < stacksize L" "open_list (upvals L) (openupval L)"
    "0 \<le> j \<Longrightarrow> j < stacksize L \<Longrightarrow> value_ok L (stack L ! nat j)"
proof -
  have st: "\<forall>v\<in>set (stack L). value_ok L v" using assms by (simp add: stack_ok_def)
  show "v \<in> set (stack L) \<Longrightarrow> value_ok L v" "tv_limit L \<le> 2 ^ 26" "i \<in> levels L \<Longrightarrow> 0 \<le> i \<and> i < stacksize L"
    "EXTRA_STACK < stacksize L" "stacksize L \<le> 2 ^ 26" "0 \<le> errfunc L" "errfunc L < stacksize L"
    "open_list (upvals L) (openupval L)"
    using assms by (simp_all add: stack_ok_def)
  then show "a \<in> set (openupval L) \<Longrightarrow> \<exists>i. upvals L a = Some (UOpen i)" using open_listD(2) by blast
  show "0 \<le> j \<Longrightarrow> j < stacksize L \<Longrightarrow> value_ok L (stack L ! nat j)"
    using st by (simp add: stacksize_def)
qed

lemma good_value: "good L \<Longrightarrow> 0 \<le> j \<Longrightarrow> j < stacksize L \<Longrightarrow> value_ok L (stack L ! nat j)"
  using stack_okD(10) goodD(2) by blast

lemma strs_inj: "heap_ok L \<Longrightarrow> inj_on ts_addr (strs L)"
  using heap_okD(1)[of L] unfolding strt_wf_def interned_def
  by (metis (no_types, lifting) distinct_map inj_on_imageI list.set_map map_map)

subsection \<open>Changes to the heap\<close>

lemma good_heapI:
  assumes g: "good L" and h: "heap_ok L'" and e: "extends L L'"
    and same: "stack L' = stack L" "l_top L' = l_top L" "l_base L' = l_base L" "l_ci L' = l_ci L" "savedpc L' = savedpc L"
      "errfunc L' = errfunc L" "tv_limit L' = tv_limit L"
    and lv: "levels L' \<subseteq> levels L" and op: "open_list (upvals L') (openupval L')"
  shows "good L' \<and> keeps L L'"
proof -
  have "stack_ok L'"
    using goodD(2)[OF g] value_ok_mono[OF _ e] lv op by (auto simp: stack_ok_def same stacksize_def)
  then have "good L'" using g h lv by (auto simp: good_def same stack_last_def stacksize_def)
  then show ?thesis using e lv by (simp add: keeps_def same stacksize_def)
qed

lemma extends_gstate: "strs L \<subseteq> interned g' \<Longrightarrow> extends L (L\<lparr>l_G := g'\<rparr>)"
  by (rule extendsI) simp_all

lemma good_gstate:
  assumes g: "good L" and w: "strt_wf g'" "strs L \<subseteq> interned g'" "set (allocs g') \<subseteq> set (allocs (l_G L))"
  shows "good (L\<lparr>l_G := g'\<rparr>) \<and> keeps L (L\<lparr>l_G := g'\<rparr>)"
proof (rule good_heapI[OF g])
  let ?L = "L\<lparr>l_G := g'\<rparr>"
  note h = goodD(1)[OF g]
  note e = extends_gstate[OF w(2)]
  show "extends L ?L" by (rule e)
  have inj: "inj_on ts_addr (strs ?L)"
    using w(1) unfolding strt_wf_def interned_def
    by (simp, metis (no_types, lifting) distinct_map inj_on_imageI list.set_map map_map)
  show "heap_ok ?L"
    unfolding heap_ok_def
  proof (intro conjI allI impI ballI)
    show "fresh_objects ?L" using heap_okD(2)[OF h] w(3) by (auto simp: fresh_objects_def)
    show "table_ok ?L t" if "tables ?L h = Some t" for h t
      using table_ok_mono[OF heap_okD(3)[OF h] e inj] that by simp
    show "value_ok ?L v" if "closures ?L a = Some (CClosure ev f vs)" "v \<in> set vs" for a ev f vs v
      using value_ok_mono[OF heap_okD(4)[OF h] e] that by simp
    show "value_ok ?L v" if "upvals ?L a = Some (UClosed v)" for a v
      using value_ok_mono[OF heap_okD(5)[OF h] e] that by simp
    show "meta_ok ?L (u_metatable d)" if "udatas ?L u = Some d" for u d
      using meta_ok_mono[OF heap_okD(6)[OF h] e] that by simp
    show "meta_ok ?L mt" if "mt \<in> set (l_mt ?L)" for mt
      using meta_ok_mono[OF heap_okD(8)[OF h] e] that by simp
  qed (use w heap_okD[OF h] in auto)
qed (use stack_okD(9)[OF goodD(2)[OF g]] in \<open>simp_all add: levels_def\<close>)

text \<open>The heap parts of a state that only gets new or changed objects.\<close>

lemma heap_ok_objects:
  assumes h: "heap_ok L" and e: "extends L L'"
    and same: "l_G L' = l_G L" "l_mt L' = l_mt L" "tmname L' = tmname L" "udatas L' = udatas L"
    and t: "\<And>h t. tables L' h = Some t \<Longrightarrow> tables L h = Some t \<or> table_ok L t"
    and c: "\<And>a v f vs. closures L' a = Some (CClosure v f vs) \<Longrightarrow>
        closures L a = Some (CClosure v f vs) \<or> (\<forall>v\<in>set vs. value_ok L v)"
    and u: "\<And>a v. upvals L' a = Some (UClosed v) \<Longrightarrow> upvals L a = Some (UClosed v) \<or> value_ok L v"
    and f: "fresh_objects L'"
  shows "heap_ok L'"
  unfolding heap_ok_def
proof (intro conjI allI impI ballI)
  have inj: "inj_on ts_addr (strs L')" using strs_inj[OF h] by (simp add: same)
  show "table_ok L' t" if "tables L' h = Some t" for h t
    using t[OF that] heap_okD(3)[OF h] table_ok_mono[OF _ e inj] by blast
  show "value_ok L' v" if "closures L' a = Some (CClosure ev f vs)" "v \<in> set vs" for a ev f vs v
    using c[OF that(1)] that(2) heap_okD(4)[OF h] value_ok_mono[OF _ e] by blast
  show "value_ok L' v" if "upvals L' a = Some (UClosed v)" for a v
    using u[OF that] heap_okD(5)[OF h] value_ok_mono[OF _ e] by blast
  show "meta_ok L' (u_metatable d)" if "udatas L' u = Some d" for u d
    using heap_okD(6)[OF h] that meta_ok_mono[OF _ e] by (simp add: same)
  show "meta_ok L' mt" if "mt \<in> set (l_mt L')" for mt
    using heap_okD(8)[OF h] that meta_ok_mono[OF _ e] by (simp add: same)
qed (use f heap_okD[OF h] in \<open>auto simp: same\<close>)

lemma extends_table: "extends L (L\<lparr>tables := (tables L)(h \<mapsto> t)\<rparr>)"
  by (rule extendsI) auto

lemma good_table:
  assumes g: "good L" and t: "table_ok L t" and h: "h \<in> dom (tables L) \<or> h \<notin> set (allocs (l_G L))"
  shows "good (L\<lparr>tables := (tables L)(h \<mapsto> t)\<rparr>) \<and> keeps L (L\<lparr>tables := (tables L)(h \<mapsto> t)\<rparr>)"
proof (rule good_heapI[OF g])
  let ?L = "L\<lparr>tables := (tables L)(h \<mapsto> t)\<rparr>"
  have "fresh_objects ?L" using heap_okD(2)[OF goodD(1)[OF g]] h by (auto simp: fresh_objects_def)
  then show "heap_ok ?L" by (intro heap_ok_objects[OF goodD(1)[OF g] extends_table]) (auto simp: t split: if_splits)
qed (use stack_okD(9)[OF goodD(2)[OF g]] in \<open>simp_all add: levels_def extends_table\<close>)

lemma good_new_upval:
  assumes g: "good L" and a: "a \<noteq> 0" "upvals L a = None" "a \<notin> set (allocs (l_G L))" and v: "value_ok L v"
  shows "good (L\<lparr>upvals := (upvals L)(a \<mapsto> UClosed v)\<rparr>) \<and> keeps L (L\<lparr>upvals := (upvals L)(a \<mapsto> UClosed v)\<rparr>)"
proof (rule good_heapI[OF g])
  let ?L = "L\<lparr>upvals := (upvals L)(a \<mapsto> UClosed v)\<rparr>"
  show e: "extends L ?L" by (rule extendsI) auto
  have "fresh_objects ?L" using heap_okD(2)[OF goodD(1)[OF g]] a by (auto simp: fresh_objects_def)
  then show "heap_ok ?L" by (intro heap_ok_objects[OF goodD(1)[OF g] e]) (auto simp: v split: if_splits)
  note o = stack_okD(9)[OF goodD(2)[OF g]]
  have "open_list ((upvals L)(a \<mapsto> UClosed v)) (openupval L)"
    by (rule open_list_cong[OF o]) (use a open_listD[OF o] in \<open>force split: if_splits\<close>)+
  then show "open_list (upvals ?L) (openupval ?L)" by simp
  show "levels ?L \<subseteq> levels L" by (auto simp: levels_def split: if_splits)
qed simp_all

text \<open>An upvalue of the stack or the heap gets a value of its own.\<close>

lemma good_close_upval:
  assumes g: "good L" and us: "openupval L = a # us" and v: "value_ok L v"
    and L': "L' = L\<lparr>upvals := (upvals L)(a \<mapsto> UClosed v), openupval := us, uvhead := uvs\<rparr>"
  shows "good L' \<and> keeps L L'"
proof (rule good_heapI[OF g])
  note o = stack_okD(4,9)[OF goodD(2)[OF g], unfolded us]
  have a: "a \<in> dom (upvals L)" using o(1)[of a] by auto
  show e: "extends L L'" unfolding L' by (rule extendsI) (use a in auto)
  have "fresh_objects L'" using heap_okD(2)[OF goodD(1)[OF g]] a by (auto simp: fresh_objects_def L')
  then show "heap_ok L'" by (intro heap_ok_objects[OF goodD(1)[OF g] e]) (auto simp: v L' split: if_splits)
  have n: "a \<notin> set us" and ol: "open_list ((upvals L)(a := None)) us" using o(2) unfolding open_list_Cons by blast+
  have "open_list ((upvals L)(a \<mapsto> UClosed v)) us"
    by (rule open_list_cong[OF ol]) (use n open_listD(1)[OF ol] in \<open>auto split: if_splits\<close>)
  then show "open_list (upvals L') (openupval L')" by (simp add: L')
  show "levels L' \<subseteq> levels L" by (auto simp: levels_def L' split: if_splits)
qed (use us in \<open>simp_all add: L'\<close>)

subsection \<open>Changes to the stack\<close>

definition after :: "lua_State \<Rightarrow> lua_State \<Rightarrow> bool" where
  "after L L' = (good L' \<and> keeps L L' \<and> l_top L' = l_top L)"

lemma after_refl: "good L \<Longrightarrow> after L L" by (simp add: after_def)

lemma after_trans: "after L L' \<Longrightarrow> after L' L'' \<Longrightarrow> after L L''"
  using keeps_trans by (auto simp: after_def)

lemma value_ok_stack: "value_ok (L\<lparr>stack := s\<rparr>) v = value_ok L v"
  by (cases v) (simp_all add: closure_ok_def split: Closure.splits)

lemma value_ok_misc:
  "value_ok (L\<lparr>l_top := t\<rparr>) v = value_ok L v" "value_ok (L\<lparr>savedpc := t\<rparr>) v = value_ok L v"
  "value_ok (L\<lparr>l_ci := c\<rparr>) v = value_ok L v" "value_ok (L\<lparr>l_base := b\<rparr>) v = value_ok L v"
  "value_ok (L\<lparr>size_ci := b\<rparr>) v = value_ok L v" "value_ok (L\<lparr>nCcalls := b\<rparr>) v = value_ok L v"
  "value_ok (L\<lparr>errfunc := b\<rparr>) v = value_ok L v"
  by (cases v; simp add: closure_ok_def split: Closure.splits)+

lemma table_ok_misc:
  "table_ok (L\<lparr>stack := s\<rparr>) tb = table_ok L tb" "table_ok (L\<lparr>l_top := t\<rparr>) tb = table_ok L tb"
  "table_ok (L\<lparr>savedpc := t\<rparr>) tb = table_ok L tb" "table_ok (L\<lparr>l_ci := c\<rparr>) tb = table_ok L tb"
  "table_ok (L\<lparr>l_base := t\<rparr>) tb = table_ok L tb" "table_ok (L\<lparr>size_ci := t\<rparr>) tb = table_ok L tb"
  "table_ok (L\<lparr>nCcalls := t\<rparr>) tb = table_ok L tb" "table_ok (L\<lparr>errfunc := t\<rparr>) tb = table_ok L tb"
  by (simp_all add: table_ok_def value_ok_stack value_ok_misc meta_ok_def)

lemma heap_ok_misc:
  "heap_ok (L\<lparr>stack := s\<rparr>) = heap_ok L" "heap_ok (L\<lparr>l_top := t\<rparr>) = heap_ok L"
  "heap_ok (L\<lparr>savedpc := t\<rparr>) = heap_ok L" "heap_ok (L\<lparr>l_ci := c\<rparr>) = heap_ok L"
  "heap_ok (L\<lparr>l_base := t\<rparr>) = heap_ok L" "heap_ok (L\<lparr>size_ci := t\<rparr>) = heap_ok L"
  "heap_ok (L\<lparr>nCcalls := t\<rparr>) = heap_ok L" "heap_ok (L\<lparr>errfunc := t\<rparr>) = heap_ok L"
  by (simp_all add: heap_ok_def value_ok_stack value_ok_misc table_ok_misc meta_ok_def fresh_objects_def)

lemma levels_misc [simp]:
  "levels (L\<lparr>stack := s\<rparr>) = levels L" "levels (L\<lparr>l_top := t\<rparr>) = levels L"
  "levels (L\<lparr>savedpc := t\<rparr>) = levels L" "levels (L\<lparr>l_ci := c\<rparr>) = levels L"
  "levels (L\<lparr>l_base := t\<rparr>) = levels L" "levels (L\<lparr>size_ci := t\<rparr>) = levels L"
  "levels (L\<lparr>nCcalls := t\<rparr>) = levels L" "levels (L\<lparr>errfunc := t\<rparr>) = levels L"
  "levels (L\<lparr>l_G := gg\<rparr>) = levels L" "levels (L\<lparr>tables := tt\<rparr>) = levels L"
  by (simp_all add: levels_def)

lemma stack_ok_stack:
  assumes "stack_ok L" "\<forall>v\<in>set s. value_ok L v" "length s = length (stack L)"
  shows "stack_ok (L\<lparr>stack := s\<rparr>)"
  using assms by (simp add: stack_ok_def stacksize_def value_ok_stack)

lemma stack_ok_misc:
  "stack_ok (L\<lparr>l_top := t\<rparr>) = stack_ok L" "stack_ok (L\<lparr>savedpc := t\<rparr>) = stack_ok L"
  "stack_ok (L\<lparr>l_ci := c\<rparr>) = stack_ok L" "stack_ok (L\<lparr>l_base := t\<rparr>) = stack_ok L"
  "stack_ok (L\<lparr>size_ci := t\<rparr>) = stack_ok L" "stack_ok (L\<lparr>nCcalls := t\<rparr>) = stack_ok L"
  by (simp_all add: stack_ok_def stacksize_def value_ok_misc)

lemma stacksize_misc [simp]:
  "stacksize (L\<lparr>stack := s\<rparr>) = int (length s)" "stacksize (L\<lparr>l_top := t\<rparr>) = stacksize L"
  "stacksize (L\<lparr>savedpc := t\<rparr>) = stacksize L" "stacksize (L\<lparr>l_ci := c\<rparr>) = stacksize L"
  "stacksize (L\<lparr>l_base := t\<rparr>) = stacksize L" "stacksize (L\<lparr>size_ci := t\<rparr>) = stacksize L"
  "stacksize (L\<lparr>nCcalls := t\<rparr>) = stacksize L" "stacksize (L\<lparr>errfunc := t\<rparr>) = stacksize L"
  "stacksize (L\<lparr>l_G := gg\<rparr>) = stacksize L" "stacksize (L\<lparr>tables := tt\<rparr>) = stacksize L"
  "stacksize (L\<lparr>closures := cc\<rparr>) = stacksize L" "stacksize (L\<lparr>upvals := uu\<rparr>) = stacksize L"
  by (simp_all add: stacksize_def)

lemma length_stack [simp]: "int (length (stack L)) = stacksize L"
  by (simp add: stacksize_def)

lemma stack_last_misc [simp]:
  "stack_last (L\<lparr>stack := (stack L)[j := v]\<rparr>) = stack_last L" "stack_last (L\<lparr>l_top := t\<rparr>) = stack_last L"
  "stack_last (L\<lparr>savedpc := t\<rparr>) = stack_last L" "stack_last (L\<lparr>l_ci := c\<rparr>) = stack_last L"
  "stack_last (L\<lparr>l_base := t\<rparr>) = stack_last L" "stack_last (L\<lparr>size_ci := t\<rparr>) = stack_last L"
  "stack_last (L\<lparr>nCcalls := t\<rparr>) = stack_last L" "stack_last (L\<lparr>errfunc := t\<rparr>) = stack_last L"
  "stack_last (L\<lparr>l_G := gg\<rparr>) = stack_last L" "stack_last (L\<lparr>tables := tt\<rparr>) = stack_last L"
  by (simp_all add: stack_last_def)

lemma extends_misc [simp]:
  "extends L (L\<lparr>stack := s\<rparr>)" "extends L (L\<lparr>l_top := t\<rparr>)" "extends L (L\<lparr>savedpc := t\<rparr>)" "extends L (L\<lparr>l_ci := c\<rparr>)"
  "extends L (L\<lparr>l_base := t\<rparr>)" "extends L (L\<lparr>size_ci := t\<rparr>)" "extends L (L\<lparr>nCcalls := t\<rparr>)" "extends L (L\<lparr>errfunc := t\<rparr>)"
  by (rule extendsI; simp)+

lemma set_update: "v \<in> set (xs[i := x]) \<Longrightarrow> v = x \<or> v \<in> set xs"
  by (meson insertE set_update_subset_insert subsetD)

text \<open>A slot that is not the function slot of a frame may be overwritten.\<close>

lemma good_set:
  assumes g: "good L" and i: "0 \<le> i" "i < stacksize L" "\<forall>ci\<in>set (l_ci L). ci_func ci \<noteq> i" and v: "value_ok L v"
  shows "after L (L\<lparr>stack := (stack L)[nat i := v]\<rparr>)"
proof -
  let ?L = "L\<lparr>stack := (stack L)[nat i := v]\<rparr>"
  have s: "stack_ok ?L"
    using stack_ok_stack[OF goodD(2)[OF g]] stack_okD(1)[OF goodD(2)[OF g]] v set_update by (metis length_list_update)
  then have "good ?L" using g by (simp add: good_def heap_ok_misc)
  moreover have "stack ?L ! nat (ci_func ci) = stack L ! nat (ci_func ci)" if "ci \<in> set (l_ci L)" for ci
  proof -
    have "nat (ci_func ci) \<noteq> nat i" using i that goodD(11)[OF g that] by (metis eq_nat_nat_iff)
    then show ?thesis by simp
  qed
  ultimately show ?thesis by (simp add: after_def keeps_def)
qed

lemma good_set_above:
  assumes "good L" "l_base L \<le> i" "i < stacksize L" "value_ok L v"
  shows "after L (L\<lparr>stack := (stack L)[nat i := v]\<rparr>)"
  using assms goodD(8,11)[OF assms(1)] by (intro good_set) fastforce+

lemma good_top:
  assumes "good L" "l_base L \<le> i" "i \<le> stack_last L + 2"
  shows "good (L\<lparr>l_top := i\<rparr>) \<and> keeps L (L\<lparr>l_top := i\<rparr>)"
  using assms by (simp add: good_def keeps_def heap_ok_misc stack_ok_misc)

lemma good_nCcalls: "good L \<Longrightarrow> after L (L\<lparr>nCcalls := n\<rparr>)" "good L \<Longrightarrow> after L (L\<lparr>size_ci := n\<rparr>)"
  by (simp_all add: good_def keeps_def heap_ok_misc stack_ok_misc after_def)

lemma good_savedpc: "good L \<Longrightarrow> good (L\<lparr>savedpc := n\<rparr>)"
  by (simp add: good_def heap_ok_misc stack_ok_misc)

subsection \<open>Growing the stack\<close>

lemma good_grow:
  assumes g: "good L" and n: "stacksize L + int n \<le> 2 ^ 26"
  shows "after L (L\<lparr>stack := stack L @ replicate n LNil\<rparr>)"
proof -
  let ?L = "L\<lparr>stack := stack L @ replicate n LNil\<rparr>"
  have "stack_ok ?L"
    using goodD(2)[OF g] n by (auto simp: stack_ok_def value_ok_stack)
  then have "good ?L" using g by (auto simp: good_def heap_ok_misc stack_last_def)
  moreover have "stack ?L ! nat (ci_func ci) = stack L ! nat (ci_func ci)" if "ci \<in> set (l_ci L)" for ci
  proof -
    have "ci_func ci < stacksize L" using goodD(11)[OF g that] goodD(5,10)[OF g] by linarith
    then show ?thesis using goodD(11)[OF g that] by (simp add: nth_append nat_less_iff)
  qed
  ultimately show ?thesis by (simp add: after_def keeps_def)
qed

lemma ok_realloc:
  assumes g: "good L" and n: "stacksize L \<le> newsize"
    and Q: "\<And>L'. after L L' \<Longrightarrow> stack_last L' = newsize \<Longrightarrow> take (length (stack L)) (stack L') = stack L \<Longrightarrow> Q () L'"
  shows "ok (luaD_reallocstack newsize) Q L"
proof -
  let ?r = "newsize + 1 + EXTRA_STACK"
  have r: "stacksize L \<le> ?r" using n by (simp add: EXTRA_STACK_def)
  have "Q () (L\<lparr>stack := take (nat ?r) (stack L) @ replicate (nat (?r - stacksize L)) LNil\<rparr>)" if lim: "nat ?r \<le> tv_limit L"
  proof -
    have t: "take (nat ?r) (stack L) = stack L" using r by (simp add: stacksize_def del: length_stack)
    have "nat ?r \<le> 2 ^ 26" using lim stack_okD(2)[OF goodD(2)[OF g]] by (rule order_trans)
    then have "stacksize L + int (nat (?r - stacksize L)) \<le> 2 ^ 26" using r by simp
    from good_grow[OF g this] show ?thesis
      unfolding t by (rule Q) (use r in \<open>simp_all add: stack_last_def\<close>)
  qed
  then show ?thesis using g by (simp add: luaD_reallocstack_def granted_def ok_rules Let_def)
qed

lemma ok_checkstack:
  assumes g: "good L" and n: "0 \<le> n"
    and Q: "\<And>L'. after L L' \<Longrightarrow> l_top L' + n < stack_last L' \<Longrightarrow> take (length (stack L)) (stack L') = stack L \<Longrightarrow> Q () L'"
  shows "ok (luaD_checkstack n) Q L"
proof (cases "stack_last L - l_top L \<le> n")
  case True
  have p: "0 < stacksize L" using stack_okD(5)[OF goodD(2)[OF g]] by (simp add: EXTRA_STACK_def)
  have t: "l_top L \<le> stacksize L - 4" using goodD(6)[OF g] by (simp add: stack_last_def EXTRA_STACK_def)
  show ?thesis
  proof (cases "n \<le> stacksize L")
    case True
    have "ok (luaD_reallocstack (2 * stacksize L)) Q L"
      by (rule ok_realloc[OF g]) (use p t True in \<open>auto simp: after_def intro!: Q\<close>)
    then show ?thesis using True \<open>stack_last L - l_top L \<le> n\<close> by (simp add: luaD_checkstack_def luaD_growstack_def ok_rules)
  next
    case False
    have "ok (luaD_reallocstack (stacksize L + n)) Q L"
      by (rule ok_realloc[OF g]) (use p t False in \<open>auto simp: after_def intro!: Q\<close>)
    then show ?thesis using False \<open>stack_last L - l_top L \<le> n\<close> by (simp add: luaD_checkstack_def luaD_growstack_def ok_rules)
  qed
next
  case False
  then show ?thesis using Q[OF after_refl[OF g]] by (simp add: luaD_checkstack_def ok_rules)
qed

lemma ok_incr_top:
  assumes g: "good L"
    and Q: "\<And>L'. good L' \<Longrightarrow> keeps L L' \<Longrightarrow> l_top L' = l_top L + 1 \<Longrightarrow> l_top L' \<le> stack_last L' \<Longrightarrow>
        take (length (stack L)) (stack L') = stack L \<Longrightarrow> Q () L'"
  shows "ok incr_top Q L"
  unfolding incr_top_def ok_bind
proof (rule ok_checkstack[OF g])
  fix L' assume a: "after L L'" "l_top L' + 1 < stack_last L'" "take (length (stack L)) (stack L') = stack L"
  have g': "good L'" using a(1) by (simp add: after_def)
  have t: "good (L'\<lparr>l_top := l_top L' + 1\<rparr>) \<and> keeps L' (L'\<lparr>l_top := l_top L' + 1\<rparr>)"
    using a(2) goodD(5)[OF g'] by (intro good_top[OF g']) auto
  show "ok (modify (\<lambda>L. L\<lparr>l_top := l_top L + 1\<rparr>)) Q L'"
    unfolding ok_simps(3)
    by (rule Q) (use t a keeps_trans[of L L'] in \<open>auto simp: after_def\<close>)
qed simp

subsection \<open>New objects and strings\<close>

lemma str_alloc_wf:
  assumes "strt_wf g" "str_alloc g = (r, g')"
  shows "strt_wf g'" "interned g' = interned g" "set (allocs g') \<subseteq> set (allocs g)"
    "r = Inr a \<Longrightarrow> a \<noteq> 0 \<and> a \<in> set (allocs g) \<and> a \<notin> set (allocs g')"
proof -
  have f: "allocs_fresh g" using assms(1) by (simp add: strt_wf_def)
  note fr = str_alloc_frame[OF assms(2)]
  show i: "interned g' = interned g" by (rule fr)
  have "strt_objs g' = strt_objs g" using fr(1) by (simp add: strt_objs_def)
  then show "strt_wf g'" using assms(1) fr str_alloc_fresh(1)[OF f assms(2)] by (simp add: strt_wf_def)
  show "set (allocs g') \<subseteq> set (allocs g)" "r = Inr a \<Longrightarrow> a \<noteq> 0 \<and> a \<in> set (allocs g) \<and> a \<notin> set (allocs g')"
    using assms(2) str_alloc_fresh(2)[OF f assms(2)]
    by (auto simp: str_alloc_def split: list.splits if_splits)
qed

lemma ok_new_object:
  assumes g: "good L"
    and Q: "\<And>a L'. after L L' \<Longrightarrow> a \<noteq> 0 \<Longrightarrow> a \<notin> set (allocs (l_G L')) \<Longrightarrow> tables L' a = None \<Longrightarrow> closures L' a = None \<Longrightarrow>
        upvals L' a = None \<Longrightarrow> stack L' = stack L \<Longrightarrow> tables L' = tables L \<Longrightarrow> upvals L' = upvals L \<Longrightarrow> openupval L' = openupval L
        \<Longrightarrow> closures L' = closures L \<Longrightarrow> l_ci L' = l_ci L \<Longrightarrow> set (allocs (l_G L')) \<subseteq> set (allocs (l_G L)) \<Longrightarrow> Q a L'"
  shows "ok new_object Q L"
proof -
  obtain r g' where s: "str_alloc (l_G L) = (r, g')" by (cases "str_alloc (l_G L)")
  note h = goodD(1)[OF g]
  note w = str_alloc_wf[OF heap_okD(1)[OF h] s]
  have a: "after L (L\<lparr>l_G := g'\<rparr>)"
    using good_gstate[OF g w(1) _ w(3)] w(2) by (auto simp: after_def)
  show ?thesis
  proof (cases r)
    case (Inl e)
    then show ?thesis using s a by (simp add: new_object_def ok_def after_def)
  next
    case (Inr x)
    have "x \<noteq> 0" "x \<in> set (allocs (l_G L))" "x \<notin> set (allocs g')" using w(4)[OF Inr] by auto
    then have "Q x (L\<lparr>l_G := g'\<rparr>)" using Q[OF a] heap_okD(2)[OF h] w(3) by (simp add: fresh_objects_def)
    then show ?thesis using s Inr by (simp add: new_object_def ok_def)
  qed
qed

lemma luaS_resize_allocs: "luaS_resize n g = (r, g') \<Longrightarrow> set (allocs g') \<subseteq> set (allocs g)"
  by (auto simp: luaS_resize_def str_alloc_def split: list.splits if_splits)

lemma luaS_newlstr_allocs:
  assumes "luaS_newlstr s g = (r, g')" shows "set (allocs g') \<subseteq> set (allocs g)"
proof (cases "find_in_chain g s (strt_hash g ! lmod (luaS_hash s) (strt_size g))")
  case None
  then have n: "newlstr s (luaS_hash s) g = (r, g')" using assms by (simp add: luaS_newlstr_def Let_def)
  show ?thesis
  proof (cases "allocs g")
    case Nil
    then show ?thesis using n by (auto simp: newlstr_def str_alloc_def luaM_toobig_def split: if_splits)
  next
    case (Cons a as)
    then have "set (allocs g') \<subseteq> set as \<union> set (allocs g)"
      using n by (auto simp: newlstr_def str_alloc_def Let_def split: if_splits sum.splits prod.splits dest!: luaS_resize_allocs)
    then show ?thesis using Cons by auto
  qed
next
  case (Some p)
  then show ?thesis using assms by (cases p) (auto simp: luaS_newlstr_def Let_def)
qed

lemma ok_newlstr:
  assumes g: "good L"
    and Q: "\<And>ts L'. after L L' \<Longrightarrow> ts \<in> strs L' \<Longrightarrow> ts_str ts = s \<Longrightarrow> stack L' = stack L \<Longrightarrow> tables L' = tables L
      \<Longrightarrow> set (allocs (l_G L')) \<subseteq> set (allocs (l_G L)) \<Longrightarrow> Q ts L'"
  shows "ok (newlstr_x s) Q L"
proof -
  obtain r g' where n: "luaS_newlstr s (l_G L) = (r, g')" by (cases "luaS_newlstr s (l_G L)")
  note w = luaS_newlstr_wf[OF heap_okD(1)[OF goodD(1)[OF g]] n]
  have a: "after L (L\<lparr>l_G := g'\<rparr>)"
    using good_gstate[OF g w(1,2) luaS_newlstr_allocs[OF n]] by (simp add: after_def)
  then show ?thesis using n Q[OF a] w(4) luaS_newlstr_allocs[OF n] by (cases r) (simp_all add: newlstr_x_def ok_def after_def)
qed

lemma ok_granted: "good L \<Longrightarrow> (n \<le> 2 ^ 26 \<Longrightarrow> Q () L) \<Longrightarrow> ok (granted n) Q L"
  using stack_okD(2)[OF goodD(2)] by (fastforce simp: granted_def ok_rules)

end
