(* ===== verification/VMErrors.thy ===== *)
theory VMErrors
  imports VMHeap
begin

text \<open>
  What the interpreter relies on when it calls, and the operations that raise errors: they never return and meet no
  undefined behaviour, although they look for names in the code of the running function.
\<close>

subsection \<open>Being ready for an error or a call\<close>

text \<open>The \<open>savedpc\<close> of a running Lua function lies in its code.\<close>

definition running_func :: "lua_State \<Rightarrow> TValue" where
  "running_func L = stack L ! nat (ci_func (hd (l_ci L)))"

definition pc_ok :: "lua_State \<Rightarrow> bool" where
  "pc_ok L = (\<forall>a e p us. running_func L = LFunction a \<longrightarrow> closures L a = Some (LClosure e p us) \<longrightarrow>
     1 \<le> savedpc L \<and> savedpc L \<le> p_sizecode p)"

definition ready :: "lua_State \<Rightarrow> bool" where
  "ready L = (good L \<and> pc_ok L \<and> (\<forall>i\<in>levels L. i < l_top L))"

text \<open>What \<open>luaD_call\<close> is relied upon for: no open upvalue is at or above the function it calls.\<close>

definition caller_ok :: "caller \<Rightarrow> bool" where
  "caller_ok call = (\<forall>L func n. good L \<longrightarrow> pc_ok L \<longrightarrow> l_base L \<le> func \<longrightarrow> func < l_top L \<longrightarrow> (\<forall>i\<in>levels L. i < func) \<longrightarrow>
     - 1 \<le> n \<longrightarrow> func + n \<le> stack_last L + 2 \<longrightarrow>
     ok (call func n) (\<lambda>_ L'. good L' \<and> keeps L L' \<and> func \<le> l_top L' \<and> (0 \<le> n \<longrightarrow> l_top L' = func + n)) L)"

lemma ok_call:
  assumes "caller_ok call" "good L" "pc_ok L" "l_base L \<le> func" "func < l_top L" "\<And>i. i \<in> levels L \<Longrightarrow> i < func"
    "- 1 \<le> n" "func + n \<le> stack_last L + 2"
    and Q: "\<And>L'. good L' \<Longrightarrow> keeps L L' \<Longrightarrow> func \<le> l_top L' \<Longrightarrow> (0 \<le> n \<Longrightarrow> l_top L' = func + n) \<Longrightarrow> Q () L'"
  shows "ok (call func n) Q L"
proof -
  have "ok (call func n) (\<lambda>_ L'. good L' \<and> keeps L L' \<and> func \<le> l_top L' \<and> (0 \<le> n \<longrightarrow> l_top L' = func + n)) L"
    using assms(1-8) unfolding caller_ok_def by blast
  then show ?thesis by (rule ok_mono) (use Q in auto)
qed

lemma keeps_hd:
  assumes "keeps L L'" "l_ci L \<noteq> []"
  shows "ci_func (hd (l_ci L')) = ci_func (hd (l_ci L))" "ci_top (hd (l_ci L')) = ci_top (hd (l_ci L))"
    "ci_base (hd (l_ci L')) = ci_base (hd (l_ci L))" "l_ci L' \<noteq> []" "running_func L' = running_func L"
proof -
  have f: "same_frames (l_ci L) (l_ci L')" using assms(1) by (simp add: keeps_def)
  note m = same_frames_fields[OF f]
  show n: "l_ci L' \<noteq> []" using m(1) assms(2) by auto
  show fn: "ci_func (hd (l_ci L')) = ci_func (hd (l_ci L))" "ci_top (hd (l_ci L')) = ci_top (hd (l_ci L))"
    "ci_base (hd (l_ci L')) = ci_base (hd (l_ci L))"
    using m(2-4) assms(2) n by (metis list.map_sel(1))+
  show "running_func L' = running_func L"
    using assms fn(1) by (simp add: running_func_def keeps_def)
qed

lemma running_closure:
  assumes "good L" "running_func L = LFunction a"
  obtains cl where "closures L a = Some cl" "closure_ok L cl"
proof -
  have "0 \<le> ci_func (hd (l_ci L)) \<and> ci_func (hd (l_ci L)) < l_base L"
    by (rule goodD(11)[OF assms(1)]) (simp add: goodD(12)[OF assms(1)])
  then have "value_ok L (running_func L)"
    unfolding running_func_def using goodD(5,10)[OF assms(1)] by (intro good_value[OF assms(1)]) auto
  then show ?thesis using assms(2) that by auto
qed

lemma pc_ok_keeps:
  assumes "good L" "keeps L L'" "pc_ok L" shows "pc_ok L'"
  unfolding pc_ok_def
proof (intro allI impI)
  fix a e p us
  assume r: "running_func L' = LFunction a" "closures L' a = Some (LClosure e p us)"
  have f: "running_func L = LFunction a" using r(1) keeps_hd(5)[OF assms(2) goodD(12)[OF assms(1)]] by simp
  then obtain cl where cl: "closures L a = Some cl" "closure_ok L cl" using running_closure[OF assms(1)] by blast
  moreover have "extends L L'" using assms(2) by (simp add: keeps_def)
  ultimately obtain e' where "closures L a = Some (LClosure e' p us)"
    using extends_closure[of L L' a cl] r(2) by (auto simp: same_code_simps)
  then show "1 \<le> savedpc L' \<and> savedpc L' \<le> p_sizecode p"
    using assms(2,3) f by (auto simp: pc_ok_def keeps_def)
qed

lemma ready_after: "ready L \<Longrightarrow> after L L' \<Longrightarrow> ready L'"
  using pc_ok_keeps unfolding ready_def after_def keeps_def by (metis subsetD)

lemma readyD: "ready L \<Longrightarrow> good L" "ready L \<Longrightarrow> pc_ok L" "ready L \<Longrightarrow> i \<in> levels L \<Longrightarrow> i < l_top L"
  by (simp_all add: ready_def)

lemma after_good: "after L L' \<Longrightarrow> good L'" by (simp add: after_def)
lemma after_keeps: "after L L' \<Longrightarrow> keeps L L'" by (simp add: after_def)
lemma after_top: "after L L' \<Longrightarrow> l_top L' = l_top L" by (simp add: after_def)

lemma keeps_value: "keeps L L' \<Longrightarrow> value_ok L v \<Longrightarrow> value_ok L' v"
  by (auto simp: keeps_def intro: value_ok_mono)

definition oper_ok :: "lua_State \<Rightarrow> operand \<Rightarrow> bool" where
  "oper_ok L p = (case p of OStack i \<Rightarrow> 0 \<le> i \<and> i < stacksize L | OVal v \<Rightarrow> value_ok L v)"

lemma oper_ok_keeps: "keeps L L' \<Longrightarrow> oper_ok L p \<Longrightarrow> oper_ok L' p"
  by (auto simp: oper_ok_def keeps_def intro: value_ok_mono split: operand.splits)

lemma ok_deref:
  assumes "good L" "oper_ok L p" "\<And>v. value_ok L v \<Longrightarrow> Q v L"
  shows "ok (deref p) Q L"
  using assms good_value[OF assms(1)] by (cases p) (auto simp: deref_def oper_ok_def ok_rules)

subsection \<open>The running function\<close>

lemma frames_ok_shape: "map shape ds = map shape cs \<Longrightarrow> frames_ok ds = frames_ok cs"
proof (induction cs arbitrary: ds rule: frames_ok.induct)
  case (2 ci)
  then show ?case by (cases ds) (auto simp: shape_def)
next
  case (3 ci prev rest)
  then obtain c p r where "ds = c # p # r" "shape c = shape ci" "map shape (p # r) = map shape (prev # rest)"
    by (auto simp: map_eq_Cons_conv)
  moreover have "frames_ok (p # r) = frames_ok (prev # rest)" by (rule 3(1)) fact
  ultimately show ?case by (auto simp: shape_def)
qed simp

lemma good_head:
  assumes g: "good L" and c: "l_ci L = ci # rest" and s: "shape ci' = shape ci" "ci_savedpc ci' \<in> {ci_savedpc ci, savedpc L}"
  shows "after L (L\<lparr>l_ci := ci' # rest\<rparr>)"
proof -
  have f: "frames_ok (ci' # rest)" using goodD(3)[OF g] c frames_ok_shape[of "ci' # rest" "ci # rest"] s(1) by simp
  have e: "ci_base ci' = ci_base ci" "ci_func ci' = ci_func ci" using s(1) by (simp_all add: shape_def)
  have "good (L\<lparr>l_ci := ci' # rest\<rparr>)"
    using g f by (simp add: good_def heap_ok_misc stack_ok_misc c e)
  moreover have "same_frames (l_ci L) (ci' # rest)" by (simp add: c same_frames_def s)
  ultimately show ?thesis using s(2) by (simp add: after_def keeps_def c)
qed

lemma ok_save_pc:
  assumes g: "good L"
    and Q: "\<And>L' ci rest. after L L' \<Longrightarrow> stack L' = stack L \<Longrightarrow> l_ci L = ci # rest \<Longrightarrow>
      L' = L\<lparr>l_ci := ci\<lparr>ci_savedpc := savedpc L\<rparr> # rest\<rparr> \<Longrightarrow> Q () L'"
  shows "ok save_pc Q L"
proof -
  obtain ci rest where c: "l_ci L = ci # rest" using goodD(12)[OF g] by (cases "l_ci L") auto
  show ?thesis
    using Q[OF good_head[OF g c, of "ci\<lparr>ci_savedpc := savedpc L\<rparr>"] _ c]
    by (simp add: save_pc_def ok_rules c shape_def)
qed

lemma ok_isLua:
  assumes g: "good L"
    and Q: "\<And>r. (\<And>p. r = Some p \<Longrightarrow> \<exists>a e us. running_func L = LFunction a \<and> closures L a = Some (LClosure e p us)
              \<and> code_ok (strs L) p) \<Longrightarrow> Q r L"
  shows "ok isLua Q L"
proof -
  obtain ci rest where c: "l_ci L = ci # rest" using goodD(12)[OF g] by (cases "l_ci L") auto
  have b: "0 \<le> ci_func ci \<and> ci_func ci < stacksize L" using goodD(5,10,11)[OF g] c by fastforce
  have r: "stack L ! nat (ci_func ci) = running_func L" by (simp add: running_func_def c)
  show ?thesis
  proof (cases "running_func L")
    case (LFunction a)
    then obtain cl where cl: "closures L a = Some cl" "closure_ok L cl" using running_closure[OF g] by blast
    then have "Q (case cl of LClosure _ p _ \<Rightarrow> Some p | CClosure _ _ _ \<Rightarrow> None) L"
      by (cases cl) (auto intro!: Q simp: LFunction closure_ok_def)
    then show ?thesis using b cl by (simp add: isLua_def ok_rules c r LFunction)
  qed (use b Q[of None] in \<open>simp_all add: isLua_def ok_rules c r\<close>)
qed

lemma ok_currentpc:
  assumes "good L" "\<And>L'. after L L' \<Longrightarrow> stack L' = stack L \<Longrightarrow> Q (savedpc L - 1) L'"
  shows "ok currentpc Q L"
  unfolding currentpc_def ok_bind by (rule ok_save_pc[OF assms(1)]) (auto simp: ok_rules intro: assms(2))

lemma ok_pushstr:
  assumes g: "good L"
    and Q: "\<And>L'. good L' \<Longrightarrow> keeps L L' \<Longrightarrow> l_top L' = l_top L + 1 \<Longrightarrow> Q () L'"
  shows "ok (pushstr s) Q L"
  unfolding pushstr_def ok_bind
proof (rule ok_newlstr[OF g])
  fix ts L1 assume a: "after L L1" "ts \<in> strs L1"
  have g1: "good L1" by (rule after_good[OF a(1)])
  have t: "l_base L1 \<le> l_top L1" "l_top L1 < stacksize L1" "0 \<le> l_top L1" using goodD(5,9,10)[OF g1] by auto
  have a2: "after L1 (L1\<lparr>stack := (stack L1)[nat (l_top L1) := LString ts]\<rparr>)"
    by (rule good_set_above[OF g1 t(1,2)]) (simp add: a(2))
  have "ok incr_top Q (L1\<lparr>stack := (stack L1)[nat (l_top L1) := LString ts]\<rparr>)"
    by (rule ok_incr_top[OF after_good[OF a2]])
      (use a(1) a2 in \<open>auto intro!: Q simp: after_def intro: keeps_trans\<close>)
  then show "ok (get l_top) (\<lambda>x. ok (set_s x (LString ts)) (\<lambda>_. ok incr_top Q)) L1"
    using t by (simp add: ok_rules)
qed

subsection \<open>Messages\<close>

lemma precheck_True: "luaG_checkcode p = Inr True \<Longrightarrow> precheck p"
  by (auto simp: luaG_checkcode_def symbexec_def bindR_def split: if_splits sum.splits option.splits)

lemma ok_addinfo:
  assumes g: "good L" and pc: "pc_ok L"
    and Q: "\<And>L'. good L' \<Longrightarrow> keeps L L' \<Longrightarrow> l_top L \<le> l_top L' \<Longrightarrow> Q () L'"
  shows "ok (addinfo E msg) Q L"
  unfolding addinfo_def ok_bind
proof (rule ok_isLua[OF g], goal_cases)
  case (1 r)
  show ?case
  proof (cases r)
    case None
    then show ?thesis using Q[OF g] by (simp add: ok_rules)
  next
    case (Some p)
    then obtain a e us where r: "running_func L = LFunction a" "closures L a = Some (LClosure e p us)"
      "code_ok (strs L) p" using 1 by blast
    have li: "p_lineinfo p = [] \<or> length (p_lineinfo p) = length (p_code p)"
      using precheck_True[OF code_okD(1)[OF r(3)]] by (auto simp: precheck_def)
    have s: "1 \<le> savedpc L" "savedpc L \<le> int (length (p_code p))" using pc r by (auto simp: pc_ok_def p_sizecode_def)
    define buff where "buff = shown_name (unat LUA_IDSIZE) (c_str (ts_str (p_source p)))"
    have name: "chunk_name LUA_IDSIZE (c_str (ts_str (p_source p))) = Inr buff"
      unfolding buff_def by (rule chunk_name_shows) (simp_all add: LUA_IDSIZE_def c_str_no_zero)
    have "ok currentpc (\<lambda>x. ok (getline p x) (\<lambda>line. ok (pushstr (buff
        @ '':'' @ number2str E (cast_num line) @ '': '' @ c_str msg)) Q)) L"
    proof (rule ok_currentpc[OF g])
      fix L1 assume a: "after L L1"
      have "ok (pushstr x) Q L1" for x
        by (rule ok_pushstr[OF after_good[OF a]])
          (use a in \<open>auto intro!: Q simp: after_def intro: keeps_trans\<close>)
      then show "ok (getline p (savedpc L - 1)) (\<lambda>line. ok (pushstr (buff
          @ '':'' @ number2str E (cast_num line) @ '': '' @ c_str msg)) Q) L1"
        using li s by (auto simp: getline_def ok_rules)
    qed
    then show ?thesis using Some by (simp add: ok_bind name run_res_def ok_simps(1))
  qed
qed

lemma ok_errormsg:
  assumes g: "good L" and pc: "pc_ok L" and t: "l_base L < l_top L" "\<And>i. i \<in> levels L \<Longrightarrow> i < l_top L - 1"
    and c: "caller_ok call"
  shows "ok (luaG_errormsg call) R L"
proof -
  note sz = goodD(5,8,9,10)[OF g]
  have v: "value_ok L (stack L ! nat (errfunc L))" "0 \<le> errfunc L" "errfunc L < stacksize L"
    using stack_okD(7,8)[OF goodD(2)[OF g]] good_value[OF g] by auto
  show ?thesis
  proof (cases "errfunc L = 0")
    case True
    then show ?thesis using g by (simp add: luaG_errormsg_def ok_rules)
  next
    case False
    show ?thesis
    proof (cases "stack L ! nat (errfunc L)")
      case (LFunction a)
      let ?L1 = "L\<lparr>stack := (stack L)[nat (l_top L) := stack L ! nat (l_top L - 1)]\<rparr>"
      have a1: "after L ?L1" by (rule good_set_above[OF g]) (use sz t in \<open>auto intro!: good_value[OF g]\<close>)
      note g1 = after_good[OF a1]
      let ?v = "stack ?L1 ! nat (errfunc L)"
      let ?L2 = "?L1\<lparr>stack := (stack ?L1)[nat (l_top L - 1) := ?v]\<rparr>"
      have v2: "value_ok ?L1 ?v" by (rule good_value[OF g1]) (use v in simp_all)
      have a2: "after ?L1 ?L2" by (rule good_set_above[OF g1 _ _ v2]) (use sz t in simp_all)
      have "ok incr_top (\<lambda>_. ok (get l_top) (\<lambda>t'. ok (call (t' - 2) 1) (\<lambda>_. good))) ?L2"
      proof (rule ok_incr_top[OF after_good[OF a2]])
        fix L3 assume L3: "good L3" "keeps ?L2 L3" "l_top L3 = l_top ?L2 + 1" "l_top L3 \<le> stack_last L3"
        have k: "keeps L L3" using a1 a2 L3(2) keeps_trans by (blast dest: after_keeps)
        have b: "l_base L3 = l_base L" "levels L3 \<subseteq> levels L" using k by (auto simp: keeps_def)
        have "ok (call (l_top L3 - 2) 1) (\<lambda>_. good) L3"
        proof (rule ok_call[OF c L3(1) pc_ok_keeps[OF g k pc]])
          show "i < l_top L3 - 2" if "i \<in> levels L3" for i using t(2)[of i] that b(2) L3(3) by auto
        qed (use L3 t b in auto)
        then show "ok (get l_top) (\<lambda>t'. ok (call (t' - 2) 1) (\<lambda>_. good)) L3" by (simp add: ok_rules)
      qed
      then show ?thesis
        using False LFunction v sz t by (simp add: luaG_errormsg_def ok_rules copy_s_def)
    qed (use False v g in \<open>auto simp: luaG_errormsg_def ok_rules\<close>)
  qed
qed

lemma ok_runerror:
  assumes r: "ready L" and c: "caller_ok call"
  shows "ok (luaG_runerror E call msg) R L"
  unfolding luaG_runerror_def ok_bind
proof (rule ok_pushstr[OF readyD(1)[OF r]])
  fix L1 assume L1: "good L1" "keeps L L1" "l_top L1 = l_top L + 1"
  note p1 = pc_ok_keeps[OF readyD(1)[OF r] L1(2) readyD(2)[OF r]]
  show "ok (addinfo E msg) (\<lambda>_. ok (luaG_errormsg call) R) L1"
  proof (rule ok_addinfo[OF L1(1) p1])
    fix L2 assume L2: "good L2" "keeps L1 L2" "l_top L1 \<le> l_top L2"
    have "i < l_top L2 - 1" if "i \<in> levels L2" for i
      using that L1 L2 readyD(3)[OF r] unfolding keeps_def by fastforce
    moreover have "l_base L2 < l_top L2" using L1 L2 goodD(5)[OF readyD(1)[OF r]] by (auto simp: keeps_def)
    ultimately show "ok (luaG_errormsg call) R L2" by (intro ok_errormsg[OF L2(1) pc_ok_keeps[OF L1(1) L2(2) p1] _ _ c])
  qed
qed

lemma ok_lift_res:
  assumes "ready L" "caller_ok call" "\<And>x. r = Inr x \<Longrightarrow> Q x L" "r \<noteq> Inl Undef" "\<And>m. r \<noteq> Inl (ErrSyntax m)"
  shows "ok (lift_res E call r) Q L"
proof (cases r)
  case (Inl e)
  then show ?thesis using assms ok_runerror[OF assms(1,2)] readyD(1)[OF assms(1)]
    by (cases e) (simp_all add: lift_res_def ok_rules)
qed (use assms in \<open>simp add: lift_res_def ok_rules\<close>)

subsection \<open>Names of variables\<close>

text \<open>The instruction that symbolic execution ends with is the last one of the code or has been checked.\<close>

lemma sx_loop_result:
  assumes "sx_loop fuel pt lastpc rg pc lst = Inr (Some i)" "0 \<le> lst" "lst < p_sizecode pt"
  shows "i = instr pt lst \<or> (\<exists>pc' l r. sx_step pt lastpc rg pc' l = Inr (Some r) \<and> i = instr pt pc')"
  using assms
proof (induction fuel arbitrary: pc lst)
  case (Suc fuel)
  show ?case
  proof (cases "pc < lastpc")
    case True
    then obtain p l where s: "sx_step pt lastpc rg pc lst = Inr (Some (p, l))" "sx_loop fuel pt lastpc rg (p + 1) l = Inr (Some i)"
      using Suc.prems(1) by (auto simp: bindC_eq_Some)
    have r: "0 \<le> pc" "pc < p_sizecode pt" using s(1) by (auto elim: sx_step_Some)
    have l: "l = pc \<or> l = lst" using sx_step_moves[OF s(1)] by simp
    then have b: "0 \<le> l" "l < p_sizecode pt" using r Suc.prems(2,3) by auto
    from Suc.IH[OF s(2) b] l s(1) show ?thesis by blast
  next
    case False
    then show ?thesis using Suc.prems by (auto simp: code_of_def instr_def split: if_splits)
  qed
qed simp

lemma symbexec_result:
  assumes "symbexec p pc rg = Inr (Some i)" "GET_OPCODE i = op_num op" "op \<noteq> OP_RETURN"
  obtains a b c lst r where "sx_operands p a i (op_num op) = Inr (Some (b, c))"
    "sx_op p pc rg a lst op (GETARG_A i) b c = Inr (Some r)"
proof -
  have pre: "precheck p" and l: "sx_loop (nat pc + 1) p pc rg 0 (p_sizecode p - 1) = Inr (Some i)"
    using assms(1) by (auto simp: symbexec_def split: if_splits)
  note last = precheck_last[OF pre]
  have "i \<noteq> instr p (p_sizecode p - 1)"
    using last(2) assms(2,3) by (auto simp: instr_def)
  then obtain pc' l r where s: "sx_step p pc rg pc' l = Inr (Some r)" "i = instr p pc'"
    using sx_loop_result[OF l] last(1) by force
  obtain r1 r2 where "r = (r1, r2)" by (cases r)
  then show ?thesis
    using s assms(2) by (auto simp: instr_def elim!: sx_step_Some intro: that)
qed

lemma symbexec_names:
  assumes "symbexec p pc rg = Inr (Some i)" "GET_OPCODE i = op_num op"
  shows "op = OP_GETGLOBAL \<Longrightarrow> nat (GETARG_Bx i) < length (p_k p) \<and> ttisstring (p_k p ! nat (GETARG_Bx i))"
    "op = OP_GETUPVAL \<Longrightarrow> GETARG_B i < uint (p_nups p)"
    "op \<in> {OP_GETTABLE, OP_SELF} \<Longrightarrow> ISK (GETARG_C i) \<Longrightarrow> INDEXK (GETARG_C i) < p_sizek p"
proof -
  show "nat (GETARG_Bx i) < length (p_k p) \<and> ttisstring (p_k p ! nat (GETARG_Bx i))" if o: "op = OP_GETGLOBAL"
    by (rule symbexec_result[OF assms])
      (use o getOpMode_op[of op] in \<open>auto simp: sx_op_def Let_def bindC_eq_Some k_of_def sx_operands_def p_sizek_def
         split: if_splits\<close>)
  show "GETARG_B i < uint (p_nups p)" if o: "op = OP_GETUPVAL"
    by (rule symbexec_result[OF assms])
      (use o getOpMode_op[of op] in \<open>auto simp: sx_op_def Let_def bindC_eq_Some sx_operands_def split: if_splits\<close>)
  show "INDEXK (GETARG_C i) < p_sizek p" if o: "op \<in> {OP_GETTABLE, OP_SELF}" "ISK (GETARG_C i)"
    by (rule symbexec_result[OF assms])
      (use o getOpMode_op[of op] getCMode_op[of op] in
        \<open>auto simp: Let_def bindC_eq_Some sx_operands_def checkArgMode_def split: if_splits\<close>)
qed

lemma INDEXK_nonneg: "0 \<le> c \<Longrightarrow> 0 \<le> INDEXK c"
  by (simp add: INDEXK_def)

lemma ok_kname:
  assumes "ISK c \<Longrightarrow> INDEXK c < p_sizek p" "0 \<le> c" "\<And>nm. Q nm L"
  shows "ok (kname p c) Q L"
  using assms INDEXK_nonneg[of c]
  by (auto simp: kname_def ok_rules p_sizek_def nat_less_iff split: TValue.split)

lemma ok_name_loaded:
  assumes sx: "symbexec p pc sp = Inr r" and i: "i = (case r of None \<Rightarrow> 0 | Some i \<Rightarrow> i)"
    and up: "p_upvalues p = [] \<or> int (length (p_upvalues p)) = uint (p_nups p)"
    and Q: "\<And>x. Q x L" and f: "\<And>x. ok (f x) Q L"
  shows "ok (name_loaded p i f) Q L"
proof (cases r)
  case None
  have "decode_op (GET_OPCODE (0 :: Instruction)) = Some OP_MOVE" "GETARG_B 0 = 0" "GETARG_A 0 = 0"
    by (simp_all add: getarg_defs get_field_def decode_op_def all_ops_def NUM_OPCODES_def)
  then show ?thesis using None i Q by (simp add: ok_rules name_loaded_def)
next
  case (Some j)
  then have j: "r = Some i" using i by simp
  show ?thesis
  proof (cases "decode_op (GET_OPCODE i)")
    case (Some op)
    then have op: "GET_OPCODE i = op_num op" by (simp add: decode_op_Some)
    note nm = symbexec_names[OF sx[unfolded j] op]
    have nn: "0 \<le> GETARG_B i" "0 \<le> GETARG_C i" by (simp_all add: getarg_defs)
    show ?thesis
    proof (cases "op \<in> {OP_GETGLOBAL, OP_MOVE, OP_GETTABLE, OP_GETUPVAL, OP_SELF}")
      case True
      then show ?thesis
        using nm nn up Q f by (auto simp: Some ok_rules name_loaded_def nat_less_iff intro!: ok_kname)
    next
      case False
      then show ?thesis using Q by (cases op) (simp_all add: Some ok_rules name_loaded_def)
    qed
  qed (use Q in \<open>simp add: ok_rules name_loaded_def\<close>)
qed

lemma ok_getobjname:
  assumes "good L" "pc_ok L" "\<And>r L'. after L L' \<Longrightarrow> Q r L'"
  shows "ok (getobjname fuel sp) Q L"
  using assms
proof (induction fuel arbitrary: sp L)
  case (Suc fuel)
  show ?case
    unfolding getobjname.simps ok_bind
  proof (rule ok_isLua[OF Suc.prems(1)], goal_cases)
    case (1 r)
    show ?case
    proof (cases r)
      case (Some p)
      then obtain a e us where p: "running_func L = LFunction a" "closures L a = Some (LClosure e p us)"
        "code_ok (strs L) p" using 1 by blast
      have pc: "0 \<le> savedpc L - 1" "savedpc L - 1 \<le> p_sizecode p" using Suc.prems(2) p by (auto simp: pc_ok_def)
      note safe = symbexec_safe[OF pc, of sp]
      have up: "p_upvalues p = [] \<or> int (length (p_upvalues p)) = uint (p_nups p)"
        using code_okD(2)[OF p(3)] by (simp add: tight_def)
      show ?thesis
        unfolding Some option.case ok_bind
      proof (rule ok_currentpc[OF Suc.prems(1)])
        fix L1 assume a: "after L L1"
        have Q: "Q x L1" for x by (rule Suc.prems(3)[OF a])
        have IH: "ok (getobjname fuel x) Q L1" for x
          using Suc.IH[OF after_good[OF a] pc_ok_keeps[OF Suc.prems(1) after_keeps[OF a] Suc.prems(2)]]
            Suc.prems(3) after_trans[OF a] by blast
        have "ok (bindX (last_change p (savedpc L - 1) sp) (\<lambda>i. name_loaded p i (getobjname fuel))) Q L1"
        proof (cases "symbexec p (savedpc L - 1) sp")
          case (Inr r)
          note n = ok_name_loaded[where f = "getobjname fuel", OF Inr refl up Q IH]
          show ?thesis using n by (cases r) (simp_all add: last_change_def ok_rules Inr)
        qed (use safe in simp)
        then show "ok (case luaF_getlocalname p (sp + 1) (savedpc L - 1) of
             Some nm \<Rightarrow> ret (Some (''local'', c_str (ts_str nm)))
           | None \<Rightarrow> bindX (last_change p (savedpc L - 1) sp) (\<lambda>i. name_loaded p i (getobjname fuel))) Q L1"
          using Q by (auto simp: ok_rules split: option.split)
      qed
    qed (use Suc.prems(3)[OF after_refl[OF Suc.prems(1)]] in \<open>simp add: ok_rules\<close>)
  qed
qed (simp add: ok_rules)

subsection \<open>The errors of the operations\<close>

lemma ok_typename: "value_ok L v \<Longrightarrow> (\<And>t. Q t L) \<Longrightarrow> ok (typename v) Q L"
  by (cases v) (simp_all add: typename_def ok_rules luaT_typenames_def)

declare getobjname.simps [simp del]

lemma ok_typeerror:
  assumes r: "ready L" and c: "caller_ok call" and p: "oper_ok L p"
  shows "ok (luaG_typeerror E call p op) R L"
proof -
  note g = readyD(1)[OF r]
  obtain ci rest where ci: "l_ci L = ci # rest" using goodD(12)[OF g] by (cases "l_ci L") auto
  have m: "ok (luaG_runerror E call msg) R L'" if "after L L'" for L' msg
    using ok_runerror[OF ready_after[OF r that] c] .
  show ?thesis
    unfolding luaG_typeerror_def ok_bind
  proof (rule ok_deref[OF g p], rule ok_typename, goal_cases)
    case (2 v t)
    show ?case
      by (cases p) (use m[OF after_refl[OF g]] in \<open>auto simp: ok_rules ci intro!: ok_getobjname[OF g readyD(2)[OF r]] m
          split: option.split\<close>)
  qed simp
qed

lemma ok_concaterror:
  assumes "ready L" "caller_ok call" "oper_ok L p1" "oper_ok L p2"
  shows "ok (luaG_concaterror E call p1 p2) R L"
  unfolding luaG_concaterror_def ok_bind
  by (rule ok_deref[OF readyD(1)[OF assms(1)] assms(3)]) (use assms in \<open>auto intro: ok_typeerror\<close>)

lemma ok_ordererror:
  assumes "ready L" "caller_ok call" "value_ok L v1" "value_ok L v2"
  shows "ok (luaG_ordererror E call v1 v2) R L"
  unfolding luaG_ordererror_def ok_bind
  by (intro ok_typename assms ok_runerror)

end
