(* ===== verification/VMAccess.thy ===== *)
theory VMAccess
  imports VMErrors
begin

text \<open>
  The operations of \<open>lvm.c\<close> on values: table access with tag methods, comparison, concatenation, arithmetic. Each of
  them, in a state that is ready for a call, leaves such a state with the same frames and top.
\<close>

subsection \<open>Working on the stack\<close>

lemma after_dims:
  assumes "l_ci L \<noteq> []" "after L L'"
  shows "l_base L' = l_base L" "stacksize L \<le> stacksize L'" "l_top L' = l_top L" "levels L' \<subseteq> levels L"
    "ci_top (hd (l_ci L')) = ci_top (hd (l_ci L))"
  using assms keeps_hd(2)[of L L'] by (auto simp: after_def keeps_def)

lemma ok_set_above:
  assumes "good L" "l_base L \<le> i" "i < stacksize L" "value_ok L v" "\<And>L'. after L L' \<Longrightarrow> l_ci L' = l_ci L \<Longrightarrow> Q () L'"
  shows "ok (set_s i v) Q L"
  using assms(5)[OF good_set_above[OF assms(1-4)]] assms(2,3) goodD(8)[OF assms(1)] by (simp add: ok_rules)

lemma ok_get_value:
  assumes "good L" "0 \<le> i" "i < stacksize L" "\<And>v. value_ok L v \<Longrightarrow> Q v L"
  shows "ok (get_s i) Q L"
  using assms good_value[OF assms(1)] by (simp add: ok_rules)

lemma ok_copy_above:
  assumes "good L" "l_base L \<le> i" "i < stacksize L" "0 \<le> j" "j < stacksize L"
    "\<And>L'. after L L' \<Longrightarrow> l_ci L' = l_ci L \<Longrightarrow> Q () L'"
  shows "ok (copy_s i j) Q L"
  unfolding copy_s_def ok_bind
  by (rule ok_get_value[OF assms(1,4,5)], rule ok_set_above[OF assms(1-3)]) (auto intro: assms(6))

lemma ok_put_table:
  assumes g: "good L" and t: "table_ok L t" and h: "h \<in> dom (tables L) \<or> h \<notin> set (allocs (l_G L))"
    and Q: "\<And>L'. after L L' \<Longrightarrow> tables L' = (tables L)(h \<mapsto> t) \<Longrightarrow> stack L' = stack L \<Longrightarrow> l_ci L' = l_ci L \<Longrightarrow> Q () L'"
  shows "ok (put_table h t) Q L"
  using Q[of "L\<lparr>tables := (tables L)(h \<mapsto> t)\<rparr>"] good_table[OF g t h] by (simp add: ok_rules after_def)

subsection \<open>Tables\<close>

lemma get_total:
  assumes t: "table_ok L t" and k: "value_ok L k"
  shows "\<exists>s. luaH_get t k = Inr s \<and> value_ok L (slot_val t s)"
proof (cases "key_ok (strs L) k")
  case True
  have c: "table_core (strs L) t" using t by (simp add: table_ok_def wf_core)
  obtain s where "luaH_get t k = Inr s" "finds t k s" using luaH_get_finds[OF c True] by blast
  then show ?thesis using finds_val[OF c] t True by (simp add: table_ok_def)
next
  case False
  have c: "table_core (strs L) t" using t by (simp add: table_ok_def wf_core)
  show ?thesis
    using False k luaH_get_nan[OF c] by (cases k) (auto simp: key_ok_def luaH_get_def[of t LNil])
qed

lemma getstr_total:
  assumes "table_ok L t" "s \<in> strs L"
  shows "\<exists>x. luaH_getstr t s = Inr x \<and> value_ok L (slot_val t x)"
  using get_total[OF assms(1), of "LString s"] assms(2) by (simp add: luaH_get_def)

lemma table_ok_flags: "table_ok L (t\<lparr>flags := f\<rparr>) = table_ok L t"
  by (simp add: table_ok_def table_wf_def)

lemma good_table_ok: "good L \<Longrightarrow> tables L h = Some t \<Longrightarrow> table_ok L t"
  using heap_okD(3)[OF goodD(1)] by blast

lemma good_names:
  assumes "good L" shows "tm_num e < length (tmname L)" "tmname L ! tm_num e \<in> strs L"
proof -
  have "tm_num e < TM_N" by (cases e) (simp_all add: TM_N_def)
  then show l: "tm_num e < length (tmname L)" using heap_okD(9)[OF goodD(1)[OF assms]] by simp
  then show "tmname L ! tm_num e \<in> strs L" using heap_okD(10)[OF goodD(1)[OF assms]] by (simp add: subset_iff)
qed

definition same_tables :: "lua_State \<Rightarrow> lua_State \<Rightarrow> bool" where
  "same_tables L L' = (\<forall>h t. tables L h = Some t \<longrightarrow> (\<exists>f. tables L' h = Some (t\<lparr>flags := f\<rparr>)))"

lemma same_tables_refl: "same_tables L L"
  by (auto simp: same_tables_def) (metis Table.surjective Table.update_convs(1))

lemma ok_fasttm:
  assumes g: "good L" and m: "meta_ok L et"
    and Q: "\<And>r L'. after L L' \<Longrightarrow> same_tables L L' \<Longrightarrow> stack L' = stack L \<Longrightarrow> (\<And>v. r = Some v \<Longrightarrow> value_ok L' v) \<Longrightarrow> Q r L'"
  shows "ok (fasttm et e) Q L"
proof (cases "et = 0")
  case True
  then show ?thesis using Q[of L None, OF after_refl[OF g] same_tables_refl] by (simp add: fasttm_def ok_rules)
next
  case False
  then obtain t where t: "tables L et = Some t" using m by (auto simp: meta_ok_def)
  note tok = good_table_ok[OF g t]
  obtain x where x: "luaH_getstr t (tmname L ! tm_num e) = Inr x" "value_ok L (slot_val t x)"
    using getstr_total[OF tok good_names(2)[OF g]] by blast
  have n: "Q None L" by (rule Q[OF after_refl[OF g] same_tables_refl]) simp_all
  have s: "Q (Some (slot_val t x)) L" by (rule Q[OF after_refl[OF g] same_tables_refl]) (use x in simp_all)
  have p: "ok (put_table et (t\<lparr>flags := f\<rparr>)) (\<lambda>_. Q None) L" for f
  proof (rule ok_put_table[OF g])
    fix L' assume "after L L'" "tables L' = (tables L)(et \<mapsto> t\<lparr>flags := f\<rparr>)" "stack L' = stack L"
    then show "Q None L'"
      using t by (intro Q) (auto simp: same_tables_def, metis Table.surjective Table.update_convs(1))
  qed (use t tok in \<open>auto simp: table_ok_flags\<close>)
  show ?thesis
    using False n s p x good_names(1)[OF g]
    by (auto simp: fasttm_def luaT_gettm_def ok_rules t of_table_def)
qed

lemma ok_gettmbyobj:
  assumes g: "good L" and v: "value_ok L v" and Q: "\<And>tm. value_ok L tm \<Longrightarrow> Q tm L"
  shows "ok (luaT_gettmbyobj v e) Q L"
proof -
  have look: "ok (if mt \<noteq> 0
             then bindX (get tmname) (\<lambda>names. bindX (name_of names (tm_num e)) (\<lambda>ename.
                    bindX (get_table mt) (\<lambda>t. bindX (of_table (luaH_getstr t ename)) (\<lambda>s. ret (slot_val t s)))))
             else ret LNil) Q L" if m: "meta_ok L mt" for mt
  proof (cases "mt = 0")
    case False
    then obtain t where t: "tables L mt = Some t" using m by (auto simp: meta_ok_def)
    show ?thesis
      using getstr_total[OF good_table_ok[OF g t] good_names(2)[OF g, of e]] False good_names(1)[OF g, of e] t Q
      by (auto simp: ok_rules of_table_def)
  qed (simp add: ok_rules Q)
  have "ok (case v of
              LTable h \<Rightarrow> bindX (get_table h) (\<lambda>t. ret (metatable t))
            | LUserdata u \<Rightarrow> bindX (get_udata u) (\<lambda>u. ret (u_metatable u))
            | _ \<Rightarrow> bindX (get l_mt) (\<lambda>mts. name_of mts (nat (ttype v)))) (\<lambda>mt L'. L' = L \<and> meta_ok L mt) L"
  proof -
    have b: "meta_ok L (l_mt L ! i) \<and> i < length (l_mt L)" if "i < 9" for i
      using heap_okD(7,8)[OF goodD(1)[OF g]] that by simp
    show ?thesis
      using v b[of 0] b[of 1] b[of 2] b[of 3] b[of 4] b[of 6] b[of 8] good_table_ok[OF g] heap_okD(6)[OF goodD(1)[OF g]]
      by (cases v) (auto simp: ok_rules table_ok_def)
  qed
  then show ?thesis unfolding luaT_gettmbyobj_def ok_bind by (rule ok_mono) (use look in \<open>auto simp: ok_bind\<close>)
qed

subsection \<open>Calling a tag method\<close>

lemma ok_set_top:
  assumes "good L" "l_base L \<le> i" "i \<le> stack_last L + 2"
    "\<And>L'. good L' \<Longrightarrow> keeps L L' \<Longrightarrow> l_top L' = i \<Longrightarrow> L' = L\<lparr>l_top := i\<rparr> \<Longrightarrow> Q () L'"
  shows "ok (set_top i) Q L"
  using assms(4)[of "L\<lparr>l_top := i\<rparr>"] good_top[OF assms(1-3)] by (simp add: ok_rules)

lemma ready_dims:
  assumes "ready L"
  shows "l_base L \<le> l_top L" "l_top L + 3 < stacksize L" "0 < l_base L"
  using goodD(5,8,10)[OF readyD(1)[OF assms]] by auto

lemma ok_push_arg:
  assumes r: "ready L" and p: "oper_ok L p" and i: "l_top L \<le> i" "i \<le> l_top L + 3"
    and Q: "\<And>L'. after L L' \<Longrightarrow> Q () L'"
  shows "ok (bindX (deref p) (set_s i)) Q L"
  unfolding ok_bind
  by (rule ok_deref[OF readyD(1)[OF r] p], rule ok_set_above[OF readyD(1)[OF r]])
    (use i ready_dims[OF r] Q in auto)

lemma ok_after_args:
  assumes r: "ready L" and c: "caller_ok call" and n: "0 < n" "n \<le> 4" and m: "0 \<le> m" "m \<le> 1"
    and Q: "\<And>L'. good L' \<Longrightarrow> keeps L L' \<Longrightarrow> l_top L' = l_top L + m \<Longrightarrow> Q L'"
  shows "ok (luaD_checkstack n) (\<lambda>_. ok (set_top (l_top L + n)) (\<lambda>_. ok (call (l_top L) m) (\<lambda>_. Q))) L"
proof (rule ok_checkstack[OF readyD(1)[OF r]])
  fix L1 assume a: "after L L1" "l_top L1 + n < stack_last L1"
  note g1 = after_good[OF a(1)] and r1 = ready_after[OF r a(1)]
  have t: "l_top L1 = l_top L" by (rule after_top[OF a(1)])
  show "ok (set_top (l_top L + n)) (\<lambda>_. ok (call (l_top L) m) (\<lambda>_. Q)) L1"
  proof (rule ok_set_top[OF g1])
    fix L2 assume L2: "good L2" "keeps L1 L2" "l_top L2 = l_top L + n" "L2 = L1\<lparr>l_top := l_top L + n\<rparr>"
    show "ok (call (l_top L) m) (\<lambda>_. Q) L2"
    proof (rule ok_call[OF c L2(1) pc_ok_keeps[OF g1 L2(2) readyD(2)[OF r1]]])
      show "i < l_top L" if "i \<in> levels L2" for i using that readyD(3)[OF r1] t by (simp add: L2(4))
      fix L3 assume "good L3" "keeps L2 L3" "0 \<le> m \<Longrightarrow> l_top L3 = l_top L + m"
      then show "Q L3" using m a(1) L2(2) keeps_trans after_keeps by (blast intro: Q)
    qed (use n m a L2 t ready_dims[OF r1] in auto)
  qed (use a t n ready_dims[OF r1] in auto)
qed (use n in simp)

lemma ok_callTMres:
  assumes r: "ready L" and c: "caller_ok call" and f: "value_ok L f" and p: "oper_ok L p1" "oper_ok L p2"
    and res: "l_base L \<le> res" "res < stacksize L" and Q: "\<And>L'. after L L' \<Longrightarrow> Q () L'"
  shows "ok (callTMres call res f p1 p2) Q L"
proof -
  note g = readyD(1)[OF r] and d = ready_dims[OF r]
  show ?thesis
    unfolding callTMres_def ok_bind ok_simps(2)
  proof (rule ok_set_above[OF g _ _ f])
    fix L1 assume a1: "after L L1"
    note r1 = ready_after[OF r a1] and d1 = after_dims[OF goodD(12)[OF g] a1]
    show "ok (deref p1) (\<lambda>x. ok (set_s (l_top L + 1) x) (\<lambda>_. ok (deref p2) (\<lambda>x. ok (set_s (l_top L + 2) x)
      (\<lambda>_. ok (luaD_checkstack 3) (\<lambda>_. ok (set_top (l_top L + 3)) (\<lambda>_. ok (call (l_top L) 1)
        (\<lambda>_ L. ok (set_top (l_top L - 1)) (\<lambda>_. ok (copy_s res (l_top L - 1)) Q) L))))))) L1"
    proof (rule ok_push_arg[OF r1 oper_ok_keeps[OF after_keeps[OF a1] p(1)], unfolded ok_bind])
      fix L2 assume a2: "after L1 L2"
      note a12 = after_trans[OF a1 a2]
      note r2 = ready_after[OF r a12] and d2 = after_dims[OF goodD(12)[OF g] a12]
      show "ok (deref p2) (\<lambda>x. ok (set_s (l_top L + 2) x)
      (\<lambda>_. ok (luaD_checkstack 3) (\<lambda>_. ok (set_top (l_top L + 3)) (\<lambda>_. ok (call (l_top L) 1)
        (\<lambda>_ L. ok (set_top (l_top L - 1)) (\<lambda>_. ok (copy_s res (l_top L - 1)) Q) L))))) L2"
      proof (rule ok_push_arg[OF r2 oper_ok_keeps[OF after_keeps[OF a12] p(2)], unfolded ok_bind])
        fix L3 assume a3: "after L2 L3"
        note a = after_trans[OF a12 a3]
        note r3 = ready_after[OF r a] and d3 = after_dims[OF goodD(12)[OF g] a]
        show "ok (luaD_checkstack 3) (\<lambda>_. ok (set_top (l_top L + 3)) (\<lambda>_. ok (call (l_top L) 1)
          (\<lambda>_ L. ok (set_top (l_top L - 1)) (\<lambda>_. ok (copy_s res (l_top L - 1)) Q) L))) L3"
          unfolding d3(3)[symmetric]
        proof (rule ok_after_args[OF r3 c])
          fix L4 assume L4: "good L4" "keeps L3 L4" "l_top L4 = l_top L3 + 1"
          have k: "keeps L L4" by (rule keeps_trans[OF after_keeps[OF a] L4(2)])
          have b: "l_base L4 = l_base L" "stacksize L \<le> stacksize L4" using k by (auto simp: keeps_def)
          show "ok (set_top (l_top L4 - 1)) (\<lambda>_. ok (copy_s res (l_top L4 - 1)) Q) L4"
          proof (rule ok_set_top[OF L4(1)])
            fix L5 assume L5: "good L5" "keeps L4 L5" "l_top L5 = l_top L4 - 1" "L5 = L4\<lparr>l_top := l_top L4 - 1\<rparr>"
            have a5: "after L L5" using L5 L4(3) d3 keeps_trans[OF k L5(2)] by (simp add: after_def)
            show "ok (copy_s res (l_top L4 - 1)) Q L5"
              by (rule ok_copy_above[OF L5(1)])
                (use L5 L4 b res d d3 goodD(10)[OF L4(1)] in \<open>auto intro: Q after_trans[OF a5]\<close>)
          qed (use L4 b d d3 goodD(6)[OF L4(1)] in auto)
        qed simp_all
      qed (use d2 in auto)
    qed (use d1 in auto)
  qed (use d in auto)
qed

lemma ok_callTM:
  assumes r: "ready L" and c: "caller_ok call" and f: "value_ok L f" and p: "oper_ok L p1" "oper_ok L p2" "oper_ok L p3"
    and Q: "\<And>L'. after L L' \<Longrightarrow> Q () L'"
  shows "ok (callTM call f p1 p2 p3) Q L"
proof -
  note g = readyD(1)[OF r] and d = ready_dims[OF r]
  show ?thesis
    unfolding callTM_def ok_bind ok_simps(2)
  proof (rule ok_set_above[OF g _ _ f])
    fix L1 assume a1: "after L L1"
    note r1 = ready_after[OF r a1] and d1 = after_dims[OF goodD(12)[OF g] a1]
    show "ok (deref p1) (\<lambda>x. ok (set_s (l_top L + 1) x) (\<lambda>_. ok (deref p2) (\<lambda>x. ok (set_s (l_top L + 2) x)
      (\<lambda>_. ok (deref p3) (\<lambda>x. ok (set_s (l_top L + 3) x)
      (\<lambda>_. ok (luaD_checkstack 4) (\<lambda>_. ok (set_top (l_top L + 4)) (\<lambda>_. ok (call (l_top L) 0) Q)))))))) L1"
    proof (rule ok_push_arg[OF r1 oper_ok_keeps[OF after_keeps[OF a1] p(1)], unfolded ok_bind])
      fix L2 assume a2: "after L1 L2"
      note a12 = after_trans[OF a1 a2]
      note r2 = ready_after[OF r a12] and d2 = after_dims[OF goodD(12)[OF g] a12]
      show "ok (deref p2) (\<lambda>x. ok (set_s (l_top L + 2) x) (\<lambda>_. ok (deref p3) (\<lambda>x. ok (set_s (l_top L + 3) x)
        (\<lambda>_. ok (luaD_checkstack 4) (\<lambda>_. ok (set_top (l_top L + 4)) (\<lambda>_. ok (call (l_top L) 0) Q)))))) L2"
      proof (rule ok_push_arg[OF r2 oper_ok_keeps[OF after_keeps[OF a12] p(2)], unfolded ok_bind])
        fix L3 assume a3: "after L2 L3"
        note a13 = after_trans[OF a12 a3]
        note r3 = ready_after[OF r a13] and d3 = after_dims[OF goodD(12)[OF g] a13]
        show "ok (deref p3) (\<lambda>x. ok (set_s (l_top L + 3) x)
          (\<lambda>_. ok (luaD_checkstack 4) (\<lambda>_. ok (set_top (l_top L + 4)) (\<lambda>_. ok (call (l_top L) 0) Q)))) L3"
        proof (rule ok_push_arg[OF r3 oper_ok_keeps[OF after_keeps[OF a13] p(3)], unfolded ok_bind])
          fix L4 assume a4: "after L3 L4"
          note a = after_trans[OF a13 a4]
          note r4 = ready_after[OF r a] and d4 = after_dims[OF goodD(12)[OF g] a]
          have u: "Q = (\<lambda>_. Q ())" by (simp add: fun_eq_iff)
          show "ok (luaD_checkstack 4) (\<lambda>_. ok (set_top (l_top L + 4)) (\<lambda>_. ok (call (l_top L) 0) Q)) L4"
            unfolding d4(3)[symmetric] by (subst u, rule ok_after_args[OF r4 c])
              (use keeps_trans[OF after_keeps[OF a]] d4(3) in \<open>auto intro!: Q simp: after_def\<close>)
        qed (use d3 in auto)
      qed (use d2 in auto)
    qed (use d1 in auto)
  qed (use d in auto)
qed

end
