(* ===== verification/VMOps.thy ===== *)
theory VMOps
  imports VMAccess
begin

text \<open>
  The operations of the interpreter on its registers: \<open>luaV_gettable\<close>, \<open>luaV_settable\<close>, the comparisons, \<open>luaV_concat\<close>
  and \<open>Arith\<close> meet no undefined behaviour and leave the frames as they were.
\<close>

subsection \<open>Reading and writing tables\<close>

lemma ok_gettable_turn:
  assumes r: "ready L" and c: "caller_ok call" and p: "oper_ok L t" "oper_ok L key"
    and val: "l_base L \<le> val" "val < stacksize L"
    and Q: "\<And>x L'. after L L' \<Longrightarrow> (\<And>v. x = Some v \<Longrightarrow> value_ok L' v) \<Longrightarrow> Q x L'"
  shows "ok (gettable_turn E call t key val) Q L"
proof -
  note g = readyD(1)[OF r]
  note dims = after_dims[OF goodD(12)[OF g]]
  have found: "ok (set_s val res) (\<lambda>_. Q None) L'" if "after L L'" "value_ok L' res" for res L'
    by (rule ok_set_above[OF after_good[OF that(1)]])
      (use that dims[OF that(1)] val in \<open>auto intro: Q after_trans\<close>)
  have again: "ok (case tm of LFunction _ \<Rightarrow> thenX (callTMres call val tm t key) (ret None) | _ \<Rightarrow> ret (Some tm)) Q L'"
    if a: "after L L'" "value_ok L' tm" for tm L'
  proof (cases tm)
    case (LFunction f)
    have "ok (callTMres call val tm t key) (\<lambda>_. Q None) L'"
      by (rule ok_callTMres[OF ready_after[OF r a(1)] c a(2)])
        (use a dims[OF a(1)] val p oper_ok_keeps[OF after_keeps[OF a(1)]] in \<open>auto intro: Q after_trans\<close>)
    then show ?thesis using LFunction by (simp add: ok_rules)
  qed (use a in \<open>auto simp: ok_rules intro!: Q\<close>)
  show ?thesis
    unfolding gettable_turn_def ok_bind
  proof (rule ok_deref[OF g p(1)], rule ok_deref[OF g p(2)], goal_cases)
    case (1 tv k)
    have other: "ok (luaT_gettmbyobj tv TM_INDEX) (\<lambda>tm. ok (if tm = LNil then luaG_typeerror E call t ''index'' else ret (Inr tm))
        (\<lambda>r. ok (case r of Inl res \<Rightarrow> thenX (set_s val res) (ret None)
        | Inr tm \<Rightarrow> (case tm of LFunction _ \<Rightarrow> thenX (callTMres call val tm t key) (ret None) | _ \<Rightarrow> ret (Some tm))) Q)) L"
      by (rule ok_gettmbyobj[OF g 1(1)], rename_tac tm, case_tac "tm = LNil")
        (simp_all only: if_True if_False ok_simps(1) ok_typeerror[OF r c p(1)] again[OF after_refl[OF g]]
          sum.case option.case simp_thms)
    show ?case
    proof (cases tv)
      case (LTable h)
      then obtain tb where tb: "tables L h = Some tb" using 1(1) by auto
      note tok = good_table_ok[OF g tb]
      obtain s where s: "luaH_get tb k = Inr s" "value_ok L (slot_val tb s)" using get_total[OF tok 1(2)] by blast
      have miss: "ok (fasttm (metatable tb) TM_INDEX) (\<lambda>tm. ok (case tm of None \<Rightarrow> ret (Inl w) | Some f \<Rightarrow> ret (Inr f))
            (\<lambda>r. ok (case r of Inl res \<Rightarrow> thenX (set_s val res) (ret None)
        | Inr tm \<Rightarrow> (case tm of LFunction _ \<Rightarrow> thenX (callTMres call val tm t key) (ret None) | _ \<Rightarrow> ret (Some tm))) Q)) L"
        if w: "value_ok L w" for w
      proof (rule ok_fasttm[OF g])
        fix x L' assume a: "after L L'" "\<And>v. x = Some v \<Longrightarrow> value_ok L' v"
        then show "ok (case x of None \<Rightarrow> ret (Inl w) | Some f \<Rightarrow> ret (Inr f))
            (\<lambda>r. ok (case r of Inl res \<Rightarrow> thenX (set_s val res) (ret None)
        | Inr tm \<Rightarrow> (case tm of LFunction _ \<Rightarrow> thenX (callTMres call val tm t key) (ret None) | _ \<Rightarrow> ret (Some tm))) Q) L'"
          using found[OF a(1) keeps_value[OF after_keeps[OF a(1)] w]] again[OF a(1)]
          by (cases x) (simp_all add: ok_rules)
      qed (use tok in \<open>simp add: table_ok_def\<close>)
      show ?thesis
        using found[OF after_refl[OF g] s(2)] miss[of LNil]
        by (cases "slot_val tb s = LNil") (simp_all add: LTable ok_rules tb s of_table_def)
    qed (use other in \<open>simp_all add: ok_rules\<close>)
  qed
qed

lemma ok_gettable_loop:
  assumes "ready L" "caller_ok call" "oper_ok L t" "oper_ok L key" "l_base L \<le> val" "val < stacksize L"
    "\<And>L'. after L L' \<Longrightarrow> Q () L'"
  shows "ok (gettable_loop E call n t key val) Q L"
  using assms
proof (induction n arbitrary: t L)
  case 0
  then show ?case using ok_runerror by simp
next
  case (Suc n)
  note g = readyD(1)[OF Suc.prems(1)]
  show ?case
    unfolding gettable_loop.simps ok_bind
  proof (rule ok_gettable_turn[OF Suc.prems(1-6)])
    fix x L' assume a: "after L L'" "\<And>v. x = Some v \<Longrightarrow> value_ok L' v"
    have "ok (gettable_loop E call n (OVal v) key val) Q L'" if "x = Some v" for v
      by (rule Suc.IH[OF ready_after[OF Suc.prems(1) a(1)] Suc.prems(2)])
        (use a that after_dims[OF goodD(12)[OF g] a(1)] Suc.prems oper_ok_keeps[OF after_keeps[OF a(1)]] in
          \<open>auto simp: oper_ok_def intro: after_trans\<close>)
    then show "ok (case x of None \<Rightarrow> ret () | Some tm \<Rightarrow> gettable_loop E call n (OVal tm) key val) Q L'"
      using Suc.prems(7)[OF a(1)] by (cases x) (simp_all add: ok_rules)
  qed
qed

lemma ok_gettable:
  assumes "ready L" "caller_ok call" "oper_ok L t" "oper_ok L key" "l_base L \<le> val" "val < stacksize L"
    "\<And>L'. after L L' \<Longrightarrow> Q () L'"
  shows "ok (luaV_gettable E call t key val) Q L"
  unfolding luaV_gettable_def by (rule ok_gettable_loop) (use assms in auto)

lemma set_slot_flags: "set_slot (t\<lparr>flags := f\<rparr>) s v = (set_slot t s v)\<lparr>flags := f\<rparr>"
  by (cases s) simp_all

lemma bound_table_ok:
  assumes t: "table_ok L t" and b: "bound_to (strs L) t t' k s" "key_ok (strs L) k"
    and e: "extends L L'" "inj_on ts_addr (strs L')" and v: "value_ok L' v"
  shows "table_ok L' (set_slot (t'\<lparr>flags := f\<rparr>) s v)"
proof -
  note law = bound_set(1)[OF b, where v = v] bound_set(2)[OF b, where v = v] bound_set(3)[OF b, where v = v]
  have I: "strs L \<subseteq> strs L'" using e(1) by (simp add: extends_def)
  have "value_ok L' (lookup (set_slot t' s v) k')" if k': "key_ok (strs L') k'" for k'
  proof (cases "key_ok (strs L) k'")
    case True
    then show ?thesis using law(2) v t value_ok_mono[OF _ e(1)] by (auto simp: table_ok_def)
  next
    case False
    then have "lookup (set_slot t' s v) k' = LNil" using lookup_new_key[OF law(1) I e(2) k'] by simp
    then show ?thesis by simp
  qed
  then have "table_ok L' (set_slot t' s v)"
    using table_wf_mono[OF law(1) I e(2)] law(3) t meta_ok_mono[OF _ e(1)] by (auto simp: table_ok_def)
  then show ?thesis by (simp add: set_slot_flags table_ok_flags)
qed

lemma bound_table: "table_ok L t \<Longrightarrow> bound_to (strs L) t t' k s \<Longrightarrow> table_ok L t'"
  by (auto simp: table_ok_def bound_to_def)

lemma set_cases:
  assumes t: "table_ok L t" and k: "value_ok L k"
  obtains s t' where "luaH_set t k = Inr (s, t')" "bound_to (strs L) t t' k s" "key_ok (strs L) k"
  | m where "luaH_set t k = Inl (ErrRun m)"
proof (cases "key_ok (strs L) k")
  case True
  have "table_wf (strs L) t" using t by (simp add: table_ok_def)
  from luaH_set_cases[OF this True] show ?thesis using that True by (auto simp: table_overflow_def)
next
  case False
  have c: "table_core (strs L) t" using t by (simp add: table_ok_def wf_core)
  from False k luaH_get_nan[OF c] have "\<exists>m. luaH_set t k = Inl (ErrRun m)"
    by (cases k) (auto simp: key_ok_def luaH_set_def luaH_set_by_def luaH_get_def[of t LNil] luai_numisnan_iff)
  then show ?thesis using that(2) by blast
qed

lemma ok_settable_turn:
  assumes r: "ready L" and c: "caller_ok call" and p: "oper_ok L t" "oper_ok L key" "oper_ok L val"
    and Q: "\<And>x L'. after L L' \<Longrightarrow> (\<And>v. x = Some v \<Longrightarrow> value_ok L' v) \<Longrightarrow> Q x L'"
  shows "ok (settable_turn E call t key val) Q L"
proof -
  note g = readyD(1)[OF r]
  let ?rest = "\<lambda>r. case r of None \<Rightarrow> ret None | Some tm \<Rightarrow> (case tm of
      LFunction _ \<Rightarrow> thenX (callTM call tm t key val) (ret None) | _ \<Rightarrow> ret (Some tm))"
  have again: "ok (case tm of LFunction _ \<Rightarrow> thenX (callTM call tm t key val) (ret None) | _ \<Rightarrow> ret (Some tm)) Q L'" if a: "after L L'" "value_ok L' tm" for tm L'
  proof (cases tm)
    case (LFunction f)
    have "ok (callTM call tm t key val) (\<lambda>_. Q None) L'"
      by (rule ok_callTM[OF ready_after[OF r a(1)] c a(2)])
        (use a p oper_ok_keeps[OF after_keeps[OF a(1)]] in \<open>auto intro: Q after_trans\<close>)
    then show ?thesis using LFunction by (simp add: ok_rules)
  qed (use a in \<open>auto simp: ok_rules intro!: Q\<close>)
  show ?thesis
    unfolding settable_turn_def ok_bind
  proof (rule ok_deref[OF g p(1)], rule ok_deref[OF g p(2)], goal_cases)
    case (1 tv k)
    have other: "ok (luaT_gettmbyobj tv TM_NEWINDEX) (\<lambda>tm. ok (if tm = LNil then luaG_typeerror E call t ''index'' else ret (Some tm))
        (\<lambda>r. ok (?rest r) Q)) L"
      by (rule ok_gettmbyobj[OF g 1(1)], rename_tac tm, case_tac "tm = LNil")
        (simp_all only: if_True if_False ok_simps(1) ok_typeerror[OF r c p(1)] again[OF after_refl[OF g]]
          sum.case option.case simp_thms)
    show ?case
    proof (cases tv)
      case (LTable h)
      then obtain tb where tb: "tables L h = Some tb" using 1(1) by auto
      note tok = good_table_ok[OF g tb]
      show ?thesis
      proof (rule set_cases[OF tok 1(2)])
        fix m assume "luaH_set tb k = Inl (ErrRun m)"
        then show ?thesis using ok_runerror[OF r c] by (simp add: LTable ok_rules tb lift_res_def)
      next
        fix s t' assume s: "luaH_set tb k = Inr (s, t')" "bound_to (strs L) tb t' k s" "key_ok (strs L) k"
        define assign where "assign = bindX (deref val) (\<lambda>v. bindX (get_table h) (\<lambda>tab2.
                              thenX (put_table h (set_slot tab2 s v)) (ret (None :: TValue option))))"
        have asg: "ok assign (\<lambda>r. ok (?rest r) Q) L'"
          if a: "after L L'" "tables L' h = Some (t'\<lparr>flags := f\<rparr>)" for L' f
          unfolding assign_def ok_bind
        proof (rule ok_deref[OF after_good[OF a(1)] oper_ok_keeps[OF after_keeps[OF a(1)] p(3)]])
          fix v assume v: "value_ok L' v"
          have e: "extends L L'" using after_keeps[OF a(1)] by (simp add: keeps_def)
          have "table_ok L' (set_slot (t'\<lparr>flags := f\<rparr>) s v)"
            by (rule bound_table_ok[OF tok s(2,3) e strs_inj[OF goodD(1)[OF after_good[OF a(1)]]] v])
          then have "ok (put_table h (set_slot (t'\<lparr>flags := f\<rparr>) s v)) (\<lambda>_. Q None) L'"
            by (rule ok_put_table[OF after_good[OF a(1)]]) (use a in \<open>auto intro!: Q intro: after_trans\<close>)
          then show "ok (get_table h) (\<lambda>tab2. ok (put_table h (set_slot tab2 s v)) (\<lambda>_. ok (ret None) (\<lambda>r. ok (?rest r) Q))) L'"
            using a(2) by (simp add: ok_rules)
        qed
        have "ok (put_table h t') (\<lambda>_. ok (if slot_val t' s \<noteq> LNil then assign
             else bindX (fasttm (metatable t') TM_NEWINDEX) (\<lambda>tm. case tm of None \<Rightarrow> assign | Some f \<Rightarrow> ret (Some f)))
            (\<lambda>r. ok (?rest r) Q)) L"
        proof (rule ok_put_table[OF g bound_table[OF tok s(2)]])
          fix L1 assume a1: "after L L1" "tables L1 = (tables L)(h \<mapsto> t')" "stack L1 = stack L"
          note g1 = after_good[OF a1(1)]
          have f1: "tables L1 h = Some (t'\<lparr>flags := flags t'\<rparr>)" using a1(2) by simp
          have m: "meta_ok L1 (metatable t')" using good_table_ok[OF g1, of h t'] a1(2) by (simp add: table_ok_def)
          have "ok (fasttm (metatable t') TM_NEWINDEX) (\<lambda>tm. ok (case tm of None \<Rightarrow> assign | Some f \<Rightarrow> ret (Some f))
            (\<lambda>r. ok (?rest r) Q)) L1"
          proof (rule ok_fasttm[OF g1 m])
            fix x L2 assume a2: "after L1 L2" "same_tables L1 L2" "\<And>v. x = Some v \<Longrightarrow> value_ok L2 v"
            obtain f where "tables L2 h = Some (t'\<lparr>flags := f\<rparr>)" using a2(2) a1(2) unfolding same_tables_def by force
            then show "ok (case x of None \<Rightarrow> assign | Some f \<Rightarrow> ret (Some f)) (\<lambda>r. ok (?rest r) Q) L2"
              using asg[OF after_trans[OF a1(1) a2(1)]] again[OF after_trans[OF a1(1) a2(1)]] a2(3)
              by (cases x) (simp_all add: ok_simps)
          qed
          then show "ok (if slot_val t' s \<noteq> LNil then assign
             else bindX (fasttm (metatable t') TM_NEWINDEX) (\<lambda>tm. case tm of None \<Rightarrow> assign | Some f \<Rightarrow> ret (Some f)))
            (\<lambda>r. ok (?rest r) Q) L1"
            using asg[OF a1(1) f1] by (simp add: ok_bind)
        qed (use tb in auto)
        then show ?thesis
          by (cases "slot_val t' s = LNil") (simp_all add: LTable ok_rules tb lift_res_def s flip: assign_def)
      qed
    qed (use other in \<open>simp_all add: ok_rules\<close>)
  qed
qed

lemma ok_settable_loop:
  assumes "ready L" "caller_ok call" "oper_ok L t" "oper_ok L key" "oper_ok L val" "\<And>L'. after L L' \<Longrightarrow> Q () L'"
  shows "ok (settable_loop E call n t key val) Q L"
  using assms
proof (induction n arbitrary: t L)
  case 0
  then show ?case using ok_runerror by simp
next
  case (Suc n)
  show ?case
    unfolding settable_loop.simps ok_bind
  proof (rule ok_settable_turn[OF Suc.prems(1-5)])
    fix x L' assume a: "after L L'" "\<And>v. x = Some v \<Longrightarrow> value_ok L' v"
    have "ok (settable_loop E call n (OVal v) key val) Q L'" if "x = Some v" for v
      by (rule Suc.IH[OF ready_after[OF Suc.prems(1) a(1)] Suc.prems(2)])
        (use a that Suc.prems oper_ok_keeps[OF after_keeps[OF a(1)]] in \<open>auto simp: oper_ok_def intro: after_trans\<close>)
    then show "ok (case x of None \<Rightarrow> ret () | Some tm \<Rightarrow> settable_loop E call n (OVal tm) key val) Q L'"
      using Suc.prems(6)[OF a(1)] by (cases x) (simp_all add: ok_rules)
  qed
qed

lemma ok_settable:
  assumes "ready L" "caller_ok call" "oper_ok L t" "oper_ok L key" "oper_ok L val" "\<And>L'. after L L' \<Longrightarrow> Q () L'"
  shows "ok (luaV_settable E call t key val) Q L"
  unfolding luaV_settable_def by (rule ok_settable_loop) (use assms in auto)

end
