(* ===== verification/VMArith.thy ===== *)
theory VMArith
  imports VMOps
begin

text \<open>
  Comparison, concatenation and arithmetic of the interpreter: they meet no undefined behaviour and leave the frames as
  they were.
\<close>

subsection \<open>Tag methods of binary operations\<close>

lemma ok_call_binTM:
  assumes r: "ready L" and c: "caller_ok call" and p: "oper_ok L p1" "oper_ok L p2"
    and res: "l_base L \<le> res" "res < stacksize L" and Q: "\<And>b L'. after L L' \<Longrightarrow> Q b L'"
  shows "ok (call_binTM call p1 p2 res e) Q L"
proof -
  note g = readyD(1)[OF r]
  have fin: "ok (if tm = LNil then ret False else thenX (callTMres call res tm p1 p2) (ret True)) Q L" if v: "value_ok L tm" for tm
  proof -
    have "ok (callTMres call res tm p1 p2) (\<lambda>_. Q True) L"
      by (rule ok_callTMres[OF r c v p res]) (rule Q)
    then show ?thesis using Q[OF after_refl[OF g]] by (simp add: ok_rules)
  qed
  have second: "ok (bindX (deref p2) (\<lambda>v2. luaT_gettmbyobj v2 e))
      (\<lambda>tm. ok (if tm = LNil then ret False else thenX (callTMres call res tm p1 p2) (ret True)) Q) L"
    unfolding ok_bind by (rule ok_deref[OF g p(2)], rule ok_gettmbyobj[OF g], assumption, rule fin)
  show ?thesis
    unfolding call_binTM_def ok_bind
  proof (rule ok_deref[OF g p(1)], rule ok_gettmbyobj[OF g], assumption)
    fix tm1 assume v: "value_ok L tm1"
    show "ok (if tm1 = LNil then bindX (deref p2) (\<lambda>v2. luaT_gettmbyobj v2 e) else ret tm1)
      (\<lambda>tm. ok (if tm = LNil then ret False else thenX (callTMres call res tm p1 p2) (ret True)) Q) L"
      using second fin[OF v] by (cases "tm1 = LNil") (simp_all only: if_True if_False simp_thms ok_simps(1))
  qed
qed

lemma ok_get_compTM:
  assumes g: "good L" and m: "meta_ok L mt1" "meta_ok L mt2"
    and Q: "\<And>x L'. after L L' \<Longrightarrow> (\<And>v. x = Some v \<Longrightarrow> value_ok L' v) \<Longrightarrow> Q x L'"
  shows "ok (get_compTM mt1 mt2 e) Q L"
  unfolding get_compTM_def ok_bind
proof (rule ok_fasttm[OF g m(1)])
  fix x1 L1 assume a1: "after L L1" and v1: "\<And>v. x1 = Some v \<Longrightarrow> value_ok L1 v"
  have e1: "extends L L1" using after_keeps[OF a1] by (simp add: keeps_def)
  have second: "ok (fasttm mt2 e) (\<lambda>r2. ok (case r2 of None \<Rightarrow> ret None
            | Some tm2 \<Rightarrow> ret (if luaO_rawequalObj tm1 tm2 then Some tm1 else None)) Q) L1"
    if t: "value_ok L1 tm1" for tm1
  proof (rule ok_fasttm[OF after_good[OF a1] meta_ok_mono[OF m(2) e1]])
    fix x2 L2 assume a2: "after L1 L2"
    have v: "value_ok L2 tm1" by (rule keeps_value[OF after_keeps[OF a2] t])
    show "ok (case x2 of None \<Rightarrow> ret None
            | Some tm2 \<Rightarrow> ret (if luaO_rawequalObj tm1 tm2 then Some tm1 else None)) Q L2"
      using Q[OF after_trans[OF a1 a2]] v by (cases x2) (auto simp: ok_simps)
  qed
  show "ok (case x1 of None \<Rightarrow> ret None
   | Some tm1 \<Rightarrow> if mt1 = mt2 then ret (Some tm1)
       else bindX (fasttm mt2 e) (\<lambda>r2. case r2 of None \<Rightarrow> ret None
            | Some tm2 \<Rightarrow> ret (if luaO_rawequalObj tm1 tm2 then Some tm1 else None))) Q L1"
    using Q[OF a1] v1 second by (cases x1) (auto simp: ok_simps ok_bind)
qed

text \<open>A tag method called for its truth value: the slot at the top gets its result.\<close>

lemma ok_truth_of:
  assumes r: "ready L" and c: "caller_ok call" and f: "value_ok L f" and p: "oper_ok L p1" "oper_ok L p2"
    and Q: "\<And>b L'. after L L' \<Longrightarrow> Q b L'"
  shows "ok (bindX (get l_top) (\<lambda>t. thenX (callTMres call t f p1 p2) truth_at_top)) Q L"
proof -
  note d = ready_dims[OF r]
  have "ok (callTMres call (l_top L) f p1 p2) (\<lambda>_. ok truth_at_top Q) L"
  proof (rule ok_callTMres[OF r c f p])
    fix L' assume a: "after L L'"
    have "0 \<le> l_top L'" "l_top L' < stacksize L'"
      using d after_dims[OF goodD(12)[OF readyD(1)[OF r]] a] by auto
    then show "ok truth_at_top Q L'" using Q[OF a] by (simp add: truth_at_top_def ok_rules)
  qed (use d in auto)
  then show ?thesis by (simp add: ok_rules)
qed

lemma ok_call_orderTM:
  assumes r: "ready L" and c: "caller_ok call" and p: "oper_ok L p1" "oper_ok L p2"
    and Q: "\<And>b L'. after L L' \<Longrightarrow> Q b L'"
  shows "ok (call_orderTM call p1 p2 e) Q L"
proof -
  note g = readyD(1)[OF r]
  have second: "ok (bindX (deref p2) (\<lambda>v2. bindX (luaT_gettmbyobj v2 e) (\<lambda>tm2.
       if \<not> luaO_rawequalObj tm1 tm2 then ret (-1)
       else bindX (get l_top) (\<lambda>t. thenX (callTMres call t tm1 p1 p2) truth_at_top)))) Q L" if v: "value_ok L tm1" for tm1
    unfolding ok_bind
  proof (rule ok_deref[OF g p(2)], rule ok_gettmbyobj[OF g], assumption)
    fix tm2
    show "ok (if \<not> luaO_rawequalObj tm1 tm2 then ret (-1)
       else bindX (get l_top) (\<lambda>t. thenX (callTMres call t tm1 p1 p2) truth_at_top)) Q L"
      using ok_truth_of[OF r c v p Q] Q[OF after_refl[OF g]]
      by (cases "luaO_rawequalObj tm1 tm2") (simp_all only: if_True if_False simp_thms ok_simps(1))
  qed
  show ?thesis
    unfolding call_orderTM_def ok_bind
  proof (rule ok_deref[OF g p(1)], rule ok_gettmbyobj[OF g], assumption)
    fix tm1 assume v: "value_ok L tm1"
    show "ok (if tm1 = LNil then ret (-1) else bindX (deref p2) (\<lambda>v2. bindX (luaT_gettmbyobj v2 e) (\<lambda>tm2.
       if \<not> luaO_rawequalObj tm1 tm2 then ret (-1)
       else bindX (get l_top) (\<lambda>t. thenX (callTMres call t tm1 p1 p2) truth_at_top)))) Q L"
      using second[OF v] Q[OF after_refl[OF g]]
      by (cases "tm1 = LNil") (simp_all only: if_True if_False simp_thms ok_simps(1))
  qed
qed

subsection \<open>Comparison\<close>

text \<open>The hypothesis on \<open>strcoll\<close>, which holds in the C locale: only equal strings compare equal.\<close>

definition collates :: "vm_env \<Rightarrow> bool" where
  "collates E = (\<forall>a b. strcoll E (c_str a) (c_str b) = 0 \<longrightarrow> c_str a = c_str b)"

lemma length_c_str: "length (c_str s) \<le> length s"
  by (simp add: c_str_def length_takeWhile_le)

lemma l_strcmp_total:
  assumes "\<And>a b. coll (c_str a) (c_str b) = 0 \<Longrightarrow> c_str a = c_str b"
  shows "\<exists>c. l_strcmp coll l r = Inr c"
  using assms
proof (induction coll l r rule: l_strcmp.induct)
  case (1 coll l r)
  show ?case
  proof (cases "coll (c_str l) (c_str r) = 0")
    case True
    then have "length (c_str l) \<le> length r" using 1(2) length_c_str[of r] by metis
    then show ?thesis using 1(1)[OF refl refl _ _ _ _ 1(2)] True by (subst l_strcmp.simps) (auto simp: Let_def)
  next
    case False
    then show ?thesis by (subst l_strcmp.simps) (simp add: Let_def)
  qed
qed

lemma ok_strcmp: "collates E \<Longrightarrow> (\<And>c. Q c L) \<Longrightarrow> ok (strcmp_x E a b) Q L"
  using l_strcmp_total[of "strcoll E" "ts_str a" "ts_str b"]
  by (auto simp: strcmp_x_def of_table_def collates_def ok_simps)

lemma ok_lessthan:
  assumes r: "ready L" and c: "caller_ok call" and E: "collates E" and p: "oper_ok L p1" "oper_ok L p2"
    and Q: "\<And>b L'. after L L' \<Longrightarrow> Q b L'"
  shows "ok (luaV_lessthan E call p1 p2) Q L"
proof -
  note g = readyD(1)[OF r]
  show ?thesis
    unfolding luaV_lessthan_def ok_bind
  proof (rule ok_deref[OF g p(1)], rule ok_deref[OF g p(2)])
    fix v1 v2 assume v: "value_ok L v1" "value_ok L v2"
    have err: "ok (luaG_ordererror E call v1 v2) R L'" if a: "after L L'" for L' and R :: "int \<Rightarrow> lua_State \<Rightarrow> bool"
      by (rule ok_ordererror[OF ready_after[OF r a] c keeps_value[OF after_keeps[OF a] v(1)] keeps_value[OF after_keeps[OF a] v(2)]])
    have tm: "ok (call_orderTM call p1 p2 TM_LT) (\<lambda>res. ok (if res \<noteq> -1 then ret res else luaG_ordererror E call v1 v2) Q) L"
      by (rule ok_call_orderTM[OF r c p]) (use err Q in \<open>simp add: ok_simps\<close>)
    show "ok (if ttype v1 \<noteq> ttype v2 then luaG_ordererror E call v1 v2
     else case (v1, v2) of
       (LNumber a, LNumber b) \<Rightarrow> ret (truth (luai_numlt a b))
     | (LString a, LString b) \<Rightarrow> bindX (strcmp_x E a b) (\<lambda>c. ret (truth (c < 0)))
     | _ \<Rightarrow> bindX (call_orderTM call p1 p2 TM_LT) (\<lambda>res.
              if res \<noteq> -1 then ret res else luaG_ordererror E call v1 v2)) Q L"
      using err[OF after_refl[OF g]] tm Q[OF after_refl[OF g]]
      by (auto simp: ok_simps ok_bind split: TValue.splits intro: ok_strcmp[OF E])
  qed
qed

lemma ok_lessequal:
  assumes r: "ready L" and c: "caller_ok call" and E: "collates E" and p: "oper_ok L p1" "oper_ok L p2"
    and Q: "\<And>b L'. after L L' \<Longrightarrow> Q b L'"
  shows "ok (lessequal E call p1 p2) Q L"
proof -
  note g = readyD(1)[OF r]
  show ?thesis
    unfolding lessequal_def ok_bind
  proof (rule ok_deref[OF g p(1)], rule ok_deref[OF g p(2)])
    fix v1 v2 assume v: "value_ok L v1" "value_ok L v2"
    have err: "ok (luaG_ordererror E call v1 v2) R L'" if a: "after L L'" for L' and R :: "int \<Rightarrow> lua_State \<Rightarrow> bool"
      by (rule ok_ordererror[OF ready_after[OF r a] c keeps_value[OF after_keeps[OF a] v(1)] keeps_value[OF after_keeps[OF a] v(2)]])
    have tm2: "ok (call_orderTM call p2 p1 TM_LT) (\<lambda>res2. ok (if res2 \<noteq> -1 then ret (truth (res2 = 0)) else luaG_ordererror E call v1 v2) Q) L'"
      if a: "after L L'" for L'
      by (rule ok_call_orderTM[OF ready_after[OF r a] c])
        (use err after_trans[OF a] Q oper_ok_keeps[OF after_keeps[OF a]] p in \<open>simp_all add: ok_simps\<close>)
    have tm: "ok (call_orderTM call p1 p2 TM_LE) (\<lambda>res. ok (if res \<noteq> -1 then ret res
              else bindX (call_orderTM call p2 p1 TM_LT) (\<lambda>res2.
                if res2 \<noteq> -1 then ret (truth (res2 = 0)) else luaG_ordererror E call v1 v2)) Q) L"
      by (rule ok_call_orderTM[OF r c p]) (use tm2 Q in \<open>simp add: ok_simps ok_bind\<close>)
    show "ok (if ttype v1 \<noteq> ttype v2 then luaG_ordererror E call v1 v2
     else case (v1, v2) of
       (LNumber a, LNumber b) \<Rightarrow> ret (truth (luai_numle a b))
     | (LString a, LString b) \<Rightarrow> bindX (strcmp_x E a b) (\<lambda>c. ret (truth (c \<le> 0)))
     | _ \<Rightarrow> bindX (call_orderTM call p1 p2 TM_LE) (\<lambda>res.
              if res \<noteq> -1 then ret res
              else bindX (call_orderTM call p2 p1 TM_LT) (\<lambda>res2.
                if res2 \<noteq> -1 then ret (truth (res2 = 0)) else luaG_ordererror E call v1 v2))) Q L"
      using err[OF after_refl[OF g]] tm Q[OF after_refl[OF g]]
      by (auto simp: ok_simps ok_bind split: TValue.splits intro: ok_strcmp[OF E])
  qed
qed

lemma good_udata: "good L \<Longrightarrow> udatas L u = Some d \<Longrightarrow> meta_ok L (u_metatable d)"
  using goodD(1) by (auto simp: heap_ok_def)

lemma good_meta: "good L \<Longrightarrow> tables L h = Some t \<Longrightarrow> meta_ok L (metatable t)"
  using good_table_ok by (auto simp: table_ok_def)

lemma ok_equalval:
  assumes r: "ready L" and c: "caller_ok call" and p: "oper_ok L p1" "oper_ok L p2"
    and Q: "\<And>b L'. after L L' \<Longrightarrow> Q b L'"
  shows "ok (luaV_equalval call p1 p2) Q L"
proof -
  note g = readyD(1)[OF r]
  let ?tagged = "\<lambda>tm. case tm of None \<Rightarrow> ret 0
         | Some f \<Rightarrow> bindX (get l_top) (\<lambda>t. thenX (callTMres call t f p1 p2) truth_at_top)"
  have tagged: "ok (get_compTM m1 m2 TM_EQ) (\<lambda>tm. ok (?tagged tm) Q) L" if m: "meta_ok L m1" "meta_ok L m2" for m1 m2
  proof (rule ok_get_compTM[OF g m])
    fix x L' assume a: "after L L'" and v: "\<And>v. x = Some v \<Longrightarrow> value_ok L' v"
    have "ok (bindX (get l_top) (\<lambda>t. thenX (callTMres call t f p1 p2) truth_at_top)) Q L'" if "x = Some f" for f
      by (rule ok_truth_of[OF ready_after[OF r a] c v[OF that]])
        (use p oper_ok_keeps[OF after_keeps[OF a]] Q after_trans[OF a] in auto)
    then show "ok (?tagged x) Q L'" using Q[OF a] by (cases x) (simp_all only: option.case ok_simps(1))
  qed
  show ?thesis
    unfolding luaV_equalval_def ok_bind Let_def
  proof (rule ok_deref[OF g p(1)], rule ok_deref[OF g p(2)])
    fix v1 v2 assume v: "value_ok L v1" "value_ok L v2"
    have t: "ok (bindX (get_table a) (\<lambda>ta. bindX (get_table b) (\<lambda>tb.
          bindX (get_compTM (metatable ta) (metatable tb) TM_EQ) ?tagged))) Q L"
      if "v1 = LTable a" "v2 = LTable b" for a b
      using that v tagged good_meta[OF g] by (auto simp: ok_bind ok_heap)
    have u: "ok (bindX (get_udata a) (\<lambda>ta. bindX (get_udata b) (\<lambda>tb.
          bindX (get_compTM (u_metatable ta) (u_metatable tb) TM_EQ) ?tagged))) Q L"
      if "v1 = LUserdata a" "v2 = LUserdata b" for a b
      using that v tagged good_udata[OF g] by (auto simp: ok_bind ok_heap)
    show "ok (case (v1, v2) of
          (LNil, LNil) \<Rightarrow> ret 1
        | (LNumber a, LNumber b) \<Rightarrow> ret (truth (luai_numeq a b))
        | (LBoolean a, LBoolean b) \<Rightarrow> ret (truth (a = b))
        | (LLightUserdata a, LLightUserdata b) \<Rightarrow> ret (truth (a = b))
        | (LUserdata a, LUserdata b) \<Rightarrow>
            (if a = b then ret 1
             else bindX (get_udata a) (\<lambda>ua. bindX (get_udata b) (\<lambda>ub.
                    bindX (get_compTM (u_metatable ua) (u_metatable ub) TM_EQ) ?tagged)))
        | (LTable a, LTable b) \<Rightarrow>
            (if a = b then ret 1
             else bindX (get_table a) (\<lambda>ta. bindX (get_table b) (\<lambda>tb.
                    bindX (get_compTM (metatable ta) (metatable tb) TM_EQ) ?tagged)))
        | _ \<Rightarrow> ret (truth (gcvalue v1 = gcvalue v2))) Q L"
      using Q[OF after_refl[OF g]] t u by (cases v1; cases v2) (simp_all only: prod.case TValue.case ok_simps(1) ok_if if_cancel simp_thms)
  qed
qed

lemma ok_equalobj:
  assumes r: "ready L" and c: "caller_ok call" and p: "oper_ok L p1" "oper_ok L p2"
    and Q: "\<And>b L'. after L L' \<Longrightarrow> Q b L'"
  shows "ok (equalobj call p1 p2) Q L"
  unfolding equalobj_def ok_bind
  by (rule ok_deref[OF readyD(1)[OF r] p(1)], rule ok_deref[OF readyD(1)[OF r] p(2)])
    (use ok_equalval[OF r c p Q] Q[OF after_refl[OF readyD(1)[OF r]]] in \<open>simp add: ok_simps\<close>)

subsection \<open>Arithmetic\<close>

lemma ok_Arith:
  assumes r: "ready L" and c: "caller_ok call" and p: "oper_ok L p1" "oper_ok L p2"
    and res: "l_base L \<le> res" "res < stacksize L" and Q: "\<And>L'. after L L' \<Longrightarrow> Q () L'"
  shows "ok (Arith E call res p1 p2 tm) Q L"
proof -
  note g = readyD(1)[OF r]
  have err: "ok (luaG_aritherror E call p1 p2) Q L'" if a: "after L L'" for L'
    unfolding luaG_aritherror_def ok_bind
    by (rule ok_deref[OF after_good[OF a] oper_ok_keeps[OF after_keeps[OF a] p(1)]], rule ok_typeerror[OF ready_after[OF r a] c])
      (use p oper_ok_keeps[OF after_keeps[OF a]] in auto)
  have tagged: "ok (bindX (call_binTM call p1 p2 res tm) (\<lambda>r. if r then ret () else luaG_aritherror E call p1 p2)) Q L"
    unfolding ok_bind by (rule ok_call_binTM[OF r c p res]) (use Q err in \<open>auto simp: ok_simps\<close>)
  have number: "ok (set_s res (LNumber n)) Q L" for n
    by (rule ok_set_above[OF g res]) (auto intro: Q)
  show ?thesis
    unfolding Arith_def ok_bind
    by (rule ok_deref[OF g p(1)], rule ok_deref[OF g p(2)])
      (use tagged number in \<open>auto split: option.splits\<close>)
qed

subsection \<open>Concatenation\<close>

definition string_at :: "lua_State \<Rightarrow> int \<Rightarrow> bool" where
  "string_at L i = (\<exists>s. stack L ! nat i = LString s)"

lemma ok_tostring_at:
  assumes g: "good L" and i: "l_base L \<le> i" "i < stacksize L"
    and Q: "\<And>b v L'. after L L' \<Longrightarrow> stack L' = (stack L)[nat i := v] \<Longrightarrow> (b \<Longrightarrow> \<exists>s. v = LString s) \<Longrightarrow>
      (\<not> b \<Longrightarrow> stack L' = stack L) \<Longrightarrow> Q b L'"
  shows "ok (tostring_at E i) Q L"
  unfolding tostring_at_def ok_bind
proof (simp only: ok_simps, intro conjI)
  show b: "0 \<le> i" "i < stacksize L" using i goodD[OF g] by linarith+
  let ?v = "stack L ! nat i"
  have same: "(stack L)[nat i := ?v] = stack L" by simp
  have num: "ok (newlstr_x s) (\<lambda>s. ok (set_s i (LString s)) (\<lambda>_. Q True)) L" for s
  proof (rule ok_newlstr[OF g])
    fix ts L' assume a: "after L L'" "ts \<in> strs L'" "stack L' = stack L"
    have "ok (set_s i (LString ts)) (\<lambda>_ L''. after L' L'' \<and> stack L'' = (stack L')[nat i := LString ts]) L'"
      using good_set_above[OF after_good[OF a(1)], of i "LString ts"] i a after_dims[OF goodD(12)[OF g] a(1)] b
      by (simp add: ok_simps)
    then show "ok (set_s i (LString ts)) (\<lambda>_. Q True) L'"
      by (rule ok_mono) (use a Q[of _ "LString ts" True] after_trans[OF a(1)] in auto)
  qed
  show "ok (case ?v of LString _ \<Rightarrow> ret True
   | LNumber n \<Rightarrow> bindX (newlstr_x (number2str E n)) (\<lambda>s. thenX (set_s i (LString s)) (ret True))
   | _ \<Rightarrow> ret False) Q L"
    using num Q[OF after_refl[OF g], of ?v] same
    by (auto simp: ok_simps ok_bind split: TValue.splits)
qed

lemma string_at_tostring:
  assumes "string_at L j \<or> j = i \<and> b" "stack L' = (stack L)[nat i := v]" "b \<Longrightarrow> \<exists>s. v = LString s" "\<not> b \<Longrightarrow> stack L' = stack L"
    "0 \<le> i" "i < stacksize L" "0 \<le> j"
  shows "string_at L' j"
proof (cases b)
  case True
  then obtain ts where v: "v = LString ts" using assms(3) by blast
  have "nat i < length (stack L)" using assms(5,6) unfolding stacksize_def by linarith
  then have "stack L' ! nat j = (if j = i then v else stack L ! nat j)"
    using assms(5,7) by (simp add: assms(2) nth_list_update nat_eq_iff2)
  then show ?thesis using assms(1) v by (auto simp: string_at_def)
next
  case False
  then show ?thesis using assms(1) assms(4) by (simp add: string_at_def)
qed

lemma ok_collect_loop:
  assumes r: "ready L" and c: "caller_ok call" and n: "0 \<le> n" "\<And>j. 1 \<le> j \<Longrightarrow> j \<le> n \<Longrightarrow> string_at L (tp - j)"
    and b: "l_base L \<le> tp - n - int k" "tp \<le> stacksize L"
    and Q: "\<And>m len L'. after L L' \<Longrightarrow> (\<And>j. 1 \<le> j \<Longrightarrow> j \<le> m \<Longrightarrow> string_at L' (tp - j)) \<Longrightarrow> n \<le> m \<Longrightarrow> m \<le> n + int k \<Longrightarrow> Q (m, len) L'"
  shows "ok (collect_loop E call k tp n len) Q L"
  using assms
proof (induction k arbitrary: n len L)
  case 0
  then show ?case using after_refl[OF readyD(1)] by (simp add: ok_simps)
next
  case (Suc k)
  note r = Suc.prems(1) and n = Suc.prems(3,4) and Q = Suc.prems(7)
  note g = readyD(1)[OF r]
  let ?i = "tp - n - 1"
  have i: "l_base L \<le> ?i" "?i < stacksize L" "0 \<le> ?i" using Suc.prems(3,5,6) goodD(8)[OF g] by auto
  show ?case
    unfolding collect_loop.simps ok_bind
  proof (rule ok_tostring_at[OF g i(1,2)])
    fix b v L1 assume a: "after L L1" and s: "stack L1 = (stack L)[nat ?i := v]" "b \<Longrightarrow> \<exists>s. v = LString s" "\<not> b \<Longrightarrow> stack L1 = stack L"
    note d = after_dims[OF goodD(12)[OF g] a]
    have keep: "string_at L1 j" if "string_at L j \<or> j = ?i \<and> b" "0 \<le> j" for j
      by (rule string_at_tostring[OF that(1) s(1)]) (use s(2,3) i that in auto)
    have str: "string_at L1 (tp - j)" if "1 \<le> j" "j \<le> n" for j
      using keep[of "tp - j"] n(2)[OF that] that i by (simp add: algebra_simps) 
    have stop: "\<not> b \<Longrightarrow> Q (n, len) L1" by (rule Q[OF a str]) auto
    have "ok (get_s ?i) (\<lambda>v. ok (case v of LString s \<Rightarrow>
              (if int MAX_SIZET - int len \<le> int (ts_len s) then luaG_runerror E call ''string length overflow''
               else collect_loop E call k tp (n + 1) (len + ts_len s))
          | _ \<Rightarrow> leave Undefined) Q) L1" if b: b
    proof -
      have this_one: "string_at L1 ?i" using keep[of ?i] b i by simp
      have all: "string_at L1 (tp - j)" if "1 \<le> j" "j \<le> n + 1" for j
        using str[of j] this_one that by (cases "j = n + 1") (simp_all add: diff_diff_eq)
      have "ok (collect_loop E call k tp (n + 1) m) Q L1" for m
        by (rule Suc.IH[OF ready_after[OF r a] c])
          (use n(1) all Suc.prems(5,6) d Q after_trans[OF a] in \<open>auto simp: algebra_simps\<close>)
      moreover obtain ts where "stack L1 ! nat ?i = LString ts" using this_one by (auto simp: string_at_def)
      ultimately show ?thesis using i d by (simp add: ok_simps ok_runerror[OF ready_after[OF r a] c])
    qed
    then show "ok (if b then bindX (get_s ?i) (\<lambda>v. case v of LString s \<Rightarrow>
              (if int MAX_SIZET - int len \<le> int (ts_len s) then luaG_runerror E call ''string length overflow''
               else collect_loop E call k tp (n + 1) (len + ts_len s))
          | _ \<Rightarrow> leave Undefined) else ret (n, len)) Q L1"
      using stop by (simp add: ok_bind ok_simps(1))
  qed
qed

lemma ok_copy_strings:
  assumes "\<And>j. 1 \<le> j \<Longrightarrow> j \<le> int n \<Longrightarrow> string_at L (tp - j)" "int n \<le> tp" "tp \<le> stacksize L" "\<And>s. Q s L"
  shows "ok (copy_strings n tp) Q L"
  using assms
proof (induction n arbitrary: Q)
  case 0
  then show ?case by (simp add: ok_simps)
next
  case (Suc n)
  obtain ts where "stack L ! nat (tp - int (Suc n)) = LString ts"
    using Suc.prems(1)[of "int (Suc n)"] by (auto simp: string_at_def)
  moreover have "ok (copy_strings n tp) (\<lambda>rest. Q (ts_str ts @ rest)) L"
    by (rule Suc.IH) (use Suc.prems in auto)
  ultimately show ?case using Suc.prems(2,3) by (simp add: ok_simps ok_bind)
qed

lemma ok_concat_turn:
  assumes r: "ready L" and c: "caller_ok call" and n: "2 \<le> cnt" "cnt - 1 \<le> lst" "l_base L + lst < stacksize L"
    and Q: "\<And>m L'. after L L' \<Longrightarrow> 1 \<le> m \<Longrightarrow> m \<le> cnt \<Longrightarrow> Q m L'"
  shows "ok (concat_turn E call cnt lst) Q L"
proof -
  note g = readyD(1)[OF r]
  define tp where "tp = l_base L + lst + 1"
  have i: "l_base L \<le> tp - 2" "tp \<le> stacksize L" "0 \<le> tp - 2" "tp - 2 < stacksize L" "tp - 1 < stacksize L"
    "l_base L \<le> tp - 1" "l_base L \<le> tp - cnt"
    using n goodD(8)[OF g] by (auto simp: tp_def)
  let ?tm = "bindX (call_binTM call (OStack (tp - 2)) (OStack (tp - 1)) (tp - 2) TM_CONCAT) (\<lambda>r.
            if r then ret 2 else luaG_concaterror E call (OStack (tp - 2)) (OStack (tp - 1)))"
  let ?cat = "\<lambda>v1. case v1 of LString s \<Rightarrow>
         (if ts_len s = 0 then thenX (tostring_at E (tp - 2)) (ret 2)
          else bindX (collect_loop E call (nat (cnt - 1)) tp 1 (ts_len s)) (\<lambda>(n, _).
               bindX (copy_strings (nat n) tp) (\<lambda>buffer.
               bindX (newlstr_x buffer) (\<lambda>str. thenX (set_s (tp - n) (LString str)) (ret n)))))
     | _ \<Rightarrow> leave Undefined"
  have tm: "ok ?tm Q L'" if a: "after L L'" for L'
    unfolding ok_bind
  proof (rule ok_call_binTM[OF ready_after[OF r a] c])
    note d = after_dims[OF goodD(12)[OF g] a]
    show o: "oper_ok L' (OStack (tp - 2))" "oper_ok L' (OStack (tp - 1))" "l_base L' \<le> tp - 2" "tp - 2 < stacksize L'"
      using i d by (auto simp: oper_ok_def)
    fix b L2 assume a2: "after L' L2"
    have "ok (luaG_concaterror E call (OStack (tp - 2)) (OStack (tp - 1))) Q L2"
      by (rule ok_concaterror[OF ready_after[OF ready_after[OF r a] a2] c])
        (use o oper_ok_keeps[OF after_keeps[OF a2]] in auto)
    then show "ok (if b then ret 2 else luaG_concaterror E call (OStack (tp - 2)) (OStack (tp - 1))) Q L2"
      using Q[OF after_trans[OF a a2]] n by (simp add: ok_simps)
  qed
  have cat: "ok (get_s (tp - 1)) (\<lambda>v1. ok (?cat v1) Q) L1" if a: "after L L1" and s1: "string_at L1 (tp - 1)" for L1
  proof -
    note d = after_dims[OF goodD(12)[OF g] a]
    note r1 = ready_after[OF r a]
    obtain s where s: "stack L1 ! nat (tp - 1) = LString s" using s1 by (auto simp: string_at_def)
    have "ok (tostring_at E (tp - 2)) (\<lambda>_. Q 2) L1"
      by (rule ok_tostring_at[OF readyD(1)[OF r1]]) (use i d n Q after_trans[OF a] in auto)
    moreover have "ok (collect_loop E call (nat (cnt - 1)) tp 1 (ts_len s)) (\<lambda>x. ok (case x of (n, _) \<Rightarrow>
               bindX (copy_strings (nat n) tp) (\<lambda>buffer.
               bindX (newlstr_x buffer) (\<lambda>str. thenX (set_s (tp - n) (LString str)) (ret n)))) Q) L1"
    proof (rule ok_collect_loop[OF r1 c])
      fix m len L2 assume a2: "after L1 L2" and str: "\<And>j. 1 \<le> j \<Longrightarrow> j \<le> m \<Longrightarrow> string_at L2 (tp - j)" and m: "1 \<le> m" "m \<le> 1 + int (nat (cnt - 1))"
      note a02 = after_trans[OF a a2]
      note d2 = after_dims[OF goodD(12)[OF g] a02]
      have "ok (newlstr_x buffer) (\<lambda>str. ok (set_s (tp - m) (LString str)) (\<lambda>_. Q m)) L2" for buffer
      proof (rule ok_newlstr[OF after_good[OF a2]])
        fix ts L3 assume a3: "after L2 L3" "ts \<in> strs L3"
        note a03 = after_trans[OF a02 a3(1)]
        show "ok (set_s (tp - m) (LString ts)) (\<lambda>_. Q m) L3"
          by (rule ok_set_above[OF after_good[OF a3(1)]])
            (use m n i a3(2) after_dims[OF goodD(12)[OF g] a03] Q after_trans[OF a03] in auto)
      qed
      then have "ok (copy_strings (nat m) tp) (\<lambda>b. ok (newlstr_x b) (\<lambda>str. ok (set_s (tp - m) (LString str)) (\<lambda>_. Q m))) L2"
        by (intro ok_copy_strings) (use str m n i d2 goodD(8)[OF g] in auto)
      then show "ok (case (m, len) of (n, _) \<Rightarrow> bindX (copy_strings (nat n) tp) (\<lambda>buffer.
               bindX (newlstr_x buffer) (\<lambda>str. thenX (set_s (tp - n) (LString str)) (ret n)))) Q L2"
        by (simp add: ok_bind ok_simps(1))
    qed (use s1 i d n in auto)
    ultimately show ?thesis using s i d goodD(8)[OF g] by (simp add: ok_bind ok_simps)
  qed
  have "ok (tostring_at E (tp - 1)) (\<lambda>b. ok (if \<not> b then ?tm else bindX (get_s (tp - 1)) ?cat) Q) L"
  proof (rule ok_tostring_at[OF g i(6,5)])
    fix b v L1 assume a: "after L L1" and s: "stack L1 = (stack L)[nat (tp - 1) := v]" "b \<Longrightarrow> \<exists>s. v = LString s" "\<not> b \<Longrightarrow> stack L1 = stack L"
    have "string_at L1 (tp - 1)" if b
      by (rule string_at_tostring[where i = "tp - 1" and b = b and v = v and L = L]) (use s that i in auto)
    then show "ok (if \<not> b then ?tm else bindX (get_s (tp - 1)) ?cat) Q L1"
      using tm[OF a] cat[OF a] by (cases b) (simp_all only: if_True if_False simp_thms ok_bind)
  qed
  then have "ok (if strnum v2 then tostring_at E (tp - 1) else ret False) (\<lambda>b. ok (if \<not> b then ?tm else bindX (get_s (tp - 1)) ?cat) Q) L" for v2
    using tm[OF after_refl[OF g]] by (cases "strnum v2") (simp_all only: if_True if_False simp_thms ok_simps(1))
  then show ?thesis
    unfolding concat_turn_def ok_bind ok_simps(2,8) tp_def[symmetric] using i(3,4) by blast
qed

lemma ok_concat_loop:
  assumes "ready L" "caller_ok call" "2 \<le> cnt" "cnt - 1 \<le> lst" "l_base L + lst < stacksize L" "\<And>L'. after L L' \<Longrightarrow> Q () L'"
  shows "ok (concat_loop fuel E call cnt lst) Q L"
  using assms
proof (induction fuel arbitrary: cnt lst L)
  case 0
  then show ?case by (simp add: ok_simps)
next
  case (Suc fuel)
  show ?case
    unfolding concat_loop.simps ok_bind
  proof (rule ok_concat_turn[OF Suc.prems(1-5)])
    fix m L' assume a: "after L L'" and m: "1 \<le> m" "m \<le> cnt"
    have "1 < cnt - (m - 1) \<Longrightarrow> ok (concat_loop fuel E call (cnt - (m - 1)) (lst - (m - 1))) Q L'"
      by (rule Suc.IH[OF ready_after[OF Suc.prems(1) a] Suc.prems(2)])
        (use m Suc.prems after_dims[OF goodD(12)[OF readyD(1)[OF Suc.prems(1)]] a] after_trans[OF a] in auto)
    then show "ok (if 1 < cnt - (m - 1) then concat_loop fuel E call (cnt - (m - 1)) (lst - (m - 1)) else ret ()) Q L'"
      using Suc.prems(6)[OF a] by (simp add: ok_simps(1))
  qed
qed

lemma ok_concat:
  assumes "ready L" "caller_ok call" "2 \<le> cnt" "cnt - 1 \<le> lst" "l_base L + lst < stacksize L" "\<And>L'. after L L' \<Longrightarrow> Q () L'"
  shows "ok (luaV_concat E call cnt lst) Q L"
  unfolding luaV_concat_def by (rule ok_concat_loop[OF assms(1-5)]) (use assms(6) in auto)

end
