(* ===== verification/VMFrames.thy ===== *)
theory VMFrames
  imports VMArith
begin

text \<open>
  A running Lua function: what the checker says of the instruction it is at, where its frame lies, the frames of the
  functions that wait for it, and how one instruction takes this from one position to the next.
\<close>

subsection \<open>The instruction at a position\<close>

definition arg_ok :: "Proto \<Rightarrow> OpArgMask \<Rightarrow> int \<Rightarrow> bool" where
  "arg_ok p m r = (case m of OpArgN \<Rightarrow> r = 0 | OpArgU \<Rightarrow> True | OpArgR \<Rightarrow> r < maxreg p
     | OpArgK \<Rightarrow> if ISK r then INDEXK r < p_sizek p else r < maxreg p)"

lemma checkArgMode_True: "checkArgMode p r m = Inr (Some u) \<longleftrightarrow> arg_ok p m r"
  by (cases m) (simp_all add: checkArgMode_def arg_ok_def)

definition at_op :: "TString set \<Rightarrow> Proto \<Rightarrow> int \<Rightarrow> OpCode \<Rightarrow> bool" where
  "at_op I p pc op = (code_ok I p \<and> visited p pc \<and> pc < p_sizecode p \<and> GET_OPCODE (instr p pc) = op_num op)"

lemma at_opD:
  assumes "at_op I p pc op"
  shows "code_ok I p" "visited p pc" "0 \<le> pc" "pc < p_sizecode p" "GET_OPCODE (p_code p ! nat pc) = op_num op"
    "decode_op (GET_OPCODE (p_code p ! nat pc)) = Some op" "opcode_at p pc op" "tight p" "tight_instr p pc" "precheck p"
    "opcode_at p pc op' \<longleftrightarrow> op' = op"
proof -
  show a: "code_ok I p" "visited p pc" "pc < p_sizecode p" "GET_OPCODE (p_code p ! nat pc) = op_num op"
    using assms by (auto simp: at_op_def instr_def)
  show b: "0 \<le> pc" by (rule visited_nonneg[OF a(2)])
  show "decode_op (GET_OPCODE (p_code p ! nat pc)) = Some op" using a(4) decode_op_Some by blast
  show "opcode_at p pc op" "opcode_at p pc op' \<longleftrightarrow> op' = op" using a b op_num_inject by (auto simp: opcode_at_def instr_def)
  show "tight p" by (rule code_okD(2)[OF a(1)])
  then show "tight_instr p pc" by (simp add: tight_def)
  show "precheck p" by (rule precheck_True[OF code_okD(1)[OF a(1)]])
qed

lemma at_op_checked:
  assumes a: "at_op I p pc op"
  obtains b c lst r where "GETARG_A (instr p pc) < maxreg p"
    "sx_operands p pc (instr p pc) (op_num op) = Inr (Some (b, c))"
    "sx_skip p pc (op_num op) = Inr (Some ())"
    "sx_op p (p_sizecode p) NO_REG pc lst op (GETARG_A (instr p pc)) b c = Inr (Some r)"
proof -
  note d = at_opD[OF a]
  obtain op' b c lst r where o: "GET_OPCODE (p_code p ! nat pc) = op_num op'" "GETARG_A (p_code p ! nat pc) < maxreg p"
    "sx_operands p pc (p_code p ! nat pc) (op_num op') = Inr (Some (b, c))" "sx_skip p pc (op_num op') = Inr (Some ())"
    "sx_op p (p_sizecode p) NO_REG pc lst op' (GETARG_A (p_code p ! nat pc)) b c = Inr (Some r)"
    by (rule checked_atD[OF checkcode_True(2)[OF code_okD(1)[OF d(1)] d(2,4)]]) blast
  then have "op' = op" using d(5) op_num_inject[of op' op] by auto
  then show ?thesis using o by (intro that[of b c lst r]) (simp_all add: instr_def)
qed

text \<open>The operands, by the format of the opcode.\<close>

definition reads_B :: "OpCode set" where
  "reads_B = {OP_MOVE, OP_LOADNIL, OP_GETTABLE, OP_SELF, OP_UNM, OP_NOT, OP_LEN, OP_CONCAT, OP_TEST, OP_TESTSET}"

definition reads_C :: "OpCode set" where "reads_C = {OP_CONCAT}"

definition reads_RKB :: "OpCode set" where
  "reads_RKB = {OP_SETTABLE, OP_ADD, OP_SUB, OP_MUL, OP_DIV, OP_MOD, OP_POW, OP_EQ, OP_LT, OP_LE}"

definition reads_RKC :: "OpCode set" where "reads_RKC = reads_RKB \<union> {OP_GETTABLE, OP_SELF}"

lemmas reads_defs = reads_B_def reads_C_def reads_RKB_def reads_RKC_def

lemma at_op_args:
  assumes a: "at_op I p pc op"
  shows "0 \<le> GETARG_A (instr p pc)" "GETARG_A (instr p pc) < maxreg p"
    "op \<in> reads_B \<Longrightarrow> GETARG_B (instr p pc) < maxreg p" "op \<in> reads_C \<Longrightarrow> GETARG_C (instr p pc) < maxreg p"
    "op \<in> reads_RKB \<Longrightarrow> arg_ok p OpArgK (GETARG_B (instr p pc))"
    "op \<in> reads_RKC \<Longrightarrow> arg_ok p OpArgK (GETARG_C (instr p pc))"
    "op \<in> {OP_LOADK, OP_GETGLOBAL, OP_SETGLOBAL} \<Longrightarrow> GETARG_Bx (instr p pc) < p_sizek p"
proof -
  show "0 \<le> GETARG_A (instr p pc)" by (rule getarg_bounds)
  obtain b c lst r where o: "GETARG_A (instr p pc) < maxreg p"
    "sx_operands p pc (instr p pc) (op_num op) = Inr (Some (b, c))"
    by (rule at_op_checked[OF a]) blast
  show "GETARG_A (instr p pc) < maxreg p" by (rule o)
  have abc: "arg_ok p (getBMode (op_num op)) (GETARG_B (instr p pc)) \<and> arg_ok p (getCMode (op_num op)) (GETARG_C (instr p pc))"
    if "getOpMode (op_num op) = iABC"
    using o(2) that by (auto simp: sx_operands_def bindC_eq_Some checkArgMode_True Let_def)
  have m: "getOpMode (op_num op) = iABC" if "op \<in> reads_B \<or> op \<in> reads_C \<or> op \<in> reads_RKB \<or> op \<in> reads_RKC"
    using that unfolding getOpMode_op by (auto simp: reads_defs)
  show "op \<in> reads_B \<Longrightarrow> GETARG_B (instr p pc) < maxreg p"
    using abc m getBMode_op[of op] by (auto simp: reads_defs arg_ok_def)
  show "op \<in> reads_C \<Longrightarrow> GETARG_C (instr p pc) < maxreg p"
    using abc m getCMode_op[of op] by (auto simp: reads_defs arg_ok_def)
  show "op \<in> reads_RKB \<Longrightarrow> arg_ok p OpArgK (GETARG_B (instr p pc))"
    using abc m getBMode_op[of op] by (auto simp: reads_defs)
  show "op \<in> reads_RKC \<Longrightarrow> arg_ok p OpArgK (GETARG_C (instr p pc))"
    using abc m getCMode_op[of op] by (auto simp: reads_defs)
  show "op \<in> {OP_LOADK, OP_GETGLOBAL, OP_SETGLOBAL} \<Longrightarrow> GETARG_Bx (instr p pc) < p_sizek p"
    using o(2) getOpMode_op[of op] getBMode_op[of op] by (auto simp: sx_operands_def bindC_eq_Some Let_def)
qed

text \<open>What the checker tests of a particular opcode, on the operands of its format.\<close>

definition operand_b :: "OpCode \<Rightarrow> Instruction \<Rightarrow> int" where
  "operand_b op i = (if op \<in> {OP_JMP, OP_FORLOOP, OP_FORPREP} then GETARG_sBx i
     else if op \<in> {OP_LOADK, OP_GETGLOBAL, OP_SETGLOBAL, OP_CLOSURE} then GETARG_Bx i else GETARG_B i)"

definition operand_c :: "OpCode \<Rightarrow> Instruction \<Rightarrow> int" where
  "operand_c op i = (if op \<in> {OP_JMP, OP_FORLOOP, OP_FORPREP, OP_LOADK, OP_GETGLOBAL, OP_SETGLOBAL, OP_CLOSURE} then 0
     else GETARG_C i)"

lemma at_op_sx:
  assumes a: "at_op I p pc op"
  obtains lst r where "sx_op p (p_sizecode p) NO_REG pc lst op (GETARG_A (instr p pc)) (operand_b op (instr p pc))
      (operand_c op (instr p pc)) = Inr (Some r)"
proof (rule at_op_checked[OF a])
  fix b c lst r
  assume o: "sx_operands p pc (instr p pc) (op_num op) = Inr (Some (b, c))"
    and s: "sx_op p (p_sizecode p) NO_REG pc lst op (GETARG_A (instr p pc)) b c = Inr (Some r)"
  have "b = operand_b op (instr p pc) \<and> c = operand_c op (instr p pc)"
    using o by (auto simp: sx_operands_def bindC_eq_Some Let_def getOpMode_op operand_b_def operand_c_def split: if_splits)
  then show ?thesis using s that by blast
qed

lemma at_op_stays:
  assumes "at_op I p pc op" "q \<in> vm_next p pc"
  shows "visited p q" "q < p_sizecode p" "0 \<le> q"
proof -
  note d = at_opD[OF assms(1)]
  have "GET_OPCODE (p_code p ! nat pc) = op_num OP_LOADBOOL \<longrightarrow> GETARG_C (p_code p ! nat pc) \<le> 1"
    using d(3,4,9) by (auto simp: tight_instr_def opcode_at_def instr_def)
  then show "visited p q" "q < p_sizecode p"
    using control_stays[OF code_okD(1)[OF d(1)] d(2,4) _ assms(2)] by auto
  then show "0 \<le> q" using visited_nonneg by blast
qed

lemma at_op_follows:
  assumes a: "at_op I p pc op" "op \<noteq> OP_RETURN" shows "pc + 1 < p_sizecode p"
  using follows_inside[OF at_opD(10,3,4,5)[OF a(1)] a(2)] .

text \<open>Per opcode.\<close>

lemma at_op_setupval:
  "at_op I p pc op \<Longrightarrow> op \<in> {OP_GETUPVAL, OP_SETUPVAL} \<Longrightarrow> GETARG_B (instr p pc) < uint (p_nups p)"
  by (erule at_op_sx) (auto simp: sx_op_def bindC_eq_Some operand_b_def operand_c_def)

lemma at_op_self: "at_op I p pc OP_SELF \<Longrightarrow> GETARG_A (instr p pc) + 1 < maxreg p"
  by (erule at_op_sx) (auto simp: sx_op_def bindC_eq_Some operand_b_def operand_c_def)

lemma at_op_concat: "at_op I p pc OP_CONCAT \<Longrightarrow> GETARG_B (instr p pc) < GETARG_C (instr p pc)"
  by (erule at_op_sx) (auto simp: sx_op_def bindC_eq_Some operand_b_def operand_c_def)

lemma at_op_for: "at_op I p pc op \<Longrightarrow> op \<in> {OP_FORLOOP, OP_FORPREP} \<Longrightarrow> GETARG_A (instr p pc) + 3 < maxreg p"
  by (erule at_op_sx) (auto simp: sx_op_def bindC_eq_Some operand_b_def operand_c_def)

lemma at_op_tforloop:
  assumes "at_op I p pc OP_TFORLOOP"
  shows "1 \<le> GETARG_C (instr p pc)" "GETARG_A (instr p pc) + 2 + GETARG_C (instr p pc) < maxreg p"
    "GETARG_A (instr p pc) + 5 < maxreg p"
proof -
  show "1 \<le> GETARG_C (instr p pc)" "GETARG_A (instr p pc) + 2 + GETARG_C (instr p pc) < maxreg p"
    using assms by (auto simp: sx_op_def bindC_eq_Some operand_b_def operand_c_def elim!: at_op_sx)
  show "GETARG_A (instr p pc) + 5 < maxreg p"
    using at_opD(7,9)[OF assms] by (simp add: tight_instr_def)
qed

lemma at_op_call:
  assumes "at_op I p pc op" "op \<in> {OP_CALL, OP_TAILCALL}"
  shows "GETARG_A (instr p pc) + GETARG_B (instr p pc) \<le> maxreg p"
    "GETARG_A (instr p pc) + GETARG_C (instr p pc) \<le> maxreg p + 1"
    "GETARG_C (instr p pc) = 0 \<Longrightarrow> luaG_checkopenop (instr p (pc + 1))"
proof -
  have A: "GETARG_A (instr p pc) < maxreg p" by (rule at_op_args(2)[OF assms(1)])
  from assms show "GETARG_A (instr p pc) + GETARG_B (instr p pc) \<le> maxreg p"
    "GETARG_A (instr p pc) + GETARG_C (instr p pc) \<le> maxreg p + 1"
    "GETARG_C (instr p pc) = 0 \<Longrightarrow> luaG_checkopenop (instr p (pc + 1))"
    using A by (auto simp: sx_op_def bindC_eq_Some operand_b_def operand_c_def Let_def LUA_MULTRET_def checkopenop_def code_of_simps instr_def
        elim!: at_op_sx split: if_splits)
qed

lemma at_op_return:
  assumes "at_op I p pc OP_RETURN"
  shows "GETARG_A (instr p pc) + GETARG_B (instr p pc) \<le> maxreg p + 1"
  using at_op_args(2)[OF assms] assms
  by (auto simp: sx_op_def bindC_eq_Some operand_b_def operand_c_def elim!: at_op_sx split: if_splits)

lemma at_op_setlist:
  assumes "at_op I p pc OP_SETLIST"
  shows "GETARG_A (instr p pc) + GETARG_B (instr p pc) < maxreg p" "GETARG_C (instr p pc) = 0 \<Longrightarrow> pc + 2 < p_sizecode p"
  using at_op_args(2)[OF assms] assms getarg_bounds(4)[of "instr p pc"]
  by (auto simp: sx_op_def bindC_eq_Some operand_b_def operand_c_def elim!: at_op_sx split: if_splits)

lemma at_op_vararg:
  assumes "at_op I p pc OP_VARARG"
  shows "p_is_vararg p \<noteq> 0" "GETARG_A (instr p pc) + GETARG_B (instr p pc) \<le> maxreg p + 1"
    "GETARG_B (instr p pc) = 0 \<Longrightarrow> luaG_checkopenop (instr p (pc + 1))"
  using at_op_args(2)[OF assms] assms getarg_bounds(4)[of "instr p pc"]
  by (auto simp: sx_op_def bindC_eq_Some operand_b_def operand_c_def LUA_MULTRET_def checkopenop_def code_of_simps instr_def
      elim!: at_op_sx split: if_splits)

subsection \<open>What one instruction changes\<close>

text \<open>Like \<open>keeps\<close>, but \<open>savedpc\<close> and the open upvalues may change.\<close>

definition moves :: "lua_State \<Rightarrow> lua_State \<Rightarrow> bool" where
  "moves L L' = (extends L L' \<and> stacksize L \<le> stacksize L' \<and> same_frames (l_ci L) (l_ci L') \<and> l_base L' = l_base L
     \<and> (\<forall>ci\<in>set (l_ci L). stack L' ! nat (ci_func ci) = stack L ! nat (ci_func ci)))"

lemma keeps_moves: "keeps L L' \<Longrightarrow> moves L L'"
  by (simp add: keeps_def moves_def)

lemma moves_refl [simp]: "moves L L" by (simp add: moves_def)

lemma moves_savedpc: "moves L (L\<lparr>savedpc := s\<rparr>)" by (simp add: moves_def)

lemma same_frames_func:
  assumes "same_frames cs ds" "ci \<in> set cs" shows "\<exists>ci'\<in>set ds. ci_func ci' = ci_func ci"
  using assms same_frames_fields(2)[OF assms(1)] by (metis (mono_tags, opaque_lifting) imageE image_eqI list.set_map)

lemma moves_trans:
  assumes "moves L L'" "moves L' L''" shows "moves L L''"
proof -
  have "\<exists>ci'\<in>set (l_ci L'). ci_func ci' = ci_func ci" if "ci \<in> set (l_ci L)" for ci
    using assms(1) same_frames_func that by (auto simp: moves_def)
  then show ?thesis
    using assms extends_trans[of L L' L''] same_frames_trans[of "l_ci L" "l_ci L'" "l_ci L''"]
    unfolding moves_def by (metis (no_types, lifting) order_trans)
qed

lemma moves_top: "moves L (L\<lparr>l_top := t\<rparr>)" by (simp add: moves_def)

lemma moves_stack_last: "moves L L' \<Longrightarrow> stack_last L \<le> stack_last L'"
  by (simp add: moves_def stack_last_def)

subsection \<open>Frames\<close>

text \<open>The function at the frame is the closure \<open>cl\<close> with the code \<open>p\<close>.\<close>

definition runs :: "lua_State \<Rightarrow> CallInfo \<Rightarrow> addr \<Rightarrow> Proto \<Rightarrow> bool" where
  "runs L ci cl p = (stack L ! nat (ci_func ci) = LFunction cl
     \<and> (\<exists>e us. closures L cl = Some (LClosure e p us) \<and> closure_ok L (LClosure e p us)))"

text \<open>A frame of a Lua function that is at position \<open>pc\<close>.\<close>

definition in_frame :: "lua_State \<Rightarrow> CallInfo \<Rightarrow> Proto \<Rightarrow> (int \<Rightarrow> int) \<Rightarrow> int \<Rightarrow> bool" where
  "in_frame L ci p h pc =
     (closes p h \<and> visited p pc \<and> pc < p_sizecode p
      \<and> ci_top ci = ci_base ci + maxreg p \<and> ci_top ci \<le> stack_last L + 2
      \<and> (p_is_vararg p \<noteq> 0 \<longrightarrow> ci_func ci + uint (p_numparams p) + 1 \<le> ci_base ci)
      \<and> (\<forall>i\<in>levels L. i < ci_func ci \<or> ci_base ci \<le> i))"

text \<open>The frame \<open>prev\<close> has called the one of \<open>ci\<close>.\<close>

definition waits :: "lua_State \<Rightarrow> CallInfo \<Rightarrow> CallInfo \<Rightarrow> bool" where
  "waits L prev ci = (\<exists>cl p h. runs L prev cl p \<and> in_frame L prev p h (ci_savedpc prev) \<and> visited p (ci_savedpc prev - 1)
     \<and> opcode_at p (ci_savedpc prev - 1) OP_CALL
     \<and> ci_func ci = ci_base prev + GETARG_A (instr p (ci_savedpc prev - 1))
     \<and> ci_nresults ci = GETARG_C (instr p (ci_savedpc prev - 1)) - 1
     \<and> (\<forall>i\<in>levels L. i < ci_func ci \<longrightarrow> i < ci_base prev + h (ci_savedpc prev)))"

text \<open>The frames of one run of \<open>luaV_execute\<close>; the lowest one was called at \<open>f\<close> for \<open>n\<close> results.\<close>

fun chain :: "lua_State \<Rightarrow> CallInfo list \<Rightarrow> int \<Rightarrow> int \<Rightarrow> bool" where
  "chain L [] f n = False"
| "chain L [ci] f n = (ci_func ci = f \<and> ci_nresults ci = n)"
| "chain L (ci # prev # fs) f n = (waits L prev ci \<and> chain L (prev # fs) f n)"

text \<open>The state \<open>L\<close> is that of a call at \<open>f\<close> made in state \<open>L0\<close>, with frames \<open>fs\<close> on top.\<close>

definition above :: "int \<Rightarrow> lua_State \<Rightarrow> CallInfo list \<Rightarrow> lua_State \<Rightarrow> bool" where
  "above f L0 fs L = (\<exists>rest. l_ci L = fs @ rest \<and> same_frames (l_ci L0) rest \<and> ci_savedpc (hd rest) = savedpc L0
     \<and> extends L0 L \<and> stacksize L0 \<le> stacksize L \<and> (\<forall>i\<in>levels L. i < f \<longrightarrow> i \<in> levels L0)
     \<and> (\<forall>ci\<in>set (l_ci L0). stack L ! nat (ci_func ci) = stack L0 ! nat (ci_func ci)))"

text \<open>\<open>L->top\<close> is the top of the frame, unless the next instruction takes an open list of values.\<close>

definition top_at :: "Proto \<Rightarrow> int \<Rightarrow> CallInfo \<Rightarrow> lua_State \<Rightarrow> bool" where
  "top_at p pc ci L = (l_top L = ci_top ci \<or> luaG_checkopenop (instr p pc)
     \<and> (opcode_at p pc OP_CALL \<or> opcode_at p pc OP_TAILCALL \<longrightarrow> ci_base ci + GETARG_A (instr p pc) < l_top L))"

definition running :: "lua_State \<Rightarrow> int \<Rightarrow> int \<Rightarrow> CallInfo \<Rightarrow> CallInfo list \<Rightarrow> addr \<Rightarrow> Proto \<Rightarrow> (int \<Rightarrow> int) \<Rightarrow> int \<Rightarrow>
    lua_State \<Rightarrow> bool" where
  "running L0 f n ci fs cl p h pc L =
     (good L0 \<and> good L \<and> - 1 \<le> n \<and> f + n \<le> stack_last L0 + 2 \<and> l_base L0 \<le> f
      \<and> above f L0 (ci # fs) L \<and> chain L (ci # fs) f n \<and> runs L ci cl p \<and> in_frame L ci p h pc
      \<and> (\<forall>i\<in>levels L. i < ci_base ci + h pc) \<and> top_at p pc ci L)"

definition going :: "lua_State \<Rightarrow> int \<Rightarrow> int \<Rightarrow> int \<Rightarrow> addr \<Rightarrow> int \<Rightarrow> lua_State \<Rightarrow> bool" where
  "going L0 f n k cl pc L = (\<exists>ci fs p h. running L0 f n ci fs cl p h pc L \<and> k = int (length (ci # fs)))"

definition returned :: "lua_State \<Rightarrow> int \<Rightarrow> int \<Rightarrow> lua_State \<Rightarrow> bool" where
  "returned L0 f n L' = (good L' \<and> keeps L0 L' \<and> f \<le> l_top L' \<and> (0 \<le> n \<longrightarrow> l_top L' = f + n))"

definition goes :: "lua_State \<Rightarrow> int \<Rightarrow> int \<Rightarrow> int \<Rightarrow> addr \<Rightarrow> vm_result \<Rightarrow> lua_State \<Rightarrow> bool" where
  "goes L0 f n k cl r L' = (case r of
     Continue pc \<Rightarrow> going L0 f n k cl pc L'
   | Reentry k' \<Rightarrow> (\<exists>cl'. going L0 f n k' cl' (savedpc L') L')
   | Return_here \<Rightarrow> returned L0 f n L')"

lemma runs_moves:
  assumes "runs L ci cl p" "extends L L'" "stack L' ! nat (ci_func ci) = stack L ! nat (ci_func ci)"
  shows "runs L' ci cl p"
  using assms extends_Lua[OF assms(2), of cl _ p] unfolding runs_def by metis

lemma runs_shape: "runs L ci' cl p = runs L ci cl p" if "ci_func ci' = ci_func ci"
  using that by (simp add: runs_def)

lemma in_frame_moves:
  assumes "in_frame L ci p h pc" "stacksize L \<le> stacksize L'" "\<And>i. i \<in> levels L' \<Longrightarrow> i \<in> levels L \<or> ci_base ci \<le> i"
  shows "in_frame L' ci p h pc"
  using assms by (auto simp: in_frame_def stack_last_def)

lemma shape_fields:
  "shape ci' = shape ci \<Longrightarrow> ci_base ci' = ci_base ci \<and> ci_func ci' = ci_func ci \<and> ci_top ci' = ci_top ci \<and> ci_nresults ci' = ci_nresults ci"
  by (simp add: shape_def)

lemma in_frame_shape: "in_frame L ci' p h pc = in_frame L ci p h pc" if "shape ci' = shape ci"
  using shape_fields[OF that] by (simp add: in_frame_def)

lemma waits_moves:
  assumes w: "waits L prev ci" and m: "extends L L'" "stacksize L \<le> stacksize L'"
    and s: "stack L' ! nat (ci_func prev) = stack L ! nat (ci_func prev)"
    and lv: "\<And>i. i \<in> levels L' \<Longrightarrow> i \<in> levels L \<or> ci_func ci \<le> i"
  shows "waits L' prev ci"
proof -
  obtain cl p h where o: "runs L prev cl p" "in_frame L prev p h (ci_savedpc prev)" "visited p (ci_savedpc prev - 1)"
     "opcode_at p (ci_savedpc prev - 1) OP_CALL" "ci_func ci = ci_base prev + GETARG_A (instr p (ci_savedpc prev - 1))"
     "ci_nresults ci = GETARG_C (instr p (ci_savedpc prev - 1)) - 1"
     "\<forall>i\<in>levels L. i < ci_func ci \<longrightarrow> i < ci_base prev + h (ci_savedpc prev)"
    using w unfolding waits_def by blast
  have b: "ci_base prev \<le> ci_func ci" using o(5) getarg_bounds(2) by simp
  have "in_frame L' prev p h (ci_savedpc prev)"
    by (rule in_frame_moves[OF o(2) m(2)]) (use lv b in force)
  then show ?thesis
    unfolding waits_def using o lv runs_moves[OF o(1) m(1) s] by (intro exI[of _ cl] exI[of _ p] exI[of _ h]) force
qed

lemma waits_shape: "shape ci' = shape ci \<Longrightarrow> waits L prev ci' = waits L prev ci"
  using shape_fields[of ci' ci] by (simp add: waits_def)

lemma chain_base: "chain L (ci # fs) f n \<Longrightarrow> frames_ok (ci # fs @ rest) \<Longrightarrow> f \<le> ci_func ci"
proof (induction fs arbitrary: ci)
  case (Cons prev fs)
  have fr: "frames_ok (prev # fs @ rest)" "ci_base prev \<le> ci_func ci" using Cons.prems(2) by auto
  have "ci_func prev < ci_base prev" using frames_okD(2)[OF fr(1), of prev] by simp
  moreover have "f \<le> ci_func prev" by (rule Cons.IH[OF _ fr(1)]) (use Cons.prems(1) in simp)
  ultimately show ?case using fr(2) by simp
qed simp

lemma chain_moves:
  assumes "chain L (ci # fs) f n" "shape ci' = shape ci" "extends L L'" "stacksize L \<le> stacksize L'" "frames_ok (ci # fs @ rest)"
    "\<And>c. c \<in> set fs \<Longrightarrow> stack L' ! nat (ci_func c) = stack L ! nat (ci_func c)"
    "\<And>i. i \<in> levels L' \<Longrightarrow> i \<in> levels L \<or> ci_func ci \<le> i"
  shows "chain L' (ci' # fs) f n"
  using assms
proof (induction fs arbitrary: ci ci')
  case Nil
  then show ?case using shape_fields[OF Nil.prems(2)] by simp
next
  case (Cons prev fs)
  have fr: "frames_ok (prev # fs @ rest)" "ci_base prev \<le> ci_func ci" using Cons.prems(5) by auto
  have b: "ci_func prev \<le> ci_func ci" using frames_okD(2)[OF fr(1), of prev] fr(2) by simp
  have c: "waits L prev ci" "chain L (prev # fs) f n" using Cons.prems(1) by auto
  have "chain L' (prev # fs) f n"
  proof (rule Cons.IH[OF c(2) refl Cons.prems(3,4) fr(1)])
    show "stack L' ! nat (ci_func c) = stack L ! nat (ci_func c)" if "c \<in> set fs" for c
      using Cons.prems(6) that by simp
    show "i \<in> levels L \<or> ci_func prev \<le> i" if "i \<in> levels L'" for i
      using Cons.prems(7)[OF that] b by auto
  qed
  moreover have "waits L' prev ci"
    by (rule waits_moves[OF c(1) Cons.prems(3,4) _ Cons.prems(7)]) (use Cons.prems(6) in auto)
  ultimately show ?case using waits_shape[OF Cons.prems(2)] by simp
qed

lemma same_frames_Cons:
  assumes "same_frames (ci # cs) ds"
  obtains ci' where "ds = ci' # cs" "shape ci' = shape ci"
  using assms by (cases ds) (auto simp: same_frames_def)

lemma running_D:
  assumes "running L0 f n ci fs cl p h pc L"
  shows "good L0" "good L" "above f L0 (ci # fs) L" "chain L (ci # fs) f n" "runs L ci cl p" "in_frame L ci p h pc"
    "i \<in> levels L \<Longrightarrow> i < ci_base ci + h pc" "top_at p pc ci L" "l_base L = ci_base ci" "ci_func ci < ci_base ci"
    "l_ci L \<noteq> []" "hd (l_ci L) = ci" "f \<le> ci_func ci" "0 \<le> ci_func ci"
proof -
  show a: "good L0" "good L" "above f L0 (ci # fs) L" "chain L (ci # fs) f n" "runs L ci cl p" "in_frame L ci p h pc"
    "i \<in> levels L \<Longrightarrow> i < ci_base ci + h pc" "top_at p pc ci L"
    using assms by (auto simp: running_def)
  obtain rest where rest: "l_ci L = ci # fs @ rest" using a(3) by (auto simp: above_def)
  then show "l_base L = ci_base ci" "l_ci L \<noteq> []" "hd (l_ci L) = ci" using goodD(4)[OF a(2)] by simp_all
  have fr: "frames_ok (ci # fs @ rest)" using goodD(3)[OF a(2)] rest by simp
  then show "ci_func ci < ci_base ci" "0 \<le> ci_func ci" using frames_okD(1,2)[OF fr, of ci] by auto
  show "f \<le> ci_func ci" by (rule chain_base[OF a(4) fr])
qed

text \<open>The next position, in a state with the same frames.\<close>

lemma going_moves:
  assumes r: "running L0 f n ci fs cl p h pc L" and g: "good L'" and m: "moves L L'"
    and lv: "\<And>i. i \<in> levels L' \<Longrightarrow> (i \<in> levels L \<or> ci_base ci \<le> i) \<and> i < ci_base ci + h q"
    and q: "visited p q" "q < p_sizecode p" and t: "top_at p q ci L'"
  shows "going L0 f n (int (length (ci # fs))) cl q L'"
proof -
  note d = running_D[OF r]
  obtain rest where rest: "l_ci L = ci # fs @ rest" "same_frames (l_ci L0) rest" "ci_savedpc (hd rest) = savedpc L0"
    and a: "extends L0 L" "stacksize L0 \<le> stacksize L" "\<forall>i\<in>levels L. i < f \<longrightarrow> i \<in> levels L0"
    "\<forall>c\<in>set (l_ci L0). stack L ! nat (ci_func c) = stack L0 ! nat (ci_func c)"
    using d(3) unfolding above_def by auto
  obtain ci' where c: "l_ci L' = ci' # fs @ rest" "shape ci' = shape ci"
    using m rest(1) by (auto simp: moves_def elim: same_frames_Cons)
  note sf = shape_fields[OF c(2)]
  have m': "extends L L'" "stacksize L \<le> stacksize L'" "\<And>c. c \<in> set (l_ci L) \<Longrightarrow> stack L' ! nat (ci_func c) = stack L ! nat (ci_func c)"
    using m by (auto simp: moves_def)
  have fr: "frames_ok (ci # fs @ rest)" using goodD(3)[OF d(2)] rest by simp
  have low: "stack L' ! nat (ci_func c) = stack L0 ! nat (ci_func c)" if c: "c \<in> set (l_ci L0)" for c
  proof -
    obtain c' where "c' \<in> set rest" "ci_func c' = ci_func c" using same_frames_func[OF rest(2) c] by blast
    then show ?thesis using m'(3)[of c'] a(4) c rest(1) by auto
  qed
  have lv0: "i \<in> levels L0" if "i \<in> levels L'" "i < f" for i
    using lv[OF that(1)] that a(3) d(10,13) by auto
  have "above f L0 (ci' # fs) L'"
    unfolding above_def using c rest a m' low lv0 extends_trans[OF a(1) m'(1)] by auto
  moreover have "chain L' (ci' # fs) f n"
    by (rule chain_moves[OF d(4) c(2) m'(1,2) fr]) (use lv d(10) m'(3) rest in force)+
  moreover have "runs L' ci' cl p"
    using runs_moves[OF d(5) m'(1)] m'(3)[of ci] rest sf runs_shape[of ci' ci] by auto
  moreover have "in_frame L' ci' p h q"
  proof -
    have "in_frame L' ci p h pc" by (rule in_frame_moves[OF d(6) m'(2)]) (use lv in auto)
    then have "in_frame L' ci p h q" using q by (simp add: in_frame_def)
    then show ?thesis by (simp only: in_frame_shape[OF c(2)])
  qed
  moreover have "top_at p q ci' L'" using t sf by (simp add: top_at_def)
  ultimately have "running L0 f n ci' fs cl p h q L'"
    using r g lv sf by (simp add: running_def)
  then show ?thesis unfolding going_def by (intro exI[of _ ci'] exI[of _ fs] exI[of _ p] exI[of _ h]) simp
qed

text \<open>Most instructions leave the top and the open upvalues alone.\<close>

lemma running_at:
  assumes r: "running L0 f n ci fs cl p h pc L" and o: "GET_OPCODE (instr p pc) = op_num op"
  shows "at_op (strs L) p pc op"
  using running_D(5,6)[OF r] o by (auto simp: at_op_def runs_def in_frame_def closure_ok_def)

lemma running_flow:
  assumes r: "running L0 f n ci fs cl p h pc L" and o: "GET_OPCODE (instr p pc) = op_num op"
  shows "0 \<le> h pc" "h pc \<le> maxreg p" "q \<in> vm_next p pc \<Longrightarrow> op \<noteq> OP_CLOSE \<Longrightarrow> h pc \<le> h q"
    "q \<in> vm_next p pc \<Longrightarrow> op = OP_CLOSE \<Longrightarrow> min (h pc) (GETARG_A (instr p pc)) \<le> h q"
    "q \<in> vm_next p pc \<Longrightarrow> captures p pc x \<Longrightarrow> x < h q"
    "op \<in> {OP_CALL, OP_TAILCALL} \<Longrightarrow> h pc \<le> GETARG_A (instr p pc)"
    "op = OP_TFORLOOP \<Longrightarrow> h pc \<le> GETARG_A (instr p pc) + 3"
proof -
  note a = running_at[OF r o]
  note oc = at_opD(11)[OF a]
  have c: "closes p h" using running_D(6)[OF r] by (simp add: in_frame_def)
  note f = c[unfolded closes_def, rule_format, OF at_opD(3,4)[OF a]]
  show "0 \<le> h pc" "h pc \<le> maxreg p" "q \<in> vm_next p pc \<Longrightarrow> op \<noteq> OP_CLOSE \<Longrightarrow> h pc \<le> h q"
    "q \<in> vm_next p pc \<Longrightarrow> op = OP_CLOSE \<Longrightarrow> min (h pc) (GETARG_A (instr p pc)) \<le> h q"
    "q \<in> vm_next p pc \<Longrightarrow> captures p pc x \<Longrightarrow> x < h q"
    "op \<in> {OP_CALL, OP_TAILCALL} \<Longrightarrow> h pc \<le> GETARG_A (instr p pc)"
    "op = OP_TFORLOOP \<Longrightarrow> h pc \<le> GETARG_A (instr p pc) + 3"
    using f by (auto simp: oc)
qed

lemma running_closed:
  assumes r: "running L0 f n ci fs cl p h pc L" and o: "GET_OPCODE (instr p pc) = op_num op"
    and b: "op \<notin> {OP_CALL, OP_TAILCALL, OP_RETURN, OP_SETLIST} \<or> GETARG_B (instr p pc) \<noteq> 0"
  shows "l_top L = ci_base ci + maxreg p" "ci_top ci = ci_base ci + maxreg p" "ci_base ci + maxreg p + 3 < stacksize L"
proof -
  have d: "decode_op (GET_OPCODE (instr p pc)) = Some op" using o decode_op_Some by blast
  have t: "ci_top ci = ci_base ci + maxreg p" "ci_top ci \<le> stack_last L + 2" using running_D(6)[OF r] by (auto simp: in_frame_def)
  then show "l_top L = ci_base ci + maxreg p" "ci_top ci = ci_base ci + maxreg p"
    using running_D(8)[OF r] b by (auto simp: top_at_def luaG_checkopenop_def d)
  show "ci_base ci + maxreg p + 3 < stacksize L" using t by (simp add: stack_last_def EXTRA_STACK_def)
qed

lemma going_after:
  assumes r: "running L0 f n ci fs cl p h pc L" and o: "GET_OPCODE (instr p pc) = op_num op"
    and op: "op \<notin> {OP_CALL, OP_TAILCALL, OP_RETURN, OP_SETLIST} \<or> GETARG_B (instr p pc) \<noteq> 0" "op \<noteq> OP_CLOSE"
    and a: "after (L\<lparr>savedpc := s\<rparr>) L'" and q: "q \<in> vm_next p pc"
  shows "going L0 f n (int (length (ci # fs))) cl q L'"
proof (rule going_moves[OF r after_good[OF a]])
  show "moves L L'" by (rule moves_trans[OF moves_savedpc keeps_moves[OF after_keeps[OF a]]])
  note st = at_op_stays[OF running_at[OF r o] q]
  show "visited p q" "q < p_sizecode p" by (rule st)+
  show "top_at p q ci L'" using running_closed[OF r o op(1)] after_top[OF a] by (simp add: top_at_def)
  fix i assume "i \<in> levels L'"
  then have "i \<in> levels L" using after_keeps[OF a] by (auto simp: keeps_def)
  then show "(i \<in> levels L \<or> ci_base ci \<le> i) \<and> i < ci_base ci + h q"
    using running_D(7)[OF r] running_flow(3)[OF r o q op(2)] by force
qed

lemma same_savedpc [simp]: "L\<lparr>savedpc := savedpc L\<rparr> = L" by simp

lemma ready_running:
  assumes r: "running L0 f n ci fs cl p h pc L" and o: "GET_OPCODE (instr p pc) = op_num op"
    and op: "op \<notin> {OP_CALL, OP_TAILCALL, OP_RETURN, OP_SETLIST} \<or> GETARG_B (instr p pc) \<noteq> 0"
    and s: "1 \<le> s" "s \<le> p_sizecode p"
  shows "ready (L\<lparr>savedpc := s\<rparr>)"
proof -
  note d = running_D[OF r]
  have "pc_ok (L\<lparr>savedpc := s\<rparr>)"
    using d(5,12) s by (auto simp: pc_ok_def running_func_def runs_def)
  moreover have "i < l_top L" if "i \<in> levels L" for i
    using d(7)[OF that] running_flow(2)[OF r o] running_closed(1)[OF r o op] by linarith
  ultimately show ?thesis using good_savedpc[OF d(2)] by (simp add: ready_def)
qed

end
