(* ===== verification/VMStep.thy ===== *)
theory VMStep
  imports VMFrames
begin

text \<open>
  The instructions that stay inside the running function: each keeps the invariant \<open>running\<close> and goes on at a position the
  checker has seen.
\<close>

lemma ok_step [ok_rules]:
  "ok (reg r) Q1 L = Q1 (l_base L + r) L"
  "ok (const_k p k) Q2 L = (0 \<le> k \<and> k < p_sizek p \<and> Q2 (p_k p ! nat k) L)"
  "ok (fetch p pc) Q3 L = (0 \<le> pc \<and> pc < p_sizecode p \<and> Q3 (p_code p ! nat pc) L)"
  "ok (Protect pc m) Q4 L = ok m Q4 (L\<lparr>savedpc := pc\<rparr>)"
  by (auto simp: reg_def const_k_def fetch_def Protect_def ok_rules)

lemma ok_go_on [ok_rules]: "ok (go_on pc m) Q = ok m (\<lambda>_. Q (Continue pc))"
  by (rule ext) (simp add: go_on_def ok_bind ok_simps(1))

lemma go_on_continue:
  assumes "ok m (\<lambda>_. Q (Continue pc)) L" shows "ok (go_on pc m) Q L"
  using assms by (simp add: ok_go_on)

subsection \<open>Operands\<close>

lemma code_const: "code_ok (strs L) p \<Longrightarrow> 0 \<le> k \<Longrightarrow> k < p_sizek p \<Longrightarrow> value_ok L (p_k p ! nat k)"
  using code_okD(3)[of "strs L" p "p_k p ! nat k"]
  by (auto simp: const_ok_def p_sizek_def split: TValue.splits)

lemma running_reg:
  assumes r: "running L0 f n ci fs cl p h pc L" and x: "0 \<le> x" "x \<le> maxreg p + 3"
  shows "l_base L \<le> l_base L + x" "l_base L + x < stacksize L" "0 \<le> l_base L + x"
proof -
  have "ci_base ci + maxreg p + 3 < stacksize L"
    using running_D(6)[OF r] by (auto simp: in_frame_def stack_last_def EXTRA_STACK_def)
  then show "l_base L \<le> l_base L + x" "l_base L + x < stacksize L" "0 \<le> l_base L + x"
    using x running_D(9)[OF r] goodD(8)[OF running_D(2)[OF r]] by linarith+
qed

lemma running_code:
  assumes "running L0 f n ci fs cl p h pc L" shows "code_ok (strs L) p"
  using running_D(5)[OF assms] by (auto simp: runs_def closure_ok_def)

lemma ok_RK:
  assumes r: "running L0 f n ci fs cl p h pc L" and a: "arg_ok p OpArgK x" "0 \<le> x"
    and Q: "\<And>rk. (\<And>s. oper_ok (L\<lparr>savedpc := s\<rparr>) rk) \<Longrightarrow> oper_ok L rk \<Longrightarrow> Q rk L"
  shows "ok (RK p x) Q L"
proof (cases "ISK x")
  case True
  then have k: "0 \<le> INDEXK x" "INDEXK x < p_sizek p" using a INDEXK_nonneg by (auto simp: arg_ok_def)
  show ?thesis
    using True k code_const[OF running_code[OF r] k] by (auto simp: RK_def ok_rules oper_ok_def value_ok_misc intro!: Q)
next
  case False
  then have "x < maxreg p" using a by (auto simp: arg_ok_def)
  then show ?thesis
    using False running_reg[OF r a(2)] by (auto simp: RK_def ok_rules oper_ok_def intro!: Q)
qed

text \<open>The end of an instruction that goes on with the next one.\<close>

lemma continues:
  assumes "running L0 f n ci fs cl p h pc L" "GET_OPCODE (instr p pc) = op_num op"
    "op \<notin> {OP_CALL, OP_TAILCALL, OP_RETURN, OP_SETLIST} \<or> GETARG_B (instr p pc) \<noteq> 0" "op \<noteq> OP_CLOSE" "q \<in> vm_next p pc"
  shows "after (L\<lparr>savedpc := s\<rparr>) L' \<Longrightarrow> goes L0 f n (int (length (ci # fs))) cl (Continue q) L'"
    "after L L' \<Longrightarrow> goes L0 f n (int (length (ci # fs))) cl (Continue q) L'"
proof -
  show s: "after (L\<lparr>savedpc := s\<rparr>) L' \<Longrightarrow> goes L0 f n (int (length (ci # fs))) cl (Continue q) L'" for s
    using going_after[OF assms(1-4) _ assms(5)] by (simp add: goes_def)
  show "after L L' \<Longrightarrow> goes L0 f n (int (length (ci # fs))) cl (Continue q) L'"
    using s[of "savedpc L"] by simp
qed

lemma vm_next_simple:
  assumes "at_op I p pc op" "op \<notin> {OP_LOADBOOL, OP_JMP, OP_EQ, OP_LT, OP_LE, OP_TEST, OP_TESTSET, OP_TFORLOOP, OP_RETURN,
    OP_FORLOOP, OP_FORPREP, OP_SETLIST, OP_CLOSURE}"
  shows "pc + 1 \<in> vm_next p pc"
  using assms(2) at_opD(6)[OF assms(1)] by (cases op) (simp_all add: vm_next_def Let_def)

subsection \<open>Loads\<close>

lemma ok_set_nils:
  assumes "good L" "l_base L \<le> i" "i + int n \<le> stacksize L" "\<And>L'. after L L' \<Longrightarrow> Q () L'"
  shows "ok (set_nils n i) Q L"
  using assms
proof (induction n arbitrary: i L)
  case 0
  then show ?case by (simp add: ok_simps after_refl)
next
  case (Suc n)
  show ?case
    unfolding set_nils.simps ok_bind
  proof (rule ok_set_above)
    fix L' assume a: "after L L'"
    show "ok (set_nils n (i + 1)) Q L'"
      by (rule Suc.IH[OF after_good[OF a]])
        (use Suc.prems after_dims[OF goodD(12)[OF Suc.prems(1)] a] after_trans[OF a] in auto)
  qed (use Suc.prems in auto)
qed

lemma step_move:
  assumes r: "running L0 f n ci fs cl p h pc L" and o: "GET_OPCODE (instr p pc) = op_num op"
    and op: "op \<in> {OP_MOVE, OP_LOADK, OP_LOADBOOL, OP_LOADNIL}"
  shows "ok (op_move p (pc + 1) (instr p pc) op) (goes L0 f n (int (length (ci # fs))) cl) L"
proof -
  note a = running_at[OF r o] and g = running_D(2)[OF r]
  note args = at_op_args[OF a]
  note ra = running_reg[OF r args(1)]
  have B: "0 \<le> GETARG_B (instr p pc)" by (rule getarg_bounds)
  note rb = running_reg[OF r B]
  note fin = continues[OF r o]
  show ?thesis
    using op
  proof (elim insertE emptyE)
    assume e: "op = OP_MOVE"
    have nx: "pc + 1 \<in> vm_next p pc" by (rule vm_next_simple[OF a]) (simp add: e)
    have "ok (copy_s (l_base L + GETARG_A (instr p pc)) (l_base L + GETARG_B (instr p pc)))
      (\<lambda>_. goes L0 f n (int (length (ci # fs))) cl (Continue (pc + 1))) L"
      by (rule ok_copy_above[OF g]) (use e ra rb args fin(2)[OF _ _ nx] in \<open>auto simp: reads_defs\<close>)
    then show ?thesis by (simp add: op_move_def e ok_rules)
  next
    assume e: "op = OP_LOADK"
    have nx: "pc + 1 \<in> vm_next p pc" by (rule vm_next_simple[OF a]) (simp add: e)
    have k: "0 \<le> GETARG_Bx (instr p pc)" "GETARG_Bx (instr p pc) < p_sizek p" using args(7) e getarg_bounds(8) by auto
    have "ok (set_s (l_base L + GETARG_A (instr p pc)) (p_k p ! nat (GETARG_Bx (instr p pc))))
      (\<lambda>_. goes L0 f n (int (length (ci # fs))) cl (Continue (pc + 1))) L"
      by (rule ok_set_above[OF g]) (use e ra args code_const[OF running_code[OF r] k] fin(2)[OF _ _ nx] in auto)
    then show ?thesis using k by (simp add: op_move_def e ok_rules)
  next
    assume e: "op = OP_LOADBOOL"
    have nx: "(if GETARG_C (instr p pc) \<noteq> 0 then pc + 1 + 1 else pc + 1) \<in> vm_next p pc"
      using at_opD(6)[OF a] by (simp add: e vm_next_def instr_def Let_def)
    have "ok (set_s (l_base L + GETARG_A (instr p pc)) (LBoolean (GETARG_B (instr p pc))))
      (\<lambda>_. goes L0 f n (int (length (ci # fs))) cl (Continue (if GETARG_C (instr p pc) \<noteq> 0 then pc + 1 + 1 else pc + 1))) L"
      by (rule ok_set_above[OF g]) (use e ra args fin(2)[OF _ _ nx] in auto)
    then show ?thesis by (simp add: op_move_def e ok_rules)
  next
    assume e: "op = OP_LOADNIL"
    have nx: "pc + 1 \<in> vm_next p pc" by (rule vm_next_simple[OF a]) (simp add: e)
    have "ok (set_nils (nat (GETARG_B (instr p pc) - GETARG_A (instr p pc) + 1)) (l_base L + GETARG_A (instr p pc)))
      (\<lambda>_. goes L0 f n (int (length (ci # fs))) cl (Continue (pc + 1))) L" if "GETARG_A (instr p pc) \<le> GETARG_B (instr p pc)"
      by (rule ok_set_nils[OF g]) (use that e ra rb args fin(2)[OF _ _ nx] in \<open>auto simp: reads_defs\<close>)
    moreover have "ok (set_s (l_base L + GETARG_B (instr p pc)) LNil)
      (\<lambda>_. goes L0 f n (int (length (ci # fs))) cl (Continue (pc + 1))) L"
      by (rule ok_set_above[OF g]) (use e rb args fin(2)[OF _ _ nx] in \<open>auto simp: reads_defs\<close>)
    ultimately show ?thesis by (simp add: op_move_def e ok_rules)
  qed
qed

subsection \<open>Upvalues\<close>

lemma running_closure_ok:
  assumes "running L0 f n ci fs cl p h pc L" "closures L cl = Some (LClosure env p us)"
  shows "env \<in> dom (tables L)" "length us = unat (p_nups p)" "set us \<subseteq> dom (upvals L)"
  using running_D(5)[OF assms(1)] assms(2) by (auto simp: runs_def closure_ok_def)

lemma good_set_closed:
  assumes g: "good L" and a: "upvals L a = Some (UClosed w)" and v: "value_ok L v"
  shows "after L (L\<lparr>upvals := (upvals L)(a \<mapsto> UClosed v)\<rparr>)"
proof -
  let ?L = "L\<lparr>upvals := (upvals L)(a \<mapsto> UClosed v)\<rparr>"
  have e: "extends L ?L" by (rule extendsI) (use a in auto)
  have "good ?L \<and> keeps L ?L"
  proof (rule good_heapI[OF g])
    show "extends L ?L" by (rule e)
    have "fresh_objects ?L" using heap_okD(2)[OF goodD(1)[OF g]] a by (auto simp: fresh_objects_def)
    then show "heap_ok ?L" by (intro heap_ok_objects[OF goodD(1)[OF g] e]) (auto simp: v split: if_splits)
    note o = stack_okD(9)[OF goodD(2)[OF g]]
    have "open_list ((upvals L)(a \<mapsto> UClosed v)) (openupval L)"
      by (rule open_list_cong[OF o]) (use a open_listD[OF o] in \<open>force split: if_splits\<close>)+
    then show "open_list (upvals ?L) (openupval ?L)" by simp
    show "levels ?L \<subseteq> levels L" by (auto simp: levels_def split: if_splits)
  qed simp_all
  then show ?thesis by (simp add: after_def)
qed

lemma ok_read_upval:
  assumes g: "good L" and a: "a \<in> dom (upvals L)" and Q: "\<And>v. value_ok L v \<Longrightarrow> Q v L"
  shows "ok (read_upval a) Q L"
proof -
  obtain u where u: "upvals L a = Some u" using a by auto
  show ?thesis
  proof (cases u)
    case (UOpen i)
    then have "i \<in> levels L" using u by (auto simp: levels_def)
    then have "0 \<le> i" "i < stacksize L" using stack_okD(3)[OF goodD(2)[OF g]] by auto
    then show ?thesis using u UOpen good_value[OF g] by (auto simp: read_upval_def ok_rules intro: Q)
  next
    case (UClosed v)
    then show ?thesis using u heap_okD(5)[OF goodD(1)[OF g]] by (auto simp: read_upval_def ok_rules intro: Q)
  qed
qed

lemma ok_write_upval:
  assumes g: "good L" and a: "a \<in> dom (upvals L)" and v: "value_ok L v" and Q: "\<And>L'. after L L' \<Longrightarrow> Q () L'"
  shows "ok (write_upval a v) Q L"
proof -
  obtain u where u: "upvals L a = Some u" using a by auto
  show ?thesis
  proof (cases u)
    case (UOpen i)
    then have i: "i \<in> levels L" using u by (auto simp: levels_def)
    then have b: "0 \<le> i" "i < stacksize L" using stack_okD(3)[OF goodD(2)[OF g]] by auto
    have "after L (L\<lparr>stack := (stack L)[nat i := v]\<rparr>)"
      by (rule good_set[OF g b _ v]) (use goodD(7)[OF g] i in blast)
    then show ?thesis using u UOpen b by (auto simp: write_upval_def ok_rules intro: Q)
  next
    case (UClosed w)
    show ?thesis using u UClosed good_set_closed[OF g _ v] by (auto simp: write_upval_def ok_rules intro: Q)
  qed
qed

lemma step_upval:
  assumes r: "running L0 f n ci fs cl p h pc L" and o: "GET_OPCODE (instr p pc) = op_num op"
    and op: "op \<in> {OP_GETUPVAL, OP_SETUPVAL}" and c: "closures L cl = Some (LClosure env p us)"
  shows "ok (op_upval us (pc + 1) (instr p pc) op) (goes L0 f n (int (length (ci # fs))) cl) L"
proof -
  note a = running_at[OF r o] and g = running_D(2)[OF r]
  note args = at_op_args[OF a]
  note ra = running_reg[OF r args(1)]
  note cl = running_closure_ok[OF r c]
  have B: "nat (GETARG_B (instr p pc)) < length us"
    using at_op_setupval[OF a op] getarg_bounds(4)[of "instr p pc"] cl(2) by (simp add: nat_less_iff)
  then have u: "us ! nat (GETARG_B (instr p pc)) \<in> dom (upvals L)" using cl(3) nth_mem by blast
  have nx: "pc + 1 \<in> vm_next p pc" by (rule vm_next_simple[OF a]) (use op in auto)
  have nc: "op \<notin> {OP_CALL, OP_TAILCALL, OP_RETURN, OP_SETLIST} \<or> GETARG_B (instr p pc) \<noteq> 0" "op \<noteq> OP_CLOSE" using op by auto
  note fin = continues[OF r o nc nx]
  let ?fin = "\<lambda>_. goes L0 f n (int (length (ci # fs))) cl (Continue (pc + 1))"
  have read: "ok (read_upval (us ! nat (GETARG_B (instr p pc)))) (\<lambda>v. ok (set_s (l_base L + GETARG_A (instr p pc)) v) ?fin) L"
    by (rule ok_read_upval[OF g u], rule ok_set_above[OF g]) (use ra args fin(2) in auto)
  have store: "ok (get_s (l_base L + GETARG_A (instr p pc))) (\<lambda>v. ok (write_upval (us ! nat (GETARG_B (instr p pc))) v) ?fin) L"
  proof (rule ok_get_value[OF g])
    fix v assume "value_ok L v"
    then show "ok (write_upval (us ! nat (GETARG_B (instr p pc))) v) ?fin L" by (rule ok_write_upval[OF g u]) (rule fin(2))
  qed (use ra args in auto)
  show ?thesis
    using op read store B by (auto simp: op_upval_def ok_step ok_bind ok_go_on ok_name_of)
qed

subsection \<open>Tables\<close>

lemma running_table:
  assumes r: "running L0 f n ci fs cl p h pc L" and o: "GET_OPCODE (instr p pc) = op_num op" and c: "caller_ok call"
    and op: "op \<notin> {OP_CALL, OP_TAILCALL, OP_RETURN, OP_SETLIST}" "op \<noteq> OP_CLOSE" "pc + 1 \<in> vm_next p pc"
    and x: "0 \<le> x" "x < maxreg p"
  shows "(\<And>s. oper_ok (L\<lparr>savedpc := s\<rparr>) t) \<Longrightarrow> (\<And>s. oper_ok (L\<lparr>savedpc := s\<rparr>) k) \<Longrightarrow>
      ok (Protect (pc + 1) (luaV_gettable E call t k (l_base L + x))) (\<lambda>_. goes L0 f n (int (length (ci # fs))) cl (Continue (pc + 1))) L"
    "(\<And>s. oper_ok (L\<lparr>savedpc := s\<rparr>) t) \<Longrightarrow> (\<And>s. oper_ok (L\<lparr>savedpc := s\<rparr>) k) \<Longrightarrow> (\<And>s. oper_ok (L\<lparr>savedpc := s\<rparr>) v) \<Longrightarrow>
      ok (Protect (pc + 1) (luaV_settable E call t k v)) (\<lambda>_. goes L0 f n (int (length (ci # fs))) cl (Continue (pc + 1))) L"
proof -
  note a = running_at[OF r o]
  have "op \<notin> {OP_CALL, OP_TAILCALL, OP_RETURN, OP_SETLIST} \<or> GETARG_B (instr p pc) \<noteq> 0" using op by blast
  note fin = continues[OF r o this op(2,3)]
  have rd: "ready (L\<lparr>savedpc := pc + 1\<rparr>)"
    by (rule ready_running[OF r o]) (use op at_opD(3,4)[OF a] in auto)
  show "ok (Protect (pc + 1) (luaV_gettable E call t k (l_base L + x))) (\<lambda>_. goes L0 f n (int (length (ci # fs))) cl (Continue (pc + 1))) L"
    if "\<And>s. oper_ok (L\<lparr>savedpc := s\<rparr>) t" "\<And>s. oper_ok (L\<lparr>savedpc := s\<rparr>) k"
    unfolding ok_step by (rule ok_gettable[OF rd c]) (use that running_reg[OF r x(1)] x(2) fin(1) in auto)
  show "ok (Protect (pc + 1) (luaV_settable E call t k v)) (\<lambda>_. goes L0 f n (int (length (ci # fs))) cl (Continue (pc + 1))) L"
    if "\<And>s. oper_ok (L\<lparr>savedpc := s\<rparr>) t" "\<And>s. oper_ok (L\<lparr>savedpc := s\<rparr>) k" "\<And>s. oper_ok (L\<lparr>savedpc := s\<rparr>) v"
    unfolding ok_step by (rule ok_settable[OF rd c]) (use that fin(1) in auto)
qed

lemma oper_ok_reg:
  assumes "running L0 f n ci fs cl p h pc L" "0 \<le> x" "x < maxreg p"
  shows "oper_ok (L\<lparr>savedpc := s\<rparr>) (OStack (l_base L + x))" "oper_ok L (OStack (l_base L + x))"
  using running_reg[OF assms(1,2)] assms(3) by (simp_all add: oper_ok_def)


lemma after_savedpc:
  assumes "after L L'" "l_ci L' = l_ci L" shows "after (L\<lparr>savedpc := s\<rparr>) (L'\<lparr>savedpc := s\<rparr>)"
proof -
  have e: "extends (L\<lparr>savedpc := s\<rparr>) (L'\<lparr>savedpc := s\<rparr>) = extends L L'"
    by (simp add: extends_def closure_ok_def cong: Closure.case_cong)
  show ?thesis using assms good_savedpc by (auto simp: after_def keeps_def e)
qed

lemma step_self:
  assumes r: "running L0 f n ci fs cl p h pc L" and o: "GET_OPCODE (instr p pc) = op_num OP_SELF" and c: "caller_ok call"
    and k: "\<And>s. oper_ok (L\<lparr>savedpc := s\<rparr>) k" and x: "0 \<le> x" "x + 1 < maxreg p" and y: "0 \<le> y" "y < maxreg p"
    and nx: "pc + 1 \<in> vm_next p pc"
  shows "ok (copy_s (l_base L + x + 1) (l_base L + y)) (\<lambda>_. ok (Protect (pc + 1) (luaV_gettable E call (OStack (l_base L + y)) k (l_base L + x)))
      (\<lambda>_. goes L0 f n (int (length (ci # fs))) cl (Continue (pc + 1)))) L"
proof (rule ok_copy_above[OF running_D(2)[OF r]])
  note a = running_at[OF r o]
  fix L' assume af: "after L L'" "l_ci L' = l_ci L"
  note as = after_savedpc[OF af, of "pc + 1"]
  note d = after_dims[OF _ as]
  have rd: "ready (L\<lparr>savedpc := pc + 1\<rparr>)"
    by (rule ready_running[OF r o]) (use at_opD(3,4)[OF a] in auto)
  show "ok (Protect (pc + 1) (luaV_gettable E call (OStack (l_base L + y)) k (l_base L + x)))
      (\<lambda>_. goes L0 f n (int (length (ci # fs))) cl (Continue (pc + 1))) L'"
    unfolding ok_step
  proof (rule ok_gettable[OF ready_after[OF rd as] c])
    show "oper_ok (L'\<lparr>savedpc := pc + 1\<rparr>) (OStack (l_base L + y))" "oper_ok (L'\<lparr>savedpc := pc + 1\<rparr>) k"
      using oper_ok_keeps[OF after_keeps[OF as]] k oper_ok_reg[OF r y] by blast+
    show "l_base (L'\<lparr>savedpc := pc + 1\<rparr>) \<le> l_base L + x" "l_base L + x < stacksize (L'\<lparr>savedpc := pc + 1\<rparr>)"
      using d running_reg[OF r x(1)] x running_D(11)[OF r] by auto
    fix L2 assume "after (L'\<lparr>savedpc := pc + 1\<rparr>) L2"
    then have "after (L\<lparr>savedpc := pc + 1\<rparr>) L2" by (rule after_trans[OF as])
    then show "goes L0 f n (int (length (ci # fs))) cl (Continue (pc + 1)) L2"
      by (intro continues(1)[OF r o _ _ nx]) simp_all
  qed
qed (use running_reg[OF r, of "x + 1"] running_reg[OF r, of y] x y in \<open>auto simp: add.assoc\<close>)

lemma luaH_new_meta: "luaH_new a b = Inr t \<Longrightarrow> metatable t = 0"
  by (auto simp: luaH_new_def setarrayvector_def setnodevector_def luaM_toobig_def bindR_def Let_def split: if_splits sum.splits)

lemma ok_new_table:
  assumes g: "good L" and n: "nhash \<le> 2 ^ 26"
    and Q: "\<And>h t L'. after L L' \<Longrightarrow> table_ok L' t \<Longrightarrow> h \<noteq> 0 \<Longrightarrow> h \<notin> set (allocs (l_G L')) \<Longrightarrow> stack L' = stack L
      \<Longrightarrow> l_ci L' = l_ci L \<Longrightarrow> Q (h, t) L'"
  shows "ok (new_table E call narray nhash) Q L"
  unfolding new_table_def ok_bind
proof (rule ok_granted[OF g])
  assume na: "narray \<le> 2 ^ 26"
  have inj: "inj_on ts_addr (strs L)" by (rule strs_inj[OF goodD(1)[OF g]])
  have "int narray \<le> MAXASIZE" using na by (simp add: MAXASIZE_def MAXBITS_def)
  then obtain t where t: "luaH_new narray nhash = Inr t" "table_wf (strs L) t" "\<forall>k. lookup t k = LNil"
    using luaH_new_cases[OF inj, of narray nhash] n by auto
  have tok: "table_ok L t" using t luaH_new_meta[OF t(1)] by (simp add: table_ok_def meta_ok_def)
  have "ok new_object (\<lambda>h. Q (h, t)) L"
  proof (rule ok_new_object[OF g])
    fix a L' assume a: "after L L'" "a \<noteq> 0" "a \<notin> set (allocs (l_G L'))" "stack L' = stack L" "l_ci L' = l_ci L"
    have "extends L L'" using after_keeps[OF a(1)] by (simp add: keeps_def)
    then have "table_ok L' t"
      by (rule table_ok_mono[OF tok _ strs_inj[OF goodD(1)[OF after_good[OF a(1)]]]])
    then show "Q (a, t) L'" using Q a by blast
  qed
  then show "ok (lift_res E call (luaH_new narray nhash)) (\<lambda>x. ok new_object (\<lambda>x'. ok (ret (x', x)) Q)) L"
    by (simp add: t(1) lift_res_def ok_simps(1))
qed

lemma ok_put_new_table:
  assumes "good L" "table_ok L t" "h \<notin> set (allocs (l_G L))"
    "\<And>L'. after L L' \<Longrightarrow> value_ok L' (LTable h) \<Longrightarrow> stack L' = stack L \<Longrightarrow> l_ci L' = l_ci L \<Longrightarrow> Q () L'"
  shows "ok (put_table h t) Q L"
  by (rule ok_put_table[OF assms(1,2)]) (use assms(3,4) in auto)

lemma step_table:
  assumes r: "running L0 f n ci fs cl p h pc L" and o: "GET_OPCODE (instr p pc) = op_num op"
    and op: "op \<in> {OP_GETGLOBAL, OP_GETTABLE, OP_SETGLOBAL, OP_SETTABLE, OP_NEWTABLE, OP_SELF}"
    and c: "caller_ok call" and cl: "closures L cl = Some (LClosure env p us)"
  shows "ok (op_table E call env p (pc + 1) (instr p pc) op) (goes L0 f n (int (length (ci # fs))) cl) L"
proof -
  let ?i = "instr p pc"
  note a = running_at[OF r o] and g = running_D(2)[OF r]
  note args = at_op_args[OF a]
  have nx: "pc + 1 \<in> vm_next p pc" by (rule vm_next_simple[OF a]) (use op in auto)
  have nc: "op \<notin> {OP_CALL, OP_TAILCALL, OP_RETURN, OP_SETLIST}" "op \<noteq> OP_CLOSE" using op by auto
  note tab = running_table[OF r o c nc nx]
  have bnd: "0 \<le> GETARG_B ?i" "0 \<le> GETARG_C ?i" "0 \<le> GETARG_Bx ?i" by (rule getarg_bounds)+
  let ?fin = "\<lambda>_. goes L0 f n (int (length (ci # fs))) cl (Continue (pc + 1))"
  have env: "oper_ok (L\<lparr>savedpc := s\<rparr>) (OVal (LTable env))" for s
    using running_closure_ok(1)[OF r cl] by (simp add: oper_ok_def)
  have ra: "oper_ok (L\<lparr>savedpc := s\<rparr>) (OStack (l_base L + GETARG_A ?i))" for s
    by (rule oper_ok_reg[OF r args(1,2)])
  show ?thesis
    using op
  proof (elim insertE emptyE)
    assume e: "op = OP_GETGLOBAL"
    have k: "0 \<le> GETARG_Bx ?i" "GETARG_Bx ?i < p_sizek p" using args(7) e bnd by auto
    have "oper_ok (L\<lparr>savedpc := s\<rparr>) (OVal (p_k p ! nat (GETARG_Bx ?i)))" for s
      using code_const[OF running_code[OF r] k] by (simp add: oper_ok_def value_ok_misc)
    then show ?thesis using tab(1)[OF args(1,2) env] k by (simp add: op_table_def e ok_step ok_bind ok_go_on)
  next
    assume e: "op = OP_SETGLOBAL"
    have k: "0 \<le> GETARG_Bx ?i" "GETARG_Bx ?i < p_sizek p" using args(7) e bnd by auto
    have "oper_ok (L\<lparr>savedpc := s\<rparr>) (OVal (p_k p ! nat (GETARG_Bx ?i)))" for s
      using code_const[OF running_code[OF r] k] by (simp add: oper_ok_def value_ok_misc)
    then show ?thesis using tab(2)[OF args(1,2) env _ ra] k by (simp add: op_table_def e ok_step ok_bind ok_go_on)
  next
    assume e: "op = OP_GETTABLE"
    have B: "GETARG_B ?i < maxreg p" and C: "arg_ok p OpArgK (GETARG_C ?i)" using args(3,6) e by (auto simp: reads_defs)
    have "ok (RK p (GETARG_C ?i)) (\<lambda>rc. ok (Protect (pc + 1) (luaV_gettable E call (OStack (l_base L + GETARG_B ?i)) rc (l_base L + GETARG_A ?i))) ?fin) L"
      by (rule ok_RK[OF r C bnd(2)], rule tab(1)[OF args(1,2) oper_ok_reg(1)[OF r bnd(1) B]])
    then show ?thesis by (simp add: op_table_def e ok_step(1) ok_bind ok_go_on)
  next
    assume e: "op = OP_SETTABLE"
    have B: "arg_ok p OpArgK (GETARG_B ?i)" and C: "arg_ok p OpArgK (GETARG_C ?i)" using args(5,6) e by (auto simp: reads_defs)
    have "ok (RK p (GETARG_B ?i)) (\<lambda>rb. ok (RK p (GETARG_C ?i)) (\<lambda>rc. ok (Protect (pc + 1) (luaV_settable E call (OStack (l_base L + GETARG_A ?i)) rb rc)) ?fin)) L"
      by (rule ok_RK[OF r B bnd(1)], rule ok_RK[OF r C bnd(2)], rule tab(2)[OF args(1,2) ra])
    then show ?thesis by (simp add: op_table_def e ok_step(1) ok_bind ok_go_on)
  next
    assume e: "op = OP_SELF"
    have B: "GETARG_B ?i < maxreg p" and C: "arg_ok p OpArgK (GETARG_C ?i)" using args(3,6) e by (auto simp: reads_defs)
    have A: "GETARG_A ?i + 1 < maxreg p" using at_op_self a e by blast
    have "ok (copy_s (l_base L + GETARG_A ?i + 1) (l_base L + GETARG_B ?i)) (\<lambda>_. ok (RK p (GETARG_C ?i)) (\<lambda>rc.
      ok (Protect (pc + 1) (luaV_gettable E call (OStack (l_base L + GETARG_B ?i)) rc (l_base L + GETARG_A ?i))) ?fin)) L"
    proof (cases "ISK (GETARG_C ?i)")
      case True
      then have k: "0 \<le> INDEXK (GETARG_C ?i)" "INDEXK (GETARG_C ?i) < p_sizek p" using C INDEXK_nonneg bnd by (auto simp: arg_ok_def)
      have "oper_ok (L\<lparr>savedpc := s\<rparr>) (OVal (p_k p ! nat (INDEXK (GETARG_C ?i))))" for s
        using code_const[OF running_code[OF r] k] by (simp add: oper_ok_def value_ok_misc)
      from step_self[OF r o[unfolded e] c this args(1) A bnd(1) B nx] show ?thesis
        by (rule ok_mono) (use True k in \<open>simp add: RK_def ok_step(1,2) ok_bind ok_simps(1)\<close>)
    next
      case False
      then have k: "GETARG_C ?i < maxreg p" using C by (simp add: arg_ok_def)
      have "ok (copy_s (l_base L + GETARG_A ?i + 1) (l_base L + GETARG_B ?i)) (\<lambda>_ L'. l_base L' = l_base L \<and>
          ok (Protect (pc + 1) (luaV_gettable E call (OStack (l_base L + GETARG_B ?i)) (OStack (l_base L + GETARG_C ?i)) (l_base L + GETARG_A ?i))) ?fin L') L"
        using step_self[OF r o[unfolded e] c oper_ok_reg(1)[OF r bnd(2) k] args(1) A bnd(1) B nx, of E]
        by (simp add: copy_s_def ok_bind ok_simps)
      then show ?thesis using False by (elim ok_mono) (simp add: RK_def ok_step(1) ok_bind ok_simps(1))
    qed
    then show ?thesis by (simp add: op_table_def e ok_step(1) ok_bind ok_go_on)
  next
    assume e: "op = OP_NEWTABLE"
    obtain nb nc' where f: "luaO_fb2int (GETARG_B ?i) = Some nb" "luaO_fb2int (GETARG_C ?i) = Some nc'" "nc' \<le> 2 ^ 26"
      using at_opD(7,9)[OF a] by (auto simp: e tight_instr_def)
    have "nat nc' \<le> 2 ^ 26" using f(3) by simp
    then have "ok (new_table E call (nat nb) (nat nc')) (\<lambda>(hh, t). ok (put_table hh t) (\<lambda>_. ok (Protect (pc + 1)
      (set_s (l_base L + GETARG_A ?i) (LTable hh))) ?fin)) L"
    proof (rule ok_new_table[OF g], simp only: prod.case)
      fix hh t L1 assume a1: "after L L1" "table_ok L1 t" "hh \<notin> set (allocs (l_G L1))" "l_ci L1 = l_ci L"
      show "ok (put_table hh t) (\<lambda>_. ok (Protect (pc + 1) (set_s (l_base L + GETARG_A ?i) (LTable hh))) ?fin) L1"
      proof (rule ok_put_new_table[OF after_good[OF a1(1)] a1(2,3)])
        fix L2 assume a2: "after L1 L2" "value_ok L2 (LTable hh)" "l_ci L2 = l_ci L1"
        note a02 = after_trans[OF a1(1) a2(1)]
        note as = after_savedpc[OF a02 a2(3)[unfolded a1(4)], of "pc + 1"]
        show "ok (Protect (pc + 1) (set_s (l_base L + GETARG_A ?i) (LTable hh))) ?fin L2"
          unfolding ok_step
        proof (rule ok_set_above[OF after_good[OF as]])
          fix L3 assume "after (L2\<lparr>savedpc := pc + 1\<rparr>) L3"
          then have "after (L\<lparr>savedpc := pc + 1\<rparr>) L3" by (rule after_trans[OF as])
          then show "?fin () L3" by (intro continues(1)[OF r o _ nc(2) nx]) (use nc in simp_all)
        qed (use running_reg[OF r args(1)] args(2) after_dims[OF goodD(12)[OF g] a02] a2(2) in \<open>auto simp: value_ok_misc\<close>)
      qed
    qed
    then show ?thesis by (simp add: op_table_def e ok_step(1) ok_bind ok_go_on ok_the_def f(1,2) case_prod_unfold)
  qed
qed

end
