(* ===== verification/VMBranch.thy ===== *)
theory VMBranch
  imports VMStep
begin

text \<open>
  Arithmetic, tests, jumps and loops of the running function.
\<close>

subsection \<open>Arithmetic and concatenation\<close>

lemma ok_reg: "ok (reg r) Q = (\<lambda>L. Q (l_base L + r) L)"
  by (rule ext) (simp add: ok_step(1))

lemma ok_arith_op:
  assumes r: "running L0 f n ci fs cl p h pc L" and o: "GET_OPCODE (instr p pc) = op_num op" and c: "caller_ok call"
    and op: "op \<notin> {OP_CALL, OP_TAILCALL, OP_RETURN, OP_SETLIST}" "op \<noteq> OP_CLOSE" "pc + 1 \<in> vm_next p pc"
    and x: "0 \<le> x" "x < maxreg p"
    and p: "oper_ok L rb" "oper_ok L rc" "\<And>s. oper_ok (L\<lparr>savedpc := s\<rparr>) rb" "\<And>s. oper_ok (L\<lparr>savedpc := s\<rparr>) rc"
  shows "ok (arith_op E call (pc + 1) (l_base L + x) rb rc tm) (\<lambda>_. goes L0 f n (int (length (ci # fs))) cl (Continue (pc + 1))) L"
proof -
  note a = running_at[OF r o] and g = running_D(2)[OF r]
  have nc: "op \<notin> {OP_CALL, OP_TAILCALL, OP_RETURN, OP_SETLIST} \<or> GETARG_B (instr p pc) \<noteq> 0" using op by blast
  note fin = continues[OF r o nc op(2,3)]
  have rd: "ready (L\<lparr>savedpc := pc + 1\<rparr>)"
    by (rule ready_running[OF r o nc]) (use at_opD(3,4)[OF a] in auto)
  let ?fin = "\<lambda>_. goes L0 f n (int (length (ci # fs))) cl (Continue (pc + 1))"
  have slow: "ok (Protect (pc + 1) (Arith E call (l_base L + x) rb rc tm)) ?fin L"
    unfolding ok_step by (rule ok_Arith[OF rd c p(3,4)]) (use running_reg[OF r x(1)] x(2) fin(1) in auto)
  have fast: "ok (set_s (l_base L + x) (LNumber v)) ?fin L" for v
    by (rule ok_set_above[OF g]) (use running_reg[OF r x(1)] x(2) fin(2) in auto)
  show ?thesis
    unfolding arith_op_def ok_bind
    by (rule ok_deref[OF g p(1)], rule ok_deref[OF g p(2)])
      (use slow fast in \<open>auto split: TValue.splits\<close>)
qed

lemma ok_op_len:
  assumes r: "running L0 f n ci fs cl p h pc L" and o: "GET_OPCODE (instr p pc) = op_num OP_LEN" and c: "caller_ok call"
    and x: "0 \<le> x" "x < maxreg p" and y: "0 \<le> y" "y < maxreg p"
  shows "ok (op_len E call (pc + 1) (l_base L + x) (l_base L + y)) (\<lambda>_. goes L0 f n (int (length (ci # fs))) cl (Continue (pc + 1))) L"
proof -
  note a = running_at[OF r o] and g = running_D(2)[OF r]
  have nx: "pc + 1 \<in> vm_next p pc" by (rule vm_next_simple[OF a]) simp
  note fin = continues[OF r o _ _ nx]
  have rd: "ready (L\<lparr>savedpc := pc + 1\<rparr>)"
    by (rule ready_running[OF r o]) (use at_opD(3,4)[OF a] in auto)
  let ?fin = "\<lambda>_. goes L0 f n (int (length (ci # fs))) cl (Continue (pc + 1))"
  note yo = oper_ok_reg[OF r y]
  have store: "ok (set_s (l_base L + x) (LNumber v)) ?fin L" for v
    by (rule ok_set_above[OF g]) (use running_reg[OF r x(1)] x(2) fin(2) in auto)
  have slow: "ok (Protect (pc + 1) (bindX (call_binTM call (OStack (l_base L + y)) (OVal LNil) (l_base L + x) TM_LEN) (\<lambda>r.
              if r then ret () else luaG_typeerror E call (OStack (l_base L + y)) ''get length of''))) ?fin L"
    unfolding ok_step ok_bind
  proof (rule ok_call_binTM[OF rd c yo(1)])
    fix b L' assume b: "after (L\<lparr>savedpc := pc + 1\<rparr>) L'"
    have "ok (luaG_typeerror E call (OStack (l_base L + y)) ''get length of'' :: unit exec) ?fin L'"
      by (rule ok_typeerror[OF ready_after[OF rd b] c oper_ok_keeps[OF after_keeps[OF b] yo(1)]])
    then show "ok (if b then ret () else luaG_typeerror E call (OStack (l_base L + y)) ''get length of'') ?fin L'"
      using fin(1)[OF _ _ b] by (simp add: ok_simps(1))
  qed (use running_reg[OF r x(1)] x(2) in \<open>auto simp: oper_ok_def\<close>)
  have tab: "\<exists>t m. tables L hh = Some t \<and> luaH_getn t = Inr m" if v: "value_ok L (LTable hh)" for hh
  proof -
    obtain t where t: "tables L hh = Some t" using v by auto
    then have "table_core (strs L) t" using good_table_ok[OF g t] wf_core by (auto simp: table_ok_def)
    then show ?thesis using luaH_getn_boundary_aux t by blast
  qed
  show ?thesis
    unfolding op_len_def ok_bind
  proof (rule ok_get_value[OF g])
    fix v assume v: "value_ok L v"
    show "ok (case v of
       LTable h \<Rightarrow> bindX (get_table h) (\<lambda>t. bindX (of_table (luaH_getn t)) (\<lambda>m. set_s (l_base L + x) (LNumber (cast_num (int m)))))
     | LString s \<Rightarrow> set_s (l_base L + x) (LNumber (cast_num (int (ts_len s))))
     | _ \<Rightarrow> Protect (pc + 1) (bindX (call_binTM call (OStack (l_base L + y)) (OVal LNil) (l_base L + x) TM_LEN) (\<lambda>r.
              if r then ret () else luaG_typeerror E call (OStack (l_base L + y)) ''get length of''))) ?fin L"
    proof (cases v)
      case (LTable hh)
      then show ?thesis using tab[of hh] v store by (auto simp: ok_bind ok_heap of_table_def ok_simps(1))
    qed (use slow store in simp_all)
  qed (use running_reg[OF r y(1)] y(2) in auto)
qed

lemma step_arith:
  assumes r: "running L0 f n ci fs cl p h pc L" and o: "GET_OPCODE (instr p pc) = op_num op"
    and op: "op \<in> {OP_ADD, OP_SUB, OP_MUL, OP_DIV, OP_MOD, OP_POW, OP_UNM, OP_NOT, OP_LEN, OP_CONCAT}" and c: "caller_ok call"
  shows "ok (op_arith E call p (pc + 1) (instr p pc) op) (goes L0 f n (int (length (ci # fs))) cl) L"
proof -
  let ?i = "instr p pc"
  note a = running_at[OF r o] and g = running_D(2)[OF r]
  note args = at_op_args[OF a]
  have nx: "pc + 1 \<in> vm_next p pc" by (rule vm_next_simple[OF a]) (use op in auto)
  have nc: "op \<notin> {OP_CALL, OP_TAILCALL, OP_RETURN, OP_SETLIST}" "op \<noteq> OP_CLOSE" using op by auto
  have nc': "op \<notin> {OP_CALL, OP_TAILCALL, OP_RETURN, OP_SETLIST} \<or> GETARG_B ?i \<noteq> 0" using nc by blast
  note fin = continues[OF r o nc' nc(2) nx]
  have bnd: "0 \<le> GETARG_B ?i" "0 \<le> GETARG_C ?i" by (rule getarg_bounds)+
  let ?fin = "\<lambda>_. goes L0 f n (int (length (ci # fs))) cl (Continue (pc + 1))"
  show ?thesis
  proof (cases "op \<in> {OP_UNM, OP_NOT, OP_LEN, OP_CONCAT}")
    case False
    then have B: "arg_ok p OpArgK (GETARG_B ?i)" and C: "arg_ok p OpArgK (GETARG_C ?i)"
      using op args(5,6) by (auto simp: reads_defs)
    have "ok (RK p (GETARG_B ?i)) (\<lambda>rb. ok (RK p (GETARG_C ?i)) (\<lambda>rc.
        ok (arith_op E call (pc + 1) (l_base L + GETARG_A ?i) rb rc (arith_event op)) ?fin)) L"
      by (rule ok_RK[OF r B bnd(1)], rule ok_RK[OF r C bnd(2)], rule ok_arith_op[OF r o c nc nx args(1,2)])
    then show ?thesis using False op by (auto simp: op_arith_def ok_step(1) ok_bind ok_go_on)
  next
    case True
    then have B: "GETARG_B ?i < maxreg p" using args(3) by (auto simp: reads_defs)
    from True show ?thesis
    proof (elim insertE emptyE)
      assume e: "op = OP_UNM"
      show ?thesis using ok_arith_op[OF r o c nc nx args(1,2) oper_ok_reg(2,2)[OF r bnd(1) B] oper_ok_reg(1,1)[OF r bnd(1) B]]
        by (simp add: op_arith_def e ok_step(1) ok_bind ok_go_on)
    next
      assume e: "op = OP_NOT"
      have "ok (get_s (l_base L + GETARG_B ?i)) (\<lambda>v. ok (set_s (l_base L + GETARG_A ?i) (LBoolean (truth (l_isfalse v)))) ?fin) L"
        by (rule ok_get_value[OF g], (use running_reg[OF r bnd(1)] B in auto)[2], rule ok_set_above[OF g])
          (use running_reg[OF r args(1)] args(2) fin(2) in auto)
      then show ?thesis by (simp add: op_arith_def e ok_step(1) ok_bind ok_go_on)
    next
      assume e: "op = OP_LEN"
      show ?thesis using ok_op_len[OF r o[unfolded e] c args(1,2) bnd(1) B, of E]
        by (simp add: op_arith_def e ok_step(1) ok_bind ok_go_on)
    next
      assume e: "op = OP_CONCAT"
      have C: "GETARG_C ?i < maxreg p" "GETARG_B ?i < GETARG_C ?i" using args(4) at_op_concat a e by (auto simp: reads_defs)
      have rd: "ready (L\<lparr>savedpc := pc + 1\<rparr>)" by (rule ready_running[OF r o nc']) (use at_opD(3,4)[OF a] in auto)
      have "ok (luaV_concat E call (GETARG_C ?i - GETARG_B ?i + 1) (GETARG_C ?i))
         (\<lambda>_ L'. ok (copy_s (l_base L' + GETARG_A ?i) (l_base L' + GETARG_B ?i)) ?fin L') (L\<lparr>savedpc := pc + 1\<rparr>)"
      proof (rule ok_concat[OF rd c])
        fix L1 assume a1: "after (L\<lparr>savedpc := pc + 1\<rparr>) L1"
        note d = after_dims[OF _ a1]
        show "ok (copy_s (l_base L1 + GETARG_A ?i) (l_base L1 + GETARG_B ?i)) ?fin L1"
          by (rule ok_copy_above[OF after_good[OF a1]])
            (use d running_D(11)[OF r] running_reg[OF r args(1)] args(2) running_reg[OF r bnd(1)] B fin(1) after_trans[OF a1] in auto)
      qed (use C bnd running_reg[OF r bnd(2)] in auto)
      then show ?thesis by (simp add: op_arith_def e ok_step(4) ok_reg ok_bind ok_go_on Let_def)
    qed
  qed
qed

subsection \<open>Tests and jumps\<close>

lemma ok_cond_jump:
  assumes a: "at_op I p pc op" and op: "op \<in> {OP_EQ, OP_LT, OP_LE, OP_TEST, OP_TESTSET, OP_TFORLOOP}"
    and Q: "\<And>q. q \<in> vm_next p pc \<Longrightarrow> Q (Continue q) L"
  shows "ok (cond_jump p (pc + 1) b) Q L"
proof -
  note d = at_opD[OF a]
  have f: "pc + 1 < p_sizecode p" by (rule at_op_follows[OF a]) (use op in auto)
  have "vm_next p pc = {pc + 2, pc + 2 + GETARG_sBx (p_code p ! nat (pc + 1))}"
    using op d(6) by (auto simp: vm_next_def Let_def)
  then have "Q (Continue (pc + 1 + 1)) L" "Q (Continue (pc + 1 + GETARG_sBx (p_code p ! nat (pc + 1)) + 1)) L"
    using Q[of "pc + 2"] Q[of "pc + 2 + GETARG_sBx (p_code p ! nat (pc + 1))"] by (simp_all add: algebra_simps)
  moreover have "0 \<le> pc + 1" using d(3) by simp
  ultimately show ?thesis using f by (cases b) (simp_all only: cond_jump_def ok_bind ok_step(3) ok_simps(1) if_True if_False simp_thms)
qed

lemma step_test:
  assumes r: "running L0 f n ci fs cl p h pc L" and o: "GET_OPCODE (instr p pc) = op_num op"
    and op: "op \<in> {OP_JMP, OP_EQ, OP_LT, OP_LE, OP_TEST, OP_TESTSET}" and c: "caller_ok call" and E: "collates E"
  shows "ok (op_test E call p (pc + 1) (instr p pc) op) (goes L0 f n (int (length (ci # fs))) cl) L"
proof -
  let ?i = "instr p pc" and ?Q = "goes L0 f n (int (length (ci # fs))) cl"
  note a = running_at[OF r o] and g = running_D(2)[OF r]
  note args = at_op_args[OF a]
  have nc: "op \<notin> {OP_CALL, OP_TAILCALL, OP_RETURN, OP_SETLIST}" "op \<noteq> OP_CLOSE" using op by auto
  have nc': "op \<notin> {OP_CALL, OP_TAILCALL, OP_RETURN, OP_SETLIST} \<or> GETARG_B ?i \<noteq> 0" using nc by blast
  note fin = continues[OF r o nc' nc(2)]
  have bnd: "0 \<le> GETARG_B ?i" "0 \<le> GETARG_C ?i" by (rule getarg_bounds)+
  have rd: "ready (L\<lparr>savedpc := pc + 1\<rparr>)" by (rule ready_running[OF r o nc']) (use at_opD(3,4)[OF a] in auto)
  have cmp: "ok (RK p (GETARG_B ?i)) (\<lambda>rb. ok (RK p (GETARG_C ?i)) (\<lambda>rc.
      ok (Protect (pc + 1) (cm rb rc)) (\<lambda>res. ok (cond_jump p (pc + 1) (res = GETARG_A ?i)) ?Q))) L"
    if e: "op \<in> {OP_EQ, OP_LT, OP_LE}"
      and cm: "\<And>x y L1 R. ready L1 \<Longrightarrow> oper_ok L1 x \<Longrightarrow> oper_ok L1 y \<Longrightarrow> (\<And>b L2. after L1 L2 \<Longrightarrow> R b L2) \<Longrightarrow> ok (cm x y) R L1"
    for cm :: "operand \<Rightarrow> operand \<Rightarrow> int exec"
  proof -
    have B: "arg_ok p OpArgK (GETARG_B ?i)" and C: "arg_ok p OpArgK (GETARG_C ?i)" using e args(5,6) by (auto simp: reads_defs)
    have t: "op \<in> {OP_EQ, OP_LT, OP_LE, OP_TEST, OP_TESTSET, OP_TFORLOOP}" using e by auto
    show ?thesis
      by (rule ok_RK[OF r B bnd(1)], rule ok_RK[OF r C bnd(2)], unfold ok_step(4), rule cm[OF rd], assumption, assumption,
          rule ok_cond_jump[OF a t]) (rule fin(1))
  qed
  have jump: "ok (cond_jump p (pc + 1) b) ?Q L'" if "after L L'" "op \<in> {OP_TEST, OP_TESTSET}" for b L'
    by (rule ok_cond_jump[OF a]) (use that fin(2) in auto)
  show ?thesis
    using op
  proof (elim insertE emptyE)
    assume e: "op = OP_JMP"
    have "pc + 1 + GETARG_sBx ?i \<in> vm_next p pc" using at_opD(6)[OF a] by (simp add: e vm_next_def instr_def Let_def)
    from fin(2)[OF this after_refl[OF g]] show ?thesis by (simp add: op_test_def e ok_step(1) ok_bind ok_simps(1))
  next
    assume e: "op = OP_EQ"
    have "ok (RK p (GETARG_B ?i)) (\<lambda>rb. ok (RK p (GETARG_C ?i)) (\<lambda>rc.
      ok (Protect (pc + 1) (equalobj call rb rc)) (\<lambda>res. ok (cond_jump p (pc + 1) (res = GETARG_A ?i)) ?Q))) L"
      by (rule cmp) (use e ok_equalobj[OF _ c] in auto)
    then show ?thesis by (simp add: op_test_def e ok_step(1) ok_bind Let_def)
  next
    assume e: "op = OP_LT"
    have "ok (RK p (GETARG_B ?i)) (\<lambda>rb. ok (RK p (GETARG_C ?i)) (\<lambda>rc.
      ok (Protect (pc + 1) (luaV_lessthan E call rb rc)) (\<lambda>res. ok (cond_jump p (pc + 1) (res = GETARG_A ?i)) ?Q))) L"
      by (rule cmp) (use e ok_lessthan[OF _ c E] in auto)
    then show ?thesis by (simp add: op_test_def e ok_step(1) ok_bind Let_def)
  next
    assume e: "op = OP_LE"
    have "ok (RK p (GETARG_B ?i)) (\<lambda>rb. ok (RK p (GETARG_C ?i)) (\<lambda>rc.
      ok (Protect (pc + 1) (lessequal E call rb rc)) (\<lambda>res. ok (cond_jump p (pc + 1) (res = GETARG_A ?i)) ?Q))) L"
      by (rule cmp) (use e ok_lessequal[OF _ c E] in auto)
    then show ?thesis by (simp add: op_test_def e ok_step(1) ok_bind Let_def)
  next
    assume e: "op = OP_TEST"
    have "ok (get_s (l_base L + GETARG_A ?i)) (\<lambda>v. ok (cond_jump p (pc + 1) (truth (l_isfalse v) \<noteq> GETARG_C ?i)) ?Q) L"
      by (rule ok_get_value[OF g]) (use running_reg[OF r args(1)] args(2) jump[OF after_refl[OF g]] e in auto)
    then show ?thesis by (simp add: op_test_def e ok_step(1) ok_bind Let_def)
  next
    assume e: "op = OP_TESTSET"
    have B: "GETARG_B ?i < maxreg p" using args(3) e by (simp add: reads_defs)
    have "ok (get_s (l_base L + GETARG_B ?i)) (\<lambda>v. ok (if truth (l_isfalse v) \<noteq> GETARG_C ?i
        then thenX (set_s (l_base L + GETARG_A ?i) v) (cond_jump p (pc + 1) True) else cond_jump p (pc + 1) False) ?Q) L"
    proof (rule ok_get_value[OF g])
      fix v assume v: "value_ok L v"
      have "ok (set_s (l_base L + GETARG_A ?i) v) (\<lambda>_. ok (cond_jump p (pc + 1) True) ?Q) L"
        by (rule ok_set_above[OF g]) (use running_reg[OF r args(1)] args(2) jump e v in auto)
      then show "ok (if truth (l_isfalse v) \<noteq> GETARG_C ?i
        then thenX (set_s (l_base L + GETARG_A ?i) v) (cond_jump p (pc + 1) True) else cond_jump p (pc + 1) False) ?Q L"
        using jump[OF after_refl[OF g]] e by (simp add: ok_bind)
    qed (use running_reg[OF r bnd(1)] B in auto)
    then show ?thesis by (simp add: op_test_def e ok_step(1) ok_bind Let_def)
  qed
qed

subsection \<open>Loops\<close>

lemma step_forloop:
  assumes r: "running L0 f n ci fs cl p h pc L" and o: "GET_OPCODE (instr p pc) = op_num OP_FORLOOP"
  shows "ok (op_forloop E (pc + 1) (instr p pc)) (goes L0 f n (int (length (ci # fs))) cl) L"
proof -
  let ?i = "instr p pc" and ?Q = "goes L0 f n (int (length (ci # fs))) cl" and ?ra = "l_base L + GETARG_A (instr p pc)"
  note a = running_at[OF r o] and g = running_D(2)[OF r]
  note args = at_op_args[OF a]
  have A: "GETARG_A ?i + 3 < maxreg p" using at_op_for a by blast
  note fin = continues[OF r o]
  have nx: "pc + 1 \<in> vm_next p pc" "pc + 1 + GETARG_sBx ?i \<in> vm_next p pc"
    using at_opD(6)[OF a] by (simp_all add: vm_next_def instr_def Let_def)
  have reg: "l_base L \<le> ?ra + j" "0 \<le> ?ra + j" "?ra + j < stacksize L" if "0 \<le> j" "j \<le> 3" for j
    using running_reg[OF r, of "GETARG_A ?i + j"] args(1) A that by (auto simp: add.assoc)
  have loop: "ok (set_s ?ra (LNumber x)) (\<lambda>_. ok (set_s (?ra + 3) (LNumber x)) (\<lambda>_. ?Q (Continue (pc + 1 + GETARG_sBx ?i)))) L" for x
  proof (rule ok_set_above[OF g])
    fix L1 assume a1: "after L L1"
    show "ok (set_s (?ra + 3) (LNumber x)) (\<lambda>_. ?Q (Continue (pc + 1 + GETARG_sBx ?i))) L1"
      by (rule ok_set_above[OF after_good[OF a1]])
        (use reg[of 3] after_dims[OF goodD(12)[OF g] a1] fin(2)[OF _ _ nx(2)] after_trans[OF a1] in auto)
  qed (use reg[of 0] in auto)
  show ?thesis
    using reg[of 0] reg[of 1] reg[of 2] loop fin(2)[OF _ _ nx(1) after_refl[OF g]]
    by (simp add: op_forloop_def ok_bind ok_step(1) ok_simps Let_def)
qed

lemma ok_for_number:
  assumes r: "ready L" and c: "caller_ok call" and i: "l_base L \<le> i" "i < stacksize L"
    and Q: "\<And>v L'. after L L' \<Longrightarrow> Q v L'"
  shows "ok (for_number E call i what) Q L"
proof -
  note g = readyD(1)[OF r]
  have set: "ok (set_s i (LNumber x)) (\<lambda>_. Q x) L" for x
    by (rule ok_set_above[OF g i]) (use Q in auto)
  have "ok (luaG_runerror E call m) Q L" for m by (rule ok_runerror[OF r c])
  then show ?thesis
    unfolding for_number_def ok_bind
    by (intro ok_get_value[OF g]) (use i goodD(8)[OF g] set in \<open>auto simp: ok_bind ok_simps(1) split: option.splits\<close>)
qed

lemma step_forprep:
  assumes r: "running L0 f n ci fs cl p h pc L" and o: "GET_OPCODE (instr p pc) = op_num OP_FORPREP" and c: "caller_ok call"
  shows "ok (op_forprep E call (pc + 1) (instr p pc)) (goes L0 f n (int (length (ci # fs))) cl) L"
proof -
  let ?i = "instr p pc" and ?Q = "goes L0 f n (int (length (ci # fs))) cl" and ?ra = "l_base L + GETARG_A (instr p pc)"
  note a = running_at[OF r o] and g = running_D(2)[OF r]
  note args = at_op_args[OF a]
  have A: "GETARG_A ?i + 3 < maxreg p" using at_op_for a by blast
  note fin = continues[OF r o]
  have nx: "pc + 1 + GETARG_sBx ?i \<in> vm_next p pc"
    using at_opD(6)[OF a] by (simp add: vm_next_def instr_def Let_def)
  have rd: "ready (L\<lparr>savedpc := pc + 1\<rparr>)" by (rule ready_running[OF r o]) (use at_opD(3,4)[OF a] in auto)
  have reg: "l_base L \<le> ?ra + j" "?ra + j < stacksize L" if "0 \<le> j" "j \<le> 3" for j
    using running_reg[OF r, of "GETARG_A ?i + j"] args(1) A that by (auto simp: add.assoc)
  have num: "ok (for_number E call (?ra + j) what) R L1"
    if "after (L\<lparr>savedpc := pc + 1\<rparr>) L1" "0 \<le> j" "j \<le> 3" "\<And>v L2. after (L\<lparr>savedpc := pc + 1\<rparr>) L2 \<Longrightarrow> R v L2" for L1 j what R
    by (rule ok_for_number[OF ready_after[OF rd that(1)] c])
      (use that reg[OF that(2,3)] after_dims[OF _ that(1)] running_D(11)[OF r] after_trans[OF that(1)] in auto)
  have last_set: "ok (set_s ?ra (LNumber x)) (\<lambda>_. ?Q (Continue (pc + 1 + GETARG_sBx ?i))) L1"
    if "after (L\<lparr>savedpc := pc + 1\<rparr>) L1" for L1 x
    by (rule ok_set_above[OF after_good[OF that]])
      (use reg[of 0] after_dims[OF _ that] running_D(11)[OF r] fin(1)[OF _ _ nx] after_trans[OF that] in auto)
  have a0: "after (L\<lparr>savedpc := pc + 1\<rparr>) (L\<lparr>savedpc := pc + 1\<rparr>)" by (rule after_refl[OF good_savedpc[OF g]])
  have "ok (for_number E call ?ra ''initial value'') (\<lambda>init. ok (for_number E call (?ra + 1) ''limit'') (\<lambda>limit.
      ok (for_number E call (?ra + 2) ''step'') (\<lambda>step. ok (set_s ?ra (LNumber (luai_numsub init step)))
       (\<lambda>_. ?Q (Continue (pc + 1 + GETARG_sBx ?i)))))) (L\<lparr>savedpc := pc + 1\<rparr>)"
    using num[of _ 0] num[of _ 1] num[of _ 2] last_set a0 by simp
  then show ?thesis by (simp add: op_forprep_def ok_bind ok_step(1,4) ok_simps(1))
qed

end
