(* ===== verification/VMLists.thy ===== *)
theory VMLists
  imports VMBranch
begin

text \<open>
  Upvalues that are opened and closed, closures, list constructors and varargs of the running function.
\<close>

subsection \<open>Closing upvalues\<close>

lemma open_levels: "open_list (upvals L) (openupval L) \<Longrightarrow> i \<in> levels L \<Longrightarrow> \<exists>a\<in>set (openupval L). upvals L a = Some (UOpen i)"
  using open_listD(1) by (fastforce simp: levels_def)

lemma stacksize_lists: "stacksize (L\<lparr>openupval := us\<rparr>) = stacksize L" "stacksize (L\<lparr>uvhead := us\<rparr>) = stacksize L"
  by (simp_all add: stacksize_def del: length_stack)

lemma ok_close_upvals:
  assumes "good L" "openupval L = ps"
    and "\<And>L'. after L L' \<Longrightarrow> stack L' = stack L \<Longrightarrow> l_ci L' = l_ci L \<Longrightarrow> (\<And>i. i \<in> levels L' \<Longrightarrow> i < lvl) \<Longrightarrow> Q () L'"
  shows "ok (close_upvals lvl ps) Q L"
  using assms
proof (induction ps arbitrary: L)
  case Nil
  have "levels L = {}" using open_levels[OF stack_okD(9)[OF goodD(2)[OF Nil.prems(1)]]] Nil.prems(2) by auto
  then show ?case using Nil.prems(3)[OF after_refl[OF Nil.prems(1)]] by (simp add: ok_simps)
next
  case (Cons uv ps)
  note g = Cons.prems(1)
  note ol = stack_okD(9)[OF goodD(2)[OF g]]
  obtain i where i: "upvals L uv = Some (UOpen i)" "\<forall>b\<in>set ps. \<exists>j. upvals L b = Some (UOpen j) \<and> j < i"
    using ol unfolding Cons.prems(2) open_list_Cons by blast
  have lv: "x \<le> i" if "x \<in> levels L" for x
    using open_levels[OF ol that] i Cons.prems(2) by fastforce
  have b: "0 \<le> i" "i < stacksize L" using stack_okD(3)[OF goodD(2)[OF g], of i] i(1) by (auto simp: levels_def)
  have lev: "upval_level (upvals L) uv = Some i" using i(1) by (simp add: upval_level_def)
  show ?case
  proof (cases "lvl \<le> i")
    case True
    define L' where "L' = L\<lparr>upvals := (upvals L)(uv \<mapsto> UClosed (stack L ! nat i)), openupval := ps, uvhead := remove1 uv (uvhead L)\<rparr>"
    have c: "good L' \<and> keeps L L'"
      by (rule good_close_upval[OF g Cons.prems(2) good_value[OF g b] L'_def])
    then have a: "after L L'" by (simp add: after_def L'_def)
    have "ok (close_upvals lvl ps) Q L'"
    proof (rule Cons.IH)
      fix L'' assume a2: "after L' L''" "stack L'' = stack L'" "l_ci L'' = l_ci L'" "\<And>i. i \<in> levels L'' \<Longrightarrow> i < lvl"
      show "Q () L''" by (rule Cons.prems(3)[OF after_trans[OF a a2(1)] _ _ a2(4)]) (use a2(2,3) in \<open>simp_all add: L'_def\<close>)
    qed (use c in \<open>simp_all add: L'_def\<close>)
    moreover have "L' = L\<lparr>openupval := ps, uvhead := remove1 uv (uvhead L), upvals := (upvals L)(uv \<mapsto> UClosed (stack L ! nat i))\<rparr>"
      by (simp add: L'_def)
    ultimately show ?thesis using True b lev by (simp add: ok_bind ok_simps ok_the_def unlinkupval_def stacksize_lists)
  next
    case False
    have "Q () L" by (rule Cons.prems(3)[OF after_refl[OF g] refl refl]) (use lv False in force)
    then show ?thesis using False lev by (simp add: ok_bind ok_simps ok_the_def)
  qed
qed

lemma ok_close:
  assumes "good L" "\<And>L'. after L L' \<Longrightarrow> stack L' = stack L \<Longrightarrow> l_ci L' = l_ci L \<Longrightarrow> (\<And>i. i \<in> levels L' \<Longrightarrow> i < lvl) \<Longrightarrow> Q () L'"
  shows "ok (luaF_close lvl) Q L"
  unfolding luaF_close_def ok_bind ok_simps(2) by (rule ok_close_upvals) (use assms in auto)

lemma step_close:
  assumes r: "running L0 f n ci fs cl p h pc L" and o: "GET_OPCODE (instr p pc) = op_num OP_CLOSE"
  shows "ok (go_on (pc + 1) (bindX (reg (GETARG_A (instr p pc))) luaF_close)) (goes L0 f n (int (length (ci # fs))) cl) L"
proof -
  note a = running_at[OF r o] and g = running_D(2)[OF r]
  have nx: "pc + 1 \<in> vm_next p pc" by (rule vm_next_simple[OF a]) simp
  have "ok (luaF_close (l_base L + GETARG_A (instr p pc))) (\<lambda>_. goes L0 f n (int (length (ci # fs))) cl (Continue (pc + 1))) L"
  proof (rule ok_close[OF g])
    fix L' assume a': "after L L'" and lv: "\<And>i. i \<in> levels L' \<Longrightarrow> i < l_base L + GETARG_A (instr p pc)"
    have "going L0 f n (int (length (ci # fs))) cl (pc + 1) L'"
    proof (rule going_moves[OF r after_good[OF a'] keeps_moves[OF after_keeps[OF a']]])
      fix i assume i: "i \<in> levels L'"
      then have iL: "i \<in> levels L" using after_keeps[OF a'] by (auto simp: keeps_def)
      have "i < ci_base ci + min (h pc) (GETARG_A (instr p pc))"
        using running_D(7)[OF r iL] lv[OF i] running_D(9)[OF r] by simp
      then show "(i \<in> levels L \<or> ci_base ci \<le> i) \<and> i < ci_base ci + h (pc + 1)"
        using iL running_flow(4)[OF r o nx] by force
    next
      show "top_at p (pc + 1) ci L'" using running_closed[OF r o] after_top[OF a'] by (simp add: top_at_def)
    qed (use at_op_stays[OF a nx] in auto)
    then show "goes L0 f n (int (length (ci # fs))) cl (Continue (pc + 1)) L'" by (simp add: goes_def)
  qed
  then show ?thesis by (simp add: ok_go_on ok_bind ok_step(1))
qed

subsection \<open>Opening upvalues\<close>

lemma find_open_spec:
  assumes "open_list us ps"
  shows "\<exists>r. find_open us lvl ps L = Inr (r, L) \<and> (\<forall>p. r = Some p \<longrightarrow> us p = Some (UOpen lvl))
    \<and> (r = None \<longrightarrow> (\<forall>a. us a \<noteq> Some (UOpen lvl)))"
  using assms
proof (induction ps arbitrary: us)
  case Nil
  then show ?case using open_listD(1)[OF Nil] by (auto simp: ret_def)
next
  case (Cons p ps)
  obtain v where v: "us p = Some (UOpen v)" "\<forall>b\<in>set ps. \<exists>j. us b = Some (UOpen j) \<and> j < v" "p \<notin> set ps"
    "open_list (us(p := None)) ps"
    using Cons.prems unfolding open_list_Cons by blast
  have lev: "upval_level us p = Some v" using v(1) by (simp add: upval_level_def)
  have same: "find_open us lvl ps = find_open (us(p := None)) lvl ps"
    using v(3)
  proof (induction ps)
    case (Cons q qs)
    then show ?case by (auto simp: upval_level_def cong: if_cong)
  qed simp
  have none: "us a \<noteq> Some (UOpen lvl)" if "v < lvl" for a
  proof
    assume a: "us a = Some (UOpen lvl)"
    then have "a = p \<or> a \<in> set ps" using open_listD(1)[OF Cons.prems a] by simp
    then show False using v(1,2) a that by fastforce
  qed
  show ?case
  proof (cases "lvl < v")
    case True
    obtain r where r: "find_open (us(p := None)) lvl ps L = Inr (r, L)" "\<forall>q. r = Some q \<longrightarrow> (us(p := None)) q = Some (UOpen lvl)"
      "r = None \<longrightarrow> (\<forall>a. (us(p := None)) a \<noteq> Some (UOpen lvl))"
      using Cons.IH[OF v(4)] by blast
    have eq: "(us(p := None)) a = Some (UOpen lvl) \<longleftrightarrow> us a = Some (UOpen lvl)" for a using v(1) True by (cases "a = p") auto
    have "(\<forall>q. r = Some q \<longrightarrow> us q = Some (UOpen lvl)) \<and> (r = None \<longrightarrow> (\<forall>a. us a \<noteq> Some (UOpen lvl)))"
      using r(2,3) unfolding eq by blast
    then show ?thesis using r(1) True lev same by (auto simp: bindX_def the_def_def ret_def)
  next
    case False
    then show ?thesis using lev v(1) none by (cases "v = lvl") (auto simp: bindX_def the_def_def ret_def)
  qed
qed

lemma insert_open_set: "set (insert_open us lvl uv ps) = insert uv (set ps)"
  by (induction ps) (auto split: option.splits)

lemma insert_open_spec:
  assumes "open_list us ps" "us uv = None" "\<And>a. us a \<noteq> Some (UOpen lvl)"
  shows "open_list (us(uv \<mapsto> UOpen lvl)) (insert_open us lvl uv ps)"
  using assms
proof (induction ps arbitrary: us)
  case Nil
  then show ?case using open_listD(1)[OF Nil(1)] by (auto simp: open_list_Cons split: if_splits) (auto simp: open_list_def)
next
  case (Cons p ps)
  obtain v where v: "us p = Some (UOpen v)" "\<forall>b\<in>set ps. \<exists>j. us b = Some (UOpen j) \<and> j < v" "p \<notin> set ps"
    "open_list (us(p := None)) ps"
    using Cons.prems(1) unfolding open_list_Cons by blast
  have lev: "upval_level us p = Some v" using v(1) by (simp add: upval_level_def)
  have ne: "uv \<noteq> p" "uv \<notin> set ps" using v(1,2) Cons.prems(2) by auto
  show ?case
  proof (cases "lvl \<le> v")
    case True
    then have less: "lvl < v" using Cons.prems(3)[of p] v(1) by (cases "lvl = v") auto
    have same: "insert_open us lvl uv ps = insert_open (us(p := None)) lvl uv ps"
      using v(3) by (induction ps) (auto simp: upval_level_def split: option.splits UpVal.splits)
    have "open_list ((us(p := None))(uv \<mapsto> UOpen lvl)) (insert_open us lvl uv ps)"
      unfolding same by (rule Cons.IH[OF v(4)]) (use Cons.prems ne in auto)
    moreover have "(us(p := None))(uv \<mapsto> UOpen lvl) = (us(uv \<mapsto> UOpen lvl))(p := None)" using ne(1) by (simp add: fun_upd_twist)
    ultimately have "open_list (us(uv \<mapsto> UOpen lvl)) (p # insert_open us lvl uv ps)"
      unfolding open_list_Cons using v less ne by (simp add: insert_open_set)
    then show ?thesis using True lev by (simp only: insert_open.simps option.case if_True)
  next
    case False
    have "open_list ((us(uv \<mapsto> UOpen lvl))(uv := None)) (p # ps)"
      using Cons.prems(1,2) by (simp add: fun_upd_idem)
    then have "open_list (us(uv \<mapsto> UOpen lvl)) (uv # p # ps)"
      unfolding open_list_Cons[of _ uv] using False v ne by fastforce
    then show ?thesis using False lev by (simp only: insert_open.simps option.case if_False)
  qed
qed

lemma ok_modify: "ok (modify u) Q = (\<lambda>L. Q () (u L))"
  by (rule ext) (simp add: ok_simps(3))

lemma good_open_upval:
  assumes g: "good L" and a: "a \<noteq> 0" "upvals L a = None" "a \<notin> set (allocs (l_G L))"
    and i: "0 \<le> i" "i < stacksize L" "\<forall>ci\<in>set (l_ci L). ci_func ci \<noteq> i" "\<forall>b. upvals L b \<noteq> Some (UOpen i)"
    and L': "L' = L\<lparr>upvals := (upvals L)(a \<mapsto> UOpen i), openupval := insert_open (upvals L) i a (openupval L), uvhead := uvs\<rparr>"
  shows "good L'" "moves L L'" "levels L' = insert i (levels L)"
proof -
  have e: "extends L L'" unfolding L' by (rule extendsI) (use a in auto)
  show lv: "levels L' = insert i (levels L)" using a(2) by (auto simp: levels_def L' split: if_splits) (metis option.distinct(1))
  have "fresh_objects L'" using heap_okD(2)[OF goodD(1)[OF g]] a by (auto simp: fresh_objects_def L')
  then have h: "heap_ok L'" by (intro heap_ok_objects[OF goodD(1)[OF g] e]) (auto simp: L' split: if_splits)
  have ol: "open_list (upvals L') (openupval L')"
    using insert_open_spec[OF stack_okD(9)[OF goodD(2)[OF g]] a(2)] i(4) by (simp add: L')
  have ss: "stacksize L' = stacksize L" by (simp add: L' stacksize_def del: length_stack)
  have "stack_ok L'"
    using goodD(2)[OF g] value_ok_mono[OF _ e] lv ol i(1,2) ss by (auto simp: stack_ok_def L')
  then show "good L'" using g h lv i(3) ss by (auto simp: good_def stack_last_def L')
  show "moves L L'" using e ss by (simp add: moves_def L')
qed

lemma ok_findupval:
  assumes g: "good L" and i: "l_base L \<le> i" "i < stacksize L"
    and Q: "\<And>uv L'. good L' \<Longrightarrow> moves L L' \<Longrightarrow> levels L' \<subseteq> insert i (levels L) \<Longrightarrow> uv \<in> dom (upvals L') \<Longrightarrow> closures L' = closures L
      \<Longrightarrow> l_top L' = l_top L \<Longrightarrow> stack L' = stack L \<Longrightarrow> set (allocs (l_G L')) \<subseteq> set (allocs (l_G L)) \<Longrightarrow> Q uv L'"
  shows "ok (luaF_findupval i) Q L"
proof -
  obtain r where r: "find_open (upvals L) i (openupval L) L = Inr (r, L)" "\<And>p. r = Some p \<Longrightarrow> upvals L p = Some (UOpen i)"
    "r = None \<Longrightarrow> (\<forall>a. upvals L a \<noteq> Some (UOpen i))"
    using find_open_spec[OF stack_okD(9)[OF goodD(2)[OF g]]] by blast
  have lookup: "ok (find_open (upvals L) i (openupval L)) R L = R r L" for R by (simp add: ok_def r(1))
  have fresh: "ok new_object (\<lambda>uv L'. Q uv (L'\<lparr>upvals := (upvals L')(uv \<mapsto> UOpen i), openupval := insert_open (upvals L) i uv (openupval L),
       uvhead := uv # uvhead L'\<rparr>)) L" if n: "r = None"
  proof (rule ok_new_object[OF g])
    fix a L1 assume a: "after L L1" "a \<noteq> 0" "a \<notin> set (allocs (l_G L1))" "upvals L1 a = None" "stack L1 = stack L"
      "upvals L1 = upvals L" "openupval L1 = openupval L" "closures L1 = closures L" "set (allocs (l_G L1)) \<subseteq> set (allocs (l_G L))"
    note d = after_dims[OF goodD(12)[OF g] a(1)]
    define L2 where "L2 = L1\<lparr>upvals := (upvals L)(a \<mapsto> UOpen i), openupval := insert_open (upvals L) i a (openupval L), uvhead := a # uvhead L1\<rparr>"
    have ci: "\<forall>ci\<in>set (l_ci L1). ci_func ci \<noteq> i"
      using goodD(11)[OF after_good[OF a(1)]] i d by fastforce
    have b: "0 \<le> i" "i < stacksize L1" using i d goodD(8)[OF g] by auto
    have "\<forall>b. upvals L1 b \<noteq> Some (UOpen i)" using r(3)[OF n] a(6) by simp
    note o = good_open_upval[OF after_good[OF a(1)] a(2,4,3) b ci this, of L2 "a # uvhead L1"]
    have L2: "L2 = L1\<lparr>upvals := (upvals L1)(a \<mapsto> UOpen i), openupval := insert_open (upvals L1) i a (openupval L1), uvhead := a # uvhead L1\<rparr>"
      by (simp add: L2_def a(6,7))
    have "levels L1 \<subseteq> levels L" using after_keeps[OF a(1)] by (auto simp: keeps_def)
    then have "Q a L2"
      by (intro Q o(1)[OF L2] moves_trans[OF keeps_moves[OF after_keeps[OF a(1)]] o(2)[OF L2]])
        (use o(3)[OF L2] a d in \<open>auto simp: L2_def\<close>)
    then show "Q a (L1\<lparr>upvals := (upvals L1)(a \<mapsto> UOpen i), openupval := insert_open (upvals L) i a (openupval L), uvhead := a # uvhead L1\<rparr>)"
      by (simp add: L2_def a(6))
  qed
  show ?thesis
  proof (cases r)
    case None
    then show ?thesis using fresh by (simp add: luaF_findupval_def ok_bind ok_simps(1,2) ok_modify lookup)
  next
    case (Some uv)
    have "Q uv L" by (rule Q[OF g]) (use r(2)[OF Some] in auto)
    then show ?thesis using Some by (simp add: luaF_findupval_def ok_bind ok_simps(1,2) lookup)
  qed
qed

end
