(* ===== verification/VMClosure.thy ===== *)
theory VMClosure
  imports VMLists
begin

text \<open>
  Closures, list constructors and varargs of the running function.
\<close>

subsection \<open>Closures\<close>

lemma good_closure:
  assumes g: "good L" and a: "a \<notin> set (allocs (l_G L))" and c: "\<forall>cl. closures L a = Some cl \<longrightarrow> \<not> closure_ok L cl"
  shows "after L (L\<lparr>closures := (closures L)(a \<mapsto> LClosure env q us)\<rparr>)"
proof -
  let ?L = "L\<lparr>closures := (closures L)(a \<mapsto> LClosure env q us)\<rparr>"
  have e: "extends L ?L" by (rule extendsI) (use c in auto)
  have "good ?L \<and> keeps L ?L"
  proof (rule good_heapI[OF g])
    show "extends L ?L" by (rule e)
    have "fresh_objects ?L" using heap_okD(2)[OF goodD(1)[OF g]] a by (auto simp: fresh_objects_def)
    then show "heap_ok ?L" by (intro heap_ok_objects[OF goodD(1)[OF g] e]) (auto split: if_splits)
    show "open_list (upvals ?L) (openupval ?L)" using stack_okD(9)[OF goodD(2)[OF g]] by simp
    show "levels ?L \<subseteq> levels L" by (simp add: levels_def)
  qed simp_all
  then show ?thesis by (simp add: after_def)
qed

lemma good_null_upval: "good L \<Longrightarrow> 0 \<notin> dom (upvals L)"
  using heap_okD(2)[OF goodD(1)] by (auto simp: fresh_objects_def)

lemma ok_newLclosure:
  assumes g: "good L"
    and Q: "\<And>a L'. after L L' \<Longrightarrow> a \<notin> set (allocs (l_G L')) \<Longrightarrow> closures L' a = Some (LClosure e q (replicate n 0)) \<Longrightarrow> stack L' = stack L
      \<Longrightarrow> Q a L'"
  shows "ok (luaF_newLclosure n e q) Q L"
  unfolding luaF_newLclosure_def ok_bind
proof (rule ok_new_object[OF g])
  fix a L1 assume a: "after L L1" "a \<notin> set (allocs (l_G L1))" "closures L1 a = None" "stack L1 = stack L"
  have "after L1 (L1\<lparr>closures := (closures L1)(a \<mapsto> LClosure e q (replicate n 0))\<rparr>)"
    by (rule good_closure[OF after_good[OF a(1)] a(2)]) (simp add: a(3))
  then have "Q a (L1\<lparr>closures := (closures L1)(a \<mapsto> LClosure e q (replicate n 0))\<rparr>)"
    using a by (intro Q[OF after_trans[OF a(1)]]) simp_all
  then show "ok (modify (\<lambda>L. L\<lparr>closures := (closures L)(a \<mapsto> LClosure e q (replicate n 0))\<rparr>)) (\<lambda>_. ok (ret a) Q) L1"
    by (simp add: ok_modify ok_simps(1))
qed

text \<open>The word at \<open>pc\<close> names an upvalue of the running function or one of its registers.\<close>

definition names_upval :: "Proto \<Rightarrow> addr list \<Rightarrow> int \<Rightarrow> bool" where
  "names_upval p ups pc = (0 \<le> pc \<and> pc < p_sizecode p \<and>
     (if GET_OPCODE (p_code p ! nat pc) = op_num OP_GETUPVAL then nat (GETARG_B (p_code p ! nat pc)) < length ups
      else GETARG_B (p_code p ! nat pc) < maxreg p))"

definition set_upval :: "addr \<Rightarrow> nat \<Rightarrow> addr \<Rightarrow> lua_State \<Rightarrow> lua_State" where
  "set_upval ncl j uv L = L\<lparr>closures := (closures L)(ncl := map_option
     (\<lambda>cl. case cl of LClosure e q us \<Rightarrow> LClosure e q (us[j := uv]) | _ \<Rightarrow> cl) (closures L ncl))\<rparr>"

lemma ok_closure_upvals:
  assumes "good L" "closures L ncl = Some (LClosure env q us)" "length us = j + n" "\<forall>k<j. us ! k \<in> dom (upvals L)"
    "\<forall>k. j \<le> k \<longrightarrow> k < j + n \<longrightarrow> us ! k = 0" "ncl \<notin> set (allocs (l_G L))" "set ups \<subseteq> dom (upvals L)"
    "\<forall>k<n. names_upval p ups (pc + int k)" "l_base L + maxreg p \<le> stacksize L"
    and Q: "\<And>L' us'. good L' \<Longrightarrow> moves L L' \<Longrightarrow> closures L' ncl = Some (LClosure env q us') \<Longrightarrow> length us' = j + n \<Longrightarrow>
      set us' \<subseteq> dom (upvals L') \<Longrightarrow> l_top L' = l_top L \<Longrightarrow>
      (\<And>i. i \<in> levels L' \<Longrightarrow> i \<in> levels L \<or> (\<exists>k<n. GET_OPCODE (p_code p ! nat (pc + int k)) \<noteq> op_num OP_GETUPVAL
         \<and> i = l_base L + GETARG_B (p_code p ! nat (pc + int k)))) \<Longrightarrow> Q (pc + int n) L'"
  shows "ok (closure_upvals p ups ncl n j pc) Q L"
  using assms
proof (induction n arbitrary: j pc us L)
  case 0
  have "set us \<subseteq> dom (upvals L)" using 0(3,4) by (force simp: in_set_conv_nth)
  then show ?case using 0 by (auto simp: ok_simps(1))
next
  case (Suc n)
  note g = Suc.prems(1)
  let ?u = "p_code p ! nat pc"
  have nm: "names_upval p ups pc" using Suc.prems(8)[rule_format, of 0] by simp
  have finish: "ok (closure_upvals p ups ncl n (Suc j) (pc + 1)) Q (set_upval ncl j uv L1)"
    if g1: "good L1" and m: "moves L L1" and uv: "uv \<in> dom (upvals L1)" and c: "closures L1 = closures L"
      and lv: "levels L1 \<subseteq> (if GET_OPCODE ?u = op_num OP_GETUPVAL then levels L else insert (l_base L + GETARG_B ?u) (levels L))"
      and s: "l_top L1 = l_top L" "set (allocs (l_G L1)) \<subseteq> set (allocs (l_G L))" for uv L1
  proof -
    let ?L2 = "L1\<lparr>closures := (closures L1)(ncl \<mapsto> LClosure env q (us[j := uv]))\<rparr>"
    have eq: "set_upval ncl j uv L1 = ?L2" using Suc.prems(2) c by (simp add: set_upval_def)
    have len: "j < length us" "us ! j = 0" using Suc.prems(3,5) by auto
    have "\<not> closure_ok L1 (LClosure env q us)"
      using good_null_upval[OF g1] len nth_mem[OF len(1)] by (auto simp: closure_ok_def)
    then have a2: "after L1 ?L2" using Suc.prems(2,6) s(2) c by (intro good_closure[OF g1]) auto
    have ext: "extends L L1" using m by (simp add: moves_def)
    then have up: "dom (upvals L) \<subseteq> dom (upvals L1)" by (simp add: extends_def)
    have m2: "moves L ?L2" by (rule moves_trans[OF m keeps_moves[OF after_keeps[OF a2]]])
    have b: "l_base ?L2 = l_base L" using m by (simp add: moves_def)
    have l2: "levels ?L2 = levels L1" by (simp add: levels_def)
    have "ok (closure_upvals p ups ncl n (Suc j) (pc + 1)) Q ?L2"
    proof (rule Suc.IH[OF after_good[OF a2]])
      show "closures ?L2 ncl = Some (LClosure env q (us[j := uv]))" by simp
      show "\<forall>k<Suc j. us[j := uv] ! k \<in> dom (upvals ?L2)"
        using Suc.prems(4) up uv len by (auto simp: nth_list_update less_Suc_eq)
      show "\<forall>k<n. names_upval p ups (pc + 1 + int k)"
      proof (intro allI impI)
        fix k assume "k < n"
        then show "names_upval p ups (pc + 1 + int k)" using Suc.prems(8)[rule_format, of "Suc k"] by (simp add: add.assoc)
      qed
      show "l_base ?L2 + maxreg p \<le> stacksize ?L2" using Suc.prems(9) m b by (simp add: moves_def)
      show "\<forall>k. Suc j \<le> k \<longrightarrow> k < Suc j + n \<longrightarrow> us[j := uv] ! k = 0" using Suc.prems(5) by simp
      show "set ups \<subseteq> dom (upvals ?L2)" using Suc.prems(7) up by simp
      fix L' us' assume L': "good L'" "moves ?L2 L'" "closures L' ncl = Some (LClosure env q us')" "length us' = Suc j + n"
        "set us' \<subseteq> dom (upvals L')" "l_top L' = l_top ?L2"
        and lv': "\<And>i. i \<in> levels L' \<Longrightarrow> i \<in> levels ?L2 \<or> (\<exists>k<n. GET_OPCODE (p_code p ! nat (pc + 1 + int k)) \<noteq> op_num OP_GETUPVAL
         \<and> i = l_base ?L2 + GETARG_B (p_code p ! nat (pc + 1 + int k)))"
      have "Q (pc + int (Suc n)) L'"
      proof (rule Suc.prems(10)[OF L'(1) moves_trans[OF m2 L'(2)] L'(3) _ L'(5)])
        fix i assume i: "i \<in> levels L'"
        from lv'[OF i] show "i \<in> levels L \<or> (\<exists>k<Suc n. GET_OPCODE (p_code p ! nat (pc + int k)) \<noteq> op_num OP_GETUPVAL
         \<and> i = l_base L + GETARG_B (p_code p ! nat (pc + int k)))"
        proof (elim disjE exE conjE)
          assume "i \<in> levels ?L2"
          then show ?thesis using lv l2 by (auto split: if_splits intro!: exI[of _ "0::nat"] simp del: op_num.simps)
        next
          fix k assume "k < n" "GET_OPCODE (p_code p ! nat (pc + 1 + int k)) \<noteq> op_num OP_GETUPVAL"
            "i = l_base ?L2 + GETARG_B (p_code p ! nat (pc + 1 + int k))"
          then show ?thesis using b by (intro disjI2 exI[of _ "Suc k"]) (simp add: add.assoc)
        qed
      qed (use L'(4,6) s in simp_all)
      then show "Q (pc + 1 + int n) L'" by (simp add: algebra_simps)
    qed (use Suc.prems(3,6) s in auto)
    then show ?thesis by (simp add: eq)
  qed
  have upd: "modify (\<lambda>L. L\<lparr>closures := (closures L)(ncl := map_option
     (\<lambda>cl. case cl of LClosure e q us \<Rightarrow> LClosure e q (us[j := uv]) | _ \<Rightarrow> cl) (closures L ncl))\<rparr>) = modify (set_upval ncl j uv)" for uv
    by (simp add: set_upval_def [abs_def])
  have "ok (if GET_OPCODE ?u = op_num OP_GETUPVAL then name_of ups (nat (GETARG_B ?u)) else bindX (reg (GETARG_B ?u)) luaF_findupval)
     (\<lambda>uv L. ok (closure_upvals p ups ncl n (Suc j) (pc + 1)) Q (set_upval ncl j uv L)) L"
  proof (cases "GET_OPCODE ?u = op_num OP_GETUPVAL")
    case True
    then have u: "nat (GETARG_B ?u) < length ups" using nm by (simp only: names_upval_def if_True)
    then have d: "ups ! nat (GETARG_B ?u) \<in> dom (upvals L)" using Suc.prems(7) nth_mem by blast
    show ?thesis using finish[OF g moves_refl d refl] True u by (simp only: if_True ok_name_of simp_thms subset_refl)
  next
    case False
    have B: "0 \<le> GETARG_B ?u" "GETARG_B ?u < maxreg p" using nm False getarg_bounds(4) by (auto simp: names_upval_def)
    have "ok (luaF_findupval (l_base L + GETARG_B ?u)) (\<lambda>uv L. ok (closure_upvals p ups ncl n (Suc j) (pc + 1)) Q (set_upval ncl j uv L)) L"
      by (rule ok_findupval[OF g]) (use B Suc.prems(9) finish False in auto)
    then show ?thesis using False by (simp only: if_False ok_bind ok_reg)
  qed
  then show ?case using nm
    by (simp add: ok_bind ok_step(3) names_upval_def upd ok_modify del: op_num.simps)
qed

lemma at_op_closure:
  assumes a: "at_op I p pc OP_CLOSURE" and len: "length ups = unat (p_nups p)"
  defines "nup \<equiv> unat (p_nups (p_p p ! nat (GETARG_Bx (instr p pc))))"
  shows "nat (GETARG_Bx (instr p pc)) < length (p_p p)" "pc + 1 + int nup \<in> vm_next p pc"
    "\<forall>k<nup. names_upval p ups (pc + 1 + int k)"
proof -
  note d = at_opD[OF a]
  obtain lst r where o: "sx_op p (p_sizecode p) NO_REG pc lst OP_CLOSURE (GETARG_A (instr p pc)) (GETARG_Bx (instr p pc)) 0 = Inr (Some r)"
    using at_op_sx[OF a] by (auto simp: operand_b_def operand_c_def)
  have n: "GETARG_Bx (instr p pc) < int (length (p_p p))" "pc + int nup < p_sizecode p"
    "\<forall>j\<in>{1..int nup}. GET_OPCODE (p_code p ! nat (pc + j)) \<in> {op_num OP_GETUPVAL, op_num OP_MOVE}"
    using o by (auto simp: sx_op_def bindC_eq_Some p_of_simps Let_def nup_def)
  then show "nat (GETARG_Bx (instr p pc)) < length (p_p p)" using getarg_bounds(8)[of "instr p pc"] by simp
  show "pc + 1 + int nup \<in> vm_next p pc"
    using d(6) by (simp add: vm_next_def instr_def nup_def Let_def)
  show "\<forall>k<nup. names_upval p ups (pc + 1 + int k)"
  proof (intro allI impI)
    fix k assume k: "k < nup"
    define x where "x = pc + 1 + int k"
    have k1: "1 + int k \<in> {1..int nup}" using k by simp
    have pse: "GET_OPCODE (p_code p ! nat (pc + (1 + int j))) \<in> {op_num OP_GETUPVAL, op_num OP_MOVE}" if "j \<le> k" for j
      using n(3) that k by (intro bspec[OF n(3)]) simp
    have nc: "\<not> setlist_count (p_code p ! nat (pc + int j))" if "j \<le> k" for j
    proof (cases j)
      case 0
      then show ?thesis using not_setlist_count[OF d(5)] by simp
    next
      case (Suc i)
      then have "GET_OPCODE (p_code p ! nat (pc + int j)) \<in> {op_num OP_GETUPVAL, op_num OP_MOVE}" using pse[of i] that by simp
      then show ?thesis by (auto simp: setlist_count_def)
    qed
    have "visited p (pc + int (Suc k))"
      by (rule visited_over[OF d(2)]) (use n(2) k nc in \<open>auto simp: zero_le_imp_eq_int dest!: zero_le_imp_eq_int\<close>)
    then have v: "visited p x" by (simp add: x_def add.assoc)
    have xs: "x < p_sizecode p" using n(2) k by (simp add: x_def)
    have "GET_OPCODE (instr p x) \<in> {op_num OP_GETUPVAL, op_num OP_MOVE}" using pse[of k] by (simp add: x_def instr_def add.assoc)
    then consider "at_op I p x OP_GETUPVAL" | "at_op I p x OP_MOVE" using d(1) v xs by (auto simp: at_op_def)
    then have "names_upval p ups x"
    proof cases
      case 1
      have "GETARG_B (instr p x) < uint (p_nups p)" by (rule at_op_setupval[OF 1]) simp
      then have "nat (GETARG_B (instr p x)) < length ups" using getarg_bounds(4)[of "instr p x"] len by (simp add: nat_less_iff)
      then show ?thesis using at_opD(3,4,5)[OF 1] by (simp add: names_upval_def instr_def)
    next
      case 2
      then have "GETARG_B (instr p x) < maxreg p" using at_op_args(3)[OF 2] by (simp add: reads_defs)
      then show ?thesis using at_opD(3,4,5)[OF 2] by (simp add: names_upval_def instr_def)
    qed
    then show "names_upval p ups (pc + 1 + int k)" by (simp add: x_def)
  qed
qed

lemma step_closure:
  assumes r: "running L0 f n ci fs cl p h pc L" and o: "GET_OPCODE (instr p pc) = op_num OP_CLOSURE"
    and c: "closures L cl = Some (LClosure env p us)"
  shows "ok (op_closure env p us (pc + 1) (instr p pc)) (goes L0 f n (int (length (ci # fs))) cl) L"
proof -
  let ?i = "instr p pc" and ?Q = "goes L0 f n (int (length (ci # fs))) cl"
  let ?q = "p_p p ! nat (GETARG_Bx ?i)"
  define nup where "nup = unat (p_nups ?q)"
  note a = running_at[OF r o] and g = running_D(2)[OF r]
  note args = at_op_args[OF a]
  note cl = running_closure_ok[OF r c]
  note co = at_op_closure[OF a cl(2), folded nup_def]
  have q: "code_ok (strs L) ?q" using code_okD(4)[OF running_code[OF r]] co(1) nth_mem by blast
  note st = at_op_stays[OF a co(2)]
  have made: "ok (closure_upvals p us ncl nup 0 (pc + 1)) (\<lambda>pc'. ok (Protect pc' (set_s (l_base L + GETARG_A ?i) (LFunction ncl)))
      (\<lambda>_. ?Q (Continue pc'))) L1"
    if a1: "after L L1" and fr: "ncl \<notin> set (allocs (l_G L1))" and n: "closures L1 ncl = Some (LClosure env ?q (replicate nup 0))" for ncl L1
  proof -
    note d1 = after_dims[OF goodD(12)[OF g] a1]
    have e1: "extends L L1" using after_keeps[OF a1] by (simp add: keeps_def)
    note m1 = keeps_moves[OF after_keeps[OF a1]]
    show ?thesis
    proof (rule ok_closure_upvals[OF after_good[OF a1] n])
      show "set us \<subseteq> dom (upvals L1)" using cl(3) e1 unfolding extends_def by blast
      show "l_base L1 + maxreg p \<le> stacksize L1" using running_reg[OF r, of "maxreg p"] d1 by (simp add: maxreg_def)
      fix L2 us' assume L2: "good L2" "moves L1 L2" "closures L2 ncl = Some (LClosure env ?q us')" "length us' = 0 + nup"
        "set us' \<subseteq> dom (upvals L2)" "l_top L2 = l_top L1"
        and lv: "\<And>i. i \<in> levels L2 \<Longrightarrow> i \<in> levels L1 \<or> (\<exists>k<nup. GET_OPCODE (p_code p ! nat (pc + 1 + int k)) \<noteq> op_num OP_GETUPVAL
         \<and> i = l_base L1 + GETARG_B (p_code p ! nat (pc + 1 + int k)))"
      have m: "moves L L2" by (rule moves_trans[OF m1 L2(2)])
      have e: "extends L L2" using m by (simp add: moves_def)
      have lev: "(i \<in> levels L \<or> ci_base ci \<le> i) \<and> i < ci_base ci + h (pc + 1 + int nup)" if i: "i \<in> levels L2" for i
        using lv[OF i]
      proof (elim disjE exE conjE)
        assume "i \<in> levels L1"
        then have "i \<in> levels L" using d1(4) by blast
        then show ?thesis using running_D(7)[OF r, of i] running_flow(3)[OF r o co(2)] by simp
      next
        fix k assume k: "k < nup" "GET_OPCODE (p_code p ! nat (pc + 1 + int k)) \<noteq> op_num OP_GETUPVAL"
          "i = l_base L1 + GETARG_B (p_code p ! nat (pc + 1 + int k))"
        have "int k < int (unat (p_nups ?q))" using k(1) by (simp only: nup_def of_nat_less_iff)
        then have ku: "1 + int k \<le> uint (p_nups ?q)" by simp
        have "captures p pc (GETARG_B (p_code p ! nat (pc + 1 + int k)))"
          unfolding captures_def using at_opD(7)[OF a] k ku
          by (intro conjI exI[of _ "1 + int k"]) (simp_all add: instr_def add.assoc del: op_num.simps)
        then have "GETARG_B (p_code p ! nat (pc + 1 + int k)) < h (pc + 1 + int nup)" by (rule running_flow(5)[OF r o co(2)])
        then show ?thesis using k(3) d1(1) running_D(9)[OF r] getarg_bounds(4) by simp
      qed
      have v: "value_ok L2 (LFunction ncl)"
        using L2(3-5) cl(1) code_ok_mono[OF q] e by (auto simp: closure_ok_def extends_def nup_def)
      let ?L3 = "L2\<lparr>savedpc := pc + 1 + int nup\<rparr>"
      have "ok (set_s (l_base L + GETARG_A ?i) (LFunction ncl)) (\<lambda>_. ?Q (Continue (pc + 1 + int nup))) ?L3"
      proof (rule ok_set_above[OF good_savedpc[OF L2(1)]])
        show "l_base ?L3 \<le> l_base L + GETARG_A ?i" "l_base L + GETARG_A ?i < stacksize ?L3"
          using m running_reg[OF r args(1)] args(2) by (auto simp: moves_def)
        show "value_ok ?L3 (LFunction ncl)" using v by (simp only: value_ok_misc)
        fix L4 assume a4: "after ?L3 L4"
        have "going L0 f n (int (length (ci # fs))) cl (pc + 1 + int nup) L4"
        proof (rule going_moves[OF r after_good[OF a4]])
          show "moves L L4" using m moves_savedpc keeps_moves[OF after_keeps[OF a4]] moves_trans by blast
          fix i assume "i \<in> levels L4"
          then have "i \<in> levels L2" using after_keeps[OF a4] by (auto simp: keeps_def)
          then show "(i \<in> levels L \<or> ci_base ci \<le> i) \<and> i < ci_base ci + h (pc + 1 + int nup)" by (rule lev)
        next
          show "top_at p (pc + 1 + int nup) ci L4"
            using running_closed[OF r o] after_top[OF a4] L2(6) after_top[OF a1] by (simp add: top_at_def)
        qed (use st in auto)
        then show "?Q (Continue (pc + 1 + int nup)) L4" by (simp add: goes_def)
      qed
      then show "ok (Protect (pc + 1 + int nup) (set_s (l_base L + GETARG_A ?i) (LFunction ncl))) (\<lambda>_. ?Q (Continue (pc + 1 + int nup))) L2"
        by (simp add: ok_step(4))
    qed (use fr co(3) in auto)
  qed
  have "ok (luaF_newLclosure nup env ?q) (\<lambda>ncl. ok (closure_upvals p us ncl nup 0 (pc + 1)) (\<lambda>pc'.
      ok (Protect pc' (set_s (l_base L + GETARG_A ?i) (LFunction ncl))) (\<lambda>_. ?Q (Continue pc')))) L"
    by (rule ok_newLclosure[OF g]) (rule made)
  then show ?thesis using co(1)
    by (simp add: op_closure_def ok_bind ok_step(1) ok_name_of ok_go_on Let_def nup_def)
qed

end
