(* ===== verification/VMVararg.thy ===== *)
theory VMVararg
  imports VMClosure
begin

text \<open>
  Varargs and list constructors, the instructions that make or take an open list of values up to \<open>L->top\<close>.
\<close>

subsection \<open>Varargs\<close>

lemma ok_vararg_loop:
  assumes "good L" "l_base L \<le> ra + j" "ra + j + int k \<le> stacksize L" "0 \<le> base - n + j" "base \<le> stacksize L"
    "\<And>L'. after L L' \<Longrightarrow> Q () L'"
  shows "ok (vararg_loop k j ra base n) Q L"
  using assms
proof (induction k arbitrary: j L)
  case 0
  then show ?case by (simp add: ok_simps(1) after_refl)
next
  case (Suc k)
  note g = Suc.prems(1)
  have next_one: "ok (vararg_loop k (j + 1) ra base n) Q L'" if a: "after L L'" for L'
    by (rule Suc.IH[OF after_good[OF a]])
      (use Suc.prems after_dims[OF goodD(12)[OF g] a] after_trans[OF a] in auto)
  have "ok (if j < n then copy_s (ra + j) (base - n + j) else set_s (ra + j) LNil)
      (\<lambda>_. ok (vararg_loop k (j + 1) ra base n) Q) L"
  proof (cases "j < n")
    case True
    have "ok (copy_s (ra + j) (base - n + j)) (\<lambda>_. ok (vararg_loop k (j + 1) ra base n) Q) L"
      by (rule ok_copy_above[OF g]) (use Suc.prems True next_one in auto)
    then show ?thesis using True by simp
  next
    case False
    have "ok (set_s (ra + j) LNil) (\<lambda>_. ok (vararg_loop k (j + 1) ra base n) Q) L"
      by (rule ok_set_above[OF g]) (use Suc.prems next_one in auto)
    then show ?thesis using False by simp
  qed
  then show ?case by (simp add: ok_bind)
qed

lemma step_vararg:
  assumes r: "running L0 f n ci fs cl p h pc L" and o: "GET_OPCODE (instr p pc) = op_num OP_VARARG"
  shows "ok (op_vararg p (pc + 1) (instr p pc)) (goes L0 f n (int (length (ci # fs))) cl) L"
proof -
  let ?i = "instr p pc" and ?Q = "goes L0 f n (int (length (ci # fs))) cl"
  note a = running_at[OF r o] and g = running_D(2)[OF r]
  note args = at_op_args[OF a]
  note va = at_op_vararg[OF a]
  have nx: "pc + 1 \<in> vm_next p pc" by (rule vm_next_simple[OF a]) simp
  note st = at_op_stays[OF a nx]
  note clo = running_closed[OF r o]
  define m where "m = ci_base ci - ci_func ci - uint (p_numparams p) - 1"
  have m: "0 \<le> m" "0 \<le> ci_base ci - m" using running_D(6)[OF r] va(1) running_D(14)[OF r]
    by (auto simp: in_frame_def m_def)
  obtain rest where ci: "l_ci L = ci # rest" using running_D(11,12)[OF r] by (cases "l_ci L") auto
  have B: "0 \<le> GETARG_B ?i" by (rule getarg_bounds)
  note base = running_D(9)[OF r]
  show ?thesis
  proof (cases "GETARG_B ?i = 0")
    case False
    have "ok (vararg_loop (nat (GETARG_B ?i - 1)) 0 (l_base L + GETARG_A ?i) (ci_base ci) m) (\<lambda>_. ?Q (Continue (pc + 1))) L"
      by (rule ok_vararg_loop[OF g])
        (use False B args(1) va(2) m clo base continues(2)[OF r o _ _ nx] in auto)
    then show ?thesis using False
      by (simp add: op_vararg_def ok_bind ok_step(1) ok_simps(2) ci ok_go_on Let_def m_def LUA_MULTRET_def)
  next
    case True
    have top: "luaG_checkopenop (instr p (pc + 1))" using va(3) True .
    have below: "GETARG_A (instr p (pc + 1)) < GETARG_A ?i" if "opcode_at p (pc + 1) OP_CALL \<or> opcode_at p (pc + 1) OP_TAILCALL"
      using at_opD(7,9)[OF a] that top True by (auto simp: tight_instr_def producer_def luaG_checkopenop_def)
    have "ok (luaD_checkstack m) (\<lambda>_. ok (set_top (l_base L + GETARG_A ?i + m))
        (\<lambda>_. ok (vararg_loop (nat m) 0 (l_base L + GETARG_A ?i) (ci_base ci) m) (\<lambda>_. ?Q (Continue (pc + 1))))) (L\<lparr>savedpc := pc + 1\<rparr>)"
    proof (rule ok_checkstack[OF good_savedpc[OF g] m(1)])
      fix L1 assume a1: "after (L\<lparr>savedpc := pc + 1\<rparr>) L1" "l_top L1 + m < stack_last L1"
      note d1 = after_dims[OF _ a1(1)]
      have room: "l_base L + GETARG_A ?i + m \<le> stack_last L1" using a1(2) d1 clo(1) base args(2) running_D(11)[OF r] by simp
      show "ok (set_top (l_base L + GETARG_A ?i + m))
        (\<lambda>_. ok (vararg_loop (nat m) 0 (l_base L + GETARG_A ?i) (ci_base ci) m) (\<lambda>_. ?Q (Continue (pc + 1)))) L1"
      proof (rule ok_set_top[OF after_good[OF a1(1)]])
        fix L2 assume L2: "good L2" "keeps L1 L2" "l_top L2 = l_base L + GETARG_A ?i + m" "L2 = L1\<lparr>l_top := l_base L + GETARG_A ?i + m\<rparr>"
        show "ok (vararg_loop (nat m) 0 (l_base L + GETARG_A ?i) (ci_base ci) m) (\<lambda>_. ?Q (Continue (pc + 1))) L2"
        proof (rule ok_vararg_loop[OF L2(1)])
          fix L3 assume a3: "after L2 L3"
          have k: "keeps (L\<lparr>savedpc := pc + 1\<rparr>) L3"
            using keeps_trans[OF after_keeps[OF a1(1)] keeps_trans[OF L2(2) after_keeps[OF a3]]] .
          have "going L0 f n (int (length (ci # fs))) cl (pc + 1) L3"
          proof (rule going_moves[OF r after_good[OF a3] moves_trans[OF moves_savedpc keeps_moves[OF k]]])
            fix i assume "i \<in> levels L3"
            then have "i \<in> levels L" using k by (auto simp: keeps_def)
            then show "(i \<in> levels L \<or> ci_base ci \<le> i) \<and> i < ci_base ci + h (pc + 1)"
              using running_D(7)[OF r] running_flow(3)[OF r o nx] by force
          next
            show "top_at p (pc + 1) ci L3" using top below after_top[OF a3] L2(3) base m(1) by (auto simp: top_at_def)
          qed (use st in auto)
          then show "?Q (Continue (pc + 1)) L3" by (simp add: goes_def)
        qed (use L2(4) room d1 base args(1) m clo running_D(11)[OF r] in \<open>auto simp: stack_last_def EXTRA_STACK_def\<close>)
      qed (use room d1 args(1) m running_D(11)[OF r] in auto)
    qed
    then show ?thesis using True
      by (simp add: op_vararg_def ok_bind ok_step(1,4) ok_simps(2) ci ok_go_on Let_def m_def LUA_MULTRET_def)
  qed
qed

subsection \<open>List constructors\<close>

lemma set_slot_size: "sizearray (set_slot t s v) = sizearray t"
  by (cases s) simp_all

lemma setnum_in_array:
  assumes t: "table_wf I t" and i: "1 \<le> i" "i \<le> int (sizearray t)" and n: "int (sizearray t) \<le> 2 ^ 26"
  shows "\<exists>s. luaH_setnum t i = Inr (s, t) \<and> bound_to I t t (LNumber (cast_num i)) s"
proof -
  have "- (2 ^ 31) \<le> i" "i < 2 ^ 31" "int (sizearray t) \<le> MAXASIZE" using i n by (simp_all add: MAXASIZE_def MAXBITS_def)
  then have less: "(word_of_int (i - 1) :: u32) < word_of_nat (sizearray t)" using array_word i by simp
  have "luaH_setnum t i \<noteq> Inl table_overflow \<and> (\<forall>s t'. luaH_setnum t i = Inr (s, t') \<longrightarrow> t' = t)"
    by (simp only: luaH_setnum_def luaH_setnum_by_def luaH_getnum_def bindR_def if_True less) simp
  moreover have "- (2 ^ 31) \<le> i" "i < 2 ^ 31" using i n by auto
  ultimately show ?thesis using luaH_setnum_cases[OF t, of i] by blast
qed

lemma ok_setlist_loop:
  assumes "good L" "tables L hh = Some t" "lst \<le> int (sizearray t)" "int n \<le> lst" "0 \<le> ra" "ra + int n < stacksize L"
    "\<And>L'. after L L' \<Longrightarrow> Q () L'"
  shows "ok (setlist_loop E call n hh ra lst) Q L"
  using assms
proof (induction n arbitrary: lst t L)
  case 0
  then show ?case by (simp add: ok_simps(1) after_refl)
next
  case (Suc n)
  note g = Suc.prems(1)
  have tok: "table_ok L t" by (rule good_table_ok[OF g Suc.prems(2)])
  then have wf: "table_wf (strs L) t" by (simp add: table_ok_def)
  have sz: "int (sizearray t) \<le> 2 ^ 26"
    using table_coreD(2,3)[OF wf_core[OF wf]] by (simp add: MAXASIZE_def MAXBITS_def)
  obtain s where s: "luaH_setnum t lst = Inr (s, t)" "bound_to (strs L) t t (LNumber (cast_num lst)) s"
    using setnum_in_array[OF wf _ Suc.prems(3) sz] Suc.prems(4) by auto
  have key: "key_ok (strs L) (LNumber (cast_num lst))"
    using Suc.prems(3,4) sz by (intro key_num_ok) auto
  have step: "ok (put_table hh (set_slot t s v)) (\<lambda>_. ok (setlist_loop E call n hh ra (lst - 1)) Q) L" if v: "value_ok L v" for v
  proof (rule ok_put_table[OF g])
    have "table_ok L (set_slot (t\<lparr>flags := flags t\<rparr>) s v)"
      by (rule bound_table_ok[OF tok s(2) key _ strs_inj[OF goodD(1)[OF g]] v]) simp
    then show "table_ok L (set_slot t s v)" by simp
    show "hh \<in> dom (tables L) \<or> hh \<notin> set (allocs (l_G L))" using Suc.prems(2) by auto
    fix L' assume a: "after L L'" "tables L' = (tables L)(hh \<mapsto> set_slot t s v)"
    show "ok (setlist_loop E call n hh ra (lst - 1)) Q L'"
      by (rule Suc.IH[OF after_good[OF a(1)]])
        (use a(2) Suc.prems after_dims[OF goodD(12)[OF g] a(1)] after_trans[OF a(1)] in \<open>auto simp: set_slot_size\<close>)
  qed
  have "ok (get_s (ra + int (Suc n))) (\<lambda>v. ok (put_table hh (set_slot t s v)) (\<lambda>_. ok (setlist_loop E call n hh ra (lst - 1)) Q)) L"
    by (rule ok_get_value[OF g]) (use Suc.prems step in auto)
  then show ?case by (simp add: ok_bind ok_heap Suc.prems(2) lift_res_def s(1) ok_simps(1))
qed

lemma vm_next_setlist:
  "at_op I p pc OP_SETLIST \<Longrightarrow> (if GETARG_C (instr p pc) = 0 then pc + 2 else pc + 1) \<in> vm_next p pc"
  using at_opD(6)[of I p pc OP_SETLIST] by (simp add: vm_next_def instr_def Let_def)

lemma ok_setlist_store:
  assumes g: "good L" and n: "0 \<le> ra" "ra + m < stacksize L" and c: "1 \<le> c" "c \<le> 2 ^ 24" and m: "- (2 ^ 26) \<le> m" "m \<le> 2 ^ 26"
    and t: "value_ok L (LTable hh)" and Q: "\<And>L'. after L L' \<Longrightarrow> Q () L'"
  shows "ok (setlist_store E call (nat m) hh ra (c - 1) m) Q L"
proof -
  define lst where "lst = (c - 1) * LFIELDS_PER_FLUSH + m"
  have lst: "lst = (c - 1) * 50 + m" by (simp add: lst_def LFIELDS_PER_FLUSH_def)
  have fits: "is_int (c - 1)" "is_int ((c - 1) * LFIELDS_PER_FLUSH)" "is_int lst"
    using c m by (simp_all add: is_int_def lst LFIELDS_PER_FLUSH_def)
  obtain tb where tb: "tables L hh = Some tb" using t by auto
  have tok: "table_ok L tb" by (rule good_table_ok[OF g tb])
  then have wf: "table_wf (strs L) tb" by (simp add: table_ok_def)
  have loop: "ok (setlist_loop E call (nat m) hh ra lst) Q L'" if a: "after L L'" "tables L' hh = Some t'" "lst \<le> int (sizearray t')" for L' t'
  proof (cases "0 \<le> m")
    case True
    show ?thesis
      by (rule ok_setlist_loop[OF after_good[OF a(1)] a(2,3)])
        (use True lst c n after_dims[OF goodD(12)[OF g] a(1)] Q after_trans[OF a(1)] in auto)
  next
    case False
    then show ?thesis using Q[OF a(1)] by (simp add: ok_simps(1))
  qed
  have grow: "ok (granted (nat lst)) (\<lambda>_. ok (lift_res E call (luaH_resizearray tb (nat lst))) (\<lambda>t'. ok (put_table hh t')
      (\<lambda>_. ok (setlist_loop E call (nat m) hh ra lst) Q))) L" if less: "int (sizearray tb) < lst"
  proof (rule ok_granted[OF g])
    assume "nat lst \<le> 2 ^ 26"
    then have "int (nat lst) \<le> int (2 ^ 26)" by (simp only: of_nat_le_iff)
    then have "int (nat lst) \<le> MAXASIZE" by (simp only: MAXASIZE_def MAXBITS_def) simp
    moreover have "sizearray tb \<le> nat lst" using less by simp
    ultimately obtain t' k where t': "luaH_resizearray tb (nat lst) = Inr t'" "resized (strs L) tb t' (nat lst) k"
      using luaH_resizearray_grow[OF wf] by blast
    have tok': "table_ok L t'" using t'(2) tok by (auto simp: resized_def table_ok_def)
    have "ok (put_table hh t') (\<lambda>_. ok (setlist_loop E call (nat m) hh ra lst) Q) L"
    proof (rule ok_put_table[OF g tok'])
      fix L' assume a: "after L L'" "tables L' = (tables L)(hh \<mapsto> t')"
      show "ok (setlist_loop E call (nat m) hh ra lst) Q L'"
        by (rule loop[OF a(1), of t']) (use a(2) t'(2) less in \<open>auto simp: resized_def\<close>)
    qed (use tb in auto)
    then show "ok (lift_res E call (luaH_resizearray tb (nat lst))) (\<lambda>t'. ok (put_table hh t')
      (\<lambda>_. ok (setlist_loop E call (nat m) hh ra lst) Q)) L"
      by (simp add: t'(1) lift_res_def ok_simps(1))
  qed
  show ?thesis
    using grow loop[OF after_refl[OF g] tb] tb fits unfolding setlist_store_def Let_def lst_def[symmetric]
    by (cases "int (sizearray tb) < lst") (simp_all add: ok_heap ok_bind ok_simps(1,4))
qed

lemma ok_top_to_ci: "l_ci L = ci # rest \<Longrightarrow> ok top_to_ci Q L = Q () (L\<lparr>l_top := ci_top ci\<rparr>)"
  by (simp add: top_to_ci_def ok_bind ok_simps(2) ok_simps(10))

lemma step_setlist:
  assumes r: "running L0 f n ci fs cl p h pc L" and o: "GET_OPCODE (instr p pc) = op_num OP_SETLIST"
  shows "ok (op_setlist E call p (pc + 1) (instr p pc)) (goes L0 f n (int (length (ci # fs))) cl) L"
proof -
  let ?i = "instr p pc" and ?Q = "goes L0 f n (int (length (ci # fs))) cl" and ?ra = "l_base L + GETARG_A (instr p pc)"
  note a = running_at[OF r o] and g = running_D(2)[OF r]
  note args = at_op_args[OF a]
  note sl = at_op_setlist[OF a]
  define q where "q = (if GETARG_C ?i = 0 then pc + 2 else pc + 1)"
  have nx: "q \<in> vm_next p pc" using vm_next_setlist[OF a] by (simp add: q_def)
  note st = at_op_stays[OF a nx]
  obtain rest where ci: "l_ci L = ci # rest" using running_D(11,12)[OF r] by (cases "l_ci L") auto
  note base = running_D(9)[OF r]
  have top: "ci_top ci = ci_base ci + maxreg p" "ci_top ci \<le> stack_last L + 2" using running_D(6)[OF r] by (auto simp: in_frame_def)
  note ra = running_reg[OF r args(1)]
  have ra': "0 \<le> ?ra" "?ra < stacksize L" using ra args(2) by auto
  have goes_on: "?Q (Continue q) L'" if k: "good L'" "moves L L'" "levels L' \<subseteq> levels L" "l_top L' = ci_top ci" for L'
  proof -
    have "going L0 f n (int (length (ci # fs))) cl q L'"
    proof (rule going_moves[OF r k(1,2)])
      fix i assume "i \<in> levels L'"
      then have "i \<in> levels L" using k(3) by blast
      then show "(i \<in> levels L \<or> ci_base ci \<le> i) \<and> i < ci_base ci + h q"
        using running_D(7)[OF r] running_flow(3)[OF r o nx] by force
    qed (use k(4) st in \<open>auto simp: top_at_def\<close>)
    then show ?thesis by (simp add: goes_def)
  qed
  define L1 where "L1 = (if GETARG_B ?i = 0 then L\<lparr>l_top := ci_top ci\<rparr> else L)"
  define m where "m = (if GETARG_B ?i = 0 then l_top L - ?ra - 1 else GETARG_B ?i)"
  define c where "c = (if GETARG_C ?i = 0 then sint (instr p (pc + 1)) else GETARG_C ?i)"
  have L1: "good L1" "keeps L L1" "l_top L1 = ci_top ci" "stack L1 = stack L"
    using good_top[OF g, of "ci_top ci"] top g base running_closed[OF r o] by (auto simp: L1_def maxreg_def)
  have B: "0 \<le> GETARG_B ?i" "GETARG_B ?i \<le> 511" "0 \<le> GETARG_C ?i" "GETARG_C ?i \<le> 511" "GETARG_A ?i \<le> 255"
    using getarg_bounds[of ?i] by (simp_all add: maxarg_defs)
  have c: "1 \<le> c" "c \<le> 2 ^ 24"
    using at_opD(7,9)[OF a] B by (auto simp: c_def tight_instr_def)
  have ss: "stacksize L \<le> 2 ^ 26" by (rule stack_okD(6)[OF goodD(2)[OF g]])
  have tb: "l_base L \<le> l_top L" "l_top L < stacksize L" "0 < l_base L" using goodD(5,8,10)[OF g] by auto
  have m: "- (2 ^ 26) \<le> m" "m \<le> 2 ^ 26" "?ra + m < stacksize L"
    using tb ss B ra' args(1) sl(1) running_reg[OF r, of "GETARG_A ?i + GETARG_B ?i"] by (auto simp: m_def add.assoc)
  define REST where "REST ra' m' c' pc' = bindX (get_s ra') (\<lambda>v. case v of
       LTable h \<Rightarrow> go_on pc' (setlist_store E call (nat m') h ra' (c' - 1) m')
     | _ \<Rightarrow> ret (Continue pc'))" for ra' m' c' pc'
  have fin: "ok (REST ?ra m c q) ?Q L1"
    unfolding REST_def ok_bind
  proof (rule ok_get_value[OF L1(1)])
    show "0 \<le> ?ra" "?ra < stacksize L1" using ra' L1(2) by (auto simp: keeps_def)
    fix v assume v: "value_ok L1 v"
    have last_one: "?Q (Continue q) L'" if "after L1 L'" for L'
      by (rule goes_on[OF after_good[OF that] keeps_moves[OF keeps_trans[OF L1(2) after_keeps[OF that]]]])
        (use that L1(2,3) in \<open>auto simp: after_def keeps_def\<close>)
    show "ok (case v of LTable h \<Rightarrow> go_on q (setlist_store E call (nat m) h ?ra (c - 1) m) | _ \<Rightarrow> ret (Continue q)) ?Q L1"
    proof (cases v)
      case (LTable hh)
      have "ok (setlist_store E call (nat m) hh ?ra (c - 1) m) (\<lambda>_. ?Q (Continue q)) L1"
        by (rule ok_setlist_store[OF L1(1) ra'(1) _ c m(1,2)])
          (use m(3) L1(2) v LTable last_one in \<open>auto simp: keeps_def\<close>)
      then show ?thesis by (simp only: LTable TValue.case ok_go_on)
    qed (use last_one[OF after_refl[OF L1(1)]] in \<open>simp_all add: ok_simps(1)\<close>)
  qed
  have eq: "op_setlist E call p (pc + 1) ?i = bindX (reg (GETARG_A ?i)) (\<lambda>ra.
     bindX (if GETARG_B ?i = 0
            then bindX (get l_top) (\<lambda>t. thenX top_to_ci (ret (t - ra - 1))) else ret (GETARG_B ?i)) (\<lambda>n.
     bindX (if GETARG_C ?i = 0 then bindX (fetch p (pc + 1)) (\<lambda>w. ret (sint w, pc + 1 + 1)) else ret (GETARG_C ?i, pc + 1))
       (\<lambda>(c, pc'). REST ra n c pc')))"
    by (simp only: op_setlist_def REST_def)
  have size: "pc + 1 < p_sizecode p" "0 \<le> pc + 1" using at_op_follows[OF a] at_opD(3)[OF a] by auto
  have count: "ok (if GETARG_C ?i = 0 then bindX (fetch p (pc + 1)) (\<lambda>w. ret (sint w, pc + 1 + 1)) else ret (GETARG_C ?i, pc + 1))
       (\<lambda>x. ok (case x of (c, pc') \<Rightarrow> REST ?ra m c pc') ?Q) L1"
    using fin size by (cases "GETARG_C ?i = 0") (simp_all add: ok_bind ok_step(3) ok_simps(1) instr_def q_def c_def add.commute)
  show ?thesis
    unfolding eq using count
    by (cases "GETARG_B ?i = 0") (simp_all add: ok_bind ok_step(1) ok_simps(1,2) ok_top_to_ci[OF ci] L1_def m_def)
qed

end
