(* ===== verification/VMArgs.thy ===== *)
theory VMArgs
  imports VMVararg
begin

text \<open>
  A call before its frame is there: the \<open>__call\<close> tag method and the arguments of a vararg function.
\<close>

subsection \<open>The site of a call\<close>

text \<open>\<open>L\<close> is a state of the call at \<open>func\<close> for \<open>n\<close> results that was made in the state \<open>L0\<close>.\<close>

definition calling :: "lua_State \<Rightarrow> int \<Rightarrow> int \<Rightarrow> lua_State \<Rightarrow> bool" where
  "calling L0 func n L = (good L0 \<and> good L \<and> keeps L0 L \<and> pc_ok L \<and> l_base L \<le> func \<and> func < l_top L
     \<and> (\<forall>i\<in>levels L. i < func) \<and> - 1 \<le> n \<and> func + n \<le> stack_last L0 + 2)"

text \<open>The caller's position has been saved in its frame.\<close>

definition entering :: "lua_State \<Rightarrow> int \<Rightarrow> int \<Rightarrow> lua_State \<Rightarrow> bool" where
  "entering L0 func n L = (calling L0 func n L \<and> ci_savedpc (hd (l_ci L)) = savedpc L0)"

lemma callingD:
  assumes "calling L0 func n L"
  shows "good L0" "good L" "keeps L0 L" "pc_ok L" "l_base L \<le> func" "func < l_top L" "\<And>i. i \<in> levels L \<Longrightarrow> i < func"
    "- 1 \<le> n" "func + n \<le> stack_last L0 + 2" "ready L" "0 < func" "l_top L + 3 < stacksize L" "l_ci L \<noteq> []"
proof -
  show a: "good L0" "good L" "keeps L0 L" "pc_ok L" "l_base L \<le> func" "func < l_top L" "\<And>i. i \<in> levels L \<Longrightarrow> i < func"
    "- 1 \<le> n" "func + n \<le> stack_last L0 + 2"
    using assms by (auto simp: calling_def)
  show "0 < func" "l_top L + 3 < stacksize L" "l_ci L \<noteq> []" using goodD(8,10,12)[OF a(2)] a(5) by auto
  have "i < l_top L" if "i \<in> levels L" for i using a(7)[OF that] a(6) by simp
  then show "ready L" using a by (simp add: ready_def)
qed

lemma calling_keeps:
  assumes c: "calling L0 func n L" and k: "good L'" "keeps L L'" "func < l_top L'"
  shows "calling L0 func n L'"
proof -
  note d = callingD[OF c]
  have "l_base L' = l_base L" "levels L' \<subseteq> levels L" using k(2) by (simp_all add: keeps_def)
  then have "l_base L' \<le> func" "\<forall>i\<in>levels L'. i < func" using d(5,7) by auto
  then show ?thesis
    using d(1,8,9) k keeps_trans[OF d(3) k(2)] pc_ok_keeps[OF d(2) k(2) d(4)] by (simp add: calling_def)
qed

lemma entering_keeps:
  assumes c: "entering L0 func n L" and k: "good L'" "keeps L L'" "func < l_top L'"
  shows "entering L0 func n L'"
  using assms calling_keeps[OF _ k] by (auto simp: entering_def calling_def keeps_def)

lemma entering_after:
  assumes "entering L0 func n L" "after L L'" shows "entering L0 func n L'"
proof -
  have "func < l_top L" using assms(1) by (simp add: entering_def calling_def)
  then show ?thesis using entering_keeps[OF assms(1)] assms(2) by (simp add: after_def)
qed

text \<open>What the call at \<open>func\<close> finds at its slot does not change while the arguments are moved above it.\<close>

definition same_below :: "int \<Rightarrow> lua_State \<Rightarrow> lua_State \<Rightarrow> bool" where
  "same_below t L L' = (\<forall>i. 0 \<le> i \<longrightarrow> i < t \<longrightarrow> stack L' ! nat i = stack L ! nat i)"

lemma same_below_refl [simp]: "same_below t L L" by (simp add: same_below_def)

lemma same_below_trans: "same_below t L L' \<Longrightarrow> same_below t L' L'' \<Longrightarrow> same_below t L L''"
  by (simp add: same_below_def)

lemma same_below_less: "same_below t L L' \<Longrightarrow> s \<le> t \<Longrightarrow> same_below s L L'"
  by (simp add: same_below_def)

lemma same_below_stack: "stack L' = stack L \<Longrightarrow> same_below t L L'"
  by (simp add: same_below_def)

lemma same_below_take:
  assumes "take (length (stack L)) (stack L') = stack L" "t \<le> stacksize L"
  shows "same_below t L L'"
  unfolding same_below_def
proof (intro allI impI)
  fix i :: int assume i: "0 \<le> i" "i < t"
  then have "nat i < length (stack L)" using assms(2) by (simp add: stacksize_def del: length_stack)
  then have "take (length (stack L)) (stack L') ! nat i = stack L' ! nat i" by simp
  then show "stack L' ! nat i = stack L ! nat i" using assms(1) by simp
qed

lemma ok_set_high:
  assumes g: "good L" and i: "l_base L \<le> i" "i < stacksize L" "t \<le> i" and v: "value_ok L v"
    and Q: "\<And>L'. after L L' \<Longrightarrow> same_below t L L' \<Longrightarrow> Q () L'"
  shows "ok (set_s i v) Q L"
proof -
  have "nat i \<noteq> nat j" if "0 \<le> j" "j < t" for j using that i(3) by simp
  then have "same_below t L (L\<lparr>stack := (stack L)[nat i := v]\<rparr>)" by (simp add: same_below_def)
  then show ?thesis
    using Q[OF good_set_above[OF g i(1,2) v]] i goodD(8)[OF g] by (simp add: ok_rules)
qed

lemma ok_copy_high:
  assumes "good L" "l_base L \<le> i" "i < stacksize L" "t \<le> i" "0 \<le> j" "j < stacksize L"
    "\<And>L'. after L L' \<Longrightarrow> same_below t L L' \<Longrightarrow> Q () L'"
  shows "ok (copy_s i j) Q L"
  unfolding copy_s_def ok_bind
  by (rule ok_get_value[OF assms(1,5,6)], rule ok_set_high[OF assms(1-4)]) (auto intro: assms(7))

lemma ok_set_at:
  assumes g: "good L" and i: "l_base L \<le> i" "i < stacksize L" and v: "value_ok L v"
    and Q: "\<And>L'. after L L' \<Longrightarrow> stack L' ! nat i = v \<Longrightarrow> Q () L'"
  shows "ok (set_s i v) Q L"
proof -
  have "nat i < length (stack L)" using i goodD(8)[OF g] by (simp add: stacksize_def del: length_stack)
  then show ?thesis
    using Q[OF good_set_above[OF g i v]] i goodD(8)[OF g] by (simp add: ok_rules)
qed

subsection \<open>The call tag method\<close>

lemma ok_shift_up:
  assumes "good L" "l_base L \<le> t - int k" "t \<le> l_top L" "\<And>L'. after L L' \<Longrightarrow> Q () L'"
  shows "ok (shift_up k t) Q L"
  using assms
proof (induction k arbitrary: t L)
  case 0
  then show ?case by (simp add: ok_simps(1) after_refl)
next
  case (Suc k)
  note d = goodD(8,10)[OF Suc.prems(1)]
  show ?case
    unfolding shift_up.simps ok_bind
  proof (rule ok_copy_above[OF Suc.prems(1)])
    fix L' assume a: "after L L'"
    show "ok (shift_up k (t - 1)) Q L'"
      by (rule Suc.IH[OF after_good[OF a]])
        (use Suc.prems after_dims[OF goodD(12)[OF Suc.prems(1)] a] after_trans[OF a] in auto)
  qed (use Suc.prems d in auto)
qed

lemma ok_tryfuncTM:
  assumes c: "calling L0 func n L" and cc: "caller_ok call"
    and Q: "\<And>a L'. calling L0 func n L' \<Longrightarrow> stack L' ! nat func = LFunction a \<Longrightarrow> Q () L'"
  shows "ok (tryfuncTM E call func) Q L"
proof -
  note d = callingD[OF c]
  have f: "0 \<le> func" "func < stacksize L" using d by auto
  have err: "ok (luaG_typeerror E call (OStack func) ''call'') Q L"
    by (rule ok_typeerror[OF d(10) cc]) (use f in \<open>simp add: oper_ok_def\<close>)
  show ?thesis
    unfolding tryfuncTM_def ok_bind
  proof (rule ok_get_value[OF d(2) f], rule ok_gettmbyobj[OF d(2)])
    fix v tm assume v: "value_ok L tm"
    have "ok (shift_up (nat (l_top L - func)) (l_top L)) (\<lambda>_. ok incr_top (\<lambda>_. ok (set_s func tm) Q)) L"
      if fn: "tm = LFunction a" for a
    proof (rule ok_shift_up[OF d(2)])
      fix L1 assume a1: "after L L1"
      note d1 = after_dims[OF d(13) a1]
      show "ok incr_top (\<lambda>_. ok (set_s func tm) Q) L1"
      proof (rule ok_incr_top[OF after_good[OF a1]])
        fix L2 assume L2: "good L2" "keeps L1 L2" "l_top L2 = l_top L1 + 1"
        have k: "keeps L L2" by (rule keeps_trans[OF after_keeps[OF a1] L2(2)])
        have b: "l_base L2 = l_base L" "stacksize L \<le> stacksize L2" using k by (simp_all add: keeps_def)
        show "ok (set_s func tm) Q L2"
        proof (rule ok_set_at[OF L2(1)])
          fix L3 assume a3: "after L2 L3" "stack L3 ! nat func = tm"
          show "Q () L3"
            by (rule Q[OF calling_keeps[OF c after_good[OF a3(1)] keeps_trans[OF k after_keeps[OF a3(1)]]]])
              (use after_top[OF a3(1)] L2(3) d1 d a3(2) fn in auto)
        qed (use b f d keeps_value[OF k v] in auto)
      qed
    qed (use d in auto)
    then show "ok (case tm of LFunction _ \<Rightarrow> bindX (get l_top) (\<lambda>t. thenX (shift_up (nat (t - func)) t) (thenX incr_top (set_s func tm)))
        | _ \<Rightarrow> luaG_typeerror E call (OStack func) ''call'') Q L"
      using err by (cases tm) (simp_all add: ok_bind ok_simps(2))
  qed auto
qed

subsection \<open>Missing and extra arguments\<close>

lemma ok_push_nils:
  assumes "good L" "l_top L + int k \<le> stack_last L + 2" "t \<le> l_top L"
    "\<And>L'. good L' \<Longrightarrow> keeps L L' \<Longrightarrow> l_top L' = l_top L + int k \<Longrightarrow> same_below t L L' \<Longrightarrow> Q () L'"
  shows "ok (push_nils k) Q L"
  using assms
proof (induction k arbitrary: L)
  case (Suc k)
  note g = Suc.prems(1)
  note d = goodD(5,8,10)[OF g]
  have "ok (set_s (l_top L) LNil) (\<lambda>_. ok (set_top (l_top L + 1)) (\<lambda>_. ok (push_nils k) Q)) L"
  proof (rule ok_set_high[OF g])
    fix L1 assume a: "after L L1" "same_below t L L1"
    note d1 = after_dims[OF goodD(12)[OF g] a(1)]
    show "ok (set_top (l_top L + 1)) (\<lambda>_. ok (push_nils k) Q) L1"
    proof (rule ok_set_top[OF after_good[OF a(1)]])
      fix L2 assume L2: "good L2" "keeps L1 L2" "l_top L2 = l_top L + 1" "L2 = L1\<lparr>l_top := l_top L + 1\<rparr>"
      note k = keeps_trans[OF after_keeps[OF a(1)] L2(2)]
      have s: "same_below t L L2" using a(2) L2(4) by (simp add: same_below_def)
      show "ok (push_nils k) Q L2"
        by (rule Suc.IH[OF L2(1)])
          (use k s L2(3,4) d1 Suc.prems keeps_trans[OF k] same_below_trans[OF s] in \<open>auto simp: stack_last_def\<close>)
    qed (use d1 Suc.prems d in \<open>auto simp: stack_last_def\<close>)
  qed (use d Suc.prems(3) in auto)
  then show ?case by (simp add: ok_bind ok_simps(2))
qed (simp add: ok_simps(1))

lemma ok_move_fixed:
  assumes "good L" "l_top L + int k \<le> stack_last L + 2" "t \<le> x" "l_base L \<le> x" "x + int k \<le> l_top L"
    "\<And>L'. good L' \<Longrightarrow> keeps L L' \<Longrightarrow> l_top L' = l_top L + int k \<Longrightarrow> same_below t L L' \<Longrightarrow> Q () L'"
  shows "ok (move_fixed k x) Q L"
  using assms
proof (induction k arbitrary: x L)
  case (Suc k)
  note g = Suc.prems(1)
  note d = goodD(5,8,10)[OF g]
  have "ok (copy_s (l_top L) x) (\<lambda>_. ok (set_top (l_top L + 1)) (\<lambda>_. ok (set_s x LNil) (\<lambda>_. ok (move_fixed k (x + 1)) Q))) L"
  proof (rule ok_copy_high[OF g, where t = t])
    fix L1 assume a: "after L L1" "same_below t L L1"
    note d1 = after_dims[OF goodD(12)[OF g] a(1)]
    show "ok (set_top (l_top L + 1)) (\<lambda>_. ok (set_s x LNil) (\<lambda>_. ok (move_fixed k (x + 1)) Q)) L1"
    proof (rule ok_set_top[OF after_good[OF a(1)]])
      fix L2 assume L2: "good L2" "keeps L1 L2" "l_top L2 = l_top L + 1" "L2 = L1\<lparr>l_top := l_top L + 1\<rparr>"
      note k = keeps_trans[OF after_keeps[OF a(1)] L2(2)]
      have s: "same_below t L L2" using a(2) L2(4) by (simp add: same_below_def)
      show "ok (set_s x LNil) (\<lambda>_. ok (move_fixed k (x + 1)) Q) L2"
      proof (rule ok_set_high[OF L2(1), where t = t])
        fix L3 assume a3: "after L2 L3" "same_below t L2 L3"
        note k3 = keeps_trans[OF k after_keeps[OF a3(1)]]
        note s3 = same_below_trans[OF s a3(2)]
        have b: "l_base L3 = l_base L" "stacksize L \<le> stacksize L3" "l_top L3 = l_top L + 1"
          using k3 after_top[OF a3(1)] L2(3) by (simp_all add: keeps_def)
        show "ok (move_fixed k (x + 1)) Q L3"
          by (rule Suc.IH[OF after_good[OF a3(1)]])
            (use b Suc.prems(2-5) keeps_trans[OF k3] same_below_trans[OF s3] in \<open>auto simp: stack_last_def intro!: Suc.prems(6)\<close>)
      qed (use L2(4) d1 Suc.prems d in auto)
    qed (use d1 Suc.prems d in \<open>auto simp: stack_last_def\<close>)
  qed (use d Suc.prems in auto)
  then show ?case by (simp add: ok_bind ok_simps(2))
qed (simp add: ok_simps(1))

lemma luaH_setstr_cases:
  assumes t: "table_wf I t" and s: "s \<in> I"
  shows "(\<exists>x t'. luaH_setstr t s = Inr (x, t') \<and> bound_to I t t' (LString s) x) \<or> luaH_setstr t s = Inl table_overflow"
proof -
  obtain r where r: "luaH_getstr t s = Inr r" "finds t (LString s) r"
    using luaH_getstr_finds[OF wf_core[OF t] s] by blast
  have k: "key_ok I (LString s)" using s by (simp add: key_ok_def)
  have d: "newkey_depth = Suc (Suc 0)" by (simp add: newkey_depth_def)
  show ?thesis
  proof (cases "r = SNilObject")
    case True
    then show ?thesis using r newkey_spec[OF t k, of 0] by (simp add: luaH_setstr_def luaH_setstr_by_def d)
  qed (use r t in \<open>simp add: luaH_setstr_def luaH_setstr_by_def bound_to_def\<close>)
qed

lemma bound_table_same:
  assumes "good L" "table_ok L t" "bound_to (strs L) t t' k s" "key_ok (strs L) k" "value_ok L v"
  shows "table_ok L (set_slot t' s v)"
  using bound_table_ok[OF assms(2-4) _ strs_inj[OF goodD(1)[OF assms(1)]] assms(5), of "flags t'"] by simp

lemma ok_arg_fields:
  assumes "ready L" "caller_ok call" "table_ok L t" "0 \<le> i" "i + int k < 2 ^ 31" "0 \<le> x + i" "x + i + int k \<le> stacksize L"
    "\<And>t'. table_ok L t' \<Longrightarrow> Q t' L"
  shows "ok (arg_fields E call k i x t) Q L"
  using assms
proof (induction k arbitrary: i t)
  case (Suc k)
  note g = readyD(1)[OF Suc.prems(1)]
  have i: "- (2 ^ 31) \<le> i + 1" "i + 1 < 2 ^ 31" using Suc.prems(4,5) by auto
  have key: "key_ok (strs L) (LNumber (cast_num (i + 1)))" using i by (intro key_num_ok) auto
  have cs: "(\<exists>s t'. luaH_setnum t (i + 1) = Inr (s, t') \<and> bound_to (strs L) t t' (LNumber (cast_num (i + 1))) s)
     \<or> luaH_setnum t (i + 1) = Inl table_overflow"
    by (rule luaH_setnum_cases[OF _ i]) (use Suc.prems(3) in \<open>simp add: table_ok_def\<close>)
  show ?case
    unfolding arg_fields.simps ok_bind
  proof (rule ok_lift_res[OF Suc.prems(1,2)])
    fix y assume y: "luaH_setnum t (i + 1) = Inr y"
    then obtain s t' where st: "y = (s, t')" "bound_to (strs L) t t' (LNumber (cast_num (i + 1))) s"
      using cs by (auto simp: table_overflow_def)
    have "ok (get_s (x + i)) (\<lambda>v. ok (arg_fields E call k (i + 1) x (set_slot t' s v)) Q) L"
    proof (rule ok_get_value[OF g])
      fix v assume v: "value_ok L v"
      show "ok (arg_fields E call k (i + 1) x (set_slot t' s v)) Q L"
        by (rule Suc.IH[OF Suc.prems(1,2) bound_table_same[OF g Suc.prems(3) st(2) key v]]) (use Suc.prems in auto)
    qed (use Suc.prems in auto)
    then show "ok (case y of (s, t') \<Rightarrow> bindX (get_s (x + i)) (\<lambda>v. arg_fields E call k (i + 1) x (set_slot t' s v))) Q L"
      by (simp add: st(1) ok_bind)
  qed (use cs in \<open>auto simp: table_overflow_def\<close>)
qed (simp add: ok_simps(1))

lemma ok_arg_table:
  assumes r: "ready L" and c: "caller_ok call" and n: "0 \<le> nvar" "nvar \<le> l_top L"
    and Q: "\<And>h L'. after L L' \<Longrightarrow> stack L' = stack L \<Longrightarrow> value_ok L' (LTable h) \<Longrightarrow> Q h L'"
  shows "ok (arg_table E call nvar) Q L"
proof -
  note g = readyD(1)[OF r]
  have sz: "l_top L + 3 < stacksize L" "stacksize L \<le> 2 ^ 26" by (rule goodD(10)[OF g], rule stack_okD(6)[OF goodD(2)[OF g]])
  have "ok (new_table E call (nat nvar) 1) (\<lambda>(h, t). ok (get l_top) (\<lambda>tp.
     ok (arg_fields E call (nat nvar) 0 (tp - nvar) t) (\<lambda>t'. ok (newlstr_x ''n'') (\<lambda>n.
       ok (lift_res E call (luaH_setstr t' n)) (\<lambda>(s, t'').
         ok (put_table h (set_slot t'' s (LNumber (cast_num nvar)))) (\<lambda>_. Q h)))))) L"
  proof (rule ok_new_table[OF g], simp, simp only: prod.case ok_simps(2))
    fix h t L1
    assume L1: "after L L1" "table_ok L1 t" "h \<notin> set (allocs (l_G L1))" "stack L1 = stack L"
    note g1 = after_good[OF L1(1)] and r1 = ready_after[OF r L1(1)]
    show "ok (arg_fields E call (nat nvar) 0 (l_top L1 - nvar) t) (\<lambda>t'. ok (newlstr_x ''n'') (\<lambda>n.
       ok (lift_res E call (luaH_setstr t' n)) (\<lambda>(s, t'').
         ok (put_table h (set_slot t'' s (LNumber (cast_num nvar)))) (\<lambda>_. Q h)))) L1"
    proof (rule ok_arg_fields[OF r1 c L1(2)])
      fix t' assume t': "table_ok L1 t'"
      show "ok (newlstr_x ''n'') (\<lambda>n. ok (lift_res E call (luaH_setstr t' n)) (\<lambda>(s, t'').
           ok (put_table h (set_slot t'' s (LNumber (cast_num nvar)))) (\<lambda>_. Q h))) L1"
      proof (rule ok_newlstr[OF g1])
        fix ts L2
        assume L2: "after L1 L2" "ts \<in> strs L2" "stack L2 = stack L1" "set (allocs (l_G L2)) \<subseteq> set (allocs (l_G L1))"
        note g2 = after_good[OF L2(1)]
        have t2: "table_ok L2 t'"
          by (rule table_ok_mono[OF t' _ strs_inj[OF goodD(1)[OF g2]]]) (use after_keeps[OF L2(1)] in \<open>simp add: keeps_def\<close>)
        then have cs: "(\<exists>x t''. luaH_setstr t' ts = Inr (x, t'') \<and> bound_to (strs L2) t' t'' (LString ts) x)
            \<or> luaH_setstr t' ts = Inl table_overflow"
          by (intro luaH_setstr_cases L2(2)) (simp add: table_ok_def)
        show "ok (lift_res E call (luaH_setstr t' ts)) (\<lambda>(s, t'').
           ok (put_table h (set_slot t'' s (LNumber (cast_num nvar)))) (\<lambda>_. Q h)) L2"
        proof (rule ok_lift_res[OF ready_after[OF r1 L2(1)] c])
          fix y assume y: "luaH_setstr t' ts = Inr y"
          then obtain s t'' where st: "y = (s, t'')" "bound_to (strs L2) t' t'' (LString ts) s"
            using cs by (auto simp: table_overflow_def)
          have tok: "table_ok L2 (set_slot t'' s (LNumber (cast_num nvar)))"
            by (rule bound_table_same[OF g2 t2 st(2)]) (simp_all add: key_ok_def L2(2))
          have "ok (put_table h (set_slot t'' s (LNumber (cast_num nvar)))) (\<lambda>_. Q h) L2"
          proof (rule ok_put_new_table[OF g2 tok])
            show "h \<notin> set (allocs (l_G L2))" using L1(3) L2(4) by blast
            fix L3 assume L3: "after L2 L3" "value_ok L3 (LTable h)" "stack L3 = stack L2"
            show "Q h L3"
              by (rule Q[OF after_trans[OF L1(1) after_trans[OF L2(1) L3(1)]] _ L3(2)]) (simp add: L3(3) L2(3) L1(4))
          qed
          then show "(case y of (s, t'') \<Rightarrow> ok (put_table h (set_slot t'' s (LNumber (cast_num nvar)))) (\<lambda>_. Q h)) L2"
            by (simp add: st(1))
        qed (use cs in \<open>auto simp: table_overflow_def\<close>)
      qed
    qed (use n sz after_top[OF L1(1)] after_dims(2)[OF goodD(12)[OF g] L1(1)] in auto)
  qed
  then show ?thesis by (simp add: arg_table_def ok_bind ok_simps(1) case_prod_unfold)
qed

lemma code_args:
  assumes "code_ok I p"
  shows "uint (p_numparams p) \<le> maxreg p" "p_is_vararg p AND VARARG_NEEDSARG \<noteq> 0 \<Longrightarrow> uint (p_numparams p) + 1 \<le> maxreg p"
    "p_is_vararg p \<noteq> 0 \<Longrightarrow> uint (p_numparams p) \<le> 3"
proof -
  have p: "precheck p" by (rule precheck_True[OF code_okD(1)[OF assms]])
  have "0 \<le> uint (p_is_vararg p AND VARARG_HASARG)" by simp
  moreover have "1 \<le> uint (p_is_vararg p AND VARARG_HASARG)" if "p_is_vararg p AND VARARG_NEEDSARG \<noteq> 0"
  proof -
    have "p_is_vararg p AND VARARG_HASARG \<noteq> 0" using p that by (auto simp: precheck_def)
    then show ?thesis using uint_0_iff[of "p_is_vararg p AND VARARG_HASARG"] calculation by linarith
  qed
  ultimately show "uint (p_numparams p) \<le> maxreg p"
    "p_is_vararg p AND VARARG_NEEDSARG \<noteq> 0 \<Longrightarrow> uint (p_numparams p) + 1 \<le> maxreg p"
    using p unfolding precheck_def by linarith+
  show "p_is_vararg p \<noteq> 0 \<Longrightarrow> uint (p_numparams p) \<le> 3" using code_okD(2)[OF assms] by (auto simp: tight_def)
qed

lemma enteringD: "entering L0 func n L \<Longrightarrow> calling L0 func n L"
  "entering L0 func n L \<Longrightarrow> ci_savedpc (hd (l_ci L)) = savedpc L0"
  by (simp_all add: entering_def)

lemma ok_adjust_varargs:
  assumes e: "entering L0 func n L" and c: "caller_ok call" and p: "code_ok I p" "p_is_vararg p \<noteq> 0"
    and room: "l_top L + maxreg p < stack_last L"
    and Q: "\<And>base L'. entering L0 func n L' \<Longrightarrow> keeps L L' \<Longrightarrow> same_below (func + 1) L L' \<Longrightarrow> func + 1 + uint (p_numparams p) \<le> base \<Longrightarrow>
        base \<le> l_top L' \<Longrightarrow> base + maxreg p \<le> stack_last L' + 2 \<Longrightarrow> l_top L' \<le> base + maxreg p \<Longrightarrow> Q base L'"
  shows "ok (adjust_varargs E call p (l_top L - func - 1)) Q L"
proof -
  define nf where "nf = uint (p_numparams p)"
  define ac where "ac = max (l_top L - func - 1) nf"
  define needs where "needs = (p_is_vararg p AND VARARG_NEEDSARG \<noteq> 0)"
  note a = code_args[OF p(1), folded nf_def]
  have nf: "0 \<le> nf" "nf \<le> 3" "nf \<le> maxreg p" "needs \<Longrightarrow> nf + 1 \<le> maxreg p"
    using a p(2) by (simp_all add: nf_def needs_def)
  note d = callingD[OF enteringD(1)[OF e]]
  have last: "l_base L' \<le> x \<Longrightarrow> stack_last L \<le> stack_last L' \<Longrightarrow> x \<le> stack_last L + 2 \<Longrightarrow> x \<le> stack_last L' + 2" for L' x by simp
  have "ok (push_nils (nat (nf - (l_top L - func - 1)))) (\<lambda>_. ok (if needs then bindX (arg_table E call (ac - nf)) (\<lambda>h. ret (Some h)) else ret None)
    (\<lambda>htab. ok (get l_top) (\<lambda>base. ok (move_fixed (nat nf) (base - ac)) (\<lambda>_. ok (case htab of
               None \<Rightarrow> ret base
             | Some h \<Rightarrow> bindX (get l_top) (\<lambda>t. thenX (set_s t (LTable h)) (thenX (set_top (t + 1)) (ret base)))) Q)))) L"
  proof (rule ok_push_nils[OF d(2)])
    fix L1 assume L1: "good L1" "keeps L L1" "l_top L1 = l_top L + int (nat (nf - (l_top L - func - 1)))" "same_below (func + 1) L L1"
    have t1: "l_top L1 = func + 1 + ac" using L1(3) by (simp add: ac_def)
    have e1: "entering L0 func n L1" by (rule entering_keeps[OF e L1(1,2)]) (use t1 nf in \<open>simp add: ac_def\<close>)
    note d1 = callingD[OF enteringD(1)[OF e1]]
    have room1: "stack_last L \<le> stack_last L1" using L1(2) by (simp add: keeps_def stack_last_def)
    have fin: "ok (get l_top) (\<lambda>base. ok (move_fixed (nat nf) (base - ac)) (\<lambda>_. ok (case htab of
               None \<Rightarrow> ret base
             | Some h \<Rightarrow> bindX (get l_top) (\<lambda>t. thenX (set_s t (LTable h)) (thenX (set_top (t + 1)) (ret base)))) Q)) L2"
      if a2: "after L1 L2" "stack L2 = stack L1" "\<And>h. htab = Some h \<Longrightarrow> needs \<and> value_ok L2 (LTable h)" for htab L2
    proof -
      note e2 = entering_after[OF e1 a2(1)] and t2 = after_top[OF a2(1)]
      have s2: "stacksize L2 = stacksize L1" by (simp add: stacksize_def a2(2) del: length_stack)
      have l2: "stack_last L2 = stack_last L1" by (simp add: stack_last_def s2)
      have "ok (move_fixed (nat nf) (l_top L2 - ac)) (\<lambda>_. ok (case htab of
               None \<Rightarrow> ret (l_top L2)
             | Some h \<Rightarrow> bindX (get l_top) (\<lambda>t. thenX (set_s t (LTable h)) (thenX (set_top (t + 1)) (ret (l_top L2))))) Q) L2"
      proof (rule ok_move_fixed[OF after_good[OF a2(1)], where t = "func + 1"])
        fix L3 assume L3: "good L3" "keeps L2 L3" "l_top L3 = l_top L2 + int (nat nf)" "same_below (func + 1) L2 L3"
        have e3: "entering L0 func n L3" by (rule entering_keeps[OF e2 L3(1,2)]) (use callingD(6)[OF enteringD(1)[OF e2]] L3(3) in simp)
        have s3: "same_below (func + 1) L L3"
          using same_below_trans[OF same_below_trans[OF L1(4) same_below_stack[OF a2(2)]] L3(4)] .
        note k3 = keeps_trans[OF keeps_trans[OF L1(2) after_keeps[OF a2(1)]] L3(2)]
        have l3: "stack_last L2 \<le> stack_last L3" using L3(2) by (simp add: keeps_def stack_last_def)
        have base: "func + 1 + nf \<le> l_top L2" "l_top L2 + maxreg p \<le> stack_last L + 2"
          using t1 t2 nf room d(6) by (auto simp: ac_def)
        have Q3: "Q (l_top L2) L'" if "entering L0 func n L'" "keeps L L'" "same_below (func + 1) L L'" "stack_last L3 \<le> stack_last L'"
           "l_top L2 \<le> l_top L'" "l_top L' \<le> l_top L2 + maxreg p" for L'
          using Q[OF that(1-3)] base that(4-6) l3 l2 room1 by (simp add: nf_def)
        show "ok (case htab of
               None \<Rightarrow> ret (l_top L2)
             | Some h \<Rightarrow> bindX (get l_top) (\<lambda>t. thenX (set_s t (LTable h)) (thenX (set_top (t + 1)) (ret (l_top L2))))) Q L3"
        proof (cases htab)
          case None
          then show ?thesis using Q3[OF e3 k3 s3] L3(3) nf by (simp add: ok_simps(1))
        next
          case (Some h)
          note d3 = callingD[OF enteringD(1)[OF e3]]
          have "ok (set_s (l_top L3) (LTable h)) (\<lambda>_. ok (set_top (l_top L3 + 1)) (\<lambda>_. Q (l_top L2))) L3"
          proof (rule ok_set_high[OF L3(1), where t = "func + 1"])
            show "value_ok L3 (LTable h)" using keeps_value[OF L3(2)] a2(3)[OF Some] by blast
            fix L4 assume a4: "after L3 L4" "same_below (func + 1) L3 L4"
            note e4 = entering_after[OF e3 a4(1)]
            show "ok (set_top (l_top L3 + 1)) (\<lambda>_. Q (l_top L2)) L4"
            proof (rule ok_set_top[OF after_good[OF a4(1)]])
              have l4: "stack_last L3 \<le> stack_last L4" using after_keeps[OF a4(1)] by (simp add: keeps_def stack_last_def)
              show "l_base L4 \<le> l_top L3 + 1" using after_dims[OF d3(13) a4(1)] d3 by simp
              show "l_top L3 + 1 \<le> stack_last L4 + 2" using l4 l3 l2 room1 base L3(3) nf a2(3)[OF Some] by auto
              fix L5 assume L5: "good L5" "keeps L4 L5" "l_top L5 = l_top L3 + 1" "L5 = L4\<lparr>l_top := l_top L3 + 1\<rparr>"
              have "entering L0 func n L5" by (rule entering_keeps[OF e4 L5(1,2)]) (use L5(3) d3 in simp)
              moreover have "keeps L L5" by (rule keeps_trans[OF keeps_trans[OF k3 after_keeps[OF a4(1)]] L5(2)])
              moreover have "same_below (func + 1) L L5"
                by (rule same_below_trans[OF same_below_trans[OF s3 a4(2)] same_below_stack]) (simp add: L5(4))
              ultimately show "Q (l_top L2) L5" using L5(3,4) l4 L3(3) nf a2(3)[OF Some] by (intro Q3) auto
            qed
          qed (use d3 in auto)
          then show ?thesis by (simp add: Some ok_bind ok_simps(1,2))
        qed
      qed (use t1 t2 nf d1 l2 room1 room d(6) after_dims[OF d1(13) a2(1)] in \<open>auto simp: ac_def\<close>)
      then show ?thesis by (simp add: ok_simps(2))
    qed
    show "ok (if needs then bindX (arg_table E call (ac - nf)) (\<lambda>h. ret (Some h)) else ret None)
      (\<lambda>htab. ok (get l_top) (\<lambda>base. ok (move_fixed (nat nf) (base - ac)) (\<lambda>_. ok (case htab of
               None \<Rightarrow> ret base
             | Some h \<Rightarrow> bindX (get l_top) (\<lambda>t. thenX (set_s t (LTable h)) (thenX (set_top (t + 1)) (ret base)))) Q))) L1"
    proof (cases needs)
      case False
      then show ?thesis using fin[of L1 None] after_refl[OF L1(1)] by (simp add: ok_simps(1))
    next
      case True
      have "ok (arg_table E call (ac - nf)) (\<lambda>h. ok (get l_top) (\<lambda>base. ok (move_fixed (nat nf) (base - ac)) (\<lambda>_. ok (case Some h of
               None \<Rightarrow> ret base
             | Some h \<Rightarrow> bindX (get l_top) (\<lambda>t. thenX (set_s t (LTable h)) (thenX (set_top (t + 1)) (ret base)))) Q))) L1"
      proof (rule ok_arg_table[OF d1(10) c])
        fix h L2 assume "after L1 L2" "stack L2 = stack L1" "value_ok L2 (LTable h)"
        then show "ok (get l_top) (\<lambda>base. ok (move_fixed (nat nf) (base - ac)) (\<lambda>_. ok (case Some h of
               None \<Rightarrow> ret base
             | Some h \<Rightarrow> bindX (get l_top) (\<lambda>t. thenX (set_s t (LTable h)) (thenX (set_top (t + 1)) (ret base)))) Q)) L2"
          using True by (intro fin[where htab = "Some h"]) auto
      qed (use t1 nf d(5,6,11) in \<open>auto simp: ac_def\<close>)
      then show ?thesis by (simp add: True ok_bind ok_simps(1) del: option.case)
    qed
  qed (use room nf d(6) in auto)
  then show ?thesis by (simp only: adjust_varargs_def Let_def ok_bind flip: nf_def ac_def needs_def)
qed

end
