(* ===== verification/VMCalls.thy ===== *)
theory VMCalls
  imports VMArgs
begin

text \<open>
  \<open>luaD_precall\<close> enters a Lua function, ready to run its first instruction, or runs a C function to its end; \<open>luaD_poscall\<close>
  leaves the number of results that the caller wanted.
\<close>

subsection \<open>Entering a Lua function\<close>

lemma ok_inc_ci:
  assumes r: "ready L" and c: "caller_ok call" and Q: "\<And>L'. after L L' \<Longrightarrow> stack L' = stack L \<Longrightarrow> Q () L'"
  shows "ok (inc_ci E call) Q L"
proof -
  note g = readyD(1)[OF r]
  have a: "after L (L\<lparr>size_ci := m\<rparr>)" for m by (rule good_nCcalls(2)[OF g])
  have er: "ok (luaG_runerror E call msg :: unit exec) Q (L\<lparr>size_ci := m\<rparr>)" for msg m
    by (rule ok_runerror[OF ready_after[OF r a] c])
  have "ok (growCI E call) Q L"
    using er Q[OF a] g by (simp add: growCI_def luaD_reallocCI_def ok_rules)
  then show ?thesis using Q[OF after_refl[OF g]] by (simp add: inc_ci_def ok_rules)
qed

lemma ok_saving:
  assumes c: "calling L0 func n L" and Q: "\<And>L'. entering L0 func n L' \<Longrightarrow> after L L' \<Longrightarrow> stack L' = stack L \<Longrightarrow> Q () L'"
  shows "ok save_pc Q L"
proof (rule ok_save_pc[OF callingD(2)[OF c]])
  fix L' ci rest
  assume a: "after L L'" "stack L' = stack L" "L' = L\<lparr>l_ci := ci\<lparr>ci_savedpc := savedpc L\<rparr> # rest\<rparr>"
  have "calling L0 func n L'"
    by (rule calling_keeps[OF c after_good[OF a(1)] after_keeps[OF a(1)]]) (use after_top[OF a(1)] callingD(6)[OF c] in simp)
  moreover have "ci_savedpc (hd (l_ci L')) = savedpc L0" using a(3) callingD(3)[OF c] by (simp add: keeps_def)
  ultimately show "Q () L'" using Q a(1,2) by (simp add: entering_def)
qed

lemma good_push:
  assumes c: "calling L0 func n L" and b: "func < ci_base ci" "ci_base ci \<le> l_top L" "ci_func ci = func"
  shows "good (L\<lparr>l_ci := ci # l_ci L, l_base := ci_base ci\<rparr>)"
proof -
  note d = callingD[OF c]
  obtain prev rest where l: "l_ci L = prev # rest" using d(13) by (cases "l_ci L") auto
  have "ci_base prev = l_base L" using goodD(4)[OF d(2)] l by simp
  then have "frames_ok (ci # l_ci L)" using goodD(3)[OF d(2)] l b d(5) by simp
  moreover have "func \<notin> levels L" using d(7) by blast
  ultimately show ?thesis
    using d(2) b by (auto simp: good_def heap_ok_misc stack_ok_misc stack_last_def)
qed

text \<open>The state of a frame on top of those of \<open>L0\<close>.\<close>

lemma pushed_above:
  assumes e: "entering L0 func n L" and L1: "l_ci L1 = ci # l_ci L" "extends L L1" "stacksize L \<le> stacksize L1" "levels L1 = levels L"
    and s: "stack L1 = stack L" and ci: "ci_func ci = func"
    and L2: "l_ci L2 = ci' # l_ci L" "extends L1 L2" "stacksize L1 \<le> stacksize L2" "levels L2 \<subseteq> levels L1"
      "\<forall>f\<in>set (l_ci L1). stack L2 ! nat (ci_func f) = stack L1 ! nat (ci_func f)"
  shows "above func L0 [ci'] L2" "extends L L2" "levels L2 \<subseteq> levels L" "stack L2 ! nat func = stack L ! nat func"
proof -
  note c = enteringD[OF e] and d = callingD[OF enteringD(1)[OF e]]
  show x: "extends L L2" by (rule extends_trans[OF L1(2) L2(2)])
  have st: "stack L2 ! nat (ci_func f) = stack L ! nat (ci_func f)" if "f \<in> set (ci # l_ci L)" for f
    using L2(5) that L1(1) s by auto
  have st0: "stack L2 ! nat (ci_func f) = stack L0 ! nat (ci_func f)" if f: "f \<in> set (l_ci L0)" for f
  proof -
    have "same_frames (l_ci L0) (l_ci L)" using d(3) by (simp add: keeps_def)
    then obtain f' where "f' \<in> set (l_ci L)" "ci_func f' = ci_func f" using same_frames_func[OF _ f] by blast
    then show ?thesis using st[of f'] d(3) f by (simp add: keeps_def)
  qed
  show "above func L0 [ci'] L2"
    unfolding above_def
  proof (intro exI[of _ "l_ci L"] conjI)
    show "extends L0 L2" by (rule extends_trans[OF _ x]) (use d(3) in \<open>simp add: keeps_def\<close>)
    show "\<forall>i\<in>levels L2. i < func \<longrightarrow> i \<in> levels L0" using L2(4) d(3) L1(4) by (auto simp: keeps_def)
  qed (use L2 c d(3) L1(3) st0 in \<open>auto simp: keeps_def\<close>)
  show "levels L2 \<subseteq> levels L" using L2(4) L1(4) by simp
  show "stack L2 ! nat func = stack L ! nat func" using st[of ci] ci by simp
qed

lemma ok_enter_Lua:
  assumes e: "entering L0 func n L" and f: "stack L ! nat func = LFunction a" "closures L a = Some (LClosure env p us)"
    and b: "func < base" "base \<le> l_top L" "l_top L \<le> base + maxreg p" "base + maxreg p \<le> stack_last L + 2"
    and va: "p_is_vararg p \<noteq> 0 \<Longrightarrow> func + uint (p_numparams p) + 1 \<le> base"
    and ci: "ci = \<lparr>ci_base = base, ci_func = func, ci_top = base + maxreg p, ci_savedpc = 0, ci_nresults = n, ci_tailcalls = 0\<rparr>"
    and Q: "\<And>ci h L'. running L0 func n ci [] a p h 0 L' \<Longrightarrow> savedpc L' = 0 \<Longrightarrow> l_top L' = ci_top ci \<Longrightarrow> Q () L'"
  shows "ok (push_ci ci) (\<lambda>_. ok (modify (\<lambda>L. L\<lparr>savedpc := 0\<rparr>)) (\<lambda>_. ok (get l_top) (\<lambda>st.
     ok (set_nils (nat (base + maxreg p - st)) st) (\<lambda>_. ok (set_top (base + maxreg p)) Q)))) L"
proof -
  note c = enteringD(1)[OF e]
  note d = callingD[OF c]
  define L1 where "L1 = L\<lparr>l_ci := ci # l_ci L, l_base := base, savedpc := 0\<rparr>"
  have g1: "good L1" using good_savedpc[OF good_push[OF c, of ci], of 0] b(1,2) by (simp add: L1_def ci)
  have x1: "extends L L1" unfolding L1_def by (rule extendsI) simp_all
  have lv1: "levels L1 = levels L" by (simp add: L1_def)
  have s1: "stack L1 = stack L" "stacksize L1 = stacksize L" "l_top L1 = l_top L" "l_base L1 = base" "savedpc L1 = 0"
    "l_ci L1 = ci # l_ci L" "stack_last L1 = stack_last L"
    by (simp_all add: L1_def stack_last_def)
  have vf: "value_ok L (LFunction a)"
    using good_value[OF d(2), of func] d(5,6,11,12) f(1) by auto
  then have cok: "closure_ok L (LClosure env p us)" using f(2) by auto
  then have code: "code_ok (strs L) p" by (simp add: closure_ok_def)
  obtain h where h: "closes p h" using code_okD(2)[OF code] by (auto simp: tight_def)
  have pc0: "0 < p_sizecode p" using precheck_True[OF code_okD(1)[OF code]] by (auto simp: precheck_def p_sizecode_def)
  have h0: "0 \<le> h 0" using h pc0 by (simp add: closes_def)
  have "ok (set_nils (nat (base + maxreg p - l_top L)) (l_top L)) (\<lambda>_. ok (set_top (base + maxreg p)) Q) L1"
  proof (rule ok_set_nils[OF g1])
    fix L2 assume a2: "after L1 L2"
    have sl: "stack_last L1 \<le> stack_last L2" using after_keeps[OF a2] by (simp add: keeps_def stack_last_def)
    have "l_base L2 = base" using after_keeps[OF a2] s1 by (simp add: keeps_def)
    show "ok (set_top (base + maxreg p)) Q L2"
    proof (rule ok_set_top[OF after_good[OF a2]])
      fix L3 assume L3: "good L3" "keeps L2 L3" "l_top L3 = base + maxreg p"
      note k = keeps_trans[OF after_keeps[OF a2] L3(2)]
      have "same_frames (ci # l_ci L) (l_ci L3)" using k s1(6) by (simp add: keeps_def)
      then obtain ci' where ci0: "l_ci L3 = ci' # l_ci L" "shape ci' = shape ci" by (rule same_frames_Cons)
      have kd: "extends L1 L3" "stacksize L1 \<le> stacksize L3" "levels L3 \<subseteq> levels L1"
        "\<forall>f\<in>set (l_ci L1). stack L3 ! nat (ci_func f) = stack L1 ! nat (ci_func f)"
        using k by (simp_all add: keeps_def)
      have "ci_func ci = func" "stacksize L \<le> stacksize L1" by (simp_all add: ci s1(2))
      note ci' = ci0 pushed_above[OF e s1(6) x1 this(2) lv1 s1(1) this(1) ci0(1) kd]
      note sf = shape_fields[OF ci'(2)]
      have r: "runs L3 ci' a p"
        using runs_moves[OF _ ci'(4), of ci' a p] f cok ci'(6) sf by (auto simp: runs_def ci)
      have "in_frame L3 ci' p h 0"
      proof -
        have "stack_last L \<le> stack_last L3" using k s1 by (simp add: keeps_def stack_last_def)
        then show ?thesis using h pc0 sf b va ci'(5) d(7) by (force simp: in_frame_def ci visited_0)
      qed
      moreover have "\<forall>i\<in>levels L3. i < ci_base ci' + h 0" using ci'(5) d(7) h0 sf b(1) by (force simp: ci)
      moreover have "top_at p 0 ci' L3" using sf L3(3) by (simp add: top_at_def ci)
      moreover have "l_base L0 \<le> func" using d(3,5) by (simp add: keeps_def)
      ultimately have "running L0 func n ci' [] a p h 0 L3"
        using d(1,8,9) L3(1) ci'(3) sf r by (simp add: running_def ci)
      moreover have "savedpc L3 = 0" using k s1 by (simp add: keeps_def)
      moreover have "l_top L3 = ci_top ci'" using sf L3(3) by (simp add: ci)
      ultimately show "Q () L3" by (rule Q)
    qed (use \<open>l_base L2 = base\<close> b sl s1 in \<open>simp_all add: maxreg_def\<close>)
  qed (use s1 b d in \<open>auto simp: stack_last_def EXTRA_STACK_def\<close>)
  then show ?thesis by (simp add: push_ci_def ok_modify ok_simps(2) ci L1_def)
qed

subsection \<open>Leaving a function\<close>

lemma ok_move_results:
  assumes "good L" "l_base L \<le> res" "res \<le> first" "first + int n \<le> stacksize L"
    "\<And>i' res' k L'. after L L' \<Longrightarrow> i' = i - int k \<Longrightarrow> res' = res + int k \<Longrightarrow> k \<le> n \<Longrightarrow> i' = 0 \<or> k = n \<Longrightarrow>
       (0 \<le> i \<Longrightarrow> 0 \<le> i') \<Longrightarrow> (i < 0 \<Longrightarrow> i' < 0) \<Longrightarrow> Q (i', res') L'"
  shows "ok (move_results n i res first) Q L"
  using assms
proof (induction n arbitrary: i res first L Q)
  case 0
  then show ?case using after_refl[OF 0(1)] by (simp add: ok_simps(1))
next
  case (Suc n)
  show ?case
  proof (cases "i = 0")
    case True
    then show ?thesis using Suc.prems(5)[of L i 0 res] after_refl[OF Suc.prems(1)] by (simp add: ok_simps(1))
  next
    case False
    have "ok (copy_s res first) (\<lambda>_. ok (move_results n (i - 1) (res + 1) (first + 1)) Q) L"
    proof (rule ok_copy_above[OF Suc.prems(1)])
      fix L1 assume a: "after L L1"
      note d = after_dims[OF goodD(12)[OF Suc.prems(1)] a]
      show "ok (move_results n (i - 1) (res + 1) (first + 1)) Q L1"
      proof (rule Suc.IH[OF after_good[OF a]])
        fix i' res' k L'
        assume h: "after L1 L'" "i' = i - 1 - int k" "res' = res + 1 + int k" "k \<le> n" "i' = 0 \<or> k = n"
          "0 \<le> i - 1 \<Longrightarrow> 0 \<le> i'" "i - 1 < 0 \<Longrightarrow> i' < 0"
        show "Q (i', res') L'"
          by (rule Suc.prems(5)[of _ _ "Suc k", OF after_trans[OF a h(1)]]) (use h False in auto)
      qed (use d Suc.prems in auto)
    qed (use Suc.prems goodD(8)[OF Suc.prems(1)] in auto)
    then show ?thesis using False by (simp add: ok_bind)
  qed
qed

lemma good_pop:
  assumes g: "good L" and l: "l_ci L = ci # prev # rest"
  shows "good (L\<lparr>l_ci := prev # rest, l_base := ci_base prev, savedpc := s\<rparr>)" "ci_base prev \<le> ci_func ci" "ci_func ci < ci_base ci"
proof -
  show f: "ci_base prev \<le> ci_func ci" "ci_func ci < ci_base ci" using goodD(3)[OF g] l by simp_all
  then have "ci_base prev \<le> l_top L" using goodD(4,5)[OF g] l by simp
  then show "good (L\<lparr>l_ci := prev # rest, l_base := ci_base prev, savedpc := s\<rparr>)"
    using g l by (simp add: good_def heap_ok_misc stack_ok_misc stack_last_def)
qed

lemma ok_poscall:
  assumes g: "good L" and l: "l_ci L = ci # prev # rest" and fr: "ci_func ci \<le> first"
    and n: "- 1 \<le> ci_nresults ci" "ci_func ci + ci_nresults ci \<le> stack_last L + 2"
    and Q: "\<And>L'. good L' \<Longrightarrow> keeps (L\<lparr>l_ci := prev # rest, l_base := ci_base prev, savedpc := ci_savedpc prev\<rparr>) L' \<Longrightarrow>
      ci_func ci \<le> l_top L' \<Longrightarrow> (0 \<le> ci_nresults ci \<Longrightarrow> l_top L' = ci_func ci + ci_nresults ci) \<Longrightarrow>
      Q (ci_nresults ci + 1) L'"
  shows "ok (luaD_poscall first) Q L"
proof -
  define L1 where "L1 = L\<lparr>l_ci := prev # rest, l_base := ci_base prev, savedpc := ci_savedpc prev\<rparr>"
  note p = good_pop[OF g l]
  have g1: "good L1" unfolding L1_def by (rule p)
  have d1: "l_base L1 = ci_base prev" "l_top L1 = l_top L" "stacksize L1 = stacksize L" "stack_last L1 = stack_last L"
    by (simp_all add: L1_def stack_last_def)
  note b = goodD(4-6,8,10)[OF g]
  let ?k = "nat (l_top L - first)"
  have "ok (move_results ?k (ci_nresults ci) (ci_func ci) first)
     (\<lambda>(i, res). ok (set_nils (nat i) res) (\<lambda>_. ok (set_top (res + max 0 i)) (\<lambda>_. Q (ci_nresults ci + 1)))) L1"
  proof (cases "first \<le> l_top L")
    case True
    show ?thesis
    proof (rule ok_move_results[OF g1], goal_cases)
      case (4 i res k L2)
      have d2: "l_base L2 = ci_base prev" "stack_last L1 \<le> stack_last L2" "stacksize L1 \<le> stacksize L2"
        using after_keeps[OF 4(1)] d1 by (simp_all add: keeps_def stack_last_def)
      have top: "res + max 0 i \<le> stack_last L + 2" "ci_func ci \<le> res + max 0 i" "0 \<le> ci_nresults ci \<Longrightarrow> res + max 0 i = ci_func ci + ci_nresults ci"
        using 4 True fr n(2) b(3) by (auto simp: max_def)
      have "ok (set_nils (nat i) res) (\<lambda>_. ok (set_top (res + max 0 i)) (\<lambda>_. Q (ci_nresults ci + 1))) L2"
      proof (rule ok_set_nils[OF after_good[OF 4(1)]])
        show "l_base L2 \<le> res" using d2 4(3) p(2) by simp
        have "res + int (nat i) \<le> stack_last L + 2" using top(1) by (simp add: max_def split: if_splits)
        then show "res + int (nat i) \<le> stacksize L2" using d2 d1 by (simp add: stack_last_def EXTRA_STACK_def)
        fix L3 assume a3: "after L2 L3"
        have d3: "l_base L3 = ci_base prev" "stack_last L2 \<le> stack_last L3"
          using after_keeps[OF a3] d2 by (simp_all add: keeps_def stack_last_def)
        show "ok (set_top (res + max 0 i)) (\<lambda>_. Q (ci_nresults ci + 1)) L3"
        proof (rule ok_set_top[OF after_good[OF a3]])
          fix L4 assume L4: "good L4" "keeps L3 L4" "l_top L4 = res + max 0 i"
          show "Q (ci_nresults ci + 1) L4"
            by (rule Q[OF L4(1)])
              (use keeps_trans[OF keeps_trans[OF after_keeps[OF 4(1)] after_keeps[OF a3]] L4(2)] L4(3) top in \<open>auto simp: L1_def\<close>)
        qed (use d1 d2 d3 top p(2) in auto)
      qed
      then show ?case by simp
    qed (use d1 p(2) fr b True in auto)
  next
    case False
    then have "?k = 0" by simp
    moreover have d: "ci_base prev \<le> ci_func ci" "ci_func ci + max 0 (ci_nresults ci) \<le> stack_last L + 2"
      using p n b l by (auto simp: max_def)
    have "ok (set_nils (nat (ci_nresults ci)) (ci_func ci)) (\<lambda>_. ok (set_top (ci_func ci + max 0 (ci_nresults ci))) (\<lambda>_. Q (ci_nresults ci + 1))) L1"
    proof (rule ok_set_nils[OF g1])
      show "ci_func ci + int (nat (ci_nresults ci)) \<le> stacksize L1"
        using d(2) d1 by (auto simp: stack_last_def EXTRA_STACK_def max_def split: if_splits)
      fix L3 assume a3: "after L1 L3"
      have d3: "l_base L3 = ci_base prev" "stack_last L1 \<le> stack_last L3"
        using after_keeps[OF a3] d1 by (simp_all add: keeps_def stack_last_def)
      show "ok (set_top (ci_func ci + max 0 (ci_nresults ci))) (\<lambda>_. Q (ci_nresults ci + 1)) L3"
      proof (rule ok_set_top[OF after_good[OF a3]])
        fix L4 assume L4: "good L4" "keeps L3 L4" "l_top L4 = ci_func ci + max 0 (ci_nresults ci)"
        show "Q (ci_nresults ci + 1) L4"
          by (rule Q[OF L4(1)]) (use keeps_trans[OF after_keeps[OF a3] L4(2)] L4(3) in \<open>auto simp: L1_def\<close>)
      qed (use d d1 d3 in auto)
    qed (use d1 d in simp)
    ultimately show ?thesis by (simp add: ok_simps(1))
  qed
  then show ?thesis
    unfolding luaD_poscall_def ok_bind ok_simps(2)
    by (simp add: l ok_bind ok_modify ok_simps(1,2) case_prod_unfold LUA_MULTRET_def d1(2) flip: L1_def)
qed

text \<open>The caller's state again, when the lowest frame is left.\<close>

lemma pop_returned:
  assumes a: "above func L0 [ci] L" and l: "l_ci L = ci # prev # rest" and lv: "\<And>i. i \<in> levels L \<Longrightarrow> i < func"
    and g: "good L0" "good L'" and k: "keeps (L\<lparr>l_ci := prev # rest, l_base := ci_base prev, savedpc := ci_savedpc prev\<rparr>) L'"
    and t: "func \<le> l_top L'" "0 \<le> n \<Longrightarrow> l_top L' = func + n"
  shows "returned L0 func n L'"
proof -
  have rest: "same_frames (l_ci L0) (prev # rest)" "ci_savedpc prev = savedpc L0" "extends L0 L" "stacksize L0 \<le> stacksize L"
    "\<And>i. i \<in> levels L \<Longrightarrow> i < func \<Longrightarrow> i \<in> levels L0"
    "\<And>c. c \<in> set (l_ci L0) \<Longrightarrow> stack L ! nat (ci_func c) = stack L0 ! nat (ci_func c)"
    using a l by (auto simp: above_def)
  let ?P = "L\<lparr>l_ci := prev # rest, l_base := ci_base prev, savedpc := ci_savedpc prev\<rparr>"
  have "ci_base prev = ci_base (hd (l_ci L0))"
    using same_frames_fields(3)[OF rest(1)] goodD(12)[OF g(1)] by (cases "l_ci L0") auto
  then have b: "ci_base prev = l_base L0" using goodD(4)[OF g(1)] by simp
  have x: "extends L ?P" by (rule extendsI) simp_all
  have "keeps L0 ?P"
    unfolding keeps_def
    using rest lv b extends_trans[OF rest(3) x] by auto
  then have "keeps L0 L'" using k by (rule keeps_trans)
  then show ?thesis using g t by (simp add: returned_def)
qed

subsection \<open>C functions\<close>

text \<open>
  What the C API promises of a C function that runs on a stack with room for \<open>LUA_MINSTACK\<close> values: the frames of its callers
  and the functions in them are as before, and so is its own frame but for \<open>ci_top\<close>, which \<open>lua_checkstack\<close> raises; it may
  change the environments of functions (\<open>lua_setfenv\<close>, \<open>LUA_ENVIRONINDEX\<close>) and the values of upvalues, but not the code of a
  function; it returns with its results on top of its own part of the stack. It does not yield: \<open>luaD_call\<close> has raised
  \<open>nCcalls\<close> above \<open>baseCcalls\<close>, and \<open>lua_yield\<close> then raises an error.
\<close>

definition host_keeps :: "lua_State \<Rightarrow> lua_State \<Rightarrow> bool" where
  "host_keeps L L' =
     (extends L L' \<and> stacksize L \<le> stacksize L' \<and> levels L' \<subseteq> levels L
      \<and> (\<exists>ci ci' frs. l_ci L = ci # frs \<and> l_ci L' = ci' # frs \<and> ci_base ci' = ci_base ci \<and> ci_func ci' = ci_func ci
           \<and> ci_nresults ci' = ci_nresults ci)
      \<and> (\<forall>ci\<in>set (l_ci L). stack L' ! nat (ci_func ci) = stack L ! nat (ci_func ci)))"

definition host_ok :: "vm_env \<Rightarrow> bool" where
  "host_ok E = (\<forall>call f L. caller_ok call \<longrightarrow> good L \<longrightarrow> pc_ok L \<longrightarrow>
     (\<exists>a e vs. running_func L = LFunction a \<and> closures L a = Some (CClosure e f vs)) \<longrightarrow>
     (\<forall>i\<in>levels L. i < l_base L) \<longrightarrow> l_top L + int LUA_MINSTACK \<le> stack_last L \<longrightarrow>
     ok (c_function E call f) (\<lambda>r L'. good L' \<and> host_keeps L L' \<and> 0 \<le> r \<and> l_base L' \<le> l_top L' - r) L)"

lemma ok_precall_C:
  assumes h: "host_ok E" and cc: "caller_ok call" and e: "entering L0 func n L"
    and f: "stack L ! nat func = LFunction a" "closures L a = Some (CClosure env fn vs)"
    and Q: "\<And>L'. returned L0 func n L' \<Longrightarrow> Q PCRC L'"
  shows "ok (precall_C E call func n fn) Q L"
proof -
  note d = callingD[OF enteringD(1)[OF e]]
  have "ok (luaD_checkstack (int LUA_MINSTACK)) (\<lambda>_. ok (inc_ci E call) (\<lambda>_. ok (get l_top) (\<lambda>t. ok
       (push_ci \<lparr>ci_base = func + 1, ci_func = func, ci_top = t + int LUA_MINSTACK, ci_savedpc = 0,
                 ci_nresults = n, ci_tailcalls = 0\<rparr>)
       (\<lambda>_. ok (c_function E call fn) (\<lambda>r. ok (if r < 0 then ret PCRYIELD
          else bindX (get l_top) (\<lambda>t'. thenX (luaD_poscall (t' - r)) (ret PCRC))) Q))))) L"
  proof (rule ok_checkstack[OF d(2)])
    fix L1 assume L1: "after L L1" "l_top L1 + int LUA_MINSTACK < stack_last L1" "take (length (stack L)) (stack L1) = stack L"
    note e1 = entering_after[OF e L1(1)]
    note d1 = callingD[OF enteringD(1)[OF e1]]
    show "ok (inc_ci E call) (\<lambda>_. ok (get l_top) (\<lambda>t. ok
       (push_ci \<lparr>ci_base = func + 1, ci_func = func, ci_top = t + int LUA_MINSTACK, ci_savedpc = 0,
                 ci_nresults = n, ci_tailcalls = 0\<rparr>)
       (\<lambda>_. ok (c_function E call fn) (\<lambda>r. ok (if r < 0 then ret PCRYIELD
          else bindX (get l_top) (\<lambda>t'. thenX (luaD_poscall (t' - r)) (ret PCRC))) Q)))) L1"
    proof (rule ok_inc_ci[OF d1(10) cc])
      fix L2 assume L2: "after L1 L2" "stack L2 = stack L1"
      note e2 = entering_after[OF e1 L2(1)]
      note d2 = callingD[OF enteringD(1)[OF e2]]
      define ci where "ci = \<lparr>ci_base = func + 1, ci_func = func, ci_top = l_top L2 + int LUA_MINSTACK, ci_savedpc = 0,
                 ci_nresults = n, ci_tailcalls = 0\<rparr>"
      have ci: "ci_base ci = func + 1" "ci_func ci = func" "ci_nresults ci = n" by (simp_all add: ci_def)
      define L3 where "L3 = L2\<lparr>l_ci := ci # l_ci L2, l_base := ci_base ci\<rparr>"
      have g3: "good L3" unfolding L3_def by (rule good_push[OF enteringD(1)[OF e2]]) (use d2(6) in \<open>simp_all add: ci\<close>)
      have s3: "stack L3 = stack L2" "l_top L3 = l_top L2" "l_base L3 = func + 1" "l_ci L3 = ci # l_ci L2" "levels L3 = levels L2"
        "stacksize L3 = stacksize L2" "stack_last L3 = stack_last L2" "closures L3 = closures L2"
        by (simp_all add: L3_def ci stack_last_def)
      have x3: "extends L2 L3" unfolding L3_def by (rule extendsI) simp_all
      have st: "stack L2 ! nat func = LFunction a"
        using same_below_take[OF L1(3), of "func + 1"] d(5,6,11,12) L2(2) f(1) by (simp add: same_below_def)
      have "extends L L2" using after_keeps[OF after_trans[OF L1(1) L2(1)]] by (simp add: keeps_def)
      then obtain env' vs' where cl: "closures L2 a = Some (CClosure env' fn vs')" by (rule extends_C[OF _ f(2)])
      have rf: "running_func L3 = LFunction a" by (simp add: running_func_def s3 ci st)
      have "pc_ok L3" using rf cl by (simp add: pc_ok_def s3)
      moreover have "\<forall>i\<in>levels L3. i < l_base L3" using d2(7) s3 by force
      moreover have "l_top L3 + int LUA_MINSTACK \<le> stack_last L3"
        using L1(2) s3 after_top[OF L2(1)] after_keeps[OF L2(1)] by (simp add: keeps_def stack_last_def)
      ultimately have "ok (c_function E call fn) (\<lambda>r L'. good L' \<and> host_keeps L3 L' \<and> 0 \<le> r \<and> l_base L' \<le> l_top L' - r) L3"
        using h cc g3 rf cl s3(8) unfolding host_ok_def by auto
      then have "ok (c_function E call fn) (\<lambda>r. ok (if r < 0 then ret PCRYIELD
          else bindX (get l_top) (\<lambda>t'. thenX (luaD_poscall (t' - r)) (ret PCRC))) Q) L3"
      proof (rule ok_mono)
        fix r L4 assume L4: "good L4 \<and> host_keeps L3 L4 \<and> 0 \<le> r \<and> l_base L4 \<le> l_top L4 - r"
        have k4: "host_keeps L3 L4" using L4 by simp
        obtain ci' where ci0: "l_ci L4 = ci' # l_ci L2"
          and sf: "ci_base ci' = ci_base ci" "ci_func ci' = ci_func ci" "ci_nresults ci' = ci_nresults ci"
          using k4 s3(4) by (auto simp: host_keeps_def)
        have kd: "extends L3 L4" "stacksize L3 \<le> stacksize L4" "levels L4 \<subseteq> levels L3"
          "\<forall>f\<in>set (l_ci L3). stack L4 ! nat (ci_func f) = stack L3 ! nat (ci_func f)"
          using k4 by (simp_all add: host_keeps_def)
        have "stacksize L2 \<le> stacksize L3" by (simp add: s3)
        note ab = pushed_above[OF e2 s3(4) x3 this s3(5,1) ci(2) ci0 kd]
        have b4: "l_base L4 = func + 1" using goodD(4)[of L4] L4 ci0 sf(1) ci(1) by simp
        obtain prev rest where l: "l_ci L2 = prev # rest" using d2(13) by (cases "l_ci L2") auto
        have sl: "stack_last L0 \<le> stack_last L4" using kd(2) d2(3) s3 by (simp add: keeps_def stack_last_def)
        have "ok (luaD_poscall (l_top L4 - r)) (\<lambda>_. Q PCRC) L4"
        proof (rule ok_poscall)
          show "good L4" using L4 by simp
          show "l_ci L4 = ci' # prev # rest" using ci0 l by simp
          show "ci_func ci' \<le> l_top L4 - r" using L4 b4 sf ci by simp
          show "- 1 \<le> ci_nresults ci'" "ci_func ci' + ci_nresults ci' \<le> stack_last L4 + 2"
            using sf ci d2(8,9) sl by simp_all
          fix L' assume L': "good L'" "keeps (L4\<lparr>l_ci := prev # rest, l_base := ci_base prev, savedpc := ci_savedpc prev\<rparr>) L'"
            "ci_func ci' \<le> l_top L'" "0 \<le> ci_nresults ci' \<Longrightarrow> l_top L' = ci_func ci' + ci_nresults ci'"
          have "returned L0 func n L'"
            by (rule pop_returned[OF ab(1) _ _ d2(1) L'(1,2)]) (use ci0 ab(3) l d2(7) L'(3,4) sf ci in auto)
          then show "Q PCRC L'" by (rule Q)
        qed
        then show "ok (if r < 0 then ret PCRYIELD
          else bindX (get l_top) (\<lambda>t'. thenX (luaD_poscall (t' - r)) (ret PCRC))) Q L4"
          using L4 by (simp add: ok_bind ok_simps(1,2))
      qed
      then show "ok (get l_top) (\<lambda>t. ok
       (push_ci \<lparr>ci_base = func + 1, ci_func = func, ci_top = t + int LUA_MINSTACK, ci_savedpc = 0,
                 ci_nresults = n, ci_tailcalls = 0\<rparr>)
       (\<lambda>_. ok (c_function E call fn) (\<lambda>r. ok (if r < 0 then ret PCRYIELD
          else bindX (get l_top) (\<lambda>t'. thenX (luaD_poscall (t' - r)) (ret PCRC))) Q))) L2"
        by (simp add: push_ci_def ok_modify ok_simps(2) L3_def ci_def)
    qed
  qed simp
  then show ?thesis by (simp only: precall_C_def ok_bind)
qed

subsection \<open>\<open>luaD_precall\<close>\<close>

definition precalled :: "lua_State \<Rightarrow> int \<Rightarrow> int \<Rightarrow> pcr \<Rightarrow> lua_State \<Rightarrow> bool" where
  "precalled L0 func n r L' = (case r of
     PCRLUA \<Rightarrow> savedpc L' = 0 \<and> (\<exists>ci a p h. running L0 func n ci [] a p h 0 L' \<and> l_top L' = ci_top ci)
   | PCRC \<Rightarrow> returned L0 func n L'
   | PCRYIELD \<Rightarrow> False)"

lemma frame_after_base:
  assumes cc: "caller_ok call" and e: "entering L0 func n L"
    and f: "stack L ! nat func = LFunction a" "closures L a = Some (LClosure env p us)"
    and b: "func < base" "base \<le> l_top L" "l_top L \<le> base + maxreg p" "base + maxreg p \<le> stack_last L + 2"
    and va: "p_is_vararg p \<noteq> 0 \<Longrightarrow> func + uint (p_numparams p) + 1 \<le> base"
    and Q: "\<And>L'. precalled L0 func n PCRLUA L' \<Longrightarrow> Q PCRLUA L'"
  shows "ok (inc_ci E call) (\<lambda>_. ok (push_ci \<lparr>ci_base = base, ci_func = func, ci_top = base + maxreg p, ci_savedpc = 0,
                             ci_nresults = n, ci_tailcalls = 0\<rparr>)
             (\<lambda>_. ok (modify (\<lambda>L. L\<lparr>savedpc := 0\<rparr>)) (\<lambda>_. ok (get l_top) (\<lambda>st.
              ok (set_nils (nat (base + maxreg p - st)) st) (\<lambda>_. ok (set_top (base + maxreg p)) (\<lambda>_. Q PCRLUA)))))) L"
proof (rule ok_inc_ci[OF callingD(10)[OF enteringD(1)[OF e]] cc])
  note d = callingD[OF enteringD(1)[OF e]]
  fix L2 assume L2: "after L L2" "stack L2 = stack L"
  have "value_ok L (LFunction a)" using good_value[OF d(2), of func] d(6,11,12) f(1) by auto
  then have "closure_ok L (LClosure env p us)" using f(2) by auto
  moreover have "extends L L2" using after_keeps[OF L2(1)] by (simp add: keeps_def)
  ultimately obtain env' where cl: "closures L2 a = Some (LClosure env' p us)" using extends_Lua[OF _ f(2)] by blast
  have sl: "stack_last L2 = stack_last L" using L2(2) by (simp add: stack_last_def stacksize_def del: length_stack)
  show "ok (push_ci \<lparr>ci_base = base, ci_func = func, ci_top = base + maxreg p, ci_savedpc = 0,
                             ci_nresults = n, ci_tailcalls = 0\<rparr>)
             (\<lambda>_. ok (modify (\<lambda>L. L\<lparr>savedpc := 0\<rparr>)) (\<lambda>_. ok (get l_top) (\<lambda>st.
              ok (set_nils (nat (base + maxreg p - st)) st) (\<lambda>_. ok (set_top (base + maxreg p)) (\<lambda>_. Q PCRLUA))))) L2"
  proof (rule ok_enter_Lua[OF entering_after[OF e L2(1)] _ cl b(1) _ _ _ va refl])
    fix ci h L' assume "running L0 func n ci [] a p h 0 L'" "savedpc L' = 0" "l_top L' = ci_top ci"
    then show "Q PCRLUA L'" by (intro Q) (auto simp: precalled_def)
  qed (use f(1) L2 after_top[OF L2(1)] b sl in auto)
qed

lemma ok_precall_Lua:
  assumes cc: "caller_ok call" and e: "entering L0 func n L"
    and f: "stack L ! nat func = LFunction a" "closures L a = Some (LClosure env p us)"
    and Q: "\<And>L'. precalled L0 func n PCRLUA L' \<Longrightarrow> Q PCRLUA L'"
  shows "ok (precall_Lua E call func n p) Q L"
proof -
  note d = callingD[OF enteringD(1)[OF e]]
  have cok: "closure_ok L (LClosure env p us)"
  proof -
    have "value_ok L (LFunction a)" using good_value[OF d(2), of func] d(6,11,12) f(1) by auto
    then show ?thesis using f(2) by auto
  qed
  then have code: "code_ok (strs L) p" by (simp add: closure_ok_def)
  note np = code_args[OF code]
  let ?rest = "\<lambda>base. ok (inc_ci E call) (\<lambda>_. ok (push_ci \<lparr>ci_base = base, ci_func = func, ci_top = base + maxreg p, ci_savedpc = 0,
                             ci_nresults = n, ci_tailcalls = 0\<rparr>)
             (\<lambda>_. ok (modify (\<lambda>L. L\<lparr>savedpc := 0\<rparr>)) (\<lambda>_. ok (get l_top) (\<lambda>st.
              ok (set_nils (nat (base + maxreg p - st)) st) (\<lambda>_. ok (set_top (base + maxreg p)) (\<lambda>_. Q PCRLUA))))))"
  have "ok (luaD_checkstack (maxreg p)) (\<lambda>_. ok (if p_is_vararg p = 0
             then thenX (modify (\<lambda>L. if func + 1 + uint (p_numparams p) < l_top L then L\<lparr>l_top := func + 1 + uint (p_numparams p)\<rparr> else L))
                (ret (func + 1))
             else bindX (get l_top) (\<lambda>t. adjust_varargs E call p (t - func - 1))) ?rest) L"
  proof (rule ok_checkstack[OF d(2)])
    show "0 \<le> maxreg p" by (simp add: maxreg_def)
    fix L1 assume L1: "after L L1" "l_top L1 + maxreg p < stack_last L1" "take (length (stack L)) (stack L1) = stack L"
    note e1 = entering_after[OF e L1(1)]
    note d1 = callingD[OF enteringD(1)[OF e1]]
    have st: "stack L1 ! nat func = LFunction a"
      using same_below_take[OF L1(3), of "func + 1"] d(5,6,11,12) f(1) by (simp add: same_below_def)
    have "extends L L1" using after_keeps[OF L1(1)] by (simp add: keeps_def)
    then obtain env1 where cl1: "closures L1 a = Some (LClosure env1 p us)" "closure_ok L1 (LClosure env1 p us)"
      by (rule extends_Lua[OF _ f(2) cok])
    show "ok (if p_is_vararg p = 0
             then thenX (modify (\<lambda>L. if func + 1 + uint (p_numparams p) < l_top L then L\<lparr>l_top := func + 1 + uint (p_numparams p)\<rparr> else L))
                (ret (func + 1))
             else bindX (get l_top) (\<lambda>t. adjust_varargs E call p (t - func - 1))) ?rest L1"
    proof (cases "p_is_vararg p = 0")
      case True
      define lim where "lim = func + 1 + uint (p_numparams p)"
      define L2 where "L2 = (if lim < l_top L1 then L1\<lparr>l_top := lim\<rparr> else L1)"
      have "0 \<le> uint (p_numparams p)" by simp
      then have lim: "func < lim" "lim \<le> func + 1 + maxreg p" using np(1) unfolding lim_def by linarith+
      have e2: "entering L0 func n L2"
      proof (cases "lim < l_top L1")
        case True
        then have "good (L1\<lparr>l_top := lim\<rparr>) \<and> keeps L1 (L1\<lparr>l_top := lim\<rparr>)"
          by (intro good_top) (use d1(2,5) lim goodD(6)[OF d1(2)] in auto)
        then show ?thesis using entering_keeps[OF e1, of "L1\<lparr>l_top := lim\<rparr>"] True lim by (simp add: L2_def)
      qed (use e1 in \<open>simp add: L2_def\<close>)
      have s2: "stack L2 = stack L1" "closures L2 = closures L1" "stack_last L2 = stack_last L1" "func < l_top L2" "l_top L2 \<le> lim"
        using d1(6) lim by (auto simp: L2_def)
      have "?rest (func + 1) L2"
        by (rule frame_after_base[OF cc e2]) (use s2 st cl1 lim L1(2) d1(6) True in \<open>auto intro: Q\<close>)
      then have "ok (thenX (modify (\<lambda>L. if lim < l_top L then L\<lparr>l_top := lim\<rparr> else L)) (ret (func + 1))) ?rest L1"
        by (simp only: ok_bind ok_modify ok_simps(1) L2_def)
      then show ?thesis by (simp only: True if_P lim_def)
    next
      case False
      have "ok (adjust_varargs E call p (l_top L1 - func - 1)) ?rest L1"
      proof (rule ok_adjust_varargs[OF e1 cc code False L1(2)])
        fix base L2
        assume L2: "entering L0 func n L2" and k2: "keeps L1 L2" and s2: "same_below (func + 1) L1 L2"
          and b: "func + 1 + uint (p_numparams p) \<le> base" "base \<le> l_top L2"
          "base + maxreg p \<le> stack_last L2 + 2" "l_top L2 \<le> base + maxreg p"
        have st2: "stack L2 ! nat func = LFunction a" using s2 st d(11) by (simp add: same_below_def)
        have "extends L1 L2" using k2 by (simp add: keeps_def)
        then obtain env2 where cl2: "closures L2 a = Some (LClosure env2 p us)" by (rule extends_Lua[OF _ cl1])
        have "0 \<le> uint (p_numparams p)" by simp
        then have "func < base" using b by linarith
        then show "?rest base L2"
          by (rule frame_after_base[OF cc L2 st2 cl2 _ b(2,4,3)]) (use b(1) in \<open>auto intro: Q\<close>)
      qed
      then show ?thesis using False by (simp add: ok_bind ok_simps(2))
    qed
  qed
  then show ?thesis by (simp only: precall_Lua_def Let_def ok_bind ok_simps(1) flip: maxreg_def)
qed

lemma ok_precall:
  assumes h: "host_ok E" and cc: "caller_ok call" and c: "calling L0 func n L"
    and Q: "\<And>r L'. precalled L0 func n r L' \<Longrightarrow> Q r L'"
  shows "ok (luaD_precall E call func n) Q L"
proof -
  note d = callingD[OF c]
  define enter where "enter = bindX (get_s func) (\<lambda>f. case f of
         LFunction a \<Rightarrow> thenX save_pc (bindX (get_closure a) (\<lambda>cl. case cl of
             LClosure _ p _ \<Rightarrow> precall_Lua E call func n p
           | CClosure _ g _ \<Rightarrow> precall_C E call func n g))
       | _ \<Rightarrow> leave Undefined)"
  have enter: "ok enter Q L1" if L1: "calling L0 func n L1" "stack L1 ! nat func = LFunction a" for L1 a
  proof -
    note d1 = callingD[OF L1(1)]
    have b: "0 \<le> func" "func < stacksize L1" using d1 by auto
    have v: "value_ok L1 (LFunction a)" using good_value[OF d1(2) b] L1(2) by simp
    have "ok save_pc (\<lambda>_. ok (get_closure a) (\<lambda>cl. ok (case cl of
             LClosure _ p _ \<Rightarrow> precall_Lua E call func n p
           | CClosure _ g _ \<Rightarrow> precall_C E call func n g) Q)) L1"
    proof (rule ok_saving[OF L1(1)])
      fix L2 assume L2: "entering L0 func n L2" "after L1 L2" "stack L2 = stack L1"
      have st: "stack L2 ! nat func = LFunction a" using L1(2) L2(3) by simp
      have "value_ok L2 (LFunction a)" using keeps_value[OF after_keeps[OF L2(2)] v] .
      then obtain cl where cl: "closures L2 a = Some cl" by auto
      have "ok (case cl of LClosure _ p _ \<Rightarrow> precall_Lua E call func n p | CClosure _ g _ \<Rightarrow> precall_C E call func n g) Q L2"
      proof (cases cl)
        case (CClosure e g vs)
        then show ?thesis
          using ok_precall_C[OF h cc L2(1) st cl[unfolded CClosure], of Q] Q[of PCRC] by (simp add: precalled_def)
      next
        case (LClosure e p us)
        then show ?thesis
          using ok_precall_Lua[OF cc L2(1) st cl[unfolded LClosure], of Q] Q[of PCRLUA] by simp
      qed
      then show "ok (get_closure a) (\<lambda>cl. ok (case cl of
             LClosure _ p _ \<Rightarrow> precall_Lua E call func n p
           | CClosure _ g _ \<Rightarrow> precall_C E call func n g) Q) L2"
        by (simp add: ok_heap cl)
    qed
    then show ?thesis using b L1(2) by (simp add: enter_def ok_bind ok_simps(8))
  qed
  have "ok (get_s func) (\<lambda>v. ok (case v of LFunction _ \<Rightarrow> ret () | _ \<Rightarrow> tryfuncTM E call func) (\<lambda>_. ok enter Q)) L"
  proof (cases "\<exists>a. stack L ! nat func = LFunction a")
    case True
    then show ?thesis using enter[OF c] d(5,6,11,12) by (auto simp: ok_simps(1,8))
  next
    case False
    have "ok (tryfuncTM E call func) (\<lambda>_. ok enter Q) L"
      by (rule ok_tryfuncTM[OF c cc]) (rule enter)
    then show ?thesis
      using False d(5,6,11,12) by (auto simp: ok_simps(8) split: TValue.split)
  qed
  then show ?thesis by (simp only: luaD_precall_def ok_bind flip: enter_def)
qed

end
