(* ===== verification/VMEnter.thy ===== *)
theory VMEnter
  imports VMCalls
begin

text \<open>
  The instructions that enter and leave functions: \<open>OP_CALL\<close> puts a frame on top of the chain, \<open>OP_RETURN\<close> takes the
  top one off, \<open>OP_TAILCALL\<close> puts the new frame in the place of the current one.
\<close>

subsection \<open>The site of an instruction that calls\<close>

lemma calling_at:
  assumes r: "running L0 f n ci fs cl p h pc L" and o: "GET_OPCODE (instr p pc) = op_num op"
    and t: "l_base L + x < t" "t \<le> l_base L + maxreg p \<or> t = l_top L" "0 \<le> x" and h: "h pc \<le> x"
    and m: "- 1 \<le> m" "x + m \<le> maxreg p"
  shows "calling (L\<lparr>l_top := t, savedpc := pc + 1\<rparr>) (l_base L + x) m (L\<lparr>l_top := t, savedpc := pc + 1\<rparr>)"
proof -
  note d = running_D[OF r] and a = running_at[OF r o]
  have ct: "l_base L + maxreg p \<le> stack_last L + 2" using d(6,9) by (simp add: in_frame_def)
  have "t \<le> stack_last L + 2" using t(2) ct goodD(6)[OF d(2)] by auto
  then have "good (L\<lparr>l_top := t\<rparr>)" using good_top[OF d(2), of t] t by simp
  then have g: "good (L\<lparr>l_top := t, savedpc := pc + 1\<rparr>)" by (rule good_savedpc)
  have "pc_ok (L\<lparr>l_top := t, savedpc := pc + 1\<rparr>)"
    using d(5,12) at_opD(3,4)[OF a] by (auto simp: pc_ok_def running_func_def runs_def)
  moreover have "i < l_base L + x" if "i \<in> levels L" for i using d(7)[OF that] d(9) h by simp
  ultimately show ?thesis using g t m ct by (simp add: calling_def)
qed

text \<open>The frame of a callee on top of the chain.\<close>

lemma running_push:
  assumes r: "running L0 f n ci fs cl p h pc L" and o: "GET_OPCODE (instr p pc) = op_num OP_CALL"
    and c: "running (L\<lparr>l_top := t, savedpc := pc + 1\<rparr>) (l_base L + GETARG_A (instr p pc)) (GETARG_C (instr p pc) - 1)
       ci' [] cl' p' h' q L'"
  shows "\<exists>c. running L0 f n ci' (c # fs) cl' p' h' q L'"
proof -
  let ?ra = "l_base L + GETARG_A (instr p pc)" and ?L1 = "L\<lparr>l_top := t, savedpc := pc + 1\<rparr>"
  note d = running_D[OF r] and dc = running_D[OF c] and a = running_at[OF r o]
  have nx: "pc + 1 \<in> vm_next p pc" by (rule vm_next_simple[OF a]) simp
  obtain rest where rest: "l_ci L = ci # fs @ rest" "same_frames (l_ci L0) rest" "ci_savedpc (hd rest) = savedpc L0"
    and ab: "extends L0 L" "stacksize L0 \<le> stacksize L" "\<forall>i\<in>levels L. i < f \<longrightarrow> i \<in> levels L0"
    "\<forall>c\<in>set (l_ci L0). stack L ! nat (ci_func c) = stack L0 ! nat (ci_func c)"
    using d(3) unfolding above_def by auto
  obtain rest' where rest': "l_ci L' = ci' # rest'" "same_frames (l_ci ?L1) rest'" "ci_savedpc (hd rest') = pc + 1"
    and ac: "extends ?L1 L'" "stacksize L \<le> stacksize L'" "\<And>i. i \<in> levels L' \<Longrightarrow> i < ?ra \<Longrightarrow> i \<in> levels L"
    "\<And>c. c \<in> set (l_ci L) \<Longrightarrow> stack L' ! nat (ci_func c) = stack L ! nat (ci_func c)"
    using dc(3) unfolding above_def by auto
  obtain c where cc: "rest' = c # fs @ rest" "shape c = shape ci" "ci_savedpc c = pc + 1"
    using rest'(2,3) rest(1) by (auto elim: same_frames_Cons)
  have x: "extends L L'"
    by (rule extends_trans[OF _ ac(1)]) (rule extendsI; simp)
  note sf = shape_fields[OF cc(2)]
  have fr: "frames_ok (ci # fs @ rest)" using goodD(3)[OF d(2)] rest by simp
  have A: "0 \<le> GETARG_A (instr p pc)" by (rule getarg_bounds)
  have lv: "i \<in> levels L \<or> ?ra \<le> i" if "i \<in> levels L'" for i using ac(3)[OF that] by auto
  have low: "stack L' ! nat (ci_func e) = stack L0 ! nat (ci_func e)" if e: "e \<in> set (l_ci L0)" for e
  proof -
    obtain e' where "e' \<in> set rest" "ci_func e' = ci_func e" using same_frames_func[OF rest(2) e] by blast
    then show ?thesis using ac(4)[of e'] ab(4) e rest(1) by auto
  qed
  have ra: "ci_func ci < ?ra" "f \<le> ?ra" using d(9,10,13) A by auto
  have "above f L0 (ci' # c # fs) L'"
    unfolding above_def
  proof (intro exI[of _ rest] conjI)
    show "extends L0 L'" by (rule extends_trans[OF ab(1) x])
    show "\<forall>i\<in>levels L'. i < f \<longrightarrow> i \<in> levels L0" using ac(3) ab(3) ra by force
  qed (use rest' cc rest ab ac(2) low in auto)
  moreover have ch: "chain L' (c # fs) f n"
    by (rule chain_moves[OF d(4) cc(2) x ac(2) fr]) (use lv ra ac(4) rest in force)+
  moreover have "waits L' c ci'"
  proof -
    have st: "stack L' ! nat (ci_func ci) = stack L ! nat (ci_func ci)" using ac(4) rest(1) by simp
    have "in_frame L' ci p h pc"
      by (rule in_frame_moves[OF d(6) ac(2)]) (use lv d(9) A in force)
    then have i: "in_frame L' c p h (pc + 1)"
      using at_op_stays[OF a nx] in_frame_shape[OF cc(2), of L' p h "pc + 1"] by (simp add: in_frame_def)
    have "runs L' c cl p" using runs_moves[OF d(5) x st] runs_shape[of c ci] sf by simp
    moreover have "\<forall>i\<in>levels L'. i < ci_func ci' \<longrightarrow> i < ci_base c + h (pc + 1)"
      using ac(3) d(7) dc(4) running_flow(3)[OF r o nx] sf by fastforce
    ultimately show ?thesis
      unfolding waits_def
      using i cc(3) at_opD(2,7)[OF a] dc(4) sf d(9) by (intro exI[of _ cl] exI[of _ p] exI[of _ h]) simp
  qed
  ultimately have "running L0 f n ci' (c # fs) cl' p' h' q L'"
    using r c dc by (simp add: running_def)
  then show ?thesis by blast
qed

text \<open>After the call of a C function, the results are in place.\<close>

lemma going_results:
  assumes r: "running L0 f n ci fs cl p h pc L" and o: "GET_OPCODE (instr p pc) = op_num op" and op: "op \<in> {OP_CALL, OP_TAILCALL}"
    and m: "m = GETARG_C (instr p pc) - 1"
    and c: "returned (L\<lparr>l_top := t, savedpc := pc + 1\<rparr>) (l_base L + GETARG_A (instr p pc)) m L'"
    and L'': "L'' = (if 0 \<le> m then L'\<lparr>l_top := ci_top ci\<rparr> else L')"
  shows "going L0 f n (int (length (ci # fs))) cl (pc + 1) L''"
proof -
  let ?L1 = "L\<lparr>l_top := t, savedpc := pc + 1\<rparr>"
  note d = running_D[OF r] and a = running_at[OF r o]
  have nx: "pc + 1 \<in> vm_next p pc" by (rule vm_next_simple[OF a]) (use op in auto)
  have ct: "ci_top ci = l_base L + maxreg p" "ci_top ci \<le> stack_last L + 2" using d(6,9) by (auto simp: in_frame_def)
  have rt: "good L'" "keeps ?L1 L'" "l_base L + GETARG_A (instr p pc) \<le> l_top L'"
    using c by (auto simp: returned_def)
  have b: "l_base L' = l_base L" "stack_last L \<le> stack_last L'" using rt(2) by (simp_all add: keeps_def stack_last_def)
  have x: "extends L ?L1" by (rule extendsI) simp_all
  have "0 \<le> maxreg p" by (simp add: maxreg_def)
  then have g: "good L''" using rt(1) good_top[OF rt(1), of "ci_top ci"] ct b by (simp add: L'')
  have mv: "moves L L''"
    using rt(2) extends_trans[OF x, of L'] extends_trans[of L L' "L'\<lparr>l_top := ci_top ci\<rparr>"]
    by (auto simp: moves_def keeps_def L'')
  show ?thesis
  proof (rule going_moves[OF r g mv])
    show "visited p (pc + 1)" "pc + 1 < p_sizecode p" using at_op_stays[OF a nx] by simp_all
    fix i assume "i \<in> levels L''"
    then have "i \<in> levels L" using rt(2) by (auto simp: keeps_def L'' split: if_splits)
    then show "(i \<in> levels L \<or> ci_base ci \<le> i) \<and> i < ci_base ci + h (pc + 1)"
      using d(7)[of i] running_flow(3)[OF r o nx] op by force
  next
    show "top_at p (pc + 1) ci L''"
    proof (cases "0 \<le> m")
      case True
      then show ?thesis by (simp add: top_at_def L'')
    next
      case False
      have "0 \<le> GETARG_C (instr p pc)" by (rule getarg_bounds)
      then have C: "GETARG_C (instr p pc) = 0" using False m by simp
      then have oo: "luaG_checkopenop (instr p (pc + 1))" using at_op_call(3)[OF a op] by simp
      have "producer p pc" using at_opD(7)[OF a] op C by (auto simp: producer_def)
      moreover have "GETARG_B (instr p (pc + 1)) = 0" using oo by (simp add: luaG_checkopenop_def)
      ultimately have "opcode_at p (pc + 1) OP_CALL \<or> opcode_at p (pc + 1) OP_TAILCALL \<Longrightarrow>
         GETARG_A (instr p (pc + 1)) < GETARG_A (instr p pc)"
        using at_opD(9)[OF a] by (auto simp: tight_instr_def)
      then show ?thesis using oo rt(3) d(9) False by (auto simp: top_at_def L'')
    qed
  qed
qed

lemma ok_call_site:
  assumes r: "running L0 f n ci fs cl p h pc L" and o: "GET_OPCODE (instr p pc) = op_num op" and op: "op \<in> {OP_CALL, OP_TAILCALL}"
    and h: "host_ok E" and cc: "caller_ok call" and m: "m = GETARG_C (instr p pc) - 1"
    and Q: "\<And>t r L'. precalled (L\<lparr>l_top := t, savedpc := pc + 1\<rparr>) (l_base L + GETARG_A (instr p pc)) m r L' \<Longrightarrow> Q r L'"
  shows "ok (if GETARG_B (instr p pc) \<noteq> 0 then set_top (l_base L + GETARG_A (instr p pc) + GETARG_B (instr p pc)) else ret ())
    (\<lambda>_. ok (Protect (pc + 1) (luaD_precall E call (l_base L + GETARG_A (instr p pc)) m)) Q) L"
proof -
  let ?A = "GETARG_A (instr p pc)" and ?B = "GETARG_B (instr p pc)" and ?C = "GETARG_C (instr p pc)"
  note d = running_D[OF r] and a = running_at[OF r o]
  note args = at_op_args[OF a] and ac = at_op_call[OF a op]
  define t where "t = (if ?B \<noteq> 0 then l_base L + ?A + ?B else l_top L)"
  have B: "0 \<le> ?B" "0 \<le> ?C" by (rule getarg_bounds)+
  have t: "l_base L + ?A < t" "t \<le> l_base L + maxreg p \<or> t = l_top L"
  proof -
    have "l_base L + ?A < l_top L"
      using d(6,8,9) args(2) at_opD(7)[OF a] op by (auto simp: top_at_def in_frame_def)
    then show "l_base L + ?A < t" using B(1) by (simp add: t_def)
    show "t \<le> l_base L + maxreg p \<or> t = l_top L" using ac(1) by (simp add: t_def)
  qed
  have "calling (L\<lparr>l_top := t, savedpc := pc + 1\<rparr>) (l_base L + ?A) m (L\<lparr>l_top := t, savedpc := pc + 1\<rparr>)"
    by (rule calling_at[OF r o t args(1)]) (use running_flow(6)[OF r o op] m B ac(2) in auto)
  then have "ok (luaD_precall E call (l_base L + ?A) m) Q (L\<lparr>l_top := t, savedpc := pc + 1\<rparr>)"
    by (rule ok_precall[OF h cc]) (rule Q)
  moreover have "L\<lparr>l_top := l_top L, savedpc := pc + 1\<rparr> = L\<lparr>savedpc := pc + 1\<rparr>" by simp
  ultimately show ?thesis by (simp add: t_def ok_simps(1,10) ok_step(4) split: if_splits)
qed

lemma step_call:
  assumes r: "running L0 f n ci fs cl p h pc L" and o: "GET_OPCODE (instr p pc) = op_num OP_CALL"
    and h: "host_ok E" and cc: "caller_ok call"
  shows "ok (op_call E call (pc + 1) (int (length (ci # fs))) (instr p pc)) (goes L0 f n (int (length (ci # fs))) cl) L"
proof -
  let ?A = "GETARG_A (instr p pc)" and ?C = "GETARG_C (instr p pc)"
  note d = running_D[OF r]
  let ?R = "\<lambda>r. case r of
           PCRLUA \<Rightarrow> ret (Reentry (int (length (ci # fs)) + 1))
         | PCRC \<Rightarrow> thenX (if 0 \<le> ?C - 1 then top_to_ci else ret ()) (ret (Continue (pc + 1)))
         | PCRYIELD \<Rightarrow> ret Return_here"
  have fin: "ok (?R r') (goes L0 f n (int (length (ci # fs))) cl) L'"
    if c: "precalled (L\<lparr>l_top := t, savedpc := pc + 1\<rparr>) (l_base L + ?A) (?C - 1) r' L'" for t r' L'
  proof (cases r')
    case PCRLUA
    then obtain ci' a p' h' where s: "savedpc L' = 0" "running (L\<lparr>l_top := t, savedpc := pc + 1\<rparr>) (l_base L + ?A) (?C - 1) ci' [] a p' h' 0 L'"
      using c by (auto simp: precalled_def)
    obtain c' where "running L0 f n ci' (c' # fs) a p' h' 0 L'" using running_push[OF r o s(2)] by blast
    then have "going L0 f n (int (length (ci # fs)) + 1) a (savedpc L') L'"
      unfolding going_def s(1) by (intro exI[of _ ci'] exI[of _ "c' # fs"] exI[of _ p'] exI[of _ h']) simp
    then show ?thesis using PCRLUA by (auto simp: ok_simps(1) goes_def)
  next
    case PCRC
    then have ret: "returned (L\<lparr>l_top := t, savedpc := pc + 1\<rparr>) (l_base L + ?A) (?C - 1) L'" using c by (simp add: precalled_def)
    note g = going_results[OF r o _ refl ret refl]
    have k: "keeps (L\<lparr>l_top := t, savedpc := pc + 1\<rparr>) L'" using ret by (simp add: returned_def)
    have ne: "l_ci (L\<lparr>l_top := t, savedpc := pc + 1\<rparr>) \<noteq> []" using d(11) by simp
    obtain ci' rest where l: "l_ci L' = ci' # rest" using keeps_hd(4)[OF k ne] by (cases "l_ci L'") auto
    have "ci_top ci' = ci_top ci" using keeps_hd(2)[OF k ne] l d(12) by simp
    then have "ok (if 0 \<le> ?C - 1 then top_to_ci else ret ()) (\<lambda>_. goes L0 f n (int (length (ci # fs))) cl (Continue (pc + 1))) L'"
      using g by (simp add: ok_top_to_ci[OF l] ok_simps(1) goes_def split: if_splits)
    then show ?thesis using PCRC by (simp add: ok_bind ok_simps(1))
  qed (use c in \<open>simp add: precalled_def\<close>)
  have "ok (if GETARG_B (instr p pc) \<noteq> 0 then set_top (l_base L + ?A + GETARG_B (instr p pc)) else ret ())
    (\<lambda>_. ok (Protect (pc + 1) (luaD_precall E call (l_base L + ?A) (?C - 1))) (\<lambda>r. ok (?R r) (goes L0 f n (int (length (ci # fs))) cl))) L"
    by (rule ok_call_site[OF r o _ h cc refl]) (use fin in auto)
  then show ?thesis
    by (simp only: op_call_def Let_def ok_bind ok_reg ok_step(4) Protect_def ok_modify)
qed

subsection \<open>Return\<close>

lemma call_results_fit:
  assumes w: "waits L prev ci"
  shows "- 1 \<le> ci_nresults ci" "ci_func ci + ci_nresults ci \<le> stack_last L + 2"
proof -
  obtain cl p h where o: "runs L prev cl p" "in_frame L prev p h (ci_savedpc prev)" "visited p (ci_savedpc prev - 1)"
     "opcode_at p (ci_savedpc prev - 1) OP_CALL" "ci_func ci = ci_base prev + GETARG_A (instr p (ci_savedpc prev - 1))"
     "ci_nresults ci = GETARG_C (instr p (ci_savedpc prev - 1)) - 1"
    using w unfolding waits_def by blast
  have a: "at_op (strs L) p (ci_savedpc prev - 1) OP_CALL"
    using o(1,3,4) by (auto simp: at_op_def runs_def closure_ok_def opcode_at_def)
  have "GETARG_A (instr p (ci_savedpc prev - 1)) + GETARG_C (instr p (ci_savedpc prev - 1)) \<le> maxreg p + 1"
    by (rule at_op_call(2)[OF a]) simp
  then show "ci_func ci + ci_nresults ci \<le> stack_last L + 2" using o(2,5,6) by (auto simp: in_frame_def)
  have "0 \<le> GETARG_C (instr p (ci_savedpc prev - 1))" by (rule getarg_bounds)
  then show "- 1 \<le> ci_nresults ci" using o(6) by simp
qed

text \<open>The caller goes on where it waited.\<close>

lemma waits_going:
  assumes w: "waits L prev ci" and l: "l_ci L = ci # prev # fs @ rest" and ab: "above f L0 (ci # prev # fs) L"
    and ch: "chain L (prev # fs) f n" and L0: "good L0" "- 1 \<le> n" "f + n \<le> stack_last L0 + 2" "l_base L0 \<le> f" and g: "good L" "good L'"
    and k: "keeps (L\<lparr>l_ci := prev # fs @ rest, l_base := ci_base prev, savedpc := ci_savedpc prev\<rparr>) L'"
    and lv: "\<And>i. i \<in> levels L \<Longrightarrow> i < ci_func ci"
    and t: "ci_func ci \<le> l_top L'" and L'': "L'' = (if ci_nresults ci + 1 \<noteq> 0 then L'\<lparr>l_top := ci_top prev\<rparr> else L')"
  shows "\<exists>cl'. going L0 f n (int (length (prev # fs))) cl' (savedpc L'') L''"
proof -
  let ?P = "L\<lparr>l_ci := prev # fs @ rest, l_base := ci_base prev, savedpc := ci_savedpc prev\<rparr>"
  obtain cl p h where o: "runs L prev cl p" "in_frame L prev p h (ci_savedpc prev)" "visited p (ci_savedpc prev - 1)"
     "opcode_at p (ci_savedpc prev - 1) OP_CALL" "ci_func ci = ci_base prev + GETARG_A (instr p (ci_savedpc prev - 1))"
     "ci_nresults ci = GETARG_C (instr p (ci_savedpc prev - 1)) - 1"
     "\<forall>i\<in>levels L. i < ci_func ci \<longrightarrow> i < ci_base prev + h (ci_savedpc prev)"
    using w unfolding waits_def by blast
  define pc where "pc = ci_savedpc prev"
  have a: "at_op (strs L) p (pc - 1) OP_CALL"
    using o(1,3,4) by (auto simp: at_op_def runs_def closure_ok_def opcode_at_def pc_def)
  have rest: "same_frames (l_ci L0) rest" "ci_savedpc (hd rest) = savedpc L0" "extends L0 L" "stacksize L0 \<le> stacksize L"
    "\<And>i. i \<in> levels L \<Longrightarrow> i < f \<Longrightarrow> i \<in> levels L0"
    "\<And>c. c \<in> set (l_ci L0) \<Longrightarrow> stack L ! nat (ci_func c) = stack L0 ! nat (ci_func c)"
    using ab l by (auto simp: above_def)
  have x: "extends L L'"
  proof (rule extends_trans[of L ?P])
    show "extends L ?P" by (rule extendsI) simp_all
    show "extends ?P L'" using k by (simp add: keeps_def)
  qed
  have x': "extends L L''" using extends_trans[OF x, of L''] by (simp add: L'')
  have sz: "stacksize L \<le> stacksize L''" "stack L'' = stack L'" "l_ci L'' = l_ci L'" "levels L'' \<subseteq> levels L"
    "stack_last L \<le> stack_last L''" "savedpc L'' = pc" "l_base L'' = ci_base prev"
    using k by (simp_all add: L'' keeps_def stack_last_def pc_def)
  have st: "stack L'' ! nat (ci_func c) = stack L ! nat (ci_func c)" if "c \<in> set (prev # fs @ rest)" for c
    using k that sz(2) by (auto simp: keeps_def)
  have sf: "same_frames (prev # fs @ rest) (l_ci L'')" using k sz(3) by (simp add: keeps_def)
  then obtain prev' where p': "l_ci L'' = prev' # fs @ rest" "shape prev' = shape prev" by (rule same_frames_Cons)
  note shp = shape_fields[OF p'(2)]
  have fr: "frames_ok (prev # fs @ rest)" using goodD(3)[OF g(1)] l by simp
  have lv': "i \<in> levels L" if "i \<in> levels L''" for i using that sz(4) by blast
  have "in_frame L'' prev p h pc" using in_frame_moves[OF o(2) sz(1)] lv' by (auto simp: pc_def)
  then have fi: "in_frame L'' prev' p h pc" by (simp only: in_frame_shape[OF p'(2)])
  have low: "stack L'' ! nat (ci_func e) = stack L0 ! nat (ci_func e)" if e: "e \<in> set (l_ci L0)" for e
  proof -
    obtain e' where "e' \<in> set rest" "ci_func e' = ci_func e" using same_frames_func[OF rest(1) e] by blast
    then show ?thesis using st[of e'] rest(6)[OF e] by auto
  qed
  have "above f L0 (prev' # fs) L''"
    unfolding above_def
    by (intro exI[of _ rest]) (use p' rest sz x' lv' low extends_trans[OF rest(3) x'] in auto)
  moreover have "chain L'' (prev' # fs) f n"
    by (rule chain_moves[OF ch p'(2) x' sz(1) fr]) (use lv' st in auto)
  moreover have "runs L'' prev' cl p"
    using runs_moves[OF o(1) x' st] runs_shape[of prev' prev] shp by simp
  moreover have "\<forall>i\<in>levels L''. i < ci_base prev' + h pc" using lv' lv o(7) shp by (auto simp: pc_def)
  moreover have "top_at p pc prev' L''"
  proof (cases "ci_nresults ci + 1 = 0")
    case True
    then have C: "GETARG_C (instr p (pc - 1)) = 0" using o(6) by (simp add: pc_def)
    have oo: "luaG_checkopenop (instr p (pc - 1 + 1))" by (rule at_op_call(3)[OF a _ C]) simp
    have "producer p (pc - 1)" using at_opD(7)[OF a] C by (auto simp: producer_def)
    moreover have "GETARG_B (instr p (pc - 1 + 1)) = 0" using oo by (simp add: luaG_checkopenop_def)
    ultimately have "opcode_at p pc OP_CALL \<or> opcode_at p pc OP_TAILCALL \<Longrightarrow> GETARG_A (instr p pc) < GETARG_A (instr p (pc - 1))"
      using at_opD(9)[OF a] by (auto simp: tight_instr_def)
    then show ?thesis using oo t o(5) shp True by (auto simp: top_at_def L'' pc_def)
  qed (use shp in \<open>simp add: top_at_def L''\<close>)
  moreover have "good L''"
  proof -
    have "ci_base prev \<le> ci_top prev" "ci_top prev \<le> stack_last L + 2" using o(2) by (auto simp: in_frame_def maxreg_def)
    moreover have "l_base L' = ci_base prev" "stack_last L \<le> stack_last L'" using k by (simp_all add: keeps_def stack_last_def)
    ultimately show ?thesis using g(2) good_top[OF g(2), of "ci_top prev"] by (simp add: L'')
  qed
  ultimately have "running L0 f n prev' fs cl p h pc L''"
    using L0 fi by (simp add: running_def)
  then show ?thesis
    unfolding going_def sz(6) by (intro exI[of _ cl] exI[of _ prev'] exI[of _ fs] exI[of _ p] exI[of _ h]) simp
qed

lemma chain_results:
  assumes r: "running L0 f n ci fs cl p h pc L"
  shows "- 1 \<le> ci_nresults ci" "ci_func ci + ci_nresults ci \<le> stack_last L + 2"
proof -
  note d = running_D[OF r]
  have L0: "- 1 \<le> n" "f + n \<le> stack_last L0 + 2" using r by (simp_all add: running_def)
  have sl: "stack_last L0 \<le> stack_last L" using d(3) by (auto simp: above_def stack_last_def)
  have "- 1 \<le> ci_nresults ci \<and> ci_func ci + ci_nresults ci \<le> stack_last L + 2"
  proof (cases fs)
    case Nil
    then show ?thesis using d(4) L0 sl by simp
  next
    case (Cons prev fs')
    then show ?thesis using d(4) call_results_fit[of L prev ci] by simp
  qed
  then show "- 1 \<le> ci_nresults ci" "ci_func ci + ci_nresults ci \<le> stack_last L + 2" by auto
qed

lemma above_after:
  assumes ab: "above f L0 (ci # fs) L" and g: "good L" and fr: "\<And>i. i \<in> levels L' \<Longrightarrow> i \<in> levels L"
    and m: "extends L L'" "stacksize L \<le> stacksize L'" "l_ci L' = l_ci L"
    "\<And>c. c \<in> set (l_ci L) \<Longrightarrow> stack L' ! nat (ci_func c) = stack L ! nat (ci_func c)"
  shows "above f L0 (ci # fs) L'"
proof -
  obtain rest where rest: "l_ci L = ci # fs @ rest" "same_frames (l_ci L0) rest" "ci_savedpc (hd rest) = savedpc L0"
    "extends L0 L" "stacksize L0 \<le> stacksize L" "\<forall>i\<in>levels L. i < f \<longrightarrow> i \<in> levels L0"
    "\<forall>c\<in>set (l_ci L0). stack L ! nat (ci_func c) = stack L0 ! nat (ci_func c)"
    using ab unfolding above_def by auto
  have low: "stack L' ! nat (ci_func e) = stack L0 ! nat (ci_func e)" if e: "e \<in> set (l_ci L0)" for e
  proof -
    obtain e' where "e' \<in> set rest" "ci_func e' = ci_func e" using same_frames_func[OF rest(2) e] by blast
    then show ?thesis using m(4)[of e'] rest(1,7) e by auto
  qed
  show ?thesis
    unfolding above_def
    by (intro exI[of _ rest]) (use rest m(2,3) low fr extends_trans[OF rest(4) m(1)] in auto)
qed

lemma step_return:
  assumes r: "running L0 f n ci fs cl p h pc L" and o: "GET_OPCODE (instr p pc) = op_num OP_RETURN"
  shows "ok (op_return (pc + 1) (int (length (ci # fs))) (instr p pc)) (goes L0 f n (int (length (ci # fs))) cl) L"
proof -
  let ?A = "GETARG_A (instr p pc)" and ?B = "GETARG_B (instr p pc)" and ?Q = "goes L0 f n (int (length (ci # fs))) cl"
  let ?k = "int (length (ci # fs))"
  note d = running_D[OF r] and a = running_at[OF r o] and g = running_D(2)[OF r]
  note args = at_op_args[OF a]
  have L0: "good L0" "- 1 \<le> n" "f + n \<le> stack_last L0 + 2" "l_base L0 \<le> f" using r by (simp_all add: running_def)
  obtain rest where rest: "l_ci L = ci # fs @ rest" "same_frames (l_ci L0) rest" using d(3) by (auto simp: above_def)
  have "rest \<noteq> []" using same_frames_fields(1)[OF rest(2)] goodD(12)[OF L0(1)] by auto
  define R where "R = (\<lambda>b' :: int. if ?k - 1 = 0 then ret Return_here else thenX (if b' \<noteq> 0 then top_to_ci else ret ()) (ret (Reentry (?k - 1))))"
  have pos: "ok (luaD_poscall (l_base L + ?A)) (\<lambda>b'. ok (R b') ?Q) L3"
    if L3: "good L3" "l_ci L3 = l_ci L" "extends L L3" "stacksize L \<le> stacksize L3" "\<And>i. i \<in> levels L3 \<Longrightarrow> i \<in> levels L \<and> i < l_base L"
      "stack L3 = stack L" for L3
  proof -
    have lv: "i < ci_func ci" if "i \<in> levels L3" for i using L3(5)[OF that] d(6,9) by (auto simp: in_frame_def)
    have ab: "above f L0 (ci # fs) L3" by (rule above_after[OF d(3) g _ L3(3,4,2)]) (use L3(5,6) in auto)
    have sl: "stack_last L \<le> stack_last L3" using L3(4) by (simp add: stack_last_def)
    note cr = chain_results[OF r]
    have fr: "frames_ok (ci # fs @ rest)" using goodD(3)[OF d(2)] rest by simp
    have ch: "chain L3 (ci # fs) f n"
      by (rule chain_moves[OF d(4) refl L3(3,4) fr]) (use L3(5,6) in auto)
    have base: "ci_func ci \<le> l_base L + ?A" using d(9,10) args(1) by simp
    show ?thesis
    proof (cases fs)
      case Nil
      obtain prev rest' where l: "rest = prev # rest'" using \<open>rest \<noteq> []\<close> by (cases rest) auto
      show ?thesis
      proof (rule ok_poscall[OF L3(1) _ base cr(1)])
        show "l_ci L3 = ci # prev # rest'" using L3(2) rest(1) l Nil by simp
        show "ci_func ci + ci_nresults ci \<le> stack_last L3 + 2" using cr(2) sl by simp
        fix L' assume L': "good L'" "keeps (L3\<lparr>l_ci := prev # rest', l_base := ci_base prev, savedpc := ci_savedpc prev\<rparr>) L'"
          "ci_func ci \<le> l_top L'" "0 \<le> ci_nresults ci \<Longrightarrow> l_top L' = ci_func ci + ci_nresults ci"
        have c: "ci_func ci = f" "ci_nresults ci = n" using d(4) Nil by simp_all
        have "returned L0 f n L'"
          by (rule pop_returned[OF _ _ _ L0(1) L'(1,2)]) (use ab Nil L3(2) rest(1) l lv L'(3,4) c in auto)
        then show "ok (R (ci_nresults ci + 1)) ?Q L'" using Nil by (simp add: R_def ok_simps(1) goes_def)
      qed
    next
      case (Cons prev fs')
      have w: "waits L3 prev ci" "chain L3 (prev # fs') f n" using ch Cons by auto
      show ?thesis
      proof (rule ok_poscall[OF L3(1) _ base cr(1)])
        show l: "l_ci L3 = ci # prev # fs' @ rest" using L3(2) rest(1) Cons by simp
        show "ci_func ci + ci_nresults ci \<le> stack_last L3 + 2" using cr(2) sl by simp
        fix L' assume L': "good L'" "keeps (L3\<lparr>l_ci := prev # fs' @ rest, l_base := ci_base prev, savedpc := ci_savedpc prev\<rparr>) L'"
          "ci_func ci \<le> l_top L'"
        define L'' where "L'' = (if ci_nresults ci + 1 \<noteq> 0 then L'\<lparr>l_top := ci_top prev\<rparr> else L')"
        have go: "\<exists>cl'. going L0 f n (int (length (prev # fs'))) cl' (savedpc L'') L''"
          by (rule waits_going[OF w(1) l _ w(2) L0 L3(1) L'(1,2) lv L'(3) L''_def]) (use ab Cons in auto)
        have "same_frames (prev # fs' @ rest) (l_ci L')" using L'(2) by (simp add: keeps_def)
        then obtain c where c: "l_ci L' = c # fs' @ rest" "shape c = shape prev" by (rule same_frames_Cons)
        have "ci_top c = ci_top prev" using shape_fields[OF c(2)] by simp
        then have "ok (if ci_nresults ci + 1 \<noteq> 0 then top_to_ci else ret ()) (\<lambda>_. ?Q (Reentry (?k - 1))) L'"
          using go by (auto simp: ok_top_to_ci[OF c(1)] ok_simps(1) goes_def L''_def Cons)
        moreover have "?k - 1 \<noteq> 0" using Cons by simp
        ultimately show "ok (R (ci_nresults ci + 1)) ?Q L'" unfolding R_def by (simp only: if_False ok_bind ok_simps(1))
      qed
    qed
  qed
  have close: "ok (get (\<lambda>L. (openupval L, l_base L))) (\<lambda>(us, base). ok (if us \<noteq> [] then luaF_close base else ret ())
      (\<lambda>_. ok (Protect (pc + 1) (bindX (luaD_poscall (l_base L + ?A)) R)) ?Q)) L2"
    if L2: "good L2" "keeps L L2" "l_ci L2 = l_ci L" "stack L2 = stack L" for L2
  proof -
    have fin: "ok (Protect (pc + 1) (bindX (luaD_poscall (l_base L + ?A)) R)) ?Q L3"
      if a3: "after L2 L3" "stack L3 = stack L2" "l_ci L3 = l_ci L2" "\<And>i. i \<in> levels L3 \<Longrightarrow> i < l_base L2" for L3
    proof -
      have k: "keeps L L3" by (rule keeps_trans[OF L2(2) after_keeps[OF a3(1)]])
      have x: "extends L (L3\<lparr>savedpc := pc + 1\<rparr>)" by (rule extends_trans[of L L3]) (use k in \<open>simp_all add: keeps_def\<close>)
      show ?thesis
        unfolding ok_step ok_bind
        by (rule pos[OF good_savedpc[OF after_good[OF a3(1)]]]) (use x k a3 L2 in \<open>auto simp: keeps_def\<close>)
    qed
    show ?thesis
    proof (cases "openupval L2 = []")
      case True
      then have "levels L2 = {}" using open_levels[OF stack_okD(9)[OF goodD(2)[OF L2(1)]]] by auto
      then show ?thesis using fin[OF after_refl[OF L2(1)]] True by (simp add: ok_simps(1,2))
    next
      case False
      have "ok (luaF_close (l_base L2)) (\<lambda>_. ok (Protect (pc + 1) (bindX (luaD_poscall (l_base L + ?A)) R)) ?Q) L2"
        by (rule ok_close[OF L2(1)]) (rule fin)
      then show ?thesis using False by (simp add: ok_simps(2))
    qed
  qed
  have "ok (if ?B \<noteq> 0 then set_top (l_base L + ?A + ?B - 1) else ret ())
     (\<lambda>_. ok (get (\<lambda>L. (openupval L, l_base L))) (\<lambda>(us, base). ok (if us \<noteq> [] then luaF_close base else ret ())
      (\<lambda>_. ok (Protect (pc + 1) (bindX (luaD_poscall (l_base L + ?A)) R)) ?Q))) L"
  proof (cases "?B = 0")
    case True
    then show ?thesis using close[OF g] by (simp add: ok_simps(1))
  next
    case False
    have B: "0 \<le> ?B" by (rule getarg_bounds)
    have "ok (set_top (l_base L + ?A + ?B - 1)) (\<lambda>_. ok (get (\<lambda>L. (openupval L, l_base L))) (\<lambda>(us, base). ok (if us \<noteq> [] then luaF_close base else ret ())
      (\<lambda>_. ok (Protect (pc + 1) (bindX (luaD_poscall (l_base L + ?A)) R)) ?Q))) L"
    proof (rule ok_set_top[OF g])
      fix L2 assume "good L2" "keeps L L2" "L2 = L\<lparr>l_top := l_base L + ?A + ?B - 1\<rparr>"
      then show "ok (get (\<lambda>L. (openupval L, l_base L))) (\<lambda>(us, base). ok (if us \<noteq> [] then luaF_close base else ret ())
      (\<lambda>_. ok (Protect (pc + 1) (bindX (luaD_poscall (l_base L + ?A)) R)) ?Q)) L2"
        by (intro close) simp_all
    qed (use False B args(1) at_op_return[OF a] d(6,9) in \<open>auto simp: in_frame_def\<close>)
    then show ?thesis using False by simp
  qed
  then show ?thesis
    by (simp only: op_return_def Let_def ok_bind ok_reg case_prod_unfold flip: R_def)
qed

subsection \<open>Tail calls\<close>

text \<open>The function and its arguments are moved down, over the frame that ends.\<close>

lemma ok_move_down:
  assumes "\<forall>v\<in>set (stack L). value_ok L v" "0 \<le> x" "x < y" "y + int k \<le> stacksize L"
    "\<And>s. length s = length (stack L) \<Longrightarrow> \<forall>v\<in>set s. value_ok L v \<Longrightarrow> (\<And>i. 0 \<le> i \<Longrightarrow> i < x \<Longrightarrow> s ! nat i = stack L ! nat i) \<Longrightarrow>
      (0 < k \<Longrightarrow> s ! nat x = stack L ! nat y) \<Longrightarrow> Q () (L\<lparr>stack := s\<rparr>)"
  shows "ok (move_down k x y) Q L"
  using assms
proof (induction k arbitrary: x y L)
  case 0
  then show ?case using 0(5)[of "stack L"] by (simp add: ok_simps(1))
next
  case (Suc k)
  define L1 where "L1 = L\<lparr>stack := (stack L)[nat x := stack L ! nat y]\<rparr>"
  have y: "nat y < length (stack L)" "nat x < length (stack L)"
    using Suc.prems(2-4) by (simp_all add: stacksize_def nat_less_iff del: length_stack)
  have v: "\<forall>v\<in>set (stack L1). value_ok L1 v"
    using Suc.prems(1) nth_mem[OF y(1)] by (auto simp: L1_def value_ok_stack dest: set_update)
  have "ok (move_down k (x + 1) (y + 1)) Q L1"
  proof (rule Suc.IH[OF v])
    fix s
    assume s: "length s = length (stack L1)" "\<forall>v\<in>set s. value_ok L1 v" "\<And>i. 0 \<le> i \<Longrightarrow> i < x + 1 \<Longrightarrow> s ! nat i = stack L1 ! nat i"
    have "s ! nat i = stack L ! nat i" if "0 \<le> i" "i < x" for i
    proof -
      have "nat x \<noteq> nat i" using that by simp
      then show ?thesis using s(3)[of i] that by (simp add: L1_def)
    qed
    moreover have "s ! nat x = stack L ! nat y" using s(3)[of x] Suc.prems(2) y(2) by (simp add: L1_def)
    ultimately have "Q () (L\<lparr>stack := s\<rparr>)"
      using s(1,2) by (intro Suc.prems(5)) (simp_all add: L1_def value_ok_stack)
    then show "Q () (L1\<lparr>stack := s\<rparr>)" by (simp add: L1_def)
  qed (use Suc.prems in \<open>simp_all add: L1_def\<close>)
  then show ?case using Suc.prems by (simp add: copy_s_def ok_bind ok_simps(8,9) L1_def)
qed

text \<open>The chain of frames, with another function in the top one.\<close>

lemma chain_replace:
  assumes c: "chain L (ci # fs) f n" and e: "ci_func ci' = ci_func ci" "ci_nresults ci' = ci_nresults ci"
    and m: "extends L L'" "stacksize L \<le> stacksize L'" "frames_ok (ci # fs @ rest)"
    "\<And>c. c \<in> set fs \<Longrightarrow> stack L' ! nat (ci_func c) = stack L ! nat (ci_func c)" "\<And>i. i \<in> levels L' \<Longrightarrow> i \<in> levels L \<or> ci_func ci \<le> i"
  shows "chain L' (ci' # fs) f n"
proof -
  have "chain L' (ci # fs) f n" by (rule chain_moves[OF c refl m])
  then show ?thesis using e by (cases fs) (auto simp: waits_def)
qed

lemma ok_reuse_frame:
  assumes r: "running L0 f n ci fs cl p h pc L"
    and c: "running L1 ra m new [] cl' p' h' 0 L2" and l: "l_ci L2 = new # ci' # fs @ rest" "shape ci' = shape ci" "l_ci L = ci # fs @ rest"
    and x: "extends L L2" "stacksize L \<le> stacksize L2" "\<And>i. i \<in> levels L2 \<Longrightarrow> i \<in> levels L \<or> ra \<le> i"
      "\<And>c. c \<in> set (l_ci L) \<Longrightarrow> stack L2 ! nat (ci_func c) = stack L ! nat (ci_func c)"
    and pc0: "savedpc L2 = 0" "l_top L2 = ci_top new" and ra: "ci_base ci \<le> ra"
    and Q: "\<And>c L'. running L0 f n c fs cl' p' h' 0 L' \<Longrightarrow> savedpc L' = 0 \<Longrightarrow> Q () L'"
  shows "ok reuse_frame Q L2"
proof -
  note d = running_D[OF r] and dc = running_D[OF c]
  note sf = shape_fields[OF l(2)]
  define base where "base = ci_func ci + (ci_base new - ra)"
  have fn: "ci_func new = ra" using dc(4) by simp
  have fr: "frames_ok (ci # fs @ rest)" using goodD(3)[OF d(2)] l(3) by simp
  have fr2: "frames_ok (new # ci' # fs @ rest)" using goodD(3)[OF dc(2)] l(1) by simp
  have b: "ci_func ci < ra" "ra < ci_base new" "0 \<le> ci_func ci" using d(10,14) ra dc(10) fn by auto
  have top2: "ci_top new = ci_base new + maxreg p'" "l_top L2 \<le> stack_last L2 + 2" "l_base L2 = ci_base new" "0 < p_sizecode p'"
    "closes p' h'" "p_is_vararg p' \<noteq> 0 \<Longrightarrow> ra + uint (p_numparams p') + 1 \<le> ci_base new" "ci_top new \<le> stack_last L2 + 2"
    using dc(6,9) goodD(6)[OF dc(2)] fn by (auto simp: in_frame_def)
  have open0: "l_base L2 \<le> l_top L2" by (rule goodD(5)[OF dc(2)])
  have fin: "ok (get l_top) (\<lambda>t. ok (move_down (nat (t - ra)) (ci_func ci) ra) (\<lambda>_. ok (modify (\<lambda>L. L\<lparr>l_base := base,
        l_top := ci_func ci + int (nat (t - ra)), l_ci := ci'\<lparr>ci_base := base, ci_top := ci_func ci + int (nat (t - ra)), ci_savedpc := savedpc L,
                               ci_tailcalls := ci_tailcalls ci' + 1\<rparr> # fs @ rest\<rparr>)) Q)) L3"
    if a3: "after L2 L3" "stack L3 = stack L2" "l_ci L3 = l_ci L2" "\<And>i. i \<in> levels L3 \<Longrightarrow> i < ci_base ci" for L3
  proof -
    define k where "k = nat (l_top L3 - ra)"
    have t3: "l_top L3 = l_top L2" by (rule after_top[OF a3(1)])
    have k: "int k = l_top L2 - ra" "0 < k" using open0 top2(3) b t3 by (simp_all add: k_def)
    have sz3: "stacksize L3 = stacksize L2" by (simp add: stacksize_def a3(2) del: length_stack)
    have g3: "good L3" by (rule after_good[OF a3(1)])
    have x3: "extends L2 L3" using after_keeps[OF a3(1)] by (simp add: keeps_def)
    have lv: "i \<in> levels L \<and> i < ci_func ci" if i: "i \<in> levels L3" for i
    proof -
      have "i < ci_base ci" by (rule a3(4)[OF i])
      moreover have "i \<in> levels L2" using i after_keeps[OF a3(1)] by (auto simp: keeps_def)
      ultimately have "i \<in> levels L" using x(3) ra by fastforce
      then show ?thesis using d(6) \<open>i < ci_base ci\<close> by (auto simp: in_frame_def)
    qed
    have "ok (move_down k (ci_func ci) ra) (\<lambda>_. ok (modify (\<lambda>L. L\<lparr>l_base := base,
        l_top := ci_func ci + int k, l_ci := ci'\<lparr>ci_base := base, ci_top := ci_func ci + int k, ci_savedpc := savedpc L,
                               ci_tailcalls := ci_tailcalls ci' + 1\<rparr> # fs @ rest\<rparr>)) Q) L3"
    proof (rule ok_move_down)
      show "\<forall>v\<in>set (stack L3). value_ok L3 v" using stack_okD(1)[OF goodD(2)[OF g3]] by blast
      show "0 \<le> ci_func ci" "ci_func ci < ra" by (rule b)+
      show "ra + int k \<le> stacksize L3" using k top2(2) sz3 by (simp add: stack_last_def EXTRA_STACK_def)
      fix s assume s: "length s = length (stack L3)" "\<forall>v\<in>set s. value_ok L3 v" "\<And>i. 0 \<le> i \<Longrightarrow> i < ci_func ci \<Longrightarrow> s ! nat i = stack L3 ! nat i"
        "0 < k \<Longrightarrow> s ! nat (ci_func ci) = stack L3 ! nat ra"
      define c where "c = ci'\<lparr>ci_base := base, ci_top := ci_func ci + int k, ci_savedpc := savedpc L3, ci_tailcalls := ci_tailcalls ci' + 1\<rparr>"
      define L' where "L' = L3\<lparr>stack := s, l_base := base, l_top := ci_func ci + int k, l_ci := c # fs @ rest\<rparr>"
      have cf: "ci_base c = base" "ci_func c = ci_func ci" "ci_top c = ci_func ci + int k" "ci_nresults c = ci_nresults ci"
        using sf by (simp_all add: c_def)
      have L': "levels L' = levels L3" "stacksize L' = stacksize L2" "stack_last L' = stack_last L2" "closures L' = closures L3"
        using sz3 s(1) by (simp_all add: L'_def stack_last_def levels_def stacksize_def del: length_stack)
      have base: "ci_func ci < base" "base \<le> ci_func ci + int k" "ci_func ci + int k \<le> stack_last L2 + 2"
        using b k open0 top2 by (simp_all add: base_def)
      have frc: "frames_ok (c # fs @ rest)" using fr cf base(1) by (cases "fs @ rest") auto
      have so: "stack_ok (L3\<lparr>stack := s\<rparr>)" by (rule stack_ok_stack[OF goodD(2)[OF g3] s(2,1)])
      have fl: "ci_func e \<notin> levels L3" if "e \<in> set (c # fs @ rest)" for e
      proof -
        have "ci_func e \<notin> levels L3" if "e \<in> set (fs @ rest)" using goodD(7)[OF g3, of e] that a3(3) l(1) by auto
        moreover have "ci_func ci \<notin> levels L3" using lv by blast
        ultimately show ?thesis using that cf(2) by auto
      qed
      have g': "good L'"
        using frc so fl goodD(1)[OF g3] base cf(1) L'(1,3)
        by (auto simp: good_def L'_def heap_ok_misc stack_ok_misc stack_last_def)
      have xL: "extends L L'"
      proof -
        have "extends L3 L'" unfolding L'_def by (rule extendsI) simp_all
        then show ?thesis using extends_trans[OF extends_trans[OF x(1) x3]] by blast
      qed
      have stk: "stack L' ! nat (ci_func e) = stack L ! nat (ci_func e)" if e: "e \<in> set (fs @ rest)" for e
      proof -
        have "ci_base (hd (fs @ rest)) \<le> ci_func ci" using fr e by (cases "fs @ rest") auto
        moreover have "frames_ok (fs @ rest)" using fr e by (cases "fs @ rest") auto
        ultimately have "0 \<le> ci_func e" "ci_func e < ci_func ci" using frames_okD[of "fs @ rest" e] e by auto
        then have "s ! nat (ci_func e) = stack L2 ! nat (ci_func e)" using s(3) a3(2) by simp
        then show ?thesis using x(4)[of e] e l(3) by (simp add: L'_def)
      qed
      have ab: "above f L0 (c # fs) L'"
      proof -
        have ab0: "same_frames (l_ci L0) rest" "ci_savedpc (hd rest) = savedpc L0" "extends L0 L" "stacksize L0 \<le> stacksize L"
          "\<And>i. i \<in> levels L \<Longrightarrow> i < f \<Longrightarrow> i \<in> levels L0"
          "\<And>c. c \<in> set (l_ci L0) \<Longrightarrow> stack L ! nat (ci_func c) = stack L0 ! nat (ci_func c)"
          using d(3) l(3) by (auto simp: above_def)
        have low: "stack L' ! nat (ci_func e) = stack L0 ! nat (ci_func e)" if e: "e \<in> set (l_ci L0)" for e
        proof -
          obtain e' where "e' \<in> set rest" "ci_func e' = ci_func e" using same_frames_func[OF ab0(1) e] by blast
          then show ?thesis using stk[of e'] ab0(6)[OF e] by auto
        qed
        show ?thesis
          unfolding above_def
          by (intro exI[of _ rest]) (use ab0 low lv x(2) L'(1,2) extends_trans[OF ab0(3) xL] in \<open>auto simp: L'_def\<close>)
      qed
      have ch: "chain L' (c # fs) f n"
        by (rule chain_replace[OF d(4) cf(2,4) xL _ fr]) (use x(2) L' lv stk in auto)
      have rn: "runs L' c cl' p'"
      proof -
        have "stack L' ! nat (ci_func c) = LFunction cl'" using s(4)[OF k(2)] a3(2) dc(5) fn by (simp add: L'_def cf runs_def)
        moreover obtain e us where cl: "closures L2 cl' = Some (LClosure e p' us)" "closure_ok L2 (LClosure e p' us)"
          using dc(5) by (auto simp: runs_def)
        moreover have "extends L2 L'" unfolding L'_def by (rule extends_trans[OF x3], rule extendsI) simp_all
        ultimately show ?thesis using extends_Lua[OF _ cl, of L'] unfolding runs_def by metis
      qed
      have "running L0 f n c fs cl' p' h' 0 L'"
      proof -
        have h0: "0 \<le> h' 0" using top2(4,5) by (simp add: closes_def)
        have "ci_top c = base + maxreg p'" using k(1) pc0(2) top2(1) by (simp add: cf base_def)
        then have "in_frame L' c p' h' 0"
          using top2(4-6) base(3) lv L'(1,3) b by (force simp: in_frame_def visited_0 cf base_def)
        moreover have "\<forall>i\<in>levels L'. i < ci_base c + h' 0" using lv L'(1) base(1) h0 cf(1) by force
        moreover have "top_at p' 0 c L'" by (simp add: top_at_def cf) (simp add: L'_def)
        ultimately show ?thesis
          using r g' ab ch rn by (simp add: running_def)
      qed
      moreover have "savedpc L' = 0" using after_keeps[OF a3(1)] pc0(1) by (simp add: L'_def keeps_def)
      ultimately have "Q () L'" by (rule Q)
      then show "ok (modify (\<lambda>L. L\<lparr>l_base := base,
        l_top := ci_func ci + int k, l_ci := ci'\<lparr>ci_base := base, ci_top := ci_func ci + int k, ci_savedpc := savedpc L,
                               ci_tailcalls := ci_tailcalls ci' + 1\<rparr> # fs @ rest\<rparr>)) Q (L3\<lparr>stack := s\<rparr>)"
        by (simp add: ok_modify L'_def c_def)
    qed
    then show ?thesis by (simp add: ok_simps(2) k_def)
  qed
  have "ok (bindX (get openupval) (\<lambda>us. if us \<noteq> [] then luaF_close (ci_base ci) else ret ()))
     (\<lambda>_. ok (get l_top) (\<lambda>t. ok (move_down (nat (t - ra)) (ci_func ci) ra) (\<lambda>_. ok (modify (\<lambda>L. L\<lparr>l_base := base,
        l_top := ci_func ci + int (nat (t - ra)), l_ci := ci'\<lparr>ci_base := base, ci_top := ci_func ci + int (nat (t - ra)), ci_savedpc := savedpc L,
                               ci_tailcalls := ci_tailcalls ci' + 1\<rparr> # fs @ rest\<rparr>)) Q))) L2"
  proof (cases "openupval L2 = []")
    case True
    then have "levels L2 = {}" using open_levels[OF stack_okD(9)[OF goodD(2)[OF dc(2)]]] by auto
    then show ?thesis using fin[OF after_refl[OF dc(2)]] True by (simp add: ok_bind ok_simps(1,2))
  next
    case False
    have "ok (luaF_close (ci_base ci)) (\<lambda>_. ok (get l_top) (\<lambda>t. ok (move_down (nat (t - ra)) (ci_func ci) ra) (\<lambda>_. ok (modify (\<lambda>L. L\<lparr>l_base := base,
        l_top := ci_func ci + int (nat (t - ra)), l_ci := ci'\<lparr>ci_base := base, ci_top := ci_func ci + int (nat (t - ra)), ci_savedpc := savedpc L,
                               ci_tailcalls := ci_tailcalls ci' + 1\<rparr> # fs @ rest\<rparr>)) Q))) L2"
      by (rule ok_close[OF dc(2)]) (rule fin)
    then show ?thesis using False by (simp add: ok_bind ok_simps(2))
  qed
  then show ?thesis
    by (simp only: reuse_frame_def l(1) list.case Let_def ok_bind ok_simps(2) sf fn base_def)
qed

lemma step_tailcall:
  assumes r: "running L0 f n ci fs cl p h pc L" and o: "GET_OPCODE (instr p pc) = op_num OP_TAILCALL"
    and h: "host_ok E" and cc: "caller_ok call"
  shows "ok (op_tailcall E call (pc + 1) (int (length (ci # fs))) (instr p pc)) (goes L0 f n (int (length (ci # fs))) cl) L"
proof -
  let ?A = "GETARG_A (instr p pc)" and ?Q = "goes L0 f n (int (length (ci # fs))) cl"
  note d = running_D[OF r] and a = running_at[OF r o]
  have C: "GETARG_C (instr p pc) = 0" using at_opD(7,9)[OF a] by (simp add: tight_instr_def)
  then have m: "LUA_MULTRET = GETARG_C (instr p pc) - 1" by (simp add: LUA_MULTRET_def)
  let ?R = "\<lambda>r. case r of PCRLUA \<Rightarrow> thenX reuse_frame (ret (Reentry (int (length (ci # fs)))))
         | PCRC \<Rightarrow> ret (Continue (pc + 1)) | PCRYIELD \<Rightarrow> ret Return_here"
  have fin: "ok (?R r') ?Q L'"
    if c: "precalled (L\<lparr>l_top := t, savedpc := pc + 1\<rparr>) (l_base L + ?A) LUA_MULTRET r' L'" for t r' L'
  proof (cases r')
    case PCRLUA
    let ?L1 = "L\<lparr>l_top := t, savedpc := pc + 1\<rparr>"
    obtain new a p' h' where s: "savedpc L' = 0" "running ?L1 (l_base L + ?A) LUA_MULTRET new [] a p' h' 0 L'" "l_top L' = ci_top new"
      using c PCRLUA by (auto simp: precalled_def)
    obtain rest where rest: "l_ci L = ci # fs @ rest" using d(3) unfolding above_def by auto
    obtain rest' where rest': "l_ci L' = new # rest'" "same_frames (l_ci ?L1) rest'"
      and ac: "extends ?L1 L'" "stacksize L \<le> stacksize L'" "\<And>i. i \<in> levels L' \<Longrightarrow> i < l_base L + ?A \<Longrightarrow> i \<in> levels L"
      "\<And>c. c \<in> set (l_ci L) \<Longrightarrow> stack L' ! nat (ci_func c) = stack L ! nat (ci_func c)"
      using running_D(3)[OF s(2)] unfolding above_def by auto
    obtain ci' where ci': "rest' = ci' # fs @ rest" "shape ci' = shape ci"
      using rest'(2) rest by (auto elim: same_frames_Cons)
    have x: "extends L L'" by (rule extends_trans[OF _ ac(1)]) (rule extendsI; simp)
    have A: "0 \<le> ?A" by (rule getarg_bounds)
    have "ok reuse_frame (\<lambda>_. ?Q (Reentry (int (length (ci # fs))))) L'"
    proof (rule ok_reuse_frame[OF r s(2) _ ci'(2) rest x ac(2) _ ac(4) s(1,3)])
      show "l_ci L' = new # ci' # fs @ rest" using rest'(1) ci'(1) by simp
      show "i \<in> levels L \<or> l_base L + ?A \<le> i" if "i \<in> levels L'" for i using ac(3)[OF that] by auto
      show "ci_base ci \<le> l_base L + ?A" using d(9) A by simp
      fix c L'' assume L'': "running L0 f n c fs a p' h' 0 L''" "savedpc L'' = 0"
      have "going L0 f n (int (length (ci # fs))) a (savedpc L'') L''"
        unfolding going_def L''(2) by (intro exI[of _ c] exI[of _ fs] exI[of _ p'] exI[of _ h']) (simp add: L''(1))
      then show "?Q (Reentry (int (length (ci # fs)))) L''" by (auto simp: goes_def)
    qed
    then show ?thesis using PCRLUA by (simp add: ok_bind ok_simps(1))
  next
    case PCRC
    then have "returned (L\<lparr>l_top := t, savedpc := pc + 1\<rparr>) (l_base L + ?A) LUA_MULTRET L'" using c by (simp add: precalled_def)
    from going_results[OF r o _ m this refl] have "going L0 f n (int (length (ci # fs))) cl (pc + 1) L'"
      by (simp add: LUA_MULTRET_def)
    then show ?thesis using PCRC by (simp add: ok_simps(1) goes_def)
  qed (use c in \<open>simp add: precalled_def\<close>)
  have "ok (if GETARG_B (instr p pc) \<noteq> 0 then set_top (l_base L + ?A + GETARG_B (instr p pc)) else ret ())
    (\<lambda>_. ok (Protect (pc + 1) (luaD_precall E call (l_base L + ?A) LUA_MULTRET)) (\<lambda>r. ok (?R r) ?Q)) L"
    by (rule ok_call_site[OF r o _ h cc m]) (use fin in auto)
  then show ?thesis
    by (simp only: op_tailcall_def Let_def ok_bind ok_reg ok_step(4) Protect_def ok_modify)
qed

end
