(* ===== verification/VMSafe.thy ===== *)
theory VMSafe
  imports VMEnter
begin

text \<open>
  The interpreter as a whole: each turn of the loop keeps the invariant of the running frames, so that a call from
  a well-formed state never meets undefined behaviour and returns with the caller's frames as they were.
\<close>

subsection \<open>The generic \<open>for\<close>\<close>

lemma step_tforloop:
  assumes r: "running L0 f n ci fs cl p h pc L" and o: "GET_OPCODE (instr p pc) = op_num OP_TFORLOOP" and cc: "caller_ok call"
  shows "ok (op_tforloop call p (pc + 1) (instr p pc)) (goes L0 f n (int (length (ci # fs))) cl) L"
proof -
  let ?A = "GETARG_A (instr p pc)" and ?C = "GETARG_C (instr p pc)" and ?Q = "goes L0 f n (int (length (ci # fs))) cl"
  let ?ra = "l_base L + ?A"
  note d = running_D[OF r] and a = running_at[OF r o] and g = running_D(2)[OF r]
  note tf = at_op_tforloop[OF a] and A = at_op_args(1)[OF a]
  have ct: "ci_top ci = l_base L + maxreg p" "l_base L + maxreg p \<le> stack_last L + 2" using d(6,9) by (auto simp: in_frame_def)
  have nb: "OP_TFORLOOP \<notin> {OP_CALL, OP_TAILCALL, OP_RETURN, OP_SETLIST} \<or> GETARG_B (instr p pc) \<noteq> 0" by simp
  note tp = running_closed[OF r o nb]
  have nil: "ok (cond_jump p (pc + 1) b) ?Q L'" if "after (L\<lparr>savedpc := pc + 1\<rparr>) L'" for L' b
    by (rule ok_cond_jump[OF a]) (use continues(1)[OF r o nb _ _ that] in auto)
  have call: "ok (call (?ra + 3) ?C) (\<lambda>_. ok top_to_ci (\<lambda>_. ok (reg (?A + 3)) (\<lambda>cb. ok (get_s cb) (\<lambda>v. ok
        (if v \<noteq> LNil then thenX (set_s (cb - 1) v) (cond_jump p (pc + 1) True) else cond_jump p (pc + 1) False) ?Q)))) L1"
    if L1: "good L1" "keeps (L\<lparr>savedpc := pc + 1\<rparr>) L1" "l_top L1 = ?ra + 6" for L1
  proof (rule ok_call[OF cc L1(1)])
    have b: "l_base L1 = l_base L" "stack_last L \<le> stack_last L1" "levels L1 \<subseteq> levels L" "stacksize L \<le> stacksize L1"
      using L1(2) by (simp_all add: keeps_def stack_last_def)
    have pc: "pc_ok (L\<lparr>savedpc := pc + 1\<rparr>)"
      using ready_running[OF r o nb, of "pc + 1"] at_opD(3,4)[OF a] by (simp add: ready_def)
    show "pc_ok L1" by (rule pc_ok_keeps[OF good_savedpc[OF g] L1(2) pc])
    show "i < ?ra + 3" if "i \<in> levels L1" for i
      using that b(3) d(7)[of i] d(9) running_flow(7)[OF r o] by force
    show "l_base L1 \<le> ?ra + 3" "?ra + 3 < l_top L1" using A b L1(3) by simp_all
    show "- 1 \<le> ?C" "?ra + 3 + ?C \<le> stack_last L1 + 2" using tf ct b by simp_all
    fix L2 assume L2: "good L2" "keeps L1 L2"
    have k: "keeps (L\<lparr>savedpc := pc + 1\<rparr>) L2" by (rule keeps_trans[OF L1(2) L2(2)])
    have ne: "l_ci (L\<lparr>savedpc := pc + 1\<rparr>) \<noteq> []" using d(11) by simp
    obtain ci' rest where l: "l_ci L2 = ci' # rest" using keeps_hd(4)[OF k ne] by (cases "l_ci L2") auto
    have t: "ci_top ci' = ci_top ci" using keeps_hd(2)[OF k ne] l d(12) by simp
    have b2: "l_base L2 = l_base L" "stack_last L \<le> stack_last L2" "stacksize L \<le> stacksize L2"
      using k by (simp_all add: keeps_def stack_last_def)
    have "0 \<le> maxreg p" by (simp add: maxreg_def)
    then have "good (L2\<lparr>l_top := ci_top ci\<rparr>) \<and> keeps L2 (L2\<lparr>l_top := ci_top ci\<rparr>)"
      by (intro good_top[OF L2(1)]) (use ct b2 in auto)
    then have a3: "after (L\<lparr>savedpc := pc + 1\<rparr>) (L2\<lparr>l_top := ci_top ci\<rparr>)"
      using keeps_trans[OF k] tp by (simp add: after_def)
    have g3: "good (L2\<lparr>l_top := ci_top ci\<rparr>)" by (rule after_good[OF a3])
    have st: "?ra + 3 < stacksize L" using tf ct by (simp add: stack_last_def EXTRA_STACK_def)
    have "ok (get_s (?ra + 3)) (\<lambda>v. ok
        (if v \<noteq> LNil then thenX (set_s (?ra + 2) v) (cond_jump p (pc + 1) True) else cond_jump p (pc + 1) False) ?Q) (L2\<lparr>l_top := ci_top ci\<rparr>)"
    proof (rule ok_get_value[OF g3])
      fix v assume v: "value_ok (L2\<lparr>l_top := ci_top ci\<rparr>) v"
      have "ok (set_s (?ra + 2) v) (\<lambda>_. ok (cond_jump p (pc + 1) True) ?Q) (L2\<lparr>l_top := ci_top ci\<rparr>)"
      proof (rule ok_set_above[OF g3 _ _ v])
        show "ok (cond_jump p (pc + 1) True) ?Q L3" if "after (L2\<lparr>l_top := ci_top ci\<rparr>) L3" for L3
          by (rule nil[OF after_trans[OF a3 that]])
      qed (use A st b2 in auto)
      then show "ok (if v \<noteq> LNil then thenX (set_s (?ra + 2) v) (cond_jump p (pc + 1) True) else cond_jump p (pc + 1) False) ?Q (L2\<lparr>l_top := ci_top ci\<rparr>)"
        using nil[OF a3] by (simp add: ok_bind)
    qed (use A st b2 goodD(8)[OF g] in auto)
    moreover have "l_base (L2\<lparr>l_top := ci_top ci\<rparr>) + (?A + 3) = ?ra + 3" "?ra + 3 - 1 = ?ra + 2" by (simp_all add: b2(1))
    ultimately show "ok top_to_ci (\<lambda>_. ok (reg (?A + 3)) (\<lambda>cb. ok (get_s cb) (\<lambda>v. ok
        (if v \<noteq> LNil then thenX (set_s (cb - 1) v) (cond_jump p (pc + 1) True) else cond_jump p (pc + 1) False) ?Q))) L2"
      by (simp only: ok_top_to_ci[OF l] ok_reg t)
  qed
  have copies: "ok (copy_s (?ra + 5) (?ra + 2)) (\<lambda>_. ok (copy_s (?ra + 4) (?ra + 1)) (\<lambda>_. ok (copy_s (?ra + 3) ?ra) (\<lambda>_.
      ok (set_top (?ra + 6)) (\<lambda>_. ok (Protect (pc + 1) (call (?ra + 3) ?C)) Q)))) L"
    if Q: "\<And>L1. good L1 \<Longrightarrow> keeps (L\<lparr>savedpc := pc + 1\<rparr>) L1 \<Longrightarrow> l_top L1 = ?ra + 6 \<Longrightarrow> ok (call (?ra + 3) ?C) Q L1" for Q
  proof -
    have st: "?ra + 5 < stacksize L" using tf ct by (simp add: stack_last_def EXTRA_STACK_def)
    have base: "0 < l_base L" by (rule goodD(8)[OF g])
    show ?thesis
    proof (rule ok_copy_above[OF g])
      fix L1 assume a1: "after L L1" "l_ci L1 = l_ci L"
      note d1 = after_dims[OF d(11) a1(1)]
      show "ok (copy_s (?ra + 4) (?ra + 1)) (\<lambda>_. ok (copy_s (?ra + 3) ?ra) (\<lambda>_.
      ok (set_top (?ra + 6)) (\<lambda>_. ok (Protect (pc + 1) (call (?ra + 3) ?C)) Q))) L1"
      proof (rule ok_copy_above[OF after_good[OF a1(1)]])
        fix L2 assume a2: "after L1 L2" "l_ci L2 = l_ci L1"
        note a02 = after_trans[OF a1(1) a2(1)]
        note d2 = after_dims[OF d(11) a02]
        show "ok (copy_s (?ra + 3) ?ra) (\<lambda>_. ok (set_top (?ra + 6)) (\<lambda>_. ok (Protect (pc + 1) (call (?ra + 3) ?C)) Q)) L2"
        proof (rule ok_copy_above[OF after_good[OF a2(1)]])
          fix L3 assume a3: "after L2 L3" "l_ci L3 = l_ci L2"
          note a03 = after_trans[OF a02 a3(1)]
          note d3 = after_dims[OF d(11) a03]
          have as: "after (L\<lparr>savedpc := pc + 1\<rparr>) (L3\<lparr>savedpc := pc + 1\<rparr>)"
            by (rule after_savedpc[OF a03]) (simp add: a3(2) a2(2) a1(2))
          have eq: "L3\<lparr>l_top := ?ra + 6, savedpc := pc + 1\<rparr> = L3\<lparr>savedpc := pc + 1, l_top := ?ra + 6\<rparr>" by simp
          have sl: "stack_last L \<le> stack_last L3" using d3(2) by (simp add: stack_last_def)
          have "good (L3\<lparr>savedpc := pc + 1, l_top := ?ra + 6\<rparr>) \<and> keeps (L3\<lparr>savedpc := pc + 1\<rparr>) (L3\<lparr>savedpc := pc + 1, l_top := ?ra + 6\<rparr>)"
            by (rule good_top[OF after_good[OF as]]) (use A d3 sl tf ct in auto)
          then have "ok (call (?ra + 3) ?C) Q (L3\<lparr>savedpc := pc + 1, l_top := ?ra + 6\<rparr>)"
            by (intro Q) (use keeps_trans[OF after_keeps[OF as]] in auto)
          then show "ok (set_top (?ra + 6)) (\<lambda>_. ok (Protect (pc + 1) (call (?ra + 3) ?C)) Q) L3"
            by (simp only: ok_simps(10) ok_step(4) eq)
        qed (use A st base d2 in auto)
      qed (use A st base d1 in auto)
    qed (use A st base in auto)
  qed
  show ?thesis
    using copies[OF call] by (simp only: op_tforloop_def ok_bind ok_reg)
qed

subsection \<open>One turn of the loop\<close>

lemma step_ok:
  assumes r: "going L0 f n k cl pc L" and h: "host_ok E" and cc: "caller_ok call" and E: "collates E"
  shows "ok (vm_step E call cl pc k) (goes L0 f n k cl) L"
proof -
  obtain ci fs p hh where rr: "running L0 f n ci fs cl p hh pc L" and k: "k = int (length (ci # fs))"
    using r unfolding going_def by blast
  note d = running_D[OF rr]
  obtain env us where c: "closures L cl = Some (LClosure env p us)" using d(5) by (auto simp: runs_def)
  have pc: "0 \<le> pc" "pc < p_sizecode p" using d(6) visited_nonneg by (auto simp: in_frame_def)
  have "checked_at p pc"
    using checkcode_True(2)[OF code_okD(1)[OF running_code[OF rr]]] d(6) by (auto simp: in_frame_def)
  then obtain op where o: "GET_OPCODE (instr p pc) = op_num op"
    by (auto simp: instr_def elim!: checked_atD)
  have dec: "decode_op (GET_OPCODE (instr p pc)) = Some op" using o decode_op_Some by blast
  have "ok (exec_op E call env p us (pc + 1) (int (length (ci # fs))) (instr p pc) op) (goes L0 f n (int (length (ci # fs))) cl) L"
  proof (cases op)
    case OP_CALL then show ?thesis using step_call[OF rr _ h cc] o by (simp add: exec_op_def)
  next
    case OP_TAILCALL then show ?thesis using step_tailcall[OF rr _ h cc] o by (simp add: exec_op_def)
  next
    case OP_RETURN then show ?thesis using step_return[OF rr] o by (simp add: exec_op_def)
  next
    case OP_TFORLOOP then show ?thesis using step_tforloop[OF rr _ cc] o by (simp add: exec_op_def)
  next
    case OP_FORLOOP then show ?thesis using step_forloop[OF rr] o by (simp add: exec_op_def)
  next
    case OP_FORPREP then show ?thesis using step_forprep[OF rr _ cc] o by (simp add: exec_op_def)
  next
    case OP_SETLIST then show ?thesis using step_setlist[OF rr] o by (simp add: exec_op_def)
  next
    case OP_CLOSE then show ?thesis using step_close[OF rr] o by (simp add: exec_op_def)
  next
    case OP_CLOSURE then show ?thesis using step_closure[OF rr _ c] o by (simp add: exec_op_def)
  next
    case OP_VARARG then show ?thesis using step_vararg[OF rr] o by (simp add: exec_op_def)
  qed (use step_move[OF rr o] step_upval[OF rr o] step_table[OF rr o _ cc c] step_arith[OF rr o _ cc] step_test[OF rr o _ cc E] c
       in \<open>simp_all add: exec_op_def\<close>)
  then show ?thesis
    using c pc dec by (simp add: vm_step_def ok_bind ok_heap ok_step instr_def k)
qed

lemma loop_ok:
  assumes "going L0 f n k cl pc L" "host_ok E" "caller_ok call" "collates E"
  shows "ok (vm_loop fuel E call cl pc k) (\<lambda>_. returned L0 f n) L"
  using assms(1)
proof (induction fuel arbitrary: k cl pc L)
  case 0
  then show ?case by (simp add: ok_simps)
next
  case (Suc fuel)
  have "ok (vm_step E call cl pc k) (\<lambda>r. ok (case r of
     Continue pc' \<Rightarrow> vm_loop fuel E call cl pc' k
   | Reentry n \<Rightarrow> bindX reenter (\<lambda>(cl', pc'). vm_loop fuel E call cl' pc' n)
   | Return_here \<Rightarrow> ret ()) (\<lambda>_. returned L0 f n)) L"
  proof (rule ok_mono[OF step_ok[OF Suc.prems assms(2-4)]])
    fix r L' assume g: "goes L0 f n k cl r L'"
    show "ok (case r of
     Continue pc' \<Rightarrow> vm_loop fuel E call cl pc' k
   | Reentry n \<Rightarrow> bindX reenter (\<lambda>(cl', pc'). vm_loop fuel E call cl' pc' n)
   | Return_here \<Rightarrow> ret ()) (\<lambda>_. returned L0 f n) L'"
    proof (cases r)
      case (Continue pc')
      then show ?thesis using Suc.IH g by (simp add: goes_def)
    next
      case (Reentry k')
      then obtain cl' where go: "going L0 f n k' cl' (savedpc L') L'" using g by (auto simp: goes_def)
      then obtain ci fs p h where rr: "running L0 f n ci fs cl' p h (savedpc L') L'" by (auto simp: going_def)
      note d = running_D[OF rr]
      have "0 \<le> ci_func ci" "ci_func ci < stacksize L'" using d(9,10,14) goodD(5,10)[OF d(2)] by auto
      moreover obtain rest where "l_ci L' = ci # rest" using d(11,12) by (cases "l_ci L'") auto
      ultimately show ?thesis
        using Suc.IH[OF go] d(5) Reentry by (simp add: reenter_def ok_bind ok_simps runs_def)
    next
      case Return_here
      then show ?thesis using g by (simp add: ok_simps goes_def)
    qed
  qed
  then show ?case by (simp add: ok_bind)
qed

subsection \<open>Calls\<close>

lemma execute_ok:
  assumes r: "running L0 f n ci [] a p hh 0 L" "savedpc L = 0" and E: "host_ok E" "caller_ok call" "collates E"
  shows "ok (luaV_execute fuel E call 1) (\<lambda>_. returned L0 f n) L"
proof -
  note d = running_D[OF r(1)]
  have "going L0 f n 1 a 0 L" unfolding going_def by (intro exI conjI, rule r(1)) simp
  then have l: "ok (vm_loop fuel E call a 0 1) (\<lambda>_. returned L0 f n) L" by (rule loop_ok[OF _ E])
  have "0 \<le> ci_func ci" "ci_func ci < stacksize L" using d(9,10,14) goodD(5,10)[OF d(2)] by auto
  moreover obtain rest where "l_ci L = ci # rest" using d(11,12) by (cases "l_ci L") auto
  ultimately show ?thesis
    using l d(5) r(2) by (simp add: luaV_execute_def reenter_def ok_bind ok_simps runs_def)
qed

lemma call_by_ok:
  assumes h: "host_ok E" and cc: "caller_ok call" and E: "collates E"
    and g: "good L" "pc_ok L" and b: "l_base L \<le> func" "func < l_top L" "\<And>i. i \<in> levels L \<Longrightarrow> i < func"
    and n: "- 1 \<le> n" "func + n \<le> stack_last L + 2"
  shows "ok (luaD_call_by E call (luaV_execute fuel E call) func n) (\<lambda>_. returned L func n) L"
proof -
  define L1 where "L1 = L\<lparr>nCcalls := nCcalls L + 1\<rparr>"
  have a1: "after L L1" using good_nCcalls(1)[OF g(1)] by (simp add: L1_def)
  have s1: "l_base L1 = l_base L" "l_top L1 = l_top L" "levels L1 = levels L" "stack_last L1 = stack_last L"
    by (simp_all add: L1_def)
  have "pc_ok L1" by (rule pc_ok_keeps[OF g(1) after_keeps[OF a1] g(2)])
  then have c: "calling L1 func n L1" using after_good[OF a1] b n s1 by (simp add: calling_def)
  have call: "ok (luaD_precall E call func n) (\<lambda>r. ok (if r = PCRLUA then luaV_execute fuel E call 1 else ret ())
      (\<lambda>_. ok (modify (\<lambda>L. L\<lparr>nCcalls := nCcalls L - 1\<rparr>)) (\<lambda>_. returned L func n))) L1"
  proof (rule ok_precall[OF h cc c])
    fix r L2 assume p: "precalled L1 func n r L2"
    have fin: "ok (modify (\<lambda>L. L\<lparr>nCcalls := nCcalls L - 1\<rparr>)) (\<lambda>_. returned L func n) L3" if r3: "returned L1 func n L3" for L3
    proof -
      have a: "after L3 (L3\<lparr>nCcalls := nCcalls L3 - 1\<rparr>)" using r3 by (intro good_nCcalls) (simp add: returned_def)
      have "keeps L (L3\<lparr>nCcalls := nCcalls L3 - 1\<rparr>)"
        using keeps_trans[OF keeps_trans[OF after_keeps[OF a1]] after_keeps[OF a]] r3 by (simp add: returned_def)
      then show ?thesis using r3 after_good[OF a] by (simp add: returned_def ok_simps(3))
    qed
    show "ok (if r = PCRLUA then luaV_execute fuel E call 1 else ret ())
      (\<lambda>_. ok (modify (\<lambda>L. L\<lparr>nCcalls := nCcalls L - 1\<rparr>)) (\<lambda>_. returned L func n)) L2"
    proof (cases r)
      case PCRLUA
      then obtain ci a q hh where "running L1 func n ci [] a q hh 0 L2" "savedpc L2 = 0" using p by (auto simp: precalled_def)
      then have "ok (luaV_execute fuel E call 1) (\<lambda>_. returned L1 func n) L2" by (rule execute_ok[OF _ _ h cc E])
      then have "ok (luaV_execute fuel E call 1) (\<lambda>_. ok (modify (\<lambda>L. L\<lparr>nCcalls := nCcalls L - 1\<rparr>)) (\<lambda>_. returned L func n)) L2"
        by (rule ok_mono) (rule fin)
      then show ?thesis using PCRLUA by simp
    qed (use p fin in \<open>simp_all add: precalled_def ok_simps(1)\<close>)
  qed
  have er: "ok (luaG_runerror E call msg :: unit exec) Q L1" for msg Q by (rule ok_runerror[OF callingD(10)[OF c] cc])
  have "good L1" by (rule after_good[OF a1])
  then have "ok (if int LUAI_MAXCCALLS \<le> nCcalls L1
              then if nCcalls L1 = int LUAI_MAXCCALLS then luaG_runerror E call ''C stack overflow''
                   else if int (LUAI_MAXCCALLS + LUAI_MAXCCALLS div 8) \<le> nCcalls L1 then luaD_throw LUA_ERRERR
                   else ret () else ret ())
       (\<lambda>_. ok (luaD_precall E call func n) (\<lambda>r. ok (if r = PCRLUA then luaV_execute fuel E call 1 else ret ())
      (\<lambda>_. ok (modify (\<lambda>L. L\<lparr>nCcalls := nCcalls L - 1\<rparr>)) (\<lambda>_. returned L func n)))) L1"
    using er call by (simp add: ok_simps(1,7))
  then show ?thesis
    by (simp only: luaD_call_by_def ok_bind ok_modify ok_simps(2) L1_def)
qed

lemma call_ok:
  assumes "host_ok E" "collates E" shows "caller_ok (luaD_call fuel E)"
proof (induction fuel)
  case 0
  then show ?case by (simp add: caller_ok_def ok_simps)
next
  case (Suc fuel)
  show ?case
    unfolding caller_ok_def luaD_call.simps
    using call_by_ok[OF assms(1) Suc assms(2)] unfolding returned_def by blast
qed

end
