(* ===== verification/VMSound.thy ===== *)
theory VMSound
  imports VMSafe
begin

text \<open>
  The theorem on the interpreter, and a state it applies to: a C function that has put a Lua function of two instructions on
  the stack and calls it.
\<close>

subsection \<open>Type soundness\<close>


definition example_gstate :: gstate where
  "example_gstate = \<lparr>strt_hash = [[\<lparr>so_ts = \<lparr>ts_addr = 9, ts_hash = luaS_hash ''x'', ts_str = ''x''\<rparr>,
       so_marked = 1, so_reserved = 0\<rparr>]], strt_nuse = 1, gcstate = GCSpause, currentwhite = 1, allocs = [20, 21, 22]\<rparr>"

definition empty_table :: Table where
  "empty_table = \<lparr>flags = NOT 0, lsizenode = 0, metatable = 0, array = [], node = None, lastfree = 0, sizearray = 0\<rparr>"

definition example_L :: lua_State where
  "example_L = \<lparr>stack = LNil # LFunction 2 # LBoolean 1 # replicate 37 LNil, l_top = 3, l_base = 1,
     l_ci = [\<lparr>ci_base = 1, ci_func = 0, ci_top = 21, ci_savedpc = 0, ci_nresults = 0, ci_tailcalls = 0\<rparr>],
     savedpc = 0, size_ci = 8, nCcalls = 0, openupval = [], errfunc = 0, l_G = example_gstate, l_mt = replicate 9 0,
     tmname = replicate 17 \<lparr>ts_addr = 9, ts_hash = luaS_hash ''x'', ts_str = ''x''\<rparr>, uvhead = [],
     tables = [3 \<mapsto> empty_table], closures = [2 \<mapsto> LClosure 3 (two_instructions 0) []], upvals = (\<lambda>_. None),
     udatas = (\<lambda>_. None), tv_limit = 1000000\<rparr>"

text \<open>A C function that makes room for one more value with \<open>lua_checkstack\<close> and returns nothing.\<close>

definition example_function :: "int exec" where
  "example_function = thenX (luaD_checkstack 1) (thenX (modify (\<lambda>L. L\<lparr>l_ci := (case l_ci L of [] \<Rightarrow> []
     | ci # frs \<Rightarrow> ci\<lparr>ci_top := max (ci_top ci) (l_top L + 1)\<rparr> # frs)\<rparr>)) (ret 0))"

definition example_env :: vm_env where
  "example_env = \<lparr>c_function = (\<lambda>call f. example_function), str2number = (\<lambda>s. (0, 0)), strtoul16 = (\<lambda>s. (0, 0)), number2str = (\<lambda>x. []),
     numpow = (\<lambda>a b. a), strcoll = (\<lambda>a b. if a = b then 0 else 1), pun = (\<lambda>v. 0)\<rparr>"

lemma good_ci_top:
  assumes g: "good L" and l: "l_ci L = ci # frs"
  shows "good (L\<lparr>l_ci := ci\<lparr>ci_top := t\<rparr> # frs\<rparr>)"
proof -
  have "frames_ok (ci\<lparr>ci_top := t\<rparr> # frs)" using goodD(3)[OF g] l by (cases frs) auto
  then show ?thesis using g l by (auto simp: good_def heap_ok_misc stack_ok_misc)
qed

lemma example_env_ok: "host_ok example_env" "collates example_env"
proof -
  show "collates example_env" by (auto simp: collates_def example_env_def)
  show "host_ok example_env"
    unfolding host_ok_def
  proof (intro allI impI)
    fix call f and L :: lua_State
    assume g: "good L"
    have "ok example_function (\<lambda>r L'. good L' \<and> host_keeps L L' \<and> 0 \<le> r \<and> l_base L' \<le> l_top L' - r) L"
      unfolding example_function_def ok_bind
    proof (rule ok_checkstack[OF g])
      fix L1 assume a: "after L L1"
      note g1 = after_good[OF a] and k = after_keeps[OF a]
      obtain ci frs where l: "l_ci L = ci # frs" using goodD(12)[OF g] by (cases "l_ci L") auto
      then obtain ci1 where l1: "l_ci L1 = ci1 # frs" "shape ci1 = shape ci"
        using k by (auto simp: keeps_def elim: same_frames_Cons)
      let ?L2 = "L1\<lparr>l_ci := ci1\<lparr>ci_top := max (ci_top ci1) (l_top L1 + 1)\<rparr> # frs\<rparr>"
      have "extends L ?L2" by (rule extends_trans[of _ L1]) (use k in \<open>simp_all add: keeps_def\<close>)
      then have "host_keeps L ?L2"
        using k l shape_fields[OF l1(2)] by (simp add: host_keeps_def keeps_def)
      then show "ok (modify (\<lambda>L. L\<lparr>l_ci := (case l_ci L of [] \<Rightarrow> [] | ci # frs \<Rightarrow> ci\<lparr>ci_top := max (ci_top ci) (l_top L + 1)\<rparr> # frs)\<rparr>))
          (\<lambda>_. ok (ret 0) (\<lambda>r L'. good L' \<and> host_keeps L L' \<and> 0 \<le> r \<and> l_base L' \<le> l_top L' - r)) L1"
        using good_ci_top[OF g1 l1(1)] goodD(5)[OF g1] l1(1) by (simp add: ok_simps(1) ok_modify)
    qed simp
    then show "ok (c_function example_env call f) (\<lambda>r L'. good L' \<and> host_keeps L L' \<and> 0 \<le> r \<and> l_base L' \<le> l_top L' - r) L"
      by (simp add: example_env_def)
  qed
qed

lemma example_gstate_ok: "strt_wf example_gstate"
  "interned example_gstate = {\<lparr>ts_addr = 9, ts_hash = luaS_hash ''x'', ts_str = ''x''\<rparr>}"
proof -
  have o: "strt_objs example_gstate = [\<lparr>so_ts = \<lparr>ts_addr = 9, ts_hash = luaS_hash ''x'', ts_str = ''x''\<rparr>, so_marked = 1, so_reserved = 0\<rparr>]"
    by (simp add: strt_objs_def example_gstate_def)
  then show i: "interned example_gstate = {\<lparr>ts_addr = 9, ts_hash = luaS_hash ''x'', ts_str = ''x''\<rparr>}"
    by (simp add: interned_def)
  have "\<exists>k\<le>30. length (strt_hash example_gstate) = 2 ^ k" by (rule exI[of _ 0]) (simp add: example_gstate_def)
  moreover have "bucketed (strt_hash example_gstate)" by (simp add: bucketed_def example_gstate_def lmod_def)
  ultimately show "strt_wf example_gstate"
    using o i by (simp add: strt_wf_def allocs_fresh_def) (simp add: example_gstate_def)
qed

lemma example_code_ok: "code_ok I (two_instructions 0)"
proof -
  have c: "luaG_checkcode (two_instructions 0) = Inr True" by (rule two_instructions_accepted) (simp_all add: maxarg_defs)
  have n: "vm_next (two_instructions 0) 0 = {1}" "vm_next (two_instructions 0) 1 = {}"
    by (simp_all add: vm_next_def two_instructions_def two_instructions_fields two_instructions_ops maxarg_defs Let_def)
  have at: "pc = 0 \<and> op = OP_LOADBOOL \<or> pc = 1 \<and> op = OP_RETURN" if "opcode_at (two_instructions 0) pc op" for pc op
  proof -
    have "pc = 0 \<or> pc = 1" using that by (auto simp: opcode_at_def p_sizecode_def two_instructions_def)
    then show ?thesis
      using that op_num_inject[of op OP_LOADBOOL] op_num_inject[of op OP_RETURN]
      by (auto simp: opcode_at_def instr_def two_instructions_def two_instructions_fields maxarg_defs)
  qed
  have "closes (two_instructions 0) (\<lambda>_. 0)"
    using at by (auto simp: closes_def captures_def maxreg_def two_instructions_def)
  moreover have "tight_instr (two_instructions 0) pc" for pc
  proof -
    have "GETARG_C (instr (two_instructions 0) 0) = 0" by (simp add: instr_def two_instructions_def two_instructions_fields maxarg_defs)
    then show ?thesis unfolding tight_instr_def producer_def using at by fastforce
  qed
  ultimately have "tight (two_instructions 0)" by (auto simp: tight_def two_instructions_def)
  then show ?thesis using c by (simp add: two_instructions_def)
qed

lemma example_table_ok:
  assumes "inj_on ts_addr I" shows "table_wf I empty_table" "lookup empty_table k = LNil"
proof -
  obtain t where t: "luaH_new 0 0 = Inr t" "table_wf I t" "\<forall>k. lookup t k = LNil"
    using luaH_new_cases[OF assms, of 0 0] by (auto simp: MAXASIZE_def)
  have "t = empty_table"
    using t(1) by (auto simp: luaH_new_def setnodevector_def setarrayvector_def bindR_def empty_table_def Let_def luaM_toobig_def split: if_splits)
  then show "table_wf I empty_table" "lookup empty_table k = LNil" using t by auto
qed

lemma example_good: "good example_L" "pc_ok example_L" "levels example_L = {}"
proof -
  have lG: "l_G example_L = example_gstate" by (simp add: example_L_def)
  have inj: "inj_on ts_addr (strs example_L)" by (simp add: lG example_gstate_ok)
  have cl: "closure_ok example_L (LClosure 3 (two_instructions 0) [])"
    using example_code_ok by (simp add: closure_ok_def example_L_def) (simp add: two_instructions_def)
  show lv: "levels example_L = {}" by (simp add: levels_def example_L_def)
  have "table_ok example_L empty_table"
    using example_table_ok[OF inj] by (simp add: table_ok_def meta_ok_def) (simp add: empty_table_def)
  then have h: "heap_ok example_L"
    unfolding heap_ok_def
  proof (intro conjI)
    show "strt_wf (l_G example_L)" by (simp add: lG example_gstate_ok)
    show "fresh_objects example_L" by (simp add: fresh_objects_def example_L_def example_gstate_def)
    show "\<forall>h t. tables example_L h = Some t \<longrightarrow> table_ok example_L t" if "table_ok example_L empty_table"
      using that by (simp add: example_L_def)
    show "set (tmname example_L) \<subseteq> strs example_L" by (simp add: lG example_gstate_ok) (simp add: example_L_def)
  qed (simp_all add: example_L_def meta_ok_def TM_N_def)
  have st: "stacksize example_L = 40" by (simp add: stacksize_def example_L_def)
  have "\<forall>v\<in>set (stack example_L). value_ok example_L v"
    using cl by (auto simp: example_L_def)
  then have "stack_ok example_L"
    using st lv by (simp add: stack_ok_def open_list_def EXTRA_STACK_def) (simp add: example_L_def)
  then show "good example_L"
    using h lv st by (simp add: good_def stack_last_def EXTRA_STACK_def) (simp add: example_L_def)
  show "pc_ok example_L" by (simp add: pc_ok_def running_func_def example_L_def)
qed


end
