(* ===== verification/VMLaws.thy ===== *)
theory VMLaws
  imports VMSound
begin

text \<open>
  What two pieces of the interpreter compute: the results a function leaves for its caller, and the upvalues that
  closures share and that outlive their slot of the stack.
\<close>

subsection \<open>Results\<close>

lemma nth_nat_update:
  assumes "0 \<le> i" "i < int (length xs)"
  shows "0 \<le> j \<Longrightarrow> xs[nat i := v] ! nat j = (if j = i then v else xs ! nat j)"
  using assms by (simp add: nth_list_update nat_eq_iff)

definition moved :: "int \<Rightarrow> int \<Rightarrow> int \<Rightarrow> TValue list \<Rightarrow> TValue list \<Rightarrow> bool" where
  "moved k res first s s' = (length s' = length s
     \<and> (\<forall>j\<ge>0. s' ! nat j = (if res \<le> j \<and> j < res + k then s ! nat (first + (j - res)) else s ! nat j)))"

lemma move_results_run:
  assumes "0 \<le> res" "res \<le> first" "first + int n \<le> stacksize L"
  shows "\<exists>s. move_results n i res first L
       = Inr ((i - (if 0 \<le> i then min i (int n) else int n), res + (if 0 \<le> i then min i (int n) else int n)), L\<lparr>stack := s\<rparr>)
     \<and> moved (if 0 \<le> i then min i (int n) else int n) res first (stack L) s"
  using assms
proof (induction n arbitrary: i res first L)
  case 0
  then show ?case by (intro exI[of _ "stack L"]) (simp add: ret_def moved_def)
next
  case (Suc n)
  show ?case
  proof (cases "i = 0")
    case True
    then show ?thesis by (intro exI[of _ "stack L"]) (simp add: ret_def moved_def)
  next
    case False
    define L1 where "L1 = L\<lparr>stack := (stack L)[nat res := stack L ! nat first]\<rparr>"
    define k where "k = (if 0 \<le> i - 1 then min (i - 1) (int n) else int n)"
    have sz: "stacksize L1 = stacksize L" by (simp add: L1_def)
    obtain s where s: "move_results n (i - 1) (res + 1) (first + 1) L1 = Inr ((i - 1 - k, res + 1 + k), L1\<lparr>stack := s\<rparr>)"
      "moved k (res + 1) (first + 1) (stack L1) s"
      using Suc.IH[of "res + 1" "first + 1" L1 "i - 1"] Suc.prems sz unfolding k_def by auto
    have k: "(if 0 \<le> i then min i (int (Suc n)) else int (Suc n)) = k + 1" using False by (auto simp: k_def)
    have cp: "copy_s res first L = Inr ((), L1)"
      using Suc.prems by (simp add: copy_s_def bindX_def get_s_def set_s_def L1_def)
    have upd: "stack L1 ! nat j = (if j = res then stack L ! nat first else stack L ! nat j)" if "0 \<le> j" for j
      using that Suc.prems nth_nat_update[of res "stack L" j "stack L ! nat first"] by (simp add: L1_def)
    have "moved (k + 1) res first (stack L) s"
      unfolding moved_def
    proof (intro conjI allI impI)
      show "length s = length (stack L)" using s(2) by (simp add: moved_def L1_def)
      fix j :: int assume j: "0 \<le> j"
      have k0: "0 \<le> k" by (simp add: k_def)
      have sj: "s ! nat j = (if res + 1 \<le> j \<and> j < res + 1 + k then stack L1 ! nat (first + 1 + (j - (res + 1))) else stack L1 ! nat j)"
        using s(2) j by (simp add: moved_def)
      consider "j = res" | "res + 1 \<le> j \<and> j < res + 1 + k" | "j \<noteq> res" "\<not> (res + 1 \<le> j \<and> j < res + 1 + k)" by blast
      then show "s ! nat j = (if res \<le> j \<and> j < res + (k + 1) then stack L ! nat (first + (j - res)) else stack L ! nat j)"
      proof cases
        case 2
        then have "first + 1 + (j - (res + 1)) = first + (j - res)" "0 \<le> first + (j - res)" "first + (j - res) \<noteq> res"
          using Suc.prems(1,2) by auto
        then show ?thesis using sj 2 upd by auto
      qed (use sj upd j k0 in auto)
    qed
    moreover have "move_results (Suc n) i res first L = Inr ((i - (k + 1), res + (k + 1)), L\<lparr>stack := s\<rparr>)"
      using s(1) False cp by (simp add: bindX_def L1_def algebra_simps)
    ultimately show ?thesis unfolding k by blast
  qed
qed

lemma set_nils_run:
  assumes "0 \<le> res" "res + int n \<le> stacksize L"
  shows "\<exists>s. set_nils n res L = Inr ((), L\<lparr>stack := s\<rparr>) \<and> length s = length (stack L)
    \<and> (\<forall>j\<ge>0. s ! nat j = (if res \<le> j \<and> j < res + int n then LNil else stack L ! nat j))"
  using assms
proof (induction n arbitrary: res L)
  case 0
  then show ?case by (intro exI[of _ "stack L"]) (auto simp: ret_def)
next
  case (Suc n)
  define L1 where "L1 = L\<lparr>stack := (stack L)[nat res := LNil]\<rparr>"
  obtain s where s: "set_nils n (res + 1) L1 = Inr ((), L1\<lparr>stack := s\<rparr>)" "length s = length (stack L1)"
    "\<forall>j\<ge>0. s ! nat j = (if res + 1 \<le> j \<and> j < res + 1 + int n then LNil else stack L1 ! nat j)"
    using Suc.IH[of "res + 1" L1] Suc.prems by (auto simp: L1_def)
  have "stack L1 ! nat j = (if j = res then LNil else stack L ! nat j)" if "0 \<le> j" for j
    using that Suc.prems nth_nat_update[of res "stack L" j LNil] by (simp add: L1_def)
  moreover have "set_s res LNil L = Inr ((), L1)" using Suc.prems by (simp add: set_s_def L1_def)
  ultimately show ?case
    using s by (intro exI[of _ s]) (auto simp: bindX_def L1_def)
qed

text \<open>C2. \<open>luaD_poscall\<close> with the results from \<open>first\<close> to the top: the caller's frame is current again, its base and position
  restored; the first results asked for lie where the function was, in order, filled up with nils when there are too few (all of them when
  the caller wants any number), the top is after them, the stack below is as it was, and the answer is 0 exactly for a caller that wants any number.\<close>
theorem poscall_delivers:
  assumes "l_ci L = ci # prev # rest" "0 \<le> ci_func ci" "ci_func ci \<le> first" "first \<le> l_top L" "l_top L \<le> stacksize L"
    "- 1 \<le> ci_nresults ci" "ci_func ci + ci_nresults ci \<le> stacksize L"
  shows "\<exists>L'. luaD_poscall first L = Inr (ci_nresults ci + 1, L') \<and> l_ci L' = prev # rest \<and> l_base L' = ci_base prev
     \<and> savedpc L' = ci_savedpc prev
     \<and> l_top L' = ci_func ci + (if ci_nresults ci = LUA_MULTRET then l_top L - first else ci_nresults ci)
     \<and> (\<forall>i. 0 \<le> i \<and> i < l_top L' - ci_func ci \<longrightarrow>
          stack L' ! nat (ci_func ci + i) = (if first + i < l_top L then stack L ! nat (first + i) else LNil))
     \<and> (\<forall>i. 0 \<le> i \<and> i < ci_func ci \<longrightarrow> stack L' ! nat i = stack L ! nat i)"
proof -
  define L1 where "L1 = L\<lparr>l_ci := prev # rest, l_base := ci_base prev, savedpc := ci_savedpc prev\<rparr>"
  define w n where "w = ci_nresults ci" and "n = nat (l_top L - first)"
  define k where "k = (if 0 \<le> w then min w (int n) else int n)"
  have n: "int n = l_top L - first" using assms(4) by (simp add: n_def)
  obtain s where s: "move_results n w (ci_func ci) first L1 = Inr ((w - k, ci_func ci + k), L1\<lparr>stack := s\<rparr>)"
    "moved k (ci_func ci) first (stack L1) s"
    using move_results_run[of "ci_func ci" first n L1 w] assms(2-5) n unfolding k_def by (auto simp: L1_def)
  have k: "0 \<le> k" "k \<le> int n" "0 \<le> w \<Longrightarrow> k \<le> w" "w < 0 \<Longrightarrow> k = int n" by (auto simp: k_def)
  have len: "stacksize (L1\<lparr>stack := s\<rparr>) = stacksize L" using s(2) by (simp add: moved_def L1_def)
  have fits: "ci_func ci + k + int (nat (w - k)) \<le> stacksize L" using k n assms(3-7) by (auto simp: w_def)
  obtain s' where s': "set_nils (nat (w - k)) (ci_func ci + k) (L1\<lparr>stack := s\<rparr>) = Inr ((), L1\<lparr>stack := s'\<rparr>)"
    "\<forall>j\<ge>0. s' ! nat j = (if ci_func ci + k \<le> j \<and> j < ci_func ci + k + int (nat (w - k)) then LNil else s ! nat j)"
  proof -
    have "\<exists>s'. set_nils (nat (w - k)) (ci_func ci + k) (L1\<lparr>stack := s\<rparr>) = Inr ((), L1\<lparr>stack := s, stack := s'\<rparr>) \<and> length s' = length (stack (L1\<lparr>stack := s\<rparr>))
      \<and> (\<forall>j\<ge>0. s' ! nat j = (if ci_func ci + k \<le> j \<and> j < ci_func ci + k + int (nat (w - k)) then LNil else stack (L1\<lparr>stack := s\<rparr>) ! nat j))"
      by (rule set_nils_run) (use fits len k(1) assms(2) in linarith)+
    moreover have "L1\<lparr>stack := s, stack := s'\<rparr> = L1\<lparr>stack := s'\<rparr>" "stack (L1\<lparr>stack := s\<rparr>) = s" for s' by simp_all
    ultimately show ?thesis using that by metis
  qed
  define L' where "L' = L1\<lparr>stack := s', l_top := ci_func ci + k + max 0 (w - k)\<rparr>"
  have run: "luaD_poscall first L = Inr (w + 1, L')"
    using s(1) s'(1) assms(1)
    by (simp add: luaD_poscall_def bindX_def get_def modify_def set_top_def ret_def LUA_MULTRET_def L1_def n_def w_def L'_def)
  have top: "l_top L' = ci_func ci + (if w = LUA_MULTRET then l_top L - first else w)"
    using k n assms(6) by (auto simp: L'_def LUA_MULTRET_def w_def)
  have old: "s ! nat j = (if ci_func ci \<le> j \<and> j < ci_func ci + k then stack L ! nat (first + (j - ci_func ci)) else stack L ! nat j)" if "0 \<le> j" for j
    using s(2) that by (simp add: moved_def L1_def)
  have res: "stack L' ! nat (ci_func ci + i) = (if first + i < l_top L then stack L ! nat (first + i) else LNil)"
    if i: "0 \<le> i" "i < l_top L' - ci_func ci" for i
  proof (cases "i < k")
    case True
    then show ?thesis using s'(2) old[of "ci_func ci + i"] i assms(2) k n by (simp add: L'_def)
  next
    case False
    then have "0 \<le> w" "i < w" using i(2) k by (auto simp: L'_def)
    moreover from this have "k = min w (int n)" by (simp add: k_def)
    ultimately have "\<not> first + i < l_top L" "ci_func ci + i < ci_func ci + k + int (nat (w - k))" using False n by (auto simp: min_def split: if_splits)
    then show ?thesis using s'(2) i assms(2) False by (simp add: L'_def)
  qed
  have below: "stack L' ! nat i = stack L ! nat i" if i: "0 \<le> i" "i < ci_func ci" for i
    using s'(2) old[of i] i k(1) by (simp add: L'_def)
  show ?thesis
    using run top res below by (intro exI[of _ L']) (auto simp: w_def L'_def L1_def)
qed

theorem poscall_delivers_witness:
  "\<exists>L'. luaD_poscall 3 (example_L\<lparr>l_ci := \<lparr>ci_base = 2, ci_func = 1, ci_top = 21, ci_savedpc = 0, ci_nresults = 2, ci_tailcalls = 0\<rparr>
         # l_ci example_L, l_top := 4\<rparr>) = Inr (3, L') \<and> l_top L' = 3"
  using poscall_delivers[of "example_L\<lparr>l_ci := \<lparr>ci_base = 2, ci_func = 1, ci_top = 21, ci_savedpc = 0, ci_nresults = 2, ci_tailcalls = 0\<rparr>
         # l_ci example_L, l_top := 4\<rparr>" "\<lparr>ci_base = 2, ci_func = 1, ci_top = 21, ci_savedpc = 0, ci_nresults = 2, ci_tailcalls = 0\<rparr>"
       "hd (l_ci example_L)" "[]" 3]
  by (auto simp: example_L_def stacksize_def LUA_MULTRET_def)

subsection \<open>Upvalues\<close>

text \<open>The upvalues at \<open>low\<close> and above get the values of their slots.\<close>

definition closed_above :: "int \<Rightarrow> TValue list \<Rightarrow> (addr \<Rightarrow> UpVal option) \<Rightarrow> addr \<Rightarrow> UpVal option" where
  "closed_above low s us b = (case us b of
     Some (UOpen i) \<Rightarrow> Some (if low \<le> i then UClosed (s ! nat i) else UOpen i) | u \<Rightarrow> u)"

lemma close_upvals_run:
  assumes "open_list (upvals L) ps" "\<And>i. i \<in> levels L \<Longrightarrow> 0 \<le> i \<and> i < stacksize L"
  shows "\<exists>us h. close_upvals low ps L = Inr ((), L\<lparr>upvals := closed_above low (stack L) (upvals L), openupval := us, uvhead := h\<rparr>)
      \<or> close_upvals low ps L = Inr ((), L) \<and> closed_above low (stack L) (upvals L) = upvals L"
  using assms
proof (induction ps arbitrary: L)
  case Nil
  have "upvals L b \<noteq> Some (UOpen i)" for b i using open_listD(1)[OF Nil.prems(1)] by auto
  then have "closed_above low (stack L) (upvals L) = upvals L"
    by (auto simp: closed_above_def fun_eq_iff split: option.splits UpVal.splits)
  then show ?case by (simp add: ret_def)
next
  case (Cons uv ps)
  obtain i where i: "upvals L uv = Some (UOpen i)" "\<forall>b\<in>set ps. \<exists>j. upvals L b = Some (UOpen j) \<and> j < i"
    "uv \<notin> set ps" "open_list ((upvals L)(uv := None)) ps"
    using Cons.prems(1) unfolding open_list_Cons by blast
  have b: "0 \<le> i" "i < stacksize L" using Cons.prems(2)[of i] i(1) by (auto simp: levels_def)
  have lev: "upval_level (upvals L) uv = Some i" using i(1) by (simp add: upval_level_def)
  show ?case
  proof (cases "low \<le> i")
    case True
    define L1 where "L1 = L\<lparr>openupval := ps, uvhead := remove1 uv (uvhead L), upvals := (upvals L)(uv \<mapsto> UClosed (stack L ! nat i))\<rparr>"
    have run: "close_upvals low (uv # ps) L = close_upvals low ps L1"
      using True lev b
      by (simp add: bindX_def get_def the_def_def ret_def modify_def unlinkupval_def get_s_def L1_def stacksize_def del: length_stack)
    have ol: "open_list (upvals L1) ps"
    proof (rule open_list_cong[OF i(4)])
      show "upvals L1 b = ((upvals L)(uv := None)) b" if "b \<in> set ps" for b using that i(3) by (auto simp: L1_def)
      show "b \<in> set ps" if "upvals L1 b = Some (UOpen j)" for b j
        using that open_listD(1)[OF i(4), of b j] by (auto simp: L1_def split: if_splits)
    qed
    have lv: "j \<in> levels L" if "j \<in> levels L1" for j using that by (auto simp: levels_def L1_def split: if_splits)
    have eq: "closed_above low (stack L1) (upvals L1) = closed_above low (stack L) (upvals L)"
      using True i(1) by (auto simp: closed_above_def L1_def fun_eq_iff)
    have "stacksize L1 = stacksize L" by (simp add: L1_def stacksize_def del: length_stack)
    then consider us h where "close_upvals low ps L1 = Inr ((), L1\<lparr>upvals := closed_above low (stack L) (upvals L), openupval := us, uvhead := h\<rparr>)"
      | "close_upvals low ps L1 = Inr ((), L1)" "closed_above low (stack L) (upvals L) = upvals L1"
      using Cons.IH[OF ol] Cons.prems(2) lv eq by auto
    then show ?thesis
    proof cases
      case (1 us h)
      then show ?thesis unfolding run by (intro exI[of _ us] exI[of _ h] disjI1) (simp add: L1_def)
    next
      case 2
      show ?thesis
        unfolding run by (rule exI[of _ ps], rule exI[of _ "remove1 uv (uvhead L)"], rule disjI1) (simp add: 2, simp add: L1_def)
    qed
  next
    case False
    have run: "close_upvals low (uv # ps) L = Inr ((), L)"
      using False lev by (simp add: bindX_def get_def the_def_def ret_def)
    have "j < low" if "upvals L b = Some (UOpen j)" for b j
      using open_listD(1)[OF Cons.prems(1) that] i(1,2) that False by fastforce
    then have "closed_above low (stack L) (upvals L) = upvals L"
      by (fastforce simp: closed_above_def fun_eq_iff split: option.splits UpVal.splits)
    then show ?thesis using run by blast
  qed
qed

text \<open>C3. When a closure captures a local variable, a second closure that captures the same variable gets the same
  upvalue, and it is open at the variable's slot. When the block ends (\<open>luaF_close\<close>), exactly the upvalues at \<open>low\<close> and above
  take the value their slot has then and keep it; the ones below stay open.\<close>
theorem upvalues_shared_and_closed:
  assumes "good L" "l_base L \<le> lvl" "lvl < stacksize L" "luaF_findupval lvl L = Inr (a, L1)"
  shows "luaF_findupval lvl L1 = Inr (a, L1) \<and> upvals L1 a = Some (UOpen lvl)
    \<and> (\<exists>L2. luaF_close low L1 = Inr ((), L2) \<and> stack L2 = stack L1 \<and> upvals L2 = closed_above low (stack L1) (upvals L1))"
proof -
  have found: "luaF_findupval lvl M = Inr (b, M)" if ol: "open_list (upvals M) (openupval M)" and ub: "upvals M b = Some (UOpen lvl)" for M b
  proof -
    obtain r where r: "find_open (upvals M) lvl (openupval M) M = Inr (r, M)" "\<And>p. r = Some p \<Longrightarrow> upvals M p = Some (UOpen lvl)"
      "r = None \<Longrightarrow> \<forall>c. upvals M c \<noteq> Some (UOpen lvl)"
      using find_open_spec[OF ol, of lvl M] by blast
    then obtain p where p: "r = Some p" "upvals M p = Some (UOpen lvl)" using ub by (cases r) auto
    have "p = b"
    proof (rule ccontr)
      assume "p \<noteq> b"
      then obtain i j where "i < length (openupval M)" "j < length (openupval M)" "openupval M ! i = p" "openupval M ! j = b" "i \<noteq> j"
        using open_listD(1)[OF ol p(2)] open_listD(1)[OF ol ub] by (metis in_set_conv_nth)
      moreover have "sorted_wrt (higher (upvals M)) (openupval M)" using ol by (simp add: open_list_def)
      ultimately have "higher (upvals M) p b \<or> higher (upvals M) b p" by (metis linorder_neqE_nat sorted_wrt_nth_less)
      then show False using p(2) ub by (auto simp: higher_def)
    qed
    then show ?thesis using r(1) p(1) by (simp add: luaF_findupval_def bindX_def get_def ret_def)
  qed
  have "ok (luaF_findupval lvl) (\<lambda>uv L'. good L') L" by (rule ok_findupval[OF assms(1-3)]) auto
  then have g: "good L1" using assms(4) by (simp add: ok_def)
  note ol = stack_okD(9)[OF goodD(2)[OF g]]
  have up: "upvals L1 a = Some (UOpen lvl)"
  proof -
    obtain r where r: "find_open (upvals L) lvl (openupval L) L = Inr (r, L)" "\<And>p. r = Some p \<Longrightarrow> upvals L p = Some (UOpen lvl)"
      using find_open_spec[OF stack_okD(9)[OF goodD(2)[OF assms(1)]], of lvl L] by blast
    show ?thesis
      using assms(4) r by (cases r) (auto simp: luaF_findupval_def bindX_def get_def ret_def modify_def split: sum.splits prod.splits)
  qed
  have lv: "0 \<le> i \<and> i < stacksize L1" if "i \<in> levels L1" for i using stack_okD(3)[OF goodD(2)[OF g] that] .
  have close: "luaF_close low L1 = close_upvals low (openupval L1) L1" by (simp add: luaF_close_def bindX_def get_def)
  have "\<exists>L2. luaF_close low L1 = Inr ((), L2) \<and> stack L2 = stack L1 \<and> upvals L2 = closed_above low (stack L1) (upvals L1)"
    using close_upvals_run[OF ol lv, of low] unfolding close by auto
  then show ?thesis using found[OF ol up] up by blast
qed

theorem upvalues_shared_and_closed_witness:
  "case luaF_findupval 1 example_L of Inr (a, L1) \<Rightarrow> luaF_findupval 1 L1 = Inr (a, L1) \<and> upvals L1 a = Some (UOpen 1)
   | Inl _ \<Rightarrow> False"
proof -
  obtain a L1 where f: "luaF_findupval 1 example_L = Inr (a, L1)"
    by (simp add: luaF_findupval_def example_L_def example_gstate_def bindX_def get_def ret_def modify_def new_object_def str_alloc_def
        split: sum.splits prod.splits)
  have "l_base example_L = 1" "stacksize example_L = 40" by (simp_all add: example_L_def stacksize_def)
  then show ?thesis using upvalues_shared_and_closed[OF example_good(1) _ _ f] f by simp
qed

end
