(* ===== verification/Spec2Isabelle.thy ===== *)
theory Spec2Isabelle
  imports Server CodeGen ChunkLaws TableMap StrLibLaws VMLaws
begin

text \<open>
  A verification development for MoonWiki: the HTTP server of \<open>moonwiki/MoonWiki.c\<close> and the Lua 5.1.4
  interpreter under \<open>lua/src\<close> that it embeds. The modelled build is the one of \<open>moonwiki/Makefile\<close>:
  MinGW on 32-bit Windows, so \<open>int\<close>, \<open>size_t\<close> and pointers have 32 bits, \<open>lua_Number\<close> is an IEEE double and
  \<open>char\<close> is signed.

  \<^bold>\<open>How the parts fit together.\<close> \<open>main\<close> opens an interpreter, runs the configuration script and either exports
  the pages or serves requests: it accepts a connection and calls a Lua function, which reads and writes
  the socket through registered C functions. Underneath, the interpreter checks and loads binary chunks,
  keeps its values in tables with interned strings as keys, and offers the string library to the scripts;
  the compiler emits code through \<open>lcode.c\<close>.

  \<^bold>\<open>Conventions\<close> (theory \<open>Prelude\<close>). A structure is a record, a C string a list of characters, an index
  stands for a pointer into an array. An operation that can fail returns \<open>Inl\<close> an error or \<open>Inr\<close> its
  result (and the changed state); undefined behaviour of C is the error \<open>Undef\<close>, a loop or recursion without end
  \<open>Diverges\<close>, so a theorem that an operation gives a value, or a Lua error, says that neither happens. The messages
  of run-time errors come without the position that \<open>luaL_where\<close> and \<open>luaG_addinfo\<close> put before them.
  A host function (sockets, the reader and writer of chunks, the allocator, \<open>sprintf\<close>, the Lua functions that
  the C code calls) is a parameter, or a queue of answers that a theorem quantifies over.

  \<^bold>\<open>Theories and what they show.\<close>

  \<^item> \<open>LuaNumber\<close> (\<open>luaconf.h\<close>, \<open>llimits.h\<close>): doubles as 64-bit words with exactly rounded arithmetic, comparison,
    conversion to integers. Integers below \<open>2 ^ 53\<close> are exact.
  \<^item> \<open>Opcodes\<close> (\<open>lopcodes.h\<close>, \<open>lopcodes.c\<close>): instruction fields on 32-bit words, the opcode tables; reading a field
    gives what was written and nothing else changes.
  \<^item> \<open>Objects\<close> (\<open>lobject.h\<close>, \<open>lobject.c\<close>): values, prototypes, floating point bytes, logarithms, raw equality, chunk
    names; bounds of the encodings and of the name buffer.
  \<^item> \<open>Memory\<close> (\<open>lmem.c\<close>): size checks, accounting of bytes, growth of vectors.
  \<^item> \<open>StringTable\<close> (\<open>lstring.c\<close>): interning; equal strings are one object, the table survives growth.
  \<^item> \<open>Tables\<close> (\<open>ltable.c\<close>), with the laws in \<open>TableChains\<close> (chains of nodes), \<open>TableLaws\<close> (the invariant \<open>table_wf\<close> and
    the laws of lookup and insertion), \<open>TableRehash\<close> and \<open>TableCount\<close> (a rehash keeps the map, makes room for the new
    key and chooses the best array size; so \<open>newkey\<close> is entered at most twice, which is the depth of the model) and
    \<open>TableMap\<close> (raw access of \<open>lapi.c\<close> as an implementation of the interface \<open>raw_map\<close>; traversal, length).
  \<^item> \<open>CodeCheck\<close> (\<open>ldebug.c\<close>): the bytecode checker. It always gives a verdict, and code it accepts stays inside its
    code vector under the control flow of \<open>luaV_execute\<close>, apart from the gap for \<open>OP_LOADBOOL\<close> shown there.
  \<^item> \<open>Zio\<close> (\<open>lzio.c\<close>), \<open>Chunks\<close> and \<open>ChunkLaws\<close> (\<open>ldump.c\<close>, \<open>lundump.c\<close>): buffered input, writing and reading of
    precompiled functions; the round trip, truncation, and that what is read has passed the checker.
  \<^item> \<open>CodeGen\<close> (\<open>lcode.c\<close>): the code generator, every operation on the state of the function being compiled.
  \<^item> \<open>Patterns\<close>, \<open>PatternLaws\<close>, \<open>StrLib\<close>, \<open>StrLibLaws\<close> (\<open>lstrlib.c\<close>): the pattern matcher with its depth bounded by
    the pattern's length (every call moves on in the pattern), a declarative meaning of patterns that it agrees with,
    and searching, substitution, iteration and formatting on top of it.
  \<^item> \<open>LuaState\<close> (\<open>lobject.h\<close>, \<open>lstate.h\<close>, \<open>lfunc.c\<close>, \<open>ltm.c\<close>): a thread with its stack, its call frames and the heap of
    objects it reaches; closures, open upvalues, tag methods. \<open>Calls\<close> (\<open>ldo.c\<close>, \<open>ldebug.c\<close>): frames, calls and
    returns, protected calls, run-time error messages. \<open>VM\<close> and \<open>Execute\<close> (\<open>lvm.c\<close>): every operation with its tag
    methods and every instruction of \<open>luaV_execute\<close>. The depth of nested executions and the number of instructions
    are bounded by fuel; running out of it is the exit \<open>Looping\<close>, undefined behaviour is \<open>Undefined\<close>. Host functions
    are a parameter that maps the thread to its next state.
  \<^item> \<open>VMState\<close> to \<open>VMSound\<close>: type soundness of the interpreter. \<open>VMState\<close> says what a well-formed state is (\<open>good\<close>: values
    refer to objects that exist, tables keep \<open>table_wf\<close>, closures have code the checker accepts and the compiler's restrictions
    \<open>tight\<close> hold for, open upvalues are in order, frames nest) and what a piece of the interpreter has to keep (\<open>keeps\<close>);
    \<open>VMHeap\<close>, \<open>VMErrors\<close>, \<open>VMAccess\<close>, \<open>VMOps\<close>, \<open>VMArith\<close> are the operations, \<open>VMFrames\<close> the invariant \<open>running\<close> of the
    frames of one \<open>luaV_execute\<close>, \<open>VMStep\<close>, \<open>VMBranch\<close>, \<open>VMLists\<close>, \<open>VMClosure\<close>, \<open>VMVararg\<close> the instructions inside a function,
    \<open>VMArgs\<close>, \<open>VMCalls\<close>, \<open>VMEnter\<close> calls and returns, \<open>VMSafe\<close> the loop and the induction over nested calls. C functions are
    taken to keep the contract of the C API (\<open>host_ok\<close>), \<open>strcoll\<close> to tell different strings apart (\<open>collates\<close>).
    \<open>VMLaws\<close>: the results of a call, sharing and closing of upvalues.
  \<^item> \<open>Server\<close> (\<open>moonwiki/MoonWiki.c\<close>): the whole server against arbitrary answers of Windows and of the scripts.
    Loops that wait for the network use up one answer per round; the fuel is the number of answers left.

  \<^bold>\<open>Not modelled.\<close> The parser (\<open>lparser.c\<close>), the lexer (\<open>llex.c\<close>), coroutines, hooks and protected parsing (the rest of
  \<open>ldo.c\<close>), creation of states (\<open>lstate.c\<close>), the collector (\<open>lgc.c\<close>), the stack-based interface
  (\<open>lapi.c\<close> beyond raw table access) and the remaining libraries; file and process access is host I/O. The allocator is
  taken to grant what the size checks let through, except in \<open>Memory\<close> and \<open>StringTable\<close>, where it may refuse. A collection
  never runs inside a modelled operation. Of the standard library, \<open>ctype.h\<close> is modelled in the C locale.
\<close>

end
